(* ===== verification/C_Prelude.thy ===== *)
theory C_Prelude
  imports Main "HOL-Library.Word"
begin

text \<open>
  Shared vocabulary of the development.

  \<^item> Names for the C integer types the modelled files use, as machine words.
  \<^item> \<open>byte_at\<close>: one byte of a C array.  Reading outside an array has no meaning in C; the
    model returns 0 there and every theorem that depends on the value states the length of the
    array, so no theorem rests on that choice.
  \<^item> Little- and big-endian loads and stores (\<open>LOAD32_LE\<close> and its relatives of
    \<^verbatim>\<open>private/common.h\<close>, \<open>htonl\<close>, \<open>ntohs\<close>), with their round trips.
  \<^item> \<open>xor_bytes\<close>: the bytewise combination of a message with a key stream.
  \<^item> \<open>write_at\<close>: \<^verbatim>\<open>memcpy(dst + off, src, n)\<close> on a list of bytes.
  \<^item> \<open>bindE\<close>: sequencing of computations that may stop with a fault.
\<close>

unbundle bit_operations_syntax

type_synonym byte = "8 word"
type_synonym u16 = "16 word"
type_synonym u32 = "32 word"
type_synonym u64 = "64 word"

named_theorems len_simps \<open>lengths of the byte strings the operations produce\<close>
named_theorems wf_intros \<open>the operations keep the well-formedness invariants\<close>

section \<open>Reading arrays, loads and stores\<close>

definition byte_at :: "byte list \<Rightarrow> nat \<Rightarrow> byte" where
  "byte_at m i = (if i < length m then m ! i else 0)"

definition load32_le :: "byte list \<Rightarrow> u32" where
  "load32_le src =
     (ucast (byte_at src 0) :: u32)
       OR push_bit 8 (ucast (byte_at src 1))
       OR push_bit 16 (ucast (byte_at src 2))
       OR push_bit 24 (ucast (byte_at src 3))"

definition store32_le :: "u32 \<Rightarrow> byte list" where
  "store32_le w =
     [ucast w, ucast (drop_bit 8 w), ucast (drop_bit 16 w), ucast (drop_bit 24 w)]"

definition store64_le :: "u64 \<Rightarrow> byte list" where
  "store64_le w =
     [ucast w, ucast (drop_bit 8 w), ucast (drop_bit 16 w), ucast (drop_bit 24 w),
      ucast (drop_bit 32 w), ucast (drop_bit 40 w), ucast (drop_bit 48 w), ucast (drop_bit 56 w)]"

definition store32_be :: "u32 \<Rightarrow> byte list" where
  "store32_be w =
     [ucast (drop_bit 24 w), ucast (drop_bit 16 w), ucast (drop_bit 8 w), ucast w]"

definition load32_be :: "byte list \<Rightarrow> u32" where
  "load32_be src =
     push_bit 24 (ucast (byte_at src 0))
       OR push_bit 16 (ucast (byte_at src 1))
       OR push_bit 8 (ucast (byte_at src 2))
       OR ucast (byte_at src 3)"

lemma byte_at_Cons_0 [simp]: "byte_at (x # xs) 0 = x"
  by (simp add: byte_at_def)

lemma byte_at_Cons_Suc [simp]: "byte_at (x # xs) (Suc i) = byte_at xs i"
  by (simp add: byte_at_def)

lemma byte_at_Cons_numeral [simp]:
  "byte_at (x # xs) (numeral n) = byte_at xs (pred_numeral n)"
  by (simp add: numeral_eq_Suc)

lemma byte_at_Nil [simp]: "byte_at [] i = 0"
  by (simp add: byte_at_def)

lemma length_store32_le [simp, len_simps]: "length (store32_le w) = 4"
  by (simp add: store32_le_def)

lemma length_store64_le [simp, len_simps]: "length (store64_le w) = 8"
  by (simp add: store64_le_def)

lemma length_store32_be [simp, len_simps]: "length (store32_be w) = 4"
  by (simp add: store32_be_def)

lemma length_4_eq_list:
  "length xs = 4 \<Longrightarrow> \<exists>a b c d. xs = [a, b, c, d]"
  by (auto simp: numeral_eq_Suc length_Suc_conv)

lemma load32_le_store32_le [simp]: "load32_le (store32_le w) = w"
proof (rule bit_word_eqI)
  fix n
  assume "n < LENGTH(32)"
  then have "n < 8 \<or> (8 \<le> n \<and> n < 16) \<or> (16 \<le> n \<and> n < 24) \<or> (24 \<le> n \<and> n < 32)"
    by auto
  then show "bit (load32_le (store32_le w)) n = bit w n"
    by (auto simp: load32_le_def store32_le_def bit_or_iff bit_push_bit_iff bit_ucast_iff
        bit_drop_bit_eq)
qed

lemma store32_le_load32_le_cons:
  "store32_le (load32_le [a, b, c, d]) = [a, b, c, d]"
  by (auto simp: store32_le_def load32_le_def bit_eq_iff bit_or_iff bit_push_bit_iff bit_ucast_iff
      bit_drop_bit_eq dest: bit_imp_le_length)

lemma store32_le_load32_le: "length xs = 4 \<Longrightarrow> store32_le (load32_le xs) = xs"
  using length_4_eq_list[of xs] store32_le_load32_le_cons by auto

lemma load32_be_store32_be [simp]: "load32_be (store32_be w) = w"
proof (rule bit_word_eqI)
  fix n
  assume "n < LENGTH(32)"
  then have "n < 8 \<or> (8 \<le> n \<and> n < 16) \<or> (16 \<le> n \<and> n < 24) \<or> (24 \<le> n \<and> n < 32)"
    by auto
  then show "bit (load32_be (store32_be w)) n = bit w n"
    by (auto simp: load32_be_def store32_be_def bit_or_iff bit_push_bit_iff bit_ucast_iff
        bit_drop_bit_eq)
qed

lemma store32_le_inj: "store32_le v = store32_le w \<longleftrightarrow> v = w"
  by (metis load32_le_store32_le)

section \<open>Arithmetic of words and little-endian numbers\<close>

lemma div_mod_square: "(x mod (B * B)) div B = x div B mod B" for x B :: nat
proof (cases "B = 0")
  case False
  then show ?thesis by (simp add: mod_mult2_eq)
qed simp

lemma unat_inc: "unat (w + 1) = Suc (unat w) mod 2 ^ LENGTH('a)" for w :: "'a::len word"
  by (simp add: unat_word_ariths)

lemma inc_eq_0_iff: "w + 1 = 0 \<longleftrightarrow> Suc (unat w) mod 2 ^ LENGTH('a) = 0" for w :: "'a::len word"
  by (metis unat_inc unat_0 unat_eq_zero)

fun le_num :: "byte list \<Rightarrow> nat" where
  "le_num [] = 0"
| "le_num (b # bs) = unat b + 256 * le_num bs"

lemma le_num_bound: "le_num bs < 256 ^ length bs"
proof (induction bs)
  case (Cons b bs)
  have "unat b < 256"
    using unsigned_less[of b, where ?'a = nat] by simp
  then show ?case using Cons by simp
qed simp

lemma le_num_append: "le_num (xs @ ys) = le_num xs + 256 ^ length xs * le_num ys"
  by (induction xs) (simp_all add: algebra_simps)

lemma le_num_inj:
  "length xs = length ys \<Longrightarrow> le_num xs = le_num ys \<Longrightarrow> xs = ys"
proof (induction xs ys rule: list_induct2)
  case (Cons x xs y ys)
  have bounds: "unat x < 256" "unat y < 256"
    using unsigned_less[of x, where ?'a = nat] unsigned_less[of y, where ?'a = nat] by simp_all
  from Cons.prems have eq: "unat x + 256 * le_num xs = unat y + 256 * le_num ys" by simp
  then have "(unat x + 256 * le_num xs) mod 256 = (unat y + 256 * le_num ys) mod 256"
    by (rule arg_cong)
  with bounds have "unat x = unat y" by simp
  with eq Cons.IH show ?case by (simp add: word_unat_eq_iff)
qed simp

section \<open>Bytewise exclusive or\<close>

definition xor_bytes :: "byte list \<Rightarrow> byte list \<Rightarrow> byte list" where
  "xor_bytes xs ys = map2 (XOR) xs ys"

lemma length_xor_bytes [simp, len_simps]: "length (xor_bytes xs ys) = min (length xs) (length ys)"
  by (simp add: xor_bytes_def)

lemma xor_bytes_Nil [simp]: "xor_bytes [] ys = []" "xor_bytes xs [] = []"
  by (simp_all add: xor_bytes_def)

lemma xor_bytes_Cons [simp]: "xor_bytes (x # xs) (y # ys) = (x XOR y) # xor_bytes xs ys"
  by (simp add: xor_bytes_def)

lemma xor_bytes_append:
  "length xs = length ks \<Longrightarrow> xor_bytes (xs @ ys) (ks @ ls) = xor_bytes xs ks @ xor_bytes ys ls"
  by (simp add: xor_bytes_def)

lemma xor_bytes_involutive:
  "length xs \<le> length ks \<Longrightarrow> xor_bytes (xor_bytes xs ks) ks = xs"
proof (induction xs arbitrary: ks)
  case (Cons x xs)
  then show ?case by (cases ks) (auto simp: xor.assoc)
qed simp

lemma xor_bytes_take: "take n (xor_bytes xs ks) = xor_bytes (take n xs) (take n ks)"
  by (simp add: xor_bytes_def take_map take_zip)

lemma xor_bytes_take_right: "xor_bytes xs (take (length xs) ks) = xor_bytes xs ks"
proof (induction xs arbitrary: ks)
  case (Cons x xs)
  then show ?case by (cases ks) auto
qed simp

lemma xor_bytes_zeros_left:
  "length ks = n \<Longrightarrow> xor_bytes (replicate n 0) ks = ks"
proof (induction ks arbitrary: n)
  case (Cons k ks)
  then show ?case by (cases n) auto
qed simp

section \<open>Writing arrays\<close>

definition write_at :: "nat \<Rightarrow> byte list \<Rightarrow> byte list \<Rightarrow> byte list" where
  "write_at off bs xs = take off xs @ bs @ drop (off + length bs) xs"

lemma length_write_at [simp, len_simps]:
  "off + length bs \<le> length xs \<Longrightarrow> length (write_at off bs xs) = length xs"
  by (simp add: write_at_def)

lemma take_write_at_end:
  "off + length bs \<le> length xs \<Longrightarrow>
     take (off + length bs) (write_at off bs xs) = take off xs @ bs"
  by (simp add: write_at_def)

lemma take_write_at_before:
  "n \<le> off \<Longrightarrow> off \<le> length xs \<Longrightarrow> take n (write_at off bs xs) = take n xs"
  by (simp add: write_at_def min_absorb1)

lemma take_write_at_0: "length bs \<le> length xs \<Longrightarrow> take (length bs) (write_at 0 bs xs) = bs"
  by (simp add: write_at_def)

lemma write_at_write_at:
  "off + length a \<le> length xs \<Longrightarrow>
     write_at (off + length a) b (write_at off a xs) = write_at off (a @ b) xs"
  by (simp add: write_at_def add_ac)

section \<open>Computations that may stop\<close>

text \<open>
  \<open>exit\<close>, \<open>abort\<close>, a failed \<open>assert\<close> and an access outside a buffer end the process;
  they are values of \<open>fault\<close>.
\<close>

datatype fault = OutOfBounds | AssertFailed | Aborted | FatalExit

type_synonym 'a run = "fault + 'a"

definition bindE :: "'a run \<Rightarrow> ('a \<Rightarrow> 'b run) \<Rightarrow> 'b run" where
  "bindE r f = (case r of Inl e \<Rightarrow> Inl e | Inr x \<Rightarrow> f x)"

definition guardE :: "bool \<Rightarrow> fault \<Rightarrow> unit run" where
  "guardE b e = (if b then Inr () else Inl e)"

lemma bindE_simps [simp]: "bindE (Inl e) f = Inl e" "bindE (Inr x) f = f x"
  by (simp_all add: bindE_def)

lemma bindE_Inr_iff: "bindE r f = Inr y \<longleftrightarrow> (\<exists>x. r = Inr x \<and> f x = Inr y)"
  by (cases r) auto

lemma bindE_assoc: "bindE (bindE r f) k = bindE r (\<lambda>x. bindE (f x) k)"
  by (simp add: bindE_def split: sum.split)

lemma bindE_cong [fundef_cong]:
  "r = r' \<Longrightarrow> (\<And>x. r' = Inr x \<Longrightarrow> f x = f' x) \<Longrightarrow> bindE r f = bindE r' f'"
  by (cases r') auto

lemma guardE_simps [simp]: "guardE True e = Inr ()" "guardE False e = Inl e"
  by (simp_all add: guardE_def)

lemma bindE_guardE_True [simp]: "b \<Longrightarrow> bindE (guardE b e) f = f ()"
  by simp

end
