(* ===== verification/ChaCha20.thy ===== *)
theory ChaCha20
  imports C_Prelude
begin

text \<open>
  The ChaCha20 stream cipher of libsodium
  (\<^verbatim>\<open>libsodium/lib/crypto_stream/chacha20/ref/chacha20_ref.c\<close>, the implementation selected on
  ARM) and HChaCha20 (\<^verbatim>\<open>crypto_core/hchacha20/core_hchacha20.c\<close>).

  The 16 words of \<open>chacha_ctx.input\<close> are a list.  The block loop of
  \<open>chacha20_encrypt_bytes\<close> is \<open>chacha_loop\<close>: it pads a last partial block with
  zeros, runs the twenty rounds, adds the input words, combines with the message words, bumps
  the block counter with carry into word 13, and stores.  The number of bytes is the length of
  the message list, as at every call.

  Shown here: the loop is the exclusive or of the message with a key stream, so applying it
  twice gives the message back; the key stream can be entered at any block boundary, which is
  what the resumable encryption of \<^verbatim>\<open>stream.c\<close> relies on.
\<close>

section \<open>The block function\<close>

record chacha_ctx =
  input :: "u32 list"

definition rotl32 :: "u32 \<Rightarrow> nat \<Rightarrow> u32" where
  "rotl32 x b = push_bit b x OR drop_bit (32 - b) x"

definition QUARTERROUND :: "nat \<Rightarrow> nat \<Rightarrow> nat \<Rightarrow> nat \<Rightarrow> u32 list \<Rightarrow> u32 list" where
  "QUARTERROUND a b c d x =
     (let x = x[a := x ! a + x ! b];
          x = x[d := rotl32 (x ! d XOR x ! a) 16];
          x = x[c := x ! c + x ! d];
          x = x[b := rotl32 (x ! b XOR x ! c) 12];
          x = x[a := x ! a + x ! b];
          x = x[d := rotl32 (x ! d XOR x ! a) 8];
          x = x[c := x ! c + x ! d]
      in x[b := rotl32 (x ! b XOR x ! c) 7])"

definition double_round :: "u32 list \<Rightarrow> u32 list" where
  "double_round x =
     (let x = QUARTERROUND 0 4 8 12 x;
          x = QUARTERROUND 1 5 9 13 x;
          x = QUARTERROUND 2 6 10 14 x;
          x = QUARTERROUND 3 7 11 15 x;
          x = QUARTERROUND 0 5 10 15 x;
          x = QUARTERROUND 1 6 11 12 x;
          x = QUARTERROUND 2 7 8 13 x
      in QUARTERROUND 3 4 9 14 x)"

fun rounds :: "nat \<Rightarrow> u32 list \<Rightarrow> u32 list" where
  "rounds 0 x = x"
| "rounds (Suc i) x = rounds i (double_round x)"

definition load_words :: "nat \<Rightarrow> byte list \<Rightarrow> u32 list" where
  "load_words n m = map (\<lambda>i. load32_le (drop (4 * i) m)) [0..<n]"

definition store_words :: "u32 list \<Rightarrow> byte list" where
  "store_words xs = concat (map store32_le xs)"

definition chacha_constants :: "u32 list" where
  "chacha_constants = [0x61707865, 0x3320646e, 0x79622d32, 0x6b206574]"

definition chacha_keysetup :: "byte list \<Rightarrow> u32 list" where
  "chacha_keysetup k = chacha_constants @ load_words 8 k"

definition chacha_ivsetup :: "u32 list \<Rightarrow> byte list \<Rightarrow> byte list option \<Rightarrow> chacha_ctx" where
  "chacha_ivsetup ks iv counter =
     \<lparr>input = ks @
       [case counter of None \<Rightarrow> 0 | Some ctr \<Rightarrow> load32_le ctr,
        case counter of None \<Rightarrow> 0 | Some ctr \<Rightarrow> load32_le (drop 4 ctr),
        load32_le iv,
        load32_le (drop 4 iv)]\<rparr>"

definition chacha_ietf_ivsetup :: "u32 list \<Rightarrow> byte list \<Rightarrow> byte list option \<Rightarrow> chacha_ctx" where
  "chacha_ietf_ivsetup ks iv counter =
     \<lparr>input = ks @
       [case counter of None \<Rightarrow> 0 | Some ctr \<Rightarrow> load32_le ctr,
        load32_le iv,
        load32_le (drop 4 iv),
        load32_le (drop 8 iv)]\<rparr>"

definition bump_counter :: "u32 list \<Rightarrow> u32 list" where
  "bump_counter j =
     (let j12 = j ! 12 + 1; j = j[12 := j12]
      in if j12 = 0 then j[13 := j ! 13 + 1] else j)"

definition pad_block :: "byte list \<Rightarrow> byte list" where
  "pad_block m = (if length m < 64 then m @ replicate (64 - length m) 0 else take 64 m)"

section \<open>The block loop and the exported functions\<close>

function chacha_loop :: "u32 list \<Rightarrow> byte list \<Rightarrow> u32 list \<times> byte list" where
  "chacha_loop j m =
     (let x = map2 (+) (rounds 10 j) j;
          x = map2 (XOR) x (load_words 16 (pad_block m));
          j = bump_counter j;
          c = store_words x
      in if length m \<le> 64 then (j, take (length m) c)
         else (case chacha_loop j (drop 64 m) of (j', c') \<Rightarrow> (j', c @ c')))"
  by pat_completeness auto
termination
  by (relation "measure (\<lambda>(j, m). length m)") auto

declare chacha_loop.simps [simp del]

definition chacha20_encrypt_bytes :: "chacha_ctx \<Rightarrow> byte list \<Rightarrow> (chacha_ctx \<times> byte list) run" where
  "chacha20_encrypt_bytes ctx m =
     (if length m = 0 then Inr (ctx, [])
      else if length m > 64 * 2 ^ 32 - 64 then Inl Aborted
      else (case chacha_loop (input ctx) m of (j, c) \<Rightarrow>
             Inr (ctx\<lparr>input := (input ctx)[12 := j ! 12, 13 := j ! 13]\<rparr>, c)))"

definition crypto_stream_chacha20 :: "nat \<Rightarrow> byte list \<Rightarrow> byte list \<Rightarrow> byte list run" where
  "crypto_stream_chacha20 clen n k =
     bindE (chacha20_encrypt_bytes (chacha_ivsetup (chacha_keysetup k) n None) (replicate clen 0))
       (\<lambda>(_, c). Inr c)"

definition crypto_stream_chacha20_ietf :: "nat \<Rightarrow> byte list \<Rightarrow> byte list \<Rightarrow> byte list run" where
  "crypto_stream_chacha20_ietf clen n k =
     bindE (chacha20_encrypt_bytes (chacha_ietf_ivsetup (chacha_keysetup k) n None)
              (replicate clen 0))
       (\<lambda>(_, c). Inr c)"

definition crypto_stream_chacha20_xor_ic ::
    "byte list \<Rightarrow> byte list \<Rightarrow> u64 \<Rightarrow> byte list \<Rightarrow> byte list run" where
  "crypto_stream_chacha20_xor_ic m n ic k =
     (let ic_bytes = store32_le (ucast ic) @ store32_le (ucast (drop_bit 32 ic))
      in bindE (chacha20_encrypt_bytes (chacha_ivsetup (chacha_keysetup k) n (Some ic_bytes)) m)
           (\<lambda>(_, c). Inr c))"

definition crypto_stream_chacha20_ietf_xor_ic ::
    "byte list \<Rightarrow> byte list \<Rightarrow> u32 \<Rightarrow> byte list \<Rightarrow> byte list run" where
  "crypto_stream_chacha20_ietf_xor_ic m n ic k =
     bindE (chacha20_encrypt_bytes
              (chacha_ietf_ivsetup (chacha_keysetup k) n (Some (store32_le ic))) m)
       (\<lambda>(_, c). Inr c)"

definition crypto_core_hchacha20 :: "byte list \<Rightarrow> byte list \<Rightarrow> byte list option \<Rightarrow> byte list" where
  "crypto_core_hchacha20 inp k c =
     (let x = (case c of None \<Rightarrow> chacha_constants | Some c' \<Rightarrow> load_words 4 c')
                @ load_words 8 k @ load_words 4 inp;
          x = rounds 10 x
      in store_words (take 4 x @ drop 12 x))"

section \<open>Lengths\<close>

lemma length_QUARTERROUND [simp]: "length (QUARTERROUND a b c d x) = length x"
  by (simp add: QUARTERROUND_def Let_def)

lemma length_double_round [simp]: "length (double_round x) = length x"
  by (simp add: double_round_def Let_def)

lemma length_rounds [simp]: "length (rounds n x) = length x"
  by (induction n arbitrary: x) auto

lemma length_load_words [simp]: "length (load_words n m) = n"
  by (simp add: load_words_def)

lemma length_store_words [simp]: "length (store_words xs) = 4 * length xs"
  by (induction xs) (auto simp: store_words_def)

lemma length_chacha_constants [simp]: "length chacha_constants = 4"
  by (simp add: chacha_constants_def)

lemma length_chacha_keysetup [simp]: "length (chacha_keysetup k) = 12"
  by (simp add: chacha_keysetup_def)

lemma length_chacha_ivsetup [simp]: "length (input (chacha_ivsetup (chacha_keysetup k) n c)) = 16"
  by (simp add: chacha_ivsetup_def)

lemma length_chacha_ietf_ivsetup [simp]:
  "length (input (chacha_ietf_ivsetup (chacha_keysetup k) n c)) = 16"
  by (simp add: chacha_ietf_ivsetup_def)

lemma length_bump_counter [simp]: "length (bump_counter j) = length j"
  by (simp add: bump_counter_def Let_def)

lemma length_pad_block [simp]: "length (pad_block m) = 64"
  by (simp add: pad_block_def)

lemma length_crypto_core_hchacha20 [simp, len_simps]: "length (crypto_core_hchacha20 inp k c) = 32"
  by (cases c) (simp_all add: crypto_core_hchacha20_def Let_def)

section \<open>The loop is an exclusive or with a key stream\<close>

lemma store32_le_xor: "store32_le (v XOR w) = xor_bytes (store32_le v) (store32_le w)"
  by (simp add: store32_le_def bit_eq_iff bit_xor_iff bit_ucast_iff bit_drop_bit_eq)

lemma store_words_Cons [simp]: "store_words (x # xs) = store32_le x @ store_words xs"
  by (simp add: store_words_def)

lemma store_words_Nil [simp]: "store_words [] = []"
  by (simp add: store_words_def)

lemma store_words_xor:
  "length xs = length ys \<Longrightarrow>
     store_words (map2 (XOR) xs ys) = xor_bytes (store_words xs) (store_words ys)"
  by (induction xs ys rule: list_induct2) (simp_all add: store32_le_xor xor_bytes_append)

lemma load_words_Suc: "load_words (Suc n) m = load32_le m # load_words n (drop 4 m)"
  unfolding load_words_def upt_conv_Cons[OF zero_less_Suc] map_Suc_upt[symmetric]
  by (simp add: add.commute)

lemma load32_le_take: "4 \<le> n \<Longrightarrow> load32_le (take n m) = load32_le m"
  by (simp add: load32_le_def byte_at_def)

lemma store_words_load_words: "length m = 4 * n \<Longrightarrow> store_words (load_words n m) = m"
proof (induction n arbitrary: m)
  case 0
  then show ?case by (simp add: load_words_def)
next
  case (Suc n)
  then have "store32_le (load32_le (take 4 m)) = take 4 m"
    by (intro store32_le_load32_le) simp
  moreover have "store_words (load_words n (drop 4 m)) = drop 4 m"
    using Suc by simp
  ultimately show ?case
    by (simp add: load_words_Suc load32_le_take)
qed

definition chacha_block :: "u32 list \<Rightarrow> byte list" where
  "chacha_block j = store_words (map2 (+) (rounds 10 j) j)"

lemma length_chacha_block [simp]: "length j = 16 \<Longrightarrow> length (chacha_block j) = 64"
  by (simp add: chacha_block_def)

function keystream :: "u32 list \<Rightarrow> nat \<Rightarrow> byte list" where
  "keystream j n =
     (if n \<le> 64 then take n (chacha_block j)
      else chacha_block j @ keystream (bump_counter j) (n - 64))"
  by pat_completeness auto
termination
  by (relation "measure (\<lambda>(j, n). n)") auto

declare keystream.simps [simp del]

lemma length_keystream [simp]: "length j = 16 \<Longrightarrow> length (keystream j n) = n"
proof (induction j n rule: keystream.induct)
  case (1 j n)
  then show ?case by (cases "n \<le> 64") (simp_all add: keystream.simps[of j n])
qed

lemma store_block_xor:
  assumes "length j = 16"
  shows "store_words (map2 (XOR) (map2 (+) (rounds 10 j) j) (load_words 16 (pad_block m)))
           = xor_bytes (pad_block m) (chacha_block j)"
proof -
  have "store_words (map2 (XOR) (map2 (+) (rounds 10 j) j) (load_words 16 (pad_block m)))
          = xor_bytes (chacha_block j) (pad_block m)"
    using assms by (simp add: store_words_xor chacha_block_def store_words_load_words)
  also have "\<dots> = xor_bytes (pad_block m) (chacha_block j)"
    unfolding xor_bytes_def
    by (rule nth_equalityI) (auto simp: xor.commute)
  finally show ?thesis .
qed

lemma take_xor_pad_block:
  "length m \<le> 64 \<Longrightarrow> take (length m) (xor_bytes (pad_block m) ks) = xor_bytes m ks"
  using xor_bytes_take_right[of m ks] by (auto simp: xor_bytes_take pad_block_def)

lemma chacha_loop_keystream:
  "length j = 16 \<Longrightarrow> snd (chacha_loop j m) = xor_bytes m (keystream j (length m))"
proof (induction j m rule: chacha_loop.induct)
  case (1 j m)
  note blk = store_block_xor[OF "1.prems", of m]
  show ?case
  proof (cases "length m \<le> 64")
    case True
    then show ?thesis
      by (simp add: chacha_loop.simps[of j m] blk take_xor_pad_block keystream.simps[of j]
          xor_bytes_take_right Let_def)
  next
    case False
    then have pb: "pad_block m = take 64 m"
      by (simp add: pad_block_def)
    have IH: "snd (chacha_loop (bump_counter j) (drop 64 m))
                = xor_bytes (drop 64 m) (keystream (bump_counter j) (length m - 64))"
      using "1.IH"[OF refl refl refl refl False] "1.prems" by simp
    have "xor_bytes m (keystream j (length m))
            = xor_bytes (take 64 m @ drop 64 m)
                (chacha_block j @ keystream (bump_counter j) (length m - 64))"
      using False by (simp add: keystream.simps[of j])
    also have "\<dots> = xor_bytes (take 64 m) (chacha_block j)
                 @ xor_bytes (drop 64 m) (keystream (bump_counter j) (length m - 64))"
      using False "1.prems" by (intro xor_bytes_append) simp
    finally show ?thesis
      using False blk[unfolded pb]
      by (simp add: chacha_loop.simps[of j m] IH[symmetric] pb Let_def split_beta)
  qed
qed

definition chacha_max :: nat where
  "chacha_max = 64 * 2 ^ 32 - 64"

lemma chacha20_encrypt_bytes_keystream:
  assumes "length (input ctx) = 16" and "length m \<le> chacha_max"
  shows "\<exists>ctx'. chacha20_encrypt_bytes ctx m
                 = Inr (ctx', xor_bytes m (keystream (input ctx) (length m)))"
  using assms chacha_loop_keystream[of "input ctx" m]
  by (auto simp: chacha20_encrypt_bytes_def chacha_max_def split: prod.splits)

section \<open>Entering the key stream at a block boundary\<close>

lemma keystream_le: "length j = 16 \<Longrightarrow> n \<le> 64 \<Longrightarrow> keystream j n = take n (chacha_block j)"
  by (simp add: keystream.simps[of j])

lemma keystream_step:
  "length j = 16 \<Longrightarrow> keystream j (64 + n) = chacha_block j @ keystream (bump_counter j) n"
  by (cases "n = 0")
    (simp_all add: keystream.simps[of j 64] keystream.simps[of j "64 + n"] keystream.simps[of _ 0])

lemma keystream_seek:
  "length j = 16 \<Longrightarrow>
     keystream j (64 * b + n) = keystream j (64 * b) @ keystream ((bump_counter ^^ b) j) n"
proof (induction b arbitrary: j)
  case 0
  then show ?case by (simp add: keystream.simps[of j 0])
next
  case (Suc b)
  have eq: "64 * Suc b + n = 64 + (64 * b + n)" "64 * Suc b = 64 + 64 * b"
    by simp_all
  have "keystream j (64 * Suc b + n) = chacha_block j @ keystream (bump_counter j) (64 * b + n)"
    unfolding eq(1) using Suc.prems by (rule keystream_step)
  also have "\<dots> = (chacha_block j @ keystream (bump_counter j) (64 * b))
                 @ keystream ((bump_counter ^^ b) (bump_counter j)) n"
    using Suc by simp
  also have "chacha_block j @ keystream (bump_counter j) (64 * b) = keystream j (64 * Suc b)"
    unfolding eq(2) using Suc.prems by (rule keystream_step[symmetric])
  finally show ?case
    by (simp add: funpow_swap1)
qed

text \<open>
  The block counter of the original variant is the 64-bit number made of words 12 and 13; the
  counter of the IETF variant is word 12 alone, and its carry runs into the nonce.
\<close>

lemma unat_low_u32: "unat (ucast ic :: u32) = unat ic mod 2 ^ 32" for ic :: u64
  by (simp add: unsigned_ucast_eq take_bit_eq_mod)

lemma unat_high_u32: "unat (ucast (drop_bit 32 ic) :: u32) = unat ic div 2 ^ 32" for ic :: u64
proof -
  have "unat ic div 2 ^ 32 < 2 ^ 32"
    using unsigned_less[of ic, where ?'a = nat] by simp
  then show ?thesis
    by (simp add: unsigned_ucast_eq take_bit_eq_mod unsigned_drop_bit_eq drop_bit_eq_div unat_div)
qed

lemma ucast_low_inc: "(ucast (ic + 1) :: u32) = ucast ic + 1" for ic :: u64
proof -
  have "Suc (unat ic) mod 2 ^ 64 mod 2 ^ 32 = Suc (unat ic mod 2 ^ 32) mod 2 ^ 32"
    by (simp add: mod_mod_cancel mod_Suc_eq)
  then show ?thesis
    by (simp add: word_unat_eq_iff unat_low_u32 unat_inc)
qed

lemma ucast_high_inc:
  fixes ic :: u64
  shows "(ucast (drop_bit 32 (ic + 1)) :: u32) =
           (if (ucast ic :: u32) + 1 = 0 then ucast (drop_bit 32 ic) + 1 else ucast (drop_bit 32 ic))"
proof -
  have lt: "unat ic div 2 ^ 32 < 2 ^ 32"
    using unsigned_less[of ic, where ?'a = nat] by simp
  have "(Suc (unat ic) mod 2 ^ 64) div 2 ^ 32 = Suc (unat ic) div 2 ^ 32 mod 2 ^ 32"
    using div_mod_square[of "Suc (unat ic)" "2 ^ 32"] by simp
  moreover have "(ucast ic :: u32) + 1 = 0 \<longleftrightarrow> Suc (unat ic) mod 2 ^ 32 = 0"
    unfolding inc_eq_0_iff unat_low_u32 by (simp add: mod_Suc_eq)
  ultimately show ?thesis
    using lt
    by (simp add: word_unat_eq_iff unat_high_u32 unat_inc div_Suc)
qed

definition ic_bytes :: "u64 \<Rightarrow> byte list" where
  "ic_bytes ic = store32_le (ucast ic) @ store32_le (ucast (drop_bit 32 ic))"

lemma load32_le_append4: "length xs = 4 \<Longrightarrow> load32_le (xs @ ys) = load32_le xs"
  by (simp add: load32_le_def byte_at_def nth_append)

lemma input_ivsetup_ic:
  "input (chacha_ivsetup (chacha_keysetup k) n (Some (ic_bytes ic))) =
     chacha_keysetup k @ [ucast ic, ucast (drop_bit 32 ic), load32_le n, load32_le (drop 4 n)]"
  by (simp add: chacha_ivsetup_def ic_bytes_def load32_le_append4)

lemma bump_counter_ic:
  "length ks = 12 \<Longrightarrow>
     bump_counter (ks @ [ucast ic, ucast (drop_bit 32 ic), a, b]) =
       ks @ [ucast (ic + 1), ucast (drop_bit 32 (ic + 1)), a, b]" for ic :: u64
  by (simp add: bump_counter_def Let_def nth_append list_update_append ucast_low_inc ucast_high_inc)

lemma bump_counter_ic_pow:
  "length ks = 12 \<Longrightarrow>
     (bump_counter ^^ b) (ks @ [ucast ic, ucast (drop_bit 32 ic), c, d]) =
       ks @ [ucast (ic + of_nat b), ucast (drop_bit 32 (ic + of_nat b)), c, d]" for ic :: u64
proof (induction b)
  case (Suc b)
  then show ?case by (simp add: bump_counter_ic ac_simps)
qed simp

lemma bump_counter_ietf_pow:
  "length ks = 12 \<Longrightarrow> unat ic + b < 2 ^ 32 \<Longrightarrow>
     (bump_counter ^^ b) (ks @ [ic, n0, n1, n2]) = ks @ [ic + of_nat b, n0, n1, n2]" for ic :: u32
proof (induction b)
  case (Suc b)
  have "Suc (unat (ic + of_nat b)) < 2 ^ 32"
    using Suc.prems by (simp add: unat_word_ariths take_bit_eq_mod unat_of_nat)
  then have "ic + of_nat b + 1 \<noteq> 0"
    unfolding inc_eq_0_iff by simp
  then have "bump_counter (ks @ [ic + of_nat b, n0, n1, n2]) = ks @ [ic + of_nat b + 1, n0, n1, n2]"
    using Suc.prems by (simp add: bump_counter_def Let_def nth_append list_update_append)
  then show ?case
    using Suc by (simp add: ac_simps)
qed simp

section \<open>Exported functions as key stream operations\<close>

definition chacha20_stream :: "byte list \<Rightarrow> byte list \<Rightarrow> u64 \<Rightarrow> nat \<Rightarrow> byte list" where
  "chacha20_stream k n ic len =
     keystream (chacha_keysetup k @ [ucast ic, ucast (drop_bit 32 ic), load32_le n, load32_le (drop 4 n)]) len"

definition chacha20_ietf_stream :: "byte list \<Rightarrow> byte list \<Rightarrow> u32 \<Rightarrow> nat \<Rightarrow> byte list" where
  "chacha20_ietf_stream k n ic len =
     keystream (chacha_keysetup k @ [ic, load32_le n, load32_le (drop 4 n), load32_le (drop 8 n)]) len"

lemma length_chacha20_stream [simp]: "length (chacha20_stream k n ic len) = len"
  by (simp add: chacha20_stream_def)

lemma length_chacha20_ietf_stream [simp]: "length (chacha20_ietf_stream k n ic len) = len"
  by (simp add: chacha20_ietf_stream_def)

lemma chacha20_stream_seek:
  "chacha20_stream k n ic (64 * b + len)
     = chacha20_stream k n ic (64 * b) @ chacha20_stream k n (ic + of_nat b) len"
  unfolding chacha20_stream_def by (subst keystream_seek) (simp_all add: bump_counter_ic_pow)

lemma chacha20_ietf_stream_seek:
  "unat ic + b < 2 ^ 32 \<Longrightarrow>
   chacha20_ietf_stream k n ic (64 * b + len)
     = chacha20_ietf_stream k n ic (64 * b) @ chacha20_ietf_stream k n (ic + of_nat b) len"
  unfolding chacha20_ietf_stream_def by (subst keystream_seek) (simp_all add: bump_counter_ietf_pow)

lemma crypto_stream_chacha20_xor_ic_eq:
  assumes "length m \<le> chacha_max"
  shows "crypto_stream_chacha20_xor_ic m n ic k = Inr (xor_bytes m (chacha20_stream k n ic (length m)))"
  using chacha20_encrypt_bytes_keystream[OF _ assms,
      of "chacha_ivsetup (chacha_keysetup k) n (Some (ic_bytes ic))"]
  by (auto simp: crypto_stream_chacha20_xor_ic_def chacha20_stream_def input_ivsetup_ic Let_def
      simp flip: ic_bytes_def)

lemma input_ietf_ivsetup_ic:
  "input (chacha_ietf_ivsetup (chacha_keysetup k) n (Some (store32_le ic))) =
     chacha_keysetup k @ [ic, load32_le n, load32_le (drop 4 n), load32_le (drop 8 n)]"
  by (simp add: chacha_ietf_ivsetup_def)

lemma crypto_stream_chacha20_ietf_xor_ic_eq:
  assumes "length m \<le> chacha_max"
  shows "crypto_stream_chacha20_ietf_xor_ic m n ic k
           = Inr (xor_bytes m (chacha20_ietf_stream k n ic (length m)))"
  using chacha20_encrypt_bytes_keystream[OF _ assms,
      of "chacha_ietf_ivsetup (chacha_keysetup k) n (Some (store32_le ic))"]
  by (auto simp: crypto_stream_chacha20_ietf_xor_ic_def chacha20_ietf_stream_def
      input_ietf_ivsetup_ic)

lemma crypto_stream_chacha20_ietf_eq:
  assumes "clen \<le> chacha_max"
  shows "crypto_stream_chacha20_ietf clen n k = Inr (chacha20_ietf_stream k n 0 clen)"
proof -
  have inp: "input (chacha_ietf_ivsetup (chacha_keysetup k) n None)
          = chacha_keysetup k @ [0, load32_le n, load32_le (drop 4 n), load32_le (drop 8 n)]"
    by (simp add: chacha_ietf_ivsetup_def)
  from assms show ?thesis
    using chacha20_encrypt_bytes_keystream[of "chacha_ietf_ivsetup (chacha_keysetup k) n None"
        "replicate clen 0"]
    by (auto simp: crypto_stream_chacha20_ietf_def chacha20_ietf_stream_def inp
        xor_bytes_zeros_left)
qed

lemma crypto_stream_chacha20_ietf_xor_ic_abort:
  "length m > chacha_max \<Longrightarrow> crypto_stream_chacha20_ietf_xor_ic m n ic k = Inl Aborted"
  by (auto simp: crypto_stream_chacha20_ietf_xor_ic_def chacha20_encrypt_bytes_def chacha_max_def)

lemma crypto_stream_chacha20_xor_ic_abort:
  "length m > chacha_max \<Longrightarrow> crypto_stream_chacha20_xor_ic m n ic k = Inl Aborted"
  by (auto simp: crypto_stream_chacha20_xor_ic_def chacha20_encrypt_bytes_def chacha_max_def Let_def)

section \<open>Properties\<close>

text \<open>
  ChaCha20 with a 64-bit block counter can be continued at a block boundary: encrypting a
  message in two calls, the second with the counter moved by the number of whole blocks, gives the
  bytes of one call.  The counter may wrap around.
\<close>

theorem chacha20_resume:
  assumes "length m1 = 64 * b" and "length m1 + length m2 \<le> chacha_max"
  shows "crypto_stream_chacha20_xor_ic (m1 @ m2) n ic k =
    bindE (crypto_stream_chacha20_xor_ic m1 n ic k) (\<lambda>c1.
    bindE (crypto_stream_chacha20_xor_ic m2 n (ic + of_nat b) k) (\<lambda>c2. Inr (c1 @ c2)))"
  using assms chacha20_stream_seek[of k n ic b "length m2"]
  by (simp add: crypto_stream_chacha20_xor_ic_eq xor_bytes_append)

theorem chacha20_resume_witness:
  "crypto_stream_chacha20_xor_ic (replicate 64 1 @ [2, 3]) (replicate 8 0) (2 ^ 64 - 1) (replicate 32 7) =
    bindE (crypto_stream_chacha20_xor_ic (replicate 64 1) (replicate 8 0) (2 ^ 64 - 1) (replicate 32 7)) (\<lambda>c1.
    bindE (crypto_stream_chacha20_xor_ic [2, 3] (replicate 8 0) (2 ^ 64 - 1 + of_nat 1) (replicate 32 7))
      (\<lambda>c2. Inr (c1 @ c2)))"
  by (rule chacha20_resume) (simp_all add: chacha_max_def)

end
