(* ===== verification/Sodium_Util.thy ===== *)
theory Sodium_Util
  imports C_Prelude
begin

text \<open>
  Helpers of libsodium the packet encryption uses: \<open>sodium_increment\<close>
  (\<^verbatim>\<open>libsodium/lib/sodium/utils.c\<close>, the portable loop) and \<open>crypto_verify_16\<close>
  (\<^verbatim>\<open>libsodium/lib/crypto_verify/sodium/verify.c\<close>).

  Shown here: the increment is addition of one to a little-endian number modulo its size, hence
  the nonces of a session are pairwise different; the constant-time comparison returns 0 exactly
  for equal arrays and -1 otherwise.
\<close>

section \<open>Nonce increment\<close>

text \<open>
  \<open>carry_loop\<close> is the loop \<^verbatim>\<open>c += n[i]; n[i] = c; c >>= 8\<close>, for the width of the variable
  \<open>c\<close>: \<open>uint_fast16_t\<close> here, \<open>unsigned int\<close> in the Salsa20 code.
\<close>

fun carry_loop :: "'a::len word \<Rightarrow> byte list \<Rightarrow> byte list" where
  "carry_loop c [] = []"
| "carry_loop c (x # xs) =
     (let c = c + ucast x in ucast c # carry_loop (drop_bit 8 c) xs)"

definition sodium_increment :: "byte list \<Rightarrow> byte list" where
  "sodium_increment n = carry_loop (1 :: u16) n"

lemma length_carry_loop [simp]: "length (carry_loop c n) = length n"
  by (induction n arbitrary: c) (simp_all add: Let_def)

lemma length_sodium_increment [simp, len_simps]: "length (sodium_increment n) = length n"
  by (simp add: sodium_increment_def)

lemma length_increment_pow [simp]: "length ((sodium_increment ^^ i) n) = length n"
  by (induction i) auto

lemma unat_add_ucast_byte:
  fixes c :: "'a::len word" and x :: byte
  assumes "9 \<le> LENGTH('a)" and "unat c \<le> 1"
  shows "unat (c + ucast x) = unat c + unat x"
proof -
  have x: "unat x < 256"
    using unsigned_less[of x, where ?'a = nat] by simp
  have p: "(2 :: nat) ^ 9 \<le> 2 ^ LENGTH('a)"
    using assms(1) by (intro power_increasing) simp_all
  have ux: "unat (ucast x :: 'a word) = unat x"
    using x p by (simp add: unsigned_ucast_eq take_bit_eq_mod)
  have "unat c + unat x < 2 ^ LENGTH('a)" using x p assms(2) by simp
  then show ?thesis by (simp add: unat_word_ariths ux)
qed

lemma le_num_carry_loop:
  fixes c :: "'a::len word"
  assumes "9 \<le> LENGTH('a)" and "unat c \<le> 1"
  shows "le_num (carry_loop c n) = (le_num n + unat c) mod 256 ^ length n"
  using assms(2)
proof (induction n arbitrary: c)
  case (Cons x xs)
  let ?s = "unat c + unat x"
  have sum: "unat (c + ucast x) = ?s"
    using assms(1) Cons.prems by (rule unat_add_ucast_byte)
  have "unat x < 256"
    using unsigned_less[of x, where ?'a = nat] by simp
  with Cons.prems have s_lt: "?s div 256 \<le> 1" by simp
  have hi: "unat (drop_bit 8 (c + ucast x)) = ?s div 256"
    by (simp only: unat_drop_bit_eq sum) (simp add: drop_bit_eq_div)
  have lo: "unat (ucast (c + ucast x) :: byte) = ?s mod 256"
    by (simp add: unsigned_ucast_eq take_bit_eq_mod sum)
  have "le_num (carry_loop c (x # xs))
          = ?s mod 256 + 256 * ((le_num xs + ?s div 256) mod 256 ^ length xs)"
    using Cons.IH[of "drop_bit 8 (c + ucast x)"] s_lt by (simp add: Let_def lo hi)
  also have "\<dots> = (?s + 256 * le_num xs) mod (256 * 256 ^ length xs)"
    by (simp add: mod_mult2_eq add.commute)
  finally show ?case
    by (simp add: algebra_simps)
qed simp

lemma le_num_sodium_increment:
  "le_num (sodium_increment n) = (le_num n + 1) mod 256 ^ length n"
  by (simp add: sodium_increment_def le_num_carry_loop)

lemma le_num_sodium_increment_pow:
  "le_num ((sodium_increment ^^ i) n) = (le_num n + i) mod 256 ^ length n"
proof (induction i)
  case 0
  then show ?case by (simp add: le_num_bound)
next
  case (Suc i)
  then show ?case by (simp add: le_num_sodium_increment mod_Suc_eq)
qed

section \<open>Constant-time comparison\<close>

fun verify_loop :: "u16 \<Rightarrow> byte list \<Rightarrow> byte list \<Rightarrow> nat \<Rightarrow> u16" where
  "verify_loop d x y 0 = d"
| "verify_loop d x y (Suc n) =
     verify_loop (d OR ucast (byte_at x 0 XOR byte_at y 0)) (drop 1 x) (drop 1 y) n"

definition crypto_verify_16 :: "byte list \<Rightarrow> byte list \<Rightarrow> int" where
  "crypto_verify_16 x y =
     uint (1 AND drop_bit 8 (verify_loop 0 x y 16 - 1)) - 1"

lemma or_eq_0_iff: "a OR b = 0 \<longleftrightarrow> a = 0 \<and> b = 0" for a b :: "'a::len word"
  by (auto simp: bit_eq_iff bit_or_iff)

lemma xor_eq_0_iff: "a XOR b = 0 \<longleftrightarrow> a = b" for a b :: "'a::len word"
  by (auto simp: bit_eq_iff bit_xor_iff)

lemma unat_ucast_byte_u16: "unat (ucast b :: u16) = unat b" for b :: byte
  using unsigned_less[of b, where ?'a = nat] by (simp add: unsigned_ucast_eq take_bit_eq_mod)

lemma ucast_byte_eq_0_iff: "(ucast b :: u16) = 0 \<longleftrightarrow> b = 0" for b :: byte
  by (metis unat_ucast_byte_u16 unat_eq_zero)

lemma verify_loop_eq_0_iff:
  "length x = n \<Longrightarrow> length y = n \<Longrightarrow> verify_loop d x y n = 0 \<longleftrightarrow> d = 0 \<and> x = y"
proof (induction n arbitrary: d x y)
  case (Suc n)
  then obtain a x' b y' where "x = a # x'" "y = b # y'" "length x' = n" "length y' = n"
    by (auto simp: length_Suc_conv)
  with Suc.IH[of x' y'] show ?case
    by (auto simp: or_eq_0_iff xor_eq_0_iff ucast_byte_eq_0_iff)
qed simp

lemma uint_or_ucast_byte_bound:
  fixes b :: byte
  assumes "uint d < 2 ^ 8"
  shows "uint (d OR ucast b :: u16) < 2 ^ 8"
proof -
  have "uint (ucast b :: u16) = uint b"
    using unsigned_less[of b, where ?'a = int] by (simp add: unsigned_ucast_eq take_bit_eq_mod)
  then have "uint (ucast b :: u16) < 2 ^ 8"
    using unsigned_less[of b, where ?'a = int] by simp
  with assms show ?thesis
    unfolding unsigned_or_eq by (intro OR_upper) simp_all
qed

lemma verify_loop_bound: "uint d < 2 ^ 8 \<Longrightarrow> uint (verify_loop d x y n) < 2 ^ 8"
proof (induction n arbitrary: d x y)
  case (Suc n)
  show ?case
    unfolding verify_loop.simps by (rule Suc.IH, rule uint_or_ucast_byte_bound, rule Suc.prems)
qed simp

lemma verify_result:
  assumes "uint d < 2 ^ 8"
  shows "uint (1 AND drop_bit 8 (d - 1 :: u16)) = (if d = 0 then 1 else 0)"
proof (cases "d = 0")
  case False
  then have "0 < uint d"
    using unsigned_greater_eq[of d] by (metis uint_0_iff order_le_imp_less_or_eq)
  then have "uint (d - 1) = uint d - 1"
    using assms by (simp add: uint_word_ariths)
  with assms have "uint (d - 1) div 256 = 0"
    using \<open>0 < uint d\<close> by simp
  then have "drop_bit 8 (d - 1) = 0"
    by (simp add: word_uint_eq_iff unsigned_drop_bit_eq drop_bit_eq_div uint_div)
  with False show ?thesis by simp
qed (simp add: mask_eq_exp_minus_1)

lemma crypto_verify_16_iff:
  assumes "length x = 16" and "length y = 16"
  shows "crypto_verify_16 x y = (if x = y then 0 else -1)"
proof -
  have "uint (verify_loop 0 x y 16) < 2 ^ 8"
    by (rule verify_loop_bound) simp
  then show ?thesis
    using verify_loop_eq_0_iff[OF assms, of 0]
    by (simp add: crypto_verify_16_def verify_result del: verify_loop.simps)
qed

section \<open>Properties\<close>

text \<open>
  \<open>crypto_verify_16\<close> compares two 16-byte arrays: the result is 0 when they are equal and -1
  when they differ, for all inputs, although the code has no branch.
\<close>

theorem crypto_verify_16_compares:
  assumes "length x = 16" and "length y = 16"
  shows "crypto_verify_16 x y = (if x = y then 0 else -1)"
  by (rule crypto_verify_16_iff[OF assms])

theorem crypto_verify_16_compares_witness:
  "crypto_verify_16 (replicate 15 7 @ [1]) (replicate 15 7 @ [2]) = -1"
  using crypto_verify_16_compares[of "replicate 15 7 @ [1]" "replicate 15 7 @ [2]"] by simp

text \<open>
  \<open>sodium_increment\<close> adds one to the little-endian number in the array, modulo the size of
  the array: the carry reaches every byte.
\<close>

theorem sodium_increment_adds_one:
  "le_num (sodium_increment n) = (le_num n + 1) mod 256 ^ length n \<and> length (sodium_increment n) = length n"
  by (simp add: le_num_sodium_increment)

end
