(* ===== verification/Poly1305.thy ===== *)
theory Poly1305
  imports Sodium_Util
begin

text \<open>
  The Poly1305 one-time authenticator of libsodium:
  \<^verbatim>\<open>crypto_onetimeauth/poly1305/donna/poly1305_donna.c\<close> with the 26-bit limb arithmetic of
  \<^verbatim>\<open>poly1305_donna32.h\<close>.  \<open>unsigned long\<close> is 64 bits wide (LP64, the ABI of the
  64-bit iOS targets), so limbs and products are both 64-bit words; the source's masks keep
  them far below that width.

  Shown here: feeding a message in pieces of any sizes through \<open>poly1305_update\<close> leaves the
  same authenticator state as feeding it at once, so the tag depends on the concatenation only.
\<close>

type_synonym limbs = "u64 \<times> u64 \<times> u64 \<times> u64 \<times> u64"

record poly1305_state =
  poly_r :: limbs
  poly_h :: limbs
  poly_pad :: "u64 \<times> u64 \<times> u64 \<times> u64"
  poly_leftover :: nat
  poly_buffer :: "byte list"
  poly_final :: bool

definition load64 :: "byte list \<Rightarrow> u64" where
  "load64 m = ucast (load32_le m)"

definition poly1305_init :: "byte list \<Rightarrow> poly1305_state" where
  "poly1305_init key =
     \<lparr>poly_r =
        (load64 key AND 0x3ffffff,
         drop_bit 2 (load64 (drop 3 key)) AND 0x3ffff03,
         drop_bit 4 (load64 (drop 6 key)) AND 0x3ffc0ff,
         drop_bit 6 (load64 (drop 9 key)) AND 0x3f03fff,
         drop_bit 8 (load64 (drop 12 key)) AND 0x00fffff),
      poly_h = (0, 0, 0, 0, 0),
      poly_pad =
        (load64 (drop 16 key), load64 (drop 20 key), load64 (drop 24 key), load64 (drop 28 key)),
      poly_leftover = 0,
      poly_buffer = replicate 16 0,
      poly_final = False\<rparr>"

definition poly1305_step :: "u64 \<Rightarrow> limbs \<Rightarrow> limbs \<Rightarrow> byte list \<Rightarrow> limbs" where
  "poly1305_step hibit r h m =
     (case r of (r0, r1, r2, r3, r4) \<Rightarrow>
      case h of (h0, h1, h2, h3, h4) \<Rightarrow>
      (let s1 = r1 * 5; s2 = r2 * 5; s3 = r3 * 5; s4 = r4 * 5;
           h0 = h0 + (load64 m AND 0x3ffffff);
           h1 = h1 + (drop_bit 2 (load64 (drop 3 m)) AND 0x3ffffff);
           h2 = h2 + (drop_bit 4 (load64 (drop 6 m)) AND 0x3ffffff);
           h3 = h3 + (drop_bit 6 (load64 (drop 9 m)) AND 0x3ffffff);
           h4 = h4 + (drop_bit 8 (load64 (drop 12 m)) OR hibit);
           d0 = h0 * r0 + h1 * s4 + h2 * s3 + h3 * s2 + h4 * s1;
           d1 = h0 * r1 + h1 * r0 + h2 * s4 + h3 * s3 + h4 * s2;
           d2 = h0 * r2 + h1 * r1 + h2 * r0 + h3 * s4 + h4 * s3;
           d3 = h0 * r3 + h1 * r2 + h2 * r1 + h3 * r0 + h4 * s4;
           d4 = h0 * r4 + h1 * r3 + h2 * r2 + h3 * r1 + h4 * r0;
           c = drop_bit 26 d0; h0 = d0 AND 0x3ffffff; d1 = d1 + c;
           c = drop_bit 26 d1; h1 = d1 AND 0x3ffffff; d2 = d2 + c;
           c = drop_bit 26 d2; h2 = d2 AND 0x3ffffff; d3 = d3 + c;
           c = drop_bit 26 d3; h3 = d3 AND 0x3ffffff; d4 = d4 + c;
           c = drop_bit 26 d4; h4 = d4 AND 0x3ffffff;
           h0 = h0 + c * 5;
           c = drop_bit 26 h0; h0 = h0 AND 0x3ffffff; h1 = h1 + c
       in (h0, h1, h2, h3, h4)))"

function poly1305_loop :: "u64 \<Rightarrow> limbs \<Rightarrow> limbs \<Rightarrow> byte list \<Rightarrow> limbs" where
  "poly1305_loop hibit r h m =
     (if length m \<ge> 16 then poly1305_loop hibit r (poly1305_step hibit r h m) (drop 16 m) else h)"
  by pat_completeness auto
termination
  by (relation "measure (\<lambda>(_, _, _, m). length m)") auto

declare poly1305_loop.simps [simp del]

definition poly1305_blocks :: "poly1305_state \<Rightarrow> byte list \<Rightarrow> poly1305_state" where
  "poly1305_blocks st m =
     (let hibit = (if poly_final st then 0 else push_bit 24 1)
      in st\<lparr>poly_h := poly1305_loop hibit (poly_r st) (poly_h st) m\<rparr>)"

definition poly1305_update_tail :: "poly1305_state \<Rightarrow> byte list \<Rightarrow> poly1305_state" where
  "poly1305_update_tail st m =
     (let want = length m - length m mod 16;
          (st, m) = (if length m \<ge> 16 then (poly1305_blocks st (take want m), drop want m)
                     else (st, m))
      in if m \<noteq> []
         then st\<lparr>poly_buffer := write_at (poly_leftover st) m (poly_buffer st),
                 poly_leftover := poly_leftover st + length m\<rparr>
         else st)"

definition poly1305_update :: "poly1305_state \<Rightarrow> byte list \<Rightarrow> poly1305_state" where
  "poly1305_update st m =
     (if poly_leftover st \<noteq> 0
      then (let want = min (16 - poly_leftover st) (length m);
                st = st\<lparr>poly_buffer := write_at (poly_leftover st) (take want m) (poly_buffer st),
                        poly_leftover := poly_leftover st + want\<rparr>
            in if poly_leftover st < 16 then st
               else poly1305_update_tail
                      ((poly1305_blocks st (poly_buffer st))\<lparr>poly_leftover := 0\<rparr>) (drop want m))
      else poly1305_update_tail st m)"

definition poly1305_carry :: "limbs \<Rightarrow> limbs" where
  "poly1305_carry h =
     (case h of (h0, h1, h2, h3, h4) \<Rightarrow>
      (let c = drop_bit 26 h1; h1 = h1 AND 0x3ffffff; h2 = h2 + c;
           c = drop_bit 26 h2; h2 = h2 AND 0x3ffffff; h3 = h3 + c;
           c = drop_bit 26 h3; h3 = h3 AND 0x3ffffff; h4 = h4 + c;
           c = drop_bit 26 h4; h4 = h4 AND 0x3ffffff; h0 = h0 + c * 5;
           c = drop_bit 26 h0; h0 = h0 AND 0x3ffffff; h1 = h1 + c
       in (h0, h1, h2, h3, h4)))"

definition poly1305_reduce :: "limbs \<Rightarrow> limbs" where
  "poly1305_reduce h =
     (case h of (h0, h1, h2, h3, h4) \<Rightarrow>
      (let g0 = h0 + 5; c = drop_bit 26 g0; g0 = g0 AND 0x3ffffff;
           g1 = h1 + c; c = drop_bit 26 g1; g1 = g1 AND 0x3ffffff;
           g2 = h2 + c; c = drop_bit 26 g2; g2 = g2 AND 0x3ffffff;
           g3 = h3 + c; c = drop_bit 26 g3; g3 = g3 AND 0x3ffffff;
           g4 = h4 + c - push_bit 26 1;
           mask = drop_bit 63 g4 - 1;
           g0 = g0 AND mask; g1 = g1 AND mask; g2 = g2 AND mask;
           g3 = g3 AND mask; g4 = g4 AND mask;
           mask = NOT mask
       in ((h0 AND mask) OR g0, (h1 AND mask) OR g1, (h2 AND mask) OR g2,
           (h3 AND mask) OR g3, (h4 AND mask) OR g4)))"

definition poly1305_tag :: "limbs \<Rightarrow> u64 \<times> u64 \<times> u64 \<times> u64 \<Rightarrow> byte list" where
  "poly1305_tag h pad =
     (case h of (h0, h1, h2, h3, h4) \<Rightarrow>
      case pad of (pad0, pad1, pad2, pad3) \<Rightarrow>
      (let h0 = (h0 OR push_bit 26 h1) AND 0xffffffff;
           h1 = (drop_bit 6 h1 OR push_bit 20 h2) AND 0xffffffff;
           h2 = (drop_bit 12 h2 OR push_bit 14 h3) AND 0xffffffff;
           h3 = (drop_bit 18 h3 OR push_bit 8 h4) AND 0xffffffff;
           f = h0 + pad0; h0 = f;
           f = h1 + pad1 + drop_bit 32 f; h1 = f;
           f = h2 + pad2 + drop_bit 32 f; h2 = f;
           f = h3 + pad3 + drop_bit 32 f; h3 = f
       in store32_le (ucast h0) @ store32_le (ucast h1)
            @ store32_le (ucast h2) @ store32_le (ucast h3)))"

definition poly1305_finish :: "poly1305_state \<Rightarrow> byte list" where
  "poly1305_finish st =
     (let i = poly_leftover st;
          st = (if i \<noteq> 0
                then poly1305_blocks
                       (st\<lparr>poly_buffer := write_at i (1 # replicate (15 - i) 0) (poly_buffer st),
                           poly_final := True\<rparr>)
                       (write_at i (1 # replicate (15 - i) 0) (poly_buffer st))
                else st)
      in poly1305_tag (poly1305_reduce (poly1305_carry (poly_h st))) (poly_pad st))"

definition crypto_onetimeauth_poly1305 :: "byte list \<Rightarrow> byte list \<Rightarrow> byte list" where
  "crypto_onetimeauth_poly1305 m key = poly1305_finish (poly1305_update (poly1305_init key) m)"

lemma length_poly1305_finish [simp, len_simps]: "length (poly1305_finish st) = 16"
  by (simp add: poly1305_finish_def poly1305_tag_def Let_def split: prod.splits)

section \<open>Incremental feeding\<close>

text \<open>
  \<open>poly_abs r pad m st\<close>: the state \<open>st\<close> has absorbed the message \<open>m\<close>.  The full
  blocks are in the accumulator, the rest is in the buffer.
\<close>

definition poly_abs :: "limbs \<Rightarrow> u64 \<times> u64 \<times> u64 \<times> u64 \<Rightarrow> byte list \<Rightarrow> poly1305_state \<Rightarrow> bool" where
  "poly_abs r pad m st \<longleftrightarrow>
     poly_r st = r \<and> poly_pad st = pad \<and> \<not> poly_final st \<and>
     length (poly_buffer st) = 16 \<and>
     poly_leftover st = length m mod 16 \<and>
     poly_h st = poly1305_loop (push_bit 24 1) r (0, 0, 0, 0, 0) (take (length m - length m mod 16) m) \<and>
     take (poly_leftover st) (poly_buffer st) = drop (length m - length m mod 16) m"

lemma poly_abs_init: "poly_abs (poly_r (poly1305_init key)) (poly_pad (poly1305_init key)) [] (poly1305_init key)"
  by (simp add: poly_abs_def poly1305_init_def poly1305_loop.simps)

lemma load64_drop_append: "i + 4 \<le> length a \<Longrightarrow> load64 (drop i (a @ b)) = load64 (drop i a)"
  by (simp add: load64_def load32_le_def byte_at_def nth_append)

lemma poly1305_step_append:
  assumes "16 \<le> length a"
  shows "poly1305_step hb r h (a @ b) = poly1305_step hb r h a"
proof -
  have l0: "load64 (a @ b) = load64 a"
    using load64_drop_append[of 0 a b] assms by simp
  have l: "load64 (drop 3 (a @ b)) = load64 (drop 3 a)" "load64 (drop 6 (a @ b)) = load64 (drop 6 a)"
    "load64 (drop 9 (a @ b)) = load64 (drop 9 a)" "load64 (drop 12 (a @ b)) = load64 (drop 12 a)"
    using assms by (simp_all only: load64_drop_append)
  show ?thesis
    by (simp only: poly1305_step_def l0 l)
qed

lemma poly1305_loop_append:
  "length a mod 16 = 0 \<Longrightarrow>
     poly1305_loop hb r h (a @ b) = poly1305_loop hb r (poly1305_loop hb r h a) b"
proof (induction hb r h a rule: poly1305_loop.induct)
  case (1 hb r h a)
  show ?case
  proof (cases "length a \<ge> 16")
    case True
    have step: "poly1305_step hb r h (a @ b) = poly1305_step hb r h a"
      using True by (rule poly1305_step_append)
    have "length (drop 16 a) mod 16 = 0"
      using True "1.prems" by (simp add: mod_if)
    then show ?thesis
      using True "1.IH"
      by (simp add: poly1305_loop.simps[of hb r h "a @ b"] poly1305_loop.simps[of hb r h a] step)
  next
    case False
    with "1.prems" have "a = []" by (cases a) (auto simp: mod_if split: if_splits)
    then show ?thesis by (simp add: poly1305_loop.simps[of hb r h "[]"])
  qed
qed

lemma poly1305_blocks_simps [simp]:
  "poly_r (poly1305_blocks st m) = poly_r st" "poly_pad (poly1305_blocks st m) = poly_pad st"
  "poly_final (poly1305_blocks st m) = poly_final st"
  "poly_buffer (poly1305_blocks st m) = poly_buffer st"
  "poly_leftover (poly1305_blocks st m) = poly_leftover st"
  by (simp_all add: poly1305_blocks_def Let_def)

lemma poly1305_blocks_h:
  "\<not> poly_final st \<Longrightarrow>
     poly_h (poly1305_blocks st m) = poly1305_loop (push_bit 24 1) (poly_r st) (poly_h st) m"
  by (simp add: poly1305_blocks_def)

lemma poly_abs_blocks:
  assumes abs: "poly_abs r pad m st" and "length m mod 16 = 0" and "length x mod 16 = 0"
  shows "poly_abs r pad (m @ x) (poly1305_blocks st x)"
proof -
  have mod: "(length m + length x) mod 16 = 0"
    using assms(2,3) by (simp add: mod_add_eq[symmetric])
  show ?thesis
    using assms mod
    by (auto simp: poly_abs_def poly1305_blocks_h poly1305_loop_append)
qed

lemma poly_abs_tail:
  assumes abs: "poly_abs r pad m st" and m0: "length m mod 16 = 0" and "length x < 16"
  shows "poly_abs r pad (m @ x)
           (st\<lparr>poly_buffer := write_at (poly_leftover st) x (poly_buffer st),
               poly_leftover := poly_leftover st + length x\<rparr>)"
proof -
  have len: "(length m + length x) mod 16 = length x"
    using m0 \<open>length x < 16\<close> by (metis mod_add_left_eq add_0 mod_less)
  show ?thesis
    using assms len by (auto simp: poly_abs_def take_write_at_0)
qed

lemma poly1305_update_tail_abs:
  assumes abs: "poly_abs r pad m st" and m0: "length m mod 16 = 0"
  shows "poly_abs r pad (m @ x) (poly1305_update_tail st x)"
proof -
  let ?w = "length x - length x mod 16"
  define st1 where "st1 = (if length x \<ge> 16 then poly1305_blocks st (take ?w x) else st)"
  define y where "y = (if length x \<ge> 16 then take ?w x else [])"
  have xs: "x = y @ (if length x \<ge> 16 then drop ?w x else x)"
    by (simp add: y_def)
  have wmod: "?w mod 16 = 0" and wle: "?w \<le> length x"
    by (simp_all add: minus_mod_eq_mult_div)
  have y0: "length y mod 16 = 0"
    using wmod wle by (auto simp: y_def min_absorb2)
  have abs1: "poly_abs r pad (m @ y) st1"
    using poly_abs_blocks[OF abs m0 y0] abs by (auto simp: st1_def y_def)
  have my0: "length (m @ y) mod 16 = 0"
    using m0 y0 by (simp add: mod_add_eq[symmetric])
  define z where "z = (if length x \<ge> 16 then drop ?w x else x)"
  have z: "length z < 16" "x = y @ z"
    using xs by (auto simp: z_def)
  have "poly_abs r pad ((m @ y) @ z)
          (if z \<noteq> [] then st1\<lparr>poly_buffer := write_at (poly_leftover st1) z (poly_buffer st1),
                 poly_leftover := poly_leftover st1 + length z\<rparr> else st1)"
    using poly_abs_tail[OF abs1 my0 z(1)] abs1 by auto
  moreover have "poly1305_update_tail st x
      = (if z \<noteq> [] then st1\<lparr>poly_buffer := write_at (poly_leftover st1) z (poly_buffer st1),
                 poly_leftover := poly_leftover st1 + length z\<rparr> else st1)"
    by (auto simp: poly1305_update_tail_def Let_def st1_def z_def)
  ultimately show ?thesis
    using z(2) by simp
qed

lemma poly1305_update_leftover_abs:
  assumes abs: "poly_abs r pad m st" and l: "poly_leftover st \<noteq> 0"
  shows "poly_abs r pad (m @ x) (poly1305_update st x)"
proof -
  let ?l = "length m mod 16"
  let ?full = "length m - ?l"
  let ?want = "min (16 - ?l) (length x)"
  let ?buf = "write_at ?l (take ?want x) (poly_buffer st)"
  let ?st1 = "st\<lparr>poly_buffer := ?buf, poly_leftover := ?l + ?want\<rparr>"
  have lo: "poly_leftover st = ?l" and blen: "length (poly_buffer st) = 16"
    and nf: "\<not> poly_final st"
    and b: "take ?l (poly_buffer st) = drop ?full m"
    using abs by (auto simp: poly_abs_def)
  have l16: "?l < 16" by simp
  have buflen: "length ?buf = 16"
    using blen l16 by (subst length_write_at) auto
  have buf: "take (?l + ?want) ?buf = drop ?full m @ take ?want x"
    using take_write_at_end[of ?l "take ?want x" "poly_buffer st"] blen b by (auto simp: min_def)
  show ?thesis
  proof (cases "?l + ?want < 16")
    case True
    then have wx: "?want = length x" by (simp add: min_def split: if_splits)
    have "(length m + length x) mod 16 = ?l + length x"
      using True wx by (metis mod_add_left_eq mod_less)
    then show ?thesis
      using abs l True buf buflen lo wx
      by (simp add: poly1305_update_def poly_abs_def Let_def)
  next
    case False
    then have w: "?l + ?want = 16" by (simp add: min_def split: if_splits)
    then have want: "?want \<le> length x" by simp
    define st2 where "st2 = (poly1305_blocks ?st1 ?buf)\<lparr>poly_leftover := 0\<rparr>"
    have upd: "poly1305_update st x = poly1305_update_tail st2 (drop ?want x)"
      using l False lo by (simp add: poly1305_update_def Let_def st2_def)
    have mx0: "length (m @ take ?want x) mod 16 = 0"
    proof -
      have "length (m @ take ?want x) = ?full + 16"
        using w want by simp
      then show ?thesis by (simp add: minus_mod_eq_mult_div)
    qed
    have bufeq: "?buf = drop ?full m @ take ?want x"
      using buf buflen w by simp
    have "poly_h st2 = poly1305_loop (push_bit 24 1) r (0, 0, 0, 0, 0) (take ?full m @ ?buf)"
      using abs nf by (subst poly1305_loop_append)
        (auto simp: st2_def poly1305_blocks_h poly_abs_def minus_mod_eq_mult_div)
    then have "poly_h st2 = poly1305_loop (push_bit 24 1) r (0, 0, 0, 0, 0) (m @ take ?want x)"
      unfolding bufeq append_assoc[symmetric] append_take_drop_id .
    then have "poly_abs r pad (m @ take ?want x) st2"
      using abs mx0 buflen by (simp add: poly_abs_def st2_def)
    from poly1305_update_tail_abs[OF this mx0, of "drop ?want x"]
    show ?thesis by (simp add: upd)
  qed
qed

lemma poly1305_update_abs:
  assumes "poly_abs r pad m st"
  shows "poly_abs r pad (m @ x) (poly1305_update st x)"
proof (cases "poly_leftover st = 0")
  case True
  then have "length m mod 16 = 0" using assms by (simp add: poly_abs_def)
  with poly1305_update_tail_abs[OF assms] True show ?thesis
    by (simp add: poly1305_update_def)
qed (rule poly1305_update_leftover_abs[OF assms])

lemma poly1305_updates_abs:
  "poly_abs r pad m st \<Longrightarrow> poly_abs r pad (m @ concat xs) (fold (\<lambda>x st. poly1305_update st x) xs st)"
proof (induction xs arbitrary: m st)
  case (Cons x xs)
  from Cons.IH[OF poly1305_update_abs[OF Cons.prems]] show ?case by simp
qed simp

text \<open>The tag as a function of the limbs of the key and of the whole message.\<close>

definition poly1305_whole :: "limbs \<Rightarrow> u64 \<times> u64 \<times> u64 \<times> u64 \<Rightarrow> byte list \<Rightarrow> byte list" where
  "poly1305_whole r pad m =
     (let n = length m mod 16;
          h = poly1305_loop (push_bit 24 1) r (0, 0, 0, 0, 0) (take (length m - n) m);
          h = (if n = 0 then h
               else poly1305_loop 0 r h (drop (length m - n) m @ 1 # replicate (15 - n) 0))
      in poly1305_tag (poly1305_reduce (poly1305_carry h)) pad)"

lemma poly1305_finish_abs:
  assumes "poly_abs r pad m st"
  shows "poly1305_finish st = poly1305_whole r pad m"
proof -
  let ?n = "length m mod 16"
  have "?n < 16" by simp
  then have "write_at ?n (1 # replicate (15 - ?n) 0) (poly_buffer st)
          = drop (length m - ?n) m @ 1 # replicate (15 - ?n) 0"
    using assms by (auto simp: write_at_def poly_abs_def)
  then show ?thesis
    using assms
    by (simp add: poly1305_finish_def poly1305_whole_def poly_abs_def Let_def poly1305_blocks_def)
qed

lemma poly1305_incremental:
  "poly1305_finish (fold (\<lambda>x st. poly1305_update st x) xs (poly1305_init key))
     = crypto_onetimeauth_poly1305 (concat xs) key"
proof -
  let ?r = "poly_r (poly1305_init key)" and ?pad = "poly_pad (poly1305_init key)"
  have "poly_abs ?r ?pad (concat xs) (fold (\<lambda>x st. poly1305_update st x) xs (poly1305_init key))"
    using poly1305_updates_abs[OF poly_abs_init] by simp
  moreover have "poly_abs ?r ?pad (concat xs) (poly1305_update (poly1305_init key) (concat xs))"
    using poly1305_update_abs[OF poly_abs_init] by simp
  ultimately show ?thesis
    by (simp add: crypto_onetimeauth_poly1305_def poly1305_finish_abs)
qed

section \<open>Properties\<close>

text \<open>
  Feeding a message to Poly1305 in pieces of any lengths with \<open>poly1305_update\<close> gives the
  tag of the whole message: the partial-block buffer never loses, repeats or reorders a byte.
\<close>

theorem poly1305_pieces:
  "poly1305_finish (fold (\<lambda>x st. poly1305_update st x) xs (poly1305_init key))
     = crypto_onetimeauth_poly1305 (concat xs) key"
  by (rule poly1305_incremental)

end
