(* ===== verification/Chacha_Aead.thy ===== *)
theory Chacha_Aead
  imports ChaCha20 Poly1305
begin

text \<open>
  The authenticated encryption of libsodium the proxy uses:
  \<^verbatim>\<open>crypto_aead/chacha20poly1305/sodium/aead_chacha20poly1305.c\<close> (the IETF functions) and
  \<^verbatim>\<open>crypto_aead/xchacha20poly1305/sodium/aead_xchacha20poly1305.c\<close>.

  A decryption returns the C result code with the bytes written to the output array: the
  plaintext on success, zeros on an authentication failure, nothing for an input shorter than
  a tag.  \<open>abort\<close> on a message the cipher cannot count is a fault.

  The locale \<open>aead_cipher\<close> is the contract the packet layer of \<^verbatim>\<open>aead.c\<close> relies on; it
  is interpreted on both ciphers.
\<close>

section \<open>ChaCha20-Poly1305 (IETF)\<close>

abbreviation ABYTES :: nat where
  "ABYTES \<equiv> 16"

definition pad16 :: "nat \<Rightarrow> byte list" where
  "pad16 len = replicate ((16 - len mod 16) mod 16) 0"

definition ietf_mac :: "byte list \<Rightarrow> byte list \<Rightarrow> byte list \<Rightarrow> byte list" where
  "ietf_mac c ad block0 =
     (let st = poly1305_init block0;
          st = poly1305_update st ad;
          st = poly1305_update st (pad16 (length ad));
          st = poly1305_update st c;
          st = poly1305_update st (pad16 (length c));
          st = poly1305_update st (store64_le (of_nat (length ad)));
          st = poly1305_update st (store64_le (of_nat (length c)))
      in poly1305_finish st)"

definition crypto_aead_chacha20poly1305_ietf_encrypt_detached ::
    "byte list \<Rightarrow> byte list \<Rightarrow> byte list \<Rightarrow> byte list \<Rightarrow> (byte list \<times> byte list) run" where
  "crypto_aead_chacha20poly1305_ietf_encrypt_detached m ad npub k =
     bindE (crypto_stream_chacha20_ietf 64 npub k) (\<lambda>block0.
     bindE (crypto_stream_chacha20_ietf_xor_ic m npub 1 k) (\<lambda>c.
     Inr (c, ietf_mac c ad block0)))"

definition crypto_aead_chacha20poly1305_ietf_encrypt ::
    "byte list \<Rightarrow> byte list \<Rightarrow> byte list \<Rightarrow> byte list \<Rightarrow> byte list run" where
  "crypto_aead_chacha20poly1305_ietf_encrypt m ad npub k =
     (if length m > 2 ^ 64 - 1 - ABYTES then Inl Aborted
      else bindE (crypto_aead_chacha20poly1305_ietf_encrypt_detached m ad npub k)
             (\<lambda>(c, mac). Inr (c @ mac)))"

definition crypto_aead_chacha20poly1305_ietf_decrypt_detached ::
    "byte list \<Rightarrow> byte list \<Rightarrow> byte list \<Rightarrow> byte list \<Rightarrow> byte list \<Rightarrow> (int \<times> byte list) run" where
  "crypto_aead_chacha20poly1305_ietf_decrypt_detached c mac ad npub k =
     bindE (crypto_stream_chacha20_ietf 64 npub k) (\<lambda>block0.
       let computed_mac = ietf_mac c ad block0
       in if crypto_verify_16 computed_mac mac \<noteq> 0 then Inr (-1, replicate (length c) 0)
          else bindE (crypto_stream_chacha20_ietf_xor_ic c npub 1 k) (\<lambda>m. Inr (0, m)))"

definition crypto_aead_chacha20poly1305_ietf_decrypt ::
    "byte list \<Rightarrow> byte list \<Rightarrow> byte list \<Rightarrow> byte list \<Rightarrow> (int \<times> byte list) run" where
  "crypto_aead_chacha20poly1305_ietf_decrypt c ad npub k =
     (if length c \<ge> ABYTES
      then crypto_aead_chacha20poly1305_ietf_decrypt_detached
             (take (length c - ABYTES) c) (drop (length c - ABYTES) c) ad npub k
      else Inr (-1, []))"

section \<open>XChaCha20-Poly1305 (IETF)\<close>

definition xchacha_subkey :: "byte list \<Rightarrow> byte list \<Rightarrow> byte list \<times> byte list" where
  "xchacha_subkey npub k =
     (crypto_core_hchacha20 npub k None, replicate 4 0 @ take 8 (drop 16 npub))"

definition crypto_aead_xchacha20poly1305_ietf_encrypt ::
    "byte list \<Rightarrow> byte list \<Rightarrow> byte list \<Rightarrow> byte list \<Rightarrow> byte list run" where
  "crypto_aead_xchacha20poly1305_ietf_encrypt m ad npub k =
     (if length m > 2 ^ 64 - 1 - ABYTES then Inl Aborted
      else (case xchacha_subkey npub k of (k2, npub2) \<Rightarrow>
        bindE (crypto_aead_chacha20poly1305_ietf_encrypt_detached m ad npub2 k2)
          (\<lambda>(c, mac). Inr (c @ mac))))"

definition crypto_aead_xchacha20poly1305_ietf_decrypt ::
    "byte list \<Rightarrow> byte list \<Rightarrow> byte list \<Rightarrow> byte list \<Rightarrow> (int \<times> byte list) run" where
  "crypto_aead_xchacha20poly1305_ietf_decrypt c ad npub k =
     (if length c \<ge> ABYTES
      then (case xchacha_subkey npub k of (k2, npub2) \<Rightarrow>
             crypto_aead_chacha20poly1305_ietf_decrypt_detached
               (take (length c - ABYTES) c) (drop (length c - ABYTES) c) ad npub2 k2)
      else Inr (-1, []))"

section \<open>The interface\<close>

locale aead_cipher =
  fixes enc :: "byte list \<Rightarrow> byte list \<Rightarrow> byte list \<Rightarrow> byte list run"
    and dec :: "byte list \<Rightarrow> byte list \<Rightarrow> byte list \<Rightarrow> (int \<times> byte list) run"
    and tlen :: nat
    and limit :: nat
  assumes enc_total:
      "length m \<le> limit \<Longrightarrow> \<exists>c. enc n k m = Inr c \<and> length c = length m + tlen"
    and dec_enc: "length m \<le> limit \<Longrightarrow> enc n k m = Inr c \<Longrightarrow> dec n k c = Inr (0, m)"
    and dec_total:
      "length c \<le> limit + tlen \<Longrightarrow> \<exists>r m. dec n k c = Inr (r, m) \<and> length m = length c - tlen"
    and dec_sound: "dec n k c = Inr (0, m) \<Longrightarrow> enc n k m = Inr c"
    and limit_pos: "0 < limit"
begin

text \<open>A ciphertext determines its plaintext and the other way round.\<close>

lemma enc_inj:
  assumes "length m \<le> limit" "length m' \<le> limit" "enc n k m = Inr c" "enc n k m' = Inr c"
  shows "m = m'"
  using dec_enc[OF assms(1,3)] dec_enc[OF assms(2,4)] by simp

text \<open>Anything that is not an encryption is rejected with a result code other than 0.\<close>

lemma reject_forged:
  assumes "length c \<le> limit + tlen" and "\<And>m. enc n k m \<noteq> Inr c"
  shows "\<exists>r m. dec n k c = Inr (r, m) \<and> r \<noteq> 0"
proof -
  obtain r m where d: "dec n k c = Inr (r, m)" using dec_total[OF assms(1)] by blast
  have "r \<noteq> 0" using assms(2) dec_sound[of n k c] d by auto
  with d show ?thesis by blast
qed

text \<open>Changing the tag or the body of a valid ciphertext is always detected.\<close>

lemma dec_length:
  assumes "dec n k c = Inr (0, m)" and "length m \<le> limit"
  shows "length c = length m + tlen"
  using enc_total[OF assms(2), of n k] dec_sound[OF assms(1)] by auto

end

section \<open>The ciphers satisfy the interface\<close>

lemma length_ietf_mac [simp, len_simps]: "length (ietf_mac c ad b) = 16"
  by (simp add: ietf_mac_def Let_def)

text \<open>The tag covers the concatenation that RFC 7539 names.\<close>

lemma ietf_mac_eq:
  "ietf_mac c ad block0 =
     crypto_onetimeauth_poly1305
       (ad @ pad16 (length ad) @ c @ pad16 (length c)
          @ store64_le (of_nat (length ad)) @ store64_le (of_nat (length c))) block0"
  using poly1305_incremental[of "[ad, pad16 (length ad), c, pad16 (length c),
      store64_le (of_nat (length ad)), store64_le (of_nat (length c))]" block0]
  by (simp add: ietf_mac_def Let_def)

lemma chacha_max_le: "64 \<le> chacha_max" "chacha_max \<le> 2 ^ 64 - 1 - ABYTES"
  by (simp_all add: chacha_max_def)

definition ietf_block0 :: "byte list \<Rightarrow> byte list \<Rightarrow> byte list" where
  "ietf_block0 npub k = chacha20_ietf_stream k npub 0 64"

lemma ietf_encrypt_detached_eq:
  "length m \<le> chacha_max \<Longrightarrow>
     crypto_aead_chacha20poly1305_ietf_encrypt_detached m ad npub k =
       (let c = xor_bytes m (chacha20_ietf_stream k npub 1 (length m))
        in Inr (c, ietf_mac c ad (ietf_block0 npub k)))"
  by (simp add: crypto_aead_chacha20poly1305_ietf_encrypt_detached_def Let_def
      crypto_stream_chacha20_ietf_eq crypto_stream_chacha20_ietf_xor_ic_eq chacha_max_le
      ietf_block0_def)

lemma ietf_encrypt_detached_abort:
  "length m > chacha_max \<Longrightarrow>
     crypto_aead_chacha20poly1305_ietf_encrypt_detached m ad npub k = Inl Aborted"
  by (simp add: crypto_aead_chacha20poly1305_ietf_encrypt_detached_def
      crypto_stream_chacha20_ietf_eq crypto_stream_chacha20_ietf_xor_ic_abort chacha_max_le)

lemma ietf_decrypt_detached_eq:
  "length mac = 16 \<Longrightarrow>
     crypto_aead_chacha20poly1305_ietf_decrypt_detached c mac ad npub k =
       (if ietf_mac c ad (ietf_block0 npub k) \<noteq> mac then Inr (-1, replicate (length c) 0)
        else if length c > chacha_max then Inl Aborted
        else Inr (0, xor_bytes c (chacha20_ietf_stream k npub 1 (length c))))"
  by (simp add: crypto_aead_chacha20poly1305_ietf_decrypt_detached_def Let_def
      crypto_stream_chacha20_ietf_eq chacha_max_le crypto_verify_16_iff
      crypto_stream_chacha20_ietf_xor_ic_eq crypto_stream_chacha20_ietf_xor_ic_abort
      ietf_block0_def)

lemma ietf_detached_roundtrip:
  assumes "crypto_aead_chacha20poly1305_ietf_encrypt_detached m ad npub k = Inr (c, mac)"
  shows "length c = length m \<and> length mac = 16 \<and>
    crypto_aead_chacha20poly1305_ietf_decrypt_detached c mac ad npub k = Inr (0, m)"
proof -
  have len: "length m \<le> chacha_max"
    using assms ietf_encrypt_detached_abort[of m ad npub k] by (cases "length m \<le> chacha_max") auto
  with assms show ?thesis
    by (auto simp: ietf_encrypt_detached_eq ietf_decrypt_detached_eq Let_def xor_bytes_involutive)
qed

lemma ietf_detached_sound:
  assumes "length mac = 16"
    and "crypto_aead_chacha20poly1305_ietf_decrypt_detached c mac ad npub k = Inr (0, m)"
  shows "length m = length c \<and>
    crypto_aead_chacha20poly1305_ietf_encrypt_detached m ad npub k = Inr (c, mac)"
  using assms
  by (auto simp: ietf_encrypt_detached_eq ietf_decrypt_detached_eq Let_def xor_bytes_involutive
      split: if_splits)

text \<open>Joining and splitting ciphertext and tag, shared by both ciphers.\<close>

lemma detached_join_roundtrip:
  assumes "bindE (crypto_aead_chacha20poly1305_ietf_encrypt_detached m ad n k)
             (\<lambda>(c, mac). Inr (c @ mac)) = Inr c"
  shows "length c = length m + 16 \<and>
    crypto_aead_chacha20poly1305_ietf_decrypt_detached (take (length c - 16) c)
      (drop (length c - 16) c) ad n k = Inr (0, m)"
  using assms by (auto simp: bindE_Inr_iff dest!: ietf_detached_roundtrip)

lemma detached_join_sound:
  assumes "16 \<le> length c"
    and "crypto_aead_chacha20poly1305_ietf_decrypt_detached (take (length c - 16) c)
      (drop (length c - 16) c) ad n k = Inr (0, m)"
  shows "length m = length c - 16 \<and> length m \<le> chacha_max \<and>
    bindE (crypto_aead_chacha20poly1305_ietf_encrypt_detached m ad n k)
      (\<lambda>(c, mac). Inr (c @ mac)) = Inr c"
proof -
  have "length (drop (length c - 16) c) = 16" using assms(1) by simp
  from ietf_detached_sound[OF this assms(2)]
  have e: "length m = length c - 16"
    "crypto_aead_chacha20poly1305_ietf_encrypt_detached m ad n k
      = Inr (take (length c - 16) c, drop (length c - 16) c)"
    by simp_all
  moreover have "length m \<le> chacha_max"
    using e(2) ietf_encrypt_detached_abort[of m ad n k] by (cases "length m \<le> chacha_max") auto
  ultimately show ?thesis by simp
qed

lemma ietf_decrypt_detached_total:
  assumes "length mac = 16" "length c \<le> chacha_max"
  shows "\<exists>r m. crypto_aead_chacha20poly1305_ietf_decrypt_detached c mac ad n k = Inr (r, m) \<and>
    length m = length c"
  using assms by (simp add: ietf_decrypt_detached_eq)

interpretation chacha20poly1305: aead_cipher
  "\<lambda>n k m. crypto_aead_chacha20poly1305_ietf_encrypt m ad n k"
  "\<lambda>n k c. crypto_aead_chacha20poly1305_ietf_decrypt c ad n k"
  ABYTES chacha_max
  for ad
proof (unfold_locales, goal_cases)
  case (1 m n k)
  then show ?case
    using chacha_max_le
    by (auto simp: crypto_aead_chacha20poly1305_ietf_encrypt_def ietf_encrypt_detached_eq Let_def)
next
  case (2 m n k c)
  then show ?case
    using chacha_max_le detached_join_roundtrip[of m ad n k c]
    by (auto simp: crypto_aead_chacha20poly1305_ietf_encrypt_def
        crypto_aead_chacha20poly1305_ietf_decrypt_def)
next
  case (3 c n k)
  then show ?case
    using ietf_decrypt_detached_total[of "drop (length c - 16) c" "take (length c - 16) c" ad n k]
    by (auto simp: crypto_aead_chacha20poly1305_ietf_decrypt_def)
next
  case (4 n k c m)
  then show ?case
    using chacha_max_le detached_join_sound[of c ad n k m]
    by (auto simp: crypto_aead_chacha20poly1305_ietf_encrypt_def
        crypto_aead_chacha20poly1305_ietf_decrypt_def split: if_splits)
next
  case 5
  then show ?case using chacha_max_le by linarith
qed

interpretation xchacha20poly1305: aead_cipher
  "\<lambda>n k m. crypto_aead_xchacha20poly1305_ietf_encrypt m ad n k"
  "\<lambda>n k c. crypto_aead_xchacha20poly1305_ietf_decrypt c ad n k"
  ABYTES chacha_max
  for ad
proof (unfold_locales, goal_cases)
  case (1 m n k)
  then show ?case
    using chacha_max_le
    by (auto simp: crypto_aead_xchacha20poly1305_ietf_encrypt_def ietf_encrypt_detached_eq Let_def
        split: prod.splits)
next
  case (2 m n k c)
  then show ?case
    using chacha_max_le detached_join_roundtrip[of m ad "snd (xchacha_subkey n k)"
        "fst (xchacha_subkey n k)" c]
    by (auto simp: crypto_aead_xchacha20poly1305_ietf_encrypt_def
        crypto_aead_xchacha20poly1305_ietf_decrypt_def split: prod.splits)
next
  case (3 c n k)
  then show ?case
    using ietf_decrypt_detached_total[of "drop (length c - 16) c" "take (length c - 16) c" ad
        "snd (xchacha_subkey n k)" "fst (xchacha_subkey n k)"]
    by (auto simp: crypto_aead_xchacha20poly1305_ietf_decrypt_def split: prod.splits)
next
  case (4 n k c m)
  then show ?case
    using chacha_max_le detached_join_sound[of c ad "snd (xchacha_subkey n k)"
        "fst (xchacha_subkey n k)" m]
    by (auto simp: crypto_aead_xchacha20poly1305_ietf_encrypt_def
        crypto_aead_xchacha20poly1305_ietf_decrypt_def split: if_splits prod.splits)
next
  case 5
  then show ?case using chacha_max_le by linarith
qed

section \<open>Properties\<close>

text \<open>
  C28. ChaCha20-Poly1305 (IETF): decryption accepts exactly the ciphertexts that encryption
  produces under the same key, nonce and associated data, and returns their plaintext.  A changed
  byte in ciphertext or tag is therefore never accepted as the same message.
\<close>

theorem chacha20poly1305_accepts_iff:
  assumes "length m \<le> chacha_max"
  shows "crypto_aead_chacha20poly1305_ietf_decrypt c ad npub k = Inr (0, m) \<longleftrightarrow>
    crypto_aead_chacha20poly1305_ietf_encrypt m ad npub k = Inr c"
  using chacha20poly1305.dec_enc[OF assms] chacha20poly1305.dec_sound by blast

theorem chacha20poly1305_accepts_iff_witness:
  "\<forall>c. crypto_aead_chacha20poly1305_ietf_decrypt c [1] (replicate 12 0) (replicate 32 5) = Inr (0, [10, 20]) \<longleftrightarrow>
    crypto_aead_chacha20poly1305_ietf_encrypt [10, 20] [1] (replicate 12 0) (replicate 32 5) = Inr c"
  by (intro allI chacha20poly1305_accepts_iff) (simp add: chacha_max_def)

text \<open>The same for XChaCha20-Poly1305 with its 24-byte nonces.\<close>

theorem xchacha20poly1305_accepts_iff:
  assumes "length m \<le> chacha_max"
  shows "crypto_aead_xchacha20poly1305_ietf_decrypt c ad npub k = Inr (0, m) \<longleftrightarrow>
    crypto_aead_xchacha20poly1305_ietf_encrypt m ad npub k = Inr c"
  using xchacha20poly1305.dec_enc[OF assms] xchacha20poly1305.dec_sound by blast

theorem xchacha20poly1305_accepts_iff_witness:
  "\<forall>c. crypto_aead_xchacha20poly1305_ietf_decrypt c [1] (replicate 24 0) (replicate 32 5) = Inr (0, [10, 20]) \<longleftrightarrow>
    crypto_aead_xchacha20poly1305_ietf_encrypt [10, 20] [1] (replicate 24 0) (replicate 32 5) = Inr c"
  by (intro allI xchacha20poly1305_accepts_iff) (simp add: chacha_max_def)

text \<open>
  The tag of ChaCha20-Poly1305 is Poly1305 over the string RFC 7539 prescribes: associated
  data and ciphertext, each padded to 16 bytes, then the two lengths as 64-bit numbers.
\<close>

theorem chacha20poly1305_tag_input:
  "ietf_mac c ad block0 =
     crypto_onetimeauth_poly1305
       (ad @ pad16 (length ad) @ c @ pad16 (length c)
          @ store64_le (of_nat (length ad)) @ store64_le (of_nat (length c))) block0"
  by (rule ietf_mac_eq)

end
