(* ===== verification/SS_Crypto.thy ===== *)
theory SS_Crypto
  imports C_Prelude
begin

text \<open>
  \<^verbatim>\<open>shadowsocks-libev/src/crypto.c\<close> and \<^verbatim>\<open>crypto.h\<close>: the growable byte buffers
  (\<open>balloc\<close>, \<open>brealloc\<close>, \<open>bfree\<close>, \<open>bprepend\<close>), the key derivation functions
  (\<open>crypto_hkdf\<close>, \<open>crypto_derive_key\<close>) and the X25519 key exchange state, with
  \<^verbatim>\<open>libsodium/lib/crypto_kx/crypto_kx.c\<close>.

  A buffer is its \<open>idx\<close>, \<open>len\<close> and \<open>capacity\<close> fields and the \<open>capacity\<close> bytes at
  \<open>data\<close>.  Every access goes through \<open>buf_write\<close> or \<open>buf_read\<close>, which fault outside
  the allocation.  Fresh bytes of \<open>malloc\<close> and \<open>realloc\<close> are 0 in the model.  Allocation
  itself does not fail: \<open>ss_malloc\<close> exits the process when it does.

  The hash functions, the scalar multiplication and the random generator are arguments.
\<close>

section \<open>Result codes\<close>

datatype crypto_ret = CRYPTO_OK | CRYPTO_NEED_MORE | CRYPTO_ERROR

section \<open>Buffers\<close>

record buffer =
  b_idx :: nat
  b_len :: nat
  b_capacity :: nat
  b_data :: "byte list"

definition wf_buffer :: "buffer \<Rightarrow> bool" where
  "wf_buffer b \<longleftrightarrow> length (b_data b) = b_capacity b \<and> b_len b \<le> b_capacity b"

definition null_buffer :: buffer where
  "null_buffer = \<lparr>b_idx = 0, b_len = 0, b_capacity = 0, b_data = []\<rparr>"

definition payload :: "buffer \<Rightarrow> byte list" where
  "payload b = take (b_len b) (b_data b)"

definition buf_write :: "nat \<Rightarrow> byte list \<Rightarrow> buffer \<Rightarrow> buffer run" where
  "buf_write off bs b =
     (if off + length bs \<le> b_capacity b then Inr (b\<lparr>b_data := write_at off bs (b_data b)\<rparr>)
      else Inl OutOfBounds)"

definition buf_read :: "nat \<Rightarrow> nat \<Rightarrow> buffer \<Rightarrow> byte list run" where
  "buf_read off n b =
     (if off + n \<le> b_capacity b then Inr (take n (drop off (b_data b))) else Inl OutOfBounds)"

definition balloc :: "nat \<Rightarrow> buffer" where
  "balloc capacity =
     \<lparr>b_idx = 0, b_len = 0, b_capacity = capacity, b_data = replicate capacity 0\<rparr>"

definition brealloc :: "buffer \<Rightarrow> nat \<Rightarrow> nat \<Rightarrow> buffer" where
  "brealloc ptr len capacity =
     (let real_capacity = max len capacity
      in if b_capacity ptr < real_capacity
         then ptr\<lparr>b_data := b_data ptr @ replicate (real_capacity - b_capacity ptr) 0,
                  b_capacity := real_capacity\<rparr>
         else ptr)"

definition bfree :: "buffer \<Rightarrow> buffer" where
  "bfree ptr = \<lparr>b_idx = 0, b_len = 0, b_capacity = 0, b_data = []\<rparr>"

definition bprepend :: "buffer \<Rightarrow> buffer \<Rightarrow> nat \<Rightarrow> (buffer \<times> nat) run" where
  "bprepend dst src capacity =
     (let dst = brealloc dst (b_len dst + b_len src) capacity
      in bindE (buf_read 0 (b_len dst) dst) (\<lambda>old.
         bindE (buf_write (b_len src) old dst) (\<lambda>dst.
         bindE (buf_read 0 (b_len src) src) (\<lambda>new.
         bindE (buf_write 0 new dst) (\<lambda>dst.
           let dst = dst\<lparr>b_len := b_len dst + b_len src\<rparr> in Inr (dst, b_len dst))))))"

subsection \<open>Lemmas on buffers\<close>

lemma wf_balloc [simp, intro, wf_intros]: "wf_buffer (balloc n)"
  by (simp add: wf_buffer_def balloc_def)

lemma wf_null_buffer [simp, intro, wf_intros]: "wf_buffer null_buffer"
  by (simp add: wf_buffer_def null_buffer_def)

lemma wf_brealloc [simp, intro, wf_intros]: "wf_buffer b \<Longrightarrow> wf_buffer (brealloc b n cap)"
  by (auto simp: wf_buffer_def brealloc_def Let_def)

lemma brealloc_simps [simp]:
  "b_len (brealloc b n cap) = b_len b" "b_idx (brealloc b n cap) = b_idx b"
  by (simp_all add: brealloc_def Let_def)

lemma brealloc_capacity: "b_capacity (brealloc b n cap) = max (b_capacity b) (max n cap)"
  by (simp add: brealloc_def Let_def max_def)

lemma brealloc_capacity_ge: "n \<le> b_capacity (brealloc b n cap)" "cap \<le> b_capacity (brealloc b n cap)"
  by (simp_all add: brealloc_capacity)

lemma payload_brealloc [simp]: "wf_buffer b \<Longrightarrow> payload (brealloc b n cap) = payload b"
  by (simp add: payload_def brealloc_def wf_buffer_def Let_def)

lemma length_payload [simp, len_simps]: "wf_buffer b \<Longrightarrow> length (payload b) = b_len b"
  by (simp add: payload_def wf_buffer_def)

lemma take_data_brealloc:
  "wf_buffer b \<Longrightarrow> k \<le> b_capacity b \<Longrightarrow> take k (b_data (brealloc b n cap)) = take k (b_data b)"
  by (simp add: brealloc_def wf_buffer_def Let_def)

lemma buf_write_ok:
  "off + length bs \<le> b_capacity b \<Longrightarrow>
     buf_write off bs b = Inr (b\<lparr>b_data := write_at off bs (b_data b)\<rparr>)"
  by (simp add: buf_write_def)

lemma buf_read_ok:
  "off + n \<le> b_capacity b \<Longrightarrow> buf_read off n b = Inr (take n (drop off (b_data b)))"
  by (simp add: buf_read_def)

lemma wf_buf_write [wf_intros]:
  "wf_buffer b \<Longrightarrow> buf_write off bs b = Inr b' \<Longrightarrow> wf_buffer b'"
  by (auto simp: buf_write_def wf_buffer_def split: if_splits)

section \<open>HKDF\<close>

text \<open>
  \<open>hmac key msg\<close> stands for the HMAC of \<^verbatim>\<open>mbedtls\<close> with the digest \<open>md\<close>, whose size is
  \<open>hash_len\<close>; \<open>None\<close> is a result other than 0.  The result is the output key, or \<open>None\<close>
  for a non-zero return.
\<close>

definition crypto_hkdf_extract ::
    "(byte list \<Rightarrow> byte list \<Rightarrow> byte list option) \<Rightarrow> nat \<Rightarrow> byte list option \<Rightarrow> byte list \<Rightarrow> byte list option"
  where
  "crypto_hkdf_extract hmac hash_len salt ikm =
     hmac (case salt of None \<Rightarrow> replicate hash_len 0 | Some s \<Rightarrow> s) ikm"

fun hkdf_expand_loop ::
    "(byte list \<Rightarrow> byte list \<Rightarrow> byte list option) \<Rightarrow> nat \<Rightarrow> byte list \<Rightarrow> byte list \<Rightarrow> nat \<Rightarrow> nat \<Rightarrow> nat
      \<Rightarrow> byte list \<Rightarrow> byte list \<Rightarrow> byte list option"
  where
  "hkdf_expand_loop hmac hash_len prk info okm_len i 0 T okm = Some okm"
| "hkdf_expand_loop hmac hash_len prk info okm_len i (Suc left) T okm =
     (case hmac prk (T @ info @ [of_nat i]) of
        None \<Rightarrow> None
      | Some T' \<Rightarrow>
          hkdf_expand_loop hmac hash_len prk info okm_len (Suc i) left T'
            (okm @ take (if left \<noteq> 0 then hash_len else okm_len - length okm) T'))"

definition crypto_hkdf_expand ::
    "(byte list \<Rightarrow> byte list \<Rightarrow> byte list option) \<Rightarrow> nat \<Rightarrow> byte list \<Rightarrow> byte list \<Rightarrow> nat \<Rightarrow> byte list option"
  where
  "crypto_hkdf_expand hmac hash_len prk info okm_len =
     (if length prk < hash_len then None
      else (let N = okm_len div hash_len + (if okm_len mod hash_len \<noteq> 0 then 1 else 0)
            in if N > 255 then None
               else hkdf_expand_loop hmac hash_len prk info okm_len 1 N [] []))"

definition crypto_hkdf ::
    "(byte list \<Rightarrow> byte list \<Rightarrow> byte list option) \<Rightarrow> nat \<Rightarrow> byte list option \<Rightarrow> byte list \<Rightarrow> byte list
      \<Rightarrow> nat \<Rightarrow> byte list option"
  where
  "crypto_hkdf hmac hash_len salt ikm info okm_len =
     (case crypto_hkdf_extract hmac hash_len salt ikm of
        None \<Rightarrow> None
      | Some prk \<Rightarrow> crypto_hkdf_expand hmac hash_len prk info okm_len)"

section \<open>Password-based key derivation\<close>

text \<open>
  \<open>crypto_derive_key\<close> chains MD5 over the password until the key is full.  \<open>md5\<close> is the
  digest of \<^verbatim>\<open>mbedtls\<close> and \<open>mds\<close> its size of 16 bytes.
\<close>

abbreviation mds :: nat where
  "mds \<equiv> 16"

function derive_key_loop ::
    "(byte list \<Rightarrow> byte list) \<Rightarrow> byte list \<Rightarrow> nat \<Rightarrow> byte list \<Rightarrow> byte list \<Rightarrow> byte list"
  where
  "derive_key_loop md5 pass key_len md_buf key =
     (if length key < key_len
      then (let md_buf = md5 (md_buf @ pass)
            in derive_key_loop md5 pass key_len md_buf
                 (key @ map (byte_at md_buf) [0..<min mds (key_len - length key)]))
      else key)"
  by pat_completeness auto
termination
  by (relation "measure (\<lambda>(_, _, key_len, _, key). key_len - length key)") (auto simp: min_def)

declare derive_key_loop.simps [simp del]

definition crypto_derive_key ::
    "(byte list \<Rightarrow> byte list) \<Rightarrow> byte list \<Rightarrow> nat \<Rightarrow> byte list" where
  "crypto_derive_key md5 pass key_len = derive_key_loop md5 pass key_len [] []"

section \<open>Key exchange\<close>

abbreviation KXBYTES :: nat where
  "KXBYTES \<equiv> 32"

record kx_ctx =
  pk_sent :: bool
  rpk_received :: bool
  kx_pk :: "byte list"
  kx_sk :: "byte list"
  kx_rpk :: "byte list"
  kx_rx :: "byte list"
  kx_tx :: "byte list"

text \<open>
  The curve and hash functions of libsodium: \<open>scalarmult\<close> (\<open>None\<close> for a low-order point),
  \<open>scalarmult_base\<close>, and \<open>generichash\<close> with a 64-byte output.
\<close>

record kx_prims =
  scalarmult :: "byte list \<Rightarrow> byte list \<Rightarrow> byte list option"
  scalarmult_base :: "byte list \<Rightarrow> byte list"
  generichash :: "byte list \<Rightarrow> byte list"

definition crypto_kx_keypair :: "kx_prims \<Rightarrow> byte list \<Rightarrow> byte list \<times> byte list" where
  "crypto_kx_keypair P rnd = (scalarmult_base P rnd, rnd)"

text \<open>The result is the pair \<open>(rx, tx)\<close>, or \<open>None\<close> for the return value -1.\<close>

definition crypto_kx_client_session_keys ::
    "kx_prims \<Rightarrow> byte list \<Rightarrow> byte list \<Rightarrow> byte list \<Rightarrow> (byte list \<times> byte list) option" where
  "crypto_kx_client_session_keys P client_pk client_sk server_pk =
     (case scalarmult P client_sk server_pk of
        None \<Rightarrow> None
      | Some q \<Rightarrow>
          (let keys = generichash P (q @ client_pk @ server_pk)
           in Some (take KXBYTES keys, take KXBYTES (drop KXBYTES keys))))"

definition crypto_kx_server_session_keys ::
    "kx_prims \<Rightarrow> byte list \<Rightarrow> byte list \<Rightarrow> byte list \<Rightarrow> (byte list \<times> byte list) option" where
  "crypto_kx_server_session_keys P server_pk server_sk client_pk =
     (case scalarmult P server_sk client_pk of
        None \<Rightarrow> None
      | Some q \<Rightarrow>
          (let keys = generichash P (q @ client_pk @ server_pk)
           in Some (take KXBYTES (drop KXBYTES keys), take KXBYTES keys)))"

definition set_session_keys :: "(byte list \<times> byte list) option \<Rightarrow> kx_ctx \<Rightarrow> kx_ctx \<times> int" where
  "set_session_keys r kx =
     (case r of None \<Rightarrow> (kx, -1) | Some (rx, tx) \<Rightarrow> (kx\<lparr>kx_rx := rx, kx_tx := tx\<rparr>, 0))"

definition crypto_kx_ctx_init ::
    "kx_prims \<Rightarrow> byte list \<Rightarrow> kx_ctx \<Rightarrow> bool \<Rightarrow> byte list \<Rightarrow> kx_ctx \<times> int" where
  "crypto_kx_ctx_init P rnd kx is_local rpk =
     (let rpk = take KXBYTES rpk; kx = kx\<lparr>kx_rpk := rpk\<rparr>
      in if is_local
         then (let kx = kx\<lparr>rpk_received := True\<rparr>; (pk, sk) = crypto_kx_keypair P rnd;
                   kx = kx\<lparr>kx_pk := pk, kx_sk := sk\<rparr>
               in set_session_keys (crypto_kx_client_session_keys P pk sk rpk) kx)
         else (let kx = kx\<lparr>pk_sent := True, rpk_received := True\<rparr>
               in set_session_keys
                    (crypto_kx_server_session_keys P (kx_pk kx) (kx_sk kx) rpk) kx))"

section \<open>Contexts\<close>

text \<open>
  The functions of \<^verbatim>\<open>mbedtls\<close> are the fields of a record.  \<open>cipher_info_from_string\<close> gives
  the nonce size of a cipher the library has; \<open>cipher_stream method enc key iv\<close> maps everything
  fed to a stream cipher since \<open>mbedtls_cipher_reset\<close> to everything it has put out
  (\<open>None\<close> is an error code).

  \<open>evp\<close> is the \<^verbatim>\<open>mbedtls\<close> cipher context: direction, key, nonce, and the bytes fed to it.
  \<open>cipher_t\<close> and \<open>cipher_ctx_t\<close> are the structures of \<^verbatim>\<open>crypto.h\<close> with arrays as lists; the
  unused field \<open>skey\<close> is left out.
\<close>

record mbedtls =
  cipher_info_from_string :: "string \<Rightarrow> nat option"
  md_sha1_hmac :: "(byte list \<Rightarrow> byte list \<Rightarrow> byte list option) option"
  md5_digest :: "byte list \<Rightarrow> byte list"
  cipher_setkey :: "byte list \<Rightarrow> bool"
  cipher_set_iv :: "byte list \<Rightarrow> bool"
  gcm_encrypt :: "byte list \<Rightarrow> byte list \<Rightarrow> byte list \<Rightarrow> int \<times> byte list \<times> byte list"
  gcm_decrypt :: "byte list \<Rightarrow> byte list \<Rightarrow> byte list \<Rightarrow> byte list \<Rightarrow> int \<times> byte list"
  cipher_stream :: "int \<Rightarrow> bool \<Rightarrow> byte list \<Rightarrow> byte list \<Rightarrow> byte list \<Rightarrow> byte list option"

record evp =
  evp_enc :: bool
  evp_key :: "byte list"
  evp_iv :: "byte list"
  evp_in :: "byte list"

definition fresh_evp :: evp where
  "fresh_evp = \<lparr>evp_enc = False, evp_key = [], evp_iv = [], evp_in = []\<rparr>"

abbreviation MAX_KEY_LENGTH :: nat where "MAX_KEY_LENGTH \<equiv> 64"
abbreviation MAX_NONCE_LENGTH :: nat where "MAX_NONCE_LENGTH \<equiv> 32"
abbreviation SHA1_SIZE :: nat where "SHA1_SIZE \<equiv> 20"

record cipher =
  c_method :: int
  c_nonce_len :: nat
  c_key_len :: nat
  c_tag_len :: nat
  c_pk :: "byte list"
  c_sk :: "byte list"

record cipher_ctx =
  cx_init :: nat
  cx_is_local :: bool
  cx_counter :: u64
  cx_evp :: "evp option"
  cx_cipher :: cipher
  cx_chunk :: "buffer option"
  cx_kx :: kx_ctx
  cx_salt :: "byte list"
  cx_s_rx :: "byte list"
  cx_s_tx :: "byte list"
  cx_nonce :: "byte list"

definition zero_kx :: kx_ctx where
  "zero_kx = \<lparr>pk_sent = False, rpk_received = False, kx_pk = replicate KXBYTES 0,
     kx_sk = replicate KXBYTES 0, kx_rpk = replicate KXBYTES 0, kx_rx = replicate KXBYTES 0,
     kx_tx = replicate KXBYTES 0\<rparr>"

definition zero_ctx :: "cipher \<Rightarrow> cipher_ctx" where
  "zero_ctx cip = \<lparr>cx_init = 0, cx_is_local = False, cx_counter = 0, cx_evp = None, cx_cipher = cip,
     cx_chunk = None, cx_kx = zero_kx, cx_salt = replicate MAX_KEY_LENGTH 0,
     cx_s_rx = replicate MAX_KEY_LENGTH 0, cx_s_tx = replicate MAX_KEY_LENGTH 0,
     cx_nonce = replicate MAX_NONCE_LENGTH 0\<rparr>"

text \<open>What the context has collected of an unfinished frame, and a buffer holding received bytes.\<close>

definition chunk_of :: "cipher_ctx \<Rightarrow> byte list" where
  "chunk_of ctx = (case cx_chunk ctx of None \<Rightarrow> [] | Some b \<Rightarrow> payload b)"

lemma payload_balloc [simp]: "payload (balloc n) = []"
  by (simp add: payload_def balloc_def)

definition recv_buffer :: "nat \<Rightarrow> byte list \<Rightarrow> buffer" where
  "recv_buffer cap bs =
     \<lparr>b_idx = 0, b_len = length bs, b_capacity = max cap (length bs),
      b_data = bs @ replicate (max cap (length bs) - length bs) 0\<rparr>"

lemma recv_buffer [simp]: "wf_buffer (recv_buffer cap bs)" "payload (recv_buffer cap bs) = bs"
  by (simp_all add: recv_buffer_def wf_buffer_def payload_def)

text \<open>Libraries for concrete runs.\<close>

definition plain_mbedtls :: mbedtls where
  "plain_mbedtls = \<lparr>cipher_info_from_string = (\<lambda>_. Some 16),
     md_sha1_hmac = Some (\<lambda>k m. Some (replicate SHA1_SIZE (of_nat (length k)))),
     md5_digest = (\<lambda>m. replicate 16 (of_nat (length m))),
     cipher_setkey = (\<lambda>_. True), cipher_set_iv = (\<lambda>_. True),
     gcm_encrypt = (\<lambda>k n m. (0, m, replicate 16 7)), gcm_decrypt = (\<lambda>k n c tag. (0, c)),
     cipher_stream = (\<lambda>method enc k n m. Some m)\<rparr>"

definition plain_kx :: kx_prims where
  "plain_kx = \<lparr>scalarmult = (\<lambda>a q. Some (replicate KXBYTES 0)),
     scalarmult_base = (\<lambda>a. take KXBYTES (a @ replicate KXBYTES 0)), generichash = (\<lambda>m. take 64 m)\<rparr>"

lemma plain_kx_simps [simp]:
  "scalarmult plain_kx a q = Some (replicate KXBYTES 0)"
  "length a = KXBYTES \<Longrightarrow> scalarmult_base plain_kx a = a"
  by (simp_all add: plain_kx_def)

text \<open>The search loop over a table of cipher names; the length of the table when there is none.\<close>

fun find_name :: "string \<Rightarrow> string list \<Rightarrow> int \<Rightarrow> int" where
  "find_name name [] m = m"
| "find_name name (s # ss) m = (if name = s then m else find_name name ss (m + 1))"

section \<open>Properties\<close>

subsection \<open>Buffers\<close>

lemma bprepend_payload:
  assumes "wf_buffer dst" and "wf_buffer src"
  shows "\<exists>dst'. bprepend dst src cap = Inr (dst', b_len dst + b_len src) \<and> wf_buffer dst' \<and>
           payload dst' = payload src @ payload dst"
proof -
  let ?d = "brealloc dst (b_len dst + b_len src) cap"
  have wf: "wf_buffer ?d" using assms by simp
  have cap: "b_len dst + b_len src \<le> b_capacity ?d" by (rule brealloc_capacity_ge)
  have old: "take (b_len dst) (b_data ?d) = payload dst"
    using payload_brealloc[OF assms(1)] by (simp add: payload_def)
  let ?d1 = "?d\<lparr>b_data := write_at (b_len src) (payload dst) (b_data ?d)\<rparr>"
  let ?d2 = "?d1\<lparr>b_data := write_at 0 (payload src) (b_data ?d1)\<rparr>"
  have lens: "length (payload dst) = b_len dst" "length (payload src) = b_len src"
    "length (b_data ?d) = b_capacity ?d"
    using assms wf by (simp_all add: wf_buffer_def)
  have "bprepend dst src cap
          = Inr (?d2\<lparr>b_len := b_len dst + b_len src\<rparr>, b_len dst + b_len src)"
    using assms cap lens old
    by (simp add: bprepend_def Let_def buf_read_def buf_write_def wf_buffer_def payload_def)
  moreover have "take (b_len dst + b_len src) (write_at 0 (payload src)
        (write_at (b_len src) (payload dst) (b_data ?d))) = payload src @ payload dst"
    using cap lens by (simp add: write_at_def)
  ultimately show ?thesis
    using cap lens by (simp add: wf_buffer_def payload_def)
qed

subsection \<open>HKDF\<close>

text \<open>The blocks \<open>T(1), T(2), \<dots>\<close> of RFC 5869, section 2.3.\<close>

fun hkdf_T :: "(byte list \<Rightarrow> byte list) \<Rightarrow> byte list \<Rightarrow> nat \<Rightarrow> byte list" where
  "hkdf_T mac info 0 = []"
| "hkdf_T mac info (Suc i) = mac (hkdf_T mac info i @ info @ [of_nat (Suc i)])"

definition hkdf_blocks :: "(byte list \<Rightarrow> byte list) \<Rightarrow> byte list \<Rightarrow> nat \<Rightarrow> byte list" where
  "hkdf_blocks mac info n = concat (map (\<lambda>i. hkdf_T mac info (Suc i)) [0..<n])"

lemma length_hkdf_blocks:
  "(\<And>x. length (mac x) = hl) \<Longrightarrow> length (hkdf_blocks mac info n) = n * hl"
  by (induction n) (simp_all add: hkdf_blocks_def)

lemma hkdf_blocks_Suc: "hkdf_blocks mac info (Suc n) = hkdf_blocks mac info n @ hkdf_T mac info (Suc n)"
  by (simp add: hkdf_blocks_def)

lemma hkdf_expand_loop_eq:
  assumes hmac: "\<And>x. hmac prk x = Some (mac x)" and len: "\<And>x. length (mac x) = hl"
    and "left \<noteq> 0" and "(i + left - 1) * hl \<le> okm_len" and "okm_len \<le> (i + left) * hl"
  shows "hkdf_expand_loop hmac hl prk info okm_len (Suc i) left (hkdf_T mac info i)
           (hkdf_blocks mac info i) = Some (take okm_len (hkdf_blocks mac info (i + left)))"
  using assms(3-)
proof (induction left arbitrary: i)
  case (Suc left)
  have T: "hmac prk (hkdf_T mac info i @ info @ [of_nat (Suc i)]) = Some (hkdf_T mac info (Suc i))"
    by (simp add: hmac)
  show ?case
  proof (cases "left = 0")
    case True
    then have "i * hl \<le> okm_len" "okm_len \<le> Suc i * hl" using Suc.prems by simp_all
    then show ?thesis
      using True T
      by (simp add: hmac hkdf_blocks_Suc length_hkdf_blocks[OF len] del: hkdf_T.simps of_nat_Suc)
  next
    case False
    have "hkdf_blocks mac info i @ take hl (hkdf_T mac info (Suc i)) = hkdf_blocks mac info (Suc i)"
      by (simp add: hkdf_blocks_Suc len)
    then show ?thesis
      using False T Suc.IH[of "Suc i"] Suc.prems by (simp del: hkdf_T.simps of_nat_Suc)
  qed
qed simp

lemma crypto_hkdf_expand_eq:
  assumes "\<And>x. hmac prk x = Some (mac x)" and "\<And>x. length (mac x) = hl" and "0 < hl"
    and "hl \<le> length prk" and "okm_len \<le> 255 * hl"
  shows "crypto_hkdf_expand hmac hl prk info okm_len
           = Some (take okm_len (hkdf_blocks mac info ((okm_len + hl - 1) div hl)))"
proof -
  let ?N = "okm_len div hl + (if okm_len mod hl \<noteq> 0 then 1 else 0)"
  have N: "?N = (okm_len + hl - 1) div hl"
  proof (cases "okm_len mod hl = 0")
    case True
    then obtain q where q: "okm_len = hl * q" by (auto simp: mod_eq_0_iff_dvd)
    have "(hl * q + hl - 1) div hl = (hl * q + (hl - 1)) div hl" using \<open>0 < hl\<close> by simp
    also have "\<dots> = q" by (subst div_mult_self4) (use \<open>0 < hl\<close> in simp_all)
    finally show ?thesis using True q \<open>0 < hl\<close> by simp
  next
    case False
    have "okm_len + hl - 1 = hl * (okm_len div hl + 1) + (okm_len mod hl - 1)"
      using False mult_div_mod_eq[of hl okm_len] unfolding distrib_left mult_1_right by linarith
    then have "(okm_len + hl - 1) div hl = (hl * (okm_len div hl + 1) + (okm_len mod hl - 1)) div hl"
      by simp
    also have "\<dots> = okm_len div hl + 1"
      by (subst div_mult_self4) (use \<open>0 < hl\<close> in \<open>simp_all add: less_imp_diff_less\<close>)
    finally show ?thesis using False by simp
  qed
  have le255: "?N \<le> 255"
  proof -
    have "(okm_len + hl - 1) div hl \<le> (255 * hl + (hl - 1)) div hl"
      using assms(5) \<open>0 < hl\<close> by (intro div_le_mono) simp
    also have "\<dots> = 255" by (subst div_mult_self3) (use \<open>0 < hl\<close> in simp_all)
    finally show ?thesis using N by simp
  qed
  show ?thesis
  proof (cases "okm_len = 0")
    case True
    then show ?thesis using assms by (simp add: crypto_hkdf_expand_def)
  next
    case False
    have n0: "?N \<noteq> 0"
      using False by (metis add_is_0 mod_0_imp_dvd dvd_div_eq_0_iff one_neq_zero)
    have "(?N - 1) * hl \<le> okm_len div hl * hl" by (intro mult_right_mono) simp_all
    also have "\<dots> \<le> okm_len" by (rule div_times_less_eq_dividend)
    finally have lower: "(?N - 1) * hl \<le> okm_len" .
    have upper: "okm_len \<le> ?N * hl"
      using dividend_less_div_times[OF \<open>0 < hl\<close>, of okm_len]
      by (cases "okm_len mod hl = 0") (auto simp: mod_eq_0_iff_dvd)
    show ?thesis
      using hkdf_expand_loop_eq[of hmac prk mac hl ?N 0 okm_len info, OF assms(1,2) n0] lower upper le255
        assms(4)
      unfolding N[symmetric] by (simp add: crypto_hkdf_expand_def Let_def hkdf_blocks_def)
  qed
qed

text \<open>
  \<open>crypto_hkdf\<close> computes HKDF of RFC 5869: extract with the salt (zeros of the hash size
  when there is none), then the first \<open>okm_len\<close> bytes of \<open>T(1) T(2) ...\<close>, for every length up to
  255 times the hash size.
\<close>

theorem crypto_hkdf_rfc5869:
  assumes "\<And>key x. hmac key x = Some (mac key x)" and "\<And>key x. length (mac key x) = hl" and "0 < hl"
    and "okm_len \<le> 255 * hl"
  shows "crypto_hkdf hmac hl salt ikm info okm_len
    = Some (take okm_len (hkdf_blocks
        (mac (mac (case salt of None \<Rightarrow> replicate hl 0 | Some s \<Rightarrow> s) ikm)) info
        ((okm_len + hl - 1) div hl)))"
  using crypto_hkdf_expand_eq[of hmac "mac (case salt of None \<Rightarrow> replicate hl 0 | Some s \<Rightarrow> s) ikm"
      "mac (mac (case salt of None \<Rightarrow> replicate hl 0 | Some s \<Rightarrow> s) ikm)" hl okm_len info] assms
  by (simp add: crypto_hkdf_def crypto_hkdf_extract_def)

theorem crypto_hkdf_rfc5869_witness:
  "crypto_hkdf (\<lambda>key x. Some (replicate 20 (of_nat (length x)))) 20 None [1, 2] [3] 32
    = Some (take 32 (hkdf_blocks (\<lambda>x. replicate 20 (of_nat (length x))) [3] ((32 + 20 - 1) div 20)))"
  using crypto_hkdf_rfc5869[of "\<lambda>key x. Some (replicate 20 (of_nat (length x)))"
      "\<lambda>key x. replicate 20 (of_nat (length x))" 20 32 None "[1, 2]" "[3]"]
  by simp

text \<open>
  \<open>bprepend\<close> puts the content of one buffer in front of another, whatever their sizes and the
  requested capacity, inside the reallocated memory.
\<close>

theorem bprepend_concatenates:
  assumes "wf_buffer dst" and "wf_buffer src"
  shows "\<exists>dst'. bprepend dst src cap = Inr (dst', b_len dst + b_len src) \<and> wf_buffer dst' \<and>
           payload dst' = payload src @ payload dst"
  by (rule bprepend_payload[OF assms])

theorem bprepend_concatenates_witness:
  "\<exists>dst'. bprepend \<lparr>b_idx = 0, b_len = 2, b_capacity = 2, b_data = [3, 4]\<rparr>
      \<lparr>b_idx = 0, b_len = 2, b_capacity = 3, b_data = [1, 2, 9]\<rparr> 0 = Inr (dst', 4) \<and>
    wf_buffer dst' \<and> payload dst' = [1, 2, 3, 4]"
  using bprepend_concatenates[of "\<lparr>b_idx = 0, b_len = 2, b_capacity = 2, b_data = [3, 4]\<rparr>"
      "\<lparr>b_idx = 0, b_len = 2, b_capacity = 3, b_data = [1, 2, 9]\<rparr>" 0]
  by (simp add: wf_buffer_def payload_def)

end
