(* ===== verification/SS_Aead.thy ===== *)
theory SS_Aead
  imports Chacha_Aead SS_Crypto
begin

text \<open>
  \<^verbatim>\<open>shadowsocks-libev/src/aead.c\<close>: the authenticated packet layer of the proxy.

  Each function's static \<open>tmp\<close> buffer is an argument and a result.  Values of the
  random generators are arguments: \<open>rnd\<close> for \<open>random()\<close>, \<open>rb n\<close> for \<open>n\<close> bytes
  of \<open>rand_bytes\<close>.  The AES-GCM and HMAC functions of \<^verbatim>\<open>mbedtls\<close> are the fields of the
  argument \<open>L\<close>; the ChaCha20 methods run the model of libsodium.

  \<open>FATAL\<close>, \<open>abort\<close>, a failed \<open>assert\<close> and an access outside a buffer are faults.
\<close>

section \<open>Constants\<close>

abbreviation AES128GCM :: int where "AES128GCM \<equiv> 0"
abbreviation AES192GCM :: int where "AES192GCM \<equiv> 1"
abbreviation AES256GCM :: int where "AES256GCM \<equiv> 2"
abbreviation CHACHA20POLY1305IETF :: int where "CHACHA20POLY1305IETF \<equiv> 3"
abbreviation XCHACHA20POLY1305IETF :: int where "XCHACHA20POLY1305IETF \<equiv> 4"
abbreviation AEAD_CIPHER_NUM :: int where "AEAD_CIPHER_NUM \<equiv> 5"

abbreviation CHUNK_SIZE_LEN :: nat where "CHUNK_SIZE_LEN \<equiv> 2"
abbreviation CHUNK_SIZE_MASK :: nat where "CHUNK_SIZE_MASK \<equiv> 0x3FFF"
abbreviation CHUNK_PADDING_SIZE_LEN :: nat where "CHUNK_PADDING_SIZE_LEN \<equiv> 2"
abbreviation CHUNK_PADDING_SIZE_LIMIT :: nat where "CHUNK_PADDING_SIZE_LIMIT \<equiv> 512"
abbreviation CHUNK_PADDING_SIZE_MASK :: nat where "CHUNK_PADDING_SIZE_MASK \<equiv> 0x7FFF"

definition supported_aead_ciphers :: "string list" where
  "supported_aead_ciphers =
     [''aes-128-gcm'', ''aes-192-gcm'', ''aes-256-gcm'', ''chacha20-ietf-poly1305'',
      ''xchacha20-ietf-poly1305'']"

definition supported_aead_ciphers_mbedtls :: "string list" where
  "supported_aead_ciphers_mbedtls =
     [''AES-128-GCM'', ''AES-192-GCM'', ''AES-256-GCM'', ''unsupported'', ''unsupported'']"

definition supported_aead_ciphers_nonce_size :: "nat list" where
  "supported_aead_ciphers_nonce_size = [12, 12, 12, 12, 24]"

definition supported_aead_ciphers_key_size :: "nat list" where
  "supported_aead_ciphers_key_size = [16, 24, 32, 32, 32]"

definition supported_aead_ciphers_tag_size :: "nat list" where
  "supported_aead_ciphers_tag_size = [16, 16, 16, 16, 16]"

definition SUBKEY_INFO :: "byte list" where
  "SUBKEY_INFO = [0x70, 0x73, 0x2d, 0x73, 0x75, 0x62, 0x6b, 0x65, 0x79]"

section \<open>The cipher calls\<close>

definition aead_cipher_encrypt ::
    "mbedtls \<Rightarrow> cipher_ctx \<Rightarrow> byte list \<Rightarrow> byte list \<Rightarrow> byte list \<Rightarrow> byte list \<Rightarrow> (int \<times> byte list) run" where
  "aead_cipher_encrypt L ctx m ad n k =
     (let nlen = c_nonce_len (cx_cipher ctx); method = c_method (cx_cipher ctx)
      in if method = AES128GCM \<or> method = AES192GCM \<or> method = AES256GCM
         then (case cx_evp ctx of
                 None \<Rightarrow> Inl OutOfBounds
               | Some evp \<Rightarrow>
                   (case gcm_encrypt L (evp_key evp) (take nlen n) m of (err, c, tag) \<Rightarrow> Inr (err, c @ tag)))
         else if method = CHACHA20POLY1305IETF
         then bindE (crypto_aead_chacha20poly1305_ietf_encrypt m ad (take 12 n) (take 32 k))
                (\<lambda>c. Inr (0, c))
         else if method = XCHACHA20POLY1305IETF
         then bindE (crypto_aead_xchacha20poly1305_ietf_encrypt m ad (take 24 n) (take 32 k))
                (\<lambda>c. Inr (0, c))
         else Inr (-2, []))"

definition aead_cipher_decrypt ::
    "mbedtls \<Rightarrow> cipher_ctx \<Rightarrow> byte list \<Rightarrow> byte list \<Rightarrow> byte list \<Rightarrow> byte list \<Rightarrow> (int \<times> byte list) run" where
  "aead_cipher_decrypt L ctx m ad n k =
     (let nlen = c_nonce_len (cx_cipher ctx); tlen = c_tag_len (cx_cipher ctx);
          method = c_method (cx_cipher ctx)
      in if method = AES128GCM \<or> method = AES192GCM \<or> method = AES256GCM
         then (case cx_evp ctx of
                 None \<Rightarrow> Inl OutOfBounds
               | Some evp \<Rightarrow>
                   Inr (gcm_decrypt L (evp_key evp) (take nlen n) (take (length m - tlen) m)
                          (drop (length m - tlen) m)))
         else if method = CHACHA20POLY1305IETF
         then crypto_aead_chacha20poly1305_ietf_decrypt m ad (take 12 n) (take 32 k)
         else if method = XCHACHA20POLY1305IETF
         then crypto_aead_xchacha20poly1305_ietf_decrypt m ad (take 24 n) (take 32 k)
         else Inr (-2, []))"

text \<open>\<open>aead_get_cipher_type\<close> is \<open>True\<close> where the C function returns a cipher, not NULL.\<close>

definition aead_get_cipher_type :: "mbedtls \<Rightarrow> int \<Rightarrow> bool" where
  "aead_get_cipher_type L method =
     (if method < AES128GCM \<or> method \<ge> AEAD_CIPHER_NUM then False
      else if method \<ge> CHACHA20POLY1305IETF then False
      else (let mbedtlsname = supported_aead_ciphers_mbedtls ! nat method
            in if mbedtlsname = ''unsupported'' then False
               else cipher_info_from_string L mbedtlsname \<noteq> None))"

definition aead_cipher_ctx_set_key :: "mbedtls \<Rightarrow> cipher_ctx \<Rightarrow> bool \<Rightarrow> cipher_ctx run" where
  "aead_cipher_ctx_set_key L ctx enc =
     (let key_len = c_key_len (cx_cipher ctx); nonce_len = c_nonce_len (cx_cipher ctx);
          key = (if enc then kx_tx (cx_kx ctx) else kx_rx (cx_kx ctx))
      in case md_sha1_hmac L of
           None \<Rightarrow> Inl FatalExit
         | Some hmac \<Rightarrow>
           (case crypto_hkdf hmac SHA1_SIZE (Some (take key_len (cx_salt ctx))) (take key_len key)
                   SUBKEY_INFO key_len of
              None \<Rightarrow> Inl FatalExit
            | Some skey \<Rightarrow>
                (let ctx = (if enc then ctx\<lparr>cx_s_tx := write_at 0 skey (cx_s_tx ctx)\<rparr>
                            else ctx\<lparr>cx_s_rx := write_at 0 skey (cx_s_rx ctx)\<rparr>);
                     ctx = ctx\<lparr>cx_nonce := write_at 0 (replicate nonce_len 0) (cx_nonce ctx)\<rparr>
                 in if c_method (cx_cipher ctx) \<ge> CHACHA20POLY1305IETF then Inr ctx
                    else (case cx_evp ctx of
                            None \<Rightarrow> Inl OutOfBounds
                          | Some evp \<Rightarrow>
                              if \<not> cipher_setkey L skey then Inl FatalExit
                              else Inr (ctx\<lparr>cx_evp :=
                                     Some (evp\<lparr>evp_enc := enc, evp_key := skey, evp_in := []\<rparr>)\<rparr>)))))"

definition aead_cipher_ctx_init :: "mbedtls \<Rightarrow> cipher_ctx \<Rightarrow> int \<Rightarrow> cipher_ctx run" where
  "aead_cipher_ctx_init L ctx method =
     (if method < AES128GCM \<or> method \<ge> AEAD_CIPHER_NUM then Inr ctx
      else if method \<ge> CHACHA20POLY1305IETF then Inr ctx
      else if \<not> aead_get_cipher_type L method then Inl FatalExit
      else Inr (ctx\<lparr>cx_evp := Some fresh_evp\<rparr>))"

definition aead_ctx_init ::
    "mbedtls \<Rightarrow> (nat \<Rightarrow> byte list) \<Rightarrow> cipher \<Rightarrow> kx_ctx option \<Rightarrow> bool \<Rightarrow> cipher_ctx run" where
  "aead_ctx_init L rb cip kx enc =
     (let ctx = zero_ctx cip;
          ctx = (case kx of None \<Rightarrow> ctx | Some k \<Rightarrow> ctx\<lparr>cx_kx := k\<rparr>)
      in bindE (aead_cipher_ctx_init L ctx (c_method cip)) (\<lambda>ctx.
         Inr (if enc then ctx\<lparr>cx_salt := write_at 0 (rb (c_key_len cip)) (cx_salt ctx)\<rparr> else ctx)))"

definition aead_ctx_release :: "cipher_ctx \<Rightarrow> cipher_ctx" where
  "aead_ctx_release ctx =
     (let ctx = ctx\<lparr>cx_chunk := None\<rparr>
      in if c_method (cx_cipher ctx) \<ge> CHACHA20POLY1305IETF then ctx else ctx\<lparr>cx_evp := None\<rparr>)"

section \<open>Datagrams\<close>

text \<open>
  Result, the buffer holding the datagram, the key exchange state (\<open>pk_sent\<close> or
  \<open>rpk_received\<close> may be set) and the function's static buffer.
\<close>

definition aead_encrypt_all ::
    "mbedtls \<Rightarrow> (nat \<Rightarrow> byte list) \<Rightarrow> buffer \<Rightarrow> cipher \<Rightarrow> kx_ctx \<Rightarrow> nat \<Rightarrow> buffer
      \<Rightarrow> (crypto_ret \<times> buffer \<times> kx_ctx \<times> buffer) run" where
  "aead_encrypt_all L rb plaintext cip kx capacity tmp =
     bindE (aead_ctx_init L rb cip (Some kx) True) (\<lambda>ctx.
       let salt_len = c_key_len cip; tag_len = c_tag_len cip;
           pk_len = (if \<not> pk_sent kx then KXBYTES else 0);
           tmp = (brealloc tmp (pk_len + salt_len + tag_len + b_len plaintext) capacity)
                   \<lparr>b_len := tag_len + b_len plaintext\<rparr>
       in bindE (if pk_len \<noteq> 0
                 then bindE (buf_write 0 (take pk_len (kx_pk kx)) tmp) (\<lambda>tmp.
                        Inr (tmp, kx\<lparr>pk_sent := True\<rparr>))
                 else Inr (tmp, kx)) (\<lambda>(tmp, kx).
          bindE (buf_write pk_len (take salt_len (cx_salt ctx)) tmp) (\<lambda>tmp.
          bindE (aead_cipher_ctx_set_key L ctx True) (\<lambda>ctx.
          bindE (buf_read 0 (b_len plaintext) plaintext) (\<lambda>m.
          bindE (aead_cipher_encrypt L ctx m [] (cx_nonce ctx) (cx_s_tx ctx)) (\<lambda>(err, c).
            if err \<noteq> 0 then Inr (CRYPTO_ERROR, plaintext, kx, tmp)
            else bindE (buf_write (pk_len + salt_len) c tmp) (\<lambda>tmp.
                 bindE (guardE (b_len tmp = length c) AssertFailed) (\<lambda>_.
                   let n = pk_len + salt_len + b_len tmp;
                       plaintext = brealloc plaintext n capacity
                   in bindE (buf_read 0 n tmp) (\<lambda>bs.
                      bindE (buf_write 0 bs plaintext) (\<lambda>plaintext.
                        Inr (CRYPTO_OK, plaintext\<lparr>b_len := n\<rparr>, kx, tmp)))))))))))"

definition aead_decrypt_all ::
    "mbedtls \<Rightarrow> kx_prims \<Rightarrow> buffer \<Rightarrow> cipher \<Rightarrow> kx_ctx \<Rightarrow> nat \<Rightarrow> buffer
      \<Rightarrow> (crypto_ret \<times> buffer \<times> kx_ctx \<times> buffer) run" where
  "aead_decrypt_all L P ciphertext cip kx capacity tmp =
     (let salt_len = c_key_len cip; tag_len = c_tag_len cip;
          rpk_len = (if \<not> rpk_received kx then KXBYTES else 0)
      in if b_len ciphertext \<le> rpk_len + salt_len + tag_len
         then Inr (CRYPTO_ERROR, ciphertext, kx, tmp)
         else
           bindE (if \<not> rpk_received kx
                  then bindE (buf_read 0 KXBYTES ciphertext) (\<lambda>rpk.
                         Inr ((fst (crypto_kx_ctx_init P [] kx False rpk))\<lparr>rpk_received := True\<rparr>))
                  else Inr kx) (\<lambda>kx.
           bindE (aead_ctx_init L (\<lambda>_. []) cip (Some kx) False) (\<lambda>ctx.
             let plen = b_len ciphertext - rpk_len - salt_len - tag_len;
                 tmp = (brealloc tmp (b_len ciphertext) capacity)\<lparr>b_len := plen\<rparr>
             in bindE (buf_read rpk_len salt_len ciphertext) (\<lambda>salt.
                bindE (aead_cipher_ctx_set_key L (ctx\<lparr>cx_salt := write_at 0 salt (cx_salt ctx)\<rparr>) False)
                  (\<lambda>ctx.
                bindE (buf_read (rpk_len + salt_len) (b_len ciphertext - rpk_len - salt_len) ciphertext)
                  (\<lambda>c.
                bindE (aead_cipher_decrypt L ctx c [] (cx_nonce ctx) (cx_s_rx ctx)) (\<lambda>(err, m).
                bindE (buf_write 0 m tmp) (\<lambda>tmp.
                  if err \<noteq> 0 then Inr (CRYPTO_ERROR, ciphertext, kx, tmp)
                  else let ciphertext = brealloc ciphertext (b_len tmp) capacity
                       in bindE (buf_read 0 (b_len tmp) tmp) (\<lambda>bs.
                          bindE (buf_write 0 bs ciphertext) (\<lambda>ciphertext.
                            Inr (CRYPTO_OK, ciphertext\<lparr>b_len := b_len tmp\<rparr>, kx, tmp)))))))))))"

section \<open>TCP chunks\<close>

definition increment_nonce :: "cipher_ctx \<Rightarrow> cipher_ctx" where
  "increment_nonce ctx =
     (let nlen = c_nonce_len (cx_cipher ctx); n = cx_nonce ctx
      in ctx\<lparr>cx_nonce := sodium_increment (take nlen n) @ drop nlen n\<rparr>)"

definition aead_chunk_encrypt ::
    "mbedtls \<Rightarrow> nat \<Rightarrow> (nat \<Rightarrow> byte list) \<Rightarrow> cipher_ctx \<Rightarrow> byte list \<Rightarrow> u16 \<Rightarrow> nat \<Rightarrow> buffer
      \<Rightarrow> (crypto_ret \<times> cipher_ctx \<times> buffer \<times> nat) run" where
  "aead_chunk_encrypt L rnd rb ctx p plen off c =
     (let tlen = c_tag_len (cx_cipher ctx)
      in bindE (guardE (unat plen \<le> CHUNK_SIZE_MASK) AssertFailed) (\<lambda>_.
           let pdlen = (if unat plen < CHUNK_PADDING_SIZE_LIMIT
                        then rnd mod CHUNK_PADDING_SIZE_LIMIT + 1
                        else rnd mod (CHUNK_PADDING_SIZE_MASK - CHUNK_PADDING_SIZE_LIMIT)
                               + CHUNK_PADDING_SIZE_LIMIT + 1);
               pdbuf = (if unat plen < CHUNK_PADDING_SIZE_LIMIT then rb pdlen else []);
               t = (ucast plen AND 0x3FFF) OR push_bit 16 (of_nat pdlen) :: u32;
               len_buf = store32_be t
           in bindE (aead_cipher_encrypt L ctx len_buf [] (cx_nonce ctx) (cx_s_tx ctx)) (\<lambda>(err, hdr).
              if err \<noteq> 0 then Inr (CRYPTO_ERROR, ctx, c, 0)
              else bindE (buf_write off hdr c) (\<lambda>c.
              bindE (guardE (length hdr = CHUNK_SIZE_LEN + CHUNK_PADDING_SIZE_LEN + tlen) AssertFailed)
                (\<lambda>_.
                let ctx = increment_nonce ctx
                in bindE (if pdlen \<le> CHUNK_PADDING_SIZE_LIMIT
                          then bindE (buf_write (off + length hdr) pdbuf c) (\<lambda>c. Inr (c, pdlen))
                          else Inr (c, 0)) (\<lambda>(c, pdlen).
                   bindE (aead_cipher_encrypt L ctx (take (unat plen) p) [] (cx_nonce ctx) (cx_s_tx ctx))
                     (\<lambda>(err, body).
                     if err \<noteq> 0 then Inr (CRYPTO_ERROR, ctx, c, 0)
                     else bindE (buf_write (off + CHUNK_SIZE_LEN + CHUNK_PADDING_SIZE_LEN + tlen + pdlen)
                                   body c) (\<lambda>c.
                          bindE (guardE (length body = unat plen + tlen) AssertFailed) (\<lambda>_.
                            Inr (CRYPTO_OK, increment_nonce ctx, c,
                              CHUNK_SIZE_LEN + CHUNK_PADDING_SIZE_LEN + tlen + pdlen
                                + unat plen + tlen)))))))))) "

definition aead_encrypt ::
    "mbedtls \<Rightarrow> nat \<Rightarrow> (nat \<Rightarrow> byte list) \<Rightarrow> buffer \<Rightarrow> cipher_ctx \<Rightarrow> nat \<Rightarrow> buffer
      \<Rightarrow> (crypto_ret \<times> buffer \<times> cipher_ctx \<times> buffer) run" where
  "aead_encrypt L rnd rb plaintext ctx capacity tmp =
     (if b_len plaintext = 0 then Inr (CRYPTO_OK, plaintext, ctx, tmp)
      else
        let salt_len = c_key_len (cx_cipher ctx); tag_len = c_tag_len (cx_cipher ctx);
            salt_offset = (if cx_init ctx = 0 then salt_len else 0);
            pk_offset = (if cx_init ctx = 0 \<and> cx_is_local ctx then KXBYTES else 0);
            out_len = pk_offset + salt_offset + 2 * tag_len + b_len plaintext
                        + CHUNK_SIZE_LEN + CHUNK_PADDING_SIZE_LEN + CHUNK_PADDING_SIZE_LIMIT;
            tmp = (brealloc tmp out_len capacity)\<lparr>b_len := out_len\<rparr>
        in bindE (if cx_init ctx = 0
                  then bindE (if cx_is_local ctx
                              then bindE (buf_write 0 (take pk_offset (kx_pk (cx_kx ctx))) tmp) (\<lambda>tmp.
                                     Inr (tmp, ctx\<lparr>cx_kx := (cx_kx ctx)\<lparr>pk_sent := True\<rparr>\<rparr>))
                              else Inr (tmp, ctx)) (\<lambda>(tmp, ctx).
                       bindE (buf_write pk_offset (take salt_len (cx_salt ctx)) tmp) (\<lambda>tmp.
                       bindE (aead_cipher_ctx_set_key L ctx True) (\<lambda>ctx.
                         Inr (tmp, ctx\<lparr>cx_init := 1\<rparr>))))
                  else Inr (tmp, ctx)) (\<lambda>(tmp, ctx).
           bindE (aead_chunk_encrypt L rnd rb ctx (b_data plaintext) (of_nat (b_len plaintext))
                    (pk_offset + salt_offset) tmp) (\<lambda>(err, ctx, tmp, out_len).
             if err \<noteq> CRYPTO_OK then Inr (err, plaintext, ctx, tmp)
             else let n = out_len + pk_offset + salt_offset;
                      plaintext = brealloc plaintext n capacity
                  in bindE (buf_read 0 n tmp) (\<lambda>bs.
                     bindE (buf_write 0 bs plaintext) (\<lambda>plaintext.
                       Inr (CRYPTO_OK, plaintext\<lparr>b_len := n\<rparr>, ctx, tmp))))))"

definition aead_chunk_decrypt ::
    "mbedtls \<Rightarrow> cipher_ctx \<Rightarrow> nat \<Rightarrow> buffer \<Rightarrow> buffer \<Rightarrow> nat
      \<Rightarrow> (crypto_ret \<times> cipher_ctx \<times> buffer \<times> buffer \<times> nat \<times> nat) run" where
  "aead_chunk_decrypt L ctx off p c clen =
     (let tlen = c_tag_len (cx_cipher ctx)
      in if clen \<le> 2 * tlen + CHUNK_SIZE_LEN + CHUNK_PADDING_SIZE_LEN
         then Inr (CRYPTO_NEED_MORE, ctx, p, c, 0, clen)
         else
           bindE (buf_read 0 (CHUNK_SIZE_LEN + CHUNK_PADDING_SIZE_LEN + tlen) c) (\<lambda>hdr.
           bindE (aead_cipher_decrypt L ctx hdr [] (cx_nonce ctx) (cx_s_rx ctx)) (\<lambda>(err, len_buf).
             if err \<noteq> 0 then Inr (CRYPTO_ERROR, ctx, p, c, length len_buf, clen)
             else
             bindE (guardE (length len_buf = CHUNK_SIZE_LEN + CHUNK_PADDING_SIZE_LEN) AssertFailed) (\<lambda>_.
               let v = load32_be len_buf;
                   padlen = unat (drop_bit 16 v AND 0x7FFF);
                   mlen = unat (v AND 0x3FFF)
               in if mlen = 0 then Inr (CRYPTO_ERROR, ctx, p, c, length len_buf, clen)
                  else
                    let padlen = (if padlen > CHUNK_PADDING_SIZE_LIMIT then 0 else padlen);
                        chunk_len = 2 * tlen + CHUNK_SIZE_LEN + CHUNK_PADDING_SIZE_LEN + padlen + mlen
                    in if clen < chunk_len then Inr (CRYPTO_NEED_MORE, ctx, p, c, length len_buf, clen)
                       else
                         let ctx = increment_nonce ctx
                         in bindE (buf_read (CHUNK_SIZE_LEN + CHUNK_PADDING_SIZE_LEN + tlen + padlen)
                                     (mlen + tlen) c) (\<lambda>body.
                            bindE (aead_cipher_decrypt L ctx body [] (cx_nonce ctx) (cx_s_rx ctx))
                              (\<lambda>(err, m).
                            bindE (buf_write off m p) (\<lambda>p.
                              if err \<noteq> 0 then Inr (CRYPTO_ERROR, ctx, p, c, length m, clen)
                              else
                              bindE (guardE (length m = mlen) AssertFailed) (\<lambda>_.
                                let ctx = increment_nonce ctx
                                in bindE (if clen > chunk_len
                                          then bindE (buf_read chunk_len (clen - chunk_len) c) (\<lambda>rest.
                                                 buf_write 0 rest c)
                                          else Inr c) (\<lambda>c.
                                   Inr (CRYPTO_OK, ctx, p, c, mlen, clen - chunk_len))))))))))"

lemma aead_chunk_decrypt_progress:
  assumes "aead_chunk_decrypt L ctx off p c clen = Inr (CRYPTO_OK, ctx', p', c', plen, clen')"
  shows "clen' < clen"
  using assms
  by (auto simp: aead_chunk_decrypt_def Let_def bindE_Inr_iff guardE_def split: if_splits prod.splits)

text \<open>
  \<open>aead_decrypt_loop\<close> is the \<open>while\<close> loop of \<open>aead_decrypt\<close>; it ends because every
  chunk taken from the buffer has at least one byte.
\<close>

function aead_decrypt_loop ::
    "mbedtls \<Rightarrow> cipher_ctx \<Rightarrow> buffer \<Rightarrow> buffer \<Rightarrow> nat
      \<Rightarrow> (crypto_ret \<times> cipher_ctx \<times> buffer \<times> buffer \<times> nat) run" where
  "aead_decrypt_loop L ctx chunk tmp plen =
     (if b_len chunk > 0
      then bindE (aead_chunk_decrypt L ctx plen tmp chunk (b_len chunk))
             (\<lambda>(err, ctx, tmp, chunk, chunk_plen, chunk_clen).
             case err of
               CRYPTO_ERROR \<Rightarrow> Inr (CRYPTO_ERROR, ctx, chunk, tmp, plen)
             | CRYPTO_NEED_MORE \<Rightarrow>
                 Inr (if plen = 0 then CRYPTO_NEED_MORE else CRYPTO_OK, ctx, chunk, tmp, plen)
             | CRYPTO_OK \<Rightarrow>
                 aead_decrypt_loop L ctx (chunk\<lparr>b_len := chunk_clen\<rparr>) tmp (plen + chunk_plen))
      else Inr (CRYPTO_OK, ctx, chunk, tmp, plen))"
  by pat_completeness auto
termination
  by (relation "measure (\<lambda>(_, _, chunk, _, _). b_len chunk)")
    (auto dest: aead_chunk_decrypt_progress)

declare aead_decrypt_loop.simps [simp del]

definition aead_decrypt ::
    "mbedtls \<Rightarrow> kx_prims \<Rightarrow> buffer \<Rightarrow> cipher_ctx \<Rightarrow> nat \<Rightarrow> buffer
      \<Rightarrow> (crypto_ret \<times> buffer \<times> cipher_ctx \<times> buffer) run" where
  "aead_decrypt L P ciphertext ctx capacity tmp =
     (let cip = cx_cipher ctx; salt_len = c_key_len cip;
          chunk = (case cx_chunk ctx of None \<Rightarrow> balloc capacity | Some b \<Rightarrow> b);
          chunk = brealloc chunk (b_len chunk + b_len ciphertext) capacity
      in bindE (buf_read 0 (b_len ciphertext) ciphertext) (\<lambda>bs.
         bindE (buf_write (b_len chunk) bs chunk) (\<lambda>chunk.
           let chunk = chunk\<lparr>b_len := b_len chunk + b_len ciphertext\<rparr>;
               tmp = brealloc tmp (b_len chunk) capacity;
               rpk_len = (if cx_init ctx = 0 \<and> \<not> cx_is_local ctx then KXBYTES else 0)
           in if cx_init ctx = 0 \<and> b_len chunk \<le> rpk_len + salt_len
              then Inr (CRYPTO_NEED_MORE, ciphertext, ctx\<lparr>cx_chunk := Some chunk\<rparr>, tmp)
              else
              bindE (if cx_init ctx = 0
                     then
                       bindE (if cx_is_local ctx then Inr ctx
                              else bindE (buf_read 0 KXBYTES chunk) (\<lambda>rpk.
                                     let kx = (cx_kx ctx)\<lparr>kx_pk := c_pk cip, kx_sk := c_sk cip\<rparr>
                                     in Inr (ctx\<lparr>cx_kx :=
                                          fst (crypto_kx_ctx_init P [] kx (cx_is_local ctx) rpk)\<rparr>)))
                         (\<lambda>ctx.
                       bindE (buf_read rpk_len salt_len chunk) (\<lambda>salt.
                       bindE (aead_cipher_ctx_set_key L
                                (ctx\<lparr>cx_salt := write_at 0 salt (cx_salt ctx)\<rparr>) False) (\<lambda>ctx.
                       bindE (buf_read (rpk_len + salt_len) (b_len chunk - rpk_len - salt_len) chunk)
                         (\<lambda>rest.
                       bindE (buf_write 0 rest chunk) (\<lambda>chunk.
                         Inr (ctx\<lparr>cx_init := 1\<rparr>,
                              chunk\<lparr>b_len := b_len chunk - (rpk_len + salt_len)\<rparr>))))))
                     else Inr (if cx_init ctx = 1 then ctx\<lparr>cx_init := 2\<rparr> else ctx, chunk))
                (\<lambda>(ctx, chunk).
              bindE (aead_decrypt_loop L ctx chunk tmp 0) (\<lambda>(err, ctx, chunk, tmp, plen).
                let ctx = ctx\<lparr>cx_chunk := Some chunk\<rparr>
                in if err \<noteq> CRYPTO_OK then Inr (err, ciphertext, ctx, tmp)
                   else
                   let tmp = tmp\<lparr>b_len := plen\<rparr>;
                       ciphertext = brealloc ciphertext plen capacity
                   in bindE (buf_read 0 plen tmp) (\<lambda>bs.
                      bindE (buf_write 0 bs ciphertext) (\<lambda>ciphertext.
                        Inr (CRYPTO_OK, ciphertext\<lparr>b_len := plen\<rparr>, ctx, tmp))))))))"

section \<open>Choosing a cipher\<close>

text \<open>\<open>Inr None\<close> is the NULL result for a method out of range.\<close>

definition aead_key_init ::
    "mbedtls \<Rightarrow> int \<Rightarrow> byte list option \<Rightarrow> byte list option \<Rightarrow> cipher option run" where
  "aead_key_init L method pk sk =
     (if method < AES128GCM \<or> method \<ge> AEAD_CIPHER_NUM then Inr None
      else if method < CHACHA20POLY1305IETF \<and> \<not> aead_get_cipher_type L method then Inl FatalExit
      else
        let key_len = supported_aead_ciphers_key_size ! nat method
        in if key_len = 0 then Inl FatalExit
           else Inr (Some \<lparr>c_method = method,
             c_nonce_len = supported_aead_ciphers_nonce_size ! nat method,
             c_key_len = key_len,
             c_tag_len = supported_aead_ciphers_tag_size ! nat method,
             c_pk = (case pk of None \<Rightarrow> replicate KXBYTES 0 | Some bs \<Rightarrow> take KXBYTES bs),
             c_sk = (case sk of None \<Rightarrow> replicate KXBYTES 0 | Some bs \<Rightarrow> take KXBYTES bs)\<rparr>))"

definition aead_init ::
    "mbedtls \<Rightarrow> byte list option \<Rightarrow> byte list option \<Rightarrow> string option \<Rightarrow> cipher option run" where
  "aead_init L pk sk method =
     (let m = (case method of
                 None \<Rightarrow> AES128GCM
               | Some name \<Rightarrow>
                   (let m = find_name name supported_aead_ciphers AES128GCM
                    in if m \<ge> AEAD_CIPHER_NUM then AES256GCM else m))
      in aead_key_init L m pk sk)"

end
