(* ===== verification/SS_Channel.thy ===== *)
theory SS_Channel
  imports SS_Aead "HOL-Library.Sublist"
begin

text \<open>
  The TCP channel of \<^verbatim>\<open>aead.c\<close>: what a sender running \<open>aead_encrypt\<close> puts on the wire, and
  that a receiver running \<open>aead_decrypt\<close> recovers it from any segmentation of the byte stream.

  \<^item> \<open>mbedtls_ok\<close> states the documented behaviour of the library functions of \<^verbatim>\<open>mbedtls\<close>.
  \<^item> \<open>seal\<close>, \<open>frame_bytes\<close>, \<open>wire\<close>: the wire format, written from the description of the
    protocol rather than from the code: the length and padding header and the body, each sealed
    under its own nonce, with the padding between them.
  \<^item> The encryption functions produce exactly these frames, the decryption functions consume
    them; a strict prefix of a frame asks for more data and changes nothing.
\<close>

section \<open>The library functions\<close>

definition msg_max :: nat where
  "msg_max = 2 ^ 36 - 32"

definition mbedtls_ok :: "mbedtls \<Rightarrow> bool" where
  "mbedtls_ok L \<longleftrightarrow>
     (\<exists>hmac. md_sha1_hmac L = Some hmac \<and>
        (\<forall>k m. \<exists>t. hmac k m = Some t \<and> length t = SHA1_SIZE)) \<and>
     (\<forall>key. length key \<in> {16, 24, 32} \<longrightarrow> cipher_setkey L key) \<and>
     (\<forall>name \<in> {''AES-128-GCM'', ''AES-192-GCM'', ''AES-256-GCM''}. cipher_info_from_string L name \<noteq> None) \<and>
     (\<forall>key n m. length key \<in> {16, 24, 32} \<longrightarrow> length n = 12 \<longrightarrow> length m \<le> msg_max \<longrightarrow>
        (\<exists>c tag. gcm_encrypt L key n m = (0, c, tag) \<and> length c = length m \<and> length tag = 16 \<and>
           gcm_decrypt L key n c tag = (0, m))) \<and>
     (\<forall>key n c tag err m. gcm_decrypt L key n c tag = (err, m) \<longrightarrow> length m = length c)"

lemma mbedtls_hmac:
  assumes "mbedtls_ok L"
  obtains hmac mac where "md_sha1_hmac L = Some hmac" "\<And>k m. hmac k m = Some (mac k m)"
    "\<And>k m. length (mac k m) = SHA1_SIZE"
proof -
  obtain hmac where h: "md_sha1_hmac L = Some hmac"
    "\<forall>k m. \<exists>t. hmac k m = Some t \<and> length t = SHA1_SIZE"
    using assms by (auto simp: mbedtls_ok_def)
  from h(2) have "hmac k m = Some (the (hmac k m)) \<and> length (the (hmac k m)) = SHA1_SIZE" for k m
    by (metis option.sel)
  with h(1) show thesis by (intro that[of hmac "\<lambda>k m. the (hmac k m)"]) auto
qed

lemma mbedtls_gcm:
  assumes "mbedtls_ok L" "length key \<in> {16, 24, 32}" "length n = 12" "length m \<le> msg_max"
  shows "\<exists>c tag. gcm_encrypt L key n m = (0, c, tag) \<and> length c = length m \<and> length tag = 16 \<and>
           gcm_decrypt L key n c tag = (0, m)"
  using assms(1) unfolding mbedtls_ok_def using assms(2-) by blast

lemma mbedtls_gcm_length:
  "mbedtls_ok L \<Longrightarrow> \<exists>err m. gcm_decrypt L key n c tag = (err, m) \<and> length m = length c"
  unfolding mbedtls_ok_def by (metis surj_pair)

lemma mbedtls_setkey: "mbedtls_ok L \<Longrightarrow> length key \<in> {16, 24, 32} \<Longrightarrow> cipher_setkey L key"
  unfolding mbedtls_ok_def by blast

text \<open>
  An implementation with this behaviour, for concrete runs: a cipher that copies its input and
  appends a constant tag, and a constant authentication code.
\<close>

lemma plain_mbedtls_ok [simp]: "mbedtls_ok plain_mbedtls"
  by (simp add: mbedtls_ok_def plain_mbedtls_def)

section \<open>Well-formed contexts\<close>

definition wf_cipher :: "cipher \<Rightarrow> bool" where
  "wf_cipher cip \<longleftrightarrow>
     0 \<le> c_method cip \<and> c_method cip < AEAD_CIPHER_NUM \<and>
     c_nonce_len cip = supported_aead_ciphers_nonce_size ! nat (c_method cip) \<and>
     c_key_len cip = supported_aead_ciphers_key_size ! nat (c_method cip) \<and>
     c_tag_len cip = supported_aead_ciphers_tag_size ! nat (c_method cip) \<and>
     length (c_pk cip) = KXBYTES \<and> length (c_sk cip) = KXBYTES"

lemma wf_cipher_cases:
  assumes "wf_cipher cip"
  obtains (aes128) "c_method cip = 0" "c_nonce_len cip = 12" "c_key_len cip = 16" "c_tag_len cip = 16"
  | (aes192) "c_method cip = 1" "c_nonce_len cip = 12" "c_key_len cip = 24" "c_tag_len cip = 16"
  | (aes256) "c_method cip = 2" "c_nonce_len cip = 12" "c_key_len cip = 32" "c_tag_len cip = 16"
  | (chacha) "c_method cip = 3" "c_nonce_len cip = 12" "c_key_len cip = 32" "c_tag_len cip = 16"
  | (xchacha) "c_method cip = 4" "c_nonce_len cip = 24" "c_key_len cip = 32" "c_tag_len cip = 16"
proof -
  have "c_method cip \<in> {0, 1, 2, 3, 4}" using assms by (auto simp: wf_cipher_def)
  with assms that show thesis
    by (auto simp: wf_cipher_def supported_aead_ciphers_nonce_size_def
        supported_aead_ciphers_key_size_def supported_aead_ciphers_tag_size_def)
qed

lemma wf_cipher_sizes:
  assumes "wf_cipher cip"
  shows "c_tag_len cip = 16" "c_key_len cip \<in> {16, 24, 32}" "c_key_len cip \<le> 32"
    "0 < c_key_len cip" "c_nonce_len cip \<in> {12, 24}" "c_nonce_len cip \<le> 32"
  using assms by (cases rule: wf_cipher_cases; simp)+

definition wf_kx :: "kx_ctx \<Rightarrow> bool" where
  "wf_kx kx \<longleftrightarrow> length (kx_pk kx) = KXBYTES \<and> length (kx_sk kx) = KXBYTES"

definition wf_ctx :: "cipher_ctx \<Rightarrow> bool" where
  "wf_ctx ctx \<longleftrightarrow> wf_cipher (cx_cipher ctx) \<and> wf_kx (cx_kx ctx) \<and>
     length (cx_salt ctx) = MAX_KEY_LENGTH \<and> length (cx_s_rx ctx) = MAX_KEY_LENGTH \<and>
     length (cx_s_tx ctx) = MAX_KEY_LENGTH \<and> length (cx_nonce ctx) = MAX_NONCE_LENGTH \<and>
     (case cx_chunk ctx of None \<Rightarrow> True | Some b \<Rightarrow> wf_buffer b) \<and>
     (c_method (cx_cipher ctx) < CHACHA20POLY1305IETF \<longrightarrow> cx_evp ctx \<noteq> None)"

lemma wf_ctx_cipher [simp]: "wf_ctx ctx \<Longrightarrow> wf_cipher (cx_cipher ctx)"
  by (simp add: wf_ctx_def)

section \<open>Sealing one message\<close>

definition run_or_nil :: "byte list run \<Rightarrow> byte list" where
  "run_or_nil r = (case r of Inl _ \<Rightarrow> [] | Inr c \<Rightarrow> c)"

definition seal :: "mbedtls \<Rightarrow> cipher \<Rightarrow> byte list \<Rightarrow> byte list \<Rightarrow> byte list \<Rightarrow> byte list" where
  "seal L cip k n m =
     (if c_method cip < CHACHA20POLY1305IETF
      then (case gcm_encrypt L k n m of (_, c, tag) \<Rightarrow> c @ tag)
      else if c_method cip = CHACHA20POLY1305IETF
      then run_or_nil (crypto_aead_chacha20poly1305_ietf_encrypt m [] n k)
      else run_or_nil (crypto_aead_xchacha20poly1305_ietf_encrypt m [] n k))"

definition keyed :: "cipher_ctx \<Rightarrow> byte list \<Rightarrow> byte list \<Rightarrow> bool" where
  "keyed ctx s k \<longleftrightarrow> k = take (c_key_len (cx_cipher ctx)) s \<and>
     length k = c_key_len (cx_cipher ctx) \<and>
     (c_method (cx_cipher ctx) < CHACHA20POLY1305IETF \<longrightarrow> map_option evp_key (cx_evp ctx) = Some k)"

lemma msg_max_le_chacha: "msg_max \<le> chacha_max"
  by (simp add: msg_max_def chacha_max_def)

lemma cipher_seal:
  assumes L: "mbedtls_ok L" and wf: "wf_cipher (cx_cipher ctx)" and k: "keyed ctx s k"
    and n: "length n = MAX_NONCE_LENGTH" and m: "length m \<le> msg_max"
  defines "nn \<equiv> take (c_nonce_len (cx_cipher ctx)) n"
  shows "aead_cipher_encrypt L ctx m [] n s = Inr (0, seal L (cx_cipher ctx) k nn m)" (is ?enc)
    and "length (seal L (cx_cipher ctx) k nn m) = length m + 16" (is ?len)
    and "aead_cipher_decrypt L ctx (seal L (cx_cipher ctx) k nn m) [] n s = Inr (0, m)" (is ?dec)
proof -
  have mc: "length m \<le> chacha_max" using m msg_max_le_chacha by simp
  have "?enc \<and> ?len \<and> ?dec"
  proof (cases "c_method (cx_cipher ctx) < CHACHA20POLY1305IETF")
    case True
    have meth: "c_nonce_len (cx_cipher ctx) = 12" "c_tag_len (cx_cipher ctx) = 16"
      "c_key_len (cx_cipher ctx) \<in> {16, 24, 32}"
      "c_method (cx_cipher ctx) = 0 \<or> c_method (cx_cipher ctx) = 1 \<or> c_method (cx_cipher ctx) = 2"
      using wf True by (cases rule: wf_cipher_cases; simp)+
    have "length nn = 12" using n meth by (simp add: nn_def)
    from mbedtls_gcm[OF L _ this m, of k] obtain c tag where g:
      "gcm_encrypt L k nn m = (0, c, tag)" "length c = length m" "length tag = 16"
      "gcm_decrypt L k nn c tag = (0, m)"
      using k meth by (auto simp: keyed_def)
    show ?thesis
      using True meth k g
      by (auto simp: aead_cipher_encrypt_def aead_cipher_decrypt_def seal_def keyed_def nn_def Let_def)
  next
    case False
    note cc = chacha20poly1305.enc_total[OF mc, of "[]"] chacha20poly1305.dec_enc[OF mc, of "[]"]
    note xc = xchacha20poly1305.enc_total[OF mc, of "[]"] xchacha20poly1305.dec_enc[OF mc, of "[]"]
    from wf show ?thesis
    proof (cases rule: wf_cipher_cases)
      case chacha
      then show ?thesis
        using k cc(1)[of nn k] cc(2)[of nn k]
        by (auto simp: aead_cipher_encrypt_def aead_cipher_decrypt_def seal_def keyed_def nn_def
            run_or_nil_def)
    next
      case xchacha
      then show ?thesis
        using k xc(1)[of nn k] xc(2)[of nn k]
        by (auto simp: aead_cipher_encrypt_def aead_cipher_decrypt_def seal_def keyed_def nn_def
            run_or_nil_def)
    qed (use False in simp_all)
  qed
  then show ?enc ?len ?dec by blast+
qed

lemma cipher_decrypt_total:
  assumes L: "mbedtls_ok L" and wf: "wf_ctx ctx" and c: "16 \<le> length c" "length c \<le> msg_max"
  shows "\<exists>err m. aead_cipher_decrypt L ctx c [] n s = Inr (err, m) \<and> length m = length c - 16"
proof -
  have cm: "length c \<le> chacha_max + 16" using c msg_max_le_chacha by simp
  have "wf_cipher (cx_cipher ctx)" using wf by simp
  then show ?thesis
  proof (cases rule: wf_cipher_cases)
    case chacha
    then show ?thesis
      using chacha20poly1305.dec_total[OF cm] by (simp add: aead_cipher_decrypt_def)
  next
    case xchacha
    then show ?thesis
      using xchacha20poly1305.dec_total[OF cm] by (simp add: aead_cipher_decrypt_def)
  qed (use wf c mbedtls_gcm_length[OF L, of _ _ "take (length c - 16) c"] in
      \<open>auto simp: aead_cipher_decrypt_def wf_ctx_def Let_def\<close>)
qed

section \<open>Session keys\<close>

definition subkey :: "mbedtls \<Rightarrow> cipher \<Rightarrow> byte list \<Rightarrow> byte list \<Rightarrow> byte list" where
  "subkey L cip key salt =
     (case md_sha1_hmac L of
        None \<Rightarrow> []
      | Some hmac \<Rightarrow>
          (case crypto_hkdf hmac SHA1_SIZE (Some salt) (take (c_key_len cip) key) SUBKEY_INFO
                  (c_key_len cip) of
             None \<Rightarrow> [] | Some k \<Rightarrow> k))"

lemma subkey_hkdf:
  assumes "mbedtls_ok L" and "wf_cipher cip"
  shows "\<exists>hmac. md_sha1_hmac L = Some hmac \<and>
      crypto_hkdf hmac SHA1_SIZE (Some salt) (take (c_key_len cip) key) SUBKEY_INFO (c_key_len cip)
        = Some (subkey L cip key salt) \<and>
      length (subkey L cip key salt) = c_key_len cip"
proof -
  obtain hmac mac where h: "md_sha1_hmac L = Some hmac" "\<And>k m. hmac k m = Some (mac k m)"
    "\<And>k m. length (mac k m) = SHA1_SIZE"
    using mbedtls_hmac[OF assms(1)] by metis
  let ?prk = "mac salt (take (c_key_len cip) key)" and ?kl = "c_key_len cip"
  have kl: "?kl \<le> 255 * SHA1_SIZE" "?kl \<le> (?kl + SHA1_SIZE - 1) div SHA1_SIZE * SHA1_SIZE"
    using wf_cipher_sizes(2)[OF assms(2)] by auto
  have "crypto_hkdf hmac SHA1_SIZE (Some salt) (take ?kl key) SUBKEY_INFO ?kl
      = Some (take ?kl (hkdf_blocks (mac ?prk) SUBKEY_INFO ((?kl + SHA1_SIZE - 1) div SHA1_SIZE)))"
    using crypto_hkdf_expand_eq[of hmac ?prk "mac ?prk" SHA1_SIZE ?kl SUBKEY_INFO, OF h(2,3)] kl(1)
    by (simp add: crypto_hkdf_def crypto_hkdf_extract_def h)
  with h kl(2) show ?thesis
    by (auto simp: subkey_def length_hkdf_blocks[OF h(3)])
qed

lemma length_subkey:
  "mbedtls_ok L \<Longrightarrow> wf_cipher cip \<Longrightarrow> length (subkey L cip key salt) = c_key_len cip"
  using subkey_hkdf[of L cip salt key] by blast

definition keyed_ctx :: "mbedtls \<Rightarrow> cipher_ctx \<Rightarrow> bool \<Rightarrow> byte list \<Rightarrow> cipher_ctx" where
  "keyed_ctx L ctx enc k =
     ctx\<lparr>cx_s_tx := (if enc then write_at 0 k (cx_s_tx ctx) else cx_s_tx ctx),
         cx_s_rx := (if enc then cx_s_rx ctx else write_at 0 k (cx_s_rx ctx)),
         cx_nonce := write_at 0 (replicate (c_nonce_len (cx_cipher ctx)) 0) (cx_nonce ctx),
         cx_evp := (if c_method (cx_cipher ctx) < CHACHA20POLY1305IETF
                    then map_option (\<lambda>e. e\<lparr>evp_enc := enc, evp_key := k, evp_in := []\<rparr>) (cx_evp ctx)
                    else cx_evp ctx)\<rparr>"

lemma set_key_ok:
  assumes "mbedtls_ok L" and "wf_ctx ctx"
  shows "aead_cipher_ctx_set_key L ctx enc =
    Inr (keyed_ctx L ctx enc
      (subkey L (cx_cipher ctx) (if enc then kx_tx (cx_kx ctx) else kx_rx (cx_kx ctx))
         (take (c_key_len (cx_cipher ctx)) (cx_salt ctx))))"
proof -
  let ?cip = "cx_cipher ctx" and ?key = "if enc then kx_tx (cx_kx ctx) else kx_rx (cx_kx ctx)"
  have wf: "wf_cipher ?cip" using assms(2) by simp
  from subkey_hkdf[OF assms(1) wf, of "take (c_key_len ?cip) (cx_salt ctx)" ?key]
  obtain hmac where h: "md_sha1_hmac L = Some hmac"
    "crypto_hkdf hmac SHA1_SIZE (Some (take (c_key_len ?cip) (cx_salt ctx)))
       (take (c_key_len ?cip) ?key) SUBKEY_INFO (c_key_len ?cip)
     = Some (subkey L ?cip ?key (take (c_key_len ?cip) (cx_salt ctx)))"
    "length (subkey L ?cip ?key (take (c_key_len ?cip) (cx_salt ctx))) = c_key_len ?cip"
    by blast
  have sk: "cipher_setkey L (subkey L ?cip ?key (take (c_key_len ?cip) (cx_salt ctx)))"
    by (rule mbedtls_setkey[OF assms(1)]) (simp only: h(3) wf_cipher_sizes(2)[OF wf])
  show ?thesis
  proof (cases "c_method ?cip < CHACHA20POLY1305IETF")
    case True
    then obtain evp where "cx_evp ctx = Some evp" using assms(2) by (auto simp: wf_ctx_def)
    then show ?thesis
      using h(1,2) sk True
      by (cases enc) (simp_all add: aead_cipher_ctx_set_key_def keyed_ctx_def Let_def)
  next
    case False
    then show ?thesis
      using h(1,2) by (cases enc) (simp_all add: aead_cipher_ctx_set_key_def keyed_ctx_def Let_def)
  qed
qed

lemma keyed_ctx_simps [simp]:
  "cx_cipher (keyed_ctx L ctx enc k) = cx_cipher ctx" "cx_kx (keyed_ctx L ctx enc k) = cx_kx ctx"
  "cx_init (keyed_ctx L ctx enc k) = cx_init ctx" "cx_chunk (keyed_ctx L ctx enc k) = cx_chunk ctx"
  "cx_is_local (keyed_ctx L ctx enc k) = cx_is_local ctx" "cx_salt (keyed_ctx L ctx enc k) = cx_salt ctx"
  by (simp_all add: keyed_ctx_def)

lemma wf_keyed_ctx [wf_intros]:
  assumes "wf_ctx ctx" and "length k = c_key_len (cx_cipher ctx)"
  shows "wf_ctx (keyed_ctx L ctx enc k)"
  using assms wf_cipher_sizes[of "cx_cipher ctx"]
  by (auto simp: wf_ctx_def keyed_ctx_def)

lemma keyed_keyed_ctx:
  assumes "wf_ctx ctx" and "length k = c_key_len (cx_cipher ctx)"
  shows "keyed (keyed_ctx L ctx enc k)
      (if enc then cx_s_tx (keyed_ctx L ctx enc k) else cx_s_rx (keyed_ctx L ctx enc k)) k"
  using assms wf_cipher_sizes[of "cx_cipher ctx"]
  by (auto simp: wf_ctx_def keyed_ctx_def keyed_def write_at_def)

section \<open>The wire format\<close>

type_synonym frame = "nat \<times> byte list \<times> byte list"

fun frame_ok :: "frame \<Rightarrow> bool" where
  "frame_ok (pd, pad, m) \<longleftrightarrow> 0 < length m \<and> length m \<le> CHUNK_SIZE_MASK \<and>
     pd \<le> CHUNK_PADDING_SIZE_MASK \<and> length pad = (if pd > CHUNK_PADDING_SIZE_LIMIT then 0 else pd)"

definition frame_hdr :: "nat \<Rightarrow> nat \<Rightarrow> byte list" where
  "frame_hdr pd mlen =
     [of_nat (pd div 256), of_nat (pd mod 256), of_nat (mlen div 256), of_nat (mlen mod 256)]"

definition nonce_at :: "cipher \<Rightarrow> nat \<Rightarrow> byte list" where
  "nonce_at cip j = (sodium_increment ^^ j) (replicate (c_nonce_len cip) 0)"

fun frame_bytes :: "mbedtls \<Rightarrow> cipher \<Rightarrow> byte list \<Rightarrow> nat \<Rightarrow> frame \<Rightarrow> byte list" where
  "frame_bytes L cip k i (pd, pad, m) =
     seal L cip k (nonce_at cip (2 * i)) (frame_hdr pd (length m)) @ pad
       @ seal L cip k (nonce_at cip (2 * i + 1)) m"

fun wire :: "mbedtls \<Rightarrow> cipher \<Rightarrow> byte list \<Rightarrow> nat \<Rightarrow> frame list \<Rightarrow> byte list" where
  "wire L cip k i [] = []"
| "wire L cip k i (f # fs) = frame_bytes L cip k i f @ wire L cip k (Suc i) fs"

definition frame_msg :: "frame \<Rightarrow> byte list" where
  "frame_msg f = snd (snd f)"

lemma wire_append: "wire L cip k i (fs @ gs) = wire L cip k i fs @ wire L cip k (i + length fs) gs"
  by (induction fs arbitrary: i) simp_all

lemma and_mask_take_bit:
  "w AND 0x3FFF = take_bit 14 w" "w AND 0x7FFF = take_bit 15 w" for w :: u32
  by (simp_all add: take_bit_eq_mask mask_eq_exp_minus_1)

lemma frame_hdr_encode:
  assumes "pd \<le> CHUNK_PADDING_SIZE_MASK" "mlen \<le> CHUNK_SIZE_MASK"
  shows "store32_be ((of_nat mlen AND 0x3FFF) OR push_bit 16 (of_nat pd)) = frame_hdr pd mlen"
proof -
  have low: "n < 14" if "bit mlen n" for n
  proof -
    have "take_bit 14 mlen = mlen" using assms(2) by (simp add: take_bit_nat_eq_self_iff)
    then show ?thesis using that by (metis bit_take_bit_iff)
  qed
  have bits: "bit (x div 256) n = bit x (8 + n)" "bit (x mod 256) n = (n < 8 \<and> bit x n)" for x n :: nat
    using bit_drop_bit_eq[of 8 x] bit_take_bit_iff[of 8 x n]
    by (simp_all add: drop_bit_eq_div take_bit_eq_mod fun_eq_iff)
  show ?thesis
    by (auto simp: store32_be_def frame_hdr_def and_mask_take_bit bit_eq_iff bit_or_iff
        bit_take_bit_iff bit_push_bit_iff bit_ucast_iff bit_drop_bit_eq bit_of_nat_iff bits dest: low)
qed

lemma length_frame_hdr [simp, len_simps]: "length (frame_hdr pd mlen) = 4"
  by (simp add: frame_hdr_def)

lemma frame_hdr_decode:
  assumes "pd \<le> CHUNK_PADDING_SIZE_MASK" "mlen \<le> CHUNK_SIZE_MASK"
  shows "unat (drop_bit 16 (load32_be (frame_hdr pd mlen)) AND 0x7FFF) = pd"
    and "unat (load32_be (frame_hdr pd mlen) AND 0x3FFF) = mlen"
proof -
  let ?t = "((of_nat mlen :: u32) AND 0x3FFF) OR push_bit 16 (of_nat pd)"
  have t: "load32_be (frame_hdr pd mlen) = ?t"
    using frame_hdr_encode[OF assms] by (metis load32_be_store32_be)
  have "drop_bit 16 ?t AND 0x7FFF = of_nat (take_bit 15 pd)" "?t AND 0x3FFF = of_nat (take_bit 14 mlen)"
    by (auto simp: and_mask_take_bit bit_eq_iff bit_or_iff bit_push_bit_iff bit_drop_bit_eq
        bit_of_nat_iff bit_take_bit_iff)
  moreover have "take_bit 15 pd = pd" "take_bit 14 mlen = mlen"
    using assms by (simp_all add: take_bit_nat_eq_self_iff)
  ultimately have "drop_bit 16 ?t AND 0x7FFF = of_nat pd" "?t AND 0x3FFF = of_nat mlen"
    by simp_all
  then show "unat (drop_bit 16 (load32_be (frame_hdr pd mlen)) AND 0x7FFF) = pd"
    "unat (load32_be (frame_hdr pd mlen) AND 0x3FFF) = mlen"
    unfolding t using assms by (simp_all add: unat_of_nat take_bit_eq_mod)
qed

section \<open>Positions in the stream\<close>

definition at_pos :: "cipher_ctx \<Rightarrow> byte list \<Rightarrow> byte list \<Rightarrow> nat \<Rightarrow> bool" where
  "at_pos ctx s k j \<longleftrightarrow> wf_ctx ctx \<and> keyed ctx s k \<and>
     take (c_nonce_len (cx_cipher ctx)) (cx_nonce ctx) = nonce_at (cx_cipher ctx) j"

lemma increment_nonce_simps [simp]:
  "cx_cipher (increment_nonce ctx) = cx_cipher ctx" "cx_kx (increment_nonce ctx) = cx_kx ctx"
  "cx_init (increment_nonce ctx) = cx_init ctx" "cx_chunk (increment_nonce ctx) = cx_chunk ctx"
  "cx_is_local (increment_nonce ctx) = cx_is_local ctx" "cx_salt (increment_nonce ctx) = cx_salt ctx"
  "cx_evp (increment_nonce ctx) = cx_evp ctx"
  "cx_s_rx (increment_nonce ctx) = cx_s_rx ctx" "cx_s_tx (increment_nonce ctx) = cx_s_tx ctx"
  by (simp_all add: increment_nonce_def Let_def)

lemma wf_increment_nonce [simp, wf_intros]: "wf_ctx ctx \<Longrightarrow> wf_ctx (increment_nonce ctx)"
  by (auto simp: wf_ctx_def increment_nonce_def Let_def)

lemma at_pos_increment:
  assumes "at_pos ctx s k j"
  shows "at_pos (increment_nonce ctx) s k (Suc j)"
proof -
  have "c_nonce_len (cx_cipher ctx) \<le> length (cx_nonce ctx)"
    using assms wf_cipher_sizes(6)[of "cx_cipher ctx"] by (simp add: at_pos_def wf_ctx_def)
  then have "take (c_nonce_len (cx_cipher ctx)) (cx_nonce (increment_nonce ctx))
      = nonce_at (cx_cipher ctx) (Suc j)"
    using assms by (simp add: at_pos_def increment_nonce_def Let_def nonce_at_def)
  moreover have "keyed (increment_nonce ctx) s k" using assms by (auto simp: at_pos_def keyed_def)
  ultimately show ?thesis using assms by (simp add: at_pos_def)
qed

lemma at_pos_seal:
  assumes "mbedtls_ok L" "at_pos ctx s k j" "length m \<le> msg_max"
  shows "aead_cipher_encrypt L ctx m [] (cx_nonce ctx) s
           = Inr (0, seal L (cx_cipher ctx) k (nonce_at (cx_cipher ctx) j) m)"
    and "length (seal L (cx_cipher ctx) k (nonce_at (cx_cipher ctx) j) m) = length m + 16"
    and "aead_cipher_decrypt L ctx (seal L (cx_cipher ctx) k (nonce_at (cx_cipher ctx) j) m) []
           (cx_nonce ctx) s = Inr (0, m)"
  using cipher_seal[OF assms(1), of ctx s k "cx_nonce ctx" m] assms(2,3)
  by (simp_all add: at_pos_def wf_ctx_def)

lemma at_pos_wf: "at_pos ctx s k j \<Longrightarrow> wf_ctx ctx" "at_pos ctx s k j \<Longrightarrow> c_tag_len (cx_cipher ctx) = 16"
  using wf_cipher_sizes(1)[of "cx_cipher ctx"] by (auto simp: at_pos_def)

text \<open>Sealed lengths do not depend on a context.\<close>

definition usable :: "mbedtls \<Rightarrow> cipher \<Rightarrow> byte list \<Rightarrow> bool" where
  "usable L cip k \<longleftrightarrow>
     (\<forall>j m. length m \<le> msg_max \<longrightarrow> length (seal L cip k (nonce_at cip j) m) = length m + 16)"

lemma frame_ok_small: "frame_ok (pd, pad, m) \<Longrightarrow> length m \<le> msg_max"
  by (simp add: msg_max_def)

lemma length_frame_bytes:
  assumes "usable L cip k" and "frame_ok (pd, pad, m)"
  shows "length (frame_bytes L cip k i (pd, pad, m)) = 36 + length pad + length m"
  using assms frame_ok_small[OF assms(2)] by (simp add: usable_def msg_max_def)

lemma frame_bytes_bounds:
  assumes "usable L cip k" and "frame_ok f"
  shows "36 < length (frame_bytes L cip k i f)"
    and "length (frame_msg f) + 36 \<le> length (frame_bytes L cip k i f)"
    and "length (frame_bytes L cip k i f) \<le> 36 + CHUNK_PADDING_SIZE_LIMIT + length (frame_msg f)"
proof -
  obtain pd pad m where f: "f = (pd, pad, m)" by (cases f)
  with length_frame_bytes[OF assms(1), of pd pad m i] assms(2)
  show "36 < length (frame_bytes L cip k i f)"
    "length (frame_msg f) + 36 \<le> length (frame_bytes L cip k i f)"
    "length (frame_bytes L cip k i f) \<le> 36 + CHUNK_PADDING_SIZE_LIMIT + length (frame_msg f)"
    by (auto simp: frame_msg_def simp del: frame_bytes.simps)
qed

lemma at_pos_usable:
  assumes "mbedtls_ok L" "at_pos ctx s k j"
  shows "usable L (cx_cipher ctx) k"
proof -
  have "length (nonce_at (cx_cipher ctx) j') = c_nonce_len (cx_cipher ctx)" for j'
    by (simp add: nonce_at_def)
  then show ?thesis
    unfolding usable_def
  proof (intro allI impI)
    fix j' :: nat and m :: "byte list"
    assume m: "length m \<le> msg_max"
    let ?n = "nonce_at (cx_cipher ctx) j'"
    let ?nn = "?n @ replicate (MAX_NONCE_LENGTH - length ?n) 0"
    have "length ?nn = MAX_NONCE_LENGTH" "take (c_nonce_len (cx_cipher ctx)) ?nn = ?n"
      using assms(2) wf_cipher_sizes(6)[of "cx_cipher ctx"]
      by (simp_all add: nonce_at_def at_pos_def)
    with cipher_seal(2)[OF assms(1) _ _ _ m, of ctx s k ?nn] assms(2)
    show "length (seal L (cx_cipher ctx) k ?n m) = length m + 16"
      by (simp add: at_pos_def)
  qed
qed

section \<open>The sender\<close>

definition pad_field :: "nat \<Rightarrow> nat \<Rightarrow> nat" where
  "pad_field rnd mlen =
     (if mlen < CHUNK_PADDING_SIZE_LIMIT then rnd mod CHUNK_PADDING_SIZE_LIMIT + 1
      else rnd mod (CHUNK_PADDING_SIZE_MASK - CHUNK_PADDING_SIZE_LIMIT) + CHUNK_PADDING_SIZE_LIMIT + 1)"

definition frame_of :: "nat \<Rightarrow> (nat \<Rightarrow> byte list) \<Rightarrow> byte list \<Rightarrow> frame" where
  "frame_of rnd rb m =
     (let pd = pad_field rnd (length m)
      in (pd, if length m < CHUNK_PADDING_SIZE_LIMIT then rb pd else [], m))"

lemma pad_field_bounds:
  "pad_field rnd mlen \<le> CHUNK_PADDING_SIZE_MASK"
  "pad_field rnd mlen \<le> CHUNK_PADDING_SIZE_LIMIT \<longleftrightarrow> mlen < CHUNK_PADDING_SIZE_LIMIT"
proof -
  have "rnd mod 512 < 512" "rnd mod 32255 < 32255" by simp_all
  then show "pad_field rnd mlen \<le> CHUNK_PADDING_SIZE_MASK"
    "pad_field rnd mlen \<le> CHUNK_PADDING_SIZE_LIMIT \<longleftrightarrow> mlen < CHUNK_PADDING_SIZE_LIMIT"
    by (auto simp: pad_field_def)
qed

lemma frame_of_ok:
  assumes "0 < length m" "length m \<le> CHUNK_SIZE_MASK" and "\<And>n. length (rb n) = n"
  shows "frame_ok (frame_of rnd rb m)"
  using assms pad_field_bounds[of rnd "length m"]
  by (auto simp: frame_of_def Let_def not_less not_le)

lemma frame_msg_frame_of [simp]: "frame_msg (frame_of rnd rb m) = m"
  by (simp add: frame_msg_def frame_of_def Let_def)

lemma chunk_encrypt_frame:
  fixes rnd :: nat
  assumes L: "mbedtls_ok L" and pos: "at_pos ctx (cx_s_tx ctx) k (2 * i)"
    and rb: "\<And>n. length (rb n) = n"
    and m: "0 < length m" "length m \<le> CHUNK_SIZE_MASK" "take (length m) p = m"
    and c: "wf_buffer c" "off + 36 + CHUNK_PADDING_SIZE_LIMIT + length m \<le> b_capacity c"
  defines "fb \<equiv> frame_bytes L (cx_cipher ctx) k i (frame_of rnd rb m)"
  shows "aead_chunk_encrypt L rnd rb ctx p (of_nat (length m)) off c
    = Inr (CRYPTO_OK, increment_nonce (increment_nonce ctx),
        c\<lparr>b_data := write_at off fb (b_data c)\<rparr>, length fb)"
proof -
  let ?cip = "cx_cipher ctx" and ?pd = "pad_field rnd (length m)"
  let ?pad = "if length m < CHUNK_PADDING_SIZE_LIMIT then rb ?pd else []"
  let ?h = "seal L ?cip k (nonce_at ?cip (2 * i)) (frame_hdr ?pd (length m))"
  let ?b = "seal L ?cip k (nonce_at ?cip (Suc (2 * i))) m"
  have small: "length (frame_hdr ?pd (length m)) \<le> msg_max" "length m \<le> msg_max"
    using m by (simp_all add: msg_max_def)
  note hdr = at_pos_seal[OF L pos small(1)]
  note body = at_pos_seal[OF L at_pos_increment[OF pos] small(2)]
  have plen: "unat (of_nat (length m) :: u16) = length m"
    using m by (simp add: unat_of_nat take_bit_eq_mod)
  have u: "(ucast (of_nat (length m) :: u16) :: u32) = of_nat (length m)"
    using m plen by (simp add: word_unat_eq_iff unsigned_ucast_eq unat_of_nat take_bit_eq_mod)
  have t: "store32_be ((ucast (of_nat (length m) :: u16) AND 0x3FFF) OR push_bit 16 (of_nat ?pd))
      = frame_hdr ?pd (length m)"
    using frame_hdr_encode[OF pad_field_bounds(1) m(2), of rnd] by (simp only: u)
  have lens: "length ?h = 20" "length ?b = length m + 16" using hdr(2) body(2) by simp_all
  have fb: "fb = ?h @ ?pad @ ?b" by (simp add: fb_def frame_of_def Let_def)
  have cap: "length (b_data c) = b_capacity c" using c(1) by (simp add: wf_buffer_def)
  have tl: "c_tag_len ?cip = 16" using at_pos_wf(2)[OF pos] .
  show ?thesis
  proof (cases "length m < CHUNK_PADDING_SIZE_LIMIT")
    case True
    then have pd: "?pd \<le> CHUNK_PADDING_SIZE_LIMIT" using pad_field_bounds(2) by simp
    have w: "write_at (20 + (off + ?pd)) ?b (write_at (off + 20) (rb ?pd) (write_at off ?h (b_data c)))
        = write_at off fb (b_data c)"
      using True pd cap c(2) rb[of ?pd] lens write_at_write_at[of off ?h "b_data c" "rb ?pd"]
        write_at_write_at[of off "?h @ rb ?pd" "b_data c" ?b]
      by (simp add: fb add_ac)
    show ?thesis
      using True pd m(2) c(2) lens rb[of ?pd]
      by (simp add: aead_chunk_encrypt_def[folded pad_field_def] plen t hdr(1) body(1)[simplified] tl buf_write_def w add.assoc
          m(3) fb Let_def)
  next
    case False
    then have pd: "\<not> ?pd \<le> CHUNK_PADDING_SIZE_LIMIT" using pad_field_bounds(2) by simp
    have w: "write_at (20 + off) ?b (write_at off ?h (b_data c)) = write_at off fb (b_data c)"
      using False cap c(2) lens write_at_write_at[of off ?h "b_data c" ?b] by (simp add: fb add_ac)
    show ?thesis
      using False pd m(2) c(2) lens
      by (simp add: aead_chunk_encrypt_def[folded pad_field_def] plen t hdr(1) body(1)[simplified] tl buf_write_def w add.assoc
          m(3) fb Let_def)
  qed
qed

definition handshake :: "cipher_ctx \<Rightarrow> byte list" where
  "handshake ctx = (if cx_is_local ctx then kx_pk (cx_kx ctx) else [])
     @ take (c_key_len (cx_cipher ctx)) (cx_salt ctx)"

lemma encrypt_tail:
  assumes L: "mbedtls_ok L" and pos: "at_pos ctx (cx_s_tx ctx) k (2 * i)"
    and rb: "\<And>n. length (rb n) = n"
    and pt: "wf_buffer pt" "0 < length m" "length m \<le> CHUNK_SIZE_MASK"
      "take (length m) (b_data pt) = m" "(of_nat (b_len pt) :: u16) = of_nat (length m)"
    and tmp: "wf_buffer tmp" "off + 36 + CHUNK_PADDING_SIZE_LIMIT + length m \<le> b_capacity tmp"
    and hs: "take off (b_data tmp) = hs"
  shows "\<exists>pt' tmp'.
    bindE (aead_chunk_encrypt L rnd rb ctx (b_data pt) (of_nat (b_len pt)) off tmp)
      (\<lambda>(err, ctx, tmp, out_len).
         if err \<noteq> CRYPTO_OK then Inr (err, pt, ctx, tmp)
         else let n = out_len + off; pt = brealloc pt n cap
              in bindE (buf_read 0 n tmp) (\<lambda>bs.
                 bindE (buf_write 0 bs pt) (\<lambda>pt. Inr (CRYPTO_OK, pt\<lparr>b_len := n\<rparr>, ctx, tmp))))
    = Inr (CRYPTO_OK, pt', increment_nonce (increment_nonce ctx), tmp') \<and>
    wf_buffer pt' \<and> wf_buffer tmp' \<and>
    payload pt' = hs @ frame_bytes L (cx_cipher ctx) k i (frame_of rnd rb m)"
proof -
  define fb where "fb = frame_bytes L (cx_cipher ctx) k i (frame_of rnd rb m)"
  have fl: "length fb \<le> 36 + CHUNK_PADDING_SIZE_LIMIT + length m"
  proof -
    have "frame_ok (frame_of rnd rb m)" using frame_of_ok[OF _ _ rb, of m] pt by simp
    from frame_bytes_bounds(3)[OF at_pos_usable[OF L pos] this, of i] show ?thesis by (simp add: fb_def)
  qed
  have enc: "aead_chunk_encrypt L rnd rb ctx (b_data pt) (of_nat (b_len pt)) off tmp
      = Inr (CRYPTO_OK, increment_nonce (increment_nonce ctx),
          tmp\<lparr>b_data := write_at off fb (b_data tmp)\<rparr>, length fb)"
    using chunk_encrypt_frame[OF L pos rb pt(2-4) tmp, of rnd] pt(5) by (simp add: fb_def)
  have bound: "off + length fb \<le> length (b_data tmp)" "length (b_data tmp) = b_capacity tmp"
    using fl tmp by (simp_all add: wf_buffer_def)
  have data: "take (length fb + off) (write_at off fb (b_data tmp)) = hs @ fb"
    using take_write_at_end[OF bound(1)] hs by (simp add: add.commute)
  have hl: "length hs = off" using hs bound by auto
  define n where "n = length fb + off"
  define pt1 where "pt1 = brealloc pt n cap"
  have cap: "n \<le> b_capacity pt1" "length (b_data pt1) = b_capacity pt1"
    using brealloc_capacity_ge(1) wf_brealloc[OF pt(1)] by (auto simp: wf_buffer_def pt1_def)
  have rd: "buf_read 0 n (tmp\<lparr>b_data := write_at off fb (b_data tmp)\<rparr>) = Inr (hs @ fb)"
    using bound data by (simp add: buf_read_def n_def)
  have wr: "buf_write 0 (hs @ fb) pt1 = Inr (pt1\<lparr>b_data := write_at 0 (hs @ fb) (b_data pt1)\<rparr>)"
    using cap hl by (simp add: buf_write_def n_def)
  have res: "take n (write_at 0 (hs @ fb) (b_data pt1)) = hs @ fb"
    using take_write_at_0[of "hs @ fb" "b_data pt1"] cap hl by (simp add: n_def add.commute)
  have "wf_buffer (pt1\<lparr>b_data := write_at 0 (hs @ fb) (b_data pt1), b_len := n\<rparr>)"
    "wf_buffer (tmp\<lparr>b_data := write_at off fb (b_data tmp)\<rparr>)"
    using cap hl bound tmp(1) by (simp_all add: wf_buffer_def n_def)
  moreover have "payload (pt1\<lparr>b_data := write_at 0 (hs @ fb) (b_data pt1), b_len := n\<rparr>) = hs @ fb"
    by (simp add: payload_def res)
  ultimately show ?thesis
    unfolding enc fb_def[symmetric] by (simp add: Let_def n_def[symmetric] pt1_def[symmetric] rd wr)
qed

lemma payload_message:
  assumes "wf_buffer pt" "0 < b_len pt" "b_len pt \<le> CHUNK_SIZE_MASK"
  shows "0 < length (payload pt)" "length (payload pt) \<le> CHUNK_SIZE_MASK"
    "take (length (payload pt)) (b_data pt) = payload pt"
    "(of_nat (b_len pt) :: u16) = of_nat (length (payload pt))"
  using assms by (simp_all only: length_payload) (simp_all add: payload_def)

lemma encrypt_next:
  assumes L: "mbedtls_ok L" and pos: "at_pos ctx (cx_s_tx ctx) k (2 * i)" and "cx_init ctx \<noteq> 0"
    and rb: "\<And>n. length (rb n) = n"
    and pt: "wf_buffer pt" "0 < b_len pt" "b_len pt \<le> CHUNK_SIZE_MASK" and tmp: "wf_buffer tmp"
  shows "\<exists>pt' tmp'. aead_encrypt L rnd rb pt ctx cap tmp
      = Inr (CRYPTO_OK, pt', increment_nonce (increment_nonce ctx), tmp') \<and>
    wf_buffer pt' \<and> wf_buffer tmp' \<and>
    payload pt' = frame_bytes L (cx_cipher ctx) k i (frame_of rnd rb (payload pt))"
proof -
  note m = payload_message[OF pt]
  define t where "t = (brealloc tmp (548 + b_len pt) cap)\<lparr>b_len := 548 + b_len pt\<rparr>"
  have t: "wf_buffer t" "0 + 36 + CHUNK_PADDING_SIZE_LIMIT + length (payload pt) \<le> b_capacity t"
    using wf_brealloc[OF tmp, of "548 + b_len pt" cap] brealloc_capacity_ge(1)[of "548 + b_len pt" tmp cap]
      length_payload[OF pt(1)]
    by (auto simp: t_def wf_buffer_def)
  show ?thesis
    using encrypt_tail[OF L pos rb pt(1) m t, of "[]" rnd cap] assms(3) pt(2) at_pos_wf(2)[OF pos]
    by (simp add: aead_encrypt_def t_def Let_def del: frame_bytes.simps cong: if_cong)
qed

lemma encrypt_first:
  assumes L: "mbedtls_ok L" and wf: "wf_ctx ctx" and "cx_init ctx = 0"
    and rb: "\<And>n. length (rb n) = n"
    and pt: "wf_buffer pt" "0 < b_len pt" "b_len pt \<le> CHUNK_SIZE_MASK" and tmp: "wf_buffer tmp"
  defines "k \<equiv> subkey L (cx_cipher ctx) (kx_tx (cx_kx ctx))
      (take (c_key_len (cx_cipher ctx)) (cx_salt ctx))"
  shows "\<exists>pt' tmp' ctx'. aead_encrypt L rnd rb pt ctx cap tmp = Inr (CRYPTO_OK, pt', ctx', tmp') \<and>
    wf_buffer pt' \<and> wf_buffer tmp' \<and> at_pos ctx' (cx_s_tx ctx') k 2 \<and> cx_init ctx' = 1 \<and>
    cx_cipher ctx' = cx_cipher ctx \<and>
    payload pt' = handshake ctx @ frame_bytes L (cx_cipher ctx) k 0 (frame_of rnd rb (payload pt))"
proof -
  let ?cip = "cx_cipher ctx"
  define pk where "pk = (if cx_is_local ctx then kx_pk (cx_kx ctx) else [])"
  define c1 where "c1 = (if cx_is_local ctx then ctx\<lparr>cx_kx := (cx_kx ctx)\<lparr>pk_sent := True\<rparr>\<rparr> else ctx)"
  define c2 where "c2 = (keyed_ctx L c1 True k)\<lparr>cx_init := 1\<rparr>"
  have c1: "wf_ctx c1" "cx_cipher c1 = ?cip" "kx_tx (cx_kx c1) = kx_tx (cx_kx ctx)"
    "cx_salt c1 = cx_salt ctx" "cx_is_local c1 = cx_is_local ctx"
    using wf by (auto simp: c1_def wf_ctx_def wf_kx_def)
  have key: "aead_cipher_ctx_set_key L c1 True = Inr (keyed_ctx L c1 True k)"
    using set_key_ok[OF L c1(1), of True] c1 by (simp add: k_def)
  have wfc: "wf_cipher ?cip" using wf by simp
  note sz = wf_cipher_sizes[OF wfc]
  have kl: "length k = c_key_len ?cip" using length_subkey[OF L wfc] by (simp add: k_def)
  have pos: "at_pos c2 (cx_s_tx c2) k (2 * 0)"
  proof -
    have "wf_ctx c2" using wf_keyed_ctx[OF c1(1), of k L True] kl c1 by (simp add: c2_def wf_ctx_def)
    moreover have "keyed c2 (cx_s_tx c2) k"
      using keyed_keyed_ctx[OF c1(1), of k L True] kl c1 by (simp add: c2_def keyed_def)
    moreover have "take (c_nonce_len ?cip) (cx_nonce c2) = nonce_at ?cip 0"
      by (simp add: c2_def keyed_ctx_def c1 nonce_at_def write_at_def)
    ultimately show ?thesis by (simp add: at_pos_def c2_def c1)
  qed
  have salt: "length (take (c_key_len ?cip) (cx_salt ctx)) = c_key_len ?cip"
    using wf sz(3) by (simp add: wf_ctx_def)
  have pkl: "length pk = (if cx_is_local ctx then KXBYTES else 0)"
    using wf by (simp add: pk_def wf_ctx_def wf_kx_def)
  define off where "off = length pk + c_key_len ?cip"
  define t0 where "t0 = (brealloc tmp (off + 548 + b_len pt) cap)\<lparr>b_len := off + 548 + b_len pt\<rparr>"
  define t1 where "t1 = t0\<lparr>b_data := write_at 0 pk (b_data t0)\<rparr>"
  define t2 where "t2 = t1\<lparr>b_data := write_at (length pk) (take (c_key_len ?cip) (cx_salt ctx)) (b_data t1)\<rparr>"
  have t0: "wf_buffer t0" "off + 548 + b_len pt \<le> b_capacity t0"
    using wf_brealloc[OF tmp, of "off + 548 + b_len pt" cap]
      brealloc_capacity_ge(1)[of "off + 548 + b_len pt" tmp cap]
    by (auto simp: t0_def wf_buffer_def)
  have d2: "b_data t2 = write_at 0 (handshake ctx) (b_data t0)"
    using write_at_write_at[of 0 pk "b_data t0" "take (c_key_len ?cip) (cx_salt ctx)"] t0
    by (simp add: t1_def t2_def handshake_def pk_def[symmetric] wf_buffer_def off_def)
  have hl: "length (handshake ctx) = off"
    using salt by (simp add: handshake_def off_def pk_def)
  have t2: "wf_buffer t2" "off + 36 + CHUNK_PADDING_SIZE_LIMIT + length (payload pt) \<le> b_capacity t2"
    "take off (b_data t2) = handshake ctx"
    using t0 hl take_write_at_0[of "handshake ctx" "b_data t0"] length_payload[OF pt(1)]
    by (auto simp: wf_buffer_def d2) (simp_all add: t1_def t2_def)
  have prep: "aead_encrypt L rnd rb pt ctx cap tmp =
    bindE (aead_chunk_encrypt L rnd rb c2 (b_data pt) (of_nat (b_len pt)) off t2)
      (\<lambda>(err, ctx, tmp, out_len).
         if err \<noteq> CRYPTO_OK then Inr (err, pt, ctx, tmp)
         else let n = out_len + off; pt = brealloc pt n cap
              in bindE (buf_read 0 n tmp) (\<lambda>bs.
                 bindE (buf_write 0 bs pt) (\<lambda>pt. Inr (CRYPTO_OK, pt\<lparr>b_len := n\<rparr>, ctx, tmp))))"
  proof (cases "cx_is_local ctx")
    case True
    then have t0': "t0 = (brealloc tmp (580 + (c_key_len ?cip + b_len pt)) cap)
        \<lparr>b_len := 580 + (c_key_len ?cip + b_len pt)\<rparr>" and pk: "pk = kx_pk (cx_kx ctx)" "length pk = 32"
      "off = 32 + c_key_len ?cip"
      using pkl by (simp_all add: t0_def off_def pk_def add_ac)
    have w1: "buf_write 0 pk t0 = Inr t1" "buf_write 32 (take (c_key_len ?cip) (cx_salt ctx)) t1 = Inr t2"
      using t0 pk salt by (simp_all add: buf_write_def t1_def t2_def)
    have c1': "ctx\<lparr>cx_kx := (cx_kx ctx)\<lparr>pk_sent := True\<rparr>\<rparr> = c1" using True by (simp add: c1_def)
    show ?thesis
      using True pt(2) assms(3) key sz(1) pk w1 salt
      by (simp add: aead_encrypt_def Let_def t0'[symmetric] c1' c1(4) c2_def add.assoc cong: if_cong)
  next
    case False
    then have t0': "t0 = (brealloc tmp (548 + (c_key_len ?cip + b_len pt)) cap)
        \<lparr>b_len := 548 + (c_key_len ?cip + b_len pt)\<rparr>" and pk: "pk = []" "off = c_key_len ?cip"
      by (simp_all add: t0_def off_def pk_def add_ac)
    have t1: "t1 = t0" by (simp add: t1_def pk write_at_def)
    have w1: "buf_write 0 (take (c_key_len ?cip) (cx_salt ctx)) t0 = Inr t2"
      using t0 pk salt by (simp add: buf_write_def t1 t2_def)
    have c1': "c1 = ctx" using False by (simp add: c1_def)
    show ?thesis
      using False pt(2) assms(3) key sz(1) pk w1 salt
      by (simp add: aead_encrypt_def Let_def t0'[symmetric] c1' c2_def cong: if_cong)
  qed
  from encrypt_tail[OF L pos rb pt(1) payload_message[OF pt] t2, of rnd cap] at_pos_increment[OF at_pos_increment[OF pos]]
  show ?thesis
    unfolding prep by (auto simp: c2_def c1 numeral_2_eq_2 simp del: frame_bytes.simps)
qed

section \<open>Properties\<close>

lemma le_num_nonce_at: "le_num (nonce_at cip j) = j mod 256 ^ c_nonce_len cip"
proof -
  have "le_num (replicate n 0) = 0" for n by (induction n) simp_all
  then show ?thesis by (simp add: nonce_at_def le_num_sodium_increment_pow)
qed

text \<open>
  No nonce is used twice: \<open>nonce_at cip j\<close> is the nonce of the \<open>j\<close>th sealed string of a
  session (two per frame, by repeated \<open>sodium_increment\<close>), and different positions below
  2 to the 96 have different nonces.
\<close>

theorem session_nonces_distinct:
  assumes "wf_cipher cip" and "i < 2 ^ 96" and "j < 2 ^ 96" and "i \<noteq> j"
  shows "nonce_at cip i \<noteq> nonce_at cip j"
proof -
  have "(2 :: nat) ^ 96 \<le> 256 ^ c_nonce_len cip"
    using wf_cipher_sizes(5)[OF assms(1)] by auto
  then have "i mod 256 ^ c_nonce_len cip = i" "j mod 256 ^ c_nonce_len cip = j"
    using assms(2,3) by simp_all
  with assms(4) show ?thesis using le_num_nonce_at[of cip] by metis
qed

theorem session_nonces_distinct_witness:
  "nonce_at \<lparr>c_method = 3, c_nonce_len = 12, c_key_len = 32, c_tag_len = 16,
      c_pk = replicate 32 0, c_sk = replicate 32 0\<rparr> 255
   \<noteq> nonce_at \<lparr>c_method = 3, c_nonce_len = 12, c_key_len = 32, c_tag_len = 16,
      c_pk = replicate 32 0, c_sk = replicate 32 0\<rparr> 65535"
  by (rule session_nonces_distinct)
    (simp_all add: wf_cipher_def supported_aead_ciphers_nonce_size_def
      supported_aead_ciphers_key_size_def supported_aead_ciphers_tag_size_def)

text \<open>
  \<open>aead_encrypt\<close> on an established session turns a message of 1 to 16383 bytes into one
  frame at the current position and moves the position by one: the header with the padding field
  and the length sealed under the even nonce, the padding, the message sealed under the odd nonce.
\<close>

theorem aead_encrypt_emits_frame:
  assumes "mbedtls_ok L" and "at_pos ctx (cx_s_tx ctx) k (2 * i)" and "cx_init ctx \<noteq> 0"
    and "\<And>n. length (rb n) = n"
    and "wf_buffer pt" and "0 < b_len pt" and "b_len pt \<le> CHUNK_SIZE_MASK" and "wf_buffer tmp"
  shows "\<exists>pt' ctx' tmp'. aead_encrypt L rnd rb pt ctx cap tmp = Inr (CRYPTO_OK, pt', ctx', tmp') \<and>
    wf_buffer pt' \<and> wf_buffer tmp' \<and> at_pos ctx' (cx_s_tx ctx') k (2 * Suc i) \<and>
    payload pt' = frame_bytes L (cx_cipher ctx) k i (frame_of rnd rb (payload pt))"
  using encrypt_next[OF assms, of rnd cap] at_pos_increment[OF at_pos_increment[OF assms(2)]]
  by (auto simp del: frame_bytes.simps)

definition example_ctx :: cipher_ctx where
  "example_ctx = \<lparr>cx_init = 1, cx_is_local = True, cx_counter = 0,
     cx_evp = Some (fresh_evp\<lparr>evp_key := replicate 16 1\<rparr>),
     cx_cipher = \<lparr>c_method = 0, c_nonce_len = 12, c_key_len = 16, c_tag_len = 16,
       c_pk = replicate 32 0, c_sk = replicate 32 0\<rparr>,
     cx_chunk = None, cx_kx = zero_kx, cx_salt = replicate 64 0, cx_s_rx = replicate 64 1,
     cx_s_tx = replicate 64 1, cx_nonce = replicate 32 0\<rparr>"

lemma example_ctx_at_pos: "at_pos example_ctx (cx_s_tx example_ctx) (replicate 16 1) (2 * 0)"
  by (simp add: at_pos_def example_ctx_def wf_ctx_def wf_cipher_def wf_kx_def zero_kx_def keyed_def
      supported_aead_ciphers_nonce_size_def supported_aead_ciphers_key_size_def
      supported_aead_ciphers_tag_size_def nonce_at_def)

theorem aead_encrypt_emits_frame_witness:
  "\<exists>pt' ctx' tmp'. aead_encrypt plain_mbedtls 7 (\<lambda>n. replicate n 4)
      \<lparr>b_idx = 0, b_len = 2, b_capacity = 3, b_data = [104, 105, 0]\<rparr> example_ctx 2048 null_buffer
      = Inr (CRYPTO_OK, pt', ctx', tmp') \<and>
    payload pt' = [0, 8, 0, 2] @ replicate 16 7 @ replicate 8 4 @ [104, 105] @ replicate 16 7"
proof -
  let ?pt = "\<lparr>b_idx = 0, b_len = 2, b_capacity = 3, b_data = [104, 105, 0]\<rparr>"
  have "frame_bytes plain_mbedtls (cx_cipher example_ctx) (replicate 16 1) 0
      (frame_of 7 (\<lambda>n. replicate n 4) (payload ?pt))
      = [0, 8, 0, 2] @ replicate 16 7 @ replicate 8 4 @ [104, 105] @ replicate 16 7"
    by (simp add: frame_of_def pad_field_def payload_def seal_def frame_hdr_def example_ctx_def
        plain_mbedtls_def)
  moreover have "cx_init example_ctx \<noteq> 0" "wf_buffer ?pt" by (simp_all add: example_ctx_def wf_buffer_def)
  ultimately show ?thesis
    using aead_encrypt_emits_frame[OF plain_mbedtls_ok example_ctx_at_pos,
        of "\<lambda>n. replicate n 4" ?pt null_buffer 7 2048]
    by (auto simp del: frame_bytes.simps)
qed

text \<open>
  Messages the length field cannot hold: from 16384 to 65535 bytes the assertion of
  \<open>aead_chunk_encrypt\<close> ends the process.
\<close>

theorem aead_encrypt_oversize_aborts:
  assumes "mbedtls_ok L" and "wf_ctx ctx" and "cx_init ctx \<noteq> 0" and "wf_buffer tmp"
    and "CHUNK_SIZE_MASK < b_len pt" and "b_len pt < 65536"
  shows "aead_encrypt L rnd rb pt ctx cap tmp = Inl AssertFailed"
proof -
  have "unat (of_nat (b_len pt) :: u16) = b_len pt"
    using assms(6) by (simp add: unat_of_nat take_bit_eq_mod)
  then have "aead_chunk_encrypt L rnd rb ctx p (of_nat (b_len pt)) off c = Inl AssertFailed" for p off c
    using assms(5) by (simp add: aead_chunk_encrypt_def)
  with assms(3,5) show ?thesis by (simp add: aead_encrypt_def Let_def)
qed

theorem aead_encrypt_oversize_aborts_witness:
  "aead_encrypt plain_mbedtls 7 (\<lambda>n. replicate n 4)
     \<lparr>b_idx = 0, b_len = 16384, b_capacity = 16384, b_data = replicate 16384 1\<rparr> example_ctx 2048 null_buffer
   = Inl AssertFailed"
  by (rule aead_encrypt_oversize_aborts)
    (use at_pos_wf(1)[OF example_ctx_at_pos] in \<open>simp_all add: example_ctx_def\<close>)

text \<open>
  C40. Above 65535 bytes the length is cut to 16 bits when it is passed to
  \<open>aead_chunk_encrypt\<close>, before the assertion: a message of 65536 + \<open>r\<close> bytes is reported as sent
  while only its first \<open>r\<close> bytes are in the frame.
\<close>

theorem aead_encrypt_drops_data:
  assumes "mbedtls_ok L" and "at_pos ctx (cx_s_tx ctx) k (2 * i)" and "cx_init ctx \<noteq> 0"
    and "\<And>n. length (rb n) = n" and "wf_buffer pt" and "wf_buffer tmp"
    and "b_len pt = 65536 + r" and "0 < r" and "r \<le> CHUNK_SIZE_MASK"
  shows "\<exists>pt' ctx' tmp'. aead_encrypt L rnd rb pt ctx cap tmp = Inr (CRYPTO_OK, pt', ctx', tmp') \<and>
    payload pt' = frame_bytes L (cx_cipher ctx) k i (frame_of rnd rb (take r (payload pt)))"
proof -
  let ?m = "take r (payload pt)"
  have len: "length ?m = r" using assms(5,7) by simp
  have pl: "take r (b_data pt) = ?m" using assms(7) by (simp add: payload_def min_absorb1)
  have "(of_nat (65536 + r) :: u16) = of_nat r" by simp
  then have m: "0 < length ?m" "length ?m \<le> CHUNK_SIZE_MASK" "take (length ?m) (b_data pt) = ?m"
    "(of_nat (b_len pt) :: u16) = of_nat (length ?m)"
    using assms(7-9) pl by (simp_all only: len)
  define t where "t = (brealloc tmp (548 + b_len pt) cap)\<lparr>b_len := 548 + b_len pt\<rparr>"
  have t: "wf_buffer t" "0 + 36 + CHUNK_PADDING_SIZE_LIMIT + length ?m \<le> b_capacity t"
    using wf_brealloc[OF assms(6), of "548 + b_len pt" cap]
      brealloc_capacity_ge(1)[of "548 + b_len pt" tmp cap] len assms(7)
    by (auto simp: t_def wf_buffer_def)
  show ?thesis
    using encrypt_tail[OF assms(1,2,4,5) m t, of "[]" rnd cap] assms(3,7) at_pos_wf(2)[OF assms(2)]
    by (auto simp: aead_encrypt_def t_def Let_def simp del: frame_bytes.simps cong: if_cong)
qed

theorem aead_encrypt_drops_data_witness:
  "\<exists>pt' ctx' tmp'. aead_encrypt plain_mbedtls 7 (\<lambda>n. replicate n 4)
      \<lparr>b_idx = 0, b_len = 65536 + 1, b_capacity = 65536 + 1, b_data = replicate (65536 + 1) 9\<rparr>
      example_ctx 2048 null_buffer = Inr (CRYPTO_OK, pt', ctx', tmp') \<and>
    payload pt' = frame_bytes plain_mbedtls (cx_cipher example_ctx) (replicate 16 1) 0
      (frame_of 7 (\<lambda>n. replicate n 4) [9])"
proof -
  let ?pt = "\<lparr>b_idx = 0, b_len = 65536 + 1, b_capacity = 65536 + 1, b_data = replicate (65536 + 1) 9\<rparr>"
  have "cx_init example_ctx \<noteq> 0" "wf_buffer ?pt" "take 1 (payload ?pt) = [9]"
    by (simp_all add: example_ctx_def wf_buffer_def payload_def)
  with aead_encrypt_drops_data[OF plain_mbedtls_ok example_ctx_at_pos,
      of "\<lambda>n. replicate n 4" ?pt null_buffer 1 7 2048]
  show ?thesis by (simp del: frame_bytes.simps)
qed

end
