(* ===== verification/SS_Reassembly.thy ===== *)
theory SS_Reassembly
  imports SS_Channel
begin

text \<open>
  The receiving side of the TCP channel: \<open>aead_chunk_decrypt\<close> and \<open>aead_decrypt\<close> on a
  byte stream made of frames, cut at arbitrary places.

  \<open>rx_state\<close> relates the context of a receiver to the bytes it has received: the whole frames
  have been delivered and the context holds the rest.  Every call of \<open>aead_decrypt\<close> on the
  next piece of the stream keeps it.
\<close>

section \<open>One frame\<close>

lemma buf_read_payload:
  assumes "wf_buffer c" and "off + n \<le> b_len c"
  shows "buf_read off n c = Inr (take n (drop off (payload c)))"
proof -
  have "take n (drop off (take (b_len c) (b_data c))) = take n (drop off (b_data c))"
    using assms(2) by (simp add: drop_take min_absorb1)
  then show ?thesis using assms by (simp add: buf_read_def wf_buffer_def payload_def)
qed

lemma chunk_decrypt_frame:
  assumes L: "mbedtls_ok L" and pos: "at_pos ctx (cx_s_rx ctx) k (2 * i)"
    and f: "frame_ok (pd, pad, m)"
    and c: "wf_buffer c" "payload c = frame_bytes L (cx_cipher ctx) k i (pd, pad, m) @ rest"
    and p: "wf_buffer p" "off + length m \<le> b_capacity p"
  shows "\<exists>c'. aead_chunk_decrypt L ctx off p c (b_len c)
      = Inr (CRYPTO_OK, increment_nonce (increment_nonce ctx),
          p\<lparr>b_data := write_at off m (b_data p)\<rparr>, c', length m, length rest) \<and>
    wf_buffer (c'\<lparr>b_len := length rest\<rparr>) \<and> payload (c'\<lparr>b_len := length rest\<rparr>) = rest"
proof -
  let ?cip = "cx_cipher ctx"
  let ?h = "seal L ?cip k (nonce_at ?cip (2 * i)) (frame_hdr pd (length m))"
  let ?b = "seal L ?cip k (nonce_at ?cip (Suc (2 * i))) m"
  have small: "length (frame_hdr pd (length m)) \<le> msg_max" "length m \<le> msg_max"
    using f by (simp_all add: msg_max_def)
  note hdr = at_pos_seal[OF L pos small(1)]
  note body = at_pos_seal[OF L at_pos_increment[OF pos] small(2)]
  have lens: "length ?h = 20" "length ?b = length m + 16" using hdr(2) body(2) by simp_all
  have pl: "payload c = ?h @ pad @ ?b @ rest" using c(2) by simp
  have bl: "b_len c = 36 + length pad + length m + length rest"
    using length_payload[OF c(1)] lens by (simp add: pl)
  have padlen: "(if CHUNK_PADDING_SIZE_LIMIT < pd then 0 else pd) = length pad" using f by simp
  note tl = at_pos_wf(2)[OF pos]
  have r1: "buf_read 0 20 c = Inr ?h"
    using buf_read_payload[OF c(1), of 0 20] bl lens by (simp add: pl)
  have r2: "buf_read (20 + length pad) (length m + 16) c = Inr ?b"
    using buf_read_payload[OF c(1), of "20 + length pad" "length m + 16"] bl lens by (simp add: pl)
  have r3: "buf_read (36 + (length pad + length m)) (length rest) c = Inr rest"
    using buf_read_payload[OF c(1), of "36 + length pad + length m" "length rest"] bl lens
    by (simp add: pl add.assoc)
  have dec: "frame_hdr pd (length m) \<noteq> []" "unat (drop_bit 16 (load32_be (frame_hdr pd (length m))) AND 0x7FFF) = pd"
    "unat (load32_be (frame_hdr pd (length m)) AND 0x3FFF) = length m"
    using f frame_hdr_decode[of pd "length m"] by (auto simp: frame_hdr_def)
  define c' where "c' = (if rest = [] then c else c\<lparr>b_data := write_at 0 rest (b_data c)\<rparr>)"
  have cw: "length (b_data c) = b_capacity c" "b_len c \<le> b_capacity c" using c(1) by (simp_all add: wf_buffer_def)
  have c': "wf_buffer (c'\<lparr>b_len := length rest\<rparr>)" "payload (c'\<lparr>b_len := length rest\<rparr>) = rest"
    using cw bl take_write_at_0[of rest "b_data c"] by (auto simp: c'_def wf_buffer_def payload_def)
  have "aead_chunk_decrypt L ctx off p c (b_len c)
      = Inr (CRYPTO_OK, increment_nonce (increment_nonce ctx),
          p\<lparr>b_data := write_at off m (b_data p)\<rparr>, c', length m, length rest)"
    using f p cw bl r3
    by (cases "rest = []") (simp_all add: aead_chunk_decrypt_def tl r1 hdr(3) dec padlen r2 body(3)[simplified] Let_def
        c'_def buf_write_def cong: if_cong split del: if_split)
  with c' show ?thesis by blast
qed

lemma chunk_decrypt_prefix:
  assumes L: "mbedtls_ok L" and pos: "at_pos ctx (cx_s_rx ctx) k (2 * i)" and f: "frame_ok f"
    and c: "wf_buffer c" "strict_prefix (payload c) (frame_bytes L (cx_cipher ctx) k i f)"
  shows "\<exists>n. aead_chunk_decrypt L ctx off p c (b_len c) = Inr (CRYPTO_NEED_MORE, ctx, p, c, n, b_len c)"
proof -
  let ?cip = "cx_cipher ctx"
  obtain pd pad m where fe: "f = (pd, pad, m)" by (cases f)
  let ?h = "seal L ?cip k (nonce_at ?cip (2 * i)) (frame_hdr pd (length m))"
  have small: "length (frame_hdr pd (length m)) \<le> msg_max" by (simp add: msg_max_def)
  note hdr = at_pos_seal[OF L pos small]
  have hl: "length ?h = 20" using hdr(2) by simp
  note tl = at_pos_wf(2)[OF pos]
  have len: "b_len c < 36 + length pad + length m"
    using prefix_length_less[OF c(2)] length_frame_bytes[OF at_pos_usable[OF L pos]] f c(1)
    by (simp add: fe del: frame_bytes.simps)
  show ?thesis
  proof (cases "b_len c \<le> 36")
    case True
    then show ?thesis by (simp add: aead_chunk_decrypt_def tl)
  next
    case False
    obtain zs where "frame_bytes L ?cip k i f = payload c @ zs"
      using c(2) by (auto simp: strict_prefix_def prefix_def)
    then have "take 20 (payload c @ zs) = take 20 (?h @ pad @ seal L ?cip k (nonce_at ?cip (2 * i + 1)) m)"
      by (simp add: fe)
    then have "take 20 (payload c) = ?h" using hl False c(1) by simp
    then have r1: "buf_read 0 20 c = Inr ?h"
      using buf_read_payload[OF c(1), of 0 20] False by simp
    have dec: "unat (drop_bit 16 (load32_be (frame_hdr pd (length m))) AND 0x7FFF) = pd"
      "unat (load32_be (frame_hdr pd (length m)) AND 0x3FFF) = length m"
      using f frame_hdr_decode[of pd "length m"] by (auto simp: fe)
    have padlen: "(if CHUNK_PADDING_SIZE_LIMIT < pd then 0 else pd) = length pad" "m \<noteq> []"
      using f by (simp_all add: fe)
    show ?thesis
      using False len
      by (simp add: aead_chunk_decrypt_def tl r1 hdr(3) dec padlen Let_def
          cong: if_cong split del: if_split)
  qed
qed

section \<open>The loop\<close>

fun advance :: "nat \<Rightarrow> cipher_ctx \<Rightarrow> cipher_ctx" where
  "advance 0 ctx = ctx"
| "advance (Suc n) ctx = advance n (increment_nonce (increment_nonce ctx))"

lemma advance_simps [simp]:
  "cx_cipher (advance n ctx) = cx_cipher ctx" "cx_init (advance n ctx) = cx_init ctx"
  "cx_is_local (advance n ctx) = cx_is_local ctx" "cx_s_rx (advance n ctx) = cx_s_rx ctx"
  "cx_chunk (advance n ctx) = cx_chunk ctx"
  by (induction n arbitrary: ctx) simp_all

lemma at_pos_advance:
  "at_pos ctx s k (2 * i) \<Longrightarrow> at_pos (advance n ctx) s k (2 * (i + n))"
proof (induction n arbitrary: ctx i)
  case (Suc n)
  from at_pos_increment[OF at_pos_increment[OF Suc.prems]]
  have "at_pos (increment_nonce (increment_nonce ctx)) s k (2 * Suc i)" by simp
  from Suc.IH[OF this] show ?case by simp
qed simp

lemma decrypt_loop_frames:
  assumes L: "mbedtls_ok L" and pos: "at_pos ctx (cx_s_rx ctx) k (2 * i)"
    and fs: "\<forall>f \<in> set fs. frame_ok f"
    and pre: "pre = [] \<or> (frame_ok g \<and> strict_prefix pre (frame_bytes L (cx_cipher ctx) k (i + length fs) g))"
    and c: "wf_buffer chunk" "payload chunk = wire L (cx_cipher ctx) k i fs @ pre"
    and t: "wf_buffer tmp" "plen + b_len chunk \<le> b_capacity tmp"
  shows "\<exists>chunk' tmp'. aead_decrypt_loop L ctx chunk tmp plen
      = Inr (if plen = 0 \<and> fs = [] \<and> pre \<noteq> [] then CRYPTO_NEED_MORE else CRYPTO_OK,
          advance (length fs) ctx, chunk', tmp', plen + length (concat (map frame_msg fs))) \<and>
    wf_buffer chunk' \<and> payload chunk' = pre \<and> wf_buffer tmp' \<and> b_capacity tmp' = b_capacity tmp \<and>
    plen + length (concat (map frame_msg fs)) \<le> b_capacity tmp \<and>
    take (plen + length (concat (map frame_msg fs))) (b_data tmp')
      = take plen (b_data tmp) @ concat (map frame_msg fs)"
  using assms(2-)
proof (induction fs arbitrary: ctx i chunk tmp plen)
  case Nil
  show ?case
  proof (cases "pre = []")
    case True
    then have "b_len chunk = 0" using Nil length_payload[of chunk] by simp
    then show ?thesis using True Nil by (simp add: aead_decrypt_loop.simps[of L ctx chunk] payload_def)
  next
    case False
    then have "b_len chunk > 0" using Nil.prems(4,5) length_payload[of chunk] by (cases "b_len chunk") auto
    moreover obtain n where "aead_chunk_decrypt L ctx plen tmp chunk (b_len chunk)
        = Inr (CRYPTO_NEED_MORE, ctx, tmp, chunk, n, b_len chunk)"
      using chunk_decrypt_prefix[OF L Nil.prems(1), of g chunk] False Nil.prems by auto
    ultimately show ?thesis
      using False Nil by (simp add: aead_decrypt_loop.simps[of L ctx chunk])
  qed
next
  case (Cons f fs)
  obtain pd pad m where f: "f = (pd, pad, m)" by (cases f)
  let ?rest = "wire L (cx_cipher ctx) k (Suc i) fs @ pre"
  have fb: "payload chunk = frame_bytes L (cx_cipher ctx) k i (pd, pad, m) @ ?rest"
    using Cons.prems(5) by (simp add: f)
  have fok: "frame_ok (pd, pad, m)" using Cons.prems(2) f by simp
  have bl: "b_len chunk = 36 + length pad + length m + length ?rest"
    using length_payload[OF Cons.prems(4)] length_frame_bytes[OF at_pos_usable[OF L Cons.prems(1)] fok, of i]
    unfolding fb by simp
  let ?ctx = "increment_nonce (increment_nonce ctx)"
  let ?tmp = "tmp\<lparr>b_data := write_at plen m (b_data tmp)\<rparr>"
  from chunk_decrypt_frame[OF L Cons.prems(1) fok Cons.prems(4) fb Cons.prems(6), of plen]
    Cons.prems(7) bl
  obtain c' where step: "aead_chunk_decrypt L ctx plen tmp chunk (b_len chunk)
      = Inr (CRYPTO_OK, ?ctx, ?tmp, c', length m, length ?rest)"
    and c': "wf_buffer (c'\<lparr>b_len := length ?rest\<rparr>)" "payload (c'\<lparr>b_len := length ?rest\<rparr>) = ?rest"
    by auto
  have pos': "at_pos ?ctx (cx_s_rx ?ctx) k (2 * Suc i)"
    using at_pos_increment[OF at_pos_increment[OF Cons.prems(1)]] by simp
  have t': "wf_buffer ?tmp" "plen + length m + b_len (c'\<lparr>b_len := length ?rest\<rparr>) \<le> b_capacity ?tmp"
    using Cons.prems(6,7) bl by (simp_all add: wf_buffer_def)
  have msg: "frame_msg f = m" "m \<noteq> []" using f fok by (simp_all add: frame_msg_def)
  have tk: "take (plen + length m) (write_at plen m (b_data tmp)) = take plen (b_data tmp) @ m"
    using Cons.prems(6,7) bl by (intro take_write_at_end) (simp add: wf_buffer_def)
  from Cons.IH[OF pos' _ _ c'(1) _ t'] Cons.prems(2,3) c'(2)
  show ?case
    using step bl msg tk
    by (simp add: aead_decrypt_loop.simps[of L ctx chunk] add.assoc)
qed

section \<open>A whole call\<close>

definition finish_decrypt ::
    "mbedtls \<Rightarrow> buffer \<Rightarrow> nat \<Rightarrow> cipher_ctx \<Rightarrow> buffer \<Rightarrow> buffer
      \<Rightarrow> (crypto_ret \<times> buffer \<times> cipher_ctx \<times> buffer) run" where
  "finish_decrypt L ciphertext capacity ctx chunk tmp =
     bindE (aead_decrypt_loop L ctx chunk tmp 0) (\<lambda>(err, ctx, chunk, tmp, plen).
       let ctx = ctx\<lparr>cx_chunk := Some chunk\<rparr>
       in if err \<noteq> CRYPTO_OK then Inr (err, ciphertext, ctx, tmp)
          else
          let tmp = tmp\<lparr>b_len := plen\<rparr>; ciphertext = brealloc ciphertext plen capacity
          in bindE (buf_read 0 plen tmp) (\<lambda>bs.
             bindE (buf_write 0 bs ciphertext) (\<lambda>ciphertext.
               Inr (CRYPTO_OK, ciphertext\<lparr>b_len := plen\<rparr>, ctx, tmp))))"

definition rx_kx :: "kx_prims \<Rightarrow> cipher_ctx \<Rightarrow> byte list \<Rightarrow> kx_ctx" where
  "rx_kx P ctx rpk =
     (if cx_is_local ctx then cx_kx ctx
      else fst (crypto_kx_ctx_init P []
             ((cx_kx ctx)\<lparr>kx_pk := c_pk (cx_cipher ctx), kx_sk := c_sk (cx_cipher ctx)\<rparr>) False rpk))"

definition hs_len :: "cipher_ctx \<Rightarrow> nat" where
  "hs_len ctx = (if cx_is_local ctx then 0 else KXBYTES) + c_key_len (cx_cipher ctx)"

definition rx_open :: "mbedtls \<Rightarrow> kx_prims \<Rightarrow> cipher_ctx \<Rightarrow> byte list \<Rightarrow> cipher_ctx" where
  "rx_open L P ctx hs =
     (let salt = drop (hs_len ctx - c_key_len (cx_cipher ctx)) hs;
          ctx = ctx\<lparr>cx_kx := rx_kx P ctx (take KXBYTES hs)\<rparr>;
          ctx = ctx\<lparr>cx_salt := write_at 0 salt (cx_salt ctx)\<rparr>
      in (keyed_ctx L ctx False (subkey L (cx_cipher ctx) (kx_rx (cx_kx ctx)) salt))\<lparr>cx_init := 1\<rparr>)"

definition after_append ::
    "mbedtls \<Rightarrow> kx_prims \<Rightarrow> buffer \<Rightarrow> cipher_ctx \<Rightarrow> nat \<Rightarrow> buffer \<Rightarrow> buffer
      \<Rightarrow> (crypto_ret \<times> buffer \<times> cipher_ctx \<times> buffer) run" where
  "after_append L P ciphertext ctx capacity chunk tmp =
     (let rpk_len = (if cx_init ctx = 0 \<and> \<not> cx_is_local ctx then KXBYTES else 0);
          salt_len = c_key_len (cx_cipher ctx); cip = cx_cipher ctx
      in if cx_init ctx = 0 \<and> b_len chunk \<le> rpk_len + salt_len
         then Inr (CRYPTO_NEED_MORE, ciphertext, ctx\<lparr>cx_chunk := Some chunk\<rparr>, tmp)
         else
         bindE (if cx_init ctx = 0
                then
                  bindE (if cx_is_local ctx then Inr ctx
                         else bindE (buf_read 0 KXBYTES chunk) (\<lambda>rpk.
                                let kx = (cx_kx ctx)\<lparr>kx_pk := c_pk cip, kx_sk := c_sk cip\<rparr>
                                in Inr (ctx\<lparr>cx_kx :=
                                     fst (crypto_kx_ctx_init P [] kx (cx_is_local ctx) rpk)\<rparr>)))
                    (\<lambda>ctx.
                  bindE (buf_read rpk_len salt_len chunk) (\<lambda>salt.
                  bindE (aead_cipher_ctx_set_key L
                           (ctx\<lparr>cx_salt := write_at 0 salt (cx_salt ctx)\<rparr>) False) (\<lambda>ctx.
                  bindE (buf_read (rpk_len + salt_len) (b_len chunk - rpk_len - salt_len) chunk)
                    (\<lambda>rest.
                  bindE (buf_write 0 rest chunk) (\<lambda>chunk.
                    Inr (ctx\<lparr>cx_init := 1\<rparr>,
                         chunk\<lparr>b_len := b_len chunk - (rpk_len + salt_len)\<rparr>))))))
                else Inr (if cx_init ctx = 1 then ctx\<lparr>cx_init := 2\<rparr> else ctx, chunk))
           (\<lambda>(ctx, chunk). finish_decrypt L ciphertext capacity ctx chunk tmp))"

text \<open>The three ways through \<open>aead_decrypt\<close>, by what the context holds.\<close>

lemma append_chunk:
  assumes "wf_ctx ctx" "wf_buffer ct" "wf_buffer tmp"
  shows "\<exists>chunk tmp'. aead_decrypt L P ct ctx cap tmp = after_append L P ct ctx cap chunk tmp' \<and>
    wf_buffer chunk \<and> payload chunk = chunk_of ctx @ payload ct \<and> wf_buffer tmp' \<and>
    b_len chunk \<le> b_capacity tmp'"
proof -
  define c0 where "c0 = (case cx_chunk ctx of None \<Rightarrow> balloc cap | Some b \<Rightarrow> b)"
  define c1 where "c1 = brealloc c0 (b_len c0 + b_len ct) cap"
  define c2 where "c2 = c1\<lparr>b_data := write_at (b_len c1) (payload ct) (b_data c1)\<rparr>"
  define c3 where "c3 = c2\<lparr>b_len := b_len c2 + b_len ct\<rparr>"
  have c0: "wf_buffer c0" "payload c0 = chunk_of ctx"
    using assms(1) by (auto simp: c0_def wf_ctx_def chunk_of_def split: option.splits)
  have c1: "wf_buffer c1" "payload c1 = chunk_of ctx" "b_len c1 = b_len c0" "b_len c0 + b_len ct \<le> b_capacity c1"
    using c0 brealloc_capacity_ge by (auto simp: c1_def)
  have pl: "length (payload ct) = b_len ct" using assms(2) by simp
  have rd: "buf_read 0 (b_len ct) ct = Inr (payload ct)"
    using buf_read_payload[OF assms(2), of 0 "b_len ct"] pl by simp
  have wr: "buf_write (b_len c1) (payload ct) c1 = Inr c2"
    using c1 pl by (simp add: buf_write_def c2_def)
  have c3: "wf_buffer c3" "payload c3 = chunk_of ctx @ payload ct"
  proof -
    have "b_len c1 + length (payload ct) \<le> length (b_data c1)"
      using c1 pl by (simp add: wf_buffer_def)
    from take_write_at_end[OF this] c1 pl
    show "wf_buffer c3" "payload c3 = chunk_of ctx @ payload ct"
      by (simp_all add: wf_buffer_def payload_def c3_def c2_def)
  qed
  have t: "wf_buffer (brealloc tmp (b_len c3) cap)" "b_len c3 \<le> b_capacity (brealloc tmp (b_len c3) cap)"
    using assms(3) brealloc_capacity_ge by auto
  have "aead_decrypt L P ct ctx cap tmp = after_append L P ct ctx cap c3 (brealloc tmp (b_len c3) cap)"
    unfolding aead_decrypt_def after_append_def finish_decrypt_def Let_def
    by (simp only: c0_def[symmetric] c1_def[symmetric] rd wr bindE_simps c3_def[symmetric])
  with c3 t show ?thesis by blast
qed

lemma decrypt_wait:
  assumes "wf_ctx ctx" "wf_buffer ct" "wf_buffer tmp" "cx_init ctx = 0"
    and "length (chunk_of ctx @ payload ct) \<le> hs_len ctx"
  shows "\<exists>chunk tmp'. aead_decrypt L P ct ctx cap tmp
      = Inr (CRYPTO_NEED_MORE, ct, ctx\<lparr>cx_chunk := Some chunk\<rparr>, tmp') \<and>
    wf_buffer chunk \<and> payload chunk = chunk_of ctx @ payload ct \<and> wf_buffer tmp'"
proof -
  from append_chunk[OF assms(1-3), of L P cap] obtain c1 t1 where
    eq: "aead_decrypt L P ct ctx cap tmp = after_append L P ct ctx cap c1 t1"
    and c1: "wf_buffer c1" "payload c1 = chunk_of ctx @ payload ct" and t1: "wf_buffer t1"
    by blast
  have "b_len c1 \<le> hs_len ctx" using length_payload[OF c1(1)] c1(2) assms(5) by simp
  then have "after_append L P ct ctx cap c1 t1
      = Inr (CRYPTO_NEED_MORE, ct, ctx\<lparr>cx_chunk := Some c1\<rparr>, t1)"
    using assms(4) by (auto simp: after_append_def hs_len_def Let_def)
  with c1 t1 eq show ?thesis by auto
qed

lemma decrypt_more:
  assumes "wf_ctx ctx" "wf_buffer ct" "wf_buffer tmp" "cx_init ctx \<noteq> 0"
  shows "\<exists>chunk tmp'. aead_decrypt L P ct ctx cap tmp
      = finish_decrypt L ct cap (if cx_init ctx = 1 then ctx\<lparr>cx_init := 2\<rparr> else ctx) chunk tmp' \<and>
    wf_buffer chunk \<and> payload chunk = chunk_of ctx @ payload ct \<and> wf_buffer tmp' \<and>
    b_len chunk \<le> b_capacity tmp'"
  using append_chunk[OF assms(1-3), of L P cap] assms(4) by (auto simp: after_append_def Let_def)

lemma wf_crypto_kx_ctx_init [wf_intros]:
  "wf_kx kx \<Longrightarrow> wf_kx (fst (crypto_kx_ctx_init P rnd kx False rpk))"
  by (auto simp: crypto_kx_ctx_init_def set_session_keys_def wf_kx_def Let_def split: option.splits)

lemma wf_rx_kx [wf_intros]: "wf_ctx ctx \<Longrightarrow> wf_kx (rx_kx P ctx rpk)"
  unfolding rx_kx_def
  by (cases "cx_is_local ctx")
    (auto simp: wf_ctx_def wf_cipher_def wf_kx_def[of "kx_pk_update _ _"] wf_kx_def[of "kx_sk_update _ _"]
      intro!: wf_crypto_kx_ctx_init)

lemma decrypt_open:
  assumes L: "mbedtls_ok L" and "wf_ctx ctx" "wf_buffer ct" "wf_buffer tmp" "cx_init ctx = 0"
    and hs: "chunk_of ctx @ payload ct = hs @ rest" "length hs = hs_len ctx" "rest \<noteq> []"
  shows "\<exists>chunk tmp'. aead_decrypt L P ct ctx cap tmp
      = finish_decrypt L ct cap (rx_open L P ctx hs) chunk tmp' \<and>
    wf_buffer chunk \<and> payload chunk = rest \<and> wf_buffer tmp' \<and> b_len chunk \<le> b_capacity tmp'"
proof -
  let ?kl = "c_key_len (cx_cipher ctx)" and ?rl = "if cx_is_local ctx then 0 else KXBYTES"
  from append_chunk[OF assms(2-4), of L P cap] obtain c1 t1 where
    eq: "aead_decrypt L P ct ctx cap tmp = after_append L P ct ctx cap c1 t1"
    and c1: "wf_buffer c1" "payload c1 = chunk_of ctx @ payload ct"
    and t1: "wf_buffer t1" "b_len c1 \<le> b_capacity t1"
    by blast
  have pl: "payload c1 = hs @ rest" using c1 hs by simp
  have hl: "length hs = ?rl + ?kl" using hs by (simp add: hs_len_def)
  have bl1: "b_len c1 = ?rl + ?kl + length rest"
    using length_payload[OF c1(1)] pl hl by simp
  moreover have "0 < length rest" using hs(3) by simp
  ultimately have bl: "b_len c1 = ?rl + ?kl + length rest" "\<not> b_len c1 \<le> ?rl + ?kl" by linarith+
  define salt where "salt = drop ?rl hs"
  define ctx1 where "ctx1 = ctx\<lparr>cx_kx := rx_kx P ctx (take KXBYTES hs)\<rparr>"
  define ctx2 where "ctx2 = ctx1\<lparr>cx_salt := write_at 0 salt (cx_salt ctx1)\<rparr>"
  have sl: "length salt = ?kl" using hl by (simp add: salt_def)
  have wf2: "wf_ctx ctx2"
    using assms(2) sl wf_rx_kx[OF assms(2)] wf_cipher_sizes(3)[of "cx_cipher ctx"]
    by (simp add: ctx2_def ctx1_def wf_ctx_def)
  have key: "aead_cipher_ctx_set_key L ctx2 False
      = Inr (keyed_ctx L ctx2 False (subkey L (cx_cipher ctx) (kx_rx (cx_kx ctx1)) salt))"
    using set_key_ok[OF L wf2, of False] sl assms(2)
    by (simp add: ctx2_def ctx1_def write_at_def)
  have open1: "rx_open L P ctx hs
      = (keyed_ctx L ctx2 False (subkey L (cx_cipher ctx) (kx_rx (cx_kx ctx1)) salt))\<lparr>cx_init := 1\<rparr>"
    by (simp add: rx_open_def hs_len_def ctx2_def ctx1_def salt_def Let_def)
  define c2 where "c2 = c1\<lparr>b_data := write_at 0 rest (b_data c1)\<rparr>"
  have rd: "buf_read ?rl ?kl c1 = Inr salt" "buf_read (?rl + ?kl) (b_len c1 - ?rl - ?kl) c1 = Inr rest"
    "\<not> cx_is_local ctx \<Longrightarrow> buf_read 0 KXBYTES c1 = Inr (take KXBYTES hs)"
    using buf_read_payload[OF c1(1)] bl hl pl by (simp_all add: salt_def)
  have cw: "length (b_data c1) = b_capacity c1" "b_len c1 \<le> b_capacity c1" using c1 by (simp_all add: wf_buffer_def)
  have wr: "buf_write 0 rest c1 = Inr c2" using bl cw by (simp add: buf_write_def c2_def)
  have c2: "wf_buffer (c2\<lparr>b_len := b_len c1 - (?rl + ?kl)\<rparr>)" "payload (c2\<lparr>b_len := b_len c1 - (?rl + ?kl)\<rparr>) = rest"
    using bl(1) cw take_write_at_0[of rest "b_data c1"] by (simp_all add: c2_def wf_buffer_def payload_def)
  have "aead_decrypt L P ct ctx cap tmp
      = finish_decrypt L ct cap (rx_open L P ctx hs) (c2\<lparr>b_len := b_len c1 - (?rl + ?kl)\<rparr>) t1"
  proof (cases "cx_is_local ctx")
    case True
    then have "ctx1 = ctx" "ctx\<lparr>cx_salt := write_at 0 salt (cx_salt ctx)\<rparr> = ctx2" "b_len c2 = b_len c1"
      by (simp_all add: ctx2_def ctx1_def rx_kx_def c2_def)
    then show ?thesis
      using True assms(5) bl rd key wr
      by (simp add: eq after_append_def Let_def open1 ctx2_def[symmetric])
  next
    case False
    then have "ctx\<lparr>cx_kx := fst (crypto_kx_ctx_init P [] ((cx_kx ctx)\<lparr>kx_pk := c_pk (cx_cipher ctx),
        kx_sk := c_sk (cx_cipher ctx)\<rparr>) False (take KXBYTES hs))\<rparr> = ctx1" "b_len c2 = b_len c1"
      by (simp_all add: ctx1_def rx_kx_def c2_def)
    then show ?thesis
      using False assms(5) bl rd key wr
      by (simp add: eq after_append_def Let_def open1 ctx2_def[symmetric])
  qed
  then show ?thesis using c2 t1 bl by (intro exI[of _ "c2\<lparr>b_len := b_len c1 - (?rl + ?kl)\<rparr>"] exI[of _ t1]) simp
qed

lemma finish_decrypt_frames:
  assumes L: "mbedtls_ok L" and pos: "at_pos ctx (cx_s_rx ctx) k (2 * i)"
    and fs: "\<forall>f \<in> set fs. frame_ok f"
    and pre: "pre = [] \<or> (frame_ok g \<and> strict_prefix pre (frame_bytes L (cx_cipher ctx) k (i + length fs) g))"
    and c: "wf_buffer chunk" "payload chunk = wire L (cx_cipher ctx) k i fs @ pre"
    and t: "wf_buffer tmp" "b_len chunk \<le> b_capacity tmp" and ct: "wf_buffer ct"
  shows "\<exists>ret ct' ctx' tmp'. finish_decrypt L ct cap ctx chunk tmp = Inr (ret, ct', ctx', tmp') \<and>
    ret \<noteq> CRYPTO_ERROR \<and> wf_buffer tmp' \<and> at_pos ctx' (cx_s_rx ctx') k (2 * (i + length fs)) \<and>
    cx_cipher ctx' = cx_cipher ctx \<and> cx_init ctx' = cx_init ctx \<and> chunk_of ctx' = pre \<and>
    (if ret = CRYPTO_OK then payload ct' else []) = concat (map frame_msg fs)"
proof -
  let ?out = "concat (map frame_msg fs)"
  let ?ret = "if fs = [] \<and> pre \<noteq> [] then CRYPTO_NEED_MORE else CRYPTO_OK"
  from decrypt_loop_frames[OF L pos fs pre c t(1), of 0] t(2)
  obtain c' t' where lp: "aead_decrypt_loop L ctx chunk tmp 0 = Inr (?ret, advance (length fs) ctx, c', t', length ?out)"
    and c': "wf_buffer c'" "payload c' = pre"
    and t': "wf_buffer t'" "b_capacity t' = b_capacity tmp" "length ?out \<le> b_capacity tmp"
      "take (length ?out) (b_data t') = ?out"
    by auto
  define ctx' where "ctx' = (advance (length fs) ctx)\<lparr>cx_chunk := Some c'\<rparr>"
  have pos': "at_pos ctx' (cx_s_rx ctx') k (2 * (i + length fs))"
    using at_pos_advance[OF pos, of "length fs"] c' by (auto simp: ctx'_def at_pos_def wf_ctx_def keyed_def)
  have ctx': "cx_cipher ctx' = cx_cipher ctx" "cx_init ctx' = cx_init ctx" "chunk_of ctx' = pre"
    using c' by (simp_all add: ctx'_def chunk_of_def)
  show ?thesis
  proof (cases "fs = [] \<and> pre \<noteq> []")
    case True
    then show ?thesis using lp pos' ctx' t' by (simp add: finish_decrypt_def ctx'_def)
  next
    case False
    let ?n = "length ?out"
    define ct1 where "ct1 = brealloc ct ?n cap"
    have ct1: "?n \<le> b_capacity ct1" "length (b_data ct1) = b_capacity ct1"
      using brealloc_capacity_ge(1) wf_brealloc[OF ct] by (auto simp: ct1_def wf_buffer_def)
    have "finish_decrypt L ct cap ctx chunk tmp
        = Inr (CRYPTO_OK, ct1\<lparr>b_data := write_at 0 ?out (b_data ct1), b_len := ?n\<rparr>, ctx', t'\<lparr>b_len := ?n\<rparr>)"
      using lp False t' ct1
      by (simp only: finish_decrypt_def ctx'_def Let_def bindE_simps prod.case if_False simp_thms
          ct1_def[symmetric]) (simp add: buf_read_def buf_write_def del: length_concat)
    moreover have "payload (ct1\<lparr>b_data := write_at 0 ?out (b_data ct1), b_len := ?n\<rparr>) = ?out"
      using take_write_at_0[of ?out "b_data ct1"] ct1 by (simp add: payload_def del: length_concat)
    moreover have "wf_buffer (t'\<lparr>b_len := ?n\<rparr>)" using t' by (simp add: wf_buffer_def)
    ultimately show ?thesis using pos' ctx' by simp
  qed
qed

text \<open>Where a prefix of the stream ends.\<close>

lemma wire_prefix_split:
  assumes "prefix r (wire L cip k i fs)"
  shows "\<exists>n pre. n \<le> length fs \<and> r = wire L cip k i (take n fs) @ pre \<and>
    (pre = [] \<or> n < length fs \<and> strict_prefix pre (frame_bytes L cip k (i + n) (fs ! n)))"
  using assms
proof (induction fs arbitrary: i r)
  case Nil
  then show ?case by auto
next
  case (Cons f fs)
  show ?case
  proof (cases "prefix (frame_bytes L cip k i f) r")
    case True
    then obtain r' where r: "r = frame_bytes L cip k i f @ r'" by (auto simp: prefix_def)
    with Cons.prems have "prefix r' (wire L cip k (Suc i) fs)" by simp
    from Cons.IH[OF this] obtain n pre where
      "n \<le> length fs \<and> r' = wire L cip k (Suc i) (take n fs) @ pre \<and>
        (pre = [] \<or> n < length fs \<and> strict_prefix pre (frame_bytes L cip k (Suc i + n) (fs ! n)))"
      by blast
    then show ?thesis by (intro exI[of _ "Suc n"] exI[of _ pre]) (auto simp: r)
  next
    case False
    with Cons.prems have "strict_prefix r (frame_bytes L cip k i f)"
      by (metis prefix_order.less_le_not_le prefix_same_cases prefixI wire.simps(2))
    then show ?thesis by (intro exI[of _ 0] exI[of _ r]) simp
  qed
qed

section \<open>Any segmentation\<close>

text \<open>
  \<open>rx_state\<close>: the receiver started as \<open>d0\<close> and has received the bytes \<open>r\<close>, the start
  of the handshake \<open>hs\<close> followed by the frames \<open>fs\<close>.  \<open>out\<close> has been delivered.
\<close>

definition rx_state ::
    "mbedtls \<Rightarrow> byte list \<Rightarrow> cipher_ctx \<Rightarrow> byte list \<Rightarrow> frame list \<Rightarrow> cipher_ctx \<Rightarrow> byte list \<Rightarrow> byte list \<Rightarrow> bool"
  where
  "rx_state L k d0 hs fs d r out \<longleftrightarrow>
     (\<exists>ch. d = d0\<lparr>cx_chunk := ch\<rparr> \<and> wf_ctx d \<and> length r \<le> length hs \<and> chunk_of d = r \<and> out = []) \<or>
     (cx_init d \<noteq> 0 \<and> cx_cipher d = cx_cipher d0 \<and>
      (\<exists>n pre. n \<le> length fs \<and> r = hs @ wire L (cx_cipher d0) k 0 (take n fs) @ pre \<and>
        (pre = [] \<or> n < length fs \<and> strict_prefix pre (frame_bytes L (cx_cipher d0) k n (fs ! n))) \<and>
        at_pos d (cx_s_rx d) k (2 * n) \<and> chunk_of d = pre \<and> out = concat (map frame_msg (take n fs))))"

lemma rx_open_at_pos:
  assumes L: "mbedtls_ok L" and wf: "wf_ctx ctx" and hs: "length hs = hs_len ctx"
  shows "at_pos (rx_open L P ctx hs) (cx_s_rx (rx_open L P ctx hs))
      (subkey L (cx_cipher ctx) (kx_rx (rx_kx P ctx (take KXBYTES hs)))
         (drop (hs_len ctx - c_key_len (cx_cipher ctx)) hs)) 0"
    and "cx_cipher (rx_open L P ctx hs) = cx_cipher ctx" "cx_init (rx_open L P ctx hs) = 1"
proof -
  let ?cip = "cx_cipher ctx"
  let ?salt = "drop (hs_len ctx - c_key_len ?cip) hs"
  define c2 where "c2 = ctx\<lparr>cx_kx := rx_kx P ctx (take KXBYTES hs), cx_salt := write_at 0 ?salt (cx_salt ctx)\<rparr>"
  define k where "k = subkey L ?cip (kx_rx (rx_kx P ctx (take KXBYTES hs))) ?salt"
  have o: "rx_open L P ctx hs = (keyed_ctx L c2 False k)\<lparr>cx_init := 1\<rparr>"
    by (simp add: rx_open_def c2_def k_def Let_def)
  have wfc: "wf_cipher ?cip" using wf by simp
  have kl: "length k = c_key_len ?cip" by (simp add: k_def length_subkey[OF L wfc])
  have wf2: "wf_ctx c2"
    using wf hs wf_rx_kx[OF wf] wf_cipher_sizes(3)[OF wfc] by (auto simp: c2_def wf_ctx_def hs_len_def)
  have c2: "cx_cipher c2 = ?cip" by (simp add: c2_def)
  have "wf_ctx ((keyed_ctx L c2 False k)\<lparr>cx_init := 1\<rparr>)"
    using wf_keyed_ctx[OF wf2, of k L False] kl c2 by (simp add: wf_ctx_def)
  moreover have "keyed ((keyed_ctx L c2 False k)\<lparr>cx_init := 1\<rparr>) (cx_s_rx (keyed_ctx L c2 False k)) k"
    using keyed_keyed_ctx[OF wf2, of k L False] kl c2 by (simp add: keyed_def)
  moreover have "take (c_nonce_len ?cip) (cx_nonce (keyed_ctx L c2 False k)) = nonce_at ?cip 0"
    by (simp add: keyed_ctx_def c2 nonce_at_def write_at_def)
  ultimately show "at_pos (rx_open L P ctx hs) (cx_s_rx (rx_open L P ctx hs))
      (subkey L ?cip (kx_rx (rx_kx P ctx (take KXBYTES hs))) ?salt) 0"
    unfolding k_def[symmetric] by (simp add: o at_pos_def c2)
  show "cx_cipher (rx_open L P ctx hs) = ?cip" "cx_init (rx_open L P ctx hs) = 1"
    by (simp_all add: o c2)
qed

lemma rx_step_open:
  assumes L: "mbedtls_ok L" and fs: "\<forall>f \<in> set fs. frame_ok f"
    and pos: "at_pos d (cx_s_rx d) k (2 * n)" "cx_cipher d = cx_cipher d0" "cx_init d \<noteq> 0"
    and n: "n \<le> length fs"
    and st: "prefix (hs @ wire L (cx_cipher d0) k 0 (take n fs) @ rest) (hs @ wire L (cx_cipher d0) k 0 fs)"
    and c: "wf_buffer chunk" "payload chunk = rest"
    and t: "wf_buffer tmp" "b_len chunk \<le> b_capacity tmp" and ct: "wf_buffer ct"
  shows "\<exists>ret ct' d' tmp'. finish_decrypt L ct cap d chunk tmp = Inr (ret, ct', d', tmp') \<and>
    ret \<noteq> CRYPTO_ERROR \<and> wf_buffer tmp' \<and>
    rx_state L k d0 hs fs d' (hs @ wire L (cx_cipher d0) k 0 (take n fs) @ rest)
      (concat (map frame_msg (take n fs)) @ (if ret = CRYPTO_OK then payload ct' else []))"
proof -
  let ?cip = "cx_cipher d0"
  have "wire L ?cip k 0 fs = wire L ?cip k 0 (take n fs) @ wire L ?cip k n (drop n fs)"
    using wire_append[of L ?cip k 0 "take n fs" "drop n fs"] n by (simp add: min_absorb2)
  then have "prefix rest (wire L ?cip k n (drop n fs))" using st by simp
  from wire_prefix_split[OF this] obtain j pre where j: "j \<le> length (drop n fs)"
    "rest = wire L ?cip k n (take j (drop n fs)) @ pre"
    "pre = [] \<or> j < length (drop n fs) \<and> strict_prefix pre (frame_bytes L ?cip k (n + j) (drop n fs ! j))"
    by blast
  let ?fs = "take j (drop n fs)"
  have tk: "take n fs @ ?fs = take (n + j) fs" by (simp add: take_add)
  have fs': "\<forall>f \<in> set ?fs. frame_ok f" using fs by (auto dest!: in_set_takeD in_set_dropD)
  have pre: "pre = [] \<or> frame_ok (fs ! (n + j)) \<and>
      strict_prefix pre (frame_bytes L (cx_cipher d) k (n + length ?fs) (fs ! (n + j)))"
    using j n fs pos(2) by (auto simp: min_absorb2)
  have pl: "payload chunk = wire L (cx_cipher d) k n ?fs @ pre" using c(2) j(2) pos(2) by simp
  from finish_decrypt_frames[OF L pos(1) fs' pre c(1) pl t ct, of cap]
  obtain ret ct' d' tmp' where r: "finish_decrypt L ct cap d chunk tmp = Inr (ret, ct', d', tmp')"
    "ret \<noteq> CRYPTO_ERROR" "wf_buffer tmp'" "at_pos d' (cx_s_rx d') k (2 * (n + length ?fs))"
    "cx_cipher d' = cx_cipher d" "cx_init d' = cx_init d" "chunk_of d' = pre"
    "(if ret = CRYPTO_OK then payload ct' else []) = concat (map frame_msg ?fs)"
    by blast
  have "wire L ?cip k 0 (take (n + j) fs) = wire L ?cip k 0 (take n fs) @ wire L ?cip k n ?fs"
    using wire_append[of L ?cip k 0 "take n fs" ?fs] n by (simp add: tk min_absorb2)
  moreover have "concat (map frame_msg (take (n + j) fs))
      = concat (map frame_msg (take n fs)) @ concat (map frame_msg ?fs)"
    by (simp flip: tk)
  moreover have "length ?fs = j" using j by simp
  ultimately have "rx_state L k d0 hs fs d' (hs @ wire L ?cip k 0 (take n fs) @ rest)
      (concat (map frame_msg (take n fs)) @ (if ret = CRYPTO_OK then payload ct' else []))"
    unfolding rx_state_def r(8)
    using r j n pos by - (rule disjI2, intro conjI exI[of _ "n + j"] exI[of _ pre], auto)
  with r show ?thesis by blast
qed

lemma rx_step:
  assumes L: "mbedtls_ok L" and fs: "\<forall>f \<in> set fs. frame_ok f"
    and d0: "cx_init d0 = 0" "length hs = hs_len d0"
    and k: "k = subkey L (cx_cipher d0) (kx_rx (rx_kx P d0 (take KXBYTES hs)))
         (drop (hs_len d0 - c_key_len (cx_cipher d0)) hs)"
    and st: "rx_state L k d0 hs fs d r out"
    and pf: "prefix (r @ payload ct) (hs @ wire L (cx_cipher d0) k 0 fs)"
    and ct: "wf_buffer ct" and tmp: "wf_buffer tmp"
  shows "\<exists>ret ct' d' tmp'. aead_decrypt L P ct d cap tmp = Inr (ret, ct', d', tmp') \<and>
    ret \<noteq> CRYPTO_ERROR \<and> wf_buffer tmp' \<and>
    rx_state L k d0 hs fs d' (r @ payload ct) (out @ (if ret = CRYPTO_OK then payload ct' else []))"
proof -
  from st consider
    (wait) ch where "d = d0\<lparr>cx_chunk := ch\<rparr>" "wf_ctx d" "length r \<le> length hs" "chunk_of d = r" "out = []"
  | (more) n pre where "cx_init d \<noteq> 0" "cx_cipher d = cx_cipher d0" "n \<le> length fs"
      "r = hs @ wire L (cx_cipher d0) k 0 (take n fs) @ pre" "at_pos d (cx_s_rx d) k (2 * n)"
      "chunk_of d = pre" "out = concat (map frame_msg (take n fs))"
    unfolding rx_state_def by blast
  then show ?thesis
  proof cases
  case wait
  note d = this
  have same: "hs_len d = hs_len d0" "rx_kx P d = rx_kx P d0" "cx_cipher d = cx_cipher d0" "cx_init d = 0"
    using d d0 by (auto simp: hs_len_def rx_kx_def)
  show ?thesis
  proof (cases "length (r @ payload ct) \<le> length hs")
    case True
    from decrypt_wait[OF d(2) ct tmp same(4), of L P cap] True d d0 same
    obtain c t where r: "aead_decrypt L P ct d cap tmp = Inr (CRYPTO_NEED_MORE, ct, d\<lparr>cx_chunk := Some c\<rparr>, t)"
      "wf_buffer c" "payload c = r @ payload ct" "wf_buffer t"
      by auto
    moreover have "rx_state L k d0 hs fs (d\<lparr>cx_chunk := Some c\<rparr>) (r @ payload ct) out"
      unfolding rx_state_def using r d True
      by (intro disjI1 exI[of _ "Some c"]) (auto simp: wf_ctx_def chunk_of_def)
    ultimately show ?thesis by simp
  next
    case False
    then have "prefix hs (r @ payload ct)"
      using pf by (metis nat_le_linear prefixI prefix_length_prefix)
    then obtain rest where rest: "r @ payload ct = hs @ rest" by (auto simp: prefix_def)
    then have "rest \<noteq> []" using False by auto
    from decrypt_open[OF L d(2) ct tmp same(4) _ _ this, of hs P cap] d d0 same rest
    obtain c t where o: "aead_decrypt L P ct d cap tmp = finish_decrypt L ct cap (rx_open L P d hs) c t"
      "wf_buffer c" "payload c = rest" "wf_buffer t" "b_len c \<le> b_capacity t"
      by auto
    have pos: "at_pos (rx_open L P d hs) (cx_s_rx (rx_open L P d hs)) k (2 * 0)"
      "cx_cipher (rx_open L P d hs) = cx_cipher d0" "cx_init (rx_open L P d hs) \<noteq> 0"
      using rx_open_at_pos[OF L d(2), of hs P] d0 same by (simp_all add: k)
    from rx_step_open[OF L fs pos, of hs rest c t ct cap] pf rest o ct d show ?thesis by simp
  qed
next
  case more
  note d = this
  let ?d = "if cx_init d = 1 then d\<lparr>cx_init := 2\<rparr> else d"
  from decrypt_more[OF at_pos_wf(1)[OF d(5)] ct tmp d(1), of L P cap] d
  obtain c t where o: "aead_decrypt L P ct d cap tmp = finish_decrypt L ct cap ?d c t"
    "wf_buffer c" "payload c = pre @ payload ct" "wf_buffer t" "b_len c \<le> b_capacity t"
    by auto
  have pos: "at_pos ?d (cx_s_rx ?d) k (2 * n)" "cx_cipher ?d = cx_cipher d0" "cx_init ?d \<noteq> 0"
    using d by (auto simp: at_pos_def wf_ctx_def keyed_def)
  from rx_step_open[OF L fs pos d(3), of hs "pre @ payload ct" c t ct cap] pf o ct d
  show ?thesis by simp
  qed
qed

text \<open>
  A receiver that reads the connection in pieces: each piece arrives in a buffer, what
  \<open>CRYPTO_OK\<close> leaves in the buffer is delivered, and \<open>CRYPTO_ERROR\<close> ends the connection.
\<close>

fun recv_segments ::
    "mbedtls \<Rightarrow> kx_prims \<Rightarrow> nat \<Rightarrow> cipher_ctx \<Rightarrow> buffer \<Rightarrow> byte list list \<Rightarrow> byte list option run" where
  "recv_segments L P cap ctx tmp [] = Inr (Some [])"
| "recv_segments L P cap ctx tmp (s # ss) =
     bindE (aead_decrypt L P (recv_buffer cap s) ctx cap tmp) (\<lambda>(ret, ct, ctx, tmp).
       if ret = CRYPTO_ERROR then Inr None
       else bindE (recv_segments L P cap ctx tmp ss) (\<lambda>r.
              Inr (map_option (\<lambda>out. (if ret = CRYPTO_OK then payload ct else []) @ out) r)))"

lemma rx_state_prefix_out:
  assumes L: "mbedtls_ok L" and "rx_state L k d0 hs fs d (hs @ wire L (cx_cipher d0) k 0 fs) out"
    and fs: "\<forall>f \<in> set fs. frame_ok f" "fs \<noteq> []" "usable L (cx_cipher d0) k"
  shows "out = concat (map frame_msg fs)"
proof -
  let ?w = "wire L (cx_cipher d0) k"
  from fs(2) obtain f gs where f: "fs = f # gs" by (cases fs) auto
  have "\<not> length (hs @ ?w 0 fs) \<le> length hs"
    using frame_bytes_bounds(1)[OF fs(3), of f 0] fs(1) by (auto simp: f simp del: frame_bytes.simps)
  with assms(2) obtain n pre where n: "n \<le> length fs" "?w 0 fs = ?w 0 (take n fs) @ pre"
    "pre = [] \<or> n < length fs \<and> strict_prefix pre (frame_bytes L (cx_cipher d0) k n (fs ! n))"
    "out = concat (map frame_msg (take n fs))"
    unfolding rx_state_def by auto
  have "?w 0 fs = ?w 0 (take n fs) @ ?w n (drop n fs)"
    using wire_append[of L "cx_cipher d0" k 0 "take n fs" "drop n fs"] n by (simp add: min_absorb2)
  with n(2) have pre: "pre = ?w n (drop n fs)" by simp
  have "n = length fs"
  proof (rule ccontr)
    assume "n \<noteq> length fs"
    then have lt: "n < length fs" using n by simp
    then have w: "pre = frame_bytes L (cx_cipher d0) k n (fs ! n) @ ?w (Suc n) (drop (Suc n) fs)"
      unfolding pre by (simp flip: Cons_nth_drop_Suc)
    moreover have "frame_bytes L (cx_cipher d0) k n (fs ! n) \<noteq> []"
      using frame_bytes_bounds(1)[OF fs(3), of "fs ! n" n] fs(1) lt by auto
    ultimately show False using n(3) by (auto simp: strict_prefix_def prefix_def)
  qed
  with n(4) show ?thesis by simp
qed

lemma recv_segments_frames:
  assumes L: "mbedtls_ok L" and fs: "\<forall>f \<in> set fs. frame_ok f" "fs \<noteq> []"
    and d0: "cx_init d0 = 0" "length hs = hs_len d0"
    and k: "k = subkey L (cx_cipher d0) (kx_rx (rx_kx P d0 (take KXBYTES hs)))
         (drop (hs_len d0 - c_key_len (cx_cipher d0)) hs)"
    and us: "usable L (cx_cipher d0) k"
    and st: "rx_state L k d0 hs fs d r out"
    and W: "r @ concat segs = hs @ wire L (cx_cipher d0) k 0 fs"
    and tmp: "wf_buffer tmp"
  shows "\<exists>rest. recv_segments L P cap d tmp segs = Inr (Some rest) \<and> out @ rest = concat (map frame_msg fs)"
  using st W tmp
proof (induction segs arbitrary: d r out tmp)
  case Nil
  then show ?case using rx_state_prefix_out[OF L _ fs us] by simp
next
  case (Cons s segs)
  have "prefix (r @ payload (recv_buffer cap s)) (hs @ wire L (cx_cipher d0) k 0 fs)"
    using Cons.prems(2) by (metis append_assoc concat.simps(2) prefixI recv_buffer(2))
  from rx_step[OF L fs(1) d0 k Cons.prems(1) this recv_buffer(1) Cons.prems(3), of cap]
  obtain ret ct' d' tmp' where r: "aead_decrypt L P (recv_buffer cap s) d cap tmp = Inr (ret, ct', d', tmp')"
    "ret \<noteq> CRYPTO_ERROR" "wf_buffer tmp'"
    "rx_state L k d0 hs fs d' (r @ s) (out @ (if ret = CRYPTO_OK then payload ct' else []))"
    by auto
  from Cons.IH[OF r(4) _ r(3)] Cons.prems(2) r show ?case by auto
qed

end
