(* ===== verification/SS_Session.thy ===== *)
theory SS_Session
  imports SS_Reassembly
begin

text \<open>
  Two endpoints of the TCP channel: a sender that calls \<open>aead_encrypt\<close> once per message and a
  receiver that calls \<open>aead_decrypt\<close> once per segment it reads.  Also the setup of a client
  session (\<open>new_server\<close> of \<^verbatim>\<open>local.c\<close>) and the agreement of the two sides on their keys.
\<close>

section \<open>The sender\<close>

type_synonym message = "nat \<times> (nat \<Rightarrow> byte list) \<times> byte list"

fun send_messages ::
    "mbedtls \<Rightarrow> nat \<Rightarrow> cipher_ctx \<Rightarrow> buffer \<Rightarrow> message list \<Rightarrow> byte list option run" where
  "send_messages L cap ctx tmp [] = Inr (Some [])"
| "send_messages L cap ctx tmp ((rnd, rb, m) # ms) =
     bindE (aead_encrypt L rnd rb (recv_buffer cap m) ctx cap tmp) (\<lambda>(ret, pt, ctx, tmp).
       if ret \<noteq> CRYPTO_OK then Inr None
       else bindE (send_messages L cap ctx tmp ms) (\<lambda>r.
              Inr (map_option (\<lambda>out. payload pt @ out) r)))"

fun message_ok :: "message \<Rightarrow> bool" where
  "message_ok (rnd, rb, m) \<longleftrightarrow> (\<forall>n. length (rb n) = n) \<and> 0 < length m \<and> length m \<le> CHUNK_SIZE_MASK"

fun message_frame :: "message \<Rightarrow> frame" where
  "message_frame (rnd, rb, m) = frame_of rnd rb m"

definition message_text :: "message \<Rightarrow> byte list" where
  "message_text m = snd (snd m)"

lemma message_frame_ok: "message_ok m \<Longrightarrow> frame_ok (message_frame m)"
  using frame_of_ok by (cases m) (auto simp del: frame_ok.simps)

lemma frame_msg_message_frame [simp]: "frame_msg (message_frame m) = message_text m"
  by (cases m) (simp add: message_text_def)

lemma send_messages_wire:
  assumes "mbedtls_ok L" and "at_pos ctx (cx_s_tx ctx) k (2 * i)" and "cx_init ctx \<noteq> 0"
    and "\<forall>m \<in> set ms. message_ok m" and "wf_buffer tmp"
  shows "send_messages L cap ctx tmp ms = Inr (Some (wire L (cx_cipher ctx) k i (map message_frame ms)))"
  using assms(2-)
proof (induction ms arbitrary: ctx tmp i)
  case (Cons m ms)
  obtain rnd rb t where m: "m = (rnd, rb, t)" by (cases m)
  have ok: "\<And>n. length (rb n) = n" "0 < b_len (recv_buffer cap t)"
    "b_len (recv_buffer cap t) \<le> CHUNK_SIZE_MASK"
    using Cons.prems(3) by (auto simp: m recv_buffer_def)
  from encrypt_next[OF assms(1) Cons.prems(1,2) ok(1) recv_buffer(1) ok(2,3) Cons.prems(4), of rnd cap]
  obtain pt' tmp' where e: "aead_encrypt L rnd rb (recv_buffer cap t) ctx cap tmp
      = Inr (CRYPTO_OK, pt', increment_nonce (increment_nonce ctx), tmp')" "wf_buffer tmp'"
    "payload pt' = frame_bytes L (cx_cipher ctx) k i (frame_of rnd rb t)"
    by auto
  have "at_pos (increment_nonce (increment_nonce ctx))
      (cx_s_tx (increment_nonce (increment_nonce ctx))) k (2 * Suc i)"
    using at_pos_increment[OF at_pos_increment[OF Cons.prems(1)]] by simp
  from Cons.IH[OF this _ _ e(2)] Cons.prems(2,3) e
  show ?case by (simp add: m del: frame_bytes.simps)
qed simp

lemma send_messages_first:
  assumes L: "mbedtls_ok L" and wf: "wf_ctx ctx" and "cx_init ctx = 0"
    and ms: "\<forall>m \<in> set ms. message_ok m" "ms \<noteq> []" and tmp: "wf_buffer tmp"
  shows "send_messages L cap ctx tmp ms
    = Inr (Some (handshake ctx @ wire L (cx_cipher ctx)
        (subkey L (cx_cipher ctx) (kx_tx (cx_kx ctx)) (take (c_key_len (cx_cipher ctx)) (cx_salt ctx)))
        0 (map message_frame ms)))"
proof -
  let ?k = "subkey L (cx_cipher ctx) (kx_tx (cx_kx ctx)) (take (c_key_len (cx_cipher ctx)) (cx_salt ctx))"
  obtain rnd rb t ms' where m: "ms = (rnd, rb, t) # ms'" using ms(2) by (cases ms) auto
  have ok: "\<And>n. length (rb n) = n" "0 < b_len (recv_buffer cap t)"
    "b_len (recv_buffer cap t) \<le> CHUNK_SIZE_MASK"
    using ms by (auto simp: m recv_buffer_def)
  from encrypt_first[OF L wf assms(3) ok(1) recv_buffer(1) ok(2,3) tmp, of rnd cap]
  obtain pt' tmp' ctx' where e: "aead_encrypt L rnd rb (recv_buffer cap t) ctx cap tmp
      = Inr (CRYPTO_OK, pt', ctx', tmp')" "wf_buffer tmp'" "at_pos ctx' (cx_s_tx ctx') ?k (2 * 1)"
    "cx_init ctx' \<noteq> 0" "cx_cipher ctx' = cx_cipher ctx"
    "payload pt' = handshake ctx @ frame_bytes L (cx_cipher ctx) ?k 0 (frame_of rnd rb t)"
    by auto
  from send_messages_wire[OF L e(3,4) _ e(2), of ms' cap] e(1,5,6) ms(1)
  show ?thesis by (simp add: m del: frame_bytes.simps)
qed

section \<open>Both ends\<close>

lemma wf_cipher_method:
  assumes "wf_cipher a" "wf_cipher b" "c_method a = c_method b"
  shows "c_key_len a = c_key_len b" "c_nonce_len a = c_nonce_len b"
  using assms by (simp_all add: wf_cipher_def)

lemma wire_method:
  assumes "wf_cipher a" "wf_cipher b" "c_method a = c_method b"
  shows "wire L a k i fs = wire L b k i fs" "subkey L a key salt = subkey L b key salt"
proof -
  have seal: "seal L a = seal L b" "nonce_at a = nonce_at b"
    using assms wf_cipher_method[OF assms] by (simp_all add: seal_def nonce_at_def fun_eq_iff)
  have "frame_bytes L a k i f = frame_bytes L b k i f" for i f by (cases f) (simp add: seal)
  then show "wire L a k i fs = wire L b k i fs" by (induction fs arbitrary: i) simp_all
  show "subkey L a key salt = subkey L b key salt"
    unfolding subkey_def by (simp only: wf_cipher_method(1)[OF assms])
qed

lemma subkey_usable:
  assumes L: "mbedtls_ok L" and wf: "wf_ctx d" and "length hs = hs_len d"
  shows "usable L (cx_cipher d) (subkey L (cx_cipher d) (kx_rx (rx_kx P d (take KXBYTES hs)))
         (drop (hs_len d - c_key_len (cx_cipher d)) hs))"
  using at_pos_usable[OF L rx_open_at_pos(1)[OF assms]] by (simp add: rx_open_at_pos(2)[OF assms])

text \<open>Sender and receiver fit together: one is the client, the other the server, and the keys match.\<close>

definition matching :: "kx_prims \<Rightarrow> cipher_ctx \<Rightarrow> cipher_ctx \<Rightarrow> bool" where
  "matching P e d \<longleftrightarrow>
     wf_ctx e \<and> cx_init e = 0 \<and> wf_ctx d \<and> cx_init d = 0 \<and> cx_chunk d = None \<and>
     c_method (cx_cipher d) = c_method (cx_cipher e) \<and> cx_is_local d = (\<not> cx_is_local e) \<and>
     kx_rx (rx_kx P d (kx_pk (cx_kx e))) = kx_tx (cx_kx e)"

lemma handshake_parts:
  assumes "matching P e d"
  shows "length (handshake e) = hs_len d"
    and "subkey L (cx_cipher d) (kx_rx (rx_kx P d (take KXBYTES (handshake e))))
           (drop (hs_len d - c_key_len (cx_cipher d)) (handshake e))
         = subkey L (cx_cipher e) (kx_tx (cx_kx e)) (take (c_key_len (cx_cipher e)) (cx_salt e))"
proof -
  have wf: "wf_cipher (cx_cipher e)" "wf_cipher (cx_cipher d)" "c_method (cx_cipher e) = c_method (cx_cipher d)"
    and pk: "length (kx_pk (cx_kx e)) = KXBYTES" and sl: "length (cx_salt e) = 64"
    using assms by (auto simp: matching_def wf_ctx_def wf_kx_def)
  note kl = wf_cipher_method(1)[OF wf] and sz = wf_cipher_sizes(3)[OF wf(1)]
  show "length (handshake e) = hs_len d"
    using assms pk sl kl sz by (simp add: handshake_def hs_len_def matching_def)
  have rx: "kx_rx (rx_kx P d (take KXBYTES (handshake e))) = kx_tx (cx_kx e)"
    using assms pk by (auto simp: matching_def handshake_def rx_kx_def)
  have "drop (hs_len d - c_key_len (cx_cipher d)) (handshake e)
      = take (c_key_len (cx_cipher e)) (cx_salt e)"
    using assms pk by (auto simp: matching_def handshake_def hs_len_def)
  with rx show "subkey L (cx_cipher d) (kx_rx (rx_kx P d (take KXBYTES (handshake e))))
           (drop (hs_len d - c_key_len (cx_cipher d)) (handshake e))
         = subkey L (cx_cipher e) (kx_tx (cx_kx e)) (take (c_key_len (cx_cipher e)) (cx_salt e))"
    by (simp add: wire_method(2)[OF wf])
qed

lemma channel_delivers:
  assumes L: "mbedtls_ok L" and m: "matching P e d"
    and ms: "\<forall>m \<in> set ms. message_ok m" "ms \<noteq> []" and tmp: "wf_buffer tmp" "wf_buffer tmp'"
  shows "\<exists>W. send_messages L cap e tmp ms = Inr (Some W) \<and>
    (\<forall>segs. concat segs = W \<longrightarrow>
       recv_segments L P cap' d tmp' segs = Inr (Some (concat (map message_text ms))))"
proof -
  define k where "k = subkey L (cx_cipher e) (kx_tx (cx_kx e)) (take (c_key_len (cx_cipher e)) (cx_salt e))"
  have e: "wf_ctx e" "cx_init e = 0" and d: "wf_ctx d" "cx_init d = 0" "cx_chunk d = None"
    and meth: "c_method (cx_cipher e) = c_method (cx_cipher d)"
    using m by (auto simp: matching_def)
  note hs = handshake_parts(1)[OF m] handshake_parts(2)[OF m, of L, folded k_def]
  let ?fs = "map message_frame ms"
  have W: "send_messages L cap e tmp ms = Inr (Some (handshake e @ wire L (cx_cipher d) k 0 ?fs))"
    using send_messages_first[OF L e ms tmp(1), of cap] wire_method(1)[OF _ _ meth] e d
    by (simp add: k_def)
  have fs: "\<forall>f \<in> set ?fs. frame_ok f" "?fs \<noteq> []" using ms message_frame_ok by auto
  have st: "rx_state L k d (handshake e) ?fs d [] []"
    unfolding rx_state_def using d
    by (intro disjI1 exI[of _ None]) (cases d, simp add: chunk_of_def)
  have us: "usable L (cx_cipher d) k" using subkey_usable[OF L d(1) hs(1), of P] by (simp add: hs(2))
  have "recv_segments L P cap' d tmp' segs = Inr (Some (concat (map message_text ms)))"
    if "concat segs = handshake e @ wire L (cx_cipher d) k 0 ?fs" for segs
    using recv_segments_frames[OF L fs d(2) hs(1) hs(2)[symmetric] us st _ tmp(2), of segs cap'] that
    by (simp add: comp_def)
  with W show ?thesis by blast
qed

section \<open>Setting up a session\<close>

text \<open>
  The part of \<open>new_server\<close> (\<^verbatim>\<open>local.c\<close>) that prepares the two contexts of a client session.
  \<open>rnd\<close> is the fresh secret key, \<open>rb\<close> the source of the salt.
\<close>

definition new_server_ctx ::
    "mbedtls \<Rightarrow> kx_prims \<Rightarrow> byte list \<Rightarrow> (nat \<Rightarrow> byte list) \<Rightarrow> cipher \<Rightarrow> (cipher_ctx \<times> cipher_ctx) run" where
  "new_server_ctx L P rnd rb cip =
     (let kx = fst (crypto_kx_ctx_init P rnd zero_kx True (c_pk cip))
      in bindE (aead_ctx_init L rb cip (Some kx) True) (\<lambda>e_ctx.
         bindE (aead_ctx_init L rb cip (Some kx) False) (\<lambda>d_ctx.
           Inr (e_ctx\<lparr>cx_is_local := True\<rparr>, d_ctx\<lparr>cx_is_local := True\<rparr>))))"

text \<open>What the curve and hash functions of libsodium promise.\<close>

definition x25519_ok :: "kx_prims \<Rightarrow> bool" where
  "x25519_ok P \<longleftrightarrow>
     (\<forall>a b. scalarmult P a (scalarmult_base P b) = scalarmult P b (scalarmult_base P a)) \<and>
     (\<forall>a. length (scalarmult_base P a) = KXBYTES)"

lemma session_keys_agree:
  assumes "x25519_ok P"
  shows "crypto_kx_server_session_keys P (scalarmult_base P ssk) ssk (scalarmult_base P csk)
    = map_option prod.swap
        (crypto_kx_client_session_keys P (scalarmult_base P csk) csk (scalarmult_base P ssk))"
  using assms
  by (auto simp: x25519_ok_def crypto_kx_server_session_keys_def crypto_kx_client_session_keys_def
      Let_def split: option.splits)

lemma aead_ctx_init_wf:
  assumes L: "mbedtls_ok L" and cip: "wf_cipher cip" and kx: "wf_kx kx" and rb: "\<And>n. length (rb n) = n"
  shows "\<exists>ctx. aead_ctx_init L rb cip (Some kx) enc = Inr ctx \<and> wf_ctx ctx \<and> cx_init ctx = 0 \<and>
    cx_chunk ctx = None \<and> cx_cipher ctx = cip \<and> cx_kx ctx = kx \<and> \<not> cx_is_local ctx"
proof -
  have t: "c_method cip < CHACHA20POLY1305IETF \<longrightarrow> aead_get_cipher_type L (c_method cip)"
    using cip L
    by (cases rule: wf_cipher_cases)
      (auto simp: aead_get_cipher_type_def supported_aead_ciphers_mbedtls_def mbedtls_ok_def Let_def)
  have m: "0 \<le> c_method cip" "c_method cip < AEAD_CIPHER_NUM" using cip by (simp_all add: wf_cipher_def)
  note kl = wf_cipher_sizes(3)[OF cip]
  show ?thesis
    using t m cip kx kl rb[of "c_key_len cip"]
    by (auto simp: aead_ctx_init_def aead_cipher_ctx_init_def zero_ctx_def wf_ctx_def Let_def)
qed

lemma client_kx:
  assumes P: "x25519_ok P" and sm: "scalarmult P csk (scalarmult_base P ssk) \<noteq> None"
    and len: "length csk = KXBYTES"
  defines "kx \<equiv> fst (crypto_kx_ctx_init P csk zero_kx True (scalarmult_base P ssk))"
  shows "wf_kx kx" "kx_pk kx = scalarmult_base P csk"
    and "crypto_kx_client_session_keys P (scalarmult_base P csk) csk (scalarmult_base P ssk)
           = Some (kx_rx kx, kx_tx kx)"
proof -
  have l: "length (scalarmult_base P a) = KXBYTES" for a using P by (simp add: x25519_ok_def)
  then have tk: "take KXBYTES (scalarmult_base P ssk) = scalarmult_base P ssk" by simp
  from sm obtain q where q: "scalarmult P csk (scalarmult_base P ssk) = Some q" by auto
  show "wf_kx kx" "kx_pk kx = scalarmult_base P csk"
    "crypto_kx_client_session_keys P (scalarmult_base P csk) csk (scalarmult_base P ssk)
       = Some (kx_rx kx, kx_tx kx)"
    using l len
    by (simp_all add: kx_def crypto_kx_ctx_init_def tk crypto_kx_keypair_def set_session_keys_def
        crypto_kx_client_session_keys_def q Let_def zero_kx_def wf_kx_def)
qed

lemma client_server_matching:
  assumes L: "mbedtls_ok L" and P: "x25519_ok P"
    and sm: "scalarmult P csk (scalarmult_base P ssk) \<noteq> None" and len: "length csk = KXBYTES"
    and cipc: "wf_cipher cipc" "c_pk cipc = scalarmult_base P ssk" and rb: "\<And>n. length (rb n) = n"
    and d: "wf_ctx d" "cx_init d = 0" "cx_chunk d = None" "\<not> cx_is_local d"
      "c_method (cx_cipher d) = c_method cipc" "c_pk (cx_cipher d) = scalarmult_base P ssk"
      "c_sk (cx_cipher d) = ssk"
  shows "\<exists>e ed. new_server_ctx L P csk rb cipc = Inr (e, ed) \<and> matching P e d"
proof -
  let ?kx = "fst (crypto_kx_ctx_init P csk zero_kx True (c_pk cipc))"
  note kx = client_kx[OF P sm len, folded cipc(2)]
  from aead_ctx_init_wf[OF L cipc(1) kx(1) rb, of True] obtain e where e:
    "aead_ctx_init L rb cipc (Some ?kx) True = Inr e" "wf_ctx e" "cx_init e = 0" "cx_cipher e = cipc"
    "cx_kx e = ?kx" by blast
  from aead_ctx_init_wf[OF L cipc(1) kx(1) rb, of False] obtain ed where ed:
    "aead_ctx_init L rb cipc (Some ?kx) False = Inr ed" by blast
  have l: "take KXBYTES (scalarmult_base P csk) = scalarmult_base P csk" using P by (simp add: x25519_ok_def)
  have "crypto_kx_server_session_keys P (c_pk (cx_cipher d)) ssk (scalarmult_base P csk)
      = Some (kx_tx ?kx, kx_rx ?kx)"
    using session_keys_agree[OF P, of ssk csk] kx(3) d(6) by (simp add: cipc(2))
  then have "kx_rx (rx_kx P d (scalarmult_base P csk)) = kx_tx ?kx"
    using d l by (simp add: rx_kx_def crypto_kx_ctx_init_def set_session_keys_def Let_def)
  then have "matching P (e\<lparr>cx_is_local := True\<rparr>) d"
    using e d kx(2) by (simp add: matching_def wf_ctx_def)
  with e ed show ?thesis by (simp add: new_server_ctx_def Let_def)
qed

section \<open>Properties\<close>

text \<open>A cipher for concrete runs.\<close>

definition chacha_cipher :: "byte list \<Rightarrow> byte list \<Rightarrow> cipher" where
  "chacha_cipher pk sk = \<lparr>c_method = CHACHA20POLY1305IETF, c_nonce_len = 12, c_key_len = 32,
     c_tag_len = 16, c_pk = pk, c_sk = sk\<rparr>"

lemma plain_kx_ok [simp]: "x25519_ok plain_kx"
  by (simp add: x25519_ok_def plain_kx_def min_def)

lemma chacha_cipher_simps [simp]:
  "c_method (chacha_cipher pk sk) = CHACHA20POLY1305IETF" "c_pk (chacha_cipher pk sk) = pk"
  "c_sk (chacha_cipher pk sk) = sk" "c_key_len (chacha_cipher pk sk) = 32"
  by (simp_all add: chacha_cipher_def)

lemma zero_ctx_simps [simp]:
  "cx_init (zero_ctx cip) = 0" "cx_chunk (zero_ctx cip) = None" "cx_cipher (zero_ctx cip) = cip"
  "\<not> cx_is_local (zero_ctx cip)"
  by (simp_all add: zero_ctx_def)

lemma wf_chacha_cipher [simp]:
  "length pk = KXBYTES \<Longrightarrow> length sk = KXBYTES \<Longrightarrow> wf_cipher (chacha_cipher pk sk)"
  by (simp add: wf_cipher_def chacha_cipher_def supported_aead_ciphers_nonce_size_def
      supported_aead_ciphers_key_size_def supported_aead_ciphers_tag_size_def)

lemma wf_zero_ctx [simp]:
  "wf_cipher cip \<Longrightarrow> c_method cip \<ge> CHACHA20POLY1305IETF \<Longrightarrow> wf_ctx (zero_ctx cip)"
  by (simp add: wf_ctx_def zero_ctx_def zero_kx_def wf_kx_def)

text \<open>
  C1. A client session set up by \<open>new_server_ctx\<close> sends messages of 1 to 16383 bytes with
  \<open>aead_encrypt\<close>; the server, holding the secret key \<open>ssk\<close> of the public key the client was
  configured with, reads the connection in segments \<open>segs\<close> and calls \<open>aead_decrypt\<close> on each.
  Sending succeeds, and for every way to cut the byte stream into segments (empty ones included)
  decryption never reports an error and delivers exactly the messages, in order.
\<close>

theorem client_to_server_stream:
  assumes "mbedtls_ok L" and "x25519_ok P"
    and "scalarmult P csk (scalarmult_base P ssk) \<noteq> None" and "length csk = KXBYTES"
    and "wf_cipher cipc" and "c_pk cipc = scalarmult_base P ssk" and "\<And>n. length (rb n) = n"
    and "wf_ctx d" and "cx_init d = 0" and "cx_chunk d = None" and "\<not> cx_is_local d"
    and "c_method (cx_cipher d) = c_method cipc" and "c_pk (cx_cipher d) = scalarmult_base P ssk"
    and "c_sk (cx_cipher d) = ssk"
    and "\<forall>m \<in> set ms. message_ok m" and "ms \<noteq> []" and "wf_buffer tmp" and "wf_buffer tmp'"
  shows "\<exists>e ed W. new_server_ctx L P csk rb cipc = Inr (e, ed) \<and>
    send_messages L cap e tmp ms = Inr (Some W) \<and>
    (\<forall>segs. concat segs = W \<longrightarrow>
       recv_segments L P cap' d tmp' segs = Inr (Some (concat (map message_text ms))))"
proof -
  obtain e ed where "new_server_ctx L P csk rb cipc = Inr (e, ed)" "matching P e d"
    using client_server_matching[OF assms(1-14)] by blast
  with channel_delivers[OF assms(1) _ assms(15-18)] show ?thesis by blast
qed

theorem client_to_server_stream_witness:
  "\<exists>e ed W.
    new_server_ctx plain_mbedtls plain_kx (replicate 32 1) (\<lambda>n. replicate n 5)
      (chacha_cipher (replicate 32 2) (replicate 32 0)) = Inr (e, ed) \<and>
    send_messages plain_mbedtls 2048 e null_buffer
      [(3, \<lambda>n. replicate n 9, [104, 105]), (600, \<lambda>n. replicate n 8, replicate 700 33)] = Inr (Some W) \<and>
    (\<forall>segs. concat segs = W \<longrightarrow>
       recv_segments plain_mbedtls plain_kx 2048
         (zero_ctx (chacha_cipher (replicate 32 2) (replicate 32 2))) null_buffer segs
       = Inr (Some ([104, 105] @ replicate 700 33)))"
  using client_to_server_stream[of plain_mbedtls plain_kx "replicate 32 1" "replicate 32 2"
      "chacha_cipher (replicate 32 2) (replicate 32 0)" "\<lambda>n. replicate n 5"
      "zero_ctx (chacha_cipher (replicate 32 2) (replicate 32 2))"
      "[(3, \<lambda>n. replicate n 9, [104, 105]), (600, \<lambda>n. replicate n 8, replicate 700 33)]"
      null_buffer null_buffer 2048 2048]
  by (simp add: message_text_def)

text \<open>
  The key exchange gives both sides the same two session keys, crossed over: what the client
  sends with the server receives with, and the other way round.  The server side is
  \<open>crypto_kx_ctx_init\<close> on the public key it reads from the connection.
\<close>

theorem session_keys_cross:
  assumes "x25519_ok P" and "scalarmult P csk (scalarmult_base P ssk) \<noteq> None"
    and "length csk = KXBYTES" and "kx_pk skx = scalarmult_base P ssk" and "kx_sk skx = ssk"
  shows "\<exists>ckx' skx'. crypto_kx_ctx_init P csk ckx True (scalarmult_base P ssk) = (ckx', 0) \<and>
    crypto_kx_ctx_init P rnd skx False (kx_pk ckx') = (skx', 0) \<and>
    kx_rx skx' = kx_tx ckx' \<and> kx_tx skx' = kx_rx ckx'"
proof -
  have l: "take KXBYTES (scalarmult_base P a) = scalarmult_base P a" for a
    using assms(1) by (simp add: x25519_ok_def)
  from assms(2) obtain q where q: "scalarmult P csk (scalarmult_base P ssk) = Some q" by auto
  show ?thesis
    using session_keys_agree[OF assms(1), of ssk csk] q assms(4,5)
    by (simp add: crypto_kx_ctx_init_def l crypto_kx_keypair_def set_session_keys_def
        crypto_kx_client_session_keys_def Let_def)
qed

theorem session_keys_cross_witness:
  "\<exists>ckx' skx'. crypto_kx_ctx_init plain_kx (replicate 32 1) zero_kx True (replicate 32 2) = (ckx', 0) \<and>
    crypto_kx_ctx_init plain_kx [] (zero_kx\<lparr>kx_pk := replicate 32 2, kx_sk := replicate 32 2\<rparr>) False
      (kx_pk ckx') = (skx', 0) \<and>
    kx_rx skx' = kx_tx ckx' \<and> kx_tx skx' = kx_rx ckx'"
  using session_keys_cross[of plain_kx "replicate 32 1" "replicate 32 2"
      "zero_kx\<lparr>kx_pk := replicate 32 2, kx_sk := replicate 32 2\<rparr>" zero_kx "[]"]
  by simp

end
