(* ===== verification/SS_Safety.thy ===== *)
theory SS_Safety
  imports SS_Session
begin

text \<open>
  The packet layer on arbitrary input: whatever bytes arrive, \<open>aead_decrypt\<close> and
  \<open>aead_decrypt_all\<close> return one of their result codes, read and write inside their buffers, and
  leave a well-formed context.  No premise restricts the content of the input.
\<close>

section \<open>One chunk\<close>

lemma write_ok:
  assumes "wf_buffer p" "off + length m \<le> b_capacity p"
  shows "\<exists>p'. buf_write off m p = Inr p' \<and> wf_buffer p' \<and> b_capacity p' = b_capacity p \<and> b_len p' = b_len p"
  using assms by (simp add: buf_write_def wf_buffer_def)

lemma chunk_decrypt_safe:
  assumes L: "mbedtls_ok L" and ctx: "wf_ctx ctx" and p: "wf_buffer p" and c: "wf_buffer c"
    and bounds: "b_len c \<le> msg_max" "off + b_len c \<le> b_capacity p"
  shows "\<exists>r ctx' p' c' n clen'. aead_chunk_decrypt L ctx off p c (b_len c) = Inr (r, ctx', p', c', n, clen') \<and>
    wf_ctx ctx' \<and> wf_buffer p' \<and> b_capacity p' = b_capacity p \<and>
    wf_buffer c' \<and> b_len c' = b_len c \<and> clen' \<le> b_len c \<and> (r = CRYPTO_OK \<longrightarrow> n + clen' \<le> b_len c)"
proof (cases "b_len c \<le> 36")
  case True
  then show ?thesis
    using assms wf_cipher_sizes(1)[of "cx_cipher ctx"] by (simp add: aead_chunk_decrypt_def)
next
  case False
  have tl: "c_tag_len (cx_cipher ctx) = 16" using ctx wf_cipher_sizes(1) by simp
  have r1: "buf_read 0 20 c = Inr (take 20 (payload c))"
    using buf_read_payload[OF c, of 0 20] False by simp
  have l1: "length (take 20 (payload c)) = 20" using False c by simp
  from cipher_decrypt_total[OF L ctx, of "take 20 (payload c)" "cx_nonce ctx" "cx_s_rx ctx"] l1 False c
  obtain err hdr where d1: "aead_cipher_decrypt L ctx (take 20 (payload c)) [] (cx_nonce ctx) (cx_s_rx ctx)
      = Inr (err, hdr)" "length hdr = 4"
    by (auto simp: msg_max_def)
  define mlen where "mlen = unat (load32_be hdr AND 0x3FFF)"
  define pad where "pad = (let pd = unat (drop_bit 16 (load32_be hdr) AND 0x7FFF) in if pd > CHUNK_PADDING_SIZE_LIMIT then 0 else pd)"
  define cl where "cl = 36 + pad + mlen"
  show ?thesis
  proof (cases "err \<noteq> 0 \<or> mlen = 0 \<or> b_len c < cl")
    case True
    then show ?thesis
      using False ctx p c
      by (simp add: aead_chunk_decrypt_def tl r1 d1 Let_def mlen_def[symmetric]
          pad_def[unfolded Let_def, symmetric] cl_def split del: if_split cong: if_cong)
        (auto split: if_splits)
  next
    case ok: False
    have cl: "cl \<le> b_len c" using ok by simp
    define b where "b = take (mlen + 16) (drop (20 + pad) (payload c))"
    have r2: "buf_read (20 + pad) (mlen + 16) c = Inr b" and l2: "length b = mlen + 16"
      using buf_read_payload[OF c, of "20 + pad" "mlen + 16"] cl c by (simp_all add: cl_def b_def)
    have "length b \<le> msg_max" using l2 cl bounds by (simp add: cl_def)
    from cipher_decrypt_total[OF L wf_increment_nonce[OF ctx] _ this,
        of "cx_nonce (increment_nonce ctx)" "cx_s_rx ctx"] l2
    obtain err2 m where d2: "aead_cipher_decrypt L (increment_nonce ctx) b [] (cx_nonce (increment_nonce ctx))
        (cx_s_rx ctx) = Inr (err2, m)" "length m = mlen"
      by auto
    obtain p' where w: "buf_write off m p = Inr p'" "wf_buffer p'" "b_capacity p' = b_capacity p"
      using write_ok[OF p, of off m] d2(2) bounds(2) cl by (auto simp: cl_def)
    have r3: "buf_read cl (b_len c - cl) c = Inr (drop cl (payload c))"
      using buf_read_payload[OF c, of cl "b_len c - cl"] cl c by simp
    obtain c' where w3: "buf_write 0 (drop cl (payload c)) c = Inr c'" "wf_buffer c'" "b_len c' = b_len c"
      using write_ok[OF c, of 0 "drop cl (payload c)"] c wf_buffer_def[of c] by fastforce
    have eq: "aead_chunk_decrypt L ctx off p c (b_len c) =
        (if err2 \<noteq> 0 then Inr (CRYPTO_ERROR, increment_nonce ctx, p', c, length m, b_len c)
         else Inr (CRYPTO_OK, increment_nonce (increment_nonce ctx), p',
           if b_len c > cl then c' else c, mlen, b_len c - cl))"
      using False ok r2 d2 w(1) r3 w3(1)
      by (simp add: aead_chunk_decrypt_def tl r1 d1 Let_def mlen_def[symmetric]
          pad_def[unfolded Let_def, symmetric] cl_def add.assoc split del: if_split cong: if_cong)
        (simp add: add.assoc)
    show ?thesis
      using ctx w w3 c cl by (auto simp: eq cl_def)
  qed
qed

section \<open>A call on a stream\<close>

lemma decrypt_loop_safe:
  assumes L: "mbedtls_ok L" and "wf_ctx ctx" "wf_buffer chunk" "wf_buffer tmp"
    and "b_len chunk \<le> msg_max" "plen + b_len chunk \<le> b_capacity tmp"
  shows "\<exists>r ctx' chunk' tmp' plen'. aead_decrypt_loop L ctx chunk tmp plen = Inr (r, ctx', chunk', tmp', plen') \<and>
    wf_ctx ctx' \<and> wf_buffer chunk' \<and> wf_buffer tmp' \<and> b_capacity tmp' = b_capacity tmp \<and>
    plen' \<le> b_capacity tmp"
  using assms(2-)
proof (induction "b_len chunk" arbitrary: ctx chunk tmp plen rule: less_induct)
  case less
  show ?case
  proof (cases "b_len chunk = 0")
    case True
    then show ?thesis using less.prems by (simp add: aead_decrypt_loop.simps[of L ctx chunk])
  next
    case False
    from chunk_decrypt_safe[OF L less.prems(1) less.prems(3) less.prems(2,4,5)]
    obtain r ctx' p' c' n cl where s: "aead_chunk_decrypt L ctx plen tmp chunk (b_len chunk) = Inr (r, ctx', p', c', n, cl)"
      "wf_ctx ctx'" "wf_buffer p'" "b_capacity p' = b_capacity tmp" "wf_buffer c'" "b_len c' = b_len chunk"
      "cl \<le> b_len chunk" "r = CRYPTO_OK \<longrightarrow> n + cl \<le> b_len chunk"
      by blast
    show ?thesis
    proof (cases r)
      case CRYPTO_OK
      have lt: "cl < b_len chunk" using aead_chunk_decrypt_progress s(1) CRYPTO_OK by blast
      have "wf_buffer (c'\<lparr>b_len := cl\<rparr>)" using s(5,6,7) by (simp add: wf_buffer_def)
      from less.hyps[of "c'\<lparr>b_len := cl\<rparr>" ctx' p' "plen + n", OF _ s(2) this s(3)] lt s less.prems(4,5) CRYPTO_OK
      show ?thesis using False by (simp add: aead_decrypt_loop.simps[of L ctx chunk])
    qed (use s False less.prems in \<open>simp_all add: aead_decrypt_loop.simps[of L ctx chunk]\<close>)
  qed
qed

lemma finish_decrypt_safe:
  assumes L: "mbedtls_ok L" and ctx: "wf_ctx ctx" and b: "wf_buffer chunk" "wf_buffer tmp" "wf_buffer ct"
    and n: "b_len chunk \<le> msg_max" "b_len chunk \<le> b_capacity tmp"
  shows "\<exists>r ct' ctx' tmp'. finish_decrypt L ct cap ctx chunk tmp = Inr (r, ct', ctx', tmp') \<and>
    wf_ctx ctx' \<and> wf_buffer ct' \<and> wf_buffer tmp'"
proof -
  from decrypt_loop_safe[OF L ctx b(1,2) n(1), of 0] n(2) obtain r ctx' c' t' pl where
    l: "aead_decrypt_loop L ctx chunk tmp 0 = Inr (r, ctx', c', t', pl)"
    and wf: "wf_ctx ctx'" "wf_buffer c'" "wf_buffer t'" "pl \<le> b_capacity t'"
    by auto
  have ctx': "wf_ctx (ctx'\<lparr>cx_chunk := Some c'\<rparr>)" using wf by (simp add: wf_ctx_def)
  have t: "wf_buffer (t'\<lparr>b_len := pl\<rparr>)" using wf by (simp add: wf_buffer_def)
  have rd: "buf_read 0 pl (t'\<lparr>b_len := pl\<rparr>) = Inr (take pl (b_data t'))"
    using wf by (simp add: buf_read_def)
  have "length (take pl (b_data t')) = pl" using wf by (simp add: wf_buffer_def)
  with write_ok[of "brealloc ct pl cap" 0 "take pl (b_data t')"] b(3) brealloc_capacity_ge(1)[of pl ct cap]
  obtain ct' where w: "buf_write 0 (take pl (b_data t')) (brealloc ct pl cap) = Inr ct'" "wf_buffer ct'"
    "b_capacity ct' = b_capacity (brealloc ct pl cap)"
    by auto
  have ct': "wf_buffer (ct'\<lparr>b_len := pl\<rparr>)"
    using w brealloc_capacity_ge(1)[of pl ct cap] by (simp add: wf_buffer_def)
  show ?thesis
    using l ctx' wf b(3) rd w t ct' by (cases "r = CRYPTO_OK") (simp_all add: finish_decrypt_def Let_def)
qed

lemma decrypt_safe:
  assumes L: "mbedtls_ok L" and ctx: "wf_ctx ctx" and b: "wf_buffer ct" "wf_buffer tmp"
    and n: "length (chunk_of ctx) + b_len ct \<le> msg_max"
  shows "\<exists>r ct' ctx' tmp'. aead_decrypt L P ct ctx cap tmp = Inr (r, ct', ctx', tmp') \<and>
    wf_ctx ctx' \<and> wf_buffer ct' \<and> wf_buffer tmp'"
proof -
  let ?r = "chunk_of ctx @ payload ct"
  have rl: "length ?r \<le> msg_max" using n b(1) by simp
  consider (wait) "cx_init ctx = 0" "length ?r \<le> hs_len ctx" | (first) "cx_init ctx = 0" "length ?r > hs_len ctx"
    | (more) "cx_init ctx \<noteq> 0" by linarith
  then show ?thesis
  proof cases
    case wait
    from decrypt_wait[OF ctx b wait, of L P cap] obtain c t where
      "aead_decrypt L P ct ctx cap tmp = Inr (CRYPTO_NEED_MORE, ct, ctx\<lparr>cx_chunk := Some c\<rparr>, t)"
      "wf_buffer c" "wf_buffer t"
      by blast
    then show ?thesis using ctx b by (simp add: wf_ctx_def)
  next
    case first
    let ?hs = "take (hs_len ctx) ?r" and ?rest = "drop (hs_len ctx) ?r"
    have hs: "?r = ?hs @ ?rest" "length ?hs = hs_len ctx" "?rest \<noteq> []"
      using first(2) by (simp_all del: drop_append take_append)
    from decrypt_open[OF L ctx b first(1) hs, of P cap] obtain c t where
      o: "aead_decrypt L P ct ctx cap tmp = finish_decrypt L ct cap (rx_open L P ctx ?hs) c t"
      "wf_buffer c" "payload c = ?rest" "wf_buffer t" "b_len c \<le> b_capacity t"
      by blast
    have "b_len c \<le> msg_max" using length_payload[OF o(2)] o(3) rl by (simp del: drop_append)
    from finish_decrypt_safe[OF L at_pos_wf(1)[OF rx_open_at_pos(1)[OF L ctx hs(2)]] o(2,4) b(1) this o(5)]
    show ?thesis unfolding o(1) .
  next
    case more
    from decrypt_more[OF ctx b more, of L P cap] obtain c t where
      o: "aead_decrypt L P ct ctx cap tmp
        = finish_decrypt L ct cap (if cx_init ctx = 1 then ctx\<lparr>cx_init := 2\<rparr> else ctx) c t"
      "wf_buffer c" "payload c = ?r" "wf_buffer t" "b_len c \<le> b_capacity t"
      by blast
    have m: "b_len c \<le> msg_max" using length_payload[OF o(2)] o(3) rl by simp
    have "wf_ctx (if cx_init ctx = 1 then ctx\<lparr>cx_init := 2\<rparr> else ctx)" using ctx by (simp add: wf_ctx_def)
    from finish_decrypt_safe[OF L this o(2,4) b(1) m o(5)] show ?thesis unfolding o(1) .
  qed
qed

section \<open>Properties\<close>

text \<open>
  C2. \<open>aead_decrypt\<close> on any input: for every context that satisfies the invariant and every
  content of the receive buffer, the call returns a result code (no access outside a buffer, no
  failed assertion, no exit), and the new context and buffers satisfy the invariant again.  The only
  bound is the 2 to the 36 bytes AES-GCM allows for one message.
\<close>

theorem aead_decrypt_any_input:
  assumes "mbedtls_ok L" and "wf_ctx ctx" and "wf_buffer ct" and "wf_buffer tmp"
    and "length (chunk_of ctx) + b_len ct \<le> msg_max"
  shows "\<exists>r ct' ctx' tmp'. aead_decrypt L P ct ctx cap tmp = Inr (r, ct', ctx', tmp') \<and>
    wf_ctx ctx' \<and> wf_buffer ct' \<and> wf_buffer tmp'"
  by (rule decrypt_safe[OF assms])

theorem aead_decrypt_any_input_witness:
  "\<exists>r ct' ctx' tmp'.
    aead_decrypt plain_mbedtls plain_kx (recv_buffer 2048 (replicate 500 255))
      (zero_ctx (chacha_cipher (replicate 32 2) (replicate 32 2))) 2048 null_buffer
      = Inr (r, ct', ctx', tmp') \<and> wf_ctx ctx' \<and> wf_buffer ct' \<and> wf_buffer tmp'"
  by (rule aead_decrypt_any_input)
    (simp_all add: chunk_of_def msg_max_def, simp add: recv_buffer_def)

end
