(* ===== verification/SS_Datagram.thy ===== *)
theory SS_Datagram
  imports SS_Safety
begin

text \<open>
  UDP datagrams: \<open>aead_encrypt_all\<close> and \<open>aead_decrypt_all\<close>.  A datagram is a public key
  (until the peer has it), a salt and one sealed message.  Shown here: encryption never fails and
  produces this format, decryption inverts it, and decryption of arbitrary bytes stays inside its
  buffers.
\<close>

definition datagram ::
    "mbedtls \<Rightarrow> cipher \<Rightarrow> byte list \<Rightarrow> byte list \<Rightarrow> byte list \<Rightarrow> byte list \<Rightarrow> byte list" where
  "datagram L cip pk key salt m = pk @ salt @ seal L cip (subkey L cip key salt) (nonce_at cip 0) m"

lemma keyed_at_0:
  assumes L: "mbedtls_ok L" and wf: "wf_ctx ctx" and kl: "length k = c_key_len (cx_cipher ctx)"
  shows "at_pos (keyed_ctx L ctx enc k)
      (if enc then cx_s_tx (keyed_ctx L ctx enc k) else cx_s_rx (keyed_ctx L ctx enc k)) k 0"
  using wf_keyed_ctx[OF wf kl, of L enc] keyed_keyed_ctx[OF wf kl, of L enc]
  by (simp add: at_pos_def) (simp add: keyed_ctx_def nonce_at_def write_at_def)

lemma usable_key:
  assumes L: "mbedtls_ok L" and cip: "wf_cipher cip" and kl: "length k = c_key_len cip"
  shows "usable L cip k"
proof -
  let ?ctx = "(zero_ctx cip)\<lparr>cx_evp := Some fresh_evp\<rparr>"
  have "wf_ctx ?ctx" using cip by (simp add: wf_ctx_def zero_ctx_def zero_kx_def wf_kx_def)
  from at_pos_usable[OF L keyed_at_0[OF L this, of k True]] kl show ?thesis
    by (simp add: zero_ctx_def)
qed

lemma ctx_init_enc:
  assumes L: "mbedtls_ok L" and cip: "wf_cipher cip" and kx: "wf_kx kx" and rb: "\<And>n. length (rb n) = n"
  shows "\<exists>ctx. aead_ctx_init L rb cip (Some kx) True = Inr ctx \<and> wf_ctx ctx \<and> cx_cipher ctx = cip \<and>
    cx_kx ctx = kx \<and> take (c_key_len cip) (cx_salt ctx) = rb (c_key_len cip)"
proof -
  from aead_ctx_init_wf[OF assms(1-3) rb, of True] obtain ctx where
    c: "aead_ctx_init L rb cip (Some kx) True = Inr ctx" "wf_ctx ctx" "cx_cipher ctx = cip" "cx_kx ctx = kx"
    by blast
  have "take (c_key_len cip) (cx_salt ctx) = rb (c_key_len cip)"
    using c(1) rb[of "c_key_len cip"]
    by (auto simp: aead_ctx_init_def Let_def bindE_Inr_iff write_at_def)
  with c show ?thesis by blast
qed

lemma write_at_pair:
  assumes "length a = la" "la + length b \<le> length xs"
  shows "write_at la b (write_at 0 a xs) = write_at 0 (a @ b) xs"
  using write_at_write_at[of 0 a xs b] assms by simp

lemma encrypt_all_datagram:
  assumes L: "mbedtls_ok L" and cip: "wf_cipher cip" and kx: "wf_kx kx" and rb: "\<And>n. length (rb n) = n"
    and b: "wf_buffer pt" "wf_buffer tmp" and n: "b_len pt \<le> msg_max"
  shows "\<exists>pt' tmp'. aead_encrypt_all L rb pt cip kx cap tmp
      = Inr (CRYPTO_OK, pt', (if pk_sent kx then kx else kx\<lparr>pk_sent := True\<rparr>), tmp') \<and>
    wf_buffer pt' \<and> wf_buffer tmp' \<and>
    payload pt' = datagram L cip (if pk_sent kx then [] else kx_pk kx) (kx_tx kx) (rb (c_key_len cip)) (payload pt)"
proof -
  from ctx_init_enc[OF assms(1-3) rb] obtain ctx where
    c: "aead_ctx_init L rb cip (Some kx) True = Inr ctx" "wf_ctx ctx" "cx_cipher ctx = cip" "cx_kx ctx = kx"
      "take (c_key_len cip) (cx_salt ctx) = rb (c_key_len cip)"
    by blast
  define salt where "salt = rb (c_key_len cip)"
  define pk where "pk = (if pk_sent kx then [] else kx_pk kx)"
  define k where "k = subkey L cip (kx_tx kx) salt"
  define body where "body = seal L cip k (nonce_at cip 0) (payload pt)"
  define t0 where "t0 = (brealloc tmp (length pk + c_key_len cip + 16 + b_len pt) cap)\<lparr>b_len := 16 + b_len pt\<rparr>"
  have sl: "length salt = c_key_len cip" by (simp add: salt_def rb)
  have pkl: "length pk = (if pk_sent kx then 0 else KXBYTES)" using kx by (simp add: pk_def wf_kx_def)
  have key: "aead_cipher_ctx_set_key L ctx True = Inr (keyed_ctx L ctx True k)"
    using set_key_ok[OF L c(2), of True] c by (simp add: k_def salt_def)
  have pos: "at_pos (keyed_ctx L ctx True k) (cx_s_tx (keyed_ctx L ctx True k)) k 0"
    using keyed_at_0[OF L c(2), of k True] length_subkey[OF L cip] c(3) by (simp add: k_def)
  have pl: "length (payload pt) \<le> msg_max" using n b(1) by simp
  note enc = at_pos_seal[OF L pos pl, unfolded keyed_ctx_simps c(3), folded body_def]
  have bl: "length body = 16 + b_len pt" using enc(2) b(1) by simp
  have rd: "buf_read 0 (b_len pt) pt = Inr (payload pt)"
    using buf_read_payload[OF b(1), of 0 "b_len pt"] b(1) by simp
  have t0: "length (b_data t0) = b_capacity t0" "length pk + c_key_len cip + 16 + b_len pt \<le> b_capacity t0"
    "wf_buffer t0" "b_len t0 = 16 + b_len pt"
    using wf_brealloc[OF b(2), of "length pk + c_key_len cip + 16 + b_len pt" cap]
      brealloc_capacity_ge(1)[of "length pk + c_key_len cip + 16 + b_len pt" tmp cap]
    by (simp_all add: t0_def wf_buffer_def)
  define t1 where "t1 = t0\<lparr>b_data := write_at 0 pk (b_data t0)\<rparr>"
  define t2 where "t2 = t0\<lparr>b_data := write_at 0 (pk @ salt) (b_data t0)\<rparr>"
  define t3 where "t3 = t0\<lparr>b_data := write_at 0 (pk @ salt @ body) (b_data t0)\<rparr>"
  have w1: "(if length pk \<noteq> 0 then bindE (buf_write 0 (take (length pk) (kx_pk kx)) t0) (\<lambda>tmp. Inr (tmp, kx\<lparr>pk_sent := True\<rparr>))
      else Inr (t0, kx)) = Inr (t1, if pk_sent kx then kx else kx\<lparr>pk_sent := True\<rparr>)"
    using t0(2) kx pkl by (auto simp: buf_write_def t1_def pk_def wf_kx_def write_at_def)
  have w2: "buf_write (length pk) salt t1 = Inr t2"
    using t0 sl write_at_pair[of pk "length pk" salt "b_data t0"] by (simp add: buf_write_def t1_def t2_def)
  have w3: "buf_write (length pk + c_key_len cip) body t2 = Inr t3"
    using t0 sl bl write_at_pair[of "pk @ salt" "length pk + c_key_len cip" body "b_data t0"]
    by (simp add: buf_write_def t2_def t3_def)
  let ?n = "length pk + c_key_len cip + (16 + b_len pt)"
  define p1 where "p1 = brealloc pt ?n cap"
  define dg where "dg = pk @ salt @ body"
  have dl: "length dg = ?n" using sl bl by (simp add: dg_def)
  have w4: "buf_read 0 ?n t3 = Inr dg"
    using t0 dl take_write_at_0[of dg "b_data t0"] by (simp add: buf_read_def t3_def dg_def[symmetric])
  have p1: "length (b_data p1) = b_capacity p1" "?n \<le> b_capacity p1"
    using wf_brealloc[OF b(1), of ?n cap] brealloc_capacity_ge(1)[of ?n pt cap]
    by (simp_all add: p1_def wf_buffer_def)
  have w5: "buf_write 0 dg p1 = Inr (p1\<lparr>b_data := write_at 0 dg (b_data p1)\<rparr>)"
    using p1 dl by (simp add: buf_write_def)
  have res: "aead_encrypt_all L rb pt cip kx cap tmp = Inr (CRYPTO_OK,
      p1\<lparr>b_data := write_at 0 dg (b_data p1), b_len := ?n\<rparr>, (if pk_sent kx then kx else kx\<lparr>pk_sent := True\<rparr>), t3)"
  proof -
    have plm: "(if \<not> pk_sent kx then KXBYTES else 0) = length pk" using pkl by simp
    have t3: "b_len t3 = 16 + b_len pt" using t0(4) by (simp add: t3_def)
    show ?thesis
      unfolding aead_encrypt_all_def c(1) bindE_simps Let_def plm wf_cipher_sizes(1)[OF cip]
        t0_def[symmetric] w1 prod.case c(5) salt_def[symmetric] w2 key rd enc(1)
      using w3 w4 w5 bl t3
      by (simp add: p1_def[symmetric])
  qed
  have "payload (p1\<lparr>b_data := write_at 0 dg (b_data p1), b_len := ?n\<rparr>) = dg"
    using take_write_at_0[of dg "b_data p1"] p1 dl by (simp add: payload_def)
  moreover have "wf_buffer (p1\<lparr>b_data := write_at 0 dg (b_data p1), b_len := ?n\<rparr>)" "wf_buffer t3"
    using p1 dl t0 by (simp_all add: wf_buffer_def t3_def dg_def[symmetric])
  ultimately show ?thesis
    using res by (simp add: datagram_def dg_def pk_def[symmetric] salt_def[symmetric] k_def[symmetric] body_def)
qed

section \<open>Decryption\<close>

definition rx_len :: "kx_ctx \<Rightarrow> nat" where
  "rx_len kx = (if rpk_received kx then 0 else KXBYTES)"

definition udp_kx :: "kx_prims \<Rightarrow> kx_ctx \<Rightarrow> byte list \<Rightarrow> kx_ctx" where
  "udp_kx P kx rpk =
     (if rpk_received kx then kx else (fst (crypto_kx_ctx_init P [] kx False rpk))\<lparr>rpk_received := True\<rparr>)"

lemma crypto_kx_ctx_init_take: "crypto_kx_ctx_init P rnd kx l (take KXBYTES rpk) = crypto_kx_ctx_init P rnd kx l rpk"
  by (simp add: crypto_kx_ctx_init_def)

lemma wf_udp_kx [wf_intros]: "wf_kx kx \<Longrightarrow> wf_kx (udp_kx P kx rpk)"
  using wf_crypto_kx_ctx_init[of kx P "[]" rpk] by (simp add: udp_kx_def wf_kx_def)

lemma decrypt_all_short:
  assumes "b_len ct \<le> rx_len kx + c_key_len cip + c_tag_len cip"
  shows "aead_decrypt_all L P ct cip kx cap tmp = Inr (CRYPTO_ERROR, ct, kx, tmp)"
  using assms by (cases "rpk_received kx") (simp_all add: aead_decrypt_all_def rx_len_def)

lemma decrypt_all_eq:
  fixes P :: kx_prims
  assumes L: "mbedtls_ok L" and cip: "wf_cipher cip" and kx: "wf_kx kx"
    and b: "wf_buffer ct" "wf_buffer tmp" "b_len ct \<le> msg_max"
    and long: "b_len ct > rx_len kx + c_key_len cip + 16"
  defines "salt \<equiv> take (c_key_len cip) (drop (rx_len kx) (payload ct))"
    and "kx' \<equiv> udp_kx P kx (payload ct)"
  defines "k \<equiv> subkey L cip (kx_rx kx') salt"
    and "sealed \<equiv> drop (rx_len kx + c_key_len cip) (payload ct)"
  shows "\<exists>ctx err m ct' tmp'. at_pos ctx (cx_s_rx ctx) k 0 \<and> cx_cipher ctx = cip \<and>
    aead_cipher_decrypt L ctx sealed [] (cx_nonce ctx) (cx_s_rx ctx) = Inr (err, m) \<and>
    aead_decrypt_all L P ct cip kx cap tmp
      = (if err \<noteq> 0 then Inr (CRYPTO_ERROR, ct, kx', tmp') else Inr (CRYPTO_OK, ct', kx', tmp')) \<and>
    wf_buffer ct' \<and> wf_buffer tmp' \<and> payload ct' = m"
proof -
  let ?rl = "rx_len kx" and ?kl = "c_key_len cip"
  have tl: "c_tag_len cip = 16" using wf_cipher_sizes(1)[OF cip] .
  have lp: "length (payload ct) = b_len ct" using b(1) by simp
  have k1: "(if \<not> rpk_received kx then bindE (buf_read 0 KXBYTES ct) (\<lambda>rpk.
        Inr ((fst (crypto_kx_ctx_init P [] kx False rpk))\<lparr>rpk_received := True\<rparr>)) else Inr kx) = Inr kx'"
    using buf_read_payload[OF b(1), of 0 KXBYTES] long
    by (auto simp: rx_len_def kx'_def udp_kx_def crypto_kx_ctx_init_take)
  have wk: "wf_kx kx'" using kx by (simp add: kx'_def wf_udp_kx)
  have "\<exists>ctx. aead_ctx_init L (\<lambda>_. []) cip (Some kx') False = Inr ctx \<and> wf_ctx ctx \<and> cx_cipher ctx = cip \<and> cx_kx ctx = kx'"
    using aead_ctx_init_wf[OF L cip wk, of "\<lambda>n. replicate n 0" False] by (auto simp: aead_ctx_init_def)
  then obtain ctx where c: "aead_ctx_init L (\<lambda>_. []) cip (Some kx') False = Inr ctx" "wf_ctx ctx"
    "cx_cipher ctx = cip" "cx_kx ctx = kx'" by blast
  have sl: "length salt = ?kl" using long lp by (simp add: salt_def)
  define ctx2 where "ctx2 = ctx\<lparr>cx_salt := write_at 0 salt (cx_salt ctx)\<rparr>"
  have wf2: "wf_ctx ctx2" "take ?kl (cx_salt ctx2) = salt" "cx_cipher ctx2 = cip" "cx_kx ctx2 = kx'"
    using c sl wf_cipher_sizes(3)[OF cip] by (simp_all add: ctx2_def wf_ctx_def write_at_def)
  define ctx3 where "ctx3 = keyed_ctx L ctx2 False k"
  have key: "aead_cipher_ctx_set_key L ctx2 False = Inr ctx3"
    using set_key_ok[OF L wf2(1), of False] wf2 by (simp add: k_def ctx3_def)
  have pos: "at_pos ctx3 (cx_s_rx ctx3) k 0"
    using keyed_at_0[OF L wf2(1), of k False] length_subkey[OF L cip] wf2(3) by (simp add: k_def ctx3_def)
  have c3: "cx_cipher ctx3 = cip" "wf_ctx ctx3" using wf2 at_pos_wf(1)[OF pos] by (simp_all add: ctx3_def)
  have sel: "length sealed = b_len ct - ?rl - ?kl" "16 < length sealed" "length sealed \<le> msg_max"
    using long lp b(3) by (simp_all add: sealed_def)
  from cipher_decrypt_total[OF L c3(2), of sealed "cx_nonce ctx3" "cx_s_rx ctx3"] sel
  obtain err m where d: "aead_cipher_decrypt L ctx3 sealed [] (cx_nonce ctx3) (cx_s_rx ctx3) = Inr (err, m)"
    "length m = length sealed - 16"
    by auto
  define pl where "pl = b_len ct - ?rl - ?kl - 16"
  have ml: "length m = pl" "pl \<le> b_len ct" using d(2) sel(1) by (simp_all add: pl_def)
  define t0 where "t0 = (brealloc tmp (b_len ct) cap)\<lparr>b_len := pl\<rparr>"
  have t0: "length (b_data t0) = b_capacity t0" "b_len ct \<le> b_capacity t0" "b_len t0 = pl"
    using wf_brealloc[OF b(2), of "b_len ct" cap] brealloc_capacity_ge(1)[of "b_len ct" tmp cap]
    by (simp_all add: t0_def wf_buffer_def)
  define t1 where "t1 = t0\<lparr>b_data := write_at 0 m (b_data t0)\<rparr>"
  define c0 where "c0 = brealloc ct pl cap"
  have c0: "length (b_data c0) = b_capacity c0" "pl \<le> b_capacity c0"
    using wf_brealloc[OF b(1), of pl cap] brealloc_capacity_ge(1)[of pl ct cap] by (simp_all add: c0_def wf_buffer_def)
  define c1 where "c1 = c0\<lparr>b_data := write_at 0 m (b_data c0), b_len := pl\<rparr>"
  have rd: "buf_read ?rl ?kl ct = Inr salt" "buf_read (?rl + ?kl) (b_len ct - ?rl - ?kl) ct = Inr sealed"
    using buf_read_payload[OF b(1)] long lp by (simp_all add: salt_def sealed_def)
  have w: "buf_write 0 m t0 = Inr t1" "buf_read 0 pl t1 = Inr m"
    "buf_write 0 m c0 = Inr (c0\<lparr>b_data := write_at 0 m (b_data c0)\<rparr>)" "b_len t1 = pl"
    using t0 c0 ml take_write_at_0[of m "b_data t0"] by (simp_all add: buf_write_def buf_read_def t1_def)
  have "aead_decrypt_all L P ct cip kx cap tmp
      = (if err \<noteq> 0 then Inr (CRYPTO_ERROR, ct, kx', t1) else Inr (CRYPTO_OK, c1, kx', t1))"
  proof -
    have rl: "(if \<not> rpk_received kx then KXBYTES else 0) = ?rl" by (simp add: rx_len_def)
    show ?thesis
      unfolding aead_decrypt_all_def Let_def rl tl k1 bindE_simps c(1) rd ctx2_def[symmetric] key d(1)
        prod.case pl_def[symmetric] t0_def[symmetric] w
      using long w by (simp add: c0_def[symmetric] c1_def)
  qed
  moreover have "wf_buffer c1" "wf_buffer t1" "payload c1 = m"
    using c0 t0 ml take_write_at_0[of m "b_data c0"]
    by (simp_all add: c1_def t1_def wf_buffer_def payload_def)
  ultimately show ?thesis using pos c3(1) d(1) by blast
qed

lemma decrypt_all_safe:
  assumes "mbedtls_ok L" "wf_cipher cip" "wf_kx kx" "wf_buffer ct" "wf_buffer tmp" "b_len ct \<le> msg_max"
  shows "\<exists>r ct' kx' tmp'. aead_decrypt_all L P ct cip kx cap tmp = Inr (r, ct', kx', tmp') \<and>
    r \<in> {CRYPTO_OK, CRYPTO_ERROR} \<and> wf_buffer ct' \<and> wf_kx kx' \<and> wf_buffer tmp'"
proof (cases "b_len ct > rx_len kx + c_key_len cip + 16")
  case True
  from decrypt_all_eq[OF assms True, of P cap] show ?thesis
    using assms(3,4) wf_udp_kx[of kx P] by (metis insert_iff)
next
  case False
  then show ?thesis
    using decrypt_all_short[of ct kx cip L P cap tmp] wf_cipher_sizes(1)[OF assms(2)] assms by auto
qed

lemma decrypt_all_datagram:
  assumes L: "mbedtls_ok L" and cip: "wf_cipher cip" and kx: "wf_kx kx"
    and b: "wf_buffer ct" "wf_buffer tmp" "b_len ct \<le> msg_max"
    and pk: "length pk = rx_len kx" and salt: "length salt = c_key_len cip" and m: "m \<noteq> []" and ml: "length m \<le> msg_max"
    and dg: "payload ct = datagram L cip pk (kx_rx (udp_kx P kx pk)) salt m"
  shows "\<exists>ct' tmp'. aead_decrypt_all L P ct cip kx cap tmp = Inr (CRYPTO_OK, ct', udp_kx P kx pk, tmp') \<and>
    wf_buffer ct' \<and> wf_buffer tmp' \<and> payload ct' = m"
proof -
  let ?k = "subkey L cip (kx_rx (udp_kx P kx pk)) salt"
  let ?s = "seal L cip ?k (nonce_at cip 0) m"
  have ku: "udp_kx P kx (payload ct) = udp_kx P kx pk"
  proof (cases "rpk_received kx")
    case False
    then have "take KXBYTES (payload ct) = pk" using pk by (simp add: dg datagram_def rx_len_def)
    then show ?thesis by (metis crypto_kx_ctx_init_take udp_kx_def)
  qed (simp add: udp_kx_def)
  have us: "usable L cip ?k" by (rule usable_key[OF L cip length_subkey[OF L cip]])
  have sl: "length ?s + length salt + length pk = b_len ct"
    using length_payload[OF b(1)] by (simp add: dg datagram_def)
  have lm: "length ?s = length m + 16" using us ml by (simp add: usable_def)
  have long: "b_len ct > rx_len kx + c_key_len cip + 16"
    using sl lm pk salt m by (cases m) simp_all
  have parts: "take (c_key_len cip) (drop (rx_len kx) (payload ct)) = salt"
    "drop (rx_len kx + c_key_len cip) (payload ct) = ?s"
    using pk salt by (simp_all add: dg datagram_def)
  from decrypt_all_eq[OF L cip kx b long, of P cap, unfolded parts ku]
  obtain ctx err m' ct' tmp' where d: "at_pos ctx (cx_s_rx ctx) ?k 0" "cx_cipher ctx = cip"
    "aead_cipher_decrypt L ctx ?s [] (cx_nonce ctx) (cx_s_rx ctx) = Inr (err, m')"
    "aead_decrypt_all L P ct cip kx cap tmp
      = (if err \<noteq> 0 then Inr (CRYPTO_ERROR, ct, udp_kx P kx pk, tmp') else Inr (CRYPTO_OK, ct', udp_kx P kx pk, tmp'))"
    "wf_buffer ct'" "wf_buffer tmp'" "payload ct' = m'"
    by blast
  from at_pos_seal(3)[OF L d(1) ml] d show ?thesis by simp
qed

section \<open>Properties\<close>

text \<open>
  C26. A UDP datagram survives the trip: \<open>aead_encrypt_all\<close> on one side, \<open>aead_decrypt_all\<close> on
  the other, with matching key exchange states, give back the datagram.  This covers the first
  datagram, which carries the public key (\<open>pk_sent\<close> and \<open>rpk_received\<close> clear), and the later ones.
\<close>

theorem datagram_roundtrip:
  assumes "mbedtls_ok L" and "wf_cipher cipe" and "wf_cipher cipd" and "c_method cipe = c_method cipd"
    and "wf_kx kxe" and "wf_kx kxd" and "\<And>n. length (rb n) = n"
    and "rpk_received kxd = pk_sent kxe"
    and "kx_rx (udp_kx P kxd (if pk_sent kxe then [] else kx_pk kxe)) = kx_tx kxe"
    and "wf_buffer pt" and "0 < b_len pt" and "b_len pt \<le> msg_max - 80"
    and "wf_buffer tmp" and "wf_buffer tmp2"
  shows "\<exists>ct kxe' t1 pt' kxd' t2. aead_encrypt_all L rb pt cipe kxe cap tmp = Inr (CRYPTO_OK, ct, kxe', t1) \<and>
    aead_decrypt_all L P ct cipd kxd cap2 tmp2 = Inr (CRYPTO_OK, pt', kxd', t2) \<and>
    payload pt' = payload pt \<and> pk_sent kxe' \<and> rpk_received kxd'"
proof -
  let ?pk = "if pk_sent kxe then [] else kx_pk kxe" and ?salt = "rb (c_key_len cipe)"
  have n: "b_len pt \<le> msg_max" using assms(12) by simp
  from encrypt_all_datagram[OF assms(1,2,5,7,10,13) n, of cap] obtain ct t1 where
    e: "aead_encrypt_all L rb pt cipe kxe cap tmp
      = Inr (CRYPTO_OK, ct, (if pk_sent kxe then kxe else kxe\<lparr>pk_sent := True\<rparr>), t1)" "wf_buffer ct"
      "payload ct = datagram L cipe ?pk (kx_tx kxe) ?salt (payload pt)"
    by blast
  have same: "datagram L cipe ?pk (kx_tx kxe) ?salt m = datagram L cipd ?pk (kx_tx kxe) ?salt m" for m
    using wire_method(2)[OF assms(2-4), of L "kx_tx kxe" ?salt] wf_cipher_method(2)[OF assms(2-4)] assms(4)
    by (simp add: datagram_def seal_def nonce_at_def)
  have pkl: "length ?pk = rx_len kxd" using assms(5,8) by (simp add: rx_len_def wf_kx_def)
  have sl: "length ?salt = c_key_len cipd" using assms(7) wf_cipher_method(1)[OF assms(2-4)] by simp
  have pl: "payload pt \<noteq> []" "length (payload pt) \<le> msg_max"
    using assms(10,11) n length_payload[OF assms(10)] by (auto simp del: length_payload)
  have us: "length (seal L cipe (subkey L cipe (kx_tx kxe) ?salt) (nonce_at cipe 0) (payload pt)) = b_len pt + 16"
    using usable_key[OF assms(1,2) length_subkey[OF assms(1,2)]] pl(2) assms(10)
    by (simp add: usable_def)
  have "b_len ct = length ?pk + length ?salt + (b_len pt + 16)"
    using length_payload[OF e(2)] us by (simp add: e(3) datagram_def)
  moreover have "length ?pk \<le> 32" "length ?salt \<le> 32"
    using assms(5,7) wf_cipher_sizes(3)[OF assms(2)] by (simp_all add: wf_kx_def)
  ultimately have "b_len ct \<le> msg_max" using assms(12) by (simp add: msg_max_def)
  from decrypt_all_datagram[OF assms(1,3,6) e(2) assms(14) this pkl sl pl(1) pl(2), of P cap2]
    e(3) assms(9) same
  obtain pt' t2 where "aead_decrypt_all L P ct cipd kxd cap2 tmp2 = Inr (CRYPTO_OK, pt', udp_kx P kxd ?pk, t2)"
    "payload pt' = payload pt"
    by auto
  with e show ?thesis by (auto simp: udp_kx_def)
qed

theorem datagram_roundtrip_witness:
  "\<exists>ct kxe' t1 pt' kxd' t2.
    aead_encrypt_all plain_mbedtls (\<lambda>n. replicate n 5) (recv_buffer 2048 [1, 2, 3])
      (chacha_cipher (replicate 32 2) (replicate 32 2))
      (zero_kx\<lparr>kx_pk := replicate 32 1, kx_tx := replicate 32 1\<rparr>) 2048 null_buffer
      = Inr (CRYPTO_OK, ct, kxe', t1) \<and>
    aead_decrypt_all plain_mbedtls plain_kx ct
      (chacha_cipher (replicate 32 2) (replicate 32 2)) zero_kx 2048 null_buffer
      = Inr (CRYPTO_OK, pt', kxd', t2) \<and>
    payload pt' = payload (recv_buffer 2048 [1, 2, 3]) \<and> pk_sent kxe' \<and> rpk_received kxd'"
proof (rule datagram_roundtrip)
  let ?kx = "zero_kx\<lparr>kx_pk := replicate 32 1, kx_tx := replicate 32 1\<rparr>"
  show "kx_rx (udp_kx plain_kx zero_kx (if pk_sent ?kx then [] else kx_pk ?kx)) = kx_tx ?kx"
    by (simp add: udp_kx_def zero_kx_def crypto_kx_ctx_init_def crypto_kx_server_session_keys_def
        set_session_keys_def Let_def plain_kx_def)
qed (simp_all add: wf_kx_def zero_kx_def, simp_all add: recv_buffer_def msg_max_def)

text \<open>
  \<open>aead_decrypt_all\<close> on any datagram: it returns \<open>CRYPTO_OK\<close> or \<open>CRYPTO_ERROR\<close>, stays
  inside its buffers and keeps the invariants.
\<close>

theorem aead_decrypt_all_any_input:
  assumes "mbedtls_ok L" and "wf_cipher cip" and "wf_kx kx" and "wf_buffer ct" and "wf_buffer tmp"
    and "b_len ct \<le> msg_max"
  shows "\<exists>r ct' kx' tmp'. aead_decrypt_all L P ct cip kx cap tmp = Inr (r, ct', kx', tmp') \<and>
    r \<in> {CRYPTO_OK, CRYPTO_ERROR} \<and> wf_buffer ct' \<and> wf_kx kx' \<and> wf_buffer tmp'"
  by (rule decrypt_all_safe[OF assms])

theorem aead_decrypt_all_any_input_witness:
  "\<exists>r ct' kx' tmp'.
    aead_decrypt_all plain_mbedtls plain_kx (recv_buffer 2048 (replicate 500 255))
      (chacha_cipher (replicate 32 2) (replicate 32 2)) zero_kx 2048 null_buffer = Inr (r, ct', kx', tmp') \<and>
    r \<in> {CRYPTO_OK, CRYPTO_ERROR} \<and> wf_buffer ct' \<and> wf_kx kx' \<and> wf_buffer tmp'"
  by (rule aead_decrypt_all_any_input)
    (simp_all add: msg_max_def wf_kx_def zero_kx_def, simp add: recv_buffer_def)

end
