(* ===== verification/Salsa20.thy ===== *)
theory Salsa20
  imports ChaCha20 Sodium_Util
begin

text \<open>
  The Salsa20 stream cipher of libsodium: \<^verbatim>\<open>crypto_core/salsa/ref/core_salsa_ref.c\<close> and
  \<^verbatim>\<open>crypto_stream/salsa20/ref/salsa20_ref.c\<close>.  The state is the list of the sixteen words
  \<open>x0, ..., x15\<close>; each assignment of the round is one step \<open>salsa_op\<close>.
\<close>

section \<open>The core\<close>

definition salsa_op :: "nat \<Rightarrow> nat \<Rightarrow> nat \<Rightarrow> nat \<Rightarrow> u32 list \<Rightarrow> u32 list" where
  "salsa_op a b c r x = x[a := x ! a XOR rotl32 (x ! b + x ! c) r]"

definition salsa_ops :: "(nat \<times> nat \<times> nat \<times> nat) list" where
  "salsa_ops =
     [(4, 0, 12, 7), (8, 4, 0, 9), (12, 8, 4, 13), (0, 12, 8, 18),
      (9, 5, 1, 7), (13, 9, 5, 9), (1, 13, 9, 13), (5, 1, 13, 18),
      (14, 10, 6, 7), (2, 14, 10, 9), (6, 2, 14, 13), (10, 6, 2, 18),
      (3, 15, 11, 7), (7, 3, 15, 9), (11, 7, 3, 13), (15, 11, 7, 18),
      (1, 0, 3, 7), (2, 1, 0, 9), (3, 2, 1, 13), (0, 3, 2, 18),
      (6, 5, 4, 7), (7, 6, 5, 9), (4, 7, 6, 13), (5, 4, 7, 18),
      (11, 10, 9, 7), (8, 11, 10, 9), (9, 8, 11, 13), (10, 9, 8, 18),
      (12, 15, 14, 7), (13, 12, 15, 9), (14, 13, 12, 13), (15, 14, 13, 18)]"

definition salsa_double_round :: "u32 list \<Rightarrow> u32 list" where
  "salsa_double_round x = fold (\<lambda>(a, b, c, r). salsa_op a b c r) salsa_ops x"

fun salsa_rounds :: "nat \<Rightarrow> u32 list \<Rightarrow> u32 list" where
  "salsa_rounds 0 x = x"
| "salsa_rounds (Suc n) x = salsa_rounds n (salsa_double_round x)"

definition salsa_state :: "byte list \<Rightarrow> byte list \<Rightarrow> byte list option \<Rightarrow> u32 list" where
  "salsa_state inp k c =
     (let cs = (case c of None \<Rightarrow> chacha_constants | Some c \<Rightarrow> load_words 4 c);
          k = load_words 8 k; i = load_words 4 inp
      in [cs ! 0, k ! 0, k ! 1, k ! 2, k ! 3, cs ! 1, i ! 0, i ! 1, i ! 2, i ! 3, cs ! 2,
          k ! 4, k ! 5, k ! 6, k ! 7, cs ! 3])"

definition crypto_core_salsa :: "byte list \<Rightarrow> byte list \<Rightarrow> byte list option \<Rightarrow> nat \<Rightarrow> byte list" where
  "crypto_core_salsa inp k c n =
     (let j = salsa_state inp k c in store_words (map2 (+) (salsa_rounds (n div 2) j) j))"

definition crypto_core_salsa20 :: "byte list \<Rightarrow> byte list \<Rightarrow> byte list option \<Rightarrow> byte list" where
  "crypto_core_salsa20 inp k c = crypto_core_salsa inp k c 20"

section \<open>The stream\<close>

definition salsa_bump :: "byte list \<Rightarrow> byte list" where
  "salsa_bump inp = take 8 inp @ carry_loop (1 :: u32) (drop 8 inp)"

function salsa_loop :: "byte list \<Rightarrow> byte list \<Rightarrow> byte list \<Rightarrow> byte list" where
  "salsa_loop inp kcopy m =
     (if length m \<ge> 64
      then xor_bytes (take 64 m) (crypto_core_salsa20 inp kcopy None)
             @ salsa_loop (salsa_bump inp) kcopy (drop 64 m)
      else if m \<noteq> [] then xor_bytes m (crypto_core_salsa20 inp kcopy None)
      else [])"
  by pat_completeness auto
termination
  by (relation "measure (\<lambda>(_, _, m). length m)") auto

declare salsa_loop.simps [simp del]

definition crypto_stream_salsa20_xor_ic :: "byte list \<Rightarrow> byte list \<Rightarrow> u64 \<Rightarrow> byte list \<Rightarrow> byte list" where
  "crypto_stream_salsa20_xor_ic m n ic k =
     (if m = [] then [] else salsa_loop (take 8 n @ store64_le ic) (take 32 k) m)"

section \<open>The loop is an exclusive or with a key stream\<close>

lemma length_salsa_double_round [simp]: "length (salsa_double_round x) = length x"
proof -
  have "length (fold (\<lambda>(a, b, c, r). salsa_op a b c r) ops x) = length x" for ops
    by (induction ops arbitrary: x) (auto simp: salsa_op_def)
  then show ?thesis by (simp add: salsa_double_round_def)
qed

lemma length_salsa_rounds [simp]: "length (salsa_rounds n x) = length x"
  by (induction n arbitrary: x) auto

lemma length_salsa_state [simp]: "length (salsa_state inp k c) = 16"
  by (simp add: salsa_state_def Let_def)

lemma length_crypto_core_salsa20 [simp, len_simps]: "length (crypto_core_salsa20 inp k c) = 64"
  by (simp add: crypto_core_salsa20_def crypto_core_salsa_def Let_def)

definition salsa20_stream :: "byte list \<Rightarrow> byte list \<Rightarrow> u64 \<Rightarrow> nat \<Rightarrow> byte list" where
  "salsa20_stream k n ic len =
     take len (concat (map (\<lambda>i. crypto_core_salsa20 (take 8 n @ store64_le (ic + of_nat i)) (take 32 k) None)
       [0..<len div 64 + 1]))"

fun le_digits :: "nat \<Rightarrow> nat \<Rightarrow> byte list" where
  "le_digits 0 x = []"
| "le_digits (Suc k) x = of_nat (x mod 256) # le_digits k (x div 256)"

lemma le_num_le_digits: "le_num (le_digits k x) = x mod 256 ^ k"
proof (induction k arbitrary: x)
  case (Suc k)
  have "unat (of_nat (x mod 256) :: byte) = x mod 256"
    by (simp add: unat_of_nat take_bit_eq_mod)
  with Suc show ?case by (simp add: mod_mult2_eq)
qed simp

lemma store64_le_digits: "store64_le w = le_digits 8 (unat w)"
proof -
  have d: "(of_nat (unat w div 2 ^ n mod 256) :: byte) = ucast (drop_bit n w)" for n
  proof -
    have "unat (drop_bit n w) = unat w div 2 ^ n"
      by (simp only: unat_drop_bit_eq) (simp add: drop_bit_eq_div)
    then show ?thesis
      by (simp add: word_unat_eq_iff unat_of_nat unsigned_ucast_eq take_bit_eq_mod)
  qed
  have e: "8 = Suc (Suc (Suc (Suc (Suc (Suc (Suc (Suc 0)))))))" by simp
  have "le_digits 8 x = [of_nat (x mod 256), of_nat (x div 2 ^ 8 mod 256), of_nat (x div 2 ^ 16 mod 256),
      of_nat (x div 2 ^ 24 mod 256), of_nat (x div 2 ^ 32 mod 256), of_nat (x div 2 ^ 40 mod 256),
      of_nat (x div 2 ^ 48 mod 256), of_nat (x div 2 ^ 56 mod 256)]" for x
    unfolding e le_digits.simps by (simp add: div_mult2_eq[symmetric])
  moreover have "(of_nat (unat w mod 256) :: byte) = ucast w" using d[of 0] by simp
  ultimately show ?thesis by (simp only: d store64_le_def)
qed

lemma le_num_store64_le [simp]: "le_num (store64_le w) = unat w"
  using unsigned_less[of w, where ?'a = nat] by (simp add: store64_le_digits le_num_le_digits)

lemma salsa_bump_counter:
  assumes "length n = 8"
  shows "salsa_bump (n @ store64_le ic) = n @ store64_le (ic + 1)"
proof -
  have "le_num (carry_loop (1 :: u32) (store64_le ic)) = le_num (store64_le (ic + 1))"
    by (simp add: le_num_carry_loop unat_inc)
  then have "carry_loop (1 :: u32) (store64_le ic) = store64_le (ic + 1)"
    by (intro le_num_inj) simp_all
  with assms show ?thesis by (simp add: salsa_bump_def)
qed

lemma salsa20_stream_step:
  "salsa20_stream k n ic (64 + len)
     = crypto_core_salsa20 (take 8 n @ store64_le ic) (take 32 k) None @ salsa20_stream k n (ic + 1) len"
proof -
  have "[0..<(64 + len) div 64 + 1] = 0 # map Suc [0..<len div 64 + 1]"
    by (simp add: map_Suc_upt upt_conv_Cons div_add_self1 del: upt_Suc)
  then show ?thesis by (simp add: salsa20_stream_def comp_def add.assoc del: upt_Suc)
qed

lemma length_salsa20_stream [simp]: "length (salsa20_stream k n ic len) = len"
proof (induction len arbitrary: ic rule: less_induct)
  case (less len)
  show ?case
  proof (cases "len < 64")
    case True
    then show ?thesis by (simp add: salsa20_stream_def)
  next
    case False
    then have "salsa20_stream k n ic len = salsa20_stream k n ic (64 + (len - 64))" by simp
    then show ?thesis using less.IH[of "len - 64"] False by (simp only: salsa20_stream_step) simp
  qed
qed

lemma salsa20_stream_seek:
  "salsa20_stream k n ic (64 * b + len) = salsa20_stream k n ic (64 * b) @ salsa20_stream k n (ic + of_nat b) len"
proof (induction b arbitrary: ic)
  case 0
  have "salsa20_stream k n ic 0 = []" using length_salsa20_stream[of k n ic 0] by (simp only: length_0_conv)
  then show ?case by simp
next
  case (Suc b)
  then show ?case
    using salsa20_stream_step[of k n ic "64 * b + len"] salsa20_stream_step[of k n ic "64 * b"]
    by (simp add: add.assoc)
qed

lemma salsa_loop_stream:
  assumes "8 \<le> length n"
  shows "salsa_loop (take 8 n @ store64_le ic) (take 32 k) m = xor_bytes m (salsa20_stream k n ic (length m))"
proof (induction m arbitrary: ic rule: length_induct)
  case (1 m)
  let ?b = "crypto_core_salsa20 (take 8 n @ store64_le ic) (take 32 k) None"
  show ?case
  proof (cases "64 \<le> length m")
    case True
    have bump: "salsa_bump (take 8 n @ store64_le ic) = take 8 n @ store64_le (ic + 1)"
      using assms by (intro salsa_bump_counter) simp
    have IH: "salsa_loop (take 8 n @ store64_le (ic + 1)) (take 32 k) (drop 64 m)
        = xor_bytes (drop 64 m) (salsa20_stream k n (ic + 1) (length m - 64))"
      using 1 True by simp
    have "xor_bytes m (salsa20_stream k n ic (length m))
        = xor_bytes (take 64 m @ drop 64 m) (salsa20_stream k n ic (64 + (length m - 64)))"
      using True by simp
    also have "\<dots> = xor_bytes (take 64 m) ?b @ xor_bytes (drop 64 m) (salsa20_stream k n (ic + 1) (length m - 64))"
      unfolding salsa20_stream_step using True by (intro xor_bytes_append) simp
    finally show ?thesis
      using True by (simp add: salsa_loop.simps[of "take 8 n @ store64_le ic"] bump IH)
  next
    case False
    have "salsa20_stream k n ic (length m) = take (length m) ?b"
      using False by (simp add: salsa20_stream_def)
    then show ?thesis
      using False by (simp add: salsa_loop.simps[of "take 8 n @ store64_le ic"] xor_bytes_take_right)
  qed
qed

lemma crypto_stream_salsa20_xor_ic_eq:
  "8 \<le> length n \<Longrightarrow>
    crypto_stream_salsa20_xor_ic m n ic k = xor_bytes m (salsa20_stream k n ic (length m))"
  by (simp add: crypto_stream_salsa20_xor_ic_def salsa_loop_stream)

end
