(* ===== verification/SS_Stream.thy ===== *)
theory SS_Stream
  imports Salsa20 SS_Crypto
begin

text \<open>
  \<^verbatim>\<open>shadowsocks-libev/src/stream.c\<close>: the stream cipher packet layer, without authentication.
  Methods from \<open>SALSA20\<close> on run the libsodium ciphers, with a byte counter in the context and
  zero padding up to the block boundary; the others run \<^verbatim>\<open>mbedtls\<close>, the argument \<open>L\<close>.
\<close>

section \<open>Constants\<close>

abbreviation TABLE :: int where "TABLE \<equiv> 0"
abbreviation RC4 :: int where "RC4 \<equiv> 1"
abbreviation RC4_MD5 :: int where "RC4_MD5 \<equiv> 2"
abbreviation SALSA20 :: int where "SALSA20 \<equiv> 18"
abbreviation CHACHA20 :: int where "CHACHA20 \<equiv> 19"
abbreviation CHACHA20IETF :: int where "CHACHA20IETF \<equiv> 20"
abbreviation STREAM_CIPHER_NUM :: int where "STREAM_CIPHER_NUM \<equiv> 21"
abbreviation SODIUM_BLOCK_SIZE :: nat where "SODIUM_BLOCK_SIZE \<equiv> 64"

definition supported_stream_ciphers :: "string list" where
  "supported_stream_ciphers =
     [''table'', ''rc4'', ''rc4-md5'', ''aes-128-cfb'', ''aes-192-cfb'', ''aes-256-cfb'',
      ''aes-128-ctr'', ''aes-192-ctr'', ''aes-256-ctr'', ''bf-cfb'', ''camellia-128-cfb'',
      ''camellia-192-cfb'', ''camellia-256-cfb'', ''cast5-cfb'', ''des-cfb'', ''idea-cfb'',
      ''rc2-cfb'', ''seed-cfb'', ''salsa20'', ''chacha20'', ''chacha20-ietf'']"

definition supported_stream_ciphers_mbedtls :: "string list" where
  "supported_stream_ciphers_mbedtls =
     [''table'', ''ARC4-128'', ''ARC4-128'', ''AES-128-CFB128'', ''AES-192-CFB128'',
      ''AES-256-CFB128'', ''AES-128-CTR'', ''AES-192-CTR'', ''AES-256-CTR'', ''BLOWFISH-CFB64'',
      ''CAMELLIA-128-CFB128'', ''CAMELLIA-192-CFB128'', ''CAMELLIA-256-CFB128'', ''unsupported'',
      ''unsupported'', ''unsupported'', ''unsupported'', ''unsupported'', ''salsa20'', ''chacha20'',
      ''chacha20-ietf'']"

definition supported_stream_ciphers_nonce_size :: "nat list" where
  "supported_stream_ciphers_nonce_size =
     [0, 0, 16, 16, 16, 16, 16, 16, 16, 8, 16, 16, 16, 8, 8, 8, 8, 16, 8, 8, 12]"

definition supported_stream_ciphers_key_size :: "nat list" where
  "supported_stream_ciphers_key_size =
     [0, 16, 16, 16, 24, 32, 16, 24, 32, 16, 16, 24, 32, 16, 8, 16, 16, 16, 32, 32, 32]"

section \<open>The cipher calls\<close>

text \<open>For a method it does not know the function writes nothing and returns 0.\<close>

definition crypto_stream_xor_ic ::
    "byte list \<Rightarrow> byte list \<Rightarrow> u64 \<Rightarrow> byte list \<Rightarrow> int \<Rightarrow> byte list run" where
  "crypto_stream_xor_ic m n ic k method =
     (if method = SALSA20 then Inr (crypto_stream_salsa20_xor_ic m n ic k)
      else if method = CHACHA20 then crypto_stream_chacha20_xor_ic m (take 8 n) ic k
      else if method = CHACHA20IETF then crypto_stream_chacha20_ietf_xor_ic m (take 12 n) (ucast ic) k
      else Inr [])"

definition stream_get_cipher_type :: "mbedtls \<Rightarrow> int \<Rightarrow> nat option" where
  "stream_get_cipher_type L method =
     (if method \<le> TABLE \<or> method \<ge> STREAM_CIPHER_NUM then None
      else let method = (if method = RC4_MD5 then RC4 else method)
           in if method \<ge> SALSA20 then None
              else let mbedtlsname = supported_stream_ciphers_mbedtls ! nat method
                   in if mbedtlsname = ''unsupported'' then None
                      else cipher_info_from_string L mbedtlsname)"

definition stream_cipher_ctx_init :: "mbedtls \<Rightarrow> cipher_ctx \<Rightarrow> int \<Rightarrow> cipher_ctx run" where
  "stream_cipher_ctx_init L ctx method =
     (if method \<le> TABLE \<or> method \<ge> STREAM_CIPHER_NUM then Inr ctx
      else if method \<ge> SALSA20 then Inr ctx
      else if stream_get_cipher_type L method = None then Inl FatalExit
      else Inr (ctx\<lparr>cx_evp := Some fresh_evp\<rparr>))"

definition stream_ctx_release :: "cipher_ctx \<Rightarrow> cipher_ctx" where
  "stream_ctx_release ctx =
     (let ctx = ctx\<lparr>cx_chunk := None\<rparr>
      in if c_method (cx_cipher ctx) \<ge> SALSA20 then ctx else ctx\<lparr>cx_evp := None\<rparr>)"

definition crypto_md5 :: "mbedtls \<Rightarrow> byte list \<Rightarrow> byte list" where
  "crypto_md5 L d = md5_digest L d"

definition cipher_ctx_set_nonce ::
    "mbedtls \<Rightarrow> cipher_ctx \<Rightarrow> byte list \<Rightarrow> nat \<Rightarrow> bool \<Rightarrow> cipher_ctx run" where
  "cipher_ctx_set_nonce L ctx nonce nonce_len enc =
     (let cip = cx_cipher ctx
      in if c_method cip \<ge> SALSA20 then Inr ctx
         else
           let key = (if enc then kx_tx (cx_kx ctx) else kx_rx (cx_kx ctx));
               (true_key, nonce_len) =
                 (if c_method cip = RC4_MD5
                  then (crypto_md5 L (take 16 key @ take 16 nonce), 0)
                  else (key, nonce_len))
           in case cx_evp ctx of
                None \<Rightarrow> Inr ctx
              | Some evp \<Rightarrow>
                  if \<not> cipher_setkey L (take (c_key_len cip) true_key) then Inl FatalExit
                  else if \<not> cipher_set_iv L (take nonce_len nonce) then Inl FatalExit
                  else Inr (ctx\<lparr>cx_evp := Some (evp\<lparr>evp_enc := enc,
                         evp_key := take (c_key_len cip) true_key, evp_iv := take nonce_len nonce,
                         evp_in := []\<rparr>)\<rparr>))"

definition cipher_ctx_update :: "mbedtls \<Rightarrow> cipher_ctx \<Rightarrow> byte list \<Rightarrow> (int \<times> cipher_ctx \<times> byte list) run" where
  "cipher_ctx_update L ctx m =
     (case cx_evp ctx of
        None \<Rightarrow> Inl OutOfBounds
      | Some evp \<Rightarrow>
          (case cipher_stream L (c_method (cx_cipher ctx)) (evp_enc evp) (evp_key evp) (evp_iv evp)
                  (evp_in evp @ m) of
             None \<Rightarrow> Inr (-1, ctx, [])
           | Some out \<Rightarrow>
               Inr (0, ctx\<lparr>cx_evp := Some (evp\<lparr>evp_in := evp_in evp @ m\<rparr>)\<rparr>,
                    drop (length (evp_in evp)) out)))"

definition stream_ctx_init ::
    "mbedtls \<Rightarrow> (nat \<Rightarrow> byte list) \<Rightarrow> cipher \<Rightarrow> kx_ctx option \<Rightarrow> bool \<Rightarrow> cipher_ctx run" where
  "stream_ctx_init L rb cip kx enc =
     bindE (stream_cipher_ctx_init L (zero_ctx cip) (c_method cip)) (\<lambda>ctx.
       let ctx = ctx\<lparr>cx_cipher := cip\<rparr>;
           ctx = (case kx of None \<Rightarrow> ctx | Some k \<Rightarrow> ctx\<lparr>cx_kx := k\<rparr>)
       in Inr (if enc then ctx\<lparr>cx_nonce := write_at 0 (rb (c_nonce_len cip)) (cx_nonce ctx)\<rparr> else ctx))"

section \<open>Datagrams\<close>

definition stream_encrypt_all ::
    "mbedtls \<Rightarrow> (nat \<Rightarrow> byte list) \<Rightarrow> buffer \<Rightarrow> cipher \<Rightarrow> kx_ctx \<Rightarrow> nat \<Rightarrow> buffer
      \<Rightarrow> (crypto_ret \<times> buffer \<times> kx_ctx \<times> buffer) run" where
  "stream_encrypt_all L rb plaintext cip kx capacity tmp =
     bindE (stream_ctx_init L rb cip (Some kx) True) (\<lambda>ctx.
       let nonce_len = c_nonce_len cip;
           pk_len = (if \<not> pk_sent kx then KXBYTES else 0);
           tmp = (brealloc tmp (pk_len + nonce_len + b_len plaintext) capacity)\<lparr>b_len := b_len plaintext\<rparr>
       in bindE (cipher_ctx_set_nonce L ctx (cx_nonce ctx) nonce_len True) (\<lambda>ctx.
          bindE (if \<not> pk_sent kx
                 then bindE (buf_write 0 (take pk_len (kx_pk kx)) tmp) (\<lambda>tmp.
                        Inr (tmp, kx\<lparr>pk_sent := True\<rparr>))
                 else Inr (tmp, kx)) (\<lambda>(tmp, kx).
          bindE (buf_write pk_len (take nonce_len (cx_nonce ctx)) tmp) (\<lambda>tmp.
          bindE (buf_read 0 (b_len plaintext) plaintext) (\<lambda>m.
          bindE (if c_method cip \<ge> SALSA20
                 then bindE (crypto_stream_xor_ic m (cx_nonce ctx) 0 (kx_tx (cx_kx ctx)) (c_method cip))
                        (\<lambda>c. bindE (buf_write (pk_len + nonce_len) c tmp) (\<lambda>tmp. Inr (0, tmp)))
                 else bindE (cipher_ctx_update L ctx m) (\<lambda>(err, ctx, c).
                      bindE (buf_write (pk_len + nonce_len) c tmp) (\<lambda>tmp.
                        Inr (err, tmp\<lparr>b_len := length c\<rparr>)))) (\<lambda>(err, tmp).
            if err \<noteq> 0 then Inr (CRYPTO_ERROR, plaintext, kx, tmp)
            else let n = pk_len + nonce_len + b_len tmp;
                     plaintext = brealloc plaintext n capacity
                 in bindE (buf_read 0 n tmp) (\<lambda>bs.
                    bindE (buf_write 0 bs plaintext) (\<lambda>plaintext.
                      Inr (CRYPTO_OK, plaintext\<lparr>b_len := n\<rparr>, kx, tmp)))))))))"

definition stream_decrypt_all ::
    "mbedtls \<Rightarrow> buffer \<Rightarrow> cipher \<Rightarrow> kx_ctx \<Rightarrow> nat \<Rightarrow> buffer \<Rightarrow> (crypto_ret \<times> buffer \<times> buffer) run" where
  "stream_decrypt_all L ciphertext cip kx capacity tmp =
     (let nonce_len = c_nonce_len cip
      in if b_len ciphertext \<le> nonce_len then Inr (CRYPTO_ERROR, ciphertext, tmp)
         else
           bindE (stream_ctx_init L (\<lambda>_. []) cip (Some kx) False) (\<lambda>ctx.
             let tmp = (brealloc tmp (b_len ciphertext) capacity)\<lparr>b_len := b_len ciphertext - nonce_len\<rparr>
             in bindE (buf_read 0 nonce_len ciphertext) (\<lambda>nonce.
                let ctx = ctx\<lparr>cx_nonce := write_at 0 nonce (cx_nonce ctx)\<rparr>
                in bindE (cipher_ctx_set_nonce L ctx (cx_nonce ctx) nonce_len False) (\<lambda>ctx.
                   bindE (buf_read nonce_len (b_len ciphertext - nonce_len) ciphertext) (\<lambda>c.
                   bindE (if c_method cip \<ge> SALSA20
                          then bindE (crypto_stream_xor_ic c (cx_nonce ctx) 0 (kx_rx kx) (c_method cip))
                                 (\<lambda>m. bindE (buf_write 0 m tmp) (\<lambda>tmp. Inr (0, tmp)))
                          else bindE (cipher_ctx_update L ctx c) (\<lambda>(err, ctx, m).
                               bindE (buf_write 0 m tmp) (\<lambda>tmp. Inr (err, tmp\<lparr>b_len := length m\<rparr>))))
                     (\<lambda>(err, tmp).
                     if err \<noteq> 0 then Inr (CRYPTO_ERROR, ciphertext, tmp)
                     else let ciphertext = brealloc ciphertext (b_len tmp) capacity
                          in bindE (buf_read 0 (b_len tmp) tmp) (\<lambda>bs.
                             bindE (buf_write 0 bs ciphertext) (\<lambda>ciphertext.
                               Inr (CRYPTO_OK, ciphertext\<lparr>b_len := b_len tmp\<rparr>, tmp)))))))))"

section \<open>TCP streams\<close>

text \<open>
  \<open>c_rem\<close> is the remainder of C, with the sign of the dividend.  In \<open>stream_encrypt\<close> the
  counter is converted to \<open>int\<close> before the remainder is taken, so the padding can be negative; the
  \<open>memmove\<close> to \<open>plaintext->data + padding\<close> is then outside the allocation.
\<close>

definition c_rem :: "int \<Rightarrow> int \<Rightarrow> int" where
  "c_rem a b = sgn a * (\<bar>a\<bar> mod \<bar>b\<bar>)"

definition stream_encrypt_header ::
    "mbedtls \<Rightarrow> cipher_ctx \<Rightarrow> buffer \<Rightarrow> nat \<Rightarrow> nat \<Rightarrow> (buffer \<times> cipher_ctx) run" where
  "stream_encrypt_header L ctx tmp pk_len nonce_len =
     (if cx_init ctx = 0
      then
        bindE (if \<not> pk_sent (cx_kx ctx)
               then bindE (buf_write 0 (take pk_len (kx_pk (cx_kx ctx))) tmp) (\<lambda>tmp.
                      Inr (tmp, ctx\<lparr>cx_kx := (cx_kx ctx)\<lparr>pk_sent := True\<rparr>\<rparr>))
               else Inr (tmp, ctx)) (\<lambda>(tmp, ctx).
        bindE (cipher_ctx_set_nonce L ctx (cx_nonce ctx) nonce_len True) (\<lambda>ctx.
        bindE (buf_write pk_len (take nonce_len (cx_nonce ctx)) tmp) (\<lambda>tmp.
          Inr (tmp, ctx\<lparr>cx_counter := 0, cx_init := 1\<rparr>))))
      else Inr (tmp, ctx))"

definition pad_front :: "buffer \<Rightarrow> nat \<Rightarrow> nat \<Rightarrow> buffer run" where
  "pad_front b padding capacity =
     (if padding \<noteq> 0
      then
        let b = brealloc b (b_len b + padding) capacity
        in bindE (buf_read 0 (b_len b) b) (\<lambda>old.
           bindE (buf_write padding old b) (\<lambda>b. buf_write 0 (replicate padding 0) b))
      else Inr b)"

definition stream_encrypt_body ::
    "mbedtls \<Rightarrow> buffer \<Rightarrow> cipher_ctx \<Rightarrow> nat \<Rightarrow> buffer \<Rightarrow> nat
      \<Rightarrow> (int \<times> cipher_ctx \<times> buffer \<times> buffer) run" where
  "stream_encrypt_body L plaintext ctx capacity tmp off =
     (let len = b_len plaintext; method = c_method (cx_cipher ctx)
      in if method \<ge> SALSA20
         then
           let padding = c_rem (sint (ucast (cx_counter ctx) :: u32)) (int SODIUM_BLOCK_SIZE)
           in if padding < 0 then Inl OutOfBounds
              else
              let padding = nat padding;
                  tmp = brealloc tmp (off + (padding + len) * 2) capacity
              in bindE (pad_front plaintext padding capacity) (\<lambda>plaintext.
                 bindE (buf_read 0 (len + padding) plaintext) (\<lambda>m.
                 bindE (crypto_stream_xor_ic m (cx_nonce ctx) (cx_counter ctx div 64)
                          (kx_tx (cx_kx ctx)) method) (\<lambda>c.
                 bindE (buf_write off c tmp) (\<lambda>tmp.
                 bindE (if padding \<noteq> 0
                        then bindE (buf_read (off + padding) len tmp) (\<lambda>bs. buf_write off bs tmp)
                        else Inr tmp) (\<lambda>tmp.
                   Inr (0, ctx\<lparr>cx_counter := cx_counter ctx + of_nat len\<rparr>, plaintext, tmp))))))
         else
           bindE (buf_read 0 len plaintext) (\<lambda>m.
           bindE (cipher_ctx_update L ctx m) (\<lambda>(err, ctx, c).
           bindE (buf_write off c tmp) (\<lambda>tmp.
             Inr (err, ctx, plaintext, tmp\<lparr>b_len := length c\<rparr>)))))"

definition stream_encrypt ::
    "mbedtls \<Rightarrow> buffer \<Rightarrow> cipher_ctx \<Rightarrow> nat \<Rightarrow> buffer
      \<Rightarrow> (crypto_ret \<times> buffer \<times> cipher_ctx \<times> buffer) run" where
  "stream_encrypt L plaintext ctx capacity tmp =
     (let nonce_len = (if cx_init ctx = 0 then c_nonce_len (cx_cipher ctx) else 0);
          pk_len = (if cx_init ctx = 0 \<and> \<not> pk_sent (cx_kx ctx) then KXBYTES else 0);
          tmp = (brealloc tmp (nonce_len + b_len plaintext) capacity)\<lparr>b_len := b_len plaintext\<rparr>
      in bindE (stream_encrypt_header L ctx tmp pk_len nonce_len) (\<lambda>(tmp, ctx).
         bindE (stream_encrypt_body L plaintext ctx capacity tmp (pk_len + nonce_len))
           (\<lambda>(err, ctx, plaintext, tmp).
           if err \<noteq> 0 then Inr (CRYPTO_ERROR, plaintext, ctx, tmp)
           else let n = pk_len + nonce_len + b_len tmp;
                    plaintext = brealloc plaintext n capacity
                in bindE (buf_read 0 n tmp) (\<lambda>bs.
                   bindE (buf_write 0 bs plaintext) (\<lambda>plaintext.
                     Inr (CRYPTO_OK, plaintext\<lparr>b_len := n\<rparr>, ctx, tmp))))))"

text \<open>
  The first part of \<open>stream_decrypt\<close>: collecting the public key and the nonce.  The result tells
  whether the call goes on, with the length of the plaintext.
\<close>

definition stream_decrypt_handshake ::
    "mbedtls \<Rightarrow> kx_prims \<Rightarrow> buffer \<Rightarrow> cipher_ctx \<Rightarrow> (bool \<times> buffer \<times> cipher_ctx \<times> nat) run" where
  "stream_decrypt_handshake L P ciphertext ctx =
     (let cip = cx_cipher ctx; nonce_len = c_nonce_len cip;
          chunk = (case cx_chunk ctx of None \<Rightarrow> balloc (KXBYTES + nonce_len) | Some b \<Rightarrow> b);
          rpk_len = (if \<not> rpk_received (cx_kx ctx) then KXBYTES else 0);
          left_len = min (nonce_len + rpk_len - b_len chunk) (b_len ciphertext)
      in bindE (if left_len > 0
                then
                  bindE (buf_read 0 left_len ciphertext) (\<lambda>bs.
                  bindE (buf_write (b_len chunk) bs chunk) (\<lambda>chunk.
                  bindE (buf_read left_len (b_len ciphertext - left_len) ciphertext) (\<lambda>rest.
                  bindE (buf_write 0 rest ciphertext) (\<lambda>ciphertext'.
                    Inr (chunk\<lparr>b_len := b_len chunk + left_len\<rparr>,
                         ciphertext'\<lparr>b_len := b_len ciphertext - left_len\<rparr>)))))
                else Inr (chunk, ciphertext)) (\<lambda>(chunk, ciphertext').
         if b_len chunk < rpk_len + nonce_len
         then Inr (False, ciphertext', ctx\<lparr>cx_chunk := Some chunk\<rparr>, b_len ciphertext)
         else
         bindE (if \<not> rpk_received (cx_kx ctx)
                then bindE (buf_read 0 KXBYTES chunk) (\<lambda>rpk.
                       Inr (ctx\<lparr>cx_kx := (fst (crypto_kx_ctx_init P [] (cx_kx ctx) (cx_is_local ctx) rpk))
                              \<lparr>rpk_received := True\<rparr>\<rparr>))
                else Inr ctx) (\<lambda>ctx.
         bindE (buf_read rpk_len nonce_len chunk) (\<lambda>nonce.
           let ctx = ctx\<lparr>cx_nonce := write_at 0 nonce (cx_nonce ctx), cx_chunk := Some chunk\<rparr>
           in bindE (cipher_ctx_set_nonce L ctx (cx_nonce ctx) nonce_len False) (\<lambda>ctx.
                Inr (True, ciphertext', ctx\<lparr>cx_counter := 0, cx_init := 1\<rparr>,
                     b_len ciphertext - left_len))))))"

definition stream_decrypt_body ::
    "mbedtls \<Rightarrow> buffer \<Rightarrow> cipher_ctx \<Rightarrow> nat \<Rightarrow> buffer
      \<Rightarrow> (int \<times> cipher_ctx \<times> buffer \<times> buffer) run" where
  "stream_decrypt_body L ciphertext ctx capacity tmp =
     (let len = b_len ciphertext; method = c_method (cx_cipher ctx)
      in if method \<ge> SALSA20
         then
           let padding = unat (cx_counter ctx) mod SODIUM_BLOCK_SIZE;
               tmp = brealloc tmp ((b_len tmp + padding) * 2) capacity
           in bindE (pad_front ciphertext padding capacity) (\<lambda>ciphertext.
              bindE (buf_read 0 (len + padding) ciphertext) (\<lambda>c.
              bindE (crypto_stream_xor_ic c (cx_nonce ctx) (cx_counter ctx div 64)
                       (kx_rx (cx_kx ctx)) method) (\<lambda>m.
              bindE (buf_write 0 m tmp) (\<lambda>tmp.
              bindE (if padding \<noteq> 0
                     then bindE (buf_read padding (b_len tmp) tmp) (\<lambda>bs. buf_write 0 bs tmp)
                     else Inr tmp) (\<lambda>tmp.
                Inr (0, ctx\<lparr>cx_counter := cx_counter ctx + of_nat len\<rparr>, ciphertext, tmp))))))
         else
           bindE (buf_read 0 len ciphertext) (\<lambda>c.
           bindE (cipher_ctx_update L ctx c) (\<lambda>(err, ctx, m).
           bindE (buf_write 0 m tmp) (\<lambda>tmp.
             Inr (err, ctx, ciphertext, tmp\<lparr>b_len := length m\<rparr>)))))"

definition stream_decrypt ::
    "mbedtls \<Rightarrow> kx_prims \<Rightarrow> buffer \<Rightarrow> cipher_ctx \<Rightarrow> nat \<Rightarrow> buffer
      \<Rightarrow> (crypto_ret \<times> buffer \<times> cipher_ctx \<times> buffer) run" where
  "stream_decrypt L P ciphertext ctx capacity tmp =
     (let tmp = (brealloc tmp (b_len ciphertext) capacity)\<lparr>b_len := b_len ciphertext\<rparr>
      in bindE (if cx_init ctx = 0 then stream_decrypt_handshake L P ciphertext ctx
                else Inr (True, ciphertext,
                          if cx_init ctx = 1 \<and> c_method (cx_cipher ctx) \<ge> RC4_MD5
                          then ctx\<lparr>cx_init := 2\<rparr> else ctx,
                          b_len ciphertext)) (\<lambda>(go, ciphertext, ctx, plen).
         if \<not> go then Inr (CRYPTO_NEED_MORE, ciphertext, ctx, tmp)
         else
         let tmp = tmp\<lparr>b_len := plen\<rparr>
         in if b_len ciphertext = 0 then Inr (CRYPTO_NEED_MORE, ciphertext, ctx, tmp)
            else
            bindE (stream_decrypt_body L ciphertext ctx capacity tmp)
              (\<lambda>(err, ctx, ciphertext, tmp).
              if err \<noteq> 0 then Inr (CRYPTO_ERROR, ciphertext, ctx, tmp)
              else let ciphertext = brealloc ciphertext (b_len tmp) capacity
                   in bindE (buf_read 0 (b_len tmp) tmp) (\<lambda>bs.
                      bindE (buf_write 0 bs ciphertext) (\<lambda>ciphertext.
                        Inr (CRYPTO_OK, ciphertext\<lparr>b_len := b_len tmp\<rparr>, ctx, tmp))))))"

section \<open>Choosing a cipher\<close>

definition cipher_nonce_size :: "nat option \<Rightarrow> nat" where
  "cipher_nonce_size info = (case info of None \<Rightarrow> 0 | Some iv_size \<Rightarrow> iv_size)"

definition stream_key_init ::
    "mbedtls \<Rightarrow> int \<Rightarrow> byte list option \<Rightarrow> byte list option \<Rightarrow> cipher option run" where
  "stream_key_init L method pk sk =
     (if method \<le> TABLE \<or> method \<ge> STREAM_CIPHER_NUM then Inr None
      else
        let info = (if method = SALSA20 \<or> method = CHACHA20 \<or> method = CHACHA20IETF
                    then Some (supported_stream_ciphers_nonce_size ! nat method)
                    else stream_get_cipher_type L method)
        in if info = None then Inl FatalExit
           else
             let key_len = supported_stream_ciphers_key_size ! nat method
             in if key_len = 0 then Inl FatalExit
                else Inr (Some \<lparr>c_method = method,
                  c_nonce_len = (if method = RC4_MD5 then 16 else cipher_nonce_size info),
                  c_key_len = key_len, c_tag_len = 0,
                  c_pk = (case pk of None \<Rightarrow> replicate KXBYTES 0 | Some bs \<Rightarrow> take KXBYTES bs),
                  c_sk = (case sk of None \<Rightarrow> replicate KXBYTES 0 | Some bs \<Rightarrow> take KXBYTES bs)\<rparr>))"

definition stream_init ::
    "mbedtls \<Rightarrow> byte list option \<Rightarrow> byte list option \<Rightarrow> string option \<Rightarrow> cipher option run" where
  "stream_init L pk sk method =
     (let m = (case method of
                 None \<Rightarrow> TABLE
               | Some name \<Rightarrow>
                   (let m = find_name name supported_stream_ciphers TABLE
                    in if m \<ge> STREAM_CIPHER_NUM then RC4_MD5 else m))
      in if m = TABLE then Inr None else stream_key_init L m pk sk)"

end
