(* ===== verification/SS_Stream_Props.thy ===== *)
theory SS_Stream_Props
  imports SS_Stream
begin

text \<open>
  Correctness of the stream cipher layer.  \<open>counter_stream\<close> is the interface the padding trick of
  \<^verbatim>\<open>stream.c\<close> relies on: a cipher that is an exclusive or with a key stream and can start at any
  block.  It is interpreted on the three libsodium ciphers.  From it: one call of
  \<open>stream_encrypt\<close> or \<open>stream_decrypt\<close> continues the key stream at the byte the counter names,
  so the segmentation of the data does not matter.
\<close>

section \<open>Key streams extend their prefixes\<close>

lemma keystream_prefix:
  "length j = 16 \<Longrightarrow> len \<le> len' \<Longrightarrow> take len (keystream j len') = keystream j len"
proof (induction len arbitrary: j len' rule: less_induct)
  case (less len)
  show ?case
  proof (cases "len \<le> 64")
    case True
    then show ?thesis
    proof (cases "len' \<le> 64")
      case False
      then have "keystream j len' = keystream j (64 + (len' - 64))" by simp
      also have "\<dots> = chacha_block j @ keystream (bump_counter j) (len' - 64)"
        using less.prems by (intro keystream_step)
      finally show ?thesis using True less.prems by (simp add: keystream_le)
    qed (use less.prems in \<open>simp add: keystream_le\<close>)
  next
    case False
    have step: "keystream j l = chacha_block j @ keystream (bump_counter j) (l - 64)" if "64 \<le> l" for l
      using keystream_step[OF less.prems(1), of "l - 64"] that by simp
    show ?thesis
      using less.IH[of "len - 64" "bump_counter j" "len' - 64"] less.prems False
      by (simp add: step)
  qed
qed

lemma salsa20_stream_prefix:
  "len \<le> len' \<Longrightarrow> take len (salsa20_stream k n ic len') = salsa20_stream k n ic len"
proof (induction len arbitrary: ic len' rule: less_induct)
  case (less len)
  show ?case
  proof (cases "len < 64")
    case True
    have "salsa20_stream k n ic len = take len (crypto_core_salsa20 (take 8 n @ store64_le ic) (take 32 k) None)"
      using True by (simp add: salsa20_stream_def)
    then show ?thesis
    proof (cases "len' < 64")
      case False
      then have "salsa20_stream k n ic len' = salsa20_stream k n ic (64 + (len' - 64))" by simp
      then show ?thesis
        using True \<open>salsa20_stream k n ic len = _\<close> by (simp only: salsa20_stream_step) simp
    qed (use less.prems in \<open>simp add: salsa20_stream_def min_absorb1\<close>)
  next
    case False
    then have "salsa20_stream k n ic len = salsa20_stream k n ic (64 + (len - 64))"
      "salsa20_stream k n ic len' = salsa20_stream k n ic (64 + (len' - 64))"
      using less.prems by simp_all
    then show ?thesis
      using less.IH[of "len - 64" "len' - 64"] less.prems False by (simp only: salsa20_stream_step) simp
  qed
qed

lemmas stream_prefixes = salsa20_stream_prefix keystream_prefix chacha20_stream_def chacha20_ietf_stream_def

section \<open>The interface\<close>

locale counter_stream =
  fixes xor_ic :: "byte list \<Rightarrow> byte list \<Rightarrow> u64 \<Rightarrow> byte list \<Rightarrow> byte list run"
    and ks :: "byte list \<Rightarrow> byte list \<Rightarrow> u64 \<Rightarrow> nat \<Rightarrow> byte list"
    and nlen :: nat and blocks :: nat and maxlen :: nat
  assumes xor_ic_eq:
      "nlen \<le> length n \<Longrightarrow> length m \<le> maxlen \<Longrightarrow> xor_ic m n ic k = Inr (xor_bytes m (ks k n ic (length m)))"
    and length_ks: "length (ks k n ic len) = len"
    and prefix: "len \<le> len' \<Longrightarrow> take len (ks k n ic len') = ks k n ic len"
    and seek: "unat ic + b < blocks \<Longrightarrow>
      ks k n ic (64 * b + len) = ks k n ic (64 * b) @ ks k n (ic + of_nat b) len"
begin

text \<open>Zero padding up to the block boundary continues the stream at any byte.\<close>

lemma resume:
  assumes "nlen \<le> length n" and "pos div 64 < blocks" and "pos mod 64 + length m \<le> maxlen"
  shows "\<exists>c. xor_ic (replicate (pos mod 64) 0 @ m) n (of_nat (pos div 64)) k = Inr c \<and>
    length c = pos mod 64 + length m \<and>
    drop (pos mod 64) c = xor_bytes m (drop pos (ks k n 0 (pos + length m)))"
proof -
  let ?q = "pos div 64" and ?r = "pos mod 64"
  let ?K = "ks k n (of_nat ?q) (?r + length m)"
  have "pos + length m = 64 * ?q + (?r + length m)" by simp
  then have "ks k n 0 (pos + length m) = ks k n 0 (64 * ?q) @ ?K"
    using seek[of 0 ?q k n "?r + length m"] assms(2) by simp
  then have d: "drop pos (ks k n 0 (pos + length m)) = drop ?r ?K"
    using length_ks[of k n 0 "64 * ?q"] by (simp add: minus_mult_div_eq_mod)
  have K: "?K = take ?r ?K @ drop ?r ?K" by simp
  have "xor_bytes (replicate ?r 0 @ m) ?K = xor_bytes (replicate ?r 0) (take ?r ?K) @ xor_bytes m (drop ?r ?K)"
    by (subst K, rule xor_bytes_append) (simp add: length_ks)
  then have "drop ?r (xor_bytes (replicate ?r 0 @ m) ?K) = xor_bytes m (drop ?r ?K)"
    by (simp add: length_ks)
  moreover have "length (xor_bytes (replicate ?r 0 @ m) ?K) = ?r + length m"
    by (simp add: length_ks)
  ultimately show ?thesis
    using xor_ic_eq[OF assms(1), of "replicate ?r 0 @ m" "of_nat ?q" k] assms(3) d
    by simp
qed

end

section \<open>The three ciphers\<close>

interpretation salsa20: counter_stream
  "\<lambda>m n ic k. crypto_stream_xor_ic m n ic k SALSA20" salsa20_stream 8 "2 ^ 64" chacha_max
  by unfold_locales
    (simp_all add: crypto_stream_xor_ic_def crypto_stream_salsa20_xor_ic_eq salsa20_stream_seek
      stream_prefixes)

interpretation chacha20: counter_stream
  "\<lambda>m n ic k. crypto_stream_xor_ic m n ic k CHACHA20" "\<lambda>k n. chacha20_stream k (take 8 n)" 8 "2 ^ 64"
  chacha_max
  by unfold_locales
    (simp_all add: crypto_stream_xor_ic_def crypto_stream_chacha20_xor_ic_eq chacha20_stream_seek,
      simp add: stream_prefixes)

lemma ucast_add_of_nat: "(ucast (ic + of_nat b) :: u32) = ucast ic + of_nat b" for ic :: u64
proof -
  have "(x mod 2 ^ 64) mod 2 ^ 32 = x mod 2 ^ 32" for x :: nat
    by (rule mod_mod_cancel) (simp add: le_imp_power_dvd)
  then show ?thesis
    by (simp add: word_unat_eq_iff unsigned_ucast_eq unat_word_ariths unat_of_nat take_bit_eq_mod
        mod_add_left_eq mod_add_right_eq)
qed

interpretation chacha20_ietf: counter_stream
  "\<lambda>m n ic k. crypto_stream_xor_ic m n ic k CHACHA20IETF"
  "\<lambda>k n ic. chacha20_ietf_stream k (take 12 n) (ucast ic)" 12 "2 ^ 32" chacha_max
proof (unfold_locales, goal_cases)
  case (4 ic b k n len)
  have "unat (ucast ic :: u32) \<le> unat ic" by (simp add: unsigned_ucast_eq take_bit_eq_mod)
  with 4 have "unat (ucast ic :: u32) + b < 2 ^ 32" by simp
  then show ?case by (simp add: chacha20_ietf_stream_seek ucast_add_of_nat)
next
  case (3 len len' k n ic)
  then show ?case by (simp add: stream_prefixes)
qed (simp_all add: crypto_stream_xor_ic_def crypto_stream_chacha20_ietf_xor_ic_eq)

definition sodium_method :: "int \<Rightarrow> bool" where
  "sodium_method method \<longleftrightarrow> method \<in> {SALSA20, CHACHA20, CHACHA20IETF}"

definition sodium_ks :: "int \<Rightarrow> byte list \<Rightarrow> byte list \<Rightarrow> nat \<Rightarrow> byte list" where
  "sodium_ks method k n len =
     (if method = SALSA20 then salsa20_stream k n 0 len
      else if method = CHACHA20 then chacha20_stream k (take 8 n) 0 len
      else chacha20_ietf_stream k (take 12 n) 0 len)"

lemma length_sodium_ks [simp]: "length (sodium_ks method k n len) = len"
  by (simp add: sodium_ks_def)

lemma sodium_ks_prefix:
  assumes "sodium_method method" and "len \<le> len'"
  shows "take len (sodium_ks method k n len') = sodium_ks method k n len"
  using assms salsa20.prefix chacha20.prefix chacha20_ietf.prefix[of len len' k n 0]
  by (auto simp: sodium_method_def sodium_ks_def)

lemma sodium_resume:
  assumes "sodium_method method" and "12 \<le> length n" and "pos div 64 < 2 ^ 32"
    and "pos mod 64 + length m \<le> chacha_max"
  shows "\<exists>c. crypto_stream_xor_ic (replicate (pos mod 64) 0 @ m) n (of_nat (pos div 64)) k method = Inr c \<and>
    length c = pos mod 64 + length m \<and>
    drop (pos mod 64) c = xor_bytes m (drop pos (sodium_ks method k n (pos + length m)))"
  using assms salsa20.resume[of n pos m k] chacha20.resume[of n pos m k] chacha20_ietf.resume[of n pos m k]
  by (auto simp: sodium_method_def sodium_ks_def)

section \<open>One call\<close>

lemma sodium_method_ge [simp]: "sodium_method method \<Longrightarrow> method \<ge> SALSA20"
  by (auto simp: sodium_method_def)

lemma pad_front_ok:
  assumes "wf_buffer b"
  shows "\<exists>b'. pad_front b p cap = Inr b' \<and> wf_buffer b' \<and> b_len b' = b_len b \<and>
    buf_read 0 (b_len b + p) b' = Inr (replicate p 0 @ payload b)"
proof (cases "p = 0")
  case True
  then show ?thesis using assms by (simp add: pad_front_def buf_read_def wf_buffer_def payload_def)
next
  case False
  define b1 where "b1 = brealloc b (b_len b + p) cap"
  have b1: "wf_buffer b1" "b_len b1 = b_len b" "b_len b + p \<le> b_capacity b1" "payload b1 = payload b"
    "length (b_data b1) = b_capacity b1"
    using assms brealloc_capacity_ge[of "b_len b + p" b cap] wf_brealloc[OF assms]
    by (auto simp: b1_def wf_buffer_def)
  have pl: "length (payload b) = b_len b" using assms by simp
  have rd: "buf_read 0 (b_len b) b1 = Inr (payload b)"
    using b1 by (simp add: buf_read_def payload_def[of b1] flip: b1(4))
  define b2 where "b2 = b1\<lparr>b_data := write_at 0 (replicate p 0) (write_at p (payload b) (b_data b1))\<rparr>"
  have "pad_front b p cap = Inr b2"
    using False rd b1 pl by (simp add: pad_front_def b1_def[symmetric] Let_def buf_write_def b2_def)
  moreover have "take (b_len b + p) (b_data b2) = replicate p 0 @ payload b"
    using b1 pl by (simp add: b2_def write_at_def)
  ultimately show ?thesis
    using b1 pl by (simp add: b2_def buf_read_def wf_buffer_def)
qed

lemma counter_facts:
  assumes "pos < 2 ^ 31"
  shows "c_rem (sint (ucast (of_nat pos :: u64) :: u32)) 64 = int (pos mod 64)"
    and "unat (of_nat pos :: u64) mod 64 = pos mod 64"
    and "(of_nat pos :: u64) div 64 = of_nat (pos div 64)"
proof -
  have u: "unat (of_nat pos :: u64) = pos" using assms by (simp add: unat_of_nat take_bit_eq_mod)
  have "unat (ucast (of_nat pos :: u64) :: u32) = pos"
    using assms by (simp add: unsigned_ucast_eq u take_bit_eq_mod)
  then have "uint (ucast (of_nat pos :: u64) :: u32) = int pos"
    by (metis uint_nat)
  then have "sint (ucast (of_nat pos :: u64) :: u32) = int pos"
    using assms by (simp add: sint_uint signed_take_bit_int_eq_self)
  then show "c_rem (sint (ucast (of_nat pos :: u64) :: u32)) 64 = int (pos mod 64)"
    by (cases "pos = 0") (simp_all add: c_rem_def sgn_if zmod_int)
  show "unat (of_nat pos :: u64) mod 64 = pos mod 64" by (simp add: u)
  show "(of_nat pos :: u64) div 64 = of_nat (pos div 64)"
    using assms u by (simp add: word_unat_eq_iff unat_div unat_of_nat take_bit_eq_mod)
qed

lemma take_write_shift:
  assumes "length (b_data t) = b_capacity t" and "off + p + n \<le> b_capacity t" and "length c = p + n"
  shows "\<exists>t2. bindE (buf_write off c t) (\<lambda>t. if p \<noteq> 0 then bindE (buf_read (off + p) n t) (\<lambda>bs. buf_write off bs t) else Inr t)
      = Inr t2 \<and> length (b_data t2) = b_capacity t2 \<and> b_capacity t2 = b_capacity t \<and> b_len t2 = b_len t \<and>
      take (off + n) (b_data t2) = take off (b_data t) @ drop p c"
proof -
  define t1 where "t1 = t\<lparr>b_data := write_at off c (b_data t)\<rparr>"
  have w: "buf_write off c t = Inr t1" using assms by (simp add: buf_write_def t1_def)
  show ?thesis
  proof (cases "p = 0")
    case True
    then show ?thesis
      using w assms take_write_at_end[of off c "b_data t"] by (simp add: t1_def)
  next
    case False
    have rd: "buf_read (off + p) n t1 = Inr (drop p c)"
      using assms by (simp add: buf_read_def t1_def write_at_def)
    have "take (off + n) (write_at off (drop p c) (b_data t1)) = take off (b_data t) @ drop p c"
      using assms take_write_at_end[of off "drop p c" "b_data t1"] by (simp add: t1_def write_at_def)
    then show ?thesis
      using False w rd assms by (simp add: buf_write_def t1_def)
  qed
qed

lemma encrypt_body_sodium:
  assumes m: "sodium_method (c_method (cx_cipher ctx))" and n: "12 \<le> length (cx_nonce ctx)"
    and pos: "cx_counter ctx = of_nat pos" "pos < 2 ^ 31"
    and pt: "wf_buffer pt" "b_len pt + 64 \<le> chacha_max"
    and t: "length (b_data tmp) = b_capacity tmp" "off \<le> b_capacity tmp" "b_len tmp = b_len pt"
  shows "\<exists>pt' tmp'. stream_encrypt_body L pt ctx cap tmp off
      = Inr (0, ctx\<lparr>cx_counter := of_nat (pos + b_len pt)\<rparr>, pt', tmp') \<and> wf_buffer pt' \<and>
    length (b_data tmp') = b_capacity tmp' \<and> off + b_len pt \<le> b_capacity tmp' \<and> b_len tmp' = b_len pt \<and>
    take (off + b_len pt) (b_data tmp') = take off (b_data tmp) @
      xor_bytes (payload pt) (drop pos (sodium_ks (c_method (cx_cipher ctx)) (kx_tx (cx_kx ctx)) (cx_nonce ctx)
        (pos + b_len pt)))"
proof -
  let ?meth = "c_method (cx_cipher ctx)" and ?p = "pos mod 64"
  obtain pt1 where p1: "pad_front pt ?p cap = Inr pt1" "wf_buffer pt1"
    "buf_read 0 (b_len pt + ?p) pt1 = Inr (replicate ?p 0 @ payload pt)"
    using pad_front_ok[OF pt(1)] by blast
  have pl: "length (payload pt) = b_len pt" using pt by simp
  obtain c where c: "crypto_stream_xor_ic (replicate ?p 0 @ payload pt) (cx_nonce ctx) (of_nat (pos div 64))
      (kx_tx (cx_kx ctx)) ?meth = Inr c" "length c = ?p + b_len pt"
    "drop ?p c = xor_bytes (payload pt) (drop pos (sodium_ks ?meth (kx_tx (cx_kx ctx)) (cx_nonce ctx) (pos + b_len pt)))"
    using sodium_resume[OF m n, of pos "payload pt" "kx_tx (cx_kx ctx)"] pos(2) pt(2) pl by force
  define t1 where "t1 = brealloc tmp (off + (?p + b_len pt) * 2) cap"
  have t1: "length (b_data t1) = b_capacity t1" "off + (?p + b_len pt) * 2 \<le> b_capacity t1"
    "take off (b_data t1) = take off (b_data tmp)" "b_len t1 = b_len pt"
    using t brealloc_capacity_ge(1)[of "off + (?p + b_len pt) * 2" tmp cap]
    by (simp_all add: t1_def) (auto simp: brealloc_def Let_def)
  have "off + ?p + b_len pt \<le> b_capacity t1" using t1(2) by simp
  from take_write_shift[OF t1(1) this c(2)]
  obtain t2 where t2: "bindE (buf_write off c t1) (\<lambda>t. if ?p \<noteq> 0 then bindE (buf_read (off + ?p) (b_len pt) t)
      (\<lambda>bs. buf_write off bs t) else Inr t) = Inr t2" "length (b_data t2) = b_capacity t2"
    "b_capacity t2 = b_capacity t1" "b_len t2 = b_len t1" "take (off + b_len pt) (b_data t2) = take off (b_data t1) @ drop ?p c"
    by blast
  from t2(1) obtain t' where t': "buf_write off c t1 = Inr t'"
    "(if ?p \<noteq> 0 then bindE (buf_read (off + ?p) (b_len pt) t') (\<lambda>bs. buf_write off bs t') else Inr t') = Inr t2"
    by (auto simp: bindE_Inr_iff)
  have t1e: "brealloc tmp (off + (?p * 2 + b_len pt * 2)) cap = t1"
    by (simp add: t1_def add_mult_distrib)
  have "stream_encrypt_body L pt ctx cap tmp off
      = Inr (0, ctx\<lparr>cx_counter := of_nat pos + of_nat (b_len pt)\<rparr>, pt1, t2)"
    using m t'(2) unfolding stream_encrypt_body_def Let_def
    by (simp add: pos(1) counter_facts[OF pos(2)] p1 c(1) t1e t'(1) cong: if_cong)
  then show ?thesis using p1(2) t2 t1 c(3) by simp
qed

lemma decrypt_body_sodium:
  assumes m: "sodium_method (c_method (cx_cipher ctx))" and n: "12 \<le> length (cx_nonce ctx)"
    and pos: "cx_counter ctx = of_nat pos" "pos < 2 ^ 31"
    and ct: "wf_buffer ct" "b_len ct + 64 \<le> chacha_max"
    and t: "length (b_data tmp) = b_capacity tmp" "b_len tmp = b_len ct"
  shows "\<exists>ct' tmp'. stream_decrypt_body L ct ctx cap tmp
      = Inr (0, ctx\<lparr>cx_counter := of_nat (pos + b_len ct)\<rparr>, ct', tmp') \<and> wf_buffer ct' \<and>
    length (b_data tmp') = b_capacity tmp' \<and> b_len ct \<le> b_capacity tmp' \<and> b_len tmp' = b_len ct \<and>
    take (b_len ct) (b_data tmp') =
      xor_bytes (payload ct) (drop pos (sodium_ks (c_method (cx_cipher ctx)) (kx_rx (cx_kx ctx)) (cx_nonce ctx)
        (pos + b_len ct)))"
proof -
  let ?meth = "c_method (cx_cipher ctx)" and ?p = "pos mod 64"
  obtain ct1 where p1: "pad_front ct ?p cap = Inr ct1" "wf_buffer ct1"
    "buf_read 0 (b_len ct + ?p) ct1 = Inr (replicate ?p 0 @ payload ct)"
    using pad_front_ok[OF ct(1)] by blast
  have pl: "length (payload ct) = b_len ct" using ct by simp
  obtain c where c: "crypto_stream_xor_ic (replicate ?p 0 @ payload ct) (cx_nonce ctx) (of_nat (pos div 64))
      (kx_rx (cx_kx ctx)) ?meth = Inr c" "length c = ?p + b_len ct"
    "drop ?p c = xor_bytes (payload ct) (drop pos (sodium_ks ?meth (kx_rx (cx_kx ctx)) (cx_nonce ctx) (pos + b_len ct)))"
    using sodium_resume[OF m n, of pos "payload ct" "kx_rx (cx_kx ctx)"] pos(2) ct(2) pl by force
  define t1 where "t1 = brealloc tmp ((b_len ct + ?p) * 2) cap"
  have t1: "length (b_data t1) = b_capacity t1" "(b_len ct + ?p) * 2 \<le> b_capacity t1" "b_len t1 = b_len ct"
    using t brealloc_capacity_ge(1)[of "(b_len ct + ?p) * 2" tmp cap]
    by (simp_all add: t1_def) (auto simp: brealloc_def Let_def)
  have "0 + ?p + b_len ct \<le> b_capacity t1" using t1(2) by simp
  from take_write_shift[OF t1(1) this c(2), unfolded add_0 take_0 append_Nil]
  obtain t2 where t2: "bindE (buf_write 0 c t1) (\<lambda>t. if ?p \<noteq> 0 then bindE (buf_read ?p (b_len ct) t)
      (\<lambda>bs. buf_write 0 bs t) else Inr t) = Inr t2" "length (b_data t2) = b_capacity t2"
    "b_capacity t2 = b_capacity t1" "b_len t2 = b_len t1" "take (b_len ct) (b_data t2) = drop ?p c"
    by blast
  from t2(1) obtain t' where t': "buf_write 0 c t1 = Inr t'" "b_len t' = b_len ct"
    "(if ?p \<noteq> 0 then bindE (buf_read ?p (b_len ct) t') (\<lambda>bs. buf_write 0 bs t') else Inr t') = Inr t2"
    using t1(3) by (auto simp: bindE_Inr_iff buf_write_def split: if_splits)
  have t1e: "brealloc tmp (b_len ct * 2 + ?p * 2) cap = t1"
    by (simp add: t1_def add_mult_distrib)
  have "stream_decrypt_body L ct ctx cap tmp
      = Inr (0, ctx\<lparr>cx_counter := of_nat pos + of_nat (b_len ct)\<rparr>, ct1, t2)"
    using m t'(3) unfolding stream_decrypt_body_def Let_def
    by (simp add: pos(1) counter_facts[OF pos(2)] p1 c(1) t(2) t1e t'(1,2) cong: if_cong)
  then show ?thesis using p1(2) t2 t1 c(3) by simp
qed

section \<open>The sender\<close>

definition tx_at :: "cipher_ctx \<Rightarrow> int \<Rightarrow> byte list \<Rightarrow> byte list \<Rightarrow> nat \<Rightarrow> bool" where
  "tx_at ctx meth k n pos \<longleftrightarrow> cx_init ctx \<noteq> 0 \<and> c_method (cx_cipher ctx) = meth \<and>
     kx_tx (cx_kx ctx) = k \<and> cx_nonce ctx = n \<and> cx_counter ctx = of_nat pos"

definition stream_header :: "cipher_ctx \<Rightarrow> byte list" where
  "stream_header ctx = (if pk_sent (cx_kx ctx) then [] else kx_pk (cx_kx ctx))
     @ take (c_nonce_len (cx_cipher ctx)) (cx_nonce ctx)"

text \<open>Copying the result back, the end of both functions.\<close>

lemma copy_back:
  assumes "wf_buffer pt" and "length (b_data t) = b_capacity t" and "n \<le> b_capacity t"
    and "take n (b_data t) = out"
  shows "\<exists>pt'. bindE (buf_read 0 n t) (\<lambda>bs. bindE (buf_write 0 bs (brealloc pt n cap)) (\<lambda>pt. Inr (f (pt\<lparr>b_len := n\<rparr>))))
      = Inr (f pt') \<and> wf_buffer pt' \<and> payload pt' = out"
proof -
  define p1 where "p1 = brealloc pt n cap"
  have p1: "length (b_data p1) = b_capacity p1" "n \<le> b_capacity p1"
    using wf_brealloc[OF assms(1), of n cap] brealloc_capacity_ge(1)[of n pt cap]
    by (simp_all add: p1_def wf_buffer_def)
  have ol: "length out = n" using assms by auto
  have "payload (p1\<lparr>b_data := write_at 0 out (b_data p1), b_len := n\<rparr>) = out"
    using take_write_at_0[of out "b_data p1"] p1 ol by (simp add: payload_def)
  moreover have "wf_buffer (p1\<lparr>b_data := write_at 0 out (b_data p1), b_len := n\<rparr>)"
    using p1 ol by (simp add: wf_buffer_def)
  moreover have "buf_read 0 n t = Inr out" "buf_write 0 out p1 = Inr (p1\<lparr>b_data := write_at 0 out (b_data p1)\<rparr>)"
    using assms p1 ol by (simp_all add: buf_read_def buf_write_def)
  ultimately show ?thesis
    by (intro exI[of _ "p1\<lparr>b_data := write_at 0 out (b_data p1), b_len := n\<rparr>"]) (simp add: p1_def[symmetric])
qed

lemma encrypt_call_more:
  assumes m: "sodium_method meth" and n: "12 \<le> length n"
    and ctx: "tx_at ctx meth k n pos" and pos: "pos < 2 ^ 31"
    and pt: "wf_buffer pt" "b_len pt + 64 \<le> chacha_max" and t: "wf_buffer tmp"
  shows "\<exists>pt' ctx' tmp'. stream_encrypt L pt ctx cap tmp = Inr (CRYPTO_OK, pt', ctx', tmp') \<and>
    wf_buffer pt' \<and> wf_buffer tmp' \<and> tx_at ctx' meth k n (pos + b_len pt) \<and>
    payload pt' = xor_bytes (payload pt) (drop pos (sodium_ks meth k n (pos + b_len pt)))"
proof -
  define t0 where "t0 = (brealloc tmp (b_len pt) cap)\<lparr>b_len := b_len pt\<rparr>"
  have t0: "length (b_data t0) = b_capacity t0" "0 \<le> b_capacity t0" "b_len t0 = b_len pt"
    using wf_brealloc[OF t, of "b_len pt" cap] by (simp_all add: t0_def wf_buffer_def)
  from ctx have c: "cx_init ctx \<noteq> 0" "c_method (cx_cipher ctx) = meth" "kx_tx (cx_kx ctx) = k" "cx_nonce ctx = n"
    "cx_counter ctx = of_nat pos" by (simp_all add: tx_at_def)
  from encrypt_body_sodium[of ctx pos pt t0 0 L cap] m n c pos pt t0
  obtain p1 t1 where b: "stream_encrypt_body L pt ctx cap t0 0 = Inr (0, ctx\<lparr>cx_counter := of_nat (pos + b_len pt)\<rparr>, p1, t1)"
    "wf_buffer p1" "length (b_data t1) = b_capacity t1" "b_len pt \<le> b_capacity t1" "b_len t1 = b_len pt"
    "take (b_len pt) (b_data t1) = xor_bytes (payload pt) (drop pos (sodium_ks meth k n (pos + b_len pt)))"
    by auto
  define ctx' where "ctx' = ctx\<lparr>cx_counter := of_nat pos + of_nat (b_len pt)\<rparr>"
  from copy_back[OF b(2,3,4,6), of cap "\<lambda>pt. (CRYPTO_OK, pt, ctx', t1)"]
  obtain pt' where f: "bindE (buf_read 0 (b_len pt) t1) (\<lambda>bs. bindE (buf_write 0 bs (brealloc p1 (b_len pt) cap))
      (\<lambda>p. Inr (CRYPTO_OK, p\<lparr>b_len := b_len pt\<rparr>, ctx', t1))) = Inr (CRYPTO_OK, pt', ctx', t1)"
    "wf_buffer pt'" "payload pt' = xor_bytes (payload pt) (drop pos (sodium_ks meth k n (pos + b_len pt)))"
    by blast
  have "stream_encrypt L pt ctx cap tmp = Inr (CRYPTO_OK, pt', ctx', t1)"
    using c(1) b(1,5) f(1)
    by (simp add: stream_encrypt_def stream_encrypt_header_def Let_def t0_def[symmetric] ctx'_def[symmetric])
  moreover have "wf_buffer t1" using b by (simp add: wf_buffer_def)
  moreover have "tx_at ctx' meth k n (pos + b_len pt)" using c by (simp add: tx_at_def ctx'_def)
  ultimately show ?thesis using f by blast
qed

lemma encrypt_call_first:
  assumes m: "sodium_method (c_method (cx_cipher ctx))" and n: "12 \<le> length (cx_nonce ctx)"
      "c_nonce_len (cx_cipher ctx) \<le> length (cx_nonce ctx)"
    and ctx: "cx_init ctx = 0" "length (kx_pk (cx_kx ctx)) = KXBYTES"
    and cap: "KXBYTES + c_nonce_len (cx_cipher ctx) \<le> cap"
    and pt: "wf_buffer pt" "b_len pt + 64 \<le> chacha_max" and t: "wf_buffer tmp"
  shows "\<exists>pt' ctx' tmp'. stream_encrypt L pt ctx cap tmp = Inr (CRYPTO_OK, pt', ctx', tmp') \<and>
    wf_buffer pt' \<and> wf_buffer tmp' \<and>
    tx_at ctx' (c_method (cx_cipher ctx)) (kx_tx (cx_kx ctx)) (cx_nonce ctx) (b_len pt) \<and>
    payload pt' = stream_header ctx @ xor_bytes (payload pt)
      (sodium_ks (c_method (cx_cipher ctx)) (kx_tx (cx_kx ctx)) (cx_nonce ctx) (b_len pt))"
proof -
  let ?nl = "c_nonce_len (cx_cipher ctx)" and ?meth = "c_method (cx_cipher ctx)"
  define pk where "pk = (if pk_sent (cx_kx ctx) then [] else kx_pk (cx_kx ctx))"
  define nn where "nn = take ?nl (cx_nonce ctx)"
  have nl: "length nn = ?nl" using n(2) by (simp add: nn_def)
  have pkl: "length pk \<le> KXBYTES" "(if \<not> pk_sent (cx_kx ctx) then KXBYTES else 0) = length pk"
    using ctx by (auto simp: pk_def)
  define t0 where "t0 = (brealloc tmp (?nl + b_len pt) cap)\<lparr>b_len := b_len pt\<rparr>"
  have t0: "length (b_data t0) = b_capacity t0" "length pk + ?nl \<le> b_capacity t0" "b_len t0 = b_len pt"
    using wf_brealloc[OF t, of "?nl + b_len pt" cap] brealloc_capacity_ge(2)[of cap tmp "?nl + b_len pt"] cap pkl
    by (simp_all add: t0_def wf_buffer_def)
  define t1 where "t1 = t0\<lparr>b_data := write_at 0 (pk @ nn) (b_data t0)\<rparr>"
  define c1 where "c1 = (if pk_sent (cx_kx ctx) then ctx else ctx\<lparr>cx_kx := (cx_kx ctx)\<lparr>pk_sent := True\<rparr>\<rparr>)
      \<lparr>cx_counter := 0, cx_init := 1\<rparr>"
  have ww: "write_at (length pk) nn (write_at 0 pk (b_data t0)) = write_at 0 (pk @ nn) (b_data t0)"
    using write_at_write_at[of 0 pk "b_data t0" nn] t0 nl by simp
  have hdr: "stream_encrypt_header L ctx t0 (length pk) ?nl = Inr (t1, c1)"
  proof (cases "pk_sent (cx_kx ctx)")
    case True
    then show ?thesis
      using ctx t0 nl m by (simp add: stream_encrypt_header_def cipher_ctx_set_nonce_def buf_write_def pk_def
          t1_def c1_def nn_def Let_def)
  next
    case False
    then show ?thesis
      using ctx t0 nl m ww
      by (simp add: stream_encrypt_header_def cipher_ctx_set_nonce_def buf_write_def pk_def
          t1_def c1_def nn_def Let_def)
  qed
  have t1: "length (b_data t1) = b_capacity t1" "length pk + ?nl \<le> b_capacity t1" "b_len t1 = b_len pt"
    "take (length pk + ?nl) (b_data t1) = pk @ nn"
    using t0 nl take_write_at_0[of "pk @ nn" "b_data t0"] by (simp_all add: t1_def)
  have c1: "cx_cipher c1 = cx_cipher ctx" "kx_tx (cx_kx c1) = kx_tx (cx_kx ctx)" "cx_nonce c1 = cx_nonce ctx"
    "cx_counter c1 = of_nat 0" "cx_init c1 = 1"
    by (simp_all add: c1_def)
  from encrypt_body_sodium[of c1 0 pt t1 "length pk + ?nl" L cap] m n c1 pt t1
  obtain p2 t2 where b: "stream_encrypt_body L pt c1 cap t1 (length pk + ?nl)
      = Inr (0, c1\<lparr>cx_counter := of_nat (b_len pt)\<rparr>, p2, t2)"
    "wf_buffer p2" "length (b_data t2) = b_capacity t2" "length pk + ?nl + b_len pt \<le> b_capacity t2" "b_len t2 = b_len pt"
    "take (length pk + ?nl + b_len pt) (b_data t2) = stream_header ctx @ xor_bytes (payload pt)
      (sodium_ks ?meth (kx_tx (cx_kx ctx)) (cx_nonce ctx) (b_len pt))"
    by (auto simp: stream_header_def pk_def nn_def)
  define ctx' where "ctx' = c1\<lparr>cx_counter := of_nat (b_len pt)\<rparr>"
  from copy_back[OF b(2,3,4,6), of cap "\<lambda>pt. (CRYPTO_OK, pt, ctx', t2)"]
  obtain pt' where f: "bindE (buf_read 0 (length pk + ?nl + b_len pt) t2) (\<lambda>bs.
      bindE (buf_write 0 bs (brealloc p2 (length pk + ?nl + b_len pt) cap))
      (\<lambda>p. Inr (CRYPTO_OK, p\<lparr>b_len := length pk + ?nl + b_len pt\<rparr>, ctx', t2))) = Inr (CRYPTO_OK, pt', ctx', t2)"
    "wf_buffer pt'" "payload pt' = stream_header ctx @ xor_bytes (payload pt)
      (sodium_ks ?meth (kx_tx (cx_kx ctx)) (cx_nonce ctx) (b_len pt))"
    by blast
  have "stream_encrypt L pt ctx cap tmp = Inr (CRYPTO_OK, pt', ctx', t2)"
    using b(5) f(1) pkl(2) ctx(1)
    by (simp add: stream_encrypt_def Let_def t0_def[symmetric] hdr b(1) ctx'_def[symmetric])
  moreover have "wf_buffer t2" using b by (simp add: wf_buffer_def)
  moreover have "tx_at ctx' ?meth (kx_tx (cx_kx ctx)) (cx_nonce ctx) (b_len pt)"
    using c1 by (simp add: tx_at_def ctx'_def)
  ultimately show ?thesis using f by blast
qed

end
