(* ===== verification/SS_Stream_Channel.thy ===== *)
theory SS_Stream_Channel
  imports SS_Stream_Props
begin

text \<open>
  The receiver of the stream cipher layer and both ends together.  \<open>stream_rx_state\<close> relates the
  context of a receiver to all bytes received so far; \<open>stream_plain\<close> is the plaintext of those
  bytes.  Each call of \<open>stream_decrypt\<close> keeps the relation and delivers what \<open>stream_plain\<close>
  gains (\<open>stream_rx_step\<close>), for every input.
\<close>

section \<open>The receiver\<close>

definition stream_hs_len :: "cipher_ctx \<Rightarrow> nat" where
  "stream_hs_len ctx = (if rpk_received (cx_kx ctx) then 0 else KXBYTES) + c_nonce_len (cx_cipher ctx)"

definition stream_rx_kx :: "kx_prims \<Rightarrow> cipher_ctx \<Rightarrow> byte list \<Rightarrow> kx_ctx" where
  "stream_rx_kx P ctx rpk =
     (if rpk_received (cx_kx ctx) then cx_kx ctx
      else (fst (crypto_kx_ctx_init P [] (cx_kx ctx) (cx_is_local ctx) rpk))\<lparr>rpk_received := True\<rparr>)"

definition chunk_ok :: "cipher_ctx \<Rightarrow> bool" where
  "chunk_ok ctx \<longleftrightarrow> (case cx_chunk ctx of None \<Rightarrow> True
     | Some b \<Rightarrow> wf_buffer b \<and> KXBYTES + c_nonce_len (cx_cipher ctx) \<le> b_capacity b)"

text \<open>Moving bytes from the front of the input to the end of the chunk.\<close>

lemma collect_ok:
  assumes "wf_buffer ct" and "wf_buffer ch" and "n \<le> b_len ct" and "b_len ch + n \<le> b_capacity ch"
  shows "\<exists>ch' ct'. (if n > 0
      then bindE (buf_read 0 n ct) (\<lambda>bs. bindE (buf_write (b_len ch) bs ch) (\<lambda>chunk.
           bindE (buf_read n (b_len ct - n) ct) (\<lambda>rest. bindE (buf_write 0 rest ct) (\<lambda>ciphertext'.
             Inr (chunk\<lparr>b_len := b_len chunk + n\<rparr>, ciphertext'\<lparr>b_len := b_len ct - n\<rparr>)))))
      else Inr (ch, ct)) = Inr (ch', ct') \<and>
    wf_buffer ch' \<and> b_capacity ch' = b_capacity ch \<and> b_len ch' = b_len ch + n \<and>
    payload ch' = payload ch @ take n (payload ct) \<and>
    wf_buffer ct' \<and> b_len ct' = b_len ct - n \<and> payload ct' = drop n (payload ct)"
proof (cases "n = 0")
  case False
  let ?a = "take n (b_data ct)" and ?r = "take (b_len ct - n) (drop n (b_data ct))"
  have l: "length ?a = n" "length ?r = b_len ct - n" using assms by (auto simp: wf_buffer_def)
  define ch' where "ch' = ch\<lparr>b_data := write_at (b_len ch) ?a (b_data ch), b_len := b_len ch + n\<rparr>"
  define ct' where "ct' = ct\<lparr>b_data := write_at 0 ?r (b_data ct), b_len := b_len ct - n\<rparr>"
  have "payload ch' = payload ch @ take n (payload ct)"
    using assms l take_write_at_end[of "b_len ch" ?a "b_data ch"]
    by (simp add: ch'_def payload_def wf_buffer_def)
  moreover have "payload ct' = drop n (payload ct)"
    using assms l take_write_at_0[of ?r "b_data ct"]
    by (simp add: ct'_def payload_def wf_buffer_def drop_take)
  moreover have "wf_buffer ch'" "wf_buffer ct'" "b_capacity ch' = b_capacity ch" "b_len ct' = b_len ct - n" "b_len ch' = b_len ch + n"
    using assms l by (simp_all add: ch'_def ct'_def wf_buffer_def)
  moreover have "buf_read 0 n ct = Inr ?a" "buf_read n (b_len ct - n) ct = Inr ?r"
    "buf_write (b_len ch) ?a ch = Inr (ch\<lparr>b_data := write_at (b_len ch) ?a (b_data ch)\<rparr>)"
    "buf_write 0 ?r ct = Inr (ct\<lparr>b_data := write_at 0 ?r (b_data ct)\<rparr>)"
    using assms l by (simp_all add: buf_read_def buf_write_def wf_buffer_def)
  ultimately show ?thesis using False by (simp add: ch'_def ct'_def)
qed (use assms in simp)

lemma handshake_step:
  assumes m: "sodium_method (c_method (cx_cipher ctx))" and ch: "chunk_ok ctx" "length (chunk_of ctx) \<le> stream_hs_len ctx"
    and ct: "wf_buffer ct"
  defines "n \<equiv> min (stream_hs_len ctx - length (chunk_of ctx)) (b_len ct)"
  shows "\<exists>c' ct'. chunk_ok (ctx\<lparr>cx_chunk := Some c'\<rparr>) \<and> payload c' = chunk_of ctx @ take n (payload ct) \<and>
    wf_buffer ct' \<and> payload ct' = drop n (payload ct) \<and>
    stream_decrypt_handshake L P ct ctx =
      (if length (chunk_of ctx) + n < stream_hs_len ctx then Inr (False, ct', ctx\<lparr>cx_chunk := Some c'\<rparr>, b_len ct)
       else Inr (True, ct', ctx\<lparr>cx_kx := stream_rx_kx P ctx (take KXBYTES (payload c')),
              cx_nonce := write_at 0 (drop (stream_hs_len ctx - c_nonce_len (cx_cipher ctx)) (payload c')) (cx_nonce ctx),
              cx_chunk := Some c', cx_counter := 0, cx_init := 1\<rparr>, b_len ct'))"
proof -
  let ?nl = "c_nonce_len (cx_cipher ctx)" and ?rl = "if \<not> rpk_received (cx_kx ctx) then KXBYTES else 0"
  define ch where "ch = (case cx_chunk ctx of None \<Rightarrow> balloc (KXBYTES + ?nl) | Some b \<Rightarrow> b)"
  have ch0: "wf_buffer ch" "KXBYTES + ?nl \<le> b_capacity ch" "payload ch = chunk_of ctx" "b_len ch = length (chunk_of ctx)"
    using assms(2) by (auto simp: ch_def chunk_ok_def chunk_of_def balloc_def payload_def wf_buffer_def split: option.splits)
  have hs: "stream_hs_len ctx \<le> KXBYTES + ?nl" "stream_hs_len ctx = ?nl + ?rl" by (simp_all add: stream_hs_len_def)
  have n: "min (?nl + ?rl - b_len ch) (b_len ct) = n" by (simp add: n_def hs(2) ch0(4))
  from collect_ok[OF ct ch0(1), of n]
  obtain c' ct' where c: "(if n > 0
      then bindE (buf_read 0 n ct) (\<lambda>bs. bindE (buf_write (b_len ch) bs ch) (\<lambda>chunk.
           bindE (buf_read n (b_len ct - n) ct) (\<lambda>rest. bindE (buf_write 0 rest ct) (\<lambda>ciphertext'.
             Inr (chunk\<lparr>b_len := b_len chunk + n\<rparr>, ciphertext'\<lparr>b_len := b_len ct - n\<rparr>)))))
      else Inr (ch, ct)) = Inr (c', ct')"
    "wf_buffer c'" "b_capacity c' = b_capacity ch" "b_len c' = b_len ch + n" "payload c' = chunk_of ctx @ take n (payload ct)"
    "wf_buffer ct'" "b_len ct' = b_len ct - n" "payload ct' = drop n (payload ct)"
    using ch0 hs ch(2) unfolding n_def by fastforce
  have ok: "chunk_ok (ctx\<lparr>cx_chunk := Some c'\<rparr>)" using c ch0 by (simp add: chunk_ok_def)
  have data: "length (b_data c') = b_capacity c'" "b_len c' \<le> b_capacity c'" using c(2) by (simp_all add: wf_buffer_def)
  have "stream_decrypt_handshake L P ct ctx =
      (if length (chunk_of ctx) + n < stream_hs_len ctx then Inr (False, ct', ctx\<lparr>cx_chunk := Some c'\<rparr>, b_len ct)
       else Inr (True, ct', ctx\<lparr>cx_kx := stream_rx_kx P ctx (take KXBYTES (payload c')),
              cx_nonce := write_at 0 (drop (stream_hs_len ctx - ?nl) (payload c')) (cx_nonce ctx),
              cx_chunk := Some c', cx_counter := 0, cx_init := 1\<rparr>, b_len ct'))"
  proof (cases "length (chunk_of ctx) + n < stream_hs_len ctx")
    case True
    then have "b_len c' < ?rl + ?nl" using c(4) ch0(4) hs(2) by (simp add: add.commute)
    then show ?thesis
      using True unfolding stream_decrypt_handshake_def Let_def ch_def[symmetric] n c(1) by simp
  next
    case False
    then have full: "b_len c' = stream_hs_len ctx" using c(4) ch0(4) assms(3) by (simp add: n_def)
    then have nf: "\<not> b_len c' < ?rl + ?nl" using hs(2) by simp
    have rd: "buf_read ?rl ?nl c' = Inr (drop (stream_hs_len ctx - ?nl) (payload c'))"
      using data full
      by (cases "rpk_received (cx_kx ctx)") (simp_all add: buf_read_def payload_def stream_hs_len_def drop_take)
    have rk: "\<not> rpk_received (cx_kx ctx) \<Longrightarrow> buf_read 0 KXBYTES c' = Inr (take KXBYTES (payload c'))"
      using data full by (simp add: buf_read_def payload_def stream_hs_len_def)
    show ?thesis
      using False nf rd rk m c(7)
      unfolding stream_decrypt_handshake_def Let_def ch_def[symmetric] n c(1)
      by (simp add: cipher_ctx_set_nonce_def stream_rx_kx_def Let_def)
  qed
  with ok c show ?thesis by blast
qed

lemma xor_bytes_prefix_append:
  assumes "length ks = length a + length b" and "take (length a) ks = ka"
  shows "xor_bytes (a @ b) ks = xor_bytes a ka @ xor_bytes b (drop (length a) ks)"
proof -
  have "length a = length ka" using assms by auto
  then show ?thesis
    using xor_bytes_append[of a ka b "drop (length a) ks"] assms by (metis append_take_drop_id)
qed

text \<open>The nonce of the key stream and the plaintext of everything received so far.\<close>

definition rx_nonce :: "cipher_ctx \<Rightarrow> byte list \<Rightarrow> byte list" where
  "rx_nonce d r = write_at 0 (take (c_nonce_len (cx_cipher d))
     (drop (stream_hs_len d - c_nonce_len (cx_cipher d)) r)) (cx_nonce d)"

definition stream_plain :: "kx_prims \<Rightarrow> cipher_ctx \<Rightarrow> byte list \<Rightarrow> byte list" where
  "stream_plain P d r = xor_bytes (drop (stream_hs_len d) r)
     (sodium_ks (c_method (cx_cipher d)) (kx_rx (stream_rx_kx P d (take KXBYTES r))) (rx_nonce d r)
       (length r - stream_hs_len d))"

definition stream_rx_state :: "kx_prims \<Rightarrow> cipher_ctx \<Rightarrow> cipher_ctx \<Rightarrow> byte list \<Rightarrow> bool" where
  "stream_rx_state P d ctx r \<longleftrightarrow>
     (if length r < stream_hs_len d
      then (\<exists>c. ctx = d\<lparr>cx_chunk := c\<rparr>) \<and> chunk_ok ctx \<and> chunk_of ctx = r
      else cx_init ctx \<noteq> 0 \<and> cx_cipher ctx = cx_cipher d \<and>
        kx_rx (cx_kx ctx) = kx_rx (stream_rx_kx P d (take KXBYTES r)) \<and>
        cx_nonce ctx = rx_nonce d r \<and> cx_counter ctx = of_nat (length r - stream_hs_len d))"

lemma handshake_prefix:
  assumes "stream_hs_len d \<le> length r"
  shows "rx_nonce d (r @ s) = rx_nonce d r"
    and "stream_rx_kx P d (take KXBYTES (r @ s)) = stream_rx_kx P d (take KXBYTES r)"
  using assms
  by (cases "rpk_received (cx_kx d)"; simp add: rx_nonce_def stream_rx_kx_def stream_hs_len_def)+

lemma stream_plain_append:
  assumes "sodium_method (c_method (cx_cipher d))" and "stream_hs_len d \<le> length r"
  shows "stream_plain P d (r @ s) = stream_plain P d r @ xor_bytes s
    (drop (length r - stream_hs_len d) (sodium_ks (c_method (cx_cipher d))
       (kx_rx (stream_rx_kx P d (take KXBYTES r))) (rx_nonce d r) (length r - stream_hs_len d + length s)))"
proof -
  let ?p = "length r - stream_hs_len d"
  let ?ks = "sodium_ks (c_method (cx_cipher d)) (kx_rx (stream_rx_kx P d (take KXBYTES r))) (rx_nonce d r)"
  have "xor_bytes (drop (stream_hs_len d) r @ s) (?ks (?p + length s))
      = xor_bytes (drop (stream_hs_len d) r) (?ks ?p) @ xor_bytes s (drop ?p (?ks (?p + length s)))"
    using xor_bytes_prefix_append[of "?ks (?p + length s)" "drop (stream_hs_len d) r" s "?ks ?p"]
      sodium_ks_prefix[OF assms(1), of ?p "?p + length s"] by simp
  then show ?thesis
    using assms(2) by (simp add: stream_plain_def handshake_prefix del: take_append)
qed

text \<open>The end of \<open>stream_decrypt\<close>, after the handshake.\<close>

definition stream_decrypt_tail ::
    "mbedtls \<Rightarrow> buffer \<Rightarrow> cipher_ctx \<Rightarrow> nat \<Rightarrow> buffer \<Rightarrow> (crypto_ret \<times> buffer \<times> cipher_ctx \<times> buffer) run" where
  "stream_decrypt_tail L ct ctx cap tmp =
    (if b_len ct = 0 then Inr (CRYPTO_NEED_MORE, ct, ctx, tmp)
     else bindE (stream_decrypt_body L ct ctx cap tmp)
              (\<lambda>(err, ctx, ciphertext, tmp).
              if err \<noteq> 0 then Inr (CRYPTO_ERROR, ciphertext, ctx, tmp)
              else let ciphertext = brealloc ciphertext (b_len tmp) cap
                   in bindE (buf_read 0 (b_len tmp) tmp) (\<lambda>bs.
                      bindE (buf_write 0 bs ciphertext) (\<lambda>ciphertext.
                        Inr (CRYPTO_OK, ciphertext\<lparr>b_len := b_len tmp\<rparr>, ctx, tmp)))))"

lemma stream_decrypt_open_eq:
  "cx_init ctx \<noteq> 0 \<Longrightarrow> stream_decrypt L P ct ctx cap tmp = stream_decrypt_tail L ct
     (if cx_init ctx = 1 \<and> c_method (cx_cipher ctx) \<ge> RC4_MD5 then ctx\<lparr>cx_init := 2\<rparr> else ctx) cap
     ((brealloc tmp (b_len ct) cap)\<lparr>b_len := b_len ct\<rparr>)"
  by (simp add: stream_decrypt_def stream_decrypt_tail_def Let_def)

lemma stream_decrypt_handshake_eq:
  assumes "cx_init ctx = 0" and "stream_decrypt_handshake L P ct ctx = Inr (go, ct', ctx', plen)"
  shows "stream_decrypt L P ct ctx cap tmp =
    (if go then stream_decrypt_tail L ct' ctx' cap ((brealloc tmp (b_len ct) cap)\<lparr>b_len := plen\<rparr>)
     else Inr (CRYPTO_NEED_MORE, ct', ctx', (brealloc tmp (b_len ct) cap)\<lparr>b_len := b_len ct\<rparr>))"
  using assms by (simp add: stream_decrypt_def stream_decrypt_tail_def Let_def)

lemma decrypt_call_open:
  assumes m: "sodium_method (c_method (cx_cipher ctx))" and n: "12 \<le> length (cx_nonce ctx)"
    and pos: "cx_counter ctx = of_nat pos" "pos < 2 ^ 31"
    and ct: "wf_buffer ct" "b_len ct + 64 \<le> chacha_max" and t: "wf_buffer tmp"
  shows "\<exists>ct' tmp'. stream_decrypt_tail L ct ctx cap (tmp\<lparr>b_len := b_len ct\<rparr>)
   = Inr (if b_len ct = 0 then CRYPTO_NEED_MORE else CRYPTO_OK, ct',
          ctx\<lparr>cx_counter := of_nat (pos + b_len ct)\<rparr>, tmp') \<and>
    wf_buffer tmp' \<and>
    payload ct' = xor_bytes (payload ct) (drop pos (sodium_ks (c_method (cx_cipher ctx)) (kx_rx (cx_kx ctx))
        (cx_nonce ctx) (pos + b_len ct)))"
proof (cases "b_len ct = 0")
  case True
  then have "payload ct = []" using ct(1) by (simp add: payload_def)
  moreover have "ctx\<lparr>cx_counter := of_nat pos\<rparr> = ctx" using pos(1) by simp
  ultimately show ?thesis using True t by (simp add: stream_decrypt_tail_def wf_buffer_def)
next
  case False
  obtain c1 t1 where b: "stream_decrypt_body L ct ctx cap (tmp\<lparr>b_len := b_len ct\<rparr>)
      = Inr (0, ctx\<lparr>cx_counter := of_nat (pos + b_len ct)\<rparr>, c1, t1)" "wf_buffer c1"
    "length (b_data t1) = b_capacity t1" "b_len ct \<le> b_capacity t1" "b_len t1 = b_len ct"
    "take (b_len ct) (b_data t1) = xor_bytes (payload ct) (drop pos
       (sodium_ks (c_method (cx_cipher ctx)) (kx_rx (cx_kx ctx)) (cx_nonce ctx) (pos + b_len ct)))"
    using decrypt_body_sodium[OF m n pos ct, of "tmp\<lparr>b_len := b_len ct\<rparr>" L cap] t
    by (auto simp: wf_buffer_def)
  define c2 where "c2 = ctx\<lparr>cx_counter := of_nat (pos + b_len ct)\<rparr>"
  from copy_back[OF b(2,3,4,6), of cap "\<lambda>ct. (CRYPTO_OK, ct, c2, t1)"] b(3,4,5) False
  show ?thesis unfolding stream_decrypt_tail_def b(1) c2_def[symmetric] by (auto simp: Let_def wf_buffer_def)
qed

lemma stream_rx_step:
  assumes m: "sodium_method (c_method (cx_cipher d))" and n: "12 \<le> length (cx_nonce d)"
      "c_nonce_len (cx_cipher d) \<le> length (cx_nonce d)"
    and d: "cx_init d = 0" and st: "stream_rx_state P d ctx r"
    and ct: "wf_buffer ct" and len: "length r + b_len ct < 2 ^ 31" and t: "wf_buffer tmp"
  shows "\<exists>ret ct' ctx' tmp'. stream_decrypt L P ct ctx cap tmp = Inr (ret, ct', ctx', tmp') \<and>
    ret \<noteq> CRYPTO_ERROR \<and> wf_buffer tmp' \<and> stream_rx_state P d ctx' (r @ payload ct) \<and>
    stream_plain P d (r @ payload ct) = stream_plain P d r @ (if ret = CRYPTO_OK then payload ct' else [])"
proof -
  define t1 where "t1 = brealloc tmp (b_len ct) cap"
  have t1: "wf_buffer t1" "wf_buffer (t1\<lparr>b_len := b_len ct\<rparr>)"
    using wf_brealloc[OF t, of "b_len ct" cap] brealloc_capacity_ge(1)[of "b_len ct" tmp cap]
    by (simp_all add: t1_def wf_buffer_def)
  have pl: "length (payload ct) = b_len ct" using ct by simp
  have mx: "b_len ct + 64 \<le> chacha_max" "2 ^ 31 + 64 \<le> chacha_max" using len by (simp_all add: chacha_max_def)
  show ?thesis
  proof (cases "length r < stream_hs_len d")
    case False
    define ctx1 where "ctx1 = (if cx_init ctx = 1 \<and> c_method (cx_cipher ctx) \<ge> RC4_MD5 then ctx\<lparr>cx_init := 2\<rparr> else ctx)"
    let ?pos = "length r - stream_hs_len d"
    have c: "cx_cipher ctx1 = cx_cipher d" "kx_rx (cx_kx ctx1) = kx_rx (stream_rx_kx P d (take KXBYTES r))"
      "cx_nonce ctx1 = rx_nonce d r" "cx_counter ctx1 = of_nat ?pos" "cx_init ctx1 \<noteq> 0" "cx_init ctx \<noteq> 0"
      using st False by (auto simp: stream_rx_state_def ctx1_def)
    have nn: "12 \<le> length (rx_nonce d r)" using n by (simp add: rx_nonce_def)
    have "?pos < 2 ^ 31" using len by simp
    from decrypt_call_open[of ctx1 ?pos ct t1 L cap, OF _ _ _ this] m nn c ct mx t1
    obtain ct' tmp' where r: "stream_decrypt L P ct ctx cap tmp
        = Inr (if b_len ct = 0 then CRYPTO_NEED_MORE else CRYPTO_OK, ct',
            ctx1\<lparr>cx_counter := of_nat (?pos + b_len ct)\<rparr>, tmp')" "wf_buffer tmp'"
      "payload ct' = xor_bytes (payload ct) (drop ?pos (sodium_ks (c_method (cx_cipher d))
         (kx_rx (stream_rx_kx P d (take KXBYTES r))) (rx_nonce d r) (?pos + b_len ct)))"
      using c(6) unfolding stream_decrypt_open_eq[OF c(6)] ctx1_def[symmetric] t1_def[symmetric]
      by (auto simp del: of_nat_add)
    have "stream_rx_state P d (ctx1\<lparr>cx_counter := of_nat (?pos + b_len ct)\<rparr>) (r @ payload ct)"
      using False c pl by (simp add: stream_rx_state_def handshake_prefix del: take_append of_nat_add)
    with r stream_plain_append[OF m, of r P "payload ct"] False pl show ?thesis by auto
  next
    case True
    define n where "n = min (stream_hs_len d - length r) (b_len ct)"
    obtain c0 where c0: "ctx = d\<lparr>cx_chunk := c0\<rparr>" "chunk_ok ctx" "chunk_of ctx = r"
      using st True by (auto simp: stream_rx_state_def)
    have same: "stream_hs_len ctx = stream_hs_len d" "cx_cipher ctx = cx_cipher d" "cx_init ctx = 0" "cx_nonce ctx = cx_nonce d"
      "stream_rx_kx P ctx = stream_rx_kx P d"
      using c0(1) d by (auto simp: stream_hs_len_def stream_rx_kx_def)
    obtain c' ct1 where h: "chunk_ok (ctx\<lparr>cx_chunk := Some c'\<rparr>)" "payload c' = r @ take n (payload ct)"
      "wf_buffer ct1" "payload ct1 = drop n (payload ct)"
      "stream_decrypt_handshake L P ct ctx =
        (if length r + n < stream_hs_len d then Inr (False, ct1, ctx\<lparr>cx_chunk := Some c'\<rparr>, b_len ct)
         else Inr (True, ct1, ctx\<lparr>cx_kx := stream_rx_kx P d (take KXBYTES (payload c')),
              cx_nonce := write_at 0 (drop (stream_hs_len d - c_nonce_len (cx_cipher d)) (payload c')) (cx_nonce d),
              cx_chunk := Some c', cx_counter := 0, cx_init := 1\<rparr>, b_len ct1))"
      using handshake_step[of ctx ct L P] m c0(2,3) True ct same unfolding n_def by auto
    have p0: "stream_plain P d r = []" using True by (simp add: stream_plain_def)
    show ?thesis
    proof (cases "length r + n < stream_hs_len d")
      case wait: True
      then have "n = b_len ct" using True by (auto simp: n_def)
      then have "stream_rx_state P d (ctx\<lparr>cx_chunk := Some c'\<rparr>) (r @ payload ct)"
        using wait c0(1) h(1,2) pl by (auto simp: stream_rx_state_def chunk_of_def)
      moreover have "stream_plain P d (r @ payload ct) = []"
        using wait \<open>n = b_len ct\<close> pl by (simp add: stream_plain_def)
      moreover have "stream_decrypt L P ct ctx cap tmp
          = Inr (CRYPTO_NEED_MORE, ct1, ctx\<lparr>cx_chunk := Some c'\<rparr>, t1\<lparr>b_len := b_len ct\<rparr>)"
        using wait h(5) stream_decrypt_handshake_eq[OF same(3), of L P ct False] by (simp add: t1_def)
      ultimately show ?thesis using p0 t1(2) by auto
    next
      case go: False
      then have n: "n \<le> b_len ct" "length r + n = stream_hs_len d" using True by (auto simp: n_def)
      define r' where "r' = r @ take n (payload ct)"
      have r': "length r' = stream_hs_len d" "r @ payload ct = r' @ payload ct1" using n pl h(4) by (simp_all add: r'_def)
      define ctx1 where "ctx1 = ctx\<lparr>cx_kx := stream_rx_kx P d (take KXBYTES r'),
              cx_nonce := write_at 0 (drop (stream_hs_len d - c_nonce_len (cx_cipher d)) r') (cx_nonce d),
              cx_chunk := Some c', cx_counter := 0, cx_init := 1\<rparr>"
      have c1: "stream_rx_state P d ctx1 r'"
        using r' same by (simp add: stream_rx_state_def ctx1_def rx_nonce_def stream_hs_len_def)
      have c: "cx_cipher ctx1 = cx_cipher d" "kx_rx (cx_kx ctx1) = kx_rx (stream_rx_kx P d (take KXBYTES r'))"
        "cx_nonce ctx1 = rx_nonce d r'" "cx_counter ctx1 = of_nat 0" "cx_init ctx1 \<noteq> 0"
        using c1 r' by (auto simp: stream_rx_state_def)
      have nn: "12 \<le> length (rx_nonce d r')" using assms(2,3) by (simp add: rx_nonce_def)
      have l1: "length (payload ct1) = b_len ct1" "b_len ct1 \<le> b_len ct"
        using length_payload[OF h(3)] h(4) pl by simp_all
      have hs: "stream_decrypt_handshake L P ct ctx = Inr (True, ct1, ctx1, b_len ct1)"
        using go h(2,5) by (simp add: ctx1_def r'_def)
      from decrypt_call_open[of ctx1 0 ct1 t1 L cap] m nn c h(3) mx l1 t1
      obtain ct' tmp' where r: "stream_decrypt L P ct ctx cap tmp
          = Inr (if b_len ct1 = 0 then CRYPTO_NEED_MORE else CRYPTO_OK, ct',
              ctx1\<lparr>cx_counter := of_nat (b_len ct1)\<rparr>, tmp')" "wf_buffer tmp'"
        "payload ct' = xor_bytes (payload ct1) (sodium_ks (c_method (cx_cipher d))
           (kx_rx (stream_rx_kx P d (take KXBYTES r'))) (rx_nonce d r') (b_len ct1))"
        using stream_decrypt_handshake_eq[OF same(3) hs]
        by (auto simp: t1_def)
      have "stream_rx_state P d (ctx1\<lparr>cx_counter := of_nat (b_len ct1)\<rparr>) (r' @ payload ct1)"
        using c r' l1 by (simp add: stream_rx_state_def handshake_prefix del: take_append)
      moreover have "stream_plain P d r' = []" using r' by (simp add: stream_plain_def)
      ultimately show ?thesis
        using r stream_plain_append[OF m, of r' P "payload ct1"] r' l1 p0 by auto
    qed
  qed
qed

section \<open>Both ends\<close>

fun stream_send ::
    "mbedtls \<Rightarrow> nat \<Rightarrow> cipher_ctx \<Rightarrow> buffer \<Rightarrow> byte list list \<Rightarrow> byte list option run" where
  "stream_send L cap ctx tmp [] = Inr (Some [])"
| "stream_send L cap ctx tmp (m # ms) =
     bindE (stream_encrypt L (recv_buffer cap m) ctx cap tmp) (\<lambda>(ret, pt, ctx, tmp).
       if ret \<noteq> CRYPTO_OK then Inr None
       else bindE (stream_send L cap ctx tmp ms) (\<lambda>r.
              Inr (map_option (\<lambda>out. payload pt @ out) r)))"

fun stream_recv ::
    "mbedtls \<Rightarrow> kx_prims \<Rightarrow> nat \<Rightarrow> cipher_ctx \<Rightarrow> buffer \<Rightarrow> byte list list \<Rightarrow> byte list option run" where
  "stream_recv L P cap ctx tmp [] = Inr (Some [])"
| "stream_recv L P cap ctx tmp (s # ss) =
     bindE (stream_decrypt L P (recv_buffer cap s) ctx cap tmp) (\<lambda>(ret, ct, ctx, tmp).
       if ret = CRYPTO_ERROR then Inr None
       else bindE (stream_recv L P cap ctx tmp ss) (\<lambda>r.
              Inr (map_option (\<lambda>out. (if ret = CRYPTO_OK then payload ct else []) @ out) r)))"

lemma b_len_recv_buffer [simp]: "b_len (recv_buffer cap m) = length m"
  by (simp add: recv_buffer_def)

lemma stream_send_more:
  assumes m: "sodium_method meth" and n: "12 \<le> length n"
    and "tx_at ctx meth k n pos" and "wf_buffer tmp" and "pos + length (concat ms) < 2 ^ 31"
  shows "stream_send L cap ctx tmp ms = Inr (Some (xor_bytes (concat ms)
    (drop pos (sodium_ks meth k n (pos + length (concat ms))))))"
  using assms(3-)
proof (induction ms arbitrary: ctx tmp pos)
  case (Cons t ms)
  have l: "pos < 2 ^ 31" "b_len (recv_buffer cap t) + 64 \<le> chacha_max" "pos + length t + length (concat ms) < 2 ^ 31"
    using Cons.prems(3) by (simp_all add: chacha_max_def)
  from encrypt_call_more[OF m n Cons.prems(1) l(1) recv_buffer(1) l(2) Cons.prems(2), of L cap]
  obtain pt' ctx' tmp' where e: "stream_encrypt L (recv_buffer cap t) ctx cap tmp = Inr (CRYPTO_OK, pt', ctx', tmp')"
    "wf_buffer tmp'" "tx_at ctx' meth k n (pos + length t)"
    "payload pt' = xor_bytes t (drop pos (sodium_ks meth k n (pos + length t)))"
    by auto
  let ?N = "pos + length t + length (concat ms)"
  have pre: "take (length t) (drop pos (sodium_ks meth k n ?N)) = drop pos (sodium_ks meth k n (pos + length t))"
    using sodium_ks_prefix[OF m, of "pos + length t" ?N k n] by (simp add: take_drop add.commute)
  have "xor_bytes (t @ concat ms) (drop pos (sodium_ks meth k n ?N)) =
      payload pt' @ xor_bytes (concat ms) (drop (pos + length t) (sodium_ks meth k n ?N))"
    using xor_bytes_prefix_append[OF _ pre, of "concat ms"] e(4) by (simp add: add.commute)
  with Cons.IH[OF e(3,2) l(3)] e(1) show ?case by (simp add: add.assoc)
qed simp

lemma stream_send_first:
  assumes "sodium_method (c_method (cx_cipher ctx))" and "12 \<le> length (cx_nonce ctx)"
      "c_nonce_len (cx_cipher ctx) \<le> length (cx_nonce ctx)"
    and "cx_init ctx = 0" "length (kx_pk (cx_kx ctx)) = KXBYTES"
    and "KXBYTES + c_nonce_len (cx_cipher ctx) \<le> cap"
    and ms: "ms \<noteq> []" "length (concat ms) < 2 ^ 31" and tmp: "wf_buffer tmp"
  shows "stream_send L cap ctx tmp ms = Inr (Some (stream_header ctx @ xor_bytes (concat ms)
    (sodium_ks (c_method (cx_cipher ctx)) (kx_tx (cx_kx ctx)) (cx_nonce ctx) (length (concat ms)))))"
proof -
  let ?ks = "sodium_ks (c_method (cx_cipher ctx)) (kx_tx (cx_kx ctx)) (cx_nonce ctx)"
  obtain t ms' where t: "ms = t # ms'" using ms(1) by (cases ms) auto
  have l: "b_len (recv_buffer cap t) + 64 \<le> chacha_max" "length t + length (concat ms') < 2 ^ 31"
    using ms(2) by (simp_all add: t chacha_max_def)
  from encrypt_call_first[OF assms(1-6) recv_buffer(1) l(1) tmp, of L]
  obtain pt' ctx' tmp' where e: "stream_encrypt L (recv_buffer cap t) ctx cap tmp = Inr (CRYPTO_OK, pt', ctx', tmp')"
    "wf_buffer tmp'" "tx_at ctx' (c_method (cx_cipher ctx)) (kx_tx (cx_kx ctx)) (cx_nonce ctx) (length t)"
    "payload pt' = stream_header ctx @ xor_bytes t (?ks (length t))"
    by auto
  have "xor_bytes (t @ concat ms') (?ks (length t + length (concat ms'))) =
      xor_bytes t (?ks (length t)) @ xor_bytes (concat ms') (drop (length t) (?ks (length t + length (concat ms'))))"
    using sodium_ks_prefix[OF assms(1), of "length t" "length t + length (concat ms')"]
    by (intro xor_bytes_prefix_append) simp_all
  with stream_send_more[OF assms(1,2) e(3,2) l(2), of L cap] e(1,4) show ?thesis by (simp add: t)
qed

lemma stream_recv_state:
  assumes "sodium_method (c_method (cx_cipher d))" and "12 \<le> length (cx_nonce d)"
      "c_nonce_len (cx_cipher d) \<le> length (cx_nonce d)" and "cx_init d = 0"
    and "stream_rx_state P d ctx r" and "length r + length (concat segs) < 2 ^ 31" and "wf_buffer tmp"
  shows "\<exists>out. stream_recv L P cap ctx tmp segs = Inr (Some out) \<and>
    stream_plain P d (r @ concat segs) = stream_plain P d r @ out"
  using assms(5-)
proof (induction segs arbitrary: ctx r tmp)
  case (Cons s segs)
  have "length r + b_len (recv_buffer cap s) < 2 ^ 31" using Cons.prems(2) by simp
  from stream_rx_step[OF assms(1-4) Cons.prems(1) recv_buffer(1) this Cons.prems(3), of L cap]
  obtain ret ct' ctx' tmp' where s: "stream_decrypt L P (recv_buffer cap s) ctx cap tmp = Inr (ret, ct', ctx', tmp')"
    "ret \<noteq> CRYPTO_ERROR" "wf_buffer tmp'" "stream_rx_state P d ctx' (r @ s)"
    "stream_plain P d (r @ s) = stream_plain P d r @ (if ret = CRYPTO_OK then payload ct' else [])"
    by auto
  from Cons.IH[OF s(4) _ s(3)] Cons.prems(2) s show ?case by auto
qed simp

section \<open>Properties\<close>

lemma stream_rx_start: "cx_chunk d = None \<Longrightarrow> 0 < stream_hs_len d \<Longrightarrow> stream_rx_state P d d []"
  by (cases d) (auto simp: stream_rx_state_def chunk_ok_def chunk_of_def)

lemma stream_plain_nil: "stream_plain P d [] = []"
  by (simp add: stream_plain_def)

lemma sodium_ks_nonce:
  assumes "sodium_method meth" and "l = (if meth = CHACHA20IETF then 12 else 8)" and "take l n = take l n'"
  shows "sodium_ks meth k n = sodium_ks meth k n'"
  using assms by (auto simp: sodium_method_def sodium_ks_def fun_eq_iff salsa20_stream_def)

lemma stream_ctx_init_sodium:
  assumes "sodium_method (c_method cip)" and "\<And>n. length (rb n) = n" and "c_nonce_len cip \<le> MAX_NONCE_LENGTH"
  shows "\<exists>ctx. stream_ctx_init L rb cip (Some kx) enc = Inr ctx \<and> cx_init ctx = 0 \<and> cx_chunk ctx = None \<and>
    cx_cipher ctx = cip \<and> cx_kx ctx = kx \<and> length (cx_nonce ctx) = MAX_NONCE_LENGTH"
  using assms
  by (auto simp: stream_ctx_init_def stream_cipher_ctx_init_def Let_def zero_ctx_def sodium_method_def)

definition sodium_cipher :: "cipher \<Rightarrow> bool" where
  "sodium_cipher cip \<longleftrightarrow> sodium_method (c_method cip) \<and>
     c_nonce_len cip = supported_stream_ciphers_nonce_size ! nat (c_method cip)"

lemma sodium_cipher_facts:
  assumes "sodium_cipher cip"
  shows "sodium_method (c_method cip)" "c_nonce_len cip = (if c_method cip = CHACHA20IETF then 12 else 8)"
    "c_nonce_len cip \<le> MAX_NONCE_LENGTH"
  using assms by (auto simp: sodium_cipher_def sodium_method_def supported_stream_ciphers_nonce_size_def)

text \<open>The key the receiver ends up with matches the key of the sender.\<close>

definition stream_keys_match :: "kx_prims \<Rightarrow> kx_ctx \<Rightarrow> kx_ctx \<Rightarrow> bool \<Rightarrow> bool" where
  "stream_keys_match P ke kd loc \<longleftrightarrow> length (kx_pk ke) = KXBYTES \<and> pk_sent ke = rpk_received kd \<and>
     kx_rx (if rpk_received kd then kd else fst (crypto_kx_ctx_init P [] kd loc (kx_pk ke))) = kx_tx ke"

lemma stream_plain_wire:
  assumes cip: "sodium_cipher cip" and e: "cx_cipher e = cip" "length (cx_nonce e) = MAX_NONCE_LENGTH"
    and d: "cx_cipher d = cip" "length (cx_nonce d) = MAX_NONCE_LENGTH" "cx_is_local d = loc"
    and k: "stream_keys_match P (cx_kx e) (cx_kx d) loc"
  shows "stream_plain P d (stream_header e @ xor_bytes m (sodium_ks (c_method cip) (kx_tx (cx_kx e)) (cx_nonce e) (length m))) = m"
proof -
  note c = sodium_cipher_facts[OF cip]
  let ?h = "stream_header e" and ?n = "take (c_nonce_len cip) (cx_nonce e)"
  let ?W = "?h @ xor_bytes m (sodium_ks (c_method cip) (kx_tx (cx_kx e)) (cx_nonce e) (length m))"
  have h: "length ?h = stream_hs_len d"
    using k c(3) e d by (simp add: stream_header_def stream_hs_len_def stream_keys_match_def)
  have "drop (stream_hs_len d - c_nonce_len cip) ?h = ?n"
    using k d e by (simp add: stream_header_def stream_hs_len_def stream_keys_match_def)
  then have n: "rx_nonce d ?W = write_at 0 ?n (cx_nonce d)"
    using handshake_prefix(1)[of d ?h] h d c(3) e(2) by (simp add: rx_nonce_def)
  have rk: "kx_rx (stream_rx_kx P d (take KXBYTES ?W)) = kx_tx (cx_kx e)"
    unfolding handshake_prefix(2)[OF eq_refl[OF h[symmetric]]] using k d
    by (cases "rpk_received (cx_kx d)") (simp_all add: stream_rx_kx_def stream_keys_match_def stream_header_def)
  have "take (c_nonce_len cip) (write_at 0 ?n (cx_nonce d)) = ?n"
    using take_write_at_0[of ?n "cx_nonce d"] c(3) e d by simp
  then have ks: "sodium_ks (c_method cip) k (rx_nonce d ?W) = sodium_ks (c_method cip) k (cx_nonce e)" for k
    unfolding n by (intro sodium_ks_nonce[OF c(1,2)]) simp
  show ?thesis
    unfolding stream_plain_def d(1) ks rk using h by (simp add: xor_bytes_involutive)
qed

text \<open>
  C7. The stream ciphers of libsodium (\<open>salsa20\<close>, \<open>chacha20\<close>, \<open>chacha20-ietf\<close>) over a
  connection: contexts made by \<open>stream_ctx_init\<close>, one call of \<open>stream_encrypt\<close> per message (any
  lengths, also not multiples of the 64-byte block), one call of \<open>stream_decrypt\<close> per segment
  received.  As long as less than 2 GiB are sent and the keys match, sending succeeds and every way
  to cut the byte stream into segments delivers exactly the bytes sent.
\<close>

theorem stream_channel:
  assumes "sodium_cipher cip" and "\<And>n. length (rb n) = n" and "\<And>n. length (rb' n) = n"
    and "stream_keys_match P ke kd loc" and "KXBYTES + c_nonce_len cip \<le> cap"
    and "ms \<noteq> []" and "length (concat ms) + 64 < 2 ^ 31" and "wf_buffer tmp" and "wf_buffer tmp'"
  shows "\<exists>e d W. stream_ctx_init L rb cip (Some ke) True = Inr e \<and>
    stream_ctx_init L rb' cip (Some kd) False = Inr d \<and>
    stream_send L cap e tmp ms = Inr (Some W) \<and>
    (\<forall>segs. concat segs = W \<longrightarrow>
       stream_recv L P cap' (d\<lparr>cx_is_local := loc\<rparr>) tmp' segs = Inr (Some (concat ms)))"
proof -
  note c = sodium_cipher_facts[OF assms(1)]
  obtain e where e: "stream_ctx_init L rb cip (Some ke) True = Inr e" "cx_init e = 0"
    "cx_cipher e = cip" "cx_kx e = ke" "length (cx_nonce e) = MAX_NONCE_LENGTH"
    using stream_ctx_init_sodium[of cip rb L ke True] assms(2) c by blast
  obtain d0 where d0: "stream_ctx_init L rb' cip (Some kd) False = Inr d0" "cx_init d0 = 0" "cx_chunk d0 = None"
    "cx_cipher d0 = cip" "cx_kx d0 = kd" "length (cx_nonce d0) = MAX_NONCE_LENGTH"
    using stream_ctx_init_sodium[of cip rb' L kd False] assms(3) c by blast
  define d where "d = d0\<lparr>cx_is_local := loc\<rparr>"
  have d: "cx_init d = 0" "cx_chunk d = None" "cx_cipher d = cip" "cx_kx d = kd" "cx_is_local d = loc"
    "length (cx_nonce d) = MAX_NONCE_LENGTH" using d0 by (simp_all add: d_def)
  let ?W = "stream_header e @ xor_bytes (concat ms)
    (sodium_ks (c_method cip) (kx_tx (cx_kx e)) (cx_nonce e) (length (concat ms)))"
  have pk: "length (kx_pk ke) = KXBYTES" using assms(4) by (simp add: stream_keys_match_def)
  have send: "stream_send L cap e tmp ms = Inr (Some ?W)"
    using stream_send_first[of e cap ms tmp L] c e pk assms(5-8) by simp
  have pl: "stream_plain P d ?W = concat ms"
    using stream_plain_wire[OF assms(1) e(3,5) d(3,6,5), of P "concat ms"] assms(4) e(4) d(4) by simp
  have hl: "length (stream_header e) \<le> 44"
    using c(2) e(3) pk e(4) by (auto simp: stream_header_def split: if_splits)
  have "stream_recv L P cap' d tmp' segs = Inr (Some (concat ms))" if "concat segs = ?W" for segs
  proof -
    have "0 < stream_hs_len d" using c(2) d(3) by (simp add: stream_hs_len_def)
    moreover have "length [] + length (concat segs) < 2 ^ 31" using that hl assms(7) by simp
    ultimately obtain out where "stream_recv L P cap' d tmp' segs = Inr (Some out)" "stream_plain P d ([] @ concat segs) = stream_plain P d [] @ out"
      using stream_recv_state[of d P d "[]" segs tmp' L cap'] stream_rx_start[of d P] c d assms(9) by auto
    then show ?thesis using that pl by (simp add: stream_plain_nil)
  qed
  with e(1) d0(1) send show ?thesis unfolding d_def by blast
qed

definition salsa20_cipher :: cipher where
  "salsa20_cipher = \<lparr>c_method = SALSA20, c_nonce_len = 8, c_key_len = 32, c_tag_len = 0,
     c_pk = replicate KXBYTES 1, c_sk = replicate KXBYTES 2\<rparr>"

lemma salsa20_cipher_ok [simp]: "sodium_cipher salsa20_cipher" "c_nonce_len salsa20_cipher = 8"
  by (simp_all add: sodium_cipher_def salsa20_cipher_def sodium_method_def
      supported_stream_ciphers_nonce_size_def)

theorem stream_channel_witness:
  "\<exists>e d W. stream_ctx_init plain_mbedtls (\<lambda>n. replicate n 5) salsa20_cipher (Some zero_kx) True = Inr e \<and>
    stream_ctx_init plain_mbedtls (\<lambda>n. replicate n 0) salsa20_cipher (Some zero_kx) False = Inr d \<and>
    stream_send plain_mbedtls 2048 e null_buffer [[1, 2, 3], [], replicate 100 7] = Inr (Some W) \<and>
    (\<forall>segs. concat segs = W \<longrightarrow>
       stream_recv plain_mbedtls plain_kx 2048 (d\<lparr>cx_is_local := False\<rparr>) null_buffer segs
         = Inr (Some ([1, 2, 3] @ replicate 100 7)))"
proof -
  have "stream_keys_match plain_kx zero_kx zero_kx False"
    by (simp add: stream_keys_match_def crypto_kx_ctx_init_def crypto_kx_server_session_keys_def
        set_session_keys_def Let_def, simp add: zero_kx_def plain_kx_def)
  from stream_channel[OF salsa20_cipher_ok(1) _ _ this, of "\<lambda>n. replicate n 5" "\<lambda>n. replicate n 0" 2048
      "[[1, 2, 3], [], replicate 100 7]" null_buffer null_buffer plain_mbedtls 2048]
  show ?thesis by simp
qed

lemma neg_padding:
  assumes "bit (c :: u64) 31" and "c mod 64 \<noteq> 0"
  shows "c_rem (sint (ucast c :: u32)) 64 < 0"
proof -
  define w :: u32 where "w = ucast c"
  have b: "bit w 31" using assms(1) by (simp add: w_def bit_ucast_iff)
  then have s: "sint w < 0" by (simp add: sint_uint bit_uint_iff signed_take_bit_negative_iff)
  have "uint w mod 64 = uint c mod 64"
    by (simp add: w_def unsigned_ucast_eq take_bit_eq_mod mod_mod_cancel)
  moreover have "uint c mod 64 \<noteq> 0"
    using assms(2) by (simp add: word_uint_eq_iff uint_mod)
  moreover have "sint w mod 64 = uint w mod 64"
    using take_bit_signed_take_bit[of 6 31 "uint w"] by (simp add: sint_uint take_bit_eq_mod)
  ultimately have "sint w mod 64 \<noteq> 0" by simp
  then have "\<not> 64 dvd sint w" by (simp add: dvd_eq_mod_eq_0)
  then have "\<bar>sint w\<bar> mod 64 \<noteq> 0" by (metis dvd_abs_iff dvd_eq_mod_eq_0)
  then have "0 < \<bar>sint w\<bar> mod 64" using pos_mod_sign[of 64 "\<bar>sint w\<bar>"] by linarith
  with s show ?thesis by (simp add: c_rem_def sgn_if w_def[symmetric])
qed



lemma set_nonce_mbedtls:
  assumes "c_method (cx_cipher ctx) < SALSA20" and "cx_evp ctx = Some evp"
    and "\<And>k. cipher_setkey L k" and "\<And>n. cipher_set_iv L n"
  shows "\<exists>evp2. cipher_ctx_set_nonce L ctx n nl enc = Inr (ctx\<lparr>cx_evp := Some evp2\<rparr>) \<and> evp_in evp2 = []"
  using assms by (auto simp: cipher_ctx_set_nonce_def Let_def split: prod.splits)

lemma header_mbedtls:
  assumes "c_method (cx_cipher ctx) < SALSA20" and "cx_init ctx = 0" and "cx_evp ctx = Some evp"
    and "\<And>k. cipher_setkey L k" and "\<And>n. cipher_set_iv L n"
  shows "stream_encrypt_header L ctx t1 pl nl = Inl OutOfBounds \<or>
    (\<exists>t2 ctx2 evp2. stream_encrypt_header L ctx t1 pl nl = Inr (t2, ctx2) \<and> b_capacity t2 = b_capacity t1 \<and>
      cx_cipher ctx2 = cx_cipher ctx \<and> cx_evp ctx2 = Some evp2 \<and> evp_in evp2 = [])"
proof -
  define ctx1 where "ctx1 = (if pk_sent (cx_kx ctx) then ctx else ctx\<lparr>cx_kx := (cx_kx ctx)\<lparr>pk_sent := True\<rparr>\<rparr>)"
  have "c_method (cx_cipher ctx1) < SALSA20" "cx_evp ctx1 = Some evp" using assms by (simp_all add: ctx1_def)
  from set_nonce_mbedtls[OF this assms(4,5), of "cx_nonce ctx1" nl True]
  obtain evp2 where "cipher_ctx_set_nonce L ctx1 (cx_nonce ctx1) nl True = Inr (ctx1\<lparr>cx_evp := Some evp2\<rparr>)" "evp_in evp2 = []"
    by blast
  then show ?thesis
    using assms(2) by (cases "pk_sent (cx_kx ctx)") (auto simp: stream_encrypt_header_def buf_write_def ctx1_def)
qed

text \<open>
  With the ciphers of \<^verbatim>\<open>mbedtls\<close> the first call of \<open>stream_encrypt\<close> on a client allocates
  room for the nonce and the message but not for the public key it also sends: when the message
  fills the buffer (\<open>capacity\<close> bytes) the ciphertext is written beyond the allocation.
\<close>

theorem stream_encrypt_first_overflow:
  assumes "c_method (cx_cipher ctx) < SALSA20" and "cx_init ctx = 0" and "\<not> pk_sent (cx_kx ctx)"
    and "cx_evp ctx = Some evp" and "\<And>k. cipher_setkey L k" and "\<And>n. cipher_set_iv L n"
    and "\<And>enc k n m. \<exists>c. cipher_stream L (c_method (cx_cipher ctx)) enc k n m = Some c \<and> length c = length m"
    and "wf_buffer pt" and "cap \<le> b_len pt" and "b_capacity tmp \<le> c_nonce_len (cx_cipher ctx) + b_len pt"
  shows "stream_encrypt L pt ctx cap tmp = Inl OutOfBounds"
proof -
  let ?nl = "c_nonce_len (cx_cipher ctx)"
  define t1 where "t1 = (brealloc tmp (?nl + b_len pt) cap)\<lparr>b_len := b_len pt\<rparr>"
  have cap: "b_capacity t1 = ?nl + b_len pt" using assms(9,10) by (simp add: t1_def brealloc_capacity)
  consider "stream_encrypt_header L ctx t1 KXBYTES ?nl = Inl OutOfBounds"
    | t2 ctx2 evp2 where "stream_encrypt_header L ctx t1 KXBYTES ?nl = Inr (t2, ctx2)" "b_capacity t2 = b_capacity t1"
        "cx_cipher ctx2 = cx_cipher ctx" "cx_evp ctx2 = Some evp2" "evp_in evp2 = []"
    using header_mbedtls[OF assms(1,2,4-6)] by blast
  then show ?thesis
  proof cases
    case 1
    then show ?thesis using assms(2,3) by (simp add: stream_encrypt_def Let_def t1_def)
  next
    case 2
    obtain m where m: "buf_read 0 (b_len pt) pt = Inr m" "length m = b_len pt"
      using assms(8) by (simp add: buf_read_def wf_buffer_def)
    obtain c where c: "cipher_stream L (c_method (cx_cipher ctx)) (evp_enc evp2) (evp_key evp2) (evp_iv evp2) m = Some c"
      "length c = b_len pt" using assms(7) m(2) by metis
    have "stream_encrypt_body L pt ctx2 cap t2 (KXBYTES + ?nl) = Inl OutOfBounds"
      using assms(1) 2(2-5) m(1) c cap
      by (simp add: stream_encrypt_body_def cipher_ctx_update_def Let_def buf_write_def)
    with 2(1) show ?thesis using assms(2,3) by (simp add: stream_encrypt_def Let_def t1_def)
  qed
qed

theorem stream_encrypt_first_overflow_witness:
  "stream_encrypt plain_mbedtls (recv_buffer 2048 (replicate 2048 1))
     ((zero_ctx (salsa20_cipher\<lparr>c_method := 5, c_nonce_len := 16\<rparr>))\<lparr>cx_evp := Some fresh_evp\<rparr>) 2048 null_buffer
   = Inl OutOfBounds"
  by (rule stream_encrypt_first_overflow[where evp = fresh_evp])
    (simp_all add: plain_mbedtls_def zero_kx_def null_buffer_def zero_ctx_def)

subsection \<open>Datagrams\<close>

lemma crypto_stream_xor_0:
  assumes "sodium_method meth" and "12 \<le> length n" and "length m \<le> chacha_max"
  shows "crypto_stream_xor_ic m n 0 k meth = Inr (xor_bytes m (sodium_ks meth k n (length m)))"
  using assms salsa20.xor_ic_eq[of n m 0 k] chacha20.xor_ic_eq[of n m 0 k] chacha20_ietf.xor_ic_eq[of n m 0 k]
  by (auto simp: sodium_method_def sodium_ks_def)

lemma copy_back_0:
  assumes "wf_buffer pt" and "length (b_data t) = b_capacity t" and "n \<le> b_capacity t"
  shows "\<exists>pt'. bindE (buf_read 0 n t) (\<lambda>bs. bindE (buf_write 0 bs (brealloc pt n cap)) (\<lambda>pt. Inr (f (pt\<lparr>b_len := n\<rparr>))))
      = Inr (f pt') \<and> wf_buffer pt' \<and> payload pt' = take n (b_data t)"
  using copy_back[OF assms refl] .

lemma encrypt_all_sodium:
  assumes cip: "sodium_cipher cip" and rb: "\<And>n. length (rb n) = n" and kx: "length (kx_pk kx) = KXBYTES"
    and pt: "wf_buffer pt" "b_len pt \<le> chacha_max" and t: "wf_buffer tmp"
  shows "\<exists>pt' tmp'. stream_encrypt_all L rb pt cip kx cap tmp = Inr (CRYPTO_OK, pt', kx\<lparr>pk_sent := True\<rparr>, tmp') \<and>
    wf_buffer pt' \<and> wf_buffer tmp' \<and>
    payload pt' = (if pk_sent kx then [] else kx_pk kx) @ rb (c_nonce_len cip) @
      xor_bytes (payload pt) (sodium_ks (c_method cip) (kx_tx kx) (write_at 0 (rb (c_nonce_len cip)) (replicate MAX_NONCE_LENGTH 0)) (b_len pt))"
proof -
  note c = sodium_cipher_facts[OF cip]
  let ?nl = "c_nonce_len cip" and ?meth = "c_method cip"
  define pk where "pk = (if pk_sent kx then [] else kx_pk kx)"
  define n where "n = write_at 0 (rb ?nl) (replicate MAX_NONCE_LENGTH 0 :: byte list)"
  define ctx where "ctx = (zero_ctx cip)\<lparr>cx_kx := kx, cx_nonce := n\<rparr>"
  have n: "length n = MAX_NONCE_LENGTH" "take ?nl n = rb ?nl"
    using c(3) rb[of ?nl] take_write_at_0[of "rb ?nl" "replicate MAX_NONCE_LENGTH 0"] by (simp_all add: n_def)
  have init: "stream_ctx_init L rb cip (Some kx) True = Inr ctx"
    using c(1) by (auto simp: stream_ctx_init_def stream_cipher_ctx_init_def Let_def zero_ctx_def sodium_method_def ctx_def n_def)
  have pkl: "(if \<not> pk_sent kx then KXBYTES else 0) = length pk" using kx by (simp add: pk_def)
  define t1 where "t1 = (brealloc tmp (length pk + ?nl + b_len pt) cap)\<lparr>b_len := b_len pt\<rparr>"
  have t1: "length (b_data t1) = b_capacity t1" "length pk + ?nl + b_len pt \<le> b_capacity t1" "b_len t1 = b_len pt"
    using wf_brealloc[OF t, of "length pk + ?nl + b_len pt" cap] brealloc_capacity_ge(1)[of "length pk + ?nl + b_len pt" tmp cap]
    by (simp_all add: t1_def wf_buffer_def)
  define body where "body = xor_bytes (payload pt) (sodium_ks ?meth (kx_tx kx) n (b_len pt))"
  have bl: "length body = b_len pt" "length (payload pt) = b_len pt" using pt by (simp_all add: body_def)
  have xor: "crypto_stream_xor_ic (payload pt) n 0 (kx_tx kx) ?meth = Inr body"
    using crypto_stream_xor_0[OF c(1), of n "payload pt" "kx_tx kx"] n pt bl by (simp add: body_def)
  have rd: "buf_read 0 (b_len pt) pt = Inr (payload pt)" using pt by (simp add: buf_read_def payload_def wf_buffer_def)
  define t2 where "t2 = t1\<lparr>b_data := write_at 0 (pk @ rb ?nl @ body) (b_data t1)\<rparr>"
  have hd: "(if \<not> pk_sent kx then bindE (buf_write 0 (take (length pk) (kx_pk kx)) t1) (\<lambda>tmp. Inr (tmp, kx\<lparr>pk_sent := True\<rparr>))
      else Inr (t1, kx)) = Inr (t1\<lparr>b_data := write_at 0 pk (b_data t1)\<rparr>, kx\<lparr>pk_sent := True\<rparr>)"
    using t1 by (cases "pk_sent kx") (simp_all add: pk_def buf_write_def write_at_def)
  have ww: "write_at (length pk + ?nl) body (write_at (length pk) (rb ?nl) (write_at 0 pk (b_data t1)))
      = write_at 0 (pk @ rb ?nl @ body) (b_data t1)"
    using write_at_write_at[of 0 pk "b_data t1" "rb ?nl"] write_at_write_at[of 0 "pk @ rb ?nl" "b_data t1" body]
      t1 rb[of ?nl] bl by simp
  have t2: "length (b_data t2) = b_capacity t2" "length pk + ?nl + b_len pt \<le> b_capacity t2" "b_len t2 = b_len pt"
    "take (length pk + ?nl + b_len pt) (b_data t2) = pk @ rb ?nl @ body"
    using t1 bl rb[of ?nl] take_write_at_0[of "pk @ rb ?nl @ body" "b_data t1"] by (simp_all add: t2_def add.assoc)
  from copy_back[OF pt(1) t2(1,2,4), of cap "\<lambda>pt. (CRYPTO_OK, pt, kx\<lparr>pk_sent := True\<rparr>, t2)"]
  obtain pt' where f: "bindE (buf_read 0 (length pk + ?nl + b_len pt) t2) (\<lambda>bs.
      bindE (buf_write 0 bs (brealloc pt (length pk + ?nl + b_len pt) cap))
      (\<lambda>p. Inr (CRYPTO_OK, p\<lparr>b_len := length pk + ?nl + b_len pt\<rparr>, kx\<lparr>pk_sent := True\<rparr>, t2)))
      = Inr (CRYPTO_OK, pt', kx\<lparr>pk_sent := True\<rparr>, t2)" "wf_buffer pt'" "payload pt' = pk @ rb ?nl @ body"
    by blast
  have sn: "cipher_ctx_set_nonce L ctx n ?nl True = Inr ctx" "cx_nonce ctx = n" "cx_kx ctx = kx"
    using c(1) by (simp_all add: cipher_ctx_set_nonce_def ctx_def zero_ctx_def Let_def)
  have w1: "buf_write (length pk) (rb ?nl) (t1\<lparr>b_data := write_at 0 pk (b_data t1)\<rparr>)
      = Inr (t1\<lparr>b_data := write_at (length pk) (rb ?nl) (write_at 0 pk (b_data t1))\<rparr>)"
    and w2: "buf_write (length pk + ?nl) body (t1\<lparr>b_data := write_at (length pk) (rb ?nl) (write_at 0 pk (b_data t1))\<rparr>)
      = Inr t2"
    using t1 bl rb[of ?nl] by (simp_all add: buf_write_def t2_def ww)
  have "stream_encrypt_all L rb pt cip kx cap tmp = Inr (CRYPTO_OK, pt', kx\<lparr>pk_sent := True\<rparr>, t2)"
    unfolding stream_encrypt_all_def init bindE_simps Let_def pkl t1_def[symmetric] sn(2) sn(1) hd prod.case n(2) w1
    using c(1) f(1) t2(3) by (simp add: rd xor w2 sn(3))
  moreover have "wf_buffer t2" using t2 by (simp add: wf_buffer_def)
  ultimately show ?thesis using f by (simp add: pk_def body_def n_def)
qed

lemma decrypt_all_sodium:
  assumes cip: "sodium_cipher cip" and ct: "wf_buffer ct" "b_len ct \<le> chacha_max" "c_nonce_len cip < b_len ct"
    and t: "wf_buffer tmp"
  shows "\<exists>ct' tmp'. stream_decrypt_all L ct cip kx cap tmp = Inr (CRYPTO_OK, ct', tmp') \<and>
    wf_buffer ct' \<and> wf_buffer tmp' \<and>
    payload ct' = xor_bytes (drop (c_nonce_len cip) (payload ct)) (sodium_ks (c_method cip) (kx_rx kx)
      (write_at 0 (take (c_nonce_len cip) (payload ct)) (replicate MAX_NONCE_LENGTH 0)) (b_len ct - c_nonce_len cip))"
proof -
  note c = sodium_cipher_facts[OF cip]
  let ?nl = "c_nonce_len cip" and ?meth = "c_method cip"
  let ?p = "take ?nl (payload ct)" and ?b = "drop ?nl (payload ct)"
  define n where "n = write_at 0 ?p (replicate MAX_NONCE_LENGTH 0 :: byte list)"
  define ctx where "ctx = (zero_ctx cip)\<lparr>cx_kx := kx\<rparr>"
  define k where "k = b_len ct - ?nl"
  define m where "m = xor_bytes ?b (sodium_ks ?meth (kx_rx kx) n k)"
  have l: "length ?p = ?nl" "length ?b = k" "length n = MAX_NONCE_LENGTH" "length m = k"
    using ct c(3) by (simp_all add: k_def n_def m_def)
  have init: "stream_ctx_init L (\<lambda>_. []) cip (Some kx) False = Inr ctx" "cx_nonce ctx = replicate MAX_NONCE_LENGTH 0"
    using c(1) by (auto simp: stream_ctx_init_def stream_cipher_ctx_init_def Let_def zero_ctx_def sodium_method_def ctx_def)
  have sn: "cipher_ctx_set_nonce L (ctx\<lparr>cx_nonce := n\<rparr>) n ?nl False = Inr (ctx\<lparr>cx_nonce := n\<rparr>)"
    using c(1) by (simp add: cipher_ctx_set_nonce_def ctx_def zero_ctx_def Let_def)
  have rd: "buf_read 0 ?nl ct = Inr ?p" "buf_read ?nl k ct = Inr ?b"
    using ct by (simp_all add: buf_read_def payload_def wf_buffer_def k_def drop_take min_absorb1)
  define t1 where "t1 = (brealloc tmp (b_len ct) cap)\<lparr>b_len := k\<rparr>"
  have t1: "length (b_data t1) = b_capacity t1" "k \<le> b_capacity t1" "b_len t1 = k"
    using wf_brealloc[OF t, of "b_len ct" cap] brealloc_capacity_ge(1)[of "b_len ct" tmp cap]
    by (simp_all add: t1_def wf_buffer_def k_def)
  have xor: "crypto_stream_xor_ic ?b n 0 (kx_rx kx) ?meth = Inr m"
    using crypto_stream_xor_0[OF c(1), of n ?b "kx_rx kx"] l ct(2) by (simp add: m_def k_def)
  define t2 where "t2 = t1\<lparr>b_data := write_at 0 m (b_data t1)\<rparr>"
  have t2: "length (b_data t2) = b_capacity t2" "k \<le> b_capacity t2" "b_len t2 = k" "take k (b_data t2) = m"
    "buf_write 0 m t1 = Inr t2"
    using t1 l take_write_at_0[of m "b_data t1"] by (simp_all add: t2_def buf_write_def)
  from copy_back[OF ct(1) t2(1,2,4), of cap "\<lambda>ct. (CRYPTO_OK, ct, t2)"]
  obtain ct' where f: "bindE (buf_read 0 k t2) (\<lambda>bs. bindE (buf_write 0 bs (brealloc ct k cap))
      (\<lambda>p. Inr (CRYPTO_OK, p\<lparr>b_len := k\<rparr>, t2))) = Inr (CRYPTO_OK, ct', t2)" "wf_buffer ct'" "payload ct' = m"
    by blast
  have "stream_decrypt_all L ct cip kx cap tmp = Inr (CRYPTO_OK, ct', t2)"
    unfolding stream_decrypt_all_def k_def[symmetric] init bindE_simps Let_def t1_def[symmetric] rd n_def[symmetric]
    using ct(3) c(1) f(1) t2(3,5) by (simp add: sn xor)
  moreover have "wf_buffer t2" using t2 by (simp add: wf_buffer_def)
  ultimately show ?thesis using f by (simp add: m_def n_def k_def)
qed

text \<open>
  Datagrams under a libsodium stream cipher when the public key is not sent (as
  \<open>crypto_kx_ctx_init_udp\<close> sets it up): \<open>stream_decrypt_all\<close> of the other side gives back the
  payload, for every payload that is not empty.
\<close>

theorem stream_datagram_roundtrip:
  assumes "sodium_cipher cip" and "\<And>n. length (rb n) = n" and "length (kx_pk ke) = KXBYTES"
    and "pk_sent ke" and "kx_rx kd = kx_tx ke"
    and "wf_buffer pt" and "0 < b_len pt" and "b_len pt + 64 \<le> chacha_max" and "wf_buffer tmp" and "wf_buffer tmp'"
  shows "\<exists>ct t1 pt' t2. stream_encrypt_all L rb pt cip ke cap tmp = Inr (CRYPTO_OK, ct, ke, t1) \<and>
    stream_decrypt_all L ct cip kd cap' tmp' = Inr (CRYPTO_OK, pt', t2) \<and> payload pt' = payload pt"
proof -
  note c = sodium_cipher_facts[OF assms(1)]
  let ?n = "rb (c_nonce_len cip)"
  have ke: "ke\<lparr>pk_sent := True\<rparr> = ke" using assms(4) by simp
  have pl: "length (payload pt) = b_len pt" using assms(6) by simp
  obtain ct t1 where e: "stream_encrypt_all L rb pt cip ke cap tmp = Inr (CRYPTO_OK, ct, ke, t1)" "wf_buffer ct"
    "payload ct = ?n @ xor_bytes (payload pt) (sodium_ks (c_method cip) (kx_tx ke)
       (write_at 0 ?n (replicate MAX_NONCE_LENGTH 0)) (b_len pt))"
    using encrypt_all_sodium[OF assms(1-3,6) _ assms(9), of L cap] assms(4,8) unfolding ke by auto
  have l: "b_len ct = c_nonce_len cip + b_len pt"
    using length_payload[OF e(2)] e(3) pl assms(2)[of "c_nonce_len cip"] by simp
  obtain pt' t2 where d: "stream_decrypt_all L ct cip kd cap' tmp' = Inr (CRYPTO_OK, pt', t2)"
    "payload pt' = xor_bytes (drop (c_nonce_len cip) (payload ct)) (sodium_ks (c_method cip) (kx_rx kd)
      (write_at 0 (take (c_nonce_len cip) (payload ct)) (replicate MAX_NONCE_LENGTH 0)) (b_len ct - c_nonce_len cip))"
    using decrypt_all_sodium[OF assms(1) e(2) _ _ assms(10), of L kd cap'] l c(3) assms(7,8) by auto
  have "payload pt' = payload pt"
    using d(2) e(3) l assms(2)[of "c_nonce_len cip"] pl assms(5) by (simp add: xor_bytes_involutive)
  with e(1) d(1) show ?thesis by blast
qed

theorem stream_datagram_roundtrip_witness:
  "\<exists>ct t1 pt' t2. stream_encrypt_all plain_mbedtls (\<lambda>n. replicate n 5) (recv_buffer 2048 [1, 2, 3]) salsa20_cipher
       (zero_kx\<lparr>pk_sent := True\<rparr>) 2048 null_buffer = Inr (CRYPTO_OK, ct, zero_kx\<lparr>pk_sent := True\<rparr>, t1) \<and>
    stream_decrypt_all plain_mbedtls ct salsa20_cipher zero_kx 2048 null_buffer = Inr (CRYPTO_OK, pt', t2) \<and>
    payload pt' = [1, 2, 3]"
  using stream_datagram_roundtrip[of salsa20_cipher "\<lambda>n. replicate n 5" "zero_kx\<lparr>pk_sent := True\<rparr>" zero_kx
      "recv_buffer 2048 [1, 2, 3]" null_buffer null_buffer plain_mbedtls 2048 2048]
  by (simp, simp add: zero_kx_def chacha_max_def)

end
