(* ===== verification/SS_Sniff.thy ===== *)
theory SS_Sniff
  imports C_Prelude
begin

text \<open>
  The host name sniffers of \<^verbatim>\<open>shadowsocks-libev/src/tls.c\<close> and \<^verbatim>\<open>http.c\<close>: \<open>local.c\<close> and
  \<open>redir.c\<close> call them on the first bytes a client sends to port 443 or 80 in order to apply the
  access control list to the name rather than to the address.

  \<^item> A pointer into the received bytes is an offset into the list of bytes; \<open>rd\<close> faults outside
    of the list, so a theorem that a parser returns shows that it stays inside of the payload.
  \<^item> \<open>al n\<close> tells whether \<open>malloc(n)\<close> succeeds.  The result is the return value with the memory
    \<open>*hostname\<close> points to (\<open>None\<close> when it is not set).
  \<^item> Offsets are below \<open>2 ^ 18\<close> past the start, so \<open>size_t\<close> arithmetic does not wrap; the HTTP
    parser counts in \<open>int\<close>.
\<close>

definition rd :: "byte list \<Rightarrow> nat \<Rightarrow> byte run" where
  "rd m i = (if i < length m then Inr (m ! i) else Inl OutOfBounds)"

text \<open>\<open>strncpy\<close> reads up to the first NUL and fills the rest with zeros.\<close>

fun strncpy :: "byte list \<Rightarrow> nat \<Rightarrow> nat \<Rightarrow> byte list run" where
  "strncpy m off 0 = Inr []"
| "strncpy m off (Suc n) =
     bindE (rd m off) (\<lambda>c.
       if c = 0 then Inr (replicate (Suc n) 0)
       else bindE (strncpy m (Suc off) n) (\<lambda>r. Inr (c # r)))"

definition be16 :: "byte \<Rightarrow> byte \<Rightarrow> nat" where
  "be16 h l = unat h * 256 + unat l"

section \<open>tls.c\<close>

definition TLS_HEADER_LEN :: nat where
  "TLS_HEADER_LEN = 5"

text \<open>\<open>base\<close> is the \<open>data\<close> argument, \<open>pos\<close> the loop variable, which starts at 2.\<close>

function parse_server_name_extension ::
    "(nat \<Rightarrow> bool) \<Rightarrow> byte list \<Rightarrow> nat \<Rightarrow> nat \<Rightarrow> nat \<Rightarrow> (int \<times> byte list option) run" where
  "parse_server_name_extension al m base data_len pos =
     (if pos + 3 < data_len
      then
        bindE (rd m (base + pos + 1)) (\<lambda>h.
        bindE (rd m (base + pos + 2)) (\<lambda>l.
          let len = be16 h l
          in if pos + 3 + len > data_len then Inr (-5, None)
             else
             bindE (rd m (base + pos)) (\<lambda>t.
               if t = 0
               then (if al (len + 1)
                     then bindE (strncpy m (base + pos + 3) len) (\<lambda>s. Inr (int len, Some (s @ [0])))
                     else Inr (-4, None))
               else parse_server_name_extension al m base data_len (pos + (3 + len)))))
      else if pos \<noteq> data_len then Inr (-5, None) else Inr (-2, None))"
  by pat_completeness auto
termination
  by (relation "measure (\<lambda>(_, _, _, data_len, pos). data_len - pos)") auto

function parse_extensions ::
    "(nat \<Rightarrow> bool) \<Rightarrow> byte list \<Rightarrow> nat \<Rightarrow> nat \<Rightarrow> nat \<Rightarrow> (int \<times> byte list option) run" where
  "parse_extensions al m base data_len pos =
     (if pos + 4 \<le> data_len
      then
        bindE (rd m (base + pos + 2)) (\<lambda>h.
        bindE (rd m (base + pos + 3)) (\<lambda>l.
          let len = be16 h l
          in bindE (rd m (base + pos)) (\<lambda>a.
             bindE (if a = 0 then rd m (base + pos + 1) else Inr 1) (\<lambda>b.
               if a = 0 \<and> b = 0
               then (if pos + 4 + len > data_len then Inr (-5, None)
                     else parse_server_name_extension al m (base + pos + 4) len 2)
               else parse_extensions al m base data_len (pos + (4 + len))))))
      else if pos \<noteq> data_len then Inr (-5, None) else Inr (-2, None))"
  by pat_completeness auto
termination
  by (relation "measure (\<lambda>(_, _, _, data_len, pos). data_len - pos)") auto

declare parse_server_name_extension.simps [simp del] parse_extensions.simps [simp del]

text \<open>
  The part of \<open>parse_tls_header\<close> after the record header: the handshake type, the fixed fields,
  session id, cipher suites, compression methods and the extensions.
\<close>

definition parse_client_hello ::
    "(nat \<Rightarrow> bool) \<Rightarrow> byte list \<Rightarrow> nat \<Rightarrow> byte \<Rightarrow> byte \<Rightarrow> (int \<times> byte list option) run" where
  "parse_client_hello al m data_len major minor =
     (let pos = TLS_HEADER_LEN
      in if pos + 1 > data_len then Inr (-5, None)
         else
         bindE (rd m pos) (\<lambda>t.
           if t \<noteq> 1 then Inr (-5, None)
           else
           let pos = pos + 38
           in if pos + 1 > data_len then Inr (-5, None)
              else
              bindE (rd m pos) (\<lambda>len.
                let pos = pos + (1 + unat len)
                in if pos + 2 > data_len then Inr (-5, None)
                   else
                   bindE (rd m pos) (\<lambda>h. bindE (rd m (pos + 1)) (\<lambda>l.
                     let pos = pos + (2 + be16 h l)
                     in if pos + 1 > data_len then Inr (-5, None)
                        else
                        bindE (rd m pos) (\<lambda>len.
                          let pos = pos + (1 + unat len)
                          in if pos = data_len \<and> major = 3 \<and> minor = 0 then Inr (-2, None)
                             else if pos + 2 > data_len then Inr (-5, None)
                             else
                             bindE (rd m pos) (\<lambda>h. bindE (rd m (pos + 1)) (\<lambda>l.
                               let len = be16 h l; pos = pos + 2
                               in if pos + len > data_len then Inr (-5, None)
                                  else parse_extensions al m pos len 0))))))))"

text \<open>\<open>hostname\<close> is whether the pointer is not NULL; \<open>char\<close> is signed on the platform.\<close>

definition parse_tls_header ::
    "(nat \<Rightarrow> bool) \<Rightarrow> byte list \<Rightarrow> nat \<Rightarrow> bool \<Rightarrow> (int \<times> byte list option) run" where
  "parse_tls_header al m data_len hostname =
     (if \<not> hostname then Inr (-3, None)
      else if data_len < TLS_HEADER_LEN then Inr (-1, None)
      else
      bindE (rd m 0) (\<lambda>b0. bindE (rd m 2) (\<lambda>b2.
        if b0 AND 0x80 \<noteq> 0 \<and> b2 = 1 then Inr (-2, None)
        else if b0 \<noteq> 0x16 then Inr (-5, None)
        else
        bindE (rd m 1) (\<lambda>major.
          if sint major < 3 then Inr (-2, None)
          else
          bindE (rd m 3) (\<lambda>h. bindE (rd m 4) (\<lambda>l.
            let len = be16 h l + TLS_HEADER_LEN; data_len = min data_len len
            in if data_len < len then Inr (-1, None)
               else parse_client_hello al m data_len major b2))))))"

section \<open>Any input\<close>

lemma rd_ok [simp]: "i < length m \<Longrightarrow> rd m i = Inr (m ! i)"
  by (simp add: rd_def)

text \<open>\<open>sniffed n r\<close>: a parser returned an error code of its documentation, or a name of \<open>r\<close>
  bytes with its terminating NUL, shorter than \<open>n\<close> bytes.\<close>

definition sniffed :: "nat \<Rightarrow> (int \<times> byte list option) run \<Rightarrow> bool" where
  "sniffed n res \<longleftrightarrow>
     (\<exists>r h. res = Inr (r, h)
        \<and> (r \<in> {-5, -4, -3, -2, -1} \<and> h = None
           \<or> 0 \<le> r \<and> nat r < n \<and> (\<exists>s. h = Some (s @ [0]) \<and> length s = nat r)))"

lemma sniffed_error [simp]:
  "sniffed n (Inr (-1, None))" "sniffed n (Inr (-2, None))" "sniffed n (Inr (-3, None))"
  "sniffed n (Inr (-4, None))" "sniffed n (Inr (-5, None))"
  by (auto simp: sniffed_def)

lemma sniffed_mono: "sniffed a res \<Longrightarrow> a \<le> b \<Longrightarrow> sniffed b res"
  by (fastforce simp: sniffed_def)

lemma strncpy_ok:
  "off + n \<le> length m \<Longrightarrow> \<exists>s. strncpy m off n = Inr s \<and> length s = n"
proof (induction n arbitrary: off)
  case (Suc n)
  from Suc.IH[of "Suc off"] Suc.prems obtain s where "strncpy m (Suc off) n = Inr s \<and> length s = n"
    by auto
  with Suc.prems show ?case by auto
qed simp

lemma sniffed_name:
  assumes "off + len \<le> length m" and "len < n"
  shows "sniffed n (bindE (strncpy m off len) (\<lambda>s. Inr (int len, Some (s @ [0]))))"
  using strncpy_ok[OF assms(1)] assms(2) by (auto simp: sniffed_def)

lemma parse_server_name_extension_sniffed:
  assumes "base + data_len \<le> length m"
  shows "sniffed data_len (parse_server_name_extension al m base data_len pos)"
  using assms
proof (induction al m base data_len pos rule: parse_server_name_extension.induct)
  case (1 al m base data_len pos)
  note unfold = parse_server_name_extension.simps[of al m base data_len pos]
  show ?case
  proof (cases "pos + 3 < data_len")
    case True
    define len where "len = be16 (m ! (base + pos + 1)) (m ! (base + pos + 2))"
    have "sniffed data_len (parse_server_name_extension al m base data_len (pos + (3 + len)))"
      if "pos + 3 + len \<le> data_len" "m ! (base + pos) \<noteq> 0"
      using "1.IH"[OF True, of "m ! (base + pos + 1)" "m ! (base + pos + 2)" len "m ! (base + pos)"]
        that True "1.prems" by (simp add: len_def)
    moreover have "sniffed data_len (bindE (strncpy m (base + pos + 3) len)
        (\<lambda>s. Inr (int len, Some (s @ [0]))))" if "pos + 3 + len \<le> data_len"
      using sniffed_name[of "base + pos + 3" len m data_len] that "1.prems" by simp
    ultimately show ?thesis
      using True "1.prems" by (auto simp: unfold Let_def len_def)
  qed (simp add: unfold)
qed

lemma parse_extensions_sniffed:
  assumes "base + data_len \<le> length m"
  shows "sniffed data_len (parse_extensions al m base data_len pos)"
  using assms
proof (induction al m base data_len pos rule: parse_extensions.induct)
  case (1 al m base data_len pos)
  note unfold = parse_extensions.simps[of al m base data_len pos]
  show ?case
  proof (cases "pos + 4 \<le> data_len")
    case True
    define len where "len = be16 (m ! (base + pos + 2)) (m ! (base + pos + 3))"
    have "sniffed data_len (parse_extensions al m base data_len (pos + (4 + len)))"
      if "\<not> (m ! (base + pos) = 0 \<and> m ! (base + pos + 1) = 0)"
      using "1.IH"[OF True, of "m ! (base + pos + 2)" "m ! (base + pos + 3)" len "m ! (base + pos)"
          "if m ! (base + pos) = 0 then m ! (base + pos + 1) else 1"]
        that True "1.prems" by (simp add: len_def)
    moreover have "sniffed data_len (parse_server_name_extension al m (base + pos + 4) len 2)"
      if "pos + 4 + len \<le> data_len"
      using parse_server_name_extension_sniffed[of "base + pos + 4" len m al 2] that "1.prems"
      by (auto intro: sniffed_mono)
    ultimately show ?thesis
      using True "1.prems" by (auto simp: unfold Let_def len_def)
  qed (simp add: unfold)
qed

lemma parse_client_hello_sniffed:
  "data_len \<le> length m \<Longrightarrow> sniffed data_len (parse_client_hello al m data_len major minor)"
  by (auto simp: parse_client_hello_def Let_def TLS_HEADER_LEN_def
      intro!: sniffed_mono[OF parse_extensions_sniffed])

lemma parse_tls_header_sniffed: "sniffed (length m) (parse_tls_header al m (length m) hostname)"
proof (cases "length m < TLS_HEADER_LEN")
  case False
  then have "rd m 0 = Inr (m ! 0)" "rd m 1 = Inr (m ! 1)" "rd m 2 = Inr (m ! 2)"
    "rd m 3 = Inr (m ! 3)" "rd m 4 = Inr (m ! 4)"
    by (auto simp: TLS_HEADER_LEN_def rd_def)
  then show ?thesis
    by (auto simp: parse_tls_header_def Let_def intro!: sniffed_mono[OF parse_client_hello_sniffed])
qed (simp add: parse_tls_header_def)

section \<open>Well-formed client hellos\<close>

declare rd_ok [simp del]

text \<open>
  The TLS format, as RFC 5246 and RFC 6066 give it: an extension is a type of two bytes and a body
  with its length, a server name entry a type and a name with its length.
\<close>

definition u16_bytes :: "nat \<Rightarrow> byte list" where
  "u16_bytes n = [of_nat (n div 256), of_nat n]"

definition ext_bytes :: "byte \<times> byte \<times> byte list \<Rightarrow> byte list" where
  "ext_bytes e = (case e of (a, b, body) \<Rightarrow> [a, b] @ u16_bytes (length body) @ body)"

definition name_bytes :: "byte \<times> byte list \<Rightarrow> byte list" where
  "name_bytes e = (case e of (t, name) \<Rightarrow> t # u16_bytes (length name) @ name)"

definition other_ext :: "byte \<times> byte \<times> byte list \<Rightarrow> bool" where
  "other_ext e = (case e of (a, b, body) \<Rightarrow> (a \<noteq> 0 \<or> b \<noteq> 0) \<and> length body < 65536)"

definition other_name :: "byte \<times> byte list \<Rightarrow> bool" where
  "other_name e = (case e of (t, name) \<Rightarrow> t \<noteq> 0 \<and> length name < 65536)"

text \<open>
  The server name extension: the length of the list (which the parser skips), entries of other
  types, the host name and further entries; \<open>extensions\<close> puts it behind other extensions.
\<close>

definition server_names :: "byte list \<Rightarrow> (byte \<times> byte list) list \<Rightarrow> byte list \<Rightarrow> byte list \<Rightarrow> byte list" where
  "server_names ll others host more =
     ll @ concat (map name_bytes others) @ name_bytes (0, host) @ more"

definition extensions :: "(byte \<times> byte \<times> byte list) list \<Rightarrow> byte list \<Rightarrow> byte list \<Rightarrow> byte list" where
  "extensions before sni after = concat (map ext_bytes before) @ ext_bytes (0, 0, sni) @ after"

text \<open>\<open>fixed\<close> holds the length of the handshake message, the version and the random value.\<close>

definition hello_body :: "byte list \<Rightarrow> byte list \<Rightarrow> byte list \<Rightarrow> byte list \<Rightarrow> byte list \<Rightarrow> byte list" where
  "hello_body fixed sid suites methods exts =
     1 # fixed @ of_nat (length sid) # sid @ u16_bytes (length suites) @ suites @
       of_nat (length methods) # methods @ u16_bytes (length exts) @ exts"

definition tls_record :: "byte \<Rightarrow> byte \<Rightarrow> byte list \<Rightarrow> byte list" where
  "tls_record major minor body = [0x16, major, minor] @ u16_bytes (length body) @ body"

lemma length_u16_bytes [simp, len_simps]: "length (u16_bytes n) = 2"
  by (simp add: u16_bytes_def)

lemma be16_of_nat: "n < 65536 \<Longrightarrow> be16 (of_nat (n div 256)) (of_nat n) = n"
  by (simp add: be16_def unat_of_nat)

lemma rd_append [simp]: "rd (xs @ ys) (length xs + i) = rd ys i"
  by (simp add: rd_def)

lemma rd_append_at: "length xs = n \<Longrightarrow> rd (xs @ ys) (n + i) = rd ys i"
  by auto

lemma rd_here: "length xs = n \<Longrightarrow> rd (xs @ y # ys) n = Inr y"
  using rd_append_at[of xs n "y # ys" 0] by (simp add: rd_def)

lemma rd_u16:
  assumes "length xs = n"
  shows "rd (xs @ u16_bytes k @ ys) n = Inr (of_nat (k div 256))"
    and "rd (xs @ u16_bytes k @ ys) (n + 1) = Inr (of_nat k)"
  using rd_here[of xs n "of_nat (k div 256)" "of_nat k # ys"]
    rd_here[of "xs @ [of_nat (k div 256)]" "n + 1" "of_nat k" ys] assms
  by (simp_all add: u16_bytes_def)

lemma strncpy_name:
  "0 \<notin> set name \<Longrightarrow> length xs = off \<Longrightarrow> strncpy (xs @ name @ ys) off (length name) = Inr name"
proof (induction name arbitrary: xs off)
  case (Cons c name)
  from Cons.IH[of "xs @ [c]" "Suc off"] Cons.prems
  have "strncpy (xs @ c # name @ ys) (Suc off) (length name) = Inr name" by simp
  with Cons.prems show ?case by (simp add: rd_here)
qed simp

lemma server_name_step:
  assumes "pos + 3 < data_len" and "rd m (base + pos) = Inr t"
    and "rd m (base + pos + 1) = Inr (of_nat (n div 256))" and "rd m (base + pos + 2) = Inr (of_nat n)"
    and "n < 65536" and "pos + 3 + n \<le> data_len"
  shows "parse_server_name_extension al m base data_len pos
    = (if t = 0
       then (if al (n + 1)
             then bindE (strncpy m (base + pos + 3) n) (\<lambda>s. Inr (int n, Some (s @ [0])))
             else Inr (-4, None))
       else parse_server_name_extension al m base data_len (pos + (3 + n)))"
  using assms parse_server_name_extension.simps[of al m base data_len pos]
  by (simp add: be16_of_nat)

lemma rd_name:
  assumes "length xs = i"
  shows "rd (xs @ name_bytes (t, name) @ ys) i = Inr t"
    "rd (xs @ name_bytes (t, name) @ ys) (i + 1) = Inr (of_nat (length name div 256))"
    "rd (xs @ name_bytes (t, name) @ ys) (i + 2) = Inr (of_nat (length name))"
  using rd_here[of xs i t "u16_bytes (length name) @ name @ ys"]
    rd_u16[of "xs @ [t]" "i + 1" "length name" "name @ ys"] assms
  by (simp_all add: name_bytes_def)

lemma server_name_skip:
  assumes "length xs = base + pos" and "\<forall>e \<in> set es. other_name e"
    and "pos + length (concat (map name_bytes es)) + 3 < data_len"
  shows "parse_server_name_extension al (xs @ concat (map name_bytes es) @ ys) base data_len pos
    = parse_server_name_extension al (xs @ concat (map name_bytes es) @ ys) base data_len
        (pos + length (concat (map name_bytes es)))"
  using assms
proof (induction es arbitrary: xs pos)
  case (Cons e es)
  obtain t name where e: "e = (t, name)" by (cases e)
  let ?rest = "concat (map name_bytes es)"
  from Cons.prems(2) have t: "t \<noteq> 0" "length name < 65536" by (auto simp: e other_name_def)
  have len: "length (name_bytes e) = 3 + length name" by (simp add: e name_bytes_def)
  from Cons.prems(3) have "pos + 3 < data_len" "pos + 3 + length name \<le> data_len"
    by (auto simp: len)
  note step = server_name_step[OF this(1) rd_name[OF Cons.prems(1), of t name "?rest @ ys"] t(2) this(2)]
  from Cons.IH[of "xs @ name_bytes e" "pos + (3 + length name)"] Cons.prems
  have "parse_server_name_extension al (xs @ name_bytes e @ ?rest @ ys) base data_len (pos + (3 + length name))
    = parse_server_name_extension al (xs @ name_bytes e @ ?rest @ ys) base data_len
        (pos + (3 + length name) + length ?rest)"
    by (simp add: len)
  with step t(1) show ?case by (simp add: e len[unfolded e] add.assoc)
qed simp

lemma server_name_found:
  assumes "length xs = base" and "length ll = 2" and "\<forall>e \<in> set others. other_name e"
    and "0 < length host" and "length host < 65536" and "0 \<notin> set host" and "al (length host + 1)"
  shows "parse_server_name_extension al (xs @ server_names ll others host more @ ys) base
      (length (server_names ll others host more)) 2 = Inr (int (length host), Some (host @ [0]))"
proof -
  define cs where "cs = concat (map name_bytes others)"
  define zs where "zs = name_bytes (0, host) @ more @ ys"
  define n where "n = length (server_names ll others host more)"
  have m: "xs @ server_names ll others host more @ ys = (xs @ ll) @ cs @ zs"
    by (simp add: server_names_def cs_def zs_def)
  have n: "n = 2 + length cs + 3 + length host + length more"
    using assms(2) by (simp add: n_def server_names_def cs_def name_bytes_def)
  have skip: "parse_server_name_extension al ((xs @ ll) @ cs @ zs) base n 2
      = parse_server_name_extension al ((xs @ ll) @ cs @ zs) base n (2 + length cs)"
    unfolding cs_def
    by (rule server_name_skip) (use assms n in \<open>auto simp: cs_def\<close>)
  have len: "length (xs @ ll @ cs) = base + (2 + length cs)" using assms by simp
  have "strncpy ((xs @ ll @ cs @ 0 # u16_bytes (length host)) @ host @ more @ ys)
      (base + (2 + length cs) + 3) (length host) = Inr host"
    by (rule strncpy_name) (use assms in auto)
  then have "strncpy ((xs @ ll) @ cs @ zs) (base + (2 + length cs) + 3) (length host) = Inr host"
    by (simp add: zs_def name_bytes_def)
  moreover have "parse_server_name_extension al ((xs @ ll @ cs) @ zs) base n (2 + length cs)
    = (if (0::byte) = 0
       then (if al (length host + 1)
             then bindE (strncpy ((xs @ ll @ cs) @ zs) (base + (2 + length cs) + 3) (length host))
                    (\<lambda>s. Inr (int (length host), Some (s @ [0])))
             else Inr (-4, None))
       else parse_server_name_extension al ((xs @ ll @ cs) @ zs) base n (2 + length cs + (3 + length host)))"
    unfolding zs_def
    by (rule server_name_step) (use rd_name[OF len, of 0 host "more @ ys"] n assms in \<open>simp_all add: add.assoc\<close>)
  ultimately show ?thesis
    using skip assms(7) unfolding m n_def[symmetric] by simp
qed

lemma extension_step:
  assumes "pos + 4 \<le> data_len" and "rd m (base + pos) = Inr a" and "rd m (base + pos + 1) = Inr b"
    and "rd m (base + pos + 2) = Inr (of_nat (n div 256))" and "rd m (base + pos + 3) = Inr (of_nat n)"
    and "n < 65536" and "pos + 4 + n \<le> data_len"
  shows "parse_extensions al m base data_len pos
    = (if a = 0 \<and> b = 0 then parse_server_name_extension al m (base + pos + 4) n 2
       else parse_extensions al m base data_len (pos + (4 + n)))"
  using assms parse_extensions.simps[of al m base data_len pos] by (simp add: be16_of_nat)

lemma rd_ext:
  assumes "length xs = i"
  shows "rd (xs @ ext_bytes (a, b, body) @ ys) i = Inr a"
    "rd (xs @ ext_bytes (a, b, body) @ ys) (i + 1) = Inr b"
    "rd (xs @ ext_bytes (a, b, body) @ ys) (i + 2) = Inr (of_nat (length body div 256))"
    "rd (xs @ ext_bytes (a, b, body) @ ys) (i + 3) = Inr (of_nat (length body))"
  using rd_here[of xs i a "b # u16_bytes (length body) @ body @ ys"]
    rd_here[of "xs @ [a]" "i + 1" b "u16_bytes (length body) @ body @ ys"]
    rd_u16[of "xs @ [a, b]" "i + 2" "length body" "body @ ys"] assms
  by (simp_all add: ext_bytes_def numeral_3_eq_3)

lemma extension_skip:
  assumes "length xs = base + pos" and "\<forall>e \<in> set es. other_ext e"
    and "pos + length (concat (map ext_bytes es)) \<le> data_len"
  shows "parse_extensions al (xs @ concat (map ext_bytes es) @ ys) base data_len pos
    = parse_extensions al (xs @ concat (map ext_bytes es) @ ys) base data_len
        (pos + length (concat (map ext_bytes es)))"
  using assms
proof (induction es arbitrary: xs pos)
  case (Cons e es)
  obtain a b body where e: "e = (a, b, body)" by (cases e)
  let ?rest = "concat (map ext_bytes es)"
  from Cons.prems(2) have t: "\<not> (a = 0 \<and> b = 0)" "length body < 65536" by (auto simp: e other_ext_def)
  have len: "length (ext_bytes e) = 4 + length body" by (simp add: e ext_bytes_def)
  from Cons.prems(3) have "pos + 4 \<le> data_len" "pos + 4 + length body \<le> data_len"
    by (auto simp: len)
  note step = extension_step[OF this(1) rd_ext[OF Cons.prems(1), of a b body "?rest @ ys"] t(2) this(2)]
  from Cons.IH[of "xs @ ext_bytes e" "pos + (4 + length body)"] Cons.prems
  have "parse_extensions al (xs @ ext_bytes e @ ?rest @ ys) base data_len (pos + (4 + length body))
    = parse_extensions al (xs @ ext_bytes e @ ?rest @ ys) base data_len
        (pos + (4 + length body) + length ?rest)"
    by (simp add: len)
  with step t(1) show ?case by (simp add: e len[unfolded e] add.assoc)
qed simp

lemma extension_found:
  assumes "length xs = base" and "\<forall>e \<in> set before. other_ext e" and "length sni < 65536"
  shows "parse_extensions al (xs @ extensions before sni after @ ys) base
      (length (extensions before sni after)) 0
    = parse_server_name_extension al (xs @ extensions before sni after @ ys)
        (base + length (concat (map ext_bytes before)) + 4) (length sni) 2"
proof -
  define cs where "cs = concat (map ext_bytes before)"
  define zs where "zs = ext_bytes (0, 0, sni) @ after @ ys"
  define n where "n = length (extensions before sni after)"
  have m: "xs @ extensions before sni after @ ys = xs @ cs @ zs"
    by (simp add: extensions_def cs_def zs_def)
  have n: "n = length cs + 4 + length sni + length after"
    by (simp add: n_def extensions_def cs_def ext_bytes_def)
  have len: "length (xs @ cs) = base + length cs" using assms by simp
  have "parse_extensions al (xs @ cs @ zs) base n 0 = parse_extensions al (xs @ cs @ zs) base n (0 + length cs)"
    unfolding cs_def by (rule extension_skip) (use assms n in \<open>auto simp: cs_def\<close>)
  moreover have "parse_extensions al ((xs @ cs) @ zs) base n (length cs)
    = (if (0::byte) = 0 \<and> (0::byte) = 0
       then parse_server_name_extension al ((xs @ cs) @ zs) (base + length cs + 4) (length sni) 2
       else parse_extensions al ((xs @ cs) @ zs) base n (length cs + (4 + length sni)))"
    unfolding zs_def
    by (rule extension_step) (use rd_ext[OF len, of 0 0 sni "after @ ys"] n assms in simp_all)
  ultimately show ?thesis unfolding m n_def[symmetric] cs_def[symmetric] by simp
qed

lemma client_hello_step:
  assumes "length rh = 5" and "length fixed = 37" and "length sid < 256" and "length suites < 65536"
    and "length methods < 256" and "length exts < 65536"
    and n: "n = 5 + length (hello_body fixed sid suites methods exts)"
  shows "parse_client_hello al (rh @ hello_body fixed sid suites methods exts @ ys) n major minor
    = parse_extensions al (rh @ hello_body fixed sid suites methods exts @ ys)
        (n - length exts) (length exts) 0"
proof -
  define a where "a = 44 + length sid"
  define b where "b = a + 2 + length suites"
  define c where "c = b + 1 + length methods"
  define m where "m = rh @ hello_body fixed sid suites methods exts @ ys"
  have "rd m 5 = Inr 1"
    using rd_here[of rh 5 1] assms(1) by (simp add: m_def hello_body_def)
  moreover have "rd m 43 = Inr (of_nat (length sid))"
    using rd_here[of "rh @ 1 # fixed" 43 "of_nat (length sid)"] assms by (simp add: m_def hello_body_def)
  moreover have "rd m a = Inr (of_nat (length suites div 256))" "rd m (a + 1) = Inr (of_nat (length suites))"
    using rd_u16[of "rh @ 1 # fixed @ of_nat (length sid) # sid" a "length suites"] assms
    by (simp_all add: m_def hello_body_def a_def)
  moreover have "rd m b = Inr (of_nat (length methods))"
    using rd_here[of "rh @ 1 # fixed @ of_nat (length sid) # sid @ u16_bytes (length suites) @ suites" b
        "of_nat (length methods)"] assms
    by (simp add: m_def hello_body_def a_def b_def)
  moreover have "rd m c = Inr (of_nat (length exts div 256))" "rd m (c + 1) = Inr (of_nat (length exts))"
    using rd_u16[of "rh @ 1 # fixed @ of_nat (length sid) # sid @ u16_bytes (length suites) @ suites @
        of_nat (length methods) # methods" c "length exts"] assms
    by (simp_all add: m_def hello_body_def a_def b_def c_def)
  moreover have "n = c + 2 + length exts"
    using assms by (simp add: hello_body_def a_def b_def c_def)
  moreover have "unat (of_nat (length sid) :: byte) = length sid"
    "unat (of_nat (length methods) :: byte) = length methods"
    using assms by (simp_all add: unat_of_nat)
  ultimately show ?thesis
    unfolding m_def[symmetric] parse_client_hello_def Let_def TLS_HEADER_LEN_def
    using assms(4,6) by (simp add: be16_of_nat a_def b_def c_def add.assoc)
qed

lemma tls_record_step:
  assumes "3 \<le> sint major" and "length body < 65536"
  shows "parse_tls_header al (tls_record major minor body @ ys) (length (tls_record major minor body @ ys)) True
    = parse_client_hello al (tls_record major minor body @ ys) (5 + length body) major minor"
proof -
  define m where "m = tls_record major minor body @ ys"
  have "rd m 0 = Inr 0x16" "rd m 1 = Inr major" "rd m 2 = Inr minor"
    "rd m 3 = Inr (of_nat (length body div 256))" "rd m 4 = Inr (of_nat (length body))"
    by (simp_all add: m_def tls_record_def u16_bytes_def rd_def)
  moreover have "length m = 5 + length body + length ys"
    by (simp add: m_def tls_record_def)
  ultimately show ?thesis
    unfolding m_def[symmetric] parse_tls_header_def Let_def TLS_HEADER_LEN_def
    using assms by (simp add: be16_of_nat add.commute[of _ 5])
qed

text \<open>
  C30. For every client hello that carries a host name of 1 to 65535 bytes without NUL, whatever the
  other extensions before it, the entries of other types before it and the bytes after it,
  \<open>parse_tls_header\<close> returns the length of the name and a copy of it with its terminating NUL.
\<close>

theorem tls_finds_server_name:
  assumes "3 \<le> sint major" and "length fixed = 37" and "length sid < 256" and "length suites < 65536"
    and "length methods < 256" and "length ll = 2"
    and "\<forall>e \<in> set before. other_ext e" and "\<forall>e \<in> set others. other_name e"
    and "0 < length host" and "0 \<notin> set host" and "al (length host + 1)"
    and body: "body = hello_body fixed sid suites methods
           (extensions before (server_names ll others host more) after)"
    and small: "length body < 65536"
  shows "parse_tls_header al (tls_record major minor body @ ys)
      (length (tls_record major minor body @ ys)) True = Inr (int (length host), Some (host @ [0]))"
proof -
  define sni where "sni = server_names ll others host more"
  define exts where "exts = extensions before sni after"
  define rh where "rh = [0x16, major, minor] @ u16_bytes (length body)"
  define xs where "xs = rh @ 1 # fixed @ of_nat (length sid) # sid @ u16_bytes (length suites) @ suites @
       of_nat (length methods) # methods @ u16_bytes (length exts)"
  define n where "n = 5 + length body"
  define m where "m = tls_record major minor body @ ys"
  note lens = body[unfolded hello_body_def] sni_def[symmetric] exts_def[symmetric]
  from small have exts_small: "length exts < 65536" and "length sni < length exts" "length host < length sni"
    by (auto simp: lens, auto simp: exts_def sni_def extensions_def ext_bytes_def server_names_def name_bytes_def)
  have m: "m = rh @ body @ ys" "m = xs @ exts @ ys" "length rh = 5" "length xs = n - length exts"
    by (simp_all add: m_def tls_record_def rh_def xs_def n_def lens)
  have "parse_client_hello al m n major minor = parse_extensions al m (n - length exts) (length exts) 0"
    using client_hello_step[of rh fixed sid suites methods exts n al ys major minor] assms exts_small
    by (simp add: m(1,3) n_def exts_def sni_def)
  also have "\<dots> = parse_server_name_extension al m
      (n - length exts + length (concat (map ext_bytes before)) + 4) (length sni) 2"
    using extension_found[OF m(4) assms(7), of sni al after ys] exts_small \<open>length sni < length exts\<close>
    by (simp add: m(2) exts_def)
  also have "\<dots> = Inr (int (length host), Some (host @ [0]))"
  proof -
    define zs where "zs = xs @ concat (map ext_bytes before) @ [0, 0] @ u16_bytes (length sni)"
    have "m = zs @ sni @ after @ ys"
      by (simp add: m(2) exts_def extensions_def zs_def ext_bytes_def)
    moreover have "length zs = n - length exts + length (concat (map ext_bytes before)) + 4"
      by (simp add: zs_def m(4))
    ultimately show ?thesis
      using server_name_found[of zs _ ll others host al more "after @ ys"] assms exts_small
        \<open>length sni < length exts\<close> \<open>length host < length sni\<close>
      by (simp add: sni_def)
  qed
  finally show ?thesis
    using tls_record_step[OF assms(1) small, of al minor ys] by (simp add: m_def n_def)
qed

theorem tls_finds_server_name_witness:
  "parse_tls_header (\<lambda>_. True)
     (tls_record 3 1 (hello_body (replicate 37 7) [] [0, 47] [0]
        (extensions [(0, 23, [])] (server_names [0, 6] [] [97, 46, 98] []) [])) @ [22])
     (length (tls_record 3 1 (hello_body (replicate 37 7) [] [0, 47] [0]
        (extensions [(0, 23, [])] (server_names [0, 6] [] [97, 46, 98] []) [])) @ [22])) True
   = Inr (3, Some [97, 46, 98, 0])"
  using tls_finds_server_name[of 3 "replicate 37 7" "[]" "[0, 47]" "[0]" "[0, 6]" "[(0, 23, [])]" "[]"
      "[97, 46, 98]" "\<lambda>_. True" _ "[]" "[]" 1 "[22]"]
  by (simp add: other_ext_def hello_body_def extensions_def server_names_def ext_bytes_def name_bytes_def
      u16_bytes_def)

text \<open>
  C36. On every payload and with every outcome of \<open>malloc\<close>, \<open>parse_tls_header\<close> returns without reading
  outside of the payload, either one of its error codes or a NUL-terminated name that is shorter than
  the payload.
\<close>

theorem tls_any_input:
  "\<exists>r h. parse_tls_header al m (length m) hostname = Inr (r, h)
     \<and> (r \<in> {-5, -4, -3, -2, -1} \<and> h = None
        \<or> 0 \<le> r \<and> nat r < length m \<and> (\<exists>s. h = Some (s @ [0]) \<and> length s = nat r))"
  using parse_tls_header_sniffed[of m al hostname] by (simp add: sniffed_def)

end
