(* ===== verification/SS_Http.thy ===== *)
theory SS_Http
  imports SS_Sniff
begin

text \<open>
  The \<open>Host:\<close> sniffer of \<^verbatim>\<open>shadowsocks-libev/src/http.c\<close>, with the conventions of
  \<^theory_text>\<open>SS_Sniff\<close>.  \<open>d\<close> is the offset of the \<open>data\<close> pointer and \<open>len\<close> the \<open>int\<close> that counts the
  bytes left, which gets negative after a payload of one byte.
\<close>

definition CR :: byte where "CR = 13"
definition LF :: byte where "LF = 10"

definition isblank :: "byte \<Rightarrow> bool" where
  "isblank c \<longleftrightarrow> c = 32 \<or> c = 9"

definition to_lower :: "byte \<Rightarrow> byte" where
  "to_lower c = (if 65 \<le> c \<and> c \<le> 90 then c + 32 else c)"

text \<open>\<open>strncasecmp(header, data, strlen(header)) == 0\<close>; the header holds no NUL.\<close>

fun strncasecmp_eq :: "byte list \<Rightarrow> byte list \<Rightarrow> nat \<Rightarrow> bool run" where
  "strncasecmp_eq [] m d = Inr True"
| "strncasecmp_eq (h # hs) m d =
     bindE (rd m d) (\<lambda>c. if to_lower h = to_lower c then strncasecmp_eq hs m (Suc d) else Inr False)"

section \<open>next_header\<close>

function skip_line :: "byte list \<Rightarrow> nat \<Rightarrow> int \<Rightarrow> (nat \<times> int) run" where
  "skip_line m d len =
     (if len > 2
      then
        bindE (rd m d) (\<lambda>a.
          if a = CR then Inr (d, len)
          else
          bindE (rd m (d + 1)) (\<lambda>b.
            if b = LF then Inr (d, len) else skip_line m (d + 1) (len - 1)))
      else Inr (d, len))"
  by pat_completeness auto
termination
  by (relation "measure (\<lambda>(_, _, len). nat len)") auto

function header_end :: "byte list \<Rightarrow> nat \<Rightarrow> int \<Rightarrow> nat \<Rightarrow> nat run" where
  "header_end m d len k =
     (if len > int k + 1
      then
        bindE (rd m (d + k)) (\<lambda>a.
          if a = CR then Inr k
          else
          bindE (rd m (d + k + 1)) (\<lambda>b. if b = LF then Inr k else header_end m d len (k + 1)))
      else Inr k)"
  by pat_completeness auto
termination
  by (relation "measure (\<lambda>(_, _, len, k). nat (len - int k))") auto

declare skip_line.simps [simp del] header_end.simps [simp del]

definition next_header :: "byte list \<Rightarrow> nat \<Rightarrow> int \<Rightarrow> (nat \<times> nat \<times> int) run" where
  "next_header m d len =
     bindE (skip_line m d len) (\<lambda>(d, len).
       let d = d + 2; len = len - 2
       in bindE (header_end m d len 0) (\<lambda>header_len. Inr (header_len, d, len)))"

text \<open>The two loops stay inside of the payload and end.\<close>

lemma skip_line_ok:
  assumes "int d + len \<le> int (length m)"
  shows "\<exists>d' len'. skip_line m d len = Inr (d', len') \<and> len' \<le> len \<and> int d' + len' = int d + len"
  using assms
proof (induction m d len rule: skip_line.induct)
  case (1 m d len)
  show ?case
  proof (cases "len > 2")
    case True
    with "1.prems" have rds: "rd m d = Inr (m ! d)" "rd m (d + 1) = Inr (m ! (d + 1))"
      by (auto intro!: rd_ok)
    show ?thesis
    proof (cases "m ! d = CR \<or> m ! (d + 1) = LF")
      case False
      with "1.IH"[OF True rds(1) _ rds(2)] "1.prems" obtain d' len' where
        "skip_line m (d + 1) (len - 1) = Inr (d', len')" "len' \<le> len - 1" "int d' + len' = int d + len"
        by auto
      with True False rds show ?thesis by (subst skip_line.simps) auto
    qed (use True rds in \<open>subst skip_line.simps, auto\<close>)
  qed (subst skip_line.simps, auto)
qed

lemma header_end_ok:
  assumes "int d + len \<le> int (length m)"
  shows "\<exists>n. header_end m d len k = Inr n \<and> k \<le> n \<and> (n = k \<or> int n < len)"
  using assms
proof (induction m d len k rule: header_end.induct)
  case (1 m d len k)
  show ?case
  proof (cases "len > int k + 1")
    case True
    with "1.prems" have rds: "rd m (d + k) = Inr (m ! (d + k))" "rd m (d + k + 1) = Inr (m ! (d + k + 1))"
      by (auto intro!: rd_ok)
    show ?thesis
    proof (cases "m ! (d + k) = CR \<or> m ! (d + k + 1) = LF")
      case False
      with "1.IH"[OF True rds(1) _ rds(2)] "1.prems" obtain n where
        "header_end m d len (k + 1) = Inr n" "k + 1 \<le> n" "n = k + 1 \<or> int n < len"
        by auto
      with True False rds show ?thesis by (subst header_end.simps) auto
    qed (use True rds in \<open>subst header_end.simps, auto\<close>)
  qed (subst header_end.simps, auto)
qed

lemma next_header_ok:
  assumes "int d + len \<le> int (length m)"
  obtains n d' len' where "next_header m d len = Inr (n, d', len')" "len' \<le> len - 2"
    "int d' + len' = int d + len" "n = 0 \<or> int n < len'"
proof -
  from skip_line_ok[OF assms] obtain d1 l1 where
    s: "skip_line m d len = Inr (d1, l1)" "l1 \<le> len" "int d1 + l1 = int d + len" by auto
  then have "int (d1 + 2) + (l1 - 2) \<le> int (length m)" using assms by simp
  from header_end_ok[OF this, of 0] obtain n where
    "header_end m (d1 + 2) (l1 - 2) 0 = Inr n" "n = 0 \<or> int n < l1 - 2" by auto
  with s show thesis by (intro that[of n "d1 + 2" "l1 - 2"]) (simp_all add: next_header_def)
qed

text \<open>Without the bound on the payload, for the termination of the loop over the headers.\<close>

lemma skip_line_le: "skip_line m d len = Inr (d', len') \<Longrightarrow> len' \<le> len"
proof (induction m d len rule: skip_line.induct)
  case (1 m d len)
  have IH: "len' \<le> len - 1" if "2 < len" "rd m d = Inr x" "x \<noteq> CR" "rd m (Suc d) = Inr y" "y \<noteq> LF"
    "skip_line m (Suc d) (len - 1) = Inr (d', len')" for x y
    using "1.IH"[of x y] that by simp
  from "1.prems" show ?case
    by (subst (asm) skip_line.simps) (auto simp: bindE_Inr_iff split: if_splits dest: IH)
qed

lemma header_end_less: "header_end m d len k = Inr n \<Longrightarrow> n = k \<or> int n < len"
proof (induction m d len k rule: header_end.induct)
  case (1 m d len k)
  have IH: "int n < len" if "int k + 1 < len" "rd m (d + k) = Inr x" "x \<noteq> CR"
    "rd m (Suc (d + k)) = Inr y" "y \<noteq> LF" "header_end m d len (Suc k) = Inr n" for x y
    using "1.IH"[of x y] that by auto
  from "1.prems" show ?case
    by (subst (asm) header_end.simps) (auto simp: bindE_Inr_iff split: if_splits dest: IH)
qed

lemma next_header_progress:
  assumes "next_header m d len = Inr (n, d', len')" and "n \<noteq> 0"
  shows "nat len' < nat len"
  using assms by (auto simp: next_header_def bindE_Inr_iff Let_def dest!: skip_line_le header_end_less)

section \<open>get_header and parse_http_header\<close>

function eat_blanks :: "byte list \<Rightarrow> nat \<Rightarrow> nat \<Rightarrow> nat \<Rightarrow> nat run" where
  "eat_blanks m d len k =
     (if k < len
      then bindE (rd m (d + k)) (\<lambda>c. if isblank c then eat_blanks m d len (k + 1) else Inr k)
      else Inr k)"
  by pat_completeness auto
termination
  by (relation "measure (\<lambda>(_, _, len, k). len - k)") auto

declare eat_blanks.simps [simp del]

function get_header ::
    "(nat \<Rightarrow> bool) \<Rightarrow> byte list \<Rightarrow> byte list \<Rightarrow> nat \<Rightarrow> int \<Rightarrow> (int \<times> byte list option) run" where
  "get_header al header m d data_len =
     bindE (next_header m d data_len) (\<lambda>(len, d, data_len).
       if len = 0 then Inr (if data_len = 0 then -1 else -2, None)
       else
       bindE (if len > length header then strncasecmp_eq header m d else Inr False) (\<lambda>found.
         if found
         then
           bindE (eat_blanks m d len (length header)) (\<lambda>header_len.
             if al (len - header_len + 1)
             then bindE (strncpy m (d + header_len) (len - header_len)) (\<lambda>s.
                    Inr (int (len - header_len), Some (s @ [0])))
             else Inr (-4, None))
         else get_header al header m d data_len))"
  by pat_completeness auto
termination
  by (relation "measure (\<lambda>(_, _, _, _, data_len). nat data_len)") (auto dest: next_header_progress)

declare get_header.simps [simp del]

definition HOST :: "byte list" where
  "HOST = [72, 111, 115, 116, 58]"

text \<open>The loop that cuts the port off, from the last byte of the name down.\<close>

fun trim_port :: "byte list \<Rightarrow> int \<Rightarrow> nat \<Rightarrow> (int \<times> byte list) run" where
  "trim_port h result 0 = Inr (result, h)"
| "trim_port h result (Suc i) =
     bindE (rd h i) (\<lambda>c. if c = 58 then Inr (int i, h[i := 0]) else trim_port h result i)"

definition parse_http_header ::
    "(nat \<Rightarrow> bool) \<Rightarrow> byte list \<Rightarrow> nat \<Rightarrow> bool \<Rightarrow> (int \<times> byte list option) run" where
  "parse_http_header al m data_len hostname =
     (if \<not> hostname then Inr (-3, None)
      else if data_len = 0 then Inr (-1, None)
      else
      bindE (get_header al HOST m 0 (sint (of_nat data_len :: u32))) (\<lambda>(result, h).
        if result < 0 then Inr (result, h)
        else
        case h of
          None \<Rightarrow> Inl OutOfBounds
        | Some s \<Rightarrow>
            bindE (trim_port s result (nat result)) (\<lambda>(result, s). Inr (result, Some s))))"

section \<open>Any input\<close>

lemma strncasecmp_eq_ok: "d + length hs \<le> length m \<Longrightarrow> \<exists>b. strncasecmp_eq hs m d = Inr b"
  by (induction hs arbitrary: d) (auto simp: rd_ok)

lemma eat_blanks_ok:
  "d + len \<le> length m \<Longrightarrow> k \<le> len \<Longrightarrow> \<exists>n. eat_blanks m d len k = Inr n \<and> k \<le> n \<and> n \<le> len"
proof (induction m d len k rule: eat_blanks.induct)
  case (1 m d len k)
  show ?case
  proof (cases "k < len \<and> isblank (m ! (d + k))")
    case True
    with "1.IH"[of "m ! (d + k)"] "1.prems" obtain n where
      "eat_blanks m d len (k + 1) = Inr n" "k + 1 \<le> n" "n \<le> len" by (auto simp: rd_ok)
    with True "1.prems" show ?thesis by (subst eat_blanks.simps) (auto simp: rd_ok)
  next
    case False
    with "1.prems" show ?thesis by (subst eat_blanks.simps) (auto simp: rd_ok)
  qed
qed

lemma get_header_sniffed:
  assumes "int d + data_len \<le> int (length m)" and "header \<noteq> []"
  shows "sniffed (length m) (get_header al header m d data_len)"
  using assms
proof (induction al header m d data_len rule: get_header.induct)
  case (1 al header m d data_len)
  from next_header_ok[OF "1.prems"(1)] obtain len d' data_len' where
    nh: "next_header m d data_len = Inr (len, d', data_len')" "int d' + data_len' = int d + data_len"
      "len = 0 \<or> int len < data_len'" by metis
  show ?case
  proof (cases "len = 0")
    case False
    with nh "1.prems" have inside: "d' + len \<le> length m" by linarith
    obtain found where found: "(if len > length header then strncasecmp_eq header m d' else Inr False) = Inr found"
      using strncasecmp_eq_ok[of d' header m] inside by (cases "length header < len") auto
    show ?thesis
    proof (cases found)
      case True
      with found have "length header < len" by (auto split: if_splits)
      with eat_blanks_ok[OF inside, of "length header"] obtain k where
        k: "eat_blanks m d' len (length header) = Inr k" "length header \<le> k" "k \<le> len" by auto
      have "sniffed (length m) (bindE (strncpy m (d' + k) (len - k)) (\<lambda>s. Inr (int (len - k), Some (s @ [0]))))"
        by (rule sniffed_name) (use inside k "1.prems"(2) in \<open>auto simp: neq_Nil_conv\<close>)
      with nh False found True k show ?thesis by (subst get_header.simps) simp
    next
      case False
      with "1.IH"[OF nh(1) refl refl \<open>len \<noteq> 0\<close> found] nh "1.prems"
      have "sniffed (length m) (get_header al header m d' data_len')" by simp
      with nh \<open>len \<noteq> 0\<close> found False show ?thesis by (subst get_header.simps) simp
    qed
  qed (subst get_header.simps, simp add: nh)
qed

lemma trim_port_ok:
  assumes "n \<le> r" and "length h = Suc r" and "h ! r = 0"
  shows "\<exists>r' h'. trim_port h (int r) n = Inr (r', h') \<and> 0 \<le> r' \<and> nat r' \<le> r \<and> length h' = Suc r
    \<and> h' ! nat r' = 0"
  using assms by (induction n) (auto simp: rd_ok)

lemma sint_of_nat_le: "sint (of_nat n :: u32) \<le> int n"
  by (simp add: signed_of_nat signed_take_bit_int_less_eq_self_iff)

text \<open>
  On every payload and with every outcome of \<open>malloc\<close>, \<open>parse_http_header\<close> returns without
  reading outside of the payload or of the copy it makes, either one of its error codes or a
  NUL-terminated name that is shorter than the payload.
\<close>

theorem http_any_input:
  "\<exists>r h. parse_http_header al m (length m) hostname = Inr (r, h)
     \<and> (r \<in> {-5, -4, -3, -2, -1} \<and> h = None
        \<or> 0 \<le> r \<and> nat r < length m \<and> (\<exists>s. h = Some s \<and> nat r < length s \<and> s ! nat r = 0))"
proof -
  have "sniffed (length m) (get_header al HOST m 0 (sint (of_nat (length m) :: u32)))"
    using sint_of_nat_le[of "length m"] by (intro get_header_sniffed) (simp_all add: HOST_def)
  then obtain r h where rh: "get_header al HOST m 0 (sint (of_nat (length m) :: u32)) = Inr (r, h)"
    "r \<in> {-5, -4, -3, -2, -1} \<and> h = None
     \<or> 0 \<le> r \<and> nat r < length m \<and> (\<exists>s. h = Some (s @ [0]) \<and> length s = nat r)"
    by (auto simp: sniffed_def)
  show ?thesis
  proof (cases "r < 0")
    case False
    with rh(2) obtain s where s: "h = Some (s @ [0])" "length s = nat r" "nat r < length m" by auto
    with trim_port_ok[of "nat r" "nat r" "s @ [0]"] False obtain r' h' where
      "trim_port (s @ [0]) r (nat r) = Inr (r', h')" "0 \<le> r'" "nat r' \<le> nat r" "length h' = Suc (nat r)"
      "h' ! nat r' = 0" by (auto simp: nth_append)
    with rh(1) s False show ?thesis by (auto simp: parse_http_header_def)
  qed (use rh in \<open>auto simp: parse_http_header_def\<close>)
qed

section \<open>Requests with a host\<close>

definition no_eol :: "byte list \<Rightarrow> bool" where
  "no_eol l \<longleftrightarrow> CR \<notin> set l \<and> LF \<notin> set l"

text \<open>A header line the search for \<open>Host:\<close> passes over.\<close>

definition other_header :: "byte list \<Rightarrow> bool" where
  "other_header h \<longleftrightarrow> no_eol h \<and> h \<noteq> [] \<and> map to_lower (take 5 h) \<noteq> map to_lower HOST"

definition line :: "byte list \<Rightarrow> byte list" where
  "line l = l @ [CR, LF]"

lemma no_eol_simps [simp]:
  "no_eol []" "no_eol (c # l) \<longleftrightarrow> c \<noteq> CR \<and> c \<noteq> LF \<and> no_eol l" "no_eol (k @ l) \<longleftrightarrow> no_eol k \<and> no_eol l"
  by (auto simp: no_eol_def)

lemma CR_LF [simp]: "CR \<noteq> LF" "LF \<noteq> CR"
  by (simp_all add: CR_def LF_def)

lemma skip_line_step:
  assumes "no_eol l" and "length xs = d" and "len = int (length l + 2 + length ys)"
  shows "skip_line (xs @ line l @ ys) d len = Inr (d + length l, len - int (length l))"
  using assms
proof (induction l arbitrary: xs d len)
  case Nil
  have "rd (xs @ CR # LF # ys) d = Inr CR" using Nil by (simp add: rd_here)
  then show ?case by (subst skip_line.simps) (simp add: line_def)
next
  case (Cons c l)
  let ?m = "xs @ line (c # l) @ ys"
  have 1: "rd ?m d = Inr c" using Cons.prems by (simp add: line_def rd_here)
  obtain e k where e: "line l @ ys = e # k" "e \<noteq> LF" using Cons.prems(1) by (cases l) (auto simp: line_def)
  have 2: "rd ?m (d + 1) = Inr e"
    using rd_here[of "xs @ [c]" "d + 1" e k] Cons.prems e(1) by (simp add: line_def)
  have "skip_line ((xs @ [c]) @ line l @ ys) (d + 1) (len - 1) = Inr (d + 1 + length l, len - 1 - int (length l))"
    by (rule Cons.IH) (use Cons.prems in auto)
  then have "skip_line ?m (d + 1) (len - 1) = Inr (d + 1 + length l, len - 1 - int (length l))"
    by (simp add: line_def)
  with 1 2 e(2) Cons.prems show ?case by (subst skip_line.simps) simp
qed

text \<open>The end of a header: at its CR LF, or one byte before the end of the payload.\<close>

lemma header_end_step:
  assumes "no_eol (g @ h)" and "length xs = d" and "len = int (length g + length h + length ys)"
    and "ys = [] \<and> h \<noteq> [] \<or> (\<exists>zs. ys = CR # zs)"
  shows "header_end (xs @ g @ h @ ys) d len (length g)
    = Inr (length g + length h - (if ys = [] then 1 else 0))"
  using assms
proof (induction h arbitrary: g)
  case Nil
  then obtain zs where ys: "ys = CR # zs" by auto
  have "rd (xs @ g @ CR # zs) (d + length g) = Inr CR"
    using rd_here[of "xs @ g" "d + length g" CR zs] Nil.prems(2) by simp
  with Nil.prems ys show ?case by (subst header_end.simps) auto
next
  case (Cons c h)
  let ?m = "xs @ g @ (c # h) @ ys"
  show ?case
  proof (cases "h = [] \<and> ys = []")
    case True
    with Cons.prems show ?thesis by (subst header_end.simps) simp
  next
    case False
    have 1: "rd ?m (d + length g) = Inr c"
      using rd_here[of "xs @ g" "d + length g" c] Cons.prems(2) by simp
    obtain e k where e: "h @ ys = e # k" "e \<noteq> LF" using False Cons.prems(1,4) by (cases h) auto
    have 2: "rd ?m (d + length g + 1) = Inr e"
      using rd_here[of "xs @ g @ [c]" "d + length g + 1" e k] Cons.prems(2) e(1) by simp
    have "header_end (xs @ (g @ [c]) @ h @ ys) d len (length (g @ [c]))
      = Inr (length (g @ [c]) + length h - (if ys = [] then 1 else 0))"
      by (rule Cons.IH) (use Cons.prems False in auto)
    moreover have "int (length g) + 1 < len"
      using Cons.prems(3) arg_cong[OF e(1), of length] by simp
    ultimately show ?thesis
      using 1 2 e(2) Cons.prems(1) by (subst header_end.simps) (simp split: if_splits)
  qed
qed

lemma next_header_step:
  assumes "no_eol l" and "no_eol h" and "length xs = d" and "len = int (length l + 2 + length h + length ys)"
    and "ys = [] \<and> h \<noteq> [] \<or> (\<exists>zs. ys = CR # zs)"
  shows "next_header (xs @ line l @ h @ ys) d len
    = Inr (length h - (if ys = [] then 1 else 0), d + length l + 2, int (length h + length ys))"
proof -
  have "skip_line (xs @ line l @ h @ ys) d len = Inr (d + length l, len - int (length l))"
    by (rule skip_line_step) (use assms in auto)
  moreover have "header_end (xs @ line l @ h @ ys) (d + length l + 2) (int (length h + length ys)) 0
    = Inr (length h - (if ys = [] then 1 else 0))"
    using header_end_step[of "[]" h "xs @ line l" "d + length l + 2" _ ys] assms by (simp add: line_def)
  ultimately show ?thesis
    using assms(4) by (simp add: next_header_def Let_def add.assoc)
qed

lemma strncasecmp_eq_name:
  "length name = length hs \<Longrightarrow> length xs = d \<Longrightarrow>
     strncasecmp_eq hs (xs @ name @ ys) d = Inr (map to_lower hs = map to_lower name)"
proof (induction name hs arbitrary: xs d rule: list_induct2)
  case (Cons c name h hs)
  from Cons.IH[of "xs @ [c]" "Suc d"] Cons.prems
  have "strncasecmp_eq hs (xs @ c # name @ ys) (Suc d) = Inr (map to_lower hs = map to_lower name)" by simp
  with Cons.prems show ?case by (simp add: rd_here)
qed simp

lemma eat_blanks_step:
  assumes "\<forall>c \<in> set bs. isblank c" and "\<not> isblank c" and "length xs = d + k" and "k + length bs < len"
  shows "eat_blanks (xs @ bs @ c # ys) d len k = Inr (k + length bs)"
  using assms
proof (induction bs arbitrary: xs k)
  case Nil
  then show ?case by (subst eat_blanks.simps) (simp add: rd_here)
next
  case (Cons b bs)
  from Cons.IH[of "xs @ [b]" "k + 1"] Cons.prems
  have "eat_blanks (xs @ b # bs @ c # ys) d len (k + 1) = Inr (k + 1 + length bs)" by simp
  with Cons.prems show ?case by (subst eat_blanks.simps) (simp add: rd_here)
qed

lemma host_header_found:
  assumes "no_eol l" and "no_eol h" and "length xs = d"
    and h: "h = name @ bs @ v" and name: "map to_lower name = map to_lower HOST"
    and "\<forall>c \<in> set bs. isblank c" and v: "v = c # v'" "\<not> isblank c" and "0 \<notin> set v"
    and n: "n = length v - (if ys = [] then 1 else 0)" "0 < n" and "al (n + 1)"
    and len: "len = int (length l + 2 + length h + length ys)" and ys: "ys = [] \<or> (\<exists>zs. ys = CR # zs)"
  shows "get_header al HOST (xs @ line l @ h @ ys) d len = Inr (int n, Some (take n v @ [0]))"
proof -
  define m where "m = xs @ line l @ h @ ys"
  define d' where "d' = d + length l + 2"
  define k where "k = 5 + length bs"
  from name have lname: "length name = length HOST" by (rule map_eq_imp_length_eq)
  have l5: "length HOST = 5" by (simp add: HOST_def)
  have ln: "length h - (if ys = [] then 1 else 0) = k + n" "0 < k"
    using n lname by (auto simp: h k_def l5 v)
  have "next_header m d len = Inr (length h - (if ys = [] then 1 else 0), d', int (length h + length ys))"
    unfolding m_def d'_def by (rule next_header_step) (use assms in auto)
  then have nh: "next_header m d len = Inr (k + n, d', int (length h + length ys))"
    by (simp only: ln)
  have d': "length (xs @ line l) = d'" using assms(3) by (simp add: d'_def line_def)
  have "strncasecmp_eq HOST m d' = Inr True"
    using strncasecmp_eq_name[OF lname d', of "bs @ v @ ys"] name by (simp add: m_def h)
  moreover have "eat_blanks m d' (k + n) 5 = Inr k"
    using eat_blanks_step[OF assms(6) v(2), of "xs @ line l @ name" d' 5 "k + n" "v' @ ys"] d' lname n
    by (simp add: m_def h v k_def l5)
  moreover have "strncpy ((xs @ line l @ name @ bs) @ take n v @ drop n v @ ys) (d' + k) (length (take n v))
      = Inr (take n v)"
    by (rule strncpy_name) (use assms(9) d' lname in \<open>auto simp: k_def l5 dest: in_set_takeD\<close>)
  then have "strncpy m (d' + k) n = Inr (take n v)"
    using n by (simp add: m_def h flip: append_assoc) 
  ultimately show ?thesis
    unfolding m_def[symmetric]
    using nh ln(2) n(2) \<open>al (n + 1)\<close> by (subst get_header.simps) (simp add: l5 k_def)
qed

lemma get_header_skip:
  assumes "no_eol l" and "no_eol g" and "other_header g" and "length xs = d"
    and len: "len = int (length l + 2 + length (line g) + length ys)"
  shows "get_header al HOST (xs @ line l @ line g @ ys) d len
    = get_header al HOST ((xs @ line l) @ line g @ ys) (d + length l + 2) (len - int (length l + 2))"
proof -
  define m where "m = xs @ line l @ line g @ ys"
  define d' where "d' = d + length l + 2"
  have nh: "next_header m d len = Inr (length g, d', len - int (length l + 2))"
    using next_header_step[of l g xs d len "CR # LF # ys"] assms by (simp add: m_def d'_def line_def)
  have "strncasecmp_eq HOST m d' = Inr (map to_lower HOST = map to_lower (take 5 g))" if "5 < length g"
  proof -
    have "take 5 g @ drop 5 g = g" by simp
    then have "m = (xs @ line l) @ take 5 g @ drop 5 g @ [CR, LF] @ ys"
      by (simp add: m_def line_def del: append_take_drop_id)
    then show ?thesis
      using strncasecmp_eq_name[of "take 5 g" HOST "xs @ line l" d' "drop 5 g @ [CR, LF] @ ys"] that assms(4)
      by (simp add: HOST_def d'_def line_def)
  qed
  then have "(if length HOST < length g then strncasecmp_eq HOST m d' else Inr False) = Inr False"
    using assms(3) by (auto simp: other_header_def HOST_def)
  moreover have "g \<noteq> []" using assms(3) by (simp add: other_header_def)
  ultimately have "get_header al HOST m d len = get_header al HOST m d' (len - int (length l + 2))"
    by (subst get_header.simps) (simp add: nh split del: if_split)
  then show ?thesis by (simp add: m_def d'_def)
qed

lemma get_header_skips:
  assumes "no_eol l" and "\<forall>g \<in> set hs. other_header g" and "length xs = d"
    and "len = int (length l + 2 + length (concat (map line hs)) + length t)"
    and last: "\<And>xs l d len. no_eol l \<Longrightarrow> length xs = d \<Longrightarrow> len = int (length l + 2 + length t) \<Longrightarrow>
        get_header al HOST (xs @ line l @ t) d len = R"
  shows "get_header al HOST (xs @ line l @ concat (map line hs) @ t) d len = R"
  using assms(1-4)
proof (induction hs arbitrary: xs l d len)
  case Nil
  then show ?case by (simp add: last)
next
  case (Cons g hs)
  then have g: "other_header g" "no_eol g" by (simp_all add: other_header_def)
  from get_header_skip[OF Cons.prems(1) g(2,1) Cons.prems(3), of len "concat (map line hs) @ t"] Cons.prems(4)
  have "get_header al HOST (xs @ line l @ line g @ concat (map line hs) @ t) d len
    = get_header al HOST ((xs @ line l) @ line g @ concat (map line hs) @ t) (d + length l + 2)
        (len - int (length l + 2))"
    by simp
  also have "\<dots> = R"
    by (rule Cons.IH) (use Cons.prems g in \<open>auto simp: line_def\<close>)
  finally show ?case by simp
qed

lemma trim_port_none:
  "58 \<notin> set (take n h) \<Longrightarrow> n \<le> length h \<Longrightarrow> trim_port h r n = Inr (r, h)"
proof (induction n)
  case (Suc n)
  from Suc.prems have "h ! n \<noteq> 58" "58 \<notin> set (take n h)" by (auto simp: take_Suc_conv_app_nth)
  with Suc show ?case by (simp add: rd_ok)
qed simp

lemma trim_port_cut:
  "58 \<notin> set p \<Longrightarrow> trim_port (host @ 58 # p @ k) r (length host + 1 + length p)
     = Inr (int (length host), host @ 0 # p @ k)"
proof (induction p arbitrary: k rule: rev_induct)
  case Nil
  then show ?case by (simp add: rd_here)
next
  case (snoc c p)
  have "rd (host @ 58 # p @ c # k) (length host + 1 + length p) = Inr c"
    using rd_here[of "host @ 58 # p" "length host + 1 + length p" c k] by simp
  with snoc.IH[of "c # k"] snoc.prems show ?case by simp
qed

lemma sint_of_nat_small: "n < 2 ^ 31 \<Longrightarrow> sint (of_nat n :: u32) = int n"
  by (simp add: signed_of_nat signed_take_bit_int_eq_self_iff)



text \<open>
  A payload that ends inside of the \<open>Host\<close> header is not reported as incomplete:
  \<open>parse_http_header\<close> returns what has arrived of the name without its last byte.
\<close>

theorem http_incomplete_host:
  assumes "no_eol req" and "\<forall>g \<in> set hs. other_header g"
    and "map to_lower name = map to_lower HOST" and "\<forall>c \<in> set bs. isblank c"
    and "no_eol (name @ bs @ c # v)" and "\<not> isblank c" and "0 \<notin> set (c # v)" and "58 \<notin> set (c # v)"
    and "v \<noteq> []" and "al (length (c # v))"
    and m: "m = line req @ concat (map line hs) @ name @ bs @ c # v" and "length m < 2 ^ 31"
  shows "parse_http_header al m (length m) True = Inr (int (length v), Some (butlast (c # v) @ [0]))"
proof -
  let ?h = "name @ bs @ c # v"
  have "get_header al HOST ([] @ line req @ concat (map line hs) @ ?h) 0 (int (length m))
    = Inr (int (length v), Some (take (length v) (c # v) @ [0]))"
  proof (rule get_header_skips)
    fix xs :: "byte list" and l :: "byte list" and d len
    assume "no_eol l" "length xs = d" "len = int (length l + 2 + length ?h)"
    then show "get_header al HOST (xs @ line l @ ?h) d len
      = Inr (int (length v), Some (take (length v) (c # v) @ [0]))"
      using host_header_found[of l ?h xs d name bs "c # v" c v "length v" "[]" al len] assms(3-7,9,10) by simp
  qed (use assms in \<open>auto simp: line_def\<close>)
  moreover have "take (length v) (c # v) = butlast (c # v)" by (simp add: butlast_conv_take)
  ultimately have "get_header al HOST m 0 (int (length m)) = Inr (int (length v), Some (butlast (c # v) @ [0]))"
    by (simp add: m)
  moreover have "trim_port (butlast (c # v) @ [0]) (int (length v)) (length v)
      = Inr (int (length v), butlast (c # v) @ [0])"
    by (rule trim_port_none) (use assms(8) in \<open>auto dest: in_set_takeD in_set_butlastD\<close>)
  moreover have "m \<noteq> []" by (simp add: m line_def)
  ultimately show ?thesis
    using sint_of_nat_small[OF assms(12)] by (simp add: parse_http_header_def)
qed

theorem http_incomplete_host_witness:
  "parse_http_header (\<lambda>_. True) (line [71] @ [72, 111, 115, 116, 58, 32, 97, 46, 98])
     (length (line [71] @ [72, 111, 115, 116, 58, 32, 97, 46, 98])) True = Inr (2, Some [97, 46, 0])"
proof -
  define m where "m = line [71] @ [72, 111, 115, 116, 58, 32, 97, 46, 98]"
  have "parse_http_header (\<lambda>_. True) m (length m) True
      = Inr (int (length [46 :: byte, 98]), Some (butlast [97, 46, 98] @ [0]))"
    by (rule http_incomplete_host[where req = "[71]" and hs = "[]" and name = "[72, 111, 115, 116, 58]"
          and bs = "[32]" and c = 97 and v = "[46, 98]"])
      (simp_all add: m_def line_def CR_def LF_def isblank_def to_lower_def HOST_def)
  then show ?thesis by (simp add: m_def)
qed

end
