(* ===== verification/SS_Base64.thy ===== *)
theory SS_Base64
  imports C_Prelude
begin

text \<open>
  The URL-safe Base64 codec of \<^verbatim>\<open>shadowsocks-libev/src/base64.c\<close> and its client
  \<open>crypto_parse_key\<close> of \<^verbatim>\<open>crypto.c\<close>.

  \<^item> A C string is the list of its characters; the end of the list stands for the NUL.
  \<^item> \<open>v\<close> of \<open>base64_decode\<close> is an \<open>int\<close> that overflows on long inputs; it is a \<open>u32\<close> here, the
    wrap-around of a two's complement machine, and only its low 12 bits are ever used.
  \<^item> The output array is the list of the bytes written so far.
\<close>

definition map2_table :: "byte list" where
  "map2_table =
    [0xff, 0xff, 0x3e, 0xff, 0xff, 0x34, 0x35, 0x36,
     0x37, 0x38, 0x39, 0x3a, 0x3b, 0x3c, 0x3d, 0xff,
     0xff, 0xff, 0xff, 0xff, 0xff, 0xff, 0x00, 0x01,
     0x02, 0x03, 0x04, 0x05, 0x06, 0x07, 0x08, 0x09,
     0x0a, 0x0b, 0x0c, 0x0d, 0x0e, 0x0f, 0x10, 0x11,
     0x12, 0x13, 0x14, 0x15, 0x16, 0x17, 0x18, 0x19,
     0xff, 0xff, 0xff, 0xff, 0x3f, 0xff, 0x1a, 0x1b,
     0x1c, 0x1d, 0x1e, 0x1f, 0x20, 0x21, 0x22, 0x23,
     0x24, 0x25, 0x26, 0x27, 0x28, 0x29, 0x2a, 0x2b,
     0x2c, 0x2d, 0x2e, 0x2f, 0x30, 0x31, 0x32, 0x33]"

definition b64 :: "byte list" where
  "b64 = map of_char ''ABCDEFGHIJKLMNOPQRSTUVWXYZabcdefghijklmnopqrstuvwxyz0123456789-_''"

definition PAD :: byte where
  "PAD = 61"

fun decode_loop :: "int \<Rightarrow> nat \<Rightarrow> u32 \<Rightarrow> byte list \<Rightarrow> byte list \<Rightarrow> int \<times> byte list" where
  "decode_loop out_size i v out [] = (int (length out), out)"
| "decode_loop out_size i v out (c # s) =
     (if c = 0 \<or> c = PAD then (int (length out), out)
      else
        let index = unat ((scast c :: u32) - 43)
        in if index \<ge> length map2_table then (-1, out)
           else if map2_table ! index = 0xff then (-1, out)
           else
             let v = push_bit 6 v + ucast (map2_table ! index)
             in decode_loop out_size (i + 1) v
                  (if i mod 4 \<noteq> 0 \<and> int (length out) < out_size
                   then out @ [ucast (drop_bit (6 - 2 * (i mod 4)) v)] else out) s)"

definition base64_decode :: "byte list \<Rightarrow> int \<Rightarrow> int \<times> byte list" where
  "base64_decode s out_size = decode_loop out_size 0 0 [] s"

text \<open>The inner \<open>do\<close> loop of \<open>base64_encode\<close>; \<open>final\<close> is \<open>bytes_remaining == 0\<close>.\<close>

function emit :: "u32 \<Rightarrow> int \<Rightarrow> bool \<Rightarrow> byte list \<times> int" where
  "emit i_bits i_shift final =
     (let c = b64 ! unat (drop_bit (nat i_shift) (push_bit 6 i_bits) AND 0x3f); i_shift = i_shift - 6
      in if i_shift > 6 \<or> (final \<and> i_shift > 0)
         then (case emit i_bits i_shift final of (cs, i_shift) \<Rightarrow> (c # cs, i_shift))
         else ([c], i_shift))"
  by pat_completeness auto
termination
  by (relation "measure (\<lambda>(_, i_shift, _). nat i_shift)") auto

declare emit.simps [simp del]

fun encode_loop :: "u32 \<Rightarrow> int \<Rightarrow> byte list \<Rightarrow> byte list" where
  "encode_loop i_bits i_shift [] = []"
| "encode_loop i_bits i_shift (x # xs) =
     (let i_bits = push_bit 8 i_bits + ucast x
      in case emit i_bits (i_shift + 8) (xs = []) of
           (cs, i_shift) \<Rightarrow> cs @ encode_loop i_bits i_shift xs)"

function pad_loop :: "byte list \<Rightarrow> byte list" where
  "pad_loop out = (if length out mod 4 \<noteq> 0 then pad_loop (out @ [PAD]) else out)"
  by pat_completeness auto
termination
  by (relation "measure (\<lambda>out. (4 - length out mod 4) mod 4)") (auto simp: mod_Suc)

declare pad_loop.simps [simp del]

definition BASE64_SIZE :: "nat \<Rightarrow> nat" where
  "BASE64_SIZE x = (x + 2) div 3 * 4 + 1"

text \<open>\<open>None\<close> is the NULL result; otherwise the bytes written, the NUL included.\<close>

definition base64_encode :: "int \<Rightarrow> byte list \<Rightarrow> byte list option" where
  "base64_encode out_size inp =
     (if length inp \<ge> (2 ^ 32 - 1) div 4 \<or> out_size < int (BASE64_SIZE (length inp)) then None
      else Some (pad_loop (encode_loop 0 0 inp) @ [0]))"

section \<open>Sextets\<close>

definition sext0 :: "byte \<Rightarrow> byte" where "sext0 a = drop_bit 2 a"
definition sext1 :: "byte \<Rightarrow> byte \<Rightarrow> byte" where "sext1 a b = push_bit 4 (a AND 3) OR drop_bit 4 b"
definition sext2 :: "byte \<Rightarrow> byte \<Rightarrow> byte" where "sext2 b c = push_bit 2 (b AND 15) OR drop_bit 6 c"
definition sext3 :: "byte \<Rightarrow> byte" where "sext3 c = c AND 63"

definition enc :: "byte \<Rightarrow> byte" where
  "enc x = b64 ! unat x"

text \<open>The reference encoder of RFC 4648, by groups of three bytes.\<close>

fun rfc_encode :: "byte list \<Rightarrow> byte list" where
  "rfc_encode [] = []"
| "rfc_encode [a] = [enc (sext0 a), enc (sext1 a 0), PAD, PAD]"
| "rfc_encode [a, b] = [enc (sext0 a), enc (sext1 a b), enc (sext2 b 0), PAD]"
| "rfc_encode (a # b # c # s) =
     enc (sext0 a) # enc (sext1 a b) # enc (sext2 b c) # enc (sext3 c) # rfc_encode s"

text \<open>What the loop emits for the bits \<open>bs\<close> of the accumulator.\<close>

lemma pick_unat:
  "unat (drop_bit n (push_bit 6 w) AND 0x3f) = unat (ucast (drop_bit n (push_bit 6 w) AND 0x3f) :: byte)"
  for w :: u32
proof -
  have "(drop_bit n (push_bit 6 w) AND 0x3f) \<le> 0x3f" by (rule word_and_le1)
  then have "unat (drop_bit n (push_bit 6 w) AND 0x3f) \<le> 63" by (simp add: word_le_nat_alt)
  then show ?thesis by (simp add: unsigned_ucast_eq unsigned_take_bit_eq take_bit_nat_eq_self)
qed

lemma mask6: "0x3f = (mask 6 :: 'a::len word)" "3 = (mask 2 :: 'a word)" "15 = (mask 4 :: 'a word)"
  by (simp_all add: mask_eq_exp_minus_1)

definition pick :: "nat \<Rightarrow> u32 \<Rightarrow> byte" where
  "pick n w = ucast (drop_bit n (push_bit 6 w) AND 0x3f)"

lemma bit_pick: "bit (pick n w) i \<longleftrightarrow> i < 6 \<and> n + i < 32 \<and> 6 \<le> n + i \<and> bit w (n + i - 6)"
  by (auto simp: pick_def mask6 bit_simps)

lemma emit_pick:
  "emit w s final =
     (if s - 6 > 6 \<or> final \<and> s - 6 > 0
      then (case emit w (s - 6) final of (cs, s') \<Rightarrow> (enc (pick (nat s) w) # cs, s'))
      else ([enc (pick (nat s) w)], s - 6))"
  by (subst emit.simps) (simp add: Let_def pick_unat enc_def pick_def)


text \<open>The accumulator after a byte: eight new low bits.\<close>

lemma bit_shift_in: "bit (push_bit 8 w + ucast x :: u32) n
    \<longleftrightarrow> n < 32 \<and> (if n < 8 then bit x n else bit w (n - 8))" for x :: byte
proof -
  have "push_bit 8 w + ucast x = (push_bit 8 w OR ucast x :: u32)"
    by (rule disjunctive_add) (auto simp: bit_simps dest: bit_imp_le_length)
  then show ?thesis by (auto simp: bit_simps dest: bit_imp_le_length)
qed

lemmas sext_defs = sext0_def sext1_def sext2_def sext3_def

abbreviation shift_in :: "u32 \<Rightarrow> byte \<Rightarrow> u32" where
  "shift_in w x \<equiv> push_bit 8 w + ucast x"

lemma picks:
  "pick 8 (shift_in w a) = sext0 a" "pick 2 (shift_in w a) = sext1 a 0"
  "pick 10 (shift_in (shift_in w a) b) = sext1 a b" "pick 4 (shift_in w b) = sext2 b 0"
  "pick 12 (shift_in (shift_in w b) c) = sext2 b c" "pick 6 (shift_in w c) = sext3 c"
  "pick 14 (shift_in (shift_in w c) d) = sext3 c"
  by (rule bit_eqI;
      auto simp: bit_pick bit_shift_in sext_defs mask6 bit_simps dest: bit_imp_le_length)+

lemma pad_loop_append: "length p mod 4 = 0 \<Longrightarrow> pad_loop (p @ r) = p @ pad_loop r"
proof (induction r rule: pad_loop.induct)
  case (1 r)
  then have "length (p @ r) mod 4 = length r mod 4" by (metis add_0 length_append mod_add_left_eq)
  with 1 show ?case by (subst (1 2) pad_loop.simps) simp
qed

lemma encode_loop_pending:
  assumes "s \<noteq> []"
  shows "encode_loop (shift_in w c) 6 s = enc (sext3 c) # encode_loop (shift_in w c) 0 s"
proof -
  from assms obtain d t where "s = d # t" by (cases s) auto
  then show ?thesis by (simp add: emit_pick[of _ 14] picks Let_def split: prod.splits)
qed

text \<open>The accumulator keeps bits of earlier bytes above the current ones, which never show.\<close>

lemma encode_loop_rfc: "pad_loop (encode_loop w 0 s) = rfc_encode s"
proof (induction s arbitrary: w rule: rfc_encode.induct)
  case 1
  then show ?case by (simp add: pad_loop.simps)
next
  case (2 a)
  show ?case by (simp add: emit_pick picks pad_loop.simps)
next
  case (3 a b)
  show ?case by (simp add: emit_pick picks pad_loop.simps)
next
  case (4 a b c s)
  show ?case
  proof (cases s)
    case Nil
    then show ?thesis by (simp add: emit_pick picks pad_loop.simps)
  next
    case (Cons d t)
    then have "s \<noteq> []" by simp
    then have "encode_loop w 0 (a # b # c # s)
      = [enc (sext0 a), enc (sext1 a b), enc (sext2 b c), enc (sext3 c)]
          @ encode_loop (shift_in (shift_in (shift_in w a) b) c) 0 s"
      by (simp add: emit_pick picks encode_loop_pending)
    then show ?thesis
      using pad_loop_append[of "[enc (sext0 a), enc (sext1 a b), enc (sext2 b c), enc (sext3 c)]"] "4.IH"
      by simp
  qed
qed

section \<open>Decoding\<close>

definition dec :: "byte \<Rightarrow> byte option" where
  "dec c = (let index = unat ((scast c :: u32) - 43)
            in if c = 0 \<or> c = PAD \<or> index \<ge> length map2_table \<or> map2_table ! index = 0xff then None
               else Some (map2_table ! index))"

lemma dec_b64: "map dec b64 = map (\<lambda>n. Some (of_nat n)) [0..<64]"
  by code_simp

lemma dec_enc: "x < 64 \<Longrightarrow> dec (enc x) = Some x"
proof -
  assume "x < 64"
  then have "unat x < 64" by (simp add: word_less_nat_alt)
  moreover have "length b64 = 64" by (simp add: b64_def)
  ultimately have "dec (b64 ! unat x) = (map (\<lambda>n. Some (of_nat n)) [0..<64]) ! unat x"
    by (metis dec_b64 nth_map)
  with \<open>unat x < 64\<close> show ?thesis by (simp add: enc_def)
qed

lemma decode_loop_dec:
  assumes "dec c = Some x"
  shows "decode_loop k i v out (c # s) =
    (let v = push_bit 6 v + ucast x
     in decode_loop k (i + 1) v
          (if i mod 4 \<noteq> 0 \<and> int (length out) < k
           then out @ [ucast (drop_bit (6 - 2 * (i mod 4)) v)] else out) s)"
  using assms by (auto simp: dec_def Let_def split: if_splits)

lemma decode_loop_bad:
  assumes "dec c = None" and "c \<noteq> 0" and "c \<noteq> PAD"
  shows "decode_loop k i v out (c # s) = (-1, out)"
  using assms by (auto simp: dec_def Let_def split: if_splits)

lemma less_64_iff: "x < 64 \<longleftrightarrow> (\<forall>n \<ge> 6. \<not> bit x n)" for x :: byte
proof -
  have "x < 64 \<longleftrightarrow> unat (drop_bit 6 x) = 0"
    by (simp only: unat_drop_bit_eq word_less_nat_alt) (simp add: drop_bit_eq_div div_eq_0_iff)
  also have "\<dots> \<longleftrightarrow> drop_bit 6 x = 0"
    by (rule unat_eq_zero)
  also have "\<dots> \<longleftrightarrow> (\<forall>n. \<not> bit x (6 + n))"
  proof
    assume "drop_bit 6 x = 0"
    then have "\<not> bit (drop_bit 6 x) n" for n by simp
    then show "\<forall>n. \<not> bit x (6 + n)" by (simp only: bit_drop_bit_eq comp_apply) simp
  next
    assume "\<forall>n. \<not> bit x (6 + n)"
    then show "drop_bit 6 x = 0" by (intro bit_eqI) (simp add: bit_drop_bit_eq)
  qed
  also have "\<dots> \<longleftrightarrow> (\<forall>n \<ge> 6. \<not> bit x n)"
    by (metis le_add1 le_add_diff_inverse)
  finally show ?thesis .
qed

lemma sext_less [simp]: "sext0 a < 64" "sext1 a b < 64" "sext2 b c < 64" "sext3 c < 64"
  by (auto simp: less_64_iff sext_defs mask6 bit_simps dest: bit_imp_le_length)

lemma bit_shift6:
  fixes x :: byte
  assumes "x < 64"
  shows "bit (push_bit 6 v + ucast x :: u32) n \<longleftrightarrow> n < 32 \<and> (if n < 6 then bit x n else bit v (n - 6))"
proof -
  from assms have hi: "\<not> bit x n" if "6 \<le> n" for n using that by (simp add: less_64_iff)
  have "push_bit 6 v + ucast x = (push_bit 6 v OR ucast x :: u32)"
    by (rule disjunctive_add) (auto simp: bit_simps hi)
  then show ?thesis by (auto simp: bit_simps hi dest: bit_imp_le_length)
qed

abbreviation shift6 :: "u32 \<Rightarrow> byte \<Rightarrow> u32" where
  "shift6 v x \<equiv> push_bit 6 v + ucast x"

lemma join0: "ucast (drop_bit 4 (shift6 (shift6 v (sext0 a)) (sext1 a b))) = a"
  by (rule bit_eqI, simp add: bit_ucast_iff bit_drop_bit_eq bit_shift6,
      auto simp: bit_simps sext_defs mask6 not_less simp del: add_2_eq_Suc add_2_eq_Suc'
      dest: bit_imp_le_length split: if_splits)

lemma join1: "ucast (drop_bit 2 (shift6 (shift6 v (sext1 a b)) (sext2 b c))) = b"
  by (rule bit_eqI, simp add: bit_ucast_iff bit_drop_bit_eq bit_shift6 del: add_2_eq_Suc add_2_eq_Suc',
      auto simp: bit_simps sext_defs mask6 not_less dest: bit_imp_le_length split: if_splits)

lemma join2: "ucast (shift6 (shift6 v (sext2 b c)) (sext3 c)) = c"
  by (rule bit_eqI, simp add: bit_ucast_iff bit_shift6,
      auto simp: bit_simps sext_defs mask6 not_less dest: bit_imp_le_length split: if_splits)

lemmas joins = join0 join1 join2

lemma decode_loop_pad: "decode_loop k i v out (PAD # s) = (int (length out), out)"
  by simp

lemma decode_loop_rfc:
  assumes "i mod 4 = 0" and "int (length out + length s) \<le> k"
  shows "decode_loop k i v out (rfc_encode s) = (int (length out + length s), out @ s)"
  using assms
proof (induction s arbitrary: i v out rule: rfc_encode.induct)
  case (4 a b c s)
  have "Suc i mod 4 = 1" "Suc (Suc i) mod 4 = 2" "(3 + i) mod 4 = 3" "Suc (Suc (Suc (Suc i))) mod 4 = 0"
    using "4.prems"(1) by presburger+
  with "4.prems" "4.IH"[of "Suc (Suc (Suc (Suc i)))" "out @ [a, b, c]"] show ?case
    by (simp add: decode_loop_dec dec_enc Let_def joins del: decode_loop.simps(2))
qed (auto simp: decode_loop_dec decode_loop_pad dec_enc Let_def joins mod_Suc simp del: decode_loop.simps(2))

lemma length_rfc_encode: "length (rfc_encode s) + 1 = BASE64_SIZE (length s)"
proof (induction s rule: rfc_encode.induct)
  case (4 a b c s)
  have "(length s + 3 + 2) div 3 = (length s + 2) div 3 + 1" by presburger
  with 4 show ?case by (simp add: BASE64_SIZE_def add_ac)
qed (simp_all add: BASE64_SIZE_def)

text \<open>
  C33. \<open>base64_encode\<close> computes the encoding of RFC 4648, fills exactly the \<open>BASE64_SIZE\<close> bytes the
  caller has to provide, and \<open>base64_decode\<close> gives the data back.
\<close>

theorem base64_roundtrip:
  assumes "length s < (2 ^ 32 - 1) div 4" and "int (BASE64_SIZE (length s)) \<le> out_size"
    and "int (length s) \<le> k"
  shows "\<exists>e. base64_encode out_size s = Some (e @ [0]) \<and> e = rfc_encode s
    \<and> length (e @ [0]) = BASE64_SIZE (length s) \<and> base64_decode e k = (int (length s), s)"
  using assms decode_loop_rfc[of 0 "[]" s k 0] length_rfc_encode[of s]
  by (simp add: base64_encode_def base64_decode_def encode_loop_rfc)

theorem base64_roundtrip_witness:
  "\<exists>e. base64_encode 9 [251, 255, 1, 2] = Some (e @ [0]) \<and> e = rfc_encode [251, 255, 1, 2]
    \<and> length (e @ [0]) = BASE64_SIZE 4 \<and> base64_decode e 4 = (4, [251, 255, 1, 2])"
  using base64_roundtrip[of "[251, 255, 1, 2]" 9 4] by (simp add: BASE64_SIZE_def)

section \<open>crypto_parse_key\<close>

text \<open>
  \<open>junk\<close> is what the array \<open>out\<close> of \<open>BASE64_SIZE(base64_len)\<close> bytes on the stack holds before.
  The \<open>int\<close> result of \<open>base64_decode\<close> is assigned to the \<open>size_t\<close> \<open>out_len\<close>.  The result is the
  key; \<open>FATAL\<close> ends the process.
\<close>

definition crypto_parse_key :: "byte list \<Rightarrow> byte list \<Rightarrow> nat \<Rightarrow> byte list run" where
  "crypto_parse_key junk base64 key_len =
     (case base64_decode base64 (int (BASE64_SIZE (length base64))) of
        (r, written) \<Rightarrow>
          let out = write_at 0 written junk; out_len = of_int r :: u64
          in if out_len > 0 \<and> unat out_len \<ge> key_len
             then (if key_len \<le> length out then Inr (take key_len out) else Inl OutOfBounds)
             else Inl FatalExit)"

text \<open>
  \<open>crypto_parse_key\<close> recovers every key of at least one byte from its Base64 form, whatever the
  stack array held.
\<close>

theorem crypto_parse_key_encoded:
  assumes "key \<noteq> []" and "length key < 2 ^ 30" and "length junk = BASE64_SIZE (length (rfc_encode key))"
  shows "crypto_parse_key junk (rfc_encode key) (length key) = Inr key"
proof -
  define n where "n = length key"
  have "n \<le> BASE64_SIZE (length (rfc_encode key))"
    using length_rfc_encode[of key] by (simp add: n_def BASE64_SIZE_def)
  then have "base64_decode (rfc_encode key) (int (BASE64_SIZE (length (rfc_encode key)))) = (int n, key)"
    using decode_loop_rfc[of 0 "[]" key _ 0] by (simp add: base64_decode_def n_def)
  moreover have "unat (of_nat n :: u64) = n"
    using assms(2) by (simp add: n_def unat_of_nat)
  moreover have "0 < n" using assms(1) by (simp add: n_def)
  ultimately show ?thesis
    using assms(3) \<open>n \<le> _\<close> take_write_at_0[of key junk]
    by (simp add: crypto_parse_key_def Let_def n_def word_less_nat_alt)
qed

theorem crypto_parse_key_encoded_witness:
  "crypto_parse_key (replicate 9 7) (rfc_encode [251, 255, 1]) 3 = Inr [251, 255, 1]"
  using crypto_parse_key_encoded[of "[251, 255, 1]" "replicate 9 7"]
  by (simp add: BASE64_SIZE_def flip: numeral_3_eq_3)

text \<open>
  A string that starts with a character outside of the Base64 alphabet is accepted: the result
  \<open>-1\<close> of \<open>base64_decode\<close> becomes the largest \<open>size_t\<close>, and the key is whatever the uninitialised
  stack array held.
\<close>

theorem crypto_parse_key_invalid_accepted:
  assumes "dec c = None" and "c \<noteq> 0" and "c \<noteq> PAD" and "key_len \<le> length junk" and "key_len < 2 ^ 64"
  shows "crypto_parse_key junk (c # s) key_len = Inr (take key_len junk)"
proof -
  have "base64_decode (c # s) k = (-1, [])" for k
    using decode_loop_bad[OF assms(1-3)] by (simp add: base64_decode_def)
  then show ?thesis
    using assms(4,5) by (simp add: crypto_parse_key_def Let_def write_at_def unsigned_minus_1_eq_mask mask_eq_exp_minus_1 word_less_nat_alt)
qed

theorem crypto_parse_key_invalid_accepted_witness:
  "crypto_parse_key [1, 2, 3, 4, 5] [43] 4 = Inr [1, 2, 3, 4]"
  using crypto_parse_key_invalid_accepted[of 43 4 "[1, 2, 3, 4, 5]" "[]"]
  by (simp add: dec_def map2_table_def PAD_def)

end
