(* ===== verification/SS_Bloom.thy ===== *)
theory SS_Bloom
  imports C_Prelude
begin

text \<open>
  The replay filter: \<^verbatim>\<open>MurmurHash2.c\<close>, \<^verbatim>\<open>bloom.c\<close> and \<^verbatim>\<open>src/ppbloom.c\<close> of
  \<^verbatim>\<open>shadowsocks-libev\<close>.

  \<^item> \<open>fp\<close> stands for the floating point part of \<open>bloom_init\<close>: \<open>fp_zero error\<close> is \<open>error == 0\<close> and
    \<open>fp_dims entries error\<close> gives \<open>bits\<close> and \<open>hashes\<close>.  \<open>al n\<close> tells whether \<open>calloc\<close> of \<open>n\<close> bytes
    succeeds.
  \<^item> \<open>bf\<close> is the bit field as a list of bytes; an access outside of it is a fault.
  \<^item> The static variables of \<open>ppbloom.c\<close> are the record \<open>ppbloom\<close>; \<open>current\<close> is \<open>False\<close> for PING.

  The locale \<open>generation\<close> states what one filter promises; the sliding window of two generations is
  proved from it and transferred to \<open>ppbloom_add\<close> and \<open>ppbloom_check\<close>.
\<close>

section \<open>MurmurHash2.c\<close>

definition mm :: u32 where
  "mm = 0x5bd1e995"

fun murmur_loop :: "u32 \<Rightarrow> byte list \<Rightarrow> u32 \<times> byte list" where
  "murmur_loop h (a # b # c # d # data) =
     (let k = load32_le [a, b, c, d] * mm;
          k = k XOR drop_bit 24 k;
          k = k * mm;
          h = h * mm
      in murmur_loop (h XOR k) data)"
| "murmur_loop h data = (h, data)"

definition murmur_tail :: "u32 \<Rightarrow> byte list \<Rightarrow> u32" where
  "murmur_tail h data =
     (let h = (if length data = 3 then h XOR push_bit 16 (ucast (byte_at data 2)) else h);
          h = (if length data \<ge> 2 then h XOR push_bit 8 (ucast (byte_at data 1)) else h)
      in if length data \<ge> 1 then (h XOR ucast (byte_at data 0)) * mm else h)"

definition murmurhash2 :: "byte list \<Rightarrow> u32 \<Rightarrow> u32" where
  "murmurhash2 key seed =
     (let (h, rest) = murmur_loop (seed XOR of_nat (length key)) key;
          h = murmur_tail h rest;
          h = h XOR drop_bit 13 h;
          h = h * mm
      in h XOR drop_bit 15 h)"

section \<open>bloom.c\<close>

record bloom =
  bl_entries :: int
  bl_bits :: int
  bl_bytes :: int
  bl_hashes :: int
  bl_bf :: "byte list"
  bl_ready :: bool

record 'd floats =
  fp_zero :: "'d \<Rightarrow> bool"
  fp_dims :: "int \<Rightarrow> 'd \<Rightarrow> int \<times> int"

definition test_bit_set_bit :: "byte list \<Rightarrow> nat \<Rightarrow> bool \<Rightarrow> (bool \<times> byte list) run" where
  "test_bit_set_bit buf x set_it =
     (let i = x div 8
      in if i < length buf
         then let c = buf ! i; mask = push_bit (x mod 8) 1 :: byte
              in if c AND mask \<noteq> 0 then Inr (True, buf)
                 else Inr (False, if set_it then buf[i := c OR mask] else buf)
         else Inl OutOfBounds)"

text \<open>The loop over \<open>i < hashes\<close>; the unsigned remainder by \<open>bits\<close> is undefined for 0.\<close>

definition probe :: "u32 \<Rightarrow> u32 \<Rightarrow> int \<Rightarrow> nat \<Rightarrow> nat" where
  "probe a b bits i = unat ((a + of_nat i * b) mod of_int bits)"

fun probe_loop :: "u32 \<Rightarrow> u32 \<Rightarrow> int \<Rightarrow> bool \<Rightarrow> nat list \<Rightarrow> byte list \<Rightarrow> int \<Rightarrow> (byte list \<times> int) run" where
  "probe_loop a b bits add [] bf hits = Inr (bf, hits)"
| "probe_loop a b bits add (i # is) bf hits =
     bindE (guardE (bits \<noteq> 0) Aborted) (\<lambda>_.
     bindE (test_bit_set_bit bf (probe a b bits i) add) (\<lambda>(hit, bf).
       probe_loop a b bits add is bf (if hit then hits + 1 else hits)))"

definition bloom_check_add :: "bloom \<Rightarrow> byte list \<Rightarrow> bool \<Rightarrow> (int \<times> bloom) run" where
  "bloom_check_add bl buffer add =
     (if \<not> bl_ready bl then Inr (-1, bl)
      else
        let a = murmurhash2 buffer 0x9747b28c; b = murmurhash2 buffer a
        in bindE (probe_loop a b (bl_bits bl) add [0..<nat (bl_hashes bl)] (bl_bf bl) 0) (\<lambda>(bf, hits).
             Inr (if hits = bl_hashes bl then 1 else 0, bl\<lparr>bl_bf := bf\<rparr>)))"

definition bloom_init :: "'d floats \<Rightarrow> (nat \<Rightarrow> bool) \<Rightarrow> bloom \<Rightarrow> int \<Rightarrow> 'd \<Rightarrow> int \<times> bloom" where
  "bloom_init fp al bl entries error =
     (let bl = bl\<lparr>bl_ready := False\<rparr>
      in if entries < 1 \<or> fp_zero fp error then (1, bl)
         else
           let (bits, hashes) = fp_dims fp entries error;
               bytes = (if bits mod 8 \<noteq> 0 then bits div 8 + 1 else bits div 8);
               bl = bl\<lparr>bl_entries := entries, bl_bits := bits, bl_bytes := bytes, bl_hashes := hashes\<rparr>
           in if al (nat bytes)
              then (0, bl\<lparr>bl_bf := replicate (nat bytes) 0, bl_ready := True\<rparr>)
              else (1, bl\<lparr>bl_bf := []\<rparr>))"

definition bloom_check :: "bloom \<Rightarrow> byte list \<Rightarrow> (int \<times> bloom) run" where
  "bloom_check bl buffer = bloom_check_add bl buffer False"

definition bloom_add :: "bloom \<Rightarrow> byte list \<Rightarrow> (int \<times> bloom) run" where
  "bloom_add bl buffer = bloom_check_add bl buffer True"

definition bloom_free :: "bloom \<Rightarrow> bloom" where
  "bloom_free bl = (if bl_ready bl then bl\<lparr>bl_bf := [], bl_ready := False\<rparr> else bl\<lparr>bl_ready := False\<rparr>)"

section \<open>ppbloom.c\<close>

record 'd ppbloom =
  pp_bloom :: "bool \<Rightarrow> bloom"
  pp_count :: "bool \<Rightarrow> int"
  pp_current :: bool
  pp_entries :: int
  pp_error :: 'd

abbreviation PING :: bool where "PING \<equiv> False"
abbreviation PONG :: bool where "PONG \<equiv> True"

definition ppbloom_init ::
    "'d floats \<Rightarrow> (nat \<Rightarrow> bool) \<Rightarrow> 'd ppbloom \<Rightarrow> int \<Rightarrow> 'd \<Rightarrow> int \<times> 'd ppbloom" where
  "ppbloom_init fp al pp n e =
     (let entries = (if n < 0 then - (- n div 2) else n div 2);
          pp = pp\<lparr>pp_entries := entries, pp_error := e\<rparr>;
          (err, b) = bloom_init fp al (pp_bloom pp PING) entries e;
          pp = pp\<lparr>pp_bloom := (pp_bloom pp)(PING := b)\<rparr>
      in if err \<noteq> 0 then (err, pp)
         else
           let (err, b) = bloom_init fp al (pp_bloom pp PONG) entries e;
               pp = pp\<lparr>pp_bloom := (pp_bloom pp)(PONG := b)\<rparr>
           in if err \<noteq> 0 then (err, pp)
              else (0, pp\<lparr>pp_count := (\<lambda>_. 0), pp_current := PING\<rparr>))"

definition ppbloom_check :: "'d ppbloom \<Rightarrow> byte list \<Rightarrow> int run" where
  "ppbloom_check pp buffer =
     bindE (bloom_check (pp_bloom pp PING) buffer) (\<lambda>(ret, _).
       if ret \<noteq> 0 then Inr ret
       else
       bindE (bloom_check (pp_bloom pp PONG) buffer) (\<lambda>(ret, _).
         if ret \<noteq> 0 then Inr ret else Inr 0))"

definition ppbloom_add ::
    "'d floats \<Rightarrow> (nat \<Rightarrow> bool) \<Rightarrow> 'd ppbloom \<Rightarrow> byte list \<Rightarrow> (int \<times> 'd ppbloom) run" where
  "ppbloom_add fp al pp buffer =
     (let cur = pp_current pp
      in bindE (bloom_add (pp_bloom pp cur) buffer) (\<lambda>(err, b).
           let pp = pp\<lparr>pp_bloom := (pp_bloom pp)(cur := b)\<rparr>
           in if err = -1 then Inr (err, pp)
              else
                let pp = pp\<lparr>pp_count := (pp_count pp)(cur := pp_count pp cur + 1)\<rparr>
                in if pp_count pp cur \<ge> pp_entries pp
                   then
                     let pp = pp\<lparr>pp_count := (pp_count pp)(cur := 0), pp_current := \<not> cur\<rparr>;
                         b = bloom_free (pp_bloom pp (\<not> cur));
                         (_, b) = bloom_init fp al b (pp_entries pp) (pp_error pp)
                     in Inr (0, pp\<lparr>pp_bloom := (pp_bloom pp)((\<not> cur) := b)\<rparr>)
                   else Inr (0, pp)))"

definition ppbloom_free :: "'d ppbloom \<Rightarrow> 'd ppbloom" where
  "ppbloom_free pp = pp\<lparr>pp_bloom := (\<lambda>i. bloom_free (pp_bloom pp i))\<rparr>"

section \<open>One filter\<close>

definition bit_of :: "byte list \<Rightarrow> nat \<Rightarrow> bool" where
  "bit_of bf x \<longleftrightarrow> x div 8 < length bf \<and> bit (bf ! (x div 8)) (x mod 8)"

text \<open>What \<open>bloom_init\<close> and \<open>calloc\<close> establish.\<close>

definition bl_ok :: "bloom \<Rightarrow> bool" where
  "bl_ok bl \<longleftrightarrow> bl_ready bl \<and> 0 < bl_bits bl \<and> bl_bits bl < 2 ^ 31 \<and> 0 \<le> bl_hashes bl
     \<and> bl_bits bl \<le> 8 * int (length (bl_bf bl))"

definition probes :: "bloom \<Rightarrow> byte list \<Rightarrow> nat list" where
  "probes bl e =
     (let a = murmurhash2 e 0x9747b28c; b = murmurhash2 e a
      in map (probe a b (bl_bits bl)) [0..<nat (bl_hashes bl)])"

definition present :: "bloom \<Rightarrow> byte list \<Rightarrow> bool" where
  "present bl e \<longleftrightarrow> (\<forall>x \<in> set (probes bl e). bit_of (bl_bf bl) x)"

definition set_at :: "byte list \<Rightarrow> nat \<Rightarrow> byte list" where
  "set_at bf x = bf[x div 8 := bf ! (x div 8) OR push_bit (x mod 8) 1]"

lemma length_set_at [simp]: "length (set_at bf x) = length bf"
  by (simp add: set_at_def)

lemma bit_of_set_at:
  assumes "x div 8 < length bf"
  shows "bit_of (set_at bf x) y \<longleftrightarrow> bit_of bf y \<or> y = x"
proof (cases "y div 8 = x div 8")
  case True
  then have "y = x \<longleftrightarrow> y mod 8 = x mod 8" by (metis div_mult_mod_eq)
  then show ?thesis
    unfolding bit_of_def set_at_def True using assms by (auto simp: bit_or_iff bit_exp_iff)
next
  case False
  then have "y \<noteq> x" by auto
  with False show ?thesis by (simp add: bit_of_def set_at_def)
qed

lemma test_bit_set_bit_ok:
  assumes "x div 8 < length bf"
  shows "test_bit_set_bit bf x s = Inr (bit_of bf x, if s then set_at bf x else bf)"
proof -
  have m: "c AND push_bit k 1 \<noteq> 0 \<longleftrightarrow> bit c k" for c :: byte and k
    by (simp add: bit_iff_and_push_bit_not_eq_0)
  have "c OR push_bit k 1 = c" if "bit c k" for c :: byte and k
    by (rule bit_eqI) (use that in \<open>auto simp: bit_or_iff bit_exp_iff\<close>)
  then show ?thesis
    using assms m by (auto simp: test_bit_set_bit_def Let_def bit_of_def set_at_def)
qed

lemma probe_inside:
  assumes "0 < bits" and "bits < 2 ^ 31" and "bits \<le> 8 * int n"
  shows "probe a b bits i div 8 < n"
proof -
  have "unat (of_int bits :: u32) = nat bits"
    using assms by (simp add: unat_eq_nat_uint uint_word_of_int take_bit_int_eq_self)
  then have "probe a b bits i < nat bits"
    using assms(1) by (simp add: probe_def unat_mod)
  with assms show ?thesis by linarith
qed

lemma probe_loop_check:
  assumes "0 < bits" and "bits < 2 ^ 31" and "bits \<le> 8 * int (length bf)"
  shows "probe_loop a b bits False is bf hits
    = Inr (bf, hits + int (length (filter (\<lambda>i. bit_of bf (probe a b bits i)) is)))"
  using assms
  by (induction "is" arbitrary: hits) (auto simp: test_bit_set_bit_ok[OF probe_inside[OF assms]])

lemma probe_loop_add:
  assumes "0 < bits" and "bits < 2 ^ 31" and "bits \<le> 8 * int (length bf)"
  shows "\<exists>h. probe_loop a b bits True is bf hits
    = Inr (fold (\<lambda>i bf. set_at bf (probe a b bits i)) is bf, h)"
  using assms
proof (induction "is" arbitrary: bf hits)
  case (Cons i "is")
  from Cons.IH[of "set_at bf (probe a b bits i)"] Cons.prems show ?case
    by (auto simp: test_bit_set_bit_ok[OF probe_inside[OF Cons.prems]])
qed simp

lemma bit_of_fold:
  assumes "\<And>i. f i div 8 < length bf"
  shows "bit_of (fold (\<lambda>i bf. set_at bf (f i)) is bf) y \<longleftrightarrow> bit_of bf y \<or> y \<in> f ` set is"
    and "length (fold (\<lambda>i bf. set_at bf (f i)) is bf) = length bf"
  using assms
proof (induction "is" arbitrary: bf)
  case (Cons i "is")
  { case 1
    then show ?case using Cons.IH(1)[of "set_at bf (f i)"] by (auto simp: bit_of_set_at) }
  { case 2
    then show ?case using Cons.IH(2)[of "set_at bf (f i)"] by simp }
qed simp_all

lemma length_filter_all: "int (length (filter P xs)) = int (length xs) \<longleftrightarrow> (\<forall>x \<in> set xs. P x)"
  by (metis filter_True filter_id_conv length_filter_less less_irrefl of_nat_eq_iff)

lemma bloom_check_eq:
  assumes "bl_ok bl"
  shows "bloom_check bl e = Inr (if present bl e then 1 else 0, bl)"
proof -
  define a where "a = murmurhash2 e 0x9747b28c"
  define b where "b = murmurhash2 e a"
  let ?P = "\<lambda>i. bit_of (bl_bf bl) (probe a b (bl_bits bl) i)"
  have "present bl e \<longleftrightarrow> (\<forall>i \<in> set [0..<nat (bl_hashes bl)]. ?P i)"
    by (simp add: present_def probes_def Let_def a_def b_def)
  also have "\<dots> \<longleftrightarrow> int (length (filter ?P [0..<nat (bl_hashes bl)])) = bl_hashes bl"
    using length_filter_all[of ?P "[0..<nat (bl_hashes bl)]"] assms by (simp add: bl_ok_def)
  finally show ?thesis
    using assms by (simp add: bloom_check_def bloom_check_add_def bl_ok_def Let_def
        probe_loop_check a_def[symmetric] b_def[symmetric])
qed

lemma bloom_add_ok:
  assumes "bl_ok bl"
  obtains r bl' where "bloom_add bl e = Inr (r, bl')" "r = 0 \<or> r = 1" "bl_ok bl'" "present bl' e"
    "\<And>d. present bl d \<Longrightarrow> present bl' d"
proof -
  define a where "a = murmurhash2 e 0x9747b28c"
  define b where "b = murmurhash2 e a"
  let ?f = "probe a b (bl_bits bl)" and ?is = "[0..<nat (bl_hashes bl)]"
  define bf where "bf = fold (\<lambda>i bf. set_at bf (?f i)) ?is (bl_bf bl)"
  from assms have dims: "0 < bl_bits bl" "bl_bits bl < 2 ^ 31" "bl_bits bl \<le> 8 * int (length (bl_bf bl))"
    and ready: "bl_ready bl" by (simp_all add: bl_ok_def)
  from probe_loop_add[OF dims] obtain h where
    h: "probe_loop a b (bl_bits bl) True ?is (bl_bf bl) 0 = Inr (bf, h)" unfolding bf_def by blast
  note bits = bit_of_fold[of ?f "bl_bf bl" ?is, OF probe_inside[OF dims], folded bf_def]
  have probes: "probes (bl\<lparr>bl_bf := bf\<rparr>) d = probes bl d" for d by (simp add: probes_def)
  show thesis
  proof (rule that)
    show "bloom_add bl e = Inr (if h = bl_hashes bl then 1 else 0, bl\<lparr>bl_bf := bf\<rparr>)"
      using ready h by (simp add: bloom_add_def bloom_check_add_def Let_def a_def[symmetric] b_def[symmetric])
    show "bl_ok (bl\<lparr>bl_bf := bf\<rparr>)" using assms bits(2) by (simp add: bl_ok_def)
    show "present (bl\<lparr>bl_bf := bf\<rparr>) e"
      unfolding present_def probes by (auto simp: bits(1) probes_def a_def b_def Let_def)
    show "present (bl\<lparr>bl_bf := bf\<rparr>) d" if "present bl d" for d
      using that unfolding present_def probes by (simp add: bits(1))
  qed auto
qed

section \<open>Two generations\<close>

text \<open>
  The ping-pong scheme over any filter: the state is the current filter, the other one and the number
  of elements in the current one.
\<close>

definition rotate_add ::
    "('f \<Rightarrow> 'f) \<Rightarrow> ('f \<Rightarrow> 'e \<Rightarrow> 'f) \<Rightarrow> nat \<Rightarrow> 'e \<Rightarrow> 'f \<times> 'f \<times> nat \<Rightarrow> 'f \<times> 'f \<times> nat" where
  "rotate_add renew put E e = (\<lambda>(cur, old, k).
     if k + 1 \<ge> E then (renew old, put cur e, 0) else (put cur e, old, k + 1))"

locale generation =
  fixes valid :: "'f \<Rightarrow> bool" and renew :: "'f \<Rightarrow> 'f" and has :: "'f \<Rightarrow> 'e \<Rightarrow> bool" and put :: "'f \<Rightarrow> 'e \<Rightarrow> 'f"
  assumes renew_valid: "valid f \<Longrightarrow> valid (renew f)"
    and put_valid: "valid f \<Longrightarrow> valid (put f e)"
    and put_has: "valid f \<Longrightarrow> has (put f e) e"
    and put_keeps: "valid f \<Longrightarrow> has f d \<Longrightarrow> has (put f e) d"
begin

text \<open>\<open>es\<close> are the elements added so far, the newest first.\<close>

definition covers :: "nat \<Rightarrow> 'e list \<Rightarrow> 'f \<times> 'f \<times> nat \<Rightarrow> bool" where
  "covers E es = (\<lambda>(cur, old, k). valid cur \<and> valid old \<and> k < E
     \<and> (\<forall>e \<in> set (take k es). has cur e) \<and> (\<forall>e \<in> set (take E (drop k es)). has old e))"

lemma covers_start: "valid cur \<Longrightarrow> valid old \<Longrightarrow> 0 < E \<Longrightarrow> covers E [] (cur, old, 0)"
  by (simp add: covers_def)

lemma covers_add:
  assumes "covers E es (cur, old, k)"
  shows "covers E (e # es) (rotate_add renew put E e (cur, old, k))"
  using assms put_has[of cur e] put_keeps[of cur _ e] put_valid[of cur e] renew_valid[of old]
  by (auto simp: covers_def rotate_add_def not_le le_Suc_eq)

lemma covers_recent:
  assumes "covers E es (cur, old, k)" and "e \<in> set (take E es)"
  shows "has cur e \<or> has old e"
proof -
  have "take E es = take (min k E) es @ take (E - k) (drop k es)"
    by (metis min.absorb_iff2 min_def nat_le_linear append_Nil2 diff_is_0_eq' take_0 take_add
        le_add_diff_inverse)
  moreover have "set (take (min k E) es) \<subseteq> set (take k es)" "set (take (E - k) (drop k es)) \<subseteq> set (take E (drop k es))"
    by (simp_all add: set_take_subset_set_take)
  ultimately show ?thesis using assms by (auto simp: covers_def)
qed

end

text \<open>Bloom filters of one shape are such generations.\<close>

definition bl_live :: "'d floats \<Rightarrow> (nat \<Rightarrow> bool) \<Rightarrow> int \<Rightarrow> 'd \<Rightarrow> bloom \<Rightarrow> bool" where
  "bl_live fp al entries error bl \<longleftrightarrow> bl_ok bl \<and> 1 \<le> entries \<and> \<not> fp_zero fp error
     \<and> fp_dims fp entries error = (bl_bits bl, bl_hashes bl) \<and> (\<forall>n. al n)"

definition bl_renew :: "'d floats \<Rightarrow> (nat \<Rightarrow> bool) \<Rightarrow> int \<Rightarrow> 'd \<Rightarrow> bloom \<Rightarrow> bloom" where
  "bl_renew fp al entries error bl = snd (bloom_init fp al (bloom_free bl) entries error)"

definition bl_put :: "bloom \<Rightarrow> byte list \<Rightarrow> bloom" where
  "bl_put bl e = (case bloom_add bl e of Inl _ \<Rightarrow> bl | Inr (_, bl') \<Rightarrow> bl')"

lemma bloom_init_live:
  assumes "1 \<le> entries" "\<not> fp_zero fp error" "\<forall>n. al n" "fp_dims fp entries error = (bits, hashes)"
    "0 < bits" "bits < 2 ^ 31" "0 \<le> hashes"
  shows "fst (bloom_init fp al bl entries error) = 0"
    "bl_live fp al entries error (snd (bloom_init fp al bl entries error))"
  using assms by (auto simp: bloom_init_def Let_def bl_live_def bl_ok_def)

lemma bl_add_shape:
  assumes "bl_ok bl" and "bloom_add bl e = Inr (r, bl')"
  shows "bl_bits bl' = bl_bits bl" "bl_hashes bl' = bl_hashes bl"
  using assms by (auto simp: bloom_add_def bloom_check_add_def bl_ok_def Let_def bindE_Inr_iff)

interpretation pp: generation "bl_live fp al entries error" "bl_renew fp al entries error" present bl_put
  for fp al entries error
proof
  fix bl e d
  assume live: "bl_live fp al entries error bl"
  then have ok: "bl_ok bl" by (simp add: bl_live_def)
  from bloom_add_ok[OF ok, of e] obtain r bl' where
    add: "bloom_add bl e = Inr (r, bl')" "bl_ok bl'" "present bl' e" "\<And>d. present bl d \<Longrightarrow> present bl' d" by metis
  then have put: "bl_put bl e = bl'" by (simp add: bl_put_def)
  show "bl_live fp al entries error (bl_renew fp al entries error bl)"
    unfolding bl_renew_def using live ok by (intro bloom_init_live) (auto simp: bl_live_def bl_ok_def)
  show "bl_live fp al entries error (bl_put bl e)"
    using live add(2) bl_add_shape[OF ok add(1)] by (simp add: put bl_live_def)
  show "present (bl_put bl e) e" using add(3) by (simp add: put)
  show "present (bl_put bl e) d" if "present bl d" using add(4)[OF that] by (simp add: put)
qed

section \<open>The replay window\<close>

abbreviation pp_covers ::
    "'d floats \<Rightarrow> (nat \<Rightarrow> bool) \<Rightarrow> int \<Rightarrow> 'd \<Rightarrow> nat \<Rightarrow> byte list list \<Rightarrow> bloom \<times> bloom \<times> nat \<Rightarrow> bool" where
  "pp_covers fp al entries error \<equiv> generation.covers (bl_live fp al entries error) present"

definition pp_view :: "'d ppbloom \<Rightarrow> bloom \<times> bloom \<times> nat" where
  "pp_view pp = (pp_bloom pp (pp_current pp), pp_bloom pp (\<not> pp_current pp), nat (pp_count pp (pp_current pp)))"

definition pp_inv :: "'d floats \<Rightarrow> (nat \<Rightarrow> bool) \<Rightarrow> byte list list \<Rightarrow> 'd ppbloom \<Rightarrow> bool" where
  "pp_inv fp al es pp \<longleftrightarrow>
     pp_covers fp al (pp_entries pp) (pp_error pp) (nat (pp_entries pp)) es (pp_view pp)
     \<and> 0 \<le> pp_count pp (pp_current pp) \<and> pp_count pp (\<not> pp_current pp) = 0"

text \<open>\<open>ppbloom_add\<close> is a step of the ping-pong scheme.\<close>

lemma ppbloom_add_step:
  assumes "pp_inv fp al es pp"
  obtains pp' where "ppbloom_add fp al pp e = Inr (0, pp')" "pp_inv fp al (e # es) pp'"
    "pp_entries pp' = pp_entries pp"
proof -
  define cur where "cur = pp_current pp"
  define E where "E = pp_entries pp"
  define b where "b = bl_put (pp_bloom pp cur) e"
  define k where "k = pp_count pp cur"
  from assms have cov: "pp_covers fp al E (pp_error pp) (nat E) es (pp_bloom pp cur, pp_bloom pp (\<not> cur), nat k)"
    and k: "0 \<le> k" and other: "pp_count pp (\<not> cur) = 0"
    by (simp_all add: pp_inv_def pp_view_def cur_def E_def k_def)
  then have "bl_ok (pp_bloom pp cur)" and lt: "nat k < nat E" by (auto simp: pp.covers_def bl_live_def)
  from bloom_add_ok[OF this(1), of e] obtain r where
    add: "bloom_add (pp_bloom pp cur) e = Inr (r, b)" "r = 0 \<or> r = 1" unfolding b_def bl_put_def by (metis sum.simps(6) prod.case)
  note step = pp.covers_add[OF cov, of e]
  show thesis
  proof (cases "E \<le> k + 1")
    case True
    define pp' where "pp' = pp\<lparr>pp_bloom := (pp_bloom pp)(cur := b, (\<not> cur) := bl_renew fp al E (pp_error pp) (pp_bloom pp (\<not> cur))),
      pp_count := (pp_count pp)(cur := 0), pp_current := \<not> cur\<rparr>"
    have "ppbloom_add fp al pp e = Inr (0, pp')"
      using add True by (auto simp: ppbloom_add_def Let_def cur_def[symmetric] E_def[symmetric] k_def[symmetric]
          pp'_def bl_renew_def split: prod.splits)
    moreover have "pp_inv fp al (e # es) pp'"
      using step True k other
      by (simp add: pp_inv_def pp_view_def pp'_def rotate_add_def E_def[symmetric] b_def[symmetric] nat_le_iff)
    ultimately show thesis using that by (simp add: pp'_def)
  next
    case False
    define pp' where "pp' = pp\<lparr>pp_bloom := (pp_bloom pp)(cur := b), pp_count := (pp_count pp)(cur := k + 1)\<rparr>"
    have "ppbloom_add fp al pp e = Inr (0, pp')"
      using add False by (auto simp: ppbloom_add_def Let_def cur_def[symmetric] E_def[symmetric] k_def[symmetric] pp'_def)
    moreover have "pp_inv fp al (e # es) pp'"
      using step False k other
      by (simp add: pp_inv_def pp_view_def pp'_def rotate_add_def E_def[symmetric] b_def[symmetric]
          cur_def[symmetric] nat_le_iff nat_add_distrib)
    ultimately show thesis using that by (simp add: pp'_def)
  qed
qed

fun ppbloom_adds ::
    "'d floats \<Rightarrow> (nat \<Rightarrow> bool) \<Rightarrow> 'd ppbloom \<Rightarrow> byte list list \<Rightarrow> 'd ppbloom run" where
  "ppbloom_adds fp al pp [] = Inr pp"
| "ppbloom_adds fp al pp (e # es) =
     bindE (ppbloom_add fp al pp e) (\<lambda>(_, pp). ppbloom_adds fp al pp es)"

lemma ppbloom_adds_inv:
  assumes "pp_inv fp al ds pp"
  shows "\<exists>pp'. ppbloom_adds fp al pp es = Inr pp' \<and> pp_inv fp al (rev es @ ds) pp'
    \<and> pp_entries pp' = pp_entries pp"
  using assms
proof (induction es arbitrary: ds pp)
  case (Cons e es)
  from ppbloom_add_step[OF Cons.prems, of e] obtain pp1 where
    "ppbloom_add fp al pp e = Inr (0, pp1)" "pp_inv fp al (e # ds) pp1" "pp_entries pp1 = pp_entries pp" .
  with Cons.IH[of "e # ds" pp1] show ?case by auto
qed simp

lemma ppbloom_check_recent:
  assumes "pp_inv fp al es pp" and "e \<in> set (take (nat (pp_entries pp)) es)"
  shows "ppbloom_check pp e = Inr 1"
proof -
  define cur where "cur = pp_current pp"
  from assms(1) have cov: "pp_covers fp al (pp_entries pp) (pp_error pp) (nat (pp_entries pp)) es
      (pp_bloom pp cur, pp_bloom pp (\<not> cur), nat (pp_count pp cur))"
    by (simp add: pp_inv_def pp_view_def cur_def)
  from pp.covers_recent[OF this assms(2)] have "present (pp_bloom pp PING) e \<or> present (pp_bloom pp PONG) e"
    by (cases cur) auto
  moreover from cov have "bl_ok (pp_bloom pp PING)" "bl_ok (pp_bloom pp PONG)"
    by (cases cur; simp add: pp.covers_def bl_live_def)+
  ultimately show ?thesis by (auto simp: ppbloom_check_def bloom_check_eq)
qed

lemma ppbloom_init_inv:
  assumes "2 \<le> n" "\<not> fp_zero fp error" "\<forall>k. al k" "fp_dims fp (n div 2) error = (bits, hashes)"
    "0 < bits" "bits < 2 ^ 31" "0 \<le> hashes"
  shows "\<exists>pp'. ppbloom_init fp al pp n error = (0, pp') \<and> pp_inv fp al [] pp' \<and> pp_entries pp' = n div 2"
proof -
  have "1 \<le> n div 2" using assms(1) by linarith
  note live = bloom_init_live[OF this assms(2-7)]
  obtain b0 b1 where "bloom_init fp al (pp_bloom pp PING) (n div 2) error = (0, b0)"
    "bloom_init fp al (pp_bloom pp PONG) (n div 2) error = (0, b1)"
    using live(1)[of "pp_bloom pp PING"] live(1)[of "pp_bloom pp PONG"] by (metis prod.collapse)
  with live(2)[of "pp_bloom pp PING"] live(2)[of "pp_bloom pp PONG"] assms(1) \<open>1 \<le> n div 2\<close> show ?thesis
    by (auto simp: ppbloom_init_def Let_def pp_inv_def pp_view_def intro!: pp.covers_start)
qed

text \<open>
  C31. After \<open>ppbloom_init(n, error)\<close> and any sequence of \<open>ppbloom_add\<close>, \<open>ppbloom_check\<close> reports every one
  of the last \<open>n / 2\<close> elements as present, however often the two filters were exchanged: a replayed
  salt or nonce inside of that window is never accepted.
\<close>

theorem ppbloom_window:
  assumes "2 \<le> n" "\<not> fp_zero fp error" "\<forall>k. al k" "fp_dims fp (n div 2) error = (bits, hashes)"
    "0 < bits" "bits < 2 ^ 31" "0 \<le> hashes"
  shows "\<exists>pp pp'. ppbloom_init fp al pp0 n error = (0, pp) \<and> ppbloom_adds fp al pp es = Inr pp'
    \<and> (\<forall>e \<in> set (drop (length es - nat (n div 2)) es). ppbloom_check pp' e = Inr 1)"
proof -
  from ppbloom_init_inv[OF assms, of pp0] obtain pp where
    pp: "ppbloom_init fp al pp0 n error = (0, pp)" "pp_inv fp al [] pp" "pp_entries pp = n div 2" by auto
  from ppbloom_adds_inv[OF pp(2), of es] pp(3) obtain pp' where
    "ppbloom_adds fp al pp es = Inr pp'" and inv: "pp_inv fp al (rev es) pp'" "pp_entries pp' = n div 2" by auto
  moreover have "set (drop (length es - nat (n div 2)) es) = set (take (nat (n div 2)) (rev es))"
    by (simp add: take_rev)
  ultimately show ?thesis using pp(1) ppbloom_check_recent[OF inv(1)] inv(2) by auto
qed

theorem ppbloom_window_witness:
  "\<exists>pp pp'. ppbloom_init \<lparr>fp_zero = (\<lambda>e. e = (0::nat)), fp_dims = (\<lambda>n _. (8 * n, 3))\<rparr> (\<lambda>_. True)
       \<lparr>pp_bloom = (\<lambda>_. \<lparr>bl_entries = 0, bl_bits = 0, bl_bytes = 0, bl_hashes = 0, bl_bf = [], bl_ready = False\<rparr>),
        pp_count = (\<lambda>_. 0), pp_current = False, pp_entries = 0, pp_error = 0\<rparr> 4 1 = (0, pp)
     \<and> ppbloom_adds \<lparr>fp_zero = (\<lambda>e. e = (0::nat)), fp_dims = (\<lambda>n _. (8 * n, 3))\<rparr> (\<lambda>_. True) pp
         [[1], [2], [3], [4], [5]] = Inr pp'
     \<and> ppbloom_check pp' [4] = Inr 1 \<and> ppbloom_check pp' [5] = Inr 1"
  using ppbloom_window[of 4 "\<lparr>fp_zero = (\<lambda>e. e = (0::nat)), fp_dims = (\<lambda>n _. (8 * n, 3))\<rparr>" 1 "\<lambda>_. True" 16 3
      "\<lparr>pp_bloom = (\<lambda>_. \<lparr>bl_entries = 0, bl_bits = 0, bl_bytes = 0, bl_hashes = 0, bl_bf = [], bl_ready = False\<rparr>),
        pp_count = (\<lambda>_. 0), pp_current = False, pp_entries = 0, pp_error = 0\<rparr>" "[[1], [2], [3], [4], [5]]"]
  by simp

end
