(* ===== verification/SS_Cache.thy ===== *)
theory SS_Cache
  imports C_Prelude
begin

text \<open>
  The cache of \<^verbatim>\<open>shadowsocks-libev/src/cache.c\<close>, which \<open>udprelay.c\<close> uses for its associations and
  \<open>acl.c\<close> for the block list.

  \<^item> The \<open>uthash\<close> table is the list of its entries in application order: \<open>HASH_ADD_KEYPTR\<close> appends,
    \<open>HASH_ITER\<close> walks from the front, \<open>HASH_FIND\<close> finds the entry with the key.  The callers insert a
    key only after a lookup has not found it, so keys are distinct.
  \<^item> \<open>now\<close> is what \<open>ev_time()\<close> returns, \<open>al\<close> whether \<open>malloc\<close> succeeds.
  \<^item> A NULL \<open>cache\<close> or \<open>key\<close> argument is \<open>None\<close>; the data \<open>NULL\<close> too.
  \<^item> The calls of the free callback, or of \<open>free\<close> without a callback, are the last component of a
    result.
\<close>

definition EINVAL :: int where "EINVAL = 22"
definition ENOMEM :: int where "ENOMEM = 12"

record ('v, 't) cache_entry =
  ce_key :: "byte list"
  ce_data :: "'v option"
  ce_ts :: 't

record ('v, 't) cache =
  max_entries :: nat
  entries :: "('v, 't) cache_entry list"
  free_cb :: bool

datatype 'v free_call = FreeCb "byte list" 'v | FreeData 'v

definition hash_find :: "byte list \<Rightarrow> ('v, 't) cache_entry list \<Rightarrow> ('v, 't) cache_entry option" where
  "hash_find k es = find (\<lambda>e. ce_key e = k) es"

fun hash_del :: "byte list \<Rightarrow> ('v, 't) cache_entry list \<Rightarrow> ('v, 't) cache_entry list" where
  "hash_del k [] = []"
| "hash_del k (e # es) = (if ce_key e = k then es else e # hash_del k es)"

definition release :: "bool \<Rightarrow> ('v, 't) cache_entry \<Rightarrow> 'v free_call list" where
  "release cb e =
     (case ce_data e of None \<Rightarrow> [] | Some d \<Rightarrow> if cb then [FreeCb (ce_key e) d] else [FreeData d])"

definition cache_create :: "bool \<Rightarrow> bool \<Rightarrow> nat \<Rightarrow> bool \<Rightarrow> int \<times> ('v, 't) cache option" where
  "cache_create al dst capacity cb =
     (if \<not> dst then (EINVAL, None)
      else if \<not> al then (ENOMEM, None)
      else (0, Some \<lparr>max_entries = capacity, entries = [], free_cb = cb\<rparr>))"

definition cache_delete :: "('v, 't) cache option \<Rightarrow> bool \<Rightarrow> int \<times> 'v free_call list" where
  "cache_delete cache keep_data =
     (case cache of
        None \<Rightarrow> (EINVAL, [])
      | Some c \<Rightarrow> (0, if keep_data then [] else concat (map (release (free_cb c)) (entries c))))"

fun clear_loop ::
    "bool \<Rightarrow> 't::{minus,ord} \<Rightarrow> 't \<Rightarrow> ('v, 't) cache_entry list \<Rightarrow> ('v, 't) cache_entry list \<times> 'v free_call list" where
  "clear_loop cb now age [] = ([], [])"
| "clear_loop cb now age (e # es) =
     (case clear_loop cb now age es of
        (kept, freed) \<Rightarrow>
          if now - ce_ts e > age then (kept, release cb e @ freed) else (e # kept, freed))"

definition cache_clear ::
    "('v, 't::{minus,ord}) cache option \<Rightarrow> 't \<Rightarrow> 't \<Rightarrow> int \<times> ('v, 't) cache option \<times> 'v free_call list" where
  "cache_clear cache now age =
     (case cache of
        None \<Rightarrow> (EINVAL, None, [])
      | Some c \<Rightarrow>
          (case clear_loop (free_cb c) now age (entries c) of
             (es, freed) \<Rightarrow> (0, Some (c\<lparr>entries := es\<rparr>), freed)))"

definition cache_remove ::
    "('v, 't) cache option \<Rightarrow> byte list option \<Rightarrow> int \<times> ('v, 't) cache option \<times> 'v free_call list" where
  "cache_remove cache key =
     (case (cache, key) of
        (Some c, Some k) \<Rightarrow>
          (case hash_find k (entries c) of
             None \<Rightarrow> (0, Some c, [])
           | Some e \<Rightarrow> (0, Some (c\<lparr>entries := hash_del k (entries c)\<rparr>), release (free_cb c) e))
      | _ \<Rightarrow> (EINVAL, cache, []))"

text \<open>Taking an entry out and appending it again with a new time, which both lookups do.\<close>

definition touch :: "'t \<Rightarrow> ('v, 't) cache_entry \<Rightarrow> ('v, 't) cache_entry list \<Rightarrow> ('v, 't) cache_entry list" where
  "touch now e es = hash_del (ce_key e) es @ [e\<lparr>ce_ts := now\<rparr>]"

definition cache_lookup ::
    "('v, 't) cache option \<Rightarrow> 't \<Rightarrow> byte list option \<Rightarrow> bool \<Rightarrow> int \<times> ('v, 't) cache option \<times> 'v option" where
  "cache_lookup cache now key result =
     (case (cache, key, result) of
        (Some c, Some k, True) \<Rightarrow>
          (case hash_find k (entries c) of
             None \<Rightarrow> (0, Some c, None)
           | Some e \<Rightarrow> (0, Some (c\<lparr>entries := touch now e (entries c)\<rparr>), ce_data e))
      | _ \<Rightarrow> (EINVAL, cache, None))"

definition cache_key_exist ::
    "('v, 't) cache option \<Rightarrow> 't \<Rightarrow> byte list option \<Rightarrow> int \<times> ('v, 't) cache option" where
  "cache_key_exist cache now key =
     (case (cache, key) of
        (Some c, Some k) \<Rightarrow>
          (case hash_find k (entries c) of
             None \<Rightarrow> (0, Some c)
           | Some e \<Rightarrow> (1, Some (c\<lparr>entries := touch now e (entries c)\<rparr>)))
      | _ \<Rightarrow> (0, cache))"

definition cache_insert ::
    "bool \<Rightarrow> ('v, 't) cache option \<Rightarrow> 't \<Rightarrow> byte list \<Rightarrow> 'v option
      \<Rightarrow> int \<times> ('v, 't) cache option \<times> 'v free_call list" where
  "cache_insert al cache now key data =
     (case cache of
        None \<Rightarrow> (EINVAL, None, [])
      | Some c \<Rightarrow>
          if \<not> al then (ENOMEM, Some c, [])
          else
            let es = entries c @ [\<lparr>ce_key = key, ce_data = data, ce_ts = now\<rparr>]
            in if length es \<ge> max_entries c
               then (0, Some (c\<lparr>entries := tl es\<rparr>), release (free_cb c) (hd es))
               else (0, Some (c\<lparr>entries := es\<rparr>), []))"

section \<open>Sequences of operations\<close>

datatype ('v, 't) cache_op =
    Lookup 't "byte list"
  | Exist 't "byte list"
  | Insert 't "byte list" "'v option"
  | Remove "byte list"
  | Clear 't 't

fun cache_step :: "('v, 't::{minus,ord}) cache_op \<Rightarrow> ('v, 't) cache \<Rightarrow> ('v, 't) cache option" where
  "cache_step (Lookup now k) c = fst (snd (cache_lookup (Some c) now (Some k) True))"
| "cache_step (Exist now k) c = snd (cache_key_exist (Some c) now (Some k))"
| "cache_step (Insert now k v) c =
     (if hash_find k (entries c) = None then fst (snd (cache_insert True (Some c) now k v)) else None)"
| "cache_step (Remove k) c = fst (snd (cache_remove (Some c) (Some k)))"
| "cache_step (Clear now age) c = fst (snd (cache_clear (Some c) now age))"

fun cache_steps :: "('v, 't::{minus,ord}) cache_op list \<Rightarrow> ('v, 't) cache \<Rightarrow> ('v, 't) cache option" where
  "cache_steps [] c = Some c"
| "cache_steps (x # xs) c = Option.bind (cache_step x c) (cache_steps xs)"

definition keys :: "('v, 't) cache \<Rightarrow> byte list list" where
  "keys c = map ce_key (entries c)"

definition cache_inv :: "nat \<Rightarrow> ('v, 't) cache \<Rightarrow> bool" where
  "cache_inv n c \<longleftrightarrow> max_entries c = n \<and> distinct (keys c) \<and> length (entries c) < n"

lemma hash_find_None: "hash_find k es = None \<longleftrightarrow> k \<notin> set (map ce_key es)"
  by (auto simp: hash_find_def find_None_iff)

lemma hash_find_Some: "hash_find k es = Some e \<Longrightarrow> e \<in> set es \<and> ce_key e = k"
  by (auto simp: hash_find_def find_Some_iff)

lemma keys_hash_del: "map ce_key (hash_del k es) = remove1 k (map ce_key es)"
  by (induction es) auto

lemma length_hash_del: "k \<in> set (map ce_key es) \<Longrightarrow> length (hash_del k es) = length es - 1"
  using arg_cong[OF keys_hash_del[of k es], of length] by (simp add: length_remove1)

lemma keys_touch:
  "hash_find k es = Some e \<Longrightarrow> map ce_key (touch now e es) = remove1 k (map ce_key es) @ [k]"
  by (auto simp: touch_def keys_hash_del dest: hash_find_Some)

lemma length_touch: "hash_find k es = Some e \<Longrightarrow> length (touch now e es) = length es"
  using arg_cong[OF keys_touch[of k es e now], of length] hash_find_None[of k es]
  by (auto simp: length_remove1 dest: length_pos_if_in_set)

lemma hash_del_less: "length es < n \<Longrightarrow> length (hash_del k es) < n"
  using arg_cong[OF keys_hash_del[of k es], of length] by (auto simp: length_remove1 split: if_splits)

lemma clear_loop_filter: "fst (clear_loop cb now age es) = filter (\<lambda>e. \<not> now - ce_ts e > age) es"
  by (induction es) (auto split: prod.splits)

lemma distinct_keys_filter: "distinct (map f es) \<Longrightarrow> distinct (map f (filter P es))"
  by (induction es) auto

lemma cache_step_inv:
  assumes "cache_inv n c" and "cache_step x c = Some c'"
  shows "cache_inv n c'"
proof (cases x)
  case (Insert now k v)
  with assms have k: "k \<notin> set (keys c)" and c': "fst (snd (cache_insert True (Some c) now k v)) = Some c'"
    by (auto simp: hash_find_None keys_def split: if_splits)
  let ?es = "entries c @ [\<lparr>ce_key = k, ce_data = v, ce_ts = now\<rparr>]"
  have "distinct (map ce_key ?es)" using assms(1) k by (auto simp: cache_inv_def keys_def)
  then have "distinct (map ce_key (tl ?es))" by (simp add: map_tl distinct_tl del: tl_append2)
  with \<open>distinct (map ce_key ?es)\<close> c' assms(1) show ?thesis
    by (auto simp: cache_insert_def cache_inv_def keys_def Let_def split: if_splits)
next
  case (Clear now age)
  with assms show ?thesis
    using clear_loop_filter[of "free_cb c" now age "entries c"]
    by (auto simp: cache_clear_def cache_inv_def keys_def distinct_keys_filter split: prod.splits
        intro: le_less_trans[OF length_filter_le])
qed (use assms in \<open>auto simp: cache_inv_def keys_def cache_lookup_def cache_key_exist_def cache_remove_def keys_touch
    length_touch hash_del_less keys_hash_del distinct_remove1 split: option.splits\<close>)

lemma cache_steps_inv:
  "cache_inv n c \<Longrightarrow> cache_steps xs c = Some c' \<Longrightarrow> cache_inv n c'"
  by (induction xs arbitrary: c) (auto dest: cache_step_inv split: bind_splits)

text \<open>
  Whatever operations follow \<open>cache_create\<close> (inserting only keys that are absent), the keys of the
  table are distinct and it holds fewer entries than the capacity: an insertion that reaches the
  capacity evicts an entry at once.
\<close>

theorem cache_bounded:
  assumes "cache_create True True n cb = (0, Some c)" and "0 < n" and "cache_steps xs c = Some c'"
  shows "distinct (keys c') \<and> length (entries c') < n \<and> max_entries c' = n"
proof -
  have "cache_inv n c" using assms(1,2) by (auto simp: cache_create_def cache_inv_def keys_def)
  from cache_steps_inv[OF this assms(3)] show ?thesis by (simp add: cache_inv_def)
qed

definition small_cache :: "(nat, nat) cache" where
  "small_cache = \<lparr>max_entries = 3, entries = [], free_cb = True\<rparr>"

theorem cache_bounded_witness:
  "\<exists>c'. cache_steps [Insert 0 [1] (Some 10), Insert 1 [2] (Some 20), Insert 2 [3] (Some 30), Lookup 3 [2]]
       small_cache = Some c' \<and> distinct (keys c') \<and> length (entries c') < 3"
proof -
  have "cache_create True True 3 True = (0, Some small_cache)"
    by (simp add: cache_create_def small_cache_def)
  note cache_bounded[OF this]
  moreover obtain c' where steps: "cache_steps [Insert 0 [1] (Some 10), Insert 1 [2] (Some 20), Insert 2 [3] (Some 30), Lookup 3 [2]]
       small_cache = Some c'"
    by (simp add: small_cache_def hash_find_def cache_insert_def cache_lookup_def Let_def)
  ultimately show ?thesis by (metis zero_less_numeral)
qed

section \<open>Least recently used\<close>

lemma hash_del_append:
  "hash_del k (a @ b) = (if k \<in> set (map ce_key a) then hash_del k a @ b else a @ hash_del k b)"
  by (induction a) auto

lemma keys_hash_del_subset: "set (map ce_key (hash_del k es)) \<subseteq> set (map ce_key es)"
  by (simp only: keys_hash_del set_remove1_subset)

text \<open>\<open>recent K k v c\<close>: the entry of \<open>k\<close> holds \<open>v\<close>, and only keys of \<open>K\<close> come after it.\<close>

definition recent :: "byte list set \<Rightarrow> byte list \<Rightarrow> 'v option \<Rightarrow> ('v, 't) cache \<Rightarrow> bool" where
  "recent K k v c \<longleftrightarrow> (\<exists>pre e post. entries c = pre @ e # post \<and> ce_key e = k \<and> ce_data e = v
     \<and> ce_key ` set post \<subseteq> K)"

lemma recentI:
  "entries c = pre @ e # post \<Longrightarrow> ce_key e = k \<Longrightarrow> ce_data e = v \<Longrightarrow> ce_key ` set post \<subseteq> K \<Longrightarrow> recent K k v c"
  by (auto simp: recent_def)

text \<open>The operations that use the cache, on keys of a set.\<close>

fun uses :: "byte list set \<Rightarrow> ('v, 't) cache_op \<Rightarrow> bool" where
  "uses K (Lookup now k) = (k \<in> K)"
| "uses K (Exist now k) = (k \<in> K)"
| "uses K (Insert now k v) = (k \<in> K)"
| "uses K _ = False"

lemma recent_touch:
  assumes "recent K k v c" and "distinct (keys c)" and "hash_find j (entries c) = Some e" and "j \<in> insert k K"
  shows "recent K k v (c\<lparr>entries := touch now e (entries c)\<rparr>)"
proof -
  from assms(1) obtain pre x post where c: "entries c = pre @ x # post" "ce_key x = k" "ce_data x = v"
    "ce_key ` set post \<subseteq> K" by (auto simp: recent_def)
  from assms(3) have e: "e \<in> set (entries c)" "ce_key e = j" by (auto dest: hash_find_Some)
  show ?thesis
  proof (cases "j = k")
    case True
    with e c assms(2) have "e = x" by (auto simp: keys_def)
    with c e True show ?thesis
      by (intro recentI[of _ "hash_del k (entries c)" "x\<lparr>ce_ts := now\<rparr>" "[]"]) (simp_all add: touch_def)
  next
    case False
    define post' where "post' = (if j \<in> set (map ce_key pre) then post else hash_del j post)"
    have "entries (c\<lparr>entries := touch now e (entries c)\<rparr>)
      = (if j \<in> set (map ce_key pre) then hash_del j pre else pre) @ x # post' @ [e\<lparr>ce_ts := now\<rparr>]"
      using False c(2) by (simp add: touch_def e(2) c(1) hash_del_append post'_def)
    moreover have "ce_key ` set post' \<subseteq> K"
      using subset_trans[OF keys_hash_del_subset[of j post]] c(4) by (simp add: post'_def)
    ultimately show ?thesis
      using c False e(2) assms(4) unfolding recent_def by fastforce
  qed
qed

lemma recent_insert:
  assumes "recent K k v c" and "cache_inv n c" and "finite K" and "card K + 1 < n"
    and "hash_find j (entries c) = None" and "j \<in> insert k K"
  shows "\<exists>c'. fst (snd (cache_insert True (Some c) now j w)) = Some c' \<and> recent K k v c'"
proof -
  from assms(1) obtain pre x post where c: "entries c = pre @ x # post" "ce_key x = k" "ce_data x = v"
    "ce_key ` set post \<subseteq> K" by (auto simp: recent_def)
  define e where "e = \<lparr>ce_key = j, ce_data = w, ce_ts = now\<rparr>"
  from assms(5) have j: "j \<notin> set (map ce_key (entries c))" by (simp add: hash_find_None)
  with c assms(6) have jK: "j \<in> K" by auto
  have "distinct (map ce_key (post @ [e]))" "set (map ce_key (post @ [e])) \<subseteq> K"
    using assms(2) j jK c by (auto simp: cache_inv_def keys_def e_def)
  then have "length (post @ [e]) \<le> card K"
    by (metis assms(3) card_mono distinct_card length_map)
  then have full: "length (entries c @ [e]) \<ge> n \<Longrightarrow> pre \<noteq> []"
    using assms(2,4) c(1) by (auto simp: cache_inv_def)
  have n: "max_entries c = n" using assms(2) by (simp add: cache_inv_def)
  have after: "ce_key ` set (post @ [e]) \<subseteq> K" using c(4) jK by (auto simp: e_def)
  show ?thesis
  proof (cases "length (entries c @ [e]) \<ge> n")
    case True
    with full obtain p pre' where "pre = p # pre'" by (cases pre) auto
    then have "tl (entries c @ [e]) = pre' @ x # (post @ [e])" by (simp add: c(1))
    moreover have "recent K k v (c\<lparr>entries := pre' @ x # (post @ [e])\<rparr>)"
      using c(2,3) after by (intro recentI[of _ pre' x "post @ [e]"]) simp_all
    ultimately show ?thesis using True n by (simp add: cache_insert_def Let_def e_def)
  next
    case False
    moreover have "recent K k v (c\<lparr>entries := entries c @ [e]\<rparr>)"
      using c after by (intro recentI[of _ pre x "post @ [e]"]) simp_all
    ultimately show ?thesis using n by (simp add: cache_insert_def Let_def e_def)
  qed
qed

lemma recent_step:
  assumes "recent K k v c" and "cache_inv n c" and "finite K" and "card K + 1 < n"
    and "uses (insert k K) x" and "cache_step x c = Some c'"
  shows "recent K k v c'"
proof (cases x)
  case (Insert now j w)
  with assms recent_insert[OF assms(1-4), of j now w] show ?thesis by (auto split: if_splits)
qed (use assms recent_touch[OF assms(1)] in \<open>auto simp: cache_lookup_def cache_key_exist_def cache_inv_def
    split: option.splits\<close>)

lemma recent_steps:
  assumes "recent K k v c" and "cache_inv n c" and "finite K" and "card K + 1 < n"
    and "\<forall>x \<in> set xs. uses (insert k K) x" and "cache_steps xs c = Some c'"
  shows "recent K k v c' \<and> cache_inv n c'"
  using assms
proof (induction xs arbitrary: c)
  case (Cons x xs)
  from Cons.prems(6) obtain c1 where "cache_step x c = Some c1" "cache_steps xs c1 = Some c'"
    by (auto split: bind_splits)
  with Cons.IH[of c1] Cons.prems recent_step[OF Cons.prems(1-4), of x c1] cache_step_inv[of n c x c1]
  show ?case by simp
qed simp

lemma recent_found:
  assumes "recent K k v c" and "distinct (keys c)"
  shows "\<exists>c'. cache_lookup (Some c) now (Some k) True = (0, c', v)"
proof -
  from assms(1) obtain pre x post where c: "entries c = pre @ x # post" "ce_key x = k" "ce_data x = v"
    by (auto simp: recent_def)
  have "find (\<lambda>e. ce_key e = k) (pre @ x # post) = Some x" if "k \<notin> ce_key ` set pre"
    using that c(2) by (induction pre) auto
  moreover have "k \<notin> ce_key ` set pre" using assms(2) c by (auto simp: keys_def)
  ultimately have "hash_find k (entries c) = Some x" by (simp add: hash_find_def c(1))
  with c(3) show ?thesis by (simp add: cache_lookup_def)
qed



end
