(* ===== verification/BPending.thy ===== *)
theory BPending
  imports C_Prelude
begin

text \<open>
  \<^verbatim>\<open>tun2socks-iOS/base/BPending.c\<close>: the job list the event loop runs on, and the intrusive list
  it is built from (\<^verbatim>\<open>structure/SLinkedList_impl.h\<close>, instantiated by \<^verbatim>\<open>BPending_list.h\<close> without
  the \<open>last\<close> pointer).

  Objects are addresses; \<open>slist\<close> is the head of the list with the \<open>prev\<close> and \<open>next\<close>
  fields of all nodes, \<open>None\<close> being the null pointer.  An object that is not pending has a
  \<open>next\<close> field pointing to itself.  A failed \<open>ASSERT\<close> is the fault \<open>AssertFailed\<close>, so a
  result \<open>Inr\<close> says that the assertions hold.  The debugging counter and \<open>DebugObject\<close> have no
  effect on the list and are left out.
\<close>

section \<open>The intrusive list\<close>

type_synonym addr = nat
type_synonym ptr = "addr option"

record slist =
  first :: ptr
  node_prev :: "addr \<Rightarrow> ptr"
  node_next :: "addr \<Rightarrow> ptr"

definition SLinkedListMarkRemoved :: "addr \<Rightarrow> slist \<Rightarrow> slist" where
  "SLinkedListMarkRemoved entry l = l\<lparr>node_next := (node_next l)(entry := Some entry)\<rparr>"

definition SLinkedListIsRemoved :: "addr \<Rightarrow> slist \<Rightarrow> bool" where
  "SLinkedListIsRemoved entry l \<longleftrightarrow> node_next l entry = Some entry"

definition SLinkedList_Init :: "slist \<Rightarrow> slist" where
  "SLinkedList_Init l = l\<lparr>first := None\<rparr>"

definition SLinkedList_Prepend :: "addr \<Rightarrow> slist \<Rightarrow> slist" where
  "SLinkedList_Prepend entry l =
     (let l = l\<lparr>node_next := (node_next l)(entry := first l)\<rparr>;
          l = (case first l of
                 Some f \<Rightarrow> l\<lparr>node_prev := (node_prev l)(f := Some entry)\<rparr>
               | None \<Rightarrow> l)
      in l\<lparr>first := Some entry\<rparr>)"

text \<open>A null \<open>prev\<close> pointer of an entry that is not the first would be dereferenced.\<close>

definition SLinkedList_Remove :: "addr \<Rightarrow> slist \<Rightarrow> slist run" where
  "SLinkedList_Remove entry l =
     (if first l \<noteq> Some entry
      then (case node_prev l entry of
              None \<Rightarrow> Inl OutOfBounds
            | Some p \<Rightarrow>
                (let l = l\<lparr>node_next := (node_next l)(p := node_next l entry)\<rparr>
                 in Inr (case node_next l entry of
                           Some n \<Rightarrow> l\<lparr>node_prev := (node_prev l)(n := node_prev l entry)\<rparr>
                         | None \<Rightarrow> l)))
      else Inr (l\<lparr>first := node_next l entry\<rparr>))"

definition SLinkedList_RemoveFirst :: "slist \<Rightarrow> slist run" where
  "SLinkedList_RemoveFirst l =
     (case first l of None \<Rightarrow> Inl AssertFailed | Some f \<Rightarrow> Inr (l\<lparr>first := node_next l f\<rparr>))"

definition SLinkedList_First :: "slist \<Rightarrow> ptr" where
  "SLinkedList_First l = first l"

definition SLinkedList_IsEmpty :: "slist \<Rightarrow> bool" where
  "SLinkedList_IsEmpty l \<longleftrightarrow> first l = None"

section \<open>Jobs\<close>

record ('h, 'u) job =
  handler :: 'h
  user :: 'u
  pending :: bool

record ('h, 'u) BPendingGroup =
  jobs :: slist
  objs :: "addr \<Rightarrow> ('h, 'u) job"

definition BPendingGroup_Init :: "('h, 'u) BPendingGroup \<Rightarrow> ('h, 'u) BPendingGroup" where
  "BPendingGroup_Init g = g\<lparr>jobs := SLinkedList_Init (jobs g)\<rparr>"

definition BPendingGroup_Free :: "('h, 'u) BPendingGroup \<Rightarrow> unit run" where
  "BPendingGroup_Free g = guardE (SLinkedList_IsEmpty (jobs g)) AssertFailed"

definition BPendingGroup_HasJobs :: "('h, 'u) BPendingGroup \<Rightarrow> bool" where
  "BPendingGroup_HasJobs g \<longleftrightarrow> \<not> SLinkedList_IsEmpty (jobs g)"

text \<open>
  The result is the group with the job taken off and the handler that is then called with
  \<open>user\<close>.
\<close>

definition BPendingGroup_ExecuteJob ::
    "('h, 'u) BPendingGroup \<Rightarrow> (('h, 'u) BPendingGroup \<times> 'h \<times> 'u) run" where
  "BPendingGroup_ExecuteJob g =
     (case SLinkedList_First (jobs g) of
        None \<Rightarrow> Inl AssertFailed
      | Some p \<Rightarrow>
          bindE (guardE (\<not> SLinkedListIsRemoved p (jobs g)) AssertFailed) (\<lambda>_.
          bindE (guardE (pending (objs g p)) AssertFailed) (\<lambda>_.
          bindE (SLinkedList_RemoveFirst (jobs g)) (\<lambda>l.
            Inr (g\<lparr>jobs := SLinkedListMarkRemoved p l, objs := (objs g)(p := (objs g p)\<lparr>pending := False\<rparr>)\<rparr>,
                 handler (objs g p), user (objs g p))))))"

definition BPendingGroup_PeekJob :: "('h, 'u) BPendingGroup \<Rightarrow> ptr" where
  "BPendingGroup_PeekJob g = SLinkedList_First (jobs g)"

definition BSmallPending_Init ::
    "addr \<Rightarrow> 'h \<Rightarrow> 'u \<Rightarrow> ('h, 'u) BPendingGroup \<Rightarrow> ('h, 'u) BPendingGroup" where
  "BSmallPending_Init p h u g =
     g\<lparr>jobs := SLinkedListMarkRemoved p (jobs g),
       objs := (objs g)(p := \<lparr>handler = h, user = u, pending = False\<rparr>)\<rparr>"

definition assert_pending :: "addr \<Rightarrow> ('h, 'u) BPendingGroup \<Rightarrow> unit run" where
  "assert_pending p g =
     guardE (pending (objs g p) = (\<not> SLinkedListIsRemoved p (jobs g))) AssertFailed"

definition BSmallPending_Free :: "addr \<Rightarrow> ('h, 'u) BPendingGroup \<Rightarrow> ('h, 'u) BPendingGroup run" where
  "BSmallPending_Free p g =
     bindE (assert_pending p g) (\<lambda>_.
       if \<not> SLinkedListIsRemoved p (jobs g)
       then bindE (SLinkedList_Remove p (jobs g)) (\<lambda>l. Inr (g\<lparr>jobs := l\<rparr>))
       else Inr g)"

definition BSmallPending_SetHandler ::
    "addr \<Rightarrow> 'h \<Rightarrow> 'u \<Rightarrow> ('h, 'u) BPendingGroup \<Rightarrow> ('h, 'u) BPendingGroup" where
  "BSmallPending_SetHandler p h u g = g\<lparr>objs := (objs g)(p := (objs g p)\<lparr>handler := h, user := u\<rparr>)\<rparr>"

definition BSmallPending_Set :: "addr \<Rightarrow> ('h, 'u) BPendingGroup \<Rightarrow> ('h, 'u) BPendingGroup run" where
  "BSmallPending_Set p g =
     bindE (assert_pending p g) (\<lambda>_.
     bindE (if \<not> SLinkedListIsRemoved p (jobs g) then SLinkedList_Remove p (jobs g)
            else Inr (jobs g)) (\<lambda>l.
       Inr (g\<lparr>jobs := SLinkedList_Prepend p l,
              objs := (objs g)(p := (objs g p)\<lparr>pending := True\<rparr>)\<rparr>)))"

definition BSmallPending_Unset :: "addr \<Rightarrow> ('h, 'u) BPendingGroup \<Rightarrow> ('h, 'u) BPendingGroup run" where
  "BSmallPending_Unset p g =
     bindE (assert_pending p g) (\<lambda>_.
       if \<not> SLinkedListIsRemoved p (jobs g)
       then bindE (SLinkedList_Remove p (jobs g)) (\<lambda>l.
              Inr (g\<lparr>jobs := SLinkedListMarkRemoved p l,
                     objs := (objs g)(p := (objs g p)\<lparr>pending := False\<rparr>)\<rparr>))
       else Inr g)"

definition BSmallPending_IsSet :: "addr \<Rightarrow> ('h, 'u) BPendingGroup \<Rightarrow> bool run" where
  "BSmallPending_IsSet p g =
     bindE (assert_pending p g) (\<lambda>_. Inr (\<not> SLinkedListIsRemoved p (jobs g)))"

section \<open>The list abstraction\<close>

text \<open>\<open>seg l xs\<close>: the nodes of \<open>xs\<close> are linked in this order, the last one to null.\<close>

fun seg :: "slist \<Rightarrow> addr list \<Rightarrow> bool" where
  "seg l [] = True"
| "seg l [x] = (node_next l x = None)"
| "seg l (x # y # ys) = (node_next l x = Some y \<and> node_prev l y = Some x \<and> seg l (y # ys))"

definition sl_rep :: "slist \<Rightarrow> addr list \<Rightarrow> bool" where
  "sl_rep l xs \<longleftrightarrow> distinct xs \<and> seg l xs \<and> first l = (case xs of [] \<Rightarrow> None | x # _ \<Rightarrow> Some x)"

lemma seg_cong:
  assumes "\<And>x. x \<in> set xs \<Longrightarrow> node_next l' x = node_next l x"
    and "\<And>x. x \<in> set (tl xs) \<Longrightarrow> node_prev l' x = node_prev l x"
  shows "seg l' xs = seg l xs"
  using assms by (induction l xs rule: seg.induct) auto

lemma seg_Cons: "seg l (x # xs) \<longleftrightarrow>
   (case xs of [] \<Rightarrow> node_next l x = None | y # _ \<Rightarrow> node_next l x = Some y \<and> node_prev l y = Some x) \<and> seg l xs"
  by (cases xs) auto

lemma seg_next_not_self: "seg l xs \<Longrightarrow> distinct xs \<Longrightarrow> x \<in> set xs \<Longrightarrow> node_next l x \<noteq> Some x"
  by (induction l xs rule: seg.induct) auto

lemma sl_rep_Cons: "sl_rep l (x # xs) \<Longrightarrow> first l = Some x \<and> x \<notin> set xs \<and> seg l xs \<and> distinct xs \<and>
    node_next l x = (case xs of [] \<Rightarrow> None | y # _ \<Rightarrow> Some y)"
  by (cases xs) (simp_all add: sl_rep_def)

lemma sl_rep_prepend: "sl_rep l xs \<Longrightarrow> x \<notin> set xs \<Longrightarrow> sl_rep (SLinkedList_Prepend x l) (x # xs)"
proof -
  assume r: "sl_rep l xs" and x: "x \<notin> set xs"
  let ?l = "SLinkedList_Prepend x l"
  have "seg ?l xs = seg l xs"
    using r x by (cases xs; intro seg_cong) (auto simp: sl_rep_def SLinkedList_Prepend_def Let_def)
  then show ?thesis
    using r x by (cases xs) (simp_all add: sl_rep_def SLinkedList_Prepend_def Let_def)
qed

lemma seg_suffix: "seg l (as @ bs) \<Longrightarrow> seg l bs"
  by (induction as) (auto simp: seg_Cons)

lemma seg_remove:
  assumes "distinct (as @ a # e # bs)" and "seg l (as @ a # e # bs)"
    and "node_next l' = (node_next l)(a := node_next l e)"
    and "node_prev l' = (case node_next l e of Some n \<Rightarrow> (node_prev l)(n := Some a) | None \<Rightarrow> node_prev l)"
  shows "seg l' (as @ a # bs)"
  using assms
proof (induction as)
  case Nil
  then show ?case
  proof (cases bs)
    case (Cons b cs)
    then have "seg l' (b # cs) = seg l (b # cs)" using Nil by (intro seg_cong) auto
    with Nil Cons show ?thesis by auto
  qed auto
next
  case (Cons x as)
  have IH: "seg l' (as @ a # bs)" using Cons by (simp add: seg_Cons)
  obtain y ys where y: "as @ a # e # bs = y # ys" by (cases as) auto
  have y': "\<exists>zs. as @ a # bs = y # zs" using y by (cases as) auto
  have "x \<noteq> a" using Cons.prems(1) by simp
  moreover have "node_next l x = Some y" "node_prev l y = Some x" using Cons.prems(2) y by auto
  ultimately have n: "node_next l x = Some y" "node_prev l y = Some x" "x \<noteq> a" by auto
  have "node_next l e = Some b \<Longrightarrow> b \<noteq> y" for b
  proof -
    assume "node_next l e = Some b"
    moreover have "seg l (e # bs)" using Cons.prems(2) seg_suffix[of l "x # as @ [a]" "e # bs"] by simp
    ultimately have "b \<in> set bs" by (cases bs) auto
    then show "b \<noteq> y" using Cons.prems(1) y by (cases as) auto
  qed
  then have "node_next l' x = Some y" "node_prev l' y = Some x"
    using n Cons.prems(3,4) by (auto split: option.splits)
  with IH y' show ?case by (auto simp: seg_Cons)
qed


lemma sl_rep_remove:
  assumes "sl_rep l xs" and "x \<in> set xs"
  shows "\<exists>l'. SLinkedList_Remove x l = Inr l' \<and> sl_rep l' (remove1 x xs) \<and>
    (\<forall>y. y \<notin> set xs \<longrightarrow> node_next l' y = node_next l y)"
proof (cases "first l = Some x")
  case True
  then obtain ys where "xs = x # ys" using assms by (cases xs) (auto simp: sl_rep_def)
  with assms True show ?thesis
    by (cases ys) (auto simp: SLinkedList_Remove_def sl_rep_def intro: seg_cong[THEN iffD2])
next
  case False
  obtain as a bs where xs: "xs = as @ a # x # bs"
  proof -
    obtain us vs where u: "xs = us @ x # vs" using assms(2) by (auto simp: in_set_conv_decomp)
    with False assms(1) have "us \<noteq> []" by (auto simp: sl_rep_def)
    then have "xs = butlast us @ last us # x # vs" using u by simp
    then show thesis using that by blast
  qed
  have d: "distinct (as @ a # x # bs)" and s: "seg l (as @ a # x # bs)" using assms(1) xs by (auto simp: sl_rep_def)
  have prev: "node_prev l x = Some a" and ax: "a \<noteq> x" and nx: "node_next l x = (case bs of [] \<Rightarrow> None | b # _ \<Rightarrow> Some b)"
    using seg_suffix[of l as "a # x # bs"] s d by (auto simp: seg_Cons split: list.splits)
  define l' where "l' = (case node_next l x of
       Some n \<Rightarrow> l\<lparr>node_next := (node_next l)(a := node_next l x), node_prev := (node_prev l)(n := Some a)\<rparr>
     | None \<Rightarrow> l\<lparr>node_next := (node_next l)(a := node_next l x)\<rparr>)"
  have "SLinkedList_Remove x l = Inr l'"
    using False prev ax by (auto simp: SLinkedList_Remove_def l'_def Let_def split: option.splits)
  moreover have "seg l' (as @ a # bs)"
    by (rule seg_remove[OF d s]) (auto simp: l'_def split: option.splits)
  moreover have "first l' = first l" by (simp add: l'_def split: option.splits)
  moreover have "remove1 x xs = as @ a # bs" using d xs by (simp add: remove1_append)
  moreover have "node_next l' y = node_next l y" if "y \<notin> set xs" for y
    using that xs by (auto simp: l'_def split: option.splits)
  moreover have "first l = (case as @ a # bs of [] \<Rightarrow> None | z # _ \<Rightarrow> Some z)"
    using assms(1) xs by (cases as) (simp_all add: sl_rep_def)
  ultimately show ?thesis using d by (auto simp: sl_rep_def)
qed

section \<open>The interface of the list\<close>

text \<open>
  What a job list needs of an intrusive list.  \<open>marked\<close> is the test for an object outside every
  list; the operations leave the marks of other objects alone.
\<close>

locale intrusive_list =
  fixes rep :: "'l \<Rightarrow> 'a list \<Rightarrow> bool"
    and prepend :: "'a \<Rightarrow> 'l \<Rightarrow> 'l" and remove :: "'a \<Rightarrow> 'l \<Rightarrow> 'l run" and pop :: "'l \<Rightarrow> 'l run"
    and head :: "'l \<Rightarrow> 'a option" and mark :: "'a \<Rightarrow> 'l \<Rightarrow> 'l" and marked :: "'a \<Rightarrow> 'l \<Rightarrow> bool"
  assumes rep_distinct: "rep l xs \<Longrightarrow> distinct xs"
    and prepend_rep: "rep l xs \<Longrightarrow> x \<notin> set xs \<Longrightarrow> rep (prepend x l) (x # xs)"
    and prepend_marked: "y \<noteq> x \<Longrightarrow> marked y (prepend x l) = marked y l"
    and remove_rep: "rep l xs \<Longrightarrow> x \<in> set xs \<Longrightarrow>
      \<exists>l'. remove x l = Inr l' \<and> rep l' (remove1 x xs) \<and> (\<forall>y. y \<notin> set xs \<longrightarrow> marked y l' = marked y l)"
    and pop_rep: "rep l (x # xs) \<Longrightarrow> \<exists>l'. pop l = Inr l' \<and> rep l' xs \<and> (\<forall>y. marked y l' = marked y l)"
    and head_rep: "rep l xs \<Longrightarrow> head l = (case xs of [] \<Rightarrow> None | x # _ \<Rightarrow> Some x)"
    and mark_rep: "rep l xs \<Longrightarrow> x \<notin> set xs \<Longrightarrow> rep (mark x l) xs"
    and mark_marked: "marked y (mark x l) = (y = x \<or> marked y l)"
    and member_unmarked: "rep l xs \<Longrightarrow> x \<in> set xs \<Longrightarrow> \<not> marked x l"
begin

text \<open>The objects \<open>A\<close> in use are marked exactly when they are not in the list.\<close>

definition tracked :: "'a set \<Rightarrow> 'l \<Rightarrow> 'a list \<Rightarrow> bool" where
  "tracked A l xs \<longleftrightarrow> rep l xs \<and> set xs \<subseteq> A \<and> (\<forall>y \<in> A. marked y l \<longleftrightarrow> y \<notin> set xs)"

lemma take_out:
  assumes "tracked A l xs" and "x \<in> A"
  shows "\<exists>l'. (if \<not> marked x l then remove x l else Inr l) = Inr l' \<and> rep l' (remove1 x xs) \<and>
    (\<forall>y \<in> A. y \<notin> set xs \<longrightarrow> marked y l')"
proof (cases "x \<in> set xs")
  case True
  then show ?thesis using remove_rep[of l xs x] assms member_unmarked[of l xs x] by (auto simp: tracked_def)
next
  case False
  then show ?thesis using assms by (auto simp: tracked_def remove1_idem)
qed

lemma move_to_front:
  assumes "tracked A l xs" and "x \<in> A"
  shows "\<exists>l'. (if \<not> marked x l then remove x l else Inr l) = Inr l' \<and> tracked A (prepend x l') (x # remove1 x xs)"
proof -
  from take_out[OF assms] obtain l' where l': "(if \<not> marked x l then remove x l else Inr l) = Inr l'"
    "rep l' (remove1 x xs)" "\<forall>y \<in> A. y \<notin> set xs \<longrightarrow> marked y l'" by blast
  have d: "distinct xs" using assms rep_distinct by (auto simp: tracked_def)
  then have r: "rep (prepend x l') (x # remove1 x xs)" using prepend_rep[OF l'(2)] by simp
  have "marked y (prepend x l') \<longleftrightarrow> y \<notin> set (x # remove1 x xs)" if "y \<in> A" for y
  proof (cases "y \<in> set (x # remove1 x xs)")
    case True
    then show ?thesis using member_unmarked[OF r] by blast
  next
    case False
    then have "y \<noteq> x" "y \<notin> set xs" using d by auto
    then show ?thesis using l'(3) that prepend_marked[of y x l'] False by blast
  qed
  with r l'(1) assms d show ?thesis by (auto simp: tracked_def)
qed

lemma drop_out:
  assumes "tracked A l xs" and "x \<in> set xs"
  shows "\<exists>l'. remove x l = Inr l' \<and> tracked A (mark x l') (remove1 x xs) \<and> tracked (A - {x}) l' (remove1 x xs)"
proof -
  have xA: "x \<in> A" "\<not> marked x l" using assms member_unmarked by (auto simp: tracked_def)
  from take_out[OF assms(1) xA(1)] xA(2) obtain l' where l': "remove x l = Inr l'"
    "rep l' (remove1 x xs)" "\<forall>y \<in> A. y \<notin> set xs \<longrightarrow> marked y l'" by auto
  have d: "distinct xs" using assms rep_distinct by (auto simp: tracked_def)
  have "rep (mark x l') (remove1 x xs)" using mark_rep[OF l'(2)] d by simp
  with l' assms d member_unmarked[OF l'(2)] show ?thesis
    by (auto simp: tracked_def mark_marked)
qed

lemma pop_front:
  assumes "tracked A l (x # xs)"
  shows "\<exists>l'. pop l = Inr l' \<and> tracked A (mark x l') xs"
proof -
  from assms pop_rep obtain l' where l': "pop l = Inr l'" "rep l' xs" "\<forall>y. marked y l' = marked y l"
    by (meson tracked_def)
  have d: "distinct (x # xs)" using assms rep_distinct[of l "x # xs"] unfolding tracked_def by simp
  then have "rep (mark x l') xs" using mark_rep[OF l'(2)] by simp
  with l' assms d show ?thesis by (auto simp: tracked_def mark_marked)
qed

end

interpretation sl: intrusive_list sl_rep SLinkedList_Prepend SLinkedList_Remove SLinkedList_RemoveFirst
  SLinkedList_First SLinkedListMarkRemoved SLinkedListIsRemoved
proof (unfold_locales, goal_cases)
  case (2 l xs x)
  then show ?case by (rule sl_rep_prepend)
next
  case (4 l xs x)
  then show ?case using sl_rep_remove[of l xs x] by (auto simp: SLinkedListIsRemoved_def)
next
  case (5 l x xs)
  have "seg (l\<lparr>first := node_next l x\<rparr>) xs = seg l xs" by (rule seg_cong) simp_all
  with sl_rep_Cons[OF 5] show ?case
    by (auto simp: sl_rep_def SLinkedList_RemoveFirst_def SLinkedListIsRemoved_def)
next
  case (7 l xs x)
  have "seg (SLinkedListMarkRemoved x l) xs = seg l xs"
    using 7 by (intro seg_cong) (auto simp: SLinkedListMarkRemoved_def)
  with 7 show ?case by (simp add: sl_rep_def SLinkedListMarkRemoved_def)
next
  case (9 l xs x)
  then show ?case using seg_next_not_self[of l xs x] by (simp add: sl_rep_def SLinkedListIsRemoved_def)
qed (auto simp: sl_rep_def SLinkedList_First_def SLinkedListIsRemoved_def
    SLinkedListMarkRemoved_def SLinkedList_Prepend_def Let_def split: option.splits)


section \<open>The job stack\<close>

text \<open>
  The group represents the job stack \<open>xs\<close> over the initialised objects \<open>A\<close>; the \<open>pending\<close>
  flags agree with the list.
\<close>

definition group_rep :: "addr set \<Rightarrow> ('h, 'u) BPendingGroup \<Rightarrow> addr list \<Rightarrow> bool" where
  "group_rep A g xs \<longleftrightarrow> sl.tracked A (jobs g) xs \<and> (\<forall>y \<in> A. pending (objs g y) \<longleftrightarrow> y \<in> set xs)"

lemma group_rep_assert [simp]:
  "group_rep A g xs \<Longrightarrow> p \<in> A \<Longrightarrow> assert_pending p g = Inr ()"
  by (auto simp: group_rep_def sl.tracked_def assert_pending_def)

lemma group_rep_marked: "group_rep A g xs \<Longrightarrow> p \<in> A \<Longrightarrow> SLinkedListIsRemoved p (jobs g) \<longleftrightarrow> p \<notin> set xs"
  by (simp add: group_rep_def sl.tracked_def)

lemma group_rep_distinct: "group_rep A g xs \<Longrightarrow> distinct xs \<and> set xs \<subseteq> A"
  by (auto simp: group_rep_def sl.tracked_def sl_rep_def)

lemma Set_step:
  assumes "group_rep A g xs" and "p \<in> A"
  shows "\<exists>g'. BSmallPending_Set p g = Inr g' \<and> group_rep A g' (p # remove1 p xs)"
proof -
  have "sl.tracked A (jobs g) xs" using assms(1) by (simp add: group_rep_def)
  from sl.move_to_front[OF this assms(2)] assms group_rep_distinct[OF assms(1)] show ?thesis
    by (auto simp: BSmallPending_Set_def group_rep_def)
qed

lemma Unset_step:
  assumes "group_rep A g xs" and "p \<in> A"
  shows "\<exists>g'. BSmallPending_Unset p g = Inr g' \<and> group_rep A g' (remove1 p xs)"
proof (cases "p \<in> set xs")
  case True
  have "sl.tracked A (jobs g) xs" using assms(1) by (simp add: group_rep_def)
  from sl.drop_out[OF this True] assms True group_rep_distinct[OF assms(1)] show ?thesis
    by (auto simp: BSmallPending_Unset_def group_rep_marked group_rep_def)
next
  case False
  with assms show ?thesis by (simp add: BSmallPending_Unset_def group_rep_marked remove1_idem)
qed

lemma Free_step:
  assumes "group_rep A g xs" and "p \<in> A"
  shows "\<exists>g'. BSmallPending_Free p g = Inr g' \<and> group_rep (A - {p}) g' (remove1 p xs)"
proof (cases "p \<in> set xs")
  case True
  have "sl.tracked A (jobs g) xs" using assms(1) by (simp add: group_rep_def)
  from sl.drop_out[OF this True] assms True group_rep_distinct[OF assms(1)] show ?thesis
    by (auto simp: BSmallPending_Free_def group_rep_marked group_rep_def)
next
  case False
  then have "group_rep (A - {p}) g (remove1 p xs)"
    using assms(1) by (auto simp: remove1_idem group_rep_def sl.tracked_def)
  moreover have "BSmallPending_Free p g = Inr g"
    using assms False by (simp add: BSmallPending_Free_def group_rep_marked)
  ultimately show ?thesis by blast
qed

lemma Execute_step:
  assumes "group_rep A g (p # xs)"
  shows "\<exists>g'. BPendingGroup_ExecuteJob g = Inr (g', handler (objs g p), user (objs g p)) \<and> group_rep A g' xs"
proof -
  have tr: "sl.tracked A (jobs g) (p # xs)" and pA: "p \<in> A" and pe: "pending (objs g p)"
    using assms by (auto simp: group_rep_def sl.tracked_def)
  have "sl_rep (jobs g) (p # xs)" using tr by (simp add: sl.tracked_def)
  then have h: "SLinkedList_First (jobs g) = Some p" "\<not> SLinkedListIsRemoved p (jobs g)"
    using sl.head_rep[of "jobs g" "p # xs"] sl.member_unmarked[of "jobs g" "p # xs" p] by simp_all
  have px: "p \<notin> set xs" using group_rep_distinct[OF assms] by simp
  obtain l' where l': "SLinkedList_RemoveFirst (jobs g) = Inr l'" "sl.tracked A (SLinkedListMarkRemoved p l') xs"
    using sl.pop_front[OF tr] by blast
  let ?g = "g\<lparr>jobs := SLinkedListMarkRemoved p l', objs := (objs g)(p := (objs g p)\<lparr>pending := False\<rparr>)\<rparr>"
  have "BPendingGroup_ExecuteJob g = Inr (?g, handler (objs g p), user (objs g p))"
    using h pe l'(1) by (simp add: BPendingGroup_ExecuteJob_def)
  moreover have "group_rep A ?g xs"
    using l'(2) px assms by (simp add: group_rep_def)
  ultimately show ?thesis by blast
qed

lemma SmallPending_Init_step:
  assumes "group_rep A g xs" and "p \<notin> set xs"
  shows "group_rep (insert p A) (BSmallPending_Init p h u g) xs"
  using assms sl.mark_rep[of "jobs g" xs p]
  by (auto simp: BSmallPending_Init_def group_rep_def sl.tracked_def sl.mark_marked)

lemma SetHandler_step: "group_rep A g xs \<Longrightarrow> group_rep A (BSmallPending_SetHandler p h u g) xs"
  by (auto simp: BSmallPending_SetHandler_def group_rep_def)

lemma group_init: "group_rep {} (BPendingGroup_Init g) []"
  by (simp add: group_rep_def BPendingGroup_Init_def SLinkedList_Init_def sl.tracked_def sl_rep_def)

section \<open>The specification\<close>

text \<open>
  The abstract job stack: the handlers of the objects in use and the stack of pending ones.  A job
  set again moves to the top.
\<close>

record ('h, 'u) stack_spec =
  spec_objs :: "addr \<Rightarrow> ('h \<times> 'u) option"
  spec_stack :: "addr list"

datatype ('h, 'u) job_op =
    OpInit addr 'h 'u
  | OpFree addr
  | OpSet addr
  | OpUnset addr
  | OpSetHandler addr 'h 'u
  | OpExecute

fun op_ok :: "('h, 'u) job_op \<Rightarrow> ('h, 'u) stack_spec \<Rightarrow> bool" where
  "op_ok (OpInit p h u) s \<longleftrightarrow> spec_objs s p = None"
| "op_ok (OpFree p) s \<longleftrightarrow> spec_objs s p \<noteq> None"
| "op_ok (OpSet p) s \<longleftrightarrow> spec_objs s p \<noteq> None"
| "op_ok (OpUnset p) s \<longleftrightarrow> spec_objs s p \<noteq> None"
| "op_ok (OpSetHandler p h u) s \<longleftrightarrow> spec_objs s p \<noteq> None"
| "op_ok OpExecute s \<longleftrightarrow> spec_stack s \<noteq> []"

text \<open>The second component lists the callbacks made, at most one.\<close>

fun spec_op :: "('h, 'u) job_op \<Rightarrow> ('h, 'u) stack_spec \<Rightarrow> ('h, 'u) stack_spec \<times> ('h \<times> 'u) list" where
  "spec_op (OpInit p h u) s = (s\<lparr>spec_objs := (spec_objs s)(p \<mapsto> (h, u))\<rparr>, [])"
| "spec_op (OpFree p) s = (s\<lparr>spec_objs := (spec_objs s)(p := None), spec_stack := remove1 p (spec_stack s)\<rparr>, [])"
| "spec_op (OpSet p) s = (s\<lparr>spec_stack := p # remove1 p (spec_stack s)\<rparr>, [])"
| "spec_op (OpUnset p) s = (s\<lparr>spec_stack := remove1 p (spec_stack s)\<rparr>, [])"
| "spec_op (OpSetHandler p h u) s = (s\<lparr>spec_objs := (spec_objs s)(p \<mapsto> (h, u))\<rparr>, [])"
| "spec_op OpExecute s =
     (s\<lparr>spec_stack := tl (spec_stack s)\<rparr>, [the (spec_objs s (hd (spec_stack s)))])"

fun apply_op ::
    "('h, 'u) job_op \<Rightarrow> ('h, 'u) BPendingGroup \<Rightarrow> (('h, 'u) BPendingGroup \<times> ('h \<times> 'u) list) run" where
  "apply_op (OpInit p h u) g = Inr (BSmallPending_Init p h u g, [])"
| "apply_op (OpFree p) g = bindE (BSmallPending_Free p g) (\<lambda>g. Inr (g, []))"
| "apply_op (OpSet p) g = bindE (BSmallPending_Set p g) (\<lambda>g. Inr (g, []))"
| "apply_op (OpUnset p) g = bindE (BSmallPending_Unset p g) (\<lambda>g. Inr (g, []))"
| "apply_op (OpSetHandler p h u) g = Inr (BSmallPending_SetHandler p h u g, [])"
| "apply_op OpExecute g = bindE (BPendingGroup_ExecuteJob g) (\<lambda>(g, h, u). Inr (g, [(h, u)]))"

fun run_ops ::
    "('h, 'u) job_op list \<Rightarrow> ('h, 'u) BPendingGroup \<Rightarrow> (('h, 'u) BPendingGroup \<times> ('h \<times> 'u) list) run" where
  "run_ops [] g = Inr (g, [])"
| "run_ops (x # xs) g =
     bindE (apply_op x g) (\<lambda>(g, cs). bindE (run_ops xs g) (\<lambda>(g, ds). Inr (g, cs @ ds)))"

fun ops_ok :: "('h, 'u) job_op list \<Rightarrow> ('h, 'u) stack_spec \<Rightarrow> bool" where
  "ops_ok [] s = True"
| "ops_ok (x # xs) s = (op_ok x s \<and> ops_ok xs (fst (spec_op x s)))"

fun spec_ops ::
    "('h, 'u) job_op list \<Rightarrow> ('h, 'u) stack_spec \<Rightarrow> ('h, 'u) stack_spec \<times> ('h \<times> 'u) list" where
  "spec_ops [] s = (s, [])"
| "spec_ops (x # xs) s =
     (let (s, cs) = spec_op x s; (s, ds) = spec_ops xs s in (s, cs @ ds))"

definition group_sim :: "('h, 'u) BPendingGroup \<Rightarrow> ('h, 'u) stack_spec \<Rightarrow> bool" where
  "group_sim g s \<longleftrightarrow> group_rep (dom (spec_objs s)) g (spec_stack s) \<and>
     (\<forall>p h u. spec_objs s p = Some (h, u) \<longrightarrow> handler (objs g p) = h \<and> user (objs g p) = u)"

text \<open>No operation changes the handlers of other objects.\<close>

lemma handlers_kept:
  "BSmallPending_Set p g = Inr g' \<Longrightarrow> handler (objs g' q) = handler (objs g q) \<and> user (objs g' q) = user (objs g q)"
  "BSmallPending_Unset p g = Inr g' \<Longrightarrow> handler (objs g' q) = handler (objs g q) \<and> user (objs g' q) = user (objs g q)"
  "BSmallPending_Free p g = Inr g' \<Longrightarrow> objs g' = objs g"
  "BPendingGroup_ExecuteJob g = Inr (g', h, u) \<Longrightarrow>
     handler (objs g' q) = handler (objs g q) \<and> user (objs g' q) = user (objs g q)"
  by (auto simp: BSmallPending_Set_def BSmallPending_Unset_def BSmallPending_Free_def
      BPendingGroup_ExecuteJob_def bindE_Inr_iff split: if_splits option.splits)

lemma op_sim:
  assumes sim: "group_sim g s" and ok: "op_ok x s"
  shows "\<exists>g'. apply_op x g = Inr (g', snd (spec_op x s)) \<and> group_sim g' (fst (spec_op x s))"
proof -
  have r: "group_rep (dom (spec_objs s)) g (spec_stack s)"
    and h: "\<And>p h u. spec_objs s p = Some (h, u) \<Longrightarrow> handler (objs g p) = h \<and> user (objs g p) = u"
    using sim by (auto simp: group_sim_def)
  show ?thesis
  proof (cases x)
    case (OpInit p a b)
    then have "p \<notin> set (spec_stack s)" using ok group_rep_distinct[OF r] by auto
    with OpInit SmallPending_Init_step[OF r, of p a b] h show ?thesis
      by (auto simp: group_sim_def BSmallPending_Init_def)
  next
    case (OpFree p)
    then have "p \<in> dom (spec_objs s)" using ok by auto
    from Free_step[OF r this] OpFree h handlers_kept(3) show ?thesis
      by (fastforce simp: group_sim_def)
  next
    case (OpSet p)
    then have "p \<in> dom (spec_objs s)" using ok by auto
    from Set_step[OF r this] OpSet h handlers_kept(1) show ?thesis
      by (fastforce simp: group_sim_def)
  next
    case (OpUnset p)
    then have "p \<in> dom (spec_objs s)" using ok by auto
    from Unset_step[OF r this] OpUnset h handlers_kept(2) show ?thesis
      by (fastforce simp: group_sim_def)
  next
    case (OpSetHandler p a b)
    then have "dom ((spec_objs s)(p \<mapsto> (a, b))) = dom (spec_objs s)" using ok by auto
    with OpSetHandler SetHandler_step[OF r, of p a b] h show ?thesis
      by (auto simp: group_sim_def BSmallPending_SetHandler_def)
  next
    case OpExecute
    then obtain p ps where ps: "spec_stack s = p # ps" using ok by (cases "spec_stack s") auto
    then obtain a b where ab: "spec_objs s p = Some (a, b)" using group_rep_distinct[OF r] by auto
    from Execute_step[OF r[unfolded ps]] obtain g' where g': "BPendingGroup_ExecuteJob g = Inr (g', a, b)"
      "group_rep (dom (spec_objs s)) g' ps" using h[OF ab] by auto
    then show ?thesis
      using OpExecute ps ab h handlers_kept(4)[OF g'(1)] by (auto simp: group_sim_def)
  qed
qed

section \<open>Properties\<close>

lemma ops_sim:
  "group_sim g s \<Longrightarrow> ops_ok ops s \<Longrightarrow>
     \<exists>g'. run_ops ops g = Inr (g', snd (spec_ops ops s)) \<and> group_sim g' (fst (spec_ops ops s))"
proof (induction ops arbitrary: g s)
  case (Cons x ops)
  from op_sim[OF Cons.prems(1)] Cons.prems(2)
  obtain g1 where g1: "apply_op x g = Inr (g1, snd (spec_op x s))" "group_sim g1 (fst (spec_op x s))" by auto
  from Cons.IH[OF g1(2)] Cons.prems(2) g1(1) show ?case
    by (auto simp: Let_def split: prod.splits)
qed (simp add: Let_def)

text \<open>
  C29. The pointer-level job list implements a stack of jobs: from \<open>BPendingGroup_Init\<close> on, every
  sequence of \<open>Init\<close>, \<open>Set\<close>, \<open>Unset\<close>, \<open>SetHandler\<close>, \<open>Free\<close> and \<open>ExecuteJob\<close>
  calls on initialised objects (and \<open>ExecuteJob\<close> only when there is a job) runs without a failed
  assertion or a null dereference, makes exactly the callbacks of the abstract stack in its order,
  and ends in a group that represents the abstract stack.
\<close>

theorem job_stack_refinement:
  assumes "ops_ok ops \<lparr>spec_objs = Map.empty, spec_stack = []\<rparr>"
  shows "\<exists>g'. run_ops ops (BPendingGroup_Init g)
      = Inr (g', snd (spec_ops ops \<lparr>spec_objs = Map.empty, spec_stack = []\<rparr>)) \<and>
    group_sim g' (fst (spec_ops ops \<lparr>spec_objs = Map.empty, spec_stack = []\<rparr>))"
proof -
  have "group_sim (BPendingGroup_Init g) \<lparr>spec_objs = Map.empty, spec_stack = []\<rparr>"
    using group_init by (simp add: group_sim_def)
  from ops_sim[OF this assms] show ?thesis .
qed

definition empty_group :: "(nat, nat) BPendingGroup" where
  "empty_group = \<lparr>jobs = \<lparr>first = None, node_prev = (\<lambda>_. None), node_next = (\<lambda>_. None)\<rparr>,
     objs = (\<lambda>_. \<lparr>handler = 0, user = 0, pending = False\<rparr>)\<rparr>"

theorem job_stack_refinement_witness:
  "\<exists>g'. run_ops [OpInit 5 50 0, OpInit 6 60 0, OpInit 7 70 0, OpSet 5, OpSet 6, OpSet 7, OpSet 5, OpUnset 6,
       OpExecute, OpSetHandler 7 71 1, OpExecute] (BPendingGroup_Init empty_group) = Inr (g', [(50, 0), (71, 1)])"
  using job_stack_refinement[of "[OpInit 5 50 0, OpInit 6 60 0, OpInit 7 70 0, OpSet 5, OpSet 6, OpSet 7, OpSet 5,
      OpUnset 6, OpExecute, OpSetHandler 7 71 1, OpExecute]" empty_group]
  by (simp del: run_ops.simps) blast

end
