(* ===== verification/ChunkBuffer2.thy ===== *)
theory ChunkBuffer2
  imports C_Prelude
begin

text \<open>
  \<^verbatim>\<open>tun2socks-iOS/structure/ChunkBuffer2.h\<close>: a circular buffer of packets in an array of 4-byte
  blocks.  A packet is a block with its length followed by its bytes, padded to whole blocks, and
  never wraps around the end of the array; instead \<open>wrap\<close> marks where the used part ends.

  The array is the list of its bytes.  Pointers into it are byte offsets, \<open>None\<close> being the null
  pointer.  The assertions of the debug build, \<open>_ChunkBuffer2_assert_buffer\<close> and
  \<open>_ChunkBuffer2_assert_io\<close> included, are guards: a result \<open>Inr\<close> says that they hold.
\<close>

section \<open>The buffer\<close>

record ChunkBuffer2 =
  cb_mem :: "byte list"
  cb_size :: int
  cb_wrap :: int
  cb_start :: int
  cb_used :: int
  cb_mtu :: int
  cb_input_dest :: "int option"
  cb_input_avail :: int
  cb_output_dest :: "int option"
  cb_output_avail :: int

definition bdivide_up :: "int \<Rightarrow> int \<Rightarrow> int" where
  "bdivide_up a b = (let r = a mod b in if r > 0 then a div b + 1 else a div b)"

abbreviation INT_MAX :: int where "INT_MAX \<equiv> 2 ^ 31 - 1"

definition ChunkBuffer2_end :: "ChunkBuffer2 \<Rightarrow> int" where
  "ChunkBuffer2_end b =
     (if cb_used b \<ge> cb_wrap b - cb_start b then cb_used b - (cb_wrap b - cb_start b)
      else cb_start b + cb_used b)"

text \<open>The length field of a block.\<close>

definition block_len :: "byte list \<Rightarrow> int \<Rightarrow> int" where
  "block_len mem i = sint (load32_le (take 4 (drop (nat (4 * i)) mem)))"

definition set_block_len :: "int \<Rightarrow> int \<Rightarrow> byte list \<Rightarrow> byte list" where
  "set_block_len i len mem = write_at (nat (4 * i)) (store32_le (of_int len)) mem"

definition ChunkBuffer2_assert_buffer :: "ChunkBuffer2 \<Rightarrow> bool" where
  "ChunkBuffer2_assert_buffer b \<longleftrightarrow>
     cb_size b > 0 \<and> cb_wrap b > 0 \<and> cb_wrap b \<le> cb_size b \<and> cb_start b \<ge> 0 \<and>
     cb_start b < cb_wrap b \<and> cb_used b \<ge> 0 \<and> cb_used b \<le> cb_wrap b \<and>
     (cb_wrap b = cb_size b \<or> cb_used b \<ge> cb_wrap b - cb_start b) \<and> cb_mtu b \<ge> 0"

definition free_blocks :: "ChunkBuffer2 \<Rightarrow> int" where
  "free_blocks b =
     (if cb_used b \<ge> cb_wrap b - cb_start b then cb_start b - ChunkBuffer2_end b
      else cb_size b - ChunkBuffer2_end b)"

definition ChunkBuffer2_assert_io :: "ChunkBuffer2 \<Rightarrow> bool" where
  "ChunkBuffer2_assert_io b \<longleftrightarrow>
     (let end = ChunkBuffer2_end b
      in (if cb_size b - end - 1 < cb_mtu b
          then cb_input_dest b = None \<and> cb_input_avail b = -1
          else if free_blocks b > 0
               then cb_input_dest b = Some (4 * (end + 1)) \<and> cb_input_avail b = (free_blocks b - 1) * 4
               else cb_input_dest b = None \<and> cb_input_avail b = -1)) \<and>
     (if cb_used b > 0
      then (let datalen = block_len (cb_mem b) (cb_start b); blocklen = bdivide_up datalen 4
            in datalen \<ge> 0 \<and> blocklen \<le> cb_used b - 1 \<and> blocklen \<le> cb_wrap b - cb_start b - 1 \<and>
               cb_output_dest b = Some (4 * (cb_start b + 1)) \<and> cb_output_avail b = datalen)
      else cb_output_dest b = None \<and> cb_output_avail b = -1)"

definition ChunkBuffer2_update_input :: "ChunkBuffer2 \<Rightarrow> ChunkBuffer2" where
  "ChunkBuffer2_update_input b =
     (let end = ChunkBuffer2_end b
      in if cb_size b - end - 1 < cb_mtu b then b\<lparr>cb_input_dest := None, cb_input_avail := -1\<rparr>
         else if free_blocks b > 0
              then b\<lparr>cb_input_dest := Some (4 * (end + 1)), cb_input_avail := (free_blocks b - 1) * 4\<rparr>
              else b\<lparr>cb_input_dest := None, cb_input_avail := -1\<rparr>)"

definition ChunkBuffer2_update_output :: "ChunkBuffer2 \<Rightarrow> ChunkBuffer2 run" where
  "ChunkBuffer2_update_output b =
     (if cb_used b > 0
      then let datalen = block_len (cb_mem b) (cb_start b); blocklen = bdivide_up datalen 4
           in bindE (guardE (datalen \<ge> 0) AssertFailed) (\<lambda>_.
              bindE (guardE (blocklen \<le> cb_used b - 1) AssertFailed) (\<lambda>_.
              bindE (guardE (blocklen \<le> cb_wrap b - cb_start b - 1) AssertFailed) (\<lambda>_.
                Inr (b\<lparr>cb_output_dest := Some (4 * (cb_start b + 1)), cb_output_avail := datalen\<rparr>))))
      else Inr (b\<lparr>cb_output_dest := None, cb_output_avail := -1\<rparr>))"

text \<open>The result is \<open>None\<close> for the return value -1: the sizes would overflow an \<open>int\<close>.\<close>

definition ChunkBuffer2_calc_blocks :: "int \<Rightarrow> int \<Rightarrow> int option" where
  "ChunkBuffer2_calc_blocks chunk_len num =
     (let chunk_data_blocks = bdivide_up chunk_len 4
      in if chunk_data_blocks > INT_MAX - 1 then None
         else
           let chunk_blocks = 1 + chunk_data_blocks
           in if num > INT_MAX - 1 then None
              else
                let num_chunks = num + 1
                in if chunk_blocks > INT_MAX div num_chunks then None
                   else Some (chunk_blocks * num_chunks))"

definition ChunkBuffer2_Init :: "byte list \<Rightarrow> int \<Rightarrow> int \<Rightarrow> ChunkBuffer2 run" where
  "ChunkBuffer2_Init buffer blocks mtu =
     bindE (guardE (blocks > 0) AssertFailed) (\<lambda>_.
     bindE (guardE (mtu \<ge> 0) AssertFailed) (\<lambda>_.
       let b = \<lparr>cb_mem = buffer, cb_size = blocks, cb_wrap = blocks, cb_start = 0, cb_used = 0,
                cb_mtu = bdivide_up mtu 4, cb_input_dest = None, cb_input_avail = 0,
                cb_output_dest = None, cb_output_avail = 0\<rparr>
       in bindE (guardE (ChunkBuffer2_assert_buffer b) AssertFailed) (\<lambda>_.
          bindE (ChunkBuffer2_update_output (ChunkBuffer2_update_input b)) (\<lambda>b.
          bindE (guardE (ChunkBuffer2_assert_io b) AssertFailed) (\<lambda>_. Inr b)))))"

text \<open>Writing the header, and moving the end and the wrap mark.\<close>

definition commit_packet :: "int \<Rightarrow> ChunkBuffer2 \<Rightarrow> ChunkBuffer2" where
  "commit_packet len b =
     (let end = ChunkBuffer2_end b; blocklen = bdivide_up len 4;
          b = b\<lparr>cb_mem := set_block_len end len (cb_mem b), cb_used := cb_used b + (1 + blocklen)\<rparr>
      in if cb_used b \<le> cb_wrap b - cb_start b \<and> cb_mtu b > cb_size b - (end + 1 + blocklen) - 1
         then b\<lparr>cb_wrap := end + 1 + blocklen\<rparr> else b)"

definition ChunkBuffer2_SubmitPacket :: "int \<Rightarrow> ChunkBuffer2 \<Rightarrow> ChunkBuffer2 run" where
  "ChunkBuffer2_SubmitPacket len b =
     bindE (guardE (cb_input_dest b \<noteq> None \<and> len \<ge> 0 \<and> len \<le> cb_input_avail b) AssertFailed) (\<lambda>_.
     bindE (guardE (ChunkBuffer2_assert_buffer b \<and> ChunkBuffer2_assert_io b) AssertFailed) (\<lambda>_.
       let end = ChunkBuffer2_end b; blocklen = bdivide_up len 4
       in bindE (guardE (blocklen \<le> cb_size b - end - 1) AssertFailed) (\<lambda>_.
          bindE (guardE (cb_used b < cb_wrap b - cb_start b \<or> blocklen \<le> cb_start b - end - 1)
                  AssertFailed) (\<lambda>_.
            let b = commit_packet len b
            in bindE (guardE (ChunkBuffer2_assert_buffer b) AssertFailed) (\<lambda>_.
               let b = ChunkBuffer2_update_input b
               in bindE (if cb_used b = 1 + blocklen then ChunkBuffer2_update_output b else Inr b) (\<lambda>b.
                  bindE (guardE (ChunkBuffer2_assert_io b) AssertFailed) (\<lambda>_. Inr b)))))))"

definition ChunkBuffer2_ConsumePacket :: "ChunkBuffer2 \<Rightarrow> ChunkBuffer2 run" where
  "ChunkBuffer2_ConsumePacket b =
     bindE (guardE (cb_output_dest b \<noteq> None) AssertFailed) (\<lambda>_.
     bindE (guardE (ChunkBuffer2_assert_buffer b \<and> ChunkBuffer2_assert_io b) AssertFailed) (\<lambda>_.
     bindE (guardE (1 \<le> cb_wrap b - cb_start b \<and> 1 \<le> cb_used b) AssertFailed) (\<lambda>_.
       let blocklen = bdivide_up (block_len (cb_mem b) (cb_start b)) 4
       in bindE (guardE (blocklen \<le> cb_wrap b - cb_start b - 1 \<and> blocklen \<le> cb_used b - 1)
                  AssertFailed) (\<lambda>_.
            let data_wrapped = (cb_used b \<ge> cb_wrap b - cb_start b);
                b = b\<lparr>cb_start := cb_start b + (1 + blocklen), cb_used := cb_used b - (1 + blocklen)\<rparr>;
                b = (if cb_start b = cb_wrap b then b\<lparr>cb_start := 0, cb_wrap := cb_size b\<rparr> else b)
            in bindE (guardE (ChunkBuffer2_assert_buffer b) AssertFailed) (\<lambda>_.
               let b = (if data_wrapped then ChunkBuffer2_update_input b else b)
               in bindE (ChunkBuffer2_update_output b) (\<lambda>b.
                  bindE (guardE (ChunkBuffer2_assert_io b) AssertFailed) (\<lambda>_. Inr b)))))))"

section \<open>Packets in memory\<close>

text \<open>
  \<open>packets_at mem lim p ds e\<close>: the packets \<open>ds\<close> fill the blocks from \<open>p\<close> up to \<open>e\<close>,
  each starting at most at block \<open>lim\<close>.
\<close>

abbreviation blocks :: "byte list \<Rightarrow> int" where
  "blocks d \<equiv> 1 + bdivide_up (int (length d)) 4"

fun packets_at :: "byte list \<Rightarrow> int \<Rightarrow> int \<Rightarrow> byte list list \<Rightarrow> int \<Rightarrow> bool" where
  "packets_at mem lim p [] e \<longleftrightarrow> p = e"
| "packets_at mem lim p (d # ds) e \<longleftrightarrow>
     0 \<le> p \<and> p \<le> lim \<and> take 4 (drop (nat (4 * p)) mem) = store32_le (of_nat (length d)) \<and>
     take (length d) (drop (nat (4 * p + 4)) mem) = d \<and> length d < 2 ^ 31 \<and>
     packets_at mem lim (p + blocks d) ds e"

lemma bdivide_up_bounds:
  assumes "0 \<le> n"
  shows "n \<le> 4 * bdivide_up n 4" "4 * bdivide_up n 4 < n + 4" "0 \<le> bdivide_up n 4"
  unfolding bdivide_up_def Let_def using assms by presburger+

lemma bdivide_up_le: "0 \<le> n \<Longrightarrow> n \<le> 4 * k \<Longrightarrow> bdivide_up n 4 \<le> k"
  using bdivide_up_bounds[of n] by linarith

lemma blocks_pos: "0 \<le> bdivide_up (int n) 4"
  by (simp add: bdivide_up_bounds)

lemma packets_at_le: "packets_at mem lim p ds e \<Longrightarrow> p + int (length ds) \<le> e"
proof (induction ds arbitrary: p)
  case (Cons d ds)
  then have "p + blocks d + int (length ds) \<le> e" by simp
  moreover have "0 \<le> bdivide_up (int (length d)) 4" by (rule blocks_pos)
  ultimately show ?case unfolding list.size by linarith
qed simp

lemma packets_at_append:
  "packets_at mem lim p (ds @ es) e \<longleftrightarrow> (\<exists>q. packets_at mem lim p ds q \<and> packets_at mem lim q es e)"
  by (induction ds arbitrary: p) auto

text \<open>Packets only depend on the bytes of their blocks.\<close>

lemma packets_at_cong:
  assumes "packets_at mem lim p ds e" and "0 \<le> p"
    and "\<And>a n. 4 * p \<le> int a \<Longrightarrow> int (a + n) \<le> 4 * e \<Longrightarrow> take n (drop a mem') = take n (drop a mem)"
  shows "packets_at mem' lim p ds e"
  using assms
proof (induction ds arbitrary: p)
  case (Cons d ds)
  have le: "p + blocks d \<le> e" using packets_at_le[of mem lim "p + blocks d" ds e] Cons.prems(1) by simp
  have len: "int (length d) \<le> 4 * bdivide_up (int (length d)) 4" by (simp add: bdivide_up_bounds)
  have "take 4 (drop (nat (4 * p)) mem') = take 4 (drop (nat (4 * p)) mem)"
    using Cons.prems(2) le len blocks_pos[of "length d"] by (intro Cons.prems(3)) auto
  moreover have "take (length d) (drop (nat (4 * p + 4)) mem') = take (length d) (drop (nat (4 * p + 4)) mem)"
    using Cons.prems(2) le len by (intro Cons.prems(3)) auto
  moreover have "packets_at mem' lim (p + blocks d) ds e"
  proof (rule Cons.IH)
    fix a n assume a: "4 * (p + blocks d) \<le> int a" "int (a + n) \<le> 4 * e"
    have "0 \<le> bdivide_up (int (length d)) 4" by (rule blocks_pos)
    with a(1) have "4 * p \<le> int a" by presburger
    then show "take n (drop a mem') = take n (drop a mem)" using a(2) by (rule Cons.prems(3))
  qed (use Cons.prems blocks_pos[of "length d"] in auto)
  ultimately show ?case using Cons.prems(1) by simp
qed simp

lemma take_drop_write_at_other:
  assumes "off + length bs \<le> length xs" and "a + n \<le> off \<or> off + length bs \<le> a"
  shows "take n (drop a (write_at off bs xs)) = take n (drop a xs)"
proof (cases "a + n \<le> off")
  case True
  then have "take (a + n) (write_at off bs xs) = take (a + n) xs"
    using assms(1) by (intro take_write_at_before) simp_all
  then show ?thesis by (metis take_drop add.commute)
next
  case False
  with assms show ?thesis by (simp add: write_at_def)
qed

lemma packets_at_write:
  assumes "packets_at mem lim p ds e" and "0 \<le> p" and "off + length bs \<le> length mem"
    and "4 * e \<le> int off \<or> int (off + length bs) \<le> 4 * p"
  shows "packets_at (write_at off bs mem) lim p ds e"
  using assms(4) by (intro packets_at_cong[OF assms(1,2)] take_drop_write_at_other[OF assms(3)]) auto

lemma block_len_packet:
  assumes "take 4 (drop (nat (4 * p)) mem) = store32_le (of_nat n)" and "n < 2 ^ 31"
  shows "block_len mem p = int n"
proof -
  have "uint (of_nat n :: u32) = int n" using assms(2) by (simp add: uint_word_of_int_eq take_bit_eq_mod unsigned_of_nat)
  then show ?thesis
    using assms by (simp add: block_len_def sint_uint signed_take_bit_int_eq_self)
qed

section \<open>The abstraction\<close>

abbreviation wrapped :: "ChunkBuffer2 \<Rightarrow> bool" where
  "wrapped b \<equiv> cb_used b \<ge> cb_wrap b - cb_start b"

abbreviation last_start :: "ChunkBuffer2 \<Rightarrow> int" where
  "last_start b \<equiv> cb_size b - 1 - cb_mtu b"

text \<open>
  Positions: a packet always starts where a packet of the MTU would fit, so the first branch of
  \<open>ChunkBuffer2_update_input\<close> is never taken.
\<close>

definition cb_pos_ok :: "ChunkBuffer2 \<Rightarrow> bool" where
  "cb_pos_ok b \<longleftrightarrow>
     length (cb_mem b) = nat (4 * cb_size b) \<and> 4 * cb_size b < 2 ^ 31 \<and> 0 \<le> cb_mtu b \<and> 0 \<le> last_start b \<and>
     0 \<le> cb_start b \<and> cb_start b < cb_wrap b \<and> cb_wrap b \<le> cb_size b \<and> 0 \<le> cb_used b \<and>
     cb_used b \<le> cb_wrap b \<and>
     (if wrapped b then cb_start b \<le> last_start b \<and> last_start b < cb_wrap b
      else cb_wrap b = cb_size b \<and> cb_start b + cb_used b \<le> last_start b)"

definition cb_data :: "ChunkBuffer2 \<Rightarrow> byte list list \<Rightarrow> bool" where
  "cb_data b ds \<longleftrightarrow>
     (if wrapped b
      then (\<exists>xs ys. ds = xs @ ys \<and> packets_at (cb_mem b) (last_start b) (cb_start b) xs (cb_wrap b) \<and>
              packets_at (cb_mem b) (last_start b) 0 ys (ChunkBuffer2_end b))
      else packets_at (cb_mem b) (last_start b) (cb_start b) ds (ChunkBuffer2_end b))"

definition cb_rep :: "ChunkBuffer2 \<Rightarrow> byte list list \<Rightarrow> bool" where
  "cb_rep b ds \<longleftrightarrow> cb_pos_ok b \<and> cb_data b ds \<and> ChunkBuffer2_assert_io b"

lemma cb_data_wrappedI:
  "wrapped b \<Longrightarrow> ds = xs @ ys \<Longrightarrow> packets_at (cb_mem b) (last_start b) (cb_start b) xs (cb_wrap b) \<Longrightarrow>
     packets_at (cb_mem b) (last_start b) 0 ys (ChunkBuffer2_end b) \<Longrightarrow> cb_data b ds"
  by (auto simp: cb_data_def)

lemma cb_pos_ok_assert: "cb_pos_ok b \<Longrightarrow> ChunkBuffer2_assert_buffer b"
  by (auto simp: cb_pos_ok_def ChunkBuffer2_assert_buffer_def split: if_splits)

lemma cb_pos_ok_end:
  assumes "cb_pos_ok b"
  shows "0 \<le> ChunkBuffer2_end b" "ChunkBuffer2_end b \<le> last_start b"
    "wrapped b \<Longrightarrow> ChunkBuffer2_end b \<le> cb_start b"
  using assms by (auto simp: cb_pos_ok_def ChunkBuffer2_end_def split: if_splits)

text \<open>The first packet.\<close>

lemma cb_data_first:
  assumes "cb_pos_ok b" and "cb_data b ds"
  shows "ds = [] \<longleftrightarrow> cb_used b = 0"
    and "ds = d # ds' \<Longrightarrow> take 4 (drop (nat (4 * cb_start b)) (cb_mem b)) = store32_le (of_nat (length d)) \<and>
      take (length d) (drop (nat (4 * cb_start b + 4)) (cb_mem b)) = d \<and> length d < 2 ^ 31 \<and>
      blocks d \<le> cb_used b \<and> blocks d \<le> cb_wrap b - cb_start b"
proof -
  have e: "ChunkBuffer2_end b = (if wrapped b then cb_used b - (cb_wrap b - cb_start b) else cb_start b + cb_used b)"
    by (simp add: ChunkBuffer2_end_def)
  show "ds = [] \<longleftrightarrow> cb_used b = 0"
  proof (cases "wrapped b")
    case True
    then obtain xs ys where "ds = xs @ ys" "packets_at (cb_mem b) (last_start b) (cb_start b) xs (cb_wrap b)"
      using assms(2) by (auto simp: cb_data_def)
    moreover have "cb_start b < cb_wrap b" "0 \<le> cb_used b" using assms(1) by (auto simp: cb_pos_ok_def)
    ultimately show ?thesis using True by (cases xs) auto
  next
    case False
    then have p: "packets_at (cb_mem b) (last_start b) (cb_start b) ds (cb_start b + cb_used b)"
      using assms(2) e by (simp add: cb_data_def)
    then show ?thesis using packets_at_le[OF p] by (cases ds) auto
  qed
  assume d: "ds = d # ds'"
  show "take 4 (drop (nat (4 * cb_start b)) (cb_mem b)) = store32_le (of_nat (length d)) \<and>
      take (length d) (drop (nat (4 * cb_start b + 4)) (cb_mem b)) = d \<and> length d < 2 ^ 31 \<and>
      blocks d \<le> cb_used b \<and> blocks d \<le> cb_wrap b - cb_start b"
  proof (cases "wrapped b")
    case True
    then obtain xs ys where xs: "ds = xs @ ys" "packets_at (cb_mem b) (last_start b) (cb_start b) xs (cb_wrap b)"
      using assms(2) by (auto simp: cb_data_def)
    moreover have "cb_start b < cb_wrap b" using assms(1) by (auto simp: cb_pos_ok_def)
    ultimately obtain xs' where xs': "xs = d # xs'" using d by (cases xs) auto
    have "cb_start b + blocks d \<le> cb_wrap b"
      using xs(2) packets_at_le[of "cb_mem b" "last_start b" "cb_start b + blocks d" xs' "cb_wrap b"] by (simp add: xs')
    then show ?thesis using xs(2) True by (simp add: xs')
  next
    case False
    then have p: "packets_at (cb_mem b) (last_start b) (cb_start b) ds (cb_start b + cb_used b)"
      using assms(2) e by (simp add: cb_data_def)
    then have "cb_start b + blocks d \<le> cb_start b + cb_used b"
      using packets_at_le[of "cb_mem b" "last_start b" "cb_start b + blocks d" ds'] d by fastforce
    then show ?thesis using p False d by simp
  qed
qed


definition input_ok :: "ChunkBuffer2 \<Rightarrow> bool" where
  "input_ok b \<longleftrightarrow>
     (if free_blocks b > 0
      then cb_input_dest b = Some (4 * (ChunkBuffer2_end b + 1)) \<and> cb_input_avail b = (free_blocks b - 1) * 4
      else cb_input_dest b = None \<and> cb_input_avail b = -1)"

definition output_ok :: "ChunkBuffer2 \<Rightarrow> byte list list \<Rightarrow> bool" where
  "output_ok b ds \<longleftrightarrow>
     (case ds of
        [] \<Rightarrow> cb_output_dest b = None \<and> cb_output_avail b = -1
      | d # _ \<Rightarrow> cb_output_dest b = Some (4 * (cb_start b + 1)) \<and> cb_output_avail b = int (length d))"

lemma first_packet_len:
  assumes "cb_pos_ok b" and "cb_data b (d # ds)"
  shows "block_len (cb_mem b) (cb_start b) = int (length d)" "cb_used b > 0"
    "bdivide_up (int (length d)) 4 \<le> cb_used b - 1" "bdivide_up (int (length d)) 4 \<le> cb_wrap b - cb_start b - 1"
  using cb_data_first(2)[OF assms refl] block_len_packet[of "cb_start b" "cb_mem b" "length d"]
    blocks_pos[of "length d"] by auto

lemma assert_io_iff:
  assumes "cb_pos_ok b" and "cb_data b ds"
  shows "ChunkBuffer2_assert_io b \<longleftrightarrow> input_ok b \<and> output_ok b ds"
proof -
  have "\<not> cb_size b - ChunkBuffer2_end b - 1 < cb_mtu b" using cb_pos_ok_end(2)[OF assms(1)] by simp
  then show ?thesis
    using cb_data_first(1)[OF assms] first_packet_len[OF assms(1)] assms(2)
    by (cases ds) (auto simp: ChunkBuffer2_assert_io_def input_ok_def output_ok_def Let_def)
qed

lemma update_input_ok:
  assumes "cb_pos_ok b"
  shows "\<exists>i a. ChunkBuffer2_update_input b = b\<lparr>cb_input_dest := i, cb_input_avail := a\<rparr> \<and>
    input_ok (b\<lparr>cb_input_dest := i, cb_input_avail := a\<rparr>)"
proof -
  have "\<not> cb_size b - ChunkBuffer2_end b - 1 < cb_mtu b" using cb_pos_ok_end(2)[OF assms(1)] by simp
  then show ?thesis
    by (auto simp: ChunkBuffer2_update_input_def input_ok_def Let_def free_blocks_def ChunkBuffer2_end_def)
qed

lemma update_output_ok:
  assumes "cb_pos_ok b" and "cb_data b ds"
  shows "\<exists>i a. ChunkBuffer2_update_output b = Inr (b\<lparr>cb_output_dest := i, cb_output_avail := a\<rparr>) \<and>
    output_ok (b\<lparr>cb_output_dest := i, cb_output_avail := a\<rparr>) ds"
  using cb_data_first(1)[OF assms] first_packet_len[OF assms(1)] assms(2)
  by (cases ds) (auto simp: ChunkBuffer2_update_output_def output_ok_def Let_def)

text \<open>The derived fields do not matter for the positions and the packets.\<close>

lemma io_fields [simp]:
  "cb_pos_ok (b\<lparr>cb_input_dest := i, cb_input_avail := a\<rparr>) = cb_pos_ok b"
  "cb_pos_ok (b\<lparr>cb_output_dest := i, cb_output_avail := a\<rparr>) = cb_pos_ok b"
  "cb_data (b\<lparr>cb_input_dest := i, cb_input_avail := a\<rparr>) ds = cb_data b ds"
  "cb_data (b\<lparr>cb_output_dest := i, cb_output_avail := a\<rparr>) ds = cb_data b ds"
  "input_ok (b\<lparr>cb_output_dest := i, cb_output_avail := a\<rparr>) = input_ok b"
  "output_ok (b\<lparr>cb_input_dest := i, cb_input_avail := a\<rparr>) ds = output_ok b ds"
  by (simp_all add: cb_pos_ok_def cb_data_def ChunkBuffer2_end_def input_ok_def output_ok_def free_blocks_def
      split: list.split)

text \<open>A packet of \<open>n\<close> bytes is written to the place the buffer offers.\<close>

definition cb_fill :: "byte list \<Rightarrow> ChunkBuffer2 \<Rightarrow> ChunkBuffer2" where
  "cb_fill d b =
     (case cb_input_dest b of None \<Rightarrow> b | Some off \<Rightarrow> b\<lparr>cb_mem := write_at (nat off) d (cb_mem b)\<rparr>)"

lemma packets_at_snoc:
  assumes "packets_at mem lim p ds e" and "0 \<le> p" and "0 \<le> e" "e \<le> lim" and "length d < 2 ^ 31"
    and "nat (4 * e) + 4 + length d \<le> length mem"
  shows "packets_at (write_at (nat (4 * e)) (store32_le (of_nat (length d)) @ d) mem) lim p (ds @ [d]) (e + blocks d)"
proof -
  let ?bs = "store32_le (of_nat (length d)) @ d"
  have fit: "nat (4 * e) + length ?bs \<le> length mem" using assms(6) by simp
  have "packets_at (write_at (nat (4 * e)) ?bs mem) lim p ds e"
    using packets_at_write[OF assms(1,2) fit] assms(3) by simp
  moreover have "nat (4 * e + 4) = nat (4 * e) + 4" using assms(3) by simp
  ultimately show ?thesis
    using assms(3-5) fit by (simp add: packets_at_append write_at_def)
qed


definition put_packet :: "byte list \<Rightarrow> ChunkBuffer2 \<Rightarrow> ChunkBuffer2" where
  "put_packet d b =
     (let end = ChunkBuffer2_end b;
          b = b\<lparr>cb_mem := write_at (nat (4 * end)) (store32_le (of_nat (length d)) @ d) (cb_mem b),
                cb_used := cb_used b + blocks d\<rparr>
      in if cb_used b \<le> cb_wrap b - cb_start b \<and> cb_mtu b > cb_size b - (end + blocks d) - 1
         then b\<lparr>cb_wrap := end + blocks d\<rparr> else b)"

lemma put_packet_room:
  assumes "cb_pos_ok b" and "free_blocks b > 0" and "int (length d) \<le> (free_blocks b - 1) * 4"
  shows "ChunkBuffer2_end b + blocks d \<le> (if wrapped b then cb_start b else cb_size b)" "blocks d \<ge> 1"
    "length d < 2 ^ 31" "nat (4 * ChunkBuffer2_end b) + 4 + length d \<le> length (cb_mem b)"
proof -
  have "bdivide_up (int (length d)) 4 \<le> free_blocks b - 1" using assms(3) by (intro bdivide_up_le) simp_all
  then show r: "ChunkBuffer2_end b + blocks d \<le> (if wrapped b then cb_start b else cb_size b)"
    by (auto simp: free_blocks_def)
  show "blocks d \<ge> 1" using blocks_pos[of "length d"] by simp
  have p: "cb_start b \<le> cb_size b" "0 \<le> ChunkBuffer2_end b" "length (cb_mem b) = nat (4 * cb_size b)" "4 * cb_size b < 2 ^ 31"
    using assms(1) cb_pos_ok_end(1)[OF assms(1)] by (auto simp: cb_pos_ok_def)
  have "int (length d) \<le> 4 * bdivide_up (int (length d)) 4" by (simp add: bdivide_up_bounds)
  moreover have "ChunkBuffer2_end b + blocks d \<le> cb_size b" using r p(1) by (auto split: if_splits)
  ultimately have l: "4 * ChunkBuffer2_end b + 4 + int (length d) \<le> 4 * cb_size b" by presburger
  then show "nat (4 * ChunkBuffer2_end b) + 4 + length d \<le> length (cb_mem b)" using p by simp
  show "length d < 2 ^ 31" using l p by simp
qed

lemma put_packet_ok:
  assumes pos: "cb_pos_ok b" and data: "cb_data b ds" and fr: "free_blocks b > 0"
    and len: "int (length d) \<le> (free_blocks b - 1) * 4"
  shows "cb_pos_ok (put_packet d b)" "cb_data (put_packet d b) (ds @ [d])"
proof -
  note room = put_packet_room[OF pos fr len] and en = cb_pos_ok_end[OF pos]
  have pb: "0 \<le> cb_start b" "cb_start b < cb_wrap b" "cb_wrap b \<le> cb_size b" "0 \<le> cb_used b"
    "0 \<le> last_start b" using pos by (auto simp: cb_pos_ok_def)
  define e where "e = ChunkBuffer2_end b"
  define M where "M = write_at (nat (4 * e)) (store32_le (of_nat (length d)) @ d) (cb_mem b)"
  have lM: "length M = length (cb_mem b)" using room(4) by (simp add: M_def e_def)
  show "cb_pos_ok (put_packet d b)"
    using pos room en lM
    by (auto simp: put_packet_def Let_def cb_pos_ok_def M_def e_def ChunkBuffer2_end_def split: if_splits)
  show "cb_data (put_packet d b) (ds @ [d])"
  proof (cases "wrapped b")
    case True
    define b2 where "b2 = b\<lparr>cb_mem := M, cb_used := cb_used b + blocks d\<rparr>"
    have eq: "put_packet d b = b2"
      using True room(2) by (auto simp: put_packet_def Let_def b2_def M_def e_def)
    have e: "e = cb_used b - (cb_wrap b - cb_start b)" using True by (simp add: e_def ChunkBuffer2_end_def)
    obtain xs ys where xy: "ds = xs @ ys" "packets_at (cb_mem b) (last_start b) (cb_start b) xs (cb_wrap b)"
      "packets_at (cb_mem b) (last_start b) 0 ys e"
      using data True by (auto simp: cb_data_def e_def)
    have ys: "packets_at M (last_start b) 0 (ys @ [d]) (e + blocks d)"
      unfolding M_def using packets_at_snoc[OF xy(3)] en(1,2) room(3,4) by (simp add: e_def)
    have "int (nat (4 * e) + length (store32_le (of_nat (length d)) @ d)) \<le> 4 * cb_start b"
      using room(1) True en(1) bdivide_up_bounds(1)[of "int (length d)"] by (simp add: e_def)
    then have xs: "packets_at M (last_start b) (cb_start b) xs (cb_wrap b)"
      unfolding M_def using room(4) pb by (intro packets_at_write[OF xy(2)]) (auto simp: e_def)
    have "ds @ [d] = xs @ (ys @ [d])" using xy(1) by simp
    moreover have "wrapped b2" "ChunkBuffer2_end b2 = e + blocks d"
      using True room(2) e by (auto simp: b2_def ChunkBuffer2_end_def)
    ultimately show ?thesis unfolding eq cb_data_def using xs ys by (auto simp: b2_def)
  next
    case False
    then have e: "e = cb_start b + cb_used b" "cb_wrap b = cb_size b"
      using pos by (auto simp: e_def ChunkBuffer2_end_def cb_pos_ok_def)
    have "packets_at (cb_mem b) (last_start b) (cb_start b) ds e"
      using data False by (simp add: cb_data_def e_def)
    then have new: "packets_at M (last_start b) (cb_start b) (ds @ [d]) (e + blocks d)"
      unfolding M_def using packets_at_snoc[of "cb_mem b" "last_start b" "cb_start b" ds e d] en(1,2) room(3,4) pb
      by (simp add: e_def)
    have le: "e + blocks d \<le> cb_size b" using room(1) False by (simp add: e_def)
    show ?thesis
    proof (cases "last_start b < e + blocks d")
      case True
      then have "put_packet d b = b\<lparr>cb_mem := M, cb_used := cb_used b + blocks d, cb_wrap := e + blocks d\<rparr>"
        using e le by (auto simp: put_packet_def Let_def M_def e_def)
      then show ?thesis
        using new e by (simp add: cb_data_def ChunkBuffer2_end_def) (rule exI[of _ "ds @ [d]"], simp)
    next
      case False
      then have "put_packet d b = b\<lparr>cb_mem := M, cb_used := cb_used b + blocks d\<rparr>"
        by (auto simp: put_packet_def Let_def M_def e_def)
      moreover have "\<not> cb_used b + blocks d \<ge> cb_wrap b - cb_start b" using False e pos by (auto simp: cb_pos_ok_def)
      ultimately show ?thesis using new e by (auto simp: cb_data_def ChunkBuffer2_end_def algebra_simps)
    qed
  qed
qed


lemma cb_repD:
  assumes "cb_rep b ds"
  shows "cb_pos_ok b" "cb_data b ds" "input_ok b" "output_ok b ds" "ChunkBuffer2_assert_buffer b" "ChunkBuffer2_assert_io b"
  using assms assert_io_iff[of b ds] cb_pos_ok_assert by (auto simp: cb_rep_def)

lemma cb_repI: "cb_pos_ok b \<Longrightarrow> cb_data b ds \<Longrightarrow> input_ok b \<Longrightarrow> output_ok b ds \<Longrightarrow> cb_rep b ds"
  by (simp add: cb_rep_def assert_io_iff)

lemma update_output_rep:
  assumes "cb_pos_ok b" and "cb_data b ds" and "input_ok b"
  shows "\<exists>b'. ChunkBuffer2_update_output b = Inr b' \<and> cb_rep b' ds \<and> cb_mtu b' = cb_mtu b \<and> cb_size b' = cb_size b \<and>
    ChunkBuffer2_end b' = ChunkBuffer2_end b \<and> free_blocks b' = free_blocks b \<and> cb_start b' = cb_start b"
proof -
  obtain i a where u: "ChunkBuffer2_update_output b = Inr (b\<lparr>cb_output_dest := i, cb_output_avail := a\<rparr>)"
    "output_ok (b\<lparr>cb_output_dest := i, cb_output_avail := a\<rparr>) ds"
    using update_output_ok[OF assms(1,2)] by blast
  then have "cb_rep (b\<lparr>cb_output_dest := i, cb_output_avail := a\<rparr>) ds"
    using assms by (intro cb_repI) simp_all
  with u(1) show ?thesis by (simp add: ChunkBuffer2_end_def free_blocks_def)
qed

lemma update_input_rep:
  assumes "cb_pos_ok b"
  shows "cb_pos_ok (ChunkBuffer2_update_input b)" "input_ok (ChunkBuffer2_update_input b)"
    "cb_data (ChunkBuffer2_update_input b) ds = cb_data b ds" "cb_mtu (ChunkBuffer2_update_input b) = cb_mtu b"
    "cb_size (ChunkBuffer2_update_input b) = cb_size b"
    "ChunkBuffer2_end (ChunkBuffer2_update_input b) = ChunkBuffer2_end b"
    "free_blocks (ChunkBuffer2_update_input b) = free_blocks b"
proof -
  obtain i a where u: "ChunkBuffer2_update_input b = b\<lparr>cb_input_dest := i, cb_input_avail := a\<rparr>"
    "input_ok (b\<lparr>cb_input_dest := i, cb_input_avail := a\<rparr>)" using update_input_ok[OF assms] by blast
  show "cb_pos_ok (ChunkBuffer2_update_input b)" "input_ok (ChunkBuffer2_update_input b)"
    "cb_data (ChunkBuffer2_update_input b) ds = cb_data b ds" "cb_mtu (ChunkBuffer2_update_input b) = cb_mtu b"
    "cb_size (ChunkBuffer2_update_input b) = cb_size b"
    "ChunkBuffer2_end (ChunkBuffer2_update_input b) = ChunkBuffer2_end b"
    "free_blocks (ChunkBuffer2_update_input b) = free_blocks b"
    unfolding u(1) using u(2) assms by (simp_all add: ChunkBuffer2_end_def free_blocks_def)
qed

lemma Submit_step:
  assumes rep: "cb_rep b ds" and dest: "cb_input_dest b \<noteq> None" and len: "int (length d) \<le> cb_input_avail b"
  shows "\<exists>b'. ChunkBuffer2_SubmitPacket (int (length d)) (cb_fill d b) = Inr b' \<and> cb_rep b' (ds @ [d]) \<and>
    cb_mtu b' = cb_mtu b \<and> cb_size b' = cb_size b \<and> cb_start b' = cb_start b"
proof -
  note r = cb_repD[OF rep]
  define e where "e = ChunkBuffer2_end b"
  have fr: "free_blocks b > 0" and id: "cb_input_dest b = Some (4 * (e + 1))" and av: "cb_input_avail b = (free_blocks b - 1) * 4"
    using r(3) dest by (auto simp: input_ok_def e_def split: if_splits)
  note room = put_packet_room[OF r(1) fr len[unfolded av]]
    and put = put_packet_ok[OF r(1,2) fr len[unfolded av]]
    and en = cb_pos_ok_end[OF r(1)]
  define m1 where "m1 = write_at (nat (4 * e + 4)) d (cb_mem b)"
  have b1: "cb_fill d b = b\<lparr>cb_mem := m1\<rparr>" using id by (simp add: cb_fill_def m1_def)
  have fit: "nat (4 * e + 4) + length d \<le> length (cb_mem b)" using room(4) en(1) by (simp add: e_def)
  have pos1: "cb_pos_ok (b\<lparr>cb_mem := m1\<rparr>)"
    using r(1) length_write_at[OF fit] by (auto simp: cb_pos_ok_def m1_def split: if_splits)
  have far: "4 * q \<le> 4 * e + 4 \<or> 4 * (e + blocks d) \<le> 4 * p \<Longrightarrow> 0 \<le> p \<Longrightarrow> packets_at (cb_mem b) l p zs q \<Longrightarrow> packets_at m1 l p zs q" for p q l zs
    unfolding m1_def using fit en(1) bdivide_up_bounds(1)[of "int (length d)"]
    by (intro packets_at_write) (auto simp: e_def)
  have data1: "cb_data (b\<lparr>cb_mem := m1\<rparr>) ds"
  proof (cases "wrapped b")
    case True
    then obtain xs ys where xy: "ds = xs @ ys" "packets_at (cb_mem b) (last_start b) (cb_start b) xs (cb_wrap b)"
      "packets_at (cb_mem b) (last_start b) 0 ys e"
      using r(2) by (auto simp: cb_data_def e_def)
    have "0 \<le> cb_start b" "e + blocks d \<le> cb_start b" using r(1) room(1) True by (auto simp: cb_pos_ok_def e_def)
    then show ?thesis
      using True xy(1) far[OF _ _ xy(2)] far[OF _ _ xy(3)]
      by (intro cb_data_wrappedI[of _ ds xs ys]) (simp_all add: ChunkBuffer2_end_def e_def)
  next
    case False
    then show ?thesis
      using r(1,2) far[of e "cb_start b"] by (auto simp: cb_data_def ChunkBuffer2_end_def e_def cb_pos_ok_def)
  qed
  have io1: "ChunkBuffer2_assert_buffer (b\<lparr>cb_mem := m1\<rparr>)" "ChunkBuffer2_assert_io (b\<lparr>cb_mem := m1\<rparr>)"
    "ChunkBuffer2_end (b\<lparr>cb_mem := m1\<rparr>) = e"
    using cb_pos_ok_assert[OF pos1] assert_io_iff[OF pos1 data1] r(3,4)
    by (simp_all add: input_ok_def output_ok_def free_blocks_def ChunkBuffer2_end_def e_def split: list.splits)
  have mem: "set_block_len e (int (length d)) m1 = write_at (nat (4 * e)) (store32_le (of_nat (length d)) @ d) (cb_mem b)"
    using fit en(1) by (simp add: set_block_len_def m1_def write_at_def e_def nat_add_distrib add.assoc)
  define b2 where "b2 = put_packet d b"
  obtain i a where ui: "ChunkBuffer2_update_input b2 = b2\<lparr>cb_input_dest := i, cb_input_avail := a\<rparr>"
    "input_ok (b2\<lparr>cb_input_dest := i, cb_input_avail := a\<rparr>)"
    using update_input_ok[OF put(1)] by (auto simp: b2_def)
  define b3 where "b3 = b2\<lparr>cb_input_dest := i, cb_input_avail := a\<rparr>"
  have b3: "cb_pos_ok b3" "cb_data b3 (ds @ [d])" "input_ok b3" "cb_used b3 = cb_used b + blocks d"
    "cb_mtu b3 = cb_mtu b" "cb_size b3 = cb_size b" "cb_start b3 = cb_start b"
    "cb_output_dest b3 = cb_output_dest b" "cb_output_avail b3 = cb_output_avail b"
    using put ui(2) by (simp_all add: b3_def b2_def put_packet_def Let_def)
  obtain b4 where uo: "(if cb_used b3 = blocks d then ChunkBuffer2_update_output b3 else Inr b3) = Inr b4"
    "cb_rep b4 (ds @ [d])" "cb_mtu b4 = cb_mtu b" "cb_size b4 = cb_size b" "cb_start b4 = cb_start b"
  proof (cases "cb_used b3 = blocks d")
    case True
    obtain b4 where "ChunkBuffer2_update_output b3 = Inr b4" "cb_rep b4 (ds @ [d])" "cb_mtu b4 = cb_mtu b3"
      "cb_size b4 = cb_size b3" "cb_start b4 = cb_start b3" using update_output_rep[OF b3(1,2,3)] by blast
    then show thesis using True b3(5-7) that by simp
  next
    case False
    then have "ds \<noteq> []" using cb_data_first(1)[OF r(1,2)] b3(4) by auto
    then have "output_ok b3 (ds @ [d])" using r(4) b3(7-9) by (cases ds) (auto simp: output_ok_def)
    then show thesis using False b3 that by (auto intro!: cb_repI)
  qed
  have g: "cb_used b < cb_wrap b - cb_start b \<or> bdivide_up (int (length d)) 4 \<le> cb_start b - e - 1"
    "bdivide_up (int (length d)) 4 \<le> cb_size b - e - 1"
    using room(1) r(1) by (auto simp: e_def cb_pos_ok_def split: if_splits)
  have eq2: "commit_packet (int (length d)) (b\<lparr>cb_mem := m1\<rparr>) = b2"
    using io1(3) by (simp add: commit_packet_def b2_def put_packet_def Let_def mem[unfolded e_def] e_def add.assoc)
  have "ChunkBuffer2_assert_buffer b2" "ChunkBuffer2_assert_io b4"
    using cb_pos_ok_assert[OF put(1)] cb_repD(6)[OF uo(2)] by (simp_all add: b2_def)
  then have "ChunkBuffer2_SubmitPacket (int (length d)) (cb_fill d b) = Inr b4"
    using dest len io1 g uo(1)
    unfolding ChunkBuffer2_SubmitPacket_def b1 Let_def eq2 ui(1) b3_def[symmetric] by simp
  with uo show ?thesis by blast
qed

lemma Consume_step:
  assumes rep: "cb_rep b (d # ds)"
  shows "\<exists>b'. ChunkBuffer2_ConsumePacket b = Inr b' \<and> cb_rep b' ds \<and> cb_mtu b' = cb_mtu b \<and> cb_size b' = cb_size b \<and>
    ChunkBuffer2_end b' = ChunkBuffer2_end b \<and> free_blocks b \<le> free_blocks b'"
proof -
  note r = cb_repD[OF rep] and fp = first_packet_len[OF cb_repD(1,2)[OF rep]]
  have dest: "cb_output_dest b \<noteq> None" using r(4) by (simp add: output_ok_def)
  define k where "k = blocks d"
  define b1 where "b1 = b\<lparr>cb_start := cb_start b + k, cb_used := cb_used b - k\<rparr>"
  define b2 where "b2 = (if cb_start b1 = cb_wrap b1 then b1\<lparr>cb_start := 0, cb_wrap := cb_size b1\<rparr> else b1)"
  have k: "k \<ge> 1" "k \<le> cb_used b" "k \<le> cb_wrap b - cb_start b" using fp blocks_pos[of "length d"] by (simp_all add: k_def)
  have pb: "0 \<le> cb_start b" "cb_start b < cb_wrap b" "cb_wrap b \<le> cb_size b" "cb_used b \<le> cb_wrap b" "0 \<le> last_start b" "0 \<le> cb_mtu b"
    using r(1) by (auto simp: cb_pos_ok_def)
  have main: "cb_pos_ok b2 \<and> cb_data b2 ds \<and> (wrapped b \<or> input_ok b2)"
  proof (cases "wrapped b")
    case True
    define e where "e = ChunkBuffer2_end b"
    have e: "e = cb_used b - (cb_wrap b - cb_start b)" using True by (simp add: e_def ChunkBuffer2_end_def)
    have lw: "cb_start b \<le> last_start b" "last_start b < cb_wrap b" using r(1) True by (auto simp: cb_pos_ok_def)
    obtain xs ys where xy: "d # ds = xs @ ys" "packets_at (cb_mem b) (last_start b) (cb_start b) xs (cb_wrap b)"
      "packets_at (cb_mem b) (last_start b) 0 ys e"
      using r(2) True by (auto simp: cb_data_def e_def)
    obtain xs' where xs': "xs = d # xs'" using xy pb(2) by (cases xs) auto
    have rest: "packets_at (cb_mem b) (last_start b) (cb_start b + k) xs' (cb_wrap b)" "ds = xs' @ ys"
      using xy(1,2) by (simp_all add: xs' k_def)
    show ?thesis
    proof (cases "cb_start b + k = cb_wrap b")
      case eq: True
      then have b2: "b2 = b\<lparr>cb_start := 0, cb_used := cb_used b - k, cb_wrap := cb_size b\<rparr>"
        by (simp add: b2_def b1_def)
      have "xs' = []" using rest(1) eq packets_at_le[OF rest(1)] by simp
      moreover have "cb_used b - k = e" using e eq by simp
      moreover have "e \<le> cb_start b" "0 \<le> e" using cb_pos_ok_end[OF r(1)] True by (simp_all add: e_def)
      ultimately show ?thesis
        using True lw pb r(1) rest xy(3) unfolding b2
        by (auto simp: cb_pos_ok_def cb_data_def ChunkBuffer2_end_def)
    next
      case neq: False
      then have b2: "b2 = b1" by (simp add: b2_def b1_def)
      obtain x xs'' where "xs' = x # xs''" using rest(1) neq by (cases xs') auto
      then have "cb_start b + k \<le> last_start b" using rest(1) by simp
      then have "cb_pos_ok b1" using r(1) True k neq lw by (auto simp: cb_pos_ok_def b1_def)
      moreover have "cb_data b1 ds"
        using True rest xy(3) e
        by (intro cb_data_wrappedI[of _ ds xs' ys]) (simp_all add: b1_def ChunkBuffer2_end_def algebra_simps)
      ultimately show ?thesis using True b2 by simp
    qed
  next
    case False
    then have w: "cb_wrap b = cb_size b" "cb_start b + cb_used b \<le> last_start b" using r(1) by (auto simp: cb_pos_ok_def)
    then have b2: "b2 = b1" using k pb by (simp add: b2_def b1_def)
    have "cb_pos_ok b1" using r(1) False w k pb by (auto simp: cb_pos_ok_def b1_def)
    moreover have "cb_data b1 ds"
      using r(2) False by (simp add: cb_data_def b1_def ChunkBuffer2_end_def k_def)
    moreover have "input_ok b1"
      using r(3) False by (simp add: input_ok_def b1_def free_blocks_def ChunkBuffer2_end_def)
    ultimately show ?thesis using b2 by simp
  qed
  define b3 where "b3 = (if wrapped b then ChunkBuffer2_update_input b2 else b2)"
  have b3: "cb_pos_ok b3" "cb_data b3 ds" "input_ok b3" "cb_mtu b3 = cb_mtu b" "cb_size b3 = cb_size b"
    using main update_input_rep[of b2] unfolding b3_def by (auto simp: b2_def b1_def)
  from update_output_rep[OF b3(1-3)] obtain b4 where b4: "ChunkBuffer2_update_output b3 = Inr b4" "cb_rep b4 ds"
    "cb_mtu b4 = cb_mtu b" "cb_size b4 = cb_size b" "ChunkBuffer2_end b4 = ChunkBuffer2_end b3"
    "free_blocks b4 = free_blocks b3" using b3(4,5) by auto
  have "ChunkBuffer2_end b2 = ChunkBuffer2_end b \<and> free_blocks b \<le> free_blocks b2"
    using r(1) k pb by (auto simp: b2_def b1_def ChunkBuffer2_end_def free_blocks_def cb_pos_ok_def split: if_splits)
  moreover have "ChunkBuffer2_end b3 = ChunkBuffer2_end b2 \<and> free_blocks b3 = free_blocks b2"
    using main update_input_rep[of b2] by (simp add: b3_def)
  ultimately have en: "ChunkBuffer2_end b4 = ChunkBuffer2_end b \<and> free_blocks b \<le> free_blocks b4"
    using b4(5,6) by simp
  have g: "1 \<le> cb_wrap b - cb_start b \<and> 1 \<le> cb_used b"
    "bdivide_up (int (length d)) 4 \<le> cb_wrap b - cb_start b - 1 \<and> bdivide_up (int (length d)) 4 \<le> cb_used b - 1"
    using fp pb by auto
  have "ChunkBuffer2_ConsumePacket b = Inr b4"
    using dest r(5,6) g cb_pos_ok_assert[of b2] main b4(1) cb_repD(6)[OF b4(2)]
    unfolding ChunkBuffer2_ConsumePacket_def fp(1) Let_def k_def[symmetric] b1_def[symmetric] b2_def[symmetric] b3_def[symmetric]
    by simp
  with b4 en show ?thesis by blast
qed

lemma Init_step:
  assumes "0 \<le> mtu" and "bdivide_up mtu 4 + 1 \<le> sz" and "length mem = nat (4 * sz)" and "4 * sz < 2 ^ 31"
  shows "\<exists>b. ChunkBuffer2_Init mem sz mtu = Inr b \<and> cb_rep b [] \<and> cb_mtu b = bdivide_up mtu 4 \<and> cb_size b = sz"
proof -
  define b0 where "b0 = \<lparr>cb_mem = mem, cb_size = sz, cb_wrap = sz, cb_start = 0, cb_used = 0,
                cb_mtu = bdivide_up mtu 4, cb_input_dest = None, cb_input_avail = 0,
                cb_output_dest = None, cb_output_avail = 0\<rparr>"
  have m: "0 \<le> bdivide_up mtu 4" using assms(1) by (simp add: bdivide_up_bounds)
  have pos: "cb_pos_ok b0" and dat: "cb_data b0 []"
    using assms m by (auto simp: b0_def cb_pos_ok_def cb_data_def ChunkBuffer2_end_def)
  note ui = update_input_rep[OF pos]
  obtain b where b: "ChunkBuffer2_update_output (ChunkBuffer2_update_input b0) = Inr b" "cb_rep b []"
    "cb_mtu b = cb_mtu b0" "cb_size b = cb_size b0"
    using update_output_rep[OF ui(1) _ ui(2), of "[]"] dat ui(3-5) by auto
  have "ChunkBuffer2_Init mem sz mtu = Inr b"
    using assms m b(1) cb_pos_ok_assert[OF pos] cb_repD(6)[OF b(2)]
    unfolding ChunkBuffer2_Init_def Let_def b0_def[symmetric] by simp
  with b show ?thesis by (simp add: b0_def)
qed

section \<open>Capacity\<close>

lemma packets_at_size:
  assumes "packets_at mem lim p ds e" and "\<forall>d \<in> set ds. bdivide_up (int (length d)) 4 \<le> M"
  shows "e - p \<le> int (length ds) * (1 + M)"
  using assms
proof (induction ds arbitrary: p)
  case (Cons d ds)
  have "e - (p + blocks d) \<le> int (length ds) * (1 + M)" using Cons by simp
  moreover have "blocks d \<le> 1 + M" using Cons.prems(2) by simp
  ultimately show ?case by (simp add: algebra_simps)
qed simp

lemma room_for_another:
  assumes rep: "cb_rep b ds" and ds: "\<forall>d \<in> set ds. bdivide_up (int (length d)) 4 \<le> cb_mtu b"
    and sz: "cb_size b = (1 + cb_mtu b) * (num + 1)" and len: "int (length ds) < num"
  shows "cb_input_avail b \<ge> 4 * cb_mtu b" "cb_input_dest b = Some (4 * (ChunkBuffer2_end b + 1))"
proof -
  note r = cb_repD[OF rep]
  have "free_blocks b \<ge> 1 + cb_mtu b"
  proof (cases "wrapped b")
    case True
    then obtain xs ys where xy: "ds = xs @ ys" "packets_at (cb_mem b) (last_start b) (cb_start b) xs (cb_wrap b)"
      "packets_at (cb_mem b) (last_start b) 0 ys (ChunkBuffer2_end b)"
      using r(2) by (auto simp: cb_data_def)
    have "cb_wrap b - cb_start b + ChunkBuffer2_end b \<le> (int (length xs) + int (length ys)) * (1 + cb_mtu b)"
      using packets_at_size[OF xy(2), of "cb_mtu b"] packets_at_size[OF xy(3), of "cb_mtu b"] ds
      by (simp add: xy(1) algebra_simps)
    also have "\<dots> \<le> (num - 1) * (1 + cb_mtu b)"
      using len r(1) by (intro mult_right_mono) (auto simp: xy(1) cb_pos_ok_def)
    finally have "cb_wrap b - cb_start b + ChunkBuffer2_end b \<le> (num - 1) * (1 + cb_mtu b)" .
    moreover have "cb_size b - 1 - cb_mtu b < cb_wrap b" using r(1) True by (auto simp: cb_pos_ok_def)
    ultimately show ?thesis using True by (simp add: free_blocks_def sz algebra_simps)
  next
    case False
    then show ?thesis using cb_pos_ok_end(2)[OF r(1)] by (simp add: free_blocks_def)
  qed
  moreover have "0 \<le> cb_mtu b" using r(1) by (simp add: cb_pos_ok_def)
  ultimately show "cb_input_avail b \<ge> 4 * cb_mtu b" "cb_input_dest b = Some (4 * (ChunkBuffer2_end b + 1))"
    using r(3) by (auto simp: input_ok_def split: if_splits)
qed

end
