(* ===== verification/PacketBuffer.thy ===== *)
theory PacketBuffer
  imports ChunkBuffer2
begin

text \<open>
  \<^verbatim>\<open>tun2socks-iOS/flow/PacketBuffer.c\<close>: a queue between a packet source and a packet sink, on
  top of \<open>ChunkBuffer2\<close>.  The calls the handlers make on the two interfaces
  (\<open>PacketRecvInterface_Receiver_Recv\<close>, \<open>PacketPassInterface_Sender_Send\<close>) are part of
  their result.  \<open>pb_system\<close> puts the source and the sink around the buffer: a receive in progress
  writes to the place it was given and a send in progress reads the place it was given; asking for a
  second operation while one is in progress violates the assertion of the interface
  (\<open>state == NONE\<close>) and is the fault \<open>AssertFailed\<close>.
\<close>

section \<open>The interface of the store\<close>

locale packet_store =
  fixes rep :: "'s \<Rightarrow> byte list list \<Rightarrow> bool" and room :: "'s \<Rightarrow> nat \<Rightarrow> bool"
    and fill :: "byte list \<Rightarrow> 's \<Rightarrow> 's" and submit :: "nat \<Rightarrow> 's \<Rightarrow> 's run"
    and peek :: "'s \<Rightarrow> byte list" and consume :: "'s \<Rightarrow> 's run"
  assumes submit_ok: "rep s ds \<Longrightarrow> room s (length d) \<Longrightarrow>
      \<exists>s'. submit (length d) (fill d s) = Inr s' \<and> rep s' (ds @ [d])"
    and peek_ok: "rep s (d # ds) \<Longrightarrow> peek s = d"
    and consume_ok: "rep s (d # ds) \<Longrightarrow> \<exists>s'. consume s = Inr s' \<and> rep s' ds"
begin

text \<open>Taking out everything that is stored gives it in order.\<close>

fun drain :: "nat \<Rightarrow> 's \<Rightarrow> (byte list list \<times> 's) run" where
  "drain 0 s = Inr ([], s)"
| "drain (Suc n) s = bindE (consume s) (\<lambda>s'. bindE (drain n s') (\<lambda>(ps, s'). Inr (peek s # ps, s')))"

lemma drain_all: "rep s ds \<Longrightarrow> \<exists>s'. drain (length ds) s = Inr (ds, s') \<and> rep s' []"
proof (induction ds arbitrary: s)
  case (Cons d ds)
  from consume_ok[OF Cons.prems] obtain s' where s': "consume s = Inr s'" "rep s' ds" by blast
  from Cons.IH[OF s'(2)] s'(1) peek_ok[OF Cons.prems] show ?case by auto
qed auto

lemma submit_then_drain:
  assumes "rep s ds" and "room s (length d)"
  shows "\<exists>s1 s2. submit (length d) (fill d s) = Inr s1 \<and> drain (Suc (length ds)) s1 = Inr (ds @ [d], s2)"
proof -
  from submit_ok[OF assms] obtain s1 where s1: "submit (length d) (fill d s) = Inr s1" "rep s1 (ds @ [d])" by blast
  from drain_all[OF s1(2)] s1(1) show ?thesis by auto
qed

end

definition cb_room :: "ChunkBuffer2 \<Rightarrow> nat \<Rightarrow> bool" where
  "cb_room b n \<longleftrightarrow> cb_input_dest b \<noteq> None \<and> int n \<le> cb_input_avail b"

text \<open>The bytes at \<open>output_dest\<close>.\<close>

definition cb_peek :: "ChunkBuffer2 \<Rightarrow> byte list" where
  "cb_peek b = (case cb_output_dest b of None \<Rightarrow> []
     | Some off \<Rightarrow> take (nat (cb_output_avail b)) (drop (nat off) (cb_mem b)))"

lemma cb_peek_first:
  assumes "cb_rep b (d # ds)"
  shows "take (length d) (drop (nat (4 * (cb_start b + 1))) (cb_mem b)) = d" "cb_peek b = d"
  using cb_data_first(2)[OF cb_repD(1,2)[OF assms] refl] cb_repD(4)[OF assms]
  by (simp_all add: cb_peek_def output_ok_def algebra_simps)

interpretation cb: packet_store cb_rep cb_room cb_fill "\<lambda>n. ChunkBuffer2_SubmitPacket (int n)" cb_peek
  ChunkBuffer2_ConsumePacket
proof (unfold_locales, goal_cases)
  case (1 s ds d)
  then show ?case using Submit_step[of s ds d] by (auto simp: cb_room_def)
next
  case (2 s d ds)
  then show ?case by (rule cb_peek_first(2))
next
  case (3 s d ds)
  then show ?case using Consume_step[of s d ds] by blast
qed

section \<open>The packet buffer\<close>

record PacketBuffer =
  pb_buf :: ChunkBuffer2
  pb_input_mtu :: int

datatype pb_call = Recv "int option" | Send "int option" int

definition PacketBuffer_input_handler_done :: "int \<Rightarrow> PacketBuffer \<Rightarrow> (PacketBuffer \<times> pb_call list) run" where
  "PacketBuffer_input_handler_done in_len pb =
     bindE (guardE (in_len \<ge> 0 \<and> in_len \<le> pb_input_mtu pb) AssertFailed) (\<lambda>_.
       let was_empty = (cb_output_avail (pb_buf pb) < 0)
       in bindE (ChunkBuffer2_SubmitPacket in_len (pb_buf pb)) (\<lambda>b.
            Inr (pb\<lparr>pb_buf := b\<rparr>,
                 (if cb_input_avail b \<ge> pb_input_mtu pb then [Recv (cb_input_dest b)] else []) @
                 (if was_empty then [Send (cb_output_dest b) (cb_output_avail b)] else []))))"

definition PacketBuffer_output_handler_done :: "PacketBuffer \<Rightarrow> (PacketBuffer \<times> pb_call list) run" where
  "PacketBuffer_output_handler_done pb =
     (let was_full = (cb_input_avail (pb_buf pb) < pb_input_mtu pb)
      in bindE (ChunkBuffer2_ConsumePacket (pb_buf pb)) (\<lambda>b.
           Inr (pb\<lparr>pb_buf := b\<rparr>,
                (if was_full \<and> cb_input_avail b \<ge> pb_input_mtu pb then [Recv (cb_input_dest b)] else []) @
                (if cb_output_avail b \<ge> 0 then [Send (cb_output_dest b) (cb_output_avail b)] else []))))"

text \<open>
  \<open>alloc\<close> is \<open>BAllocArray\<close>: \<open>None\<close> when there is no memory.  The result \<open>None\<close> is the
  return value 0.
\<close>

definition PacketBuffer_Init ::
    "(int \<Rightarrow> byte list option) \<Rightarrow> int \<Rightarrow> int \<Rightarrow> (PacketBuffer \<times> pb_call list) option run" where
  "PacketBuffer_Init alloc mtu num_packets =
     bindE (guardE (num_packets > 0) AssertFailed) (\<lambda>_.
       case ChunkBuffer2_calc_blocks mtu num_packets of
         None \<Rightarrow> Inr None
       | Some num_blocks \<Rightarrow>
           (case alloc num_blocks of
              None \<Rightarrow> Inr None
            | Some mem \<Rightarrow>
                bindE (ChunkBuffer2_Init mem num_blocks mtu) (\<lambda>b.
                  Inr (Some (\<lparr>pb_buf = b, pb_input_mtu = mtu\<rparr>, [Recv (cb_input_dest b)])))))"

section \<open>Source, buffer and sink\<close>

record pb_system =
  sys_pb :: PacketBuffer
  sys_receiving :: "int option"
  sys_sending :: "(int \<times> int) option"
  sys_received :: "byte list list"
  sys_sent :: "byte list list"

fun make_call :: "pb_call \<Rightarrow> pb_system \<Rightarrow> pb_system run" where
  "make_call (Recv None) s = Inl OutOfBounds"
| "make_call (Recv (Some off)) s =
     (if sys_receiving s = None then Inr (s\<lparr>sys_receiving := Some off\<rparr>) else Inl AssertFailed)"
| "make_call (Send None len) s = Inl OutOfBounds"
| "make_call (Send (Some off) len) s =
     (if sys_sending s = None then Inr (s\<lparr>sys_sending := Some (off, len)\<rparr>) else Inl AssertFailed)"

fun make_calls :: "pb_call list \<Rightarrow> pb_system \<Rightarrow> pb_system run" where
  "make_calls [] s = Inr s"
| "make_calls (c # cs) s = bindE (make_call c s) (make_calls cs)"

text \<open>
  The source delivers a packet of at most the MTU when it was asked to; the sink finishes the packet
  it was given.  Other events do nothing.
\<close>

datatype pb_event = Deliver "byte list" | Finish

fun pb_step :: "pb_event \<Rightarrow> pb_system \<Rightarrow> pb_system run" where
  "pb_step (Deliver d) s =
     (case sys_receiving s of
        None \<Rightarrow> Inr s
      | Some off \<Rightarrow>
          if int (length d) \<le> pb_input_mtu (sys_pb s)
          then let b = pb_buf (sys_pb s);
                   pb = (sys_pb s)\<lparr>pb_buf := b\<lparr>cb_mem := write_at (nat off) d (cb_mem b)\<rparr>\<rparr>
               in bindE (PacketBuffer_input_handler_done (int (length d)) pb) (\<lambda>(pb, cs).
                    make_calls cs (s\<lparr>sys_pb := pb, sys_receiving := None, sys_received := sys_received s @ [d]\<rparr>))
          else Inr s)"
| "pb_step Finish s =
     (case sys_sending s of
        None \<Rightarrow> Inr s
      | Some (off, len) \<Rightarrow>
          let d = take (nat len) (drop (nat off) (cb_mem (pb_buf (sys_pb s))))
          in bindE (PacketBuffer_output_handler_done (sys_pb s)) (\<lambda>(pb, cs).
               make_calls cs (s\<lparr>sys_pb := pb, sys_sending := None, sys_sent := sys_sent s @ [d]\<rparr>)))"

fun pb_run :: "pb_event list \<Rightarrow> pb_system \<Rightarrow> pb_system run" where
  "pb_run [] s = Inr s"
| "pb_run (e # es) s = bindE (pb_step e s) (pb_run es)"

section \<open>The invariant\<close>

definition pb_inv :: "int \<Rightarrow> int \<Rightarrow> pb_system \<Rightarrow> byte list list \<Rightarrow> bool" where
  "pb_inv mtu num s ds \<longleftrightarrow>
     (let b = pb_buf (sys_pb s)
      in cb_rep b ds \<and> pb_input_mtu (sys_pb s) = mtu \<and> 0 \<le> mtu \<and> cb_mtu b = bdivide_up mtu 4 \<and>
         cb_size b = (1 + cb_mtu b) * (num + 1) \<and> (\<forall>d \<in> set ds. int (length d) \<le> mtu) \<and>
         sys_received s = sys_sent s @ ds \<and>
         sys_receiving s = (if cb_input_avail b \<ge> mtu then cb_input_dest b else None) \<and>
         sys_sending s = (case ds of [] \<Rightarrow> None | d # _ \<Rightarrow> Some (4 * (cb_start b + 1), int (length d))))"

lemma bdivide_up_mono: "0 \<le> a \<Longrightarrow> a \<le> b \<Longrightarrow> bdivide_up a 4 \<le> bdivide_up b 4"
  using bdivide_up_bounds[of b] by (intro bdivide_up_le) auto

lemma avail_dest: "cb_rep b ds \<Longrightarrow> 0 \<le> cb_input_avail b \<Longrightarrow>
   cb_input_dest b = Some (4 * (ChunkBuffer2_end b + 1)) \<and> cb_input_avail b = (free_blocks b - 1) * 4"
  using cb_repD(3)[of b ds] by (auto simp: input_ok_def split: if_splits)

text \<open>There is always room while fewer than \<open>num\<close> packets are stored.\<close>

lemma pb_inv_room:
  assumes "pb_inv mtu num s ds" and "int (length ds) < num"
  shows "sys_receiving s \<noteq> None"
proof -
  let ?b = "pb_buf (sys_pb s)"
  have r: "cb_rep ?b ds" "cb_mtu ?b = bdivide_up mtu 4" "cb_size ?b = (1 + cb_mtu ?b) * (num + 1)"
    "\<forall>d \<in> set ds. int (length d) \<le> mtu" "0 \<le> mtu"
    "sys_receiving s = (if cb_input_avail ?b \<ge> mtu then cb_input_dest ?b else None)"
    using assms(1) by (auto simp: pb_inv_def Let_def)
  have "\<forall>d \<in> set ds. bdivide_up (int (length d)) 4 \<le> cb_mtu ?b"
    using r(2,4,5) by (auto intro: bdivide_up_mono)
  from room_for_another[OF r(1) this r(3) assms(2)] have "cb_input_avail ?b \<ge> mtu" "cb_input_dest ?b \<noteq> None"
    using bdivide_up_bounds(1)[OF r(5)] r(2) by auto
  then show ?thesis using r(6) by simp
qed


lemma Deliver_step:
  assumes inv: "pb_inv mtu num s ds" and rc: "sys_receiving s \<noteq> None" and len: "int (length d) \<le> mtu"
  shows "\<exists>s'. pb_step (Deliver d) s = Inr s' \<and> pb_inv mtu num s' (ds @ [d]) \<and>
    sys_received s' = sys_received s @ [d] \<and> sys_sent s' = sys_sent s"
proof -
  let ?b = "pb_buf (sys_pb s)"
  have r: "cb_rep ?b ds" "cb_mtu ?b = bdivide_up mtu 4" "cb_size ?b = (1 + cb_mtu ?b) * (num + 1)" "pb_input_mtu (sys_pb s) = mtu"
    "\<forall>d \<in> set ds. int (length d) \<le> mtu" "0 \<le> mtu" "sys_received s = sys_sent s @ ds"
    "sys_receiving s = (if cb_input_avail ?b \<ge> mtu then cb_input_dest ?b else None)"
    "sys_sending s = (case ds of [] \<Rightarrow> None | d # _ \<Rightarrow> Some (4 * (cb_start ?b + 1), int (length d)))"
    using inv by (auto simp: pb_inv_def Let_def)
  have av: "cb_input_avail ?b \<ge> mtu" using rc r(8) by (auto split: if_splits)
  then obtain off where off: "cb_input_dest ?b = Some off" "sys_receiving s = Some off"
    using avail_dest[OF r(1)] r(6,8) by auto
  have fill: "?b\<lparr>cb_mem := write_at (nat off) d (cb_mem ?b)\<rparr> = cb_fill d ?b" using off by (simp add: cb_fill_def)
  obtain b' where b': "ChunkBuffer2_SubmitPacket (int (length d)) (cb_fill d ?b) = Inr b'" "cb_rep b' (ds @ [d])"
    "cb_mtu b' = cb_mtu ?b" "cb_size b' = cb_size ?b" "cb_start b' = cb_start ?b"
    using Submit_step[OF r(1), of d] off av len by auto
  have oa: "cb_output_avail (cb_fill d ?b) < 0 \<longleftrightarrow> ds = []"
    using cb_repD(4)[OF r(1)] off by (auto simp: cb_fill_def output_ok_def split: list.splits)
  define pb' where "pb' = (sys_pb s)\<lparr>pb_buf := b'\<rparr>"
  define cs where "cs = (if cb_input_avail b' \<ge> mtu then [Recv (cb_input_dest b')] else []) @
     (if ds = [] then [Send (cb_output_dest b') (cb_output_avail b')] else [])"
  have h: "PacketBuffer_input_handler_done (int (length d)) ((sys_pb s)\<lparr>pb_buf := cb_fill d ?b\<rparr>) = Inr (pb', cs)"
    using len r(4) b'(1) oa by (simp add: PacketBuffer_input_handler_done_def pb'_def cs_def Let_def)
  define s1 where "s1 = s\<lparr>sys_pb := pb', sys_receiving := None, sys_received := sys_received s @ [d]\<rparr>"
  define s2 where "s2 = s1\<lparr>sys_receiving := (if cb_input_avail b' \<ge> mtu then cb_input_dest b' else None),
     sys_sending := (case ds @ [d] of [] \<Rightarrow> None | d # _ \<Rightarrow> Some (4 * (cb_start b' + 1), int (length d)))\<rparr>"
  have dest: "cb_input_avail b' \<ge> mtu \<Longrightarrow> \<exists>o1. cb_input_dest b' = Some o1"
    using avail_dest[OF b'(2)] r(6) by auto
  have out: "cb_output_dest b' = Some (4 * (cb_start b' + 1))" "cb_output_avail b' = int (length (hd (ds @ [d])))"
    using cb_repD(4)[OF b'(2)] by (cases ds; simp add: output_ok_def)+
  have "make_calls cs s1 = Inr s2"
    using dest out r(9) b'(5) by (cases ds) (auto simp: cs_def s1_def s2_def)
  then have "pb_step (Deliver d) s = Inr s2"
    using off(2) len r(4) h by (simp add: Let_def fill s1_def)
  moreover have "pb_inv mtu num s2 (ds @ [d])"
    using b' r len by (simp add: pb_inv_def Let_def s2_def s1_def pb'_def)
  ultimately show ?thesis by (auto simp: s2_def s1_def)
qed


lemma Finish_step:
  assumes inv: "pb_inv mtu num s (d # ds)"
  shows "\<exists>s'. pb_step Finish s = Inr s' \<and> pb_inv mtu num s' ds \<and>
    sys_received s' = sys_received s \<and> sys_sent s' = sys_sent s @ [d]"
proof -
  let ?b = "pb_buf (sys_pb s)"
  have r: "cb_rep ?b (d # ds)" "cb_mtu ?b = bdivide_up mtu 4" "cb_size ?b = (1 + cb_mtu ?b) * (num + 1)" "pb_input_mtu (sys_pb s) = mtu"
    "\<forall>d \<in> set (d # ds). int (length d) \<le> mtu" "0 \<le> mtu" "sys_received s = sys_sent s @ d # ds"
    "sys_receiving s = (if cb_input_avail ?b \<ge> mtu then cb_input_dest ?b else None)"
    "sys_sending s = Some (4 * (cb_start ?b + 1), int (length d))"
    using inv by (auto simp: pb_inv_def Let_def)
  obtain b' where b': "ChunkBuffer2_ConsumePacket ?b = Inr b'" "cb_rep b' ds" "cb_mtu b' = cb_mtu ?b" "cb_size b' = cb_size ?b"
    "ChunkBuffer2_end b' = ChunkBuffer2_end ?b" "free_blocks ?b \<le> free_blocks b'"
    using Consume_step[OF r(1)] by blast
  have keep: "cb_input_avail ?b \<ge> mtu \<Longrightarrow> cb_input_avail b' \<ge> mtu \<and> cb_input_dest b' = cb_input_dest ?b"
    using avail_dest[OF r(1)] cb_repD(3)[OF b'(2)] b'(5,6) r(6) by (auto simp: input_ok_def split: if_splits)
  have dest: "cb_input_avail b' \<ge> mtu \<Longrightarrow> \<exists>o1. cb_input_dest b' = Some o1"
    using avail_dest[OF b'(2)] r(6) by auto
  have out: "ds = [] \<Longrightarrow> cb_output_avail b' = -1"
    "ds \<noteq> [] \<Longrightarrow> cb_output_dest b' = Some (4 * (cb_start b' + 1)) \<and> cb_output_avail b' = int (length (hd ds))"
    using cb_repD(4)[OF b'(2)] by (cases ds; simp add: output_ok_def)+
  define pb' where "pb' = (sys_pb s)\<lparr>pb_buf := b'\<rparr>"
  define cs where "cs = (if cb_input_avail ?b < mtu \<and> cb_input_avail b' \<ge> mtu then [Recv (cb_input_dest b')] else []) @
     (if ds \<noteq> [] then [Send (cb_output_dest b') (cb_output_avail b')] else [])"
  have h: "PacketBuffer_output_handler_done (sys_pb s) = Inr (pb', cs)"
    using r(4) b'(1) out by (cases "ds = []") (simp_all add: PacketBuffer_output_handler_done_def pb'_def cs_def Let_def)
  define s1 where "s1 = s\<lparr>sys_pb := pb', sys_sending := None, sys_sent := sys_sent s @ [d]\<rparr>"
  define s2 where "s2 = s1\<lparr>sys_receiving := (if cb_input_avail b' \<ge> mtu then cb_input_dest b' else None),
     sys_sending := (case ds of [] \<Rightarrow> None | d # _ \<Rightarrow> Some (4 * (cb_start b' + 1), int (length d)))\<rparr>"
  have "make_calls cs s1 = Inr s2"
    using dest out r(8) keep by (cases ds) (auto simp: cs_def s1_def s2_def)
  moreover have "take (nat (int (length d))) (drop (nat (4 * (cb_start ?b + 1))) (cb_mem ?b)) = d"
    using cb_peek_first(1)[OF r(1)] by simp
  ultimately have "pb_step Finish s = Inr s2"
    using r(9) h by (simp add: Let_def s1_def)
  moreover have "pb_inv mtu num s2 ds"
    using b' r by (simp add: pb_inv_def Let_def s2_def s1_def pb'_def)
  ultimately show ?thesis by (auto simp: s2_def s1_def)
qed


lemma pb_step_inv:
  assumes "pb_inv mtu num s ds"
  shows "\<exists>s' ds'. pb_step e s = Inr s' \<and> pb_inv mtu num s' ds'"
proof (cases e)
  case (Deliver d)
  then show ?thesis
    using Deliver_step[OF assms, of d] assms
    by (cases "sys_receiving s \<noteq> None \<and> int (length d) \<le> mtu")
      (auto simp: pb_inv_def Let_def split: option.splits)
next
  case Finish
  then show ?thesis
    using Finish_step[of mtu num s] assms by (cases ds) (auto simp: pb_inv_def Let_def)
qed

lemma pb_run_inv: "pb_inv mtu num s ds \<Longrightarrow> \<exists>s' ds'. pb_run es s = Inr s' \<and> pb_inv mtu num s' ds'"
proof (induction es arbitrary: s ds)
  case (Cons e es)
  from pb_step_inv[OF Cons.prems, of e] obtain s1 ds1 where "pb_step e s = Inr s1" "pb_inv mtu num s1 ds1" by blast
  with Cons.IH[of s1 ds1] show ?case by auto
qed auto

definition pb_idle :: "PacketBuffer \<Rightarrow> pb_system" where
  "pb_idle pb = \<lparr>sys_pb = pb, sys_receiving = None, sys_sending = None, sys_received = [], sys_sent = []\<rparr>"

text \<open>Setting up the buffer and making its first call.\<close>

definition pb_start :: "(int \<Rightarrow> byte list option) \<Rightarrow> int \<Rightarrow> int \<Rightarrow> pb_system option run" where
  "pb_start alloc mtu num =
     bindE (PacketBuffer_Init alloc mtu num) (\<lambda>r.
       case r of None \<Rightarrow> Inr None | Some (pb, cs) \<Rightarrow> bindE (make_calls cs (pb_idle pb)) (\<lambda>s. Inr (Some s)))"

lemma calc_blocks_eq:
  assumes "ChunkBuffer2_calc_blocks mtu num = Some n"
  shows "n = (1 + bdivide_up mtu 4) * (num + 1)"
  using assms by (auto simp: ChunkBuffer2_calc_blocks_def Let_def split: if_splits)

lemma pb_start_inv:
  assumes "0 \<le> mtu" and "0 < num" and "ChunkBuffer2_calc_blocks mtu num = Some n" and "4 * n < 2 ^ 31"
    and "alloc n = Some mem" and "length mem = nat (4 * n)"
  shows "\<exists>s. pb_start alloc mtu num = Inr (Some s) \<and> pb_inv mtu num s []"
proof -
  let ?M = "bdivide_up mtu 4"
  have M: "0 \<le> ?M" "mtu \<le> 4 * ?M" using assms(1) by (simp_all add: bdivide_up_bounds)
  have n: "n = (1 + ?M) * (num + 1)" using calc_blocks_eq[OF assms(3)] .
  have "(1 + ?M) * 1 \<le> (1 + ?M) * (num + 1)" using M(1) assms(2) by (intro mult_left_mono) auto
  then have "?M + 1 \<le> n" unfolding n by simp
  from Init_step[OF assms(1) this assms(6,4)] obtain b where b: "ChunkBuffer2_Init mem n mtu = Inr b" "cb_rep b []"
    "cb_mtu b = ?M" "cb_size b = n" by blast
  have av: "cb_input_avail b \<ge> 4 * cb_mtu b" "cb_input_dest b = Some (4 * (ChunkBuffer2_end b + 1))"
    using room_for_another[OF b(2), of num] b(3,4) n assms(2) by simp_all
  define pb where "pb = \<lparr>pb_buf = b, pb_input_mtu = mtu\<rparr>"
  have "PacketBuffer_Init alloc mtu num = Inr (Some (pb, [Recv (cb_input_dest b)]))"
    using assms(2,3,5) b(1) by (simp add: PacketBuffer_Init_def pb_def)
  then have "pb_start alloc mtu num = Inr (Some ((pb_idle pb)\<lparr>sys_receiving := cb_input_dest b\<rparr>))"
    using av(2) by (simp add: pb_start_def pb_idle_def)
  moreover have "pb_inv mtu num ((pb_idle pb)\<lparr>sys_receiving := cb_input_dest b\<rparr>) []"
    using b av M n assms(1) by (simp add: pb_inv_def Let_def pb_def pb_idle_def)
  ultimately show ?thesis by blast
qed

section \<open>Properties\<close>

text \<open>
  C8. The packet buffer is a first-in first-out queue: after \<open>PacketBuffer_Init\<close>, for every
  interleaving of packets delivered by the source (of at most the MTU, zero length included) and
  packets finished by the sink, no assertion of the ring buffer or of the interfaces fails, no
  pointer is null, and the packets the sink got are, in order and byte for byte, the first of those
  the source delivered.
\<close>

theorem packet_buffer_fifo:
  assumes "0 \<le> mtu" and "0 < num" and "ChunkBuffer2_calc_blocks mtu num = Some n" and "4 * n < 2 ^ 31"
    and "alloc n = Some mem" and "length mem = nat (4 * n)"
  shows "\<exists>s. pb_start alloc mtu num = Inr (Some s) \<and>
    (\<forall>es. \<exists>s' stored. pb_run es s = Inr s' \<and> sys_received s' = sys_sent s' @ stored)"
proof -
  obtain s where s: "pb_start alloc mtu num = Inr (Some s)" "pb_inv mtu num s []"
    using pb_start_inv[of mtu num n alloc mem] assms by blast
  have "\<exists>s' stored. pb_run es s = Inr s' \<and> sys_received s' = sys_sent s' @ stored" for es
    using pb_run_inv[OF s(2), of es] by (auto simp: pb_inv_def Let_def)
  with s(1) show ?thesis by blast
qed

theorem packet_buffer_fifo_witness:
  "\<exists>s. pb_start (\<lambda>n. Some (replicate (nat (4 * n)) 0)) 1500 3 = Inr (Some s) \<and>
    (\<forall>es. \<exists>s' stored. pb_run es s = Inr s' \<and> sys_received s' = sys_sent s' @ stored)"
proof -
  have "ChunkBuffer2_calc_blocks 1500 3 = Some 1504"
    by (simp add: ChunkBuffer2_calc_blocks_def bdivide_up_def Let_def)
  then show ?thesis
    using packet_buffer_fifo[of 1500 3 1504 "\<lambda>n. Some (replicate (nat (4 * n)) 0)" "replicate 6016 0"] by simp
qed

text \<open>
  The queue never stalls.  In every reachable state a receive is in progress unless
  \<open>num_packets\<close> packets or more are stored, although packets are never split at the end of the
  array, and a send is in progress whenever a packet is stored.
\<close>

theorem packet_buffer_live:
  assumes "0 \<le> mtu" and "0 < num" and "ChunkBuffer2_calc_blocks mtu num = Some n" and "4 * n < 2 ^ 31"
    and "alloc n = Some mem" and "length mem = nat (4 * n)"
    and "pb_start alloc mtu num = Inr (Some s)" and "pb_run es s = Inr s'"
  shows "(sys_receiving s' \<noteq> None \<or> int (length (sys_received s')) - int (length (sys_sent s')) \<ge> num) \<and>
    (sys_sending s' \<noteq> None \<or> sys_received s' = sys_sent s')"
proof -
  have "pb_inv mtu num s []" using pb_start_inv[of mtu num n alloc mem] assms(1-7) by simp
  from pb_run_inv[OF this, of es] assms(8) obtain ds where i: "pb_inv mtu num s' ds" by auto
  then have "sys_received s' = sys_sent s' @ ds" "ds \<noteq> [] \<Longrightarrow> sys_sending s' \<noteq> None"
    by (auto simp: pb_inv_def Let_def split: list.splits)
  then show ?thesis using pb_inv_room[OF i] by force
qed

theorem packet_buffer_live_witness:
  "\<exists>s. pb_start (\<lambda>n. Some (replicate (nat (4 * n)) 0)) 8 1 = Inr (Some s) \<and>
    (sys_receiving s \<noteq> None \<or> int (length (sys_received s)) - int (length (sys_sent s)) \<ge> 1) \<and>
    (sys_sending s \<noteq> None \<or> sys_received s = sys_sent s)"
proof -
  have c: "ChunkBuffer2_calc_blocks 8 1 = Some 6"
    by (simp add: ChunkBuffer2_calc_blocks_def bdivide_up_def Let_def)
  obtain s where s: "pb_start (\<lambda>n. Some (replicate (nat (4 * n)) 0)) 8 1 = Inr (Some s)"
    using pb_start_inv[of 8 1 6 "\<lambda>n. Some (replicate (nat (4 * n)) 0)" "replicate 24 0"] c by auto
  with packet_buffer_live[of 8 1 6 "\<lambda>n. Some (replicate (nat (4 * n)) 0)" "replicate 24 0" s "[]" s] c
  show ?thesis by simp
qed

end
