(* ===== verification/PacketProto.thy ===== *)
theory PacketProto
  imports C_Prelude
begin

text \<open>
  \<^verbatim>\<open>tun2socks-iOS/flow/PacketProtoEncoder.c\<close>, \<^verbatim>\<open>PacketProtoDecoder.c\<close>,
  \<^verbatim>\<open>PacketStreamSender.c\<close> and \<^verbatim>\<open>BufferWriter.c\<close>: packets over a byte stream, each with a
  16-bit little-endian length in front (\<^verbatim>\<open>protocol/packetproto.h\<close>).

  Buffers are byte lists and pointers into them offsets.  The calls a handler makes on its
  interfaces are part of its result.
\<close>

section \<open>The format\<close>

abbreviation PACKETPROTO_MAXPAYLOAD :: nat where "PACKETPROTO_MAXPAYLOAD \<equiv> 65535"

definition PACKETPROTO_ENCLEN :: "nat \<Rightarrow> nat" where
  "PACKETPROTO_ENCLEN len = 2 + len"

definition htol16 :: "u16 \<Rightarrow> byte list" where
  "htol16 x = [ucast x, ucast (drop_bit 8 x)]"

definition ltoh16 :: "byte list \<Rightarrow> u16" where
  "ltoh16 bs = ucast (byte_at bs 0) OR push_bit 8 (ucast (byte_at bs 1))"

lemma ltoh16_htol16 [simp]: "ltoh16 (htol16 x @ r) = x"
  by (auto simp: ltoh16_def htol16_def bit_eq_iff bit_simps)

lemma length_htol16 [simp, len_simps]: "length (htol16 x) = 2"
  by (simp add: htol16_def)

definition packet_bytes :: "byte list \<Rightarrow> byte list" where
  "packet_bytes d = htol16 (of_nat (length d)) @ d"

lemma length_packet_bytes [simp, len_simps]: "length (packet_bytes d) = 2 + length d"
  by (simp add: packet_bytes_def)

section \<open>Encoder\<close>

record PacketProtoEncoder =
  enc_mem :: "byte list"
  enc_output_packet :: "nat option"

text \<open>The result of the first handler is the offset where the input is to put its packet.\<close>

definition PacketProtoEncoder_output_handler_recv ::
    "nat \<Rightarrow> PacketProtoEncoder \<Rightarrow> (PacketProtoEncoder \<times> nat) run" where
  "PacketProtoEncoder_output_handler_recv data enc =
     bindE (guardE (enc_output_packet enc = None) AssertFailed) (\<lambda>_.
       Inr (enc\<lparr>enc_output_packet := Some data\<rparr>, data + 2))"

text \<open>The result of the second is the length reported to the output.\<close>

definition PacketProtoEncoder_input_handler_done ::
    "nat \<Rightarrow> PacketProtoEncoder \<Rightarrow> (PacketProtoEncoder \<times> nat) run" where
  "PacketProtoEncoder_input_handler_done in_len enc =
     (case enc_output_packet enc of
        None \<Rightarrow> Inl AssertFailed
      | Some p \<Rightarrow>
          if p + 2 \<le> length (enc_mem enc)
          then Inr (enc\<lparr>enc_mem := write_at p (htol16 (of_nat in_len)) (enc_mem enc), enc_output_packet := None\<rparr>,
                    PACKETPROTO_ENCLEN in_len)
          else Inl OutOfBounds)"

section \<open>Decoder\<close>

record PacketProtoDecoder =
  dec_buf :: "byte list"
  dec_output_mtu :: nat
  dec_buf_size :: nat
  dec_buf_start :: nat
  dec_buf_used :: nat

datatype dec_call = DecSend nat nat | DecRecv nat nat | DecError

definition process_data :: "PacketProtoDecoder \<Rightarrow> (PacketProtoDecoder \<times> dec_call list) run" where
  "process_data enc =
     (let data = dec_buf_start enc; left = dec_buf_used enc;
          data_len = unat (ltoh16 (take 2 (drop data (dec_buf enc))));
          was_error = (left \<ge> 2 \<and> data_len > dec_output_mtu enc)
      in if left \<ge> 2 \<and> data + 2 > length (dec_buf enc) then Inl OutOfBounds
         else if left \<ge> 2 \<and> \<not> was_error \<and> \<not> left - 2 < data_len
         then Inr (enc\<lparr>dec_buf_start := dec_buf_start enc + (2 + data_len),
                       dec_buf_used := dec_buf_used enc - (2 + data_len)\<rparr>,
                   [DecSend (data + 2) data_len])
         else
           bindE (if was_error then Inr (enc\<lparr>dec_buf_start := 0, dec_buf_used := 0\<rparr>)
                  else if dec_buf_start enc + dec_buf_used enc = dec_buf_size enc
                  then (if dec_buf_start enc + dec_buf_used enc \<le> length (dec_buf enc)
                        then Inr (enc\<lparr>dec_buf := write_at 0 (take (dec_buf_used enc) (drop (dec_buf_start enc) (dec_buf enc)))
                                                  (dec_buf enc),
                                      dec_buf_start := 0\<rparr>)
                        else Inl OutOfBounds)
                  else Inr enc) (\<lambda>enc.
             Inr (enc,
                  DecRecv (dec_buf_start enc + dec_buf_used enc)
                    (dec_buf_size enc - (dec_buf_start enc + dec_buf_used enc)) #
                  (if was_error then [DecError] else []))))"

definition PacketProtoDecoder_input_handler_done ::
    "nat \<Rightarrow> PacketProtoDecoder \<Rightarrow> (PacketProtoDecoder \<times> dec_call list) run" where
  "PacketProtoDecoder_input_handler_done data_len enc =
     bindE (guardE (data_len > 0) AssertFailed) (\<lambda>_.
     bindE (guardE (data_len + (dec_buf_start enc + dec_buf_used enc) \<le> dec_buf_size enc) AssertFailed) (\<lambda>_.
       process_data (enc\<lparr>dec_buf_used := dec_buf_used enc + data_len\<rparr>)))"

definition PacketProtoDecoder_output_handler_done ::
    "PacketProtoDecoder \<Rightarrow> (PacketProtoDecoder \<times> dec_call list) run" where
  "PacketProtoDecoder_output_handler_done enc = process_data enc"

text \<open>\<open>alloc\<close> is \<open>malloc\<close>; the result \<open>None\<close> is the return value 0.\<close>

definition PacketProtoDecoder_Init ::
    "(nat \<Rightarrow> byte list option) \<Rightarrow> nat \<Rightarrow> (PacketProtoDecoder \<times> dec_call list) option" where
  "PacketProtoDecoder_Init alloc mtu =
     (let output_mtu = min mtu PACKETPROTO_MAXPAYLOAD; buf_size = PACKETPROTO_ENCLEN output_mtu
      in case alloc buf_size of
           None \<Rightarrow> None
         | Some mem \<Rightarrow>
             Some (\<lparr>dec_buf = mem, dec_output_mtu = output_mtu, dec_buf_size = buf_size, dec_buf_start = 0,
                    dec_buf_used = 0\<rparr>, [DecRecv 0 buf_size]))"

definition PacketProtoDecoder_Reset :: "PacketProtoDecoder \<Rightarrow> PacketProtoDecoder" where
  "PacketProtoDecoder_Reset enc =
     enc\<lparr>dec_buf_start := dec_buf_start enc + dec_buf_used enc, dec_buf_used := 0\<rparr>"

section \<open>Stream, decoder and sink\<close>

datatype dec_op = Receiving nat nat | Sending nat nat

record dec_system =
  ds_dec :: PacketProtoDecoder
  ds_op :: "dec_op option"
  ds_in :: "byte list"
  ds_out :: "byte list list"
  ds_errors :: nat

fun dec_calls :: "dec_call list \<Rightarrow> dec_system \<Rightarrow> dec_system run" where
  "dec_calls [] s = Inr s"
| "dec_calls (DecSend off len # cs) s =
     (if ds_op s = None \<and> len \<le> dec_output_mtu (ds_dec s) then dec_calls cs (s\<lparr>ds_op := Some (Sending off len)\<rparr>)
      else Inl AssertFailed)"
| "dec_calls (DecRecv off len # cs) s =
     (if ds_op s = None \<and> len > 0 then dec_calls cs (s\<lparr>ds_op := Some (Receiving off len)\<rparr>) else Inl AssertFailed)"
| "dec_calls (DecError # cs) s = dec_calls cs (s\<lparr>ds_errors := Suc (ds_errors s)\<rparr>)"

text \<open>
  \<open>Arrive k\<close>: the connection delivers \<open>k\<close> bytes, but at least one and at most what the
  decoder asked for and what is left of the stream.  \<open>Sunk\<close>: the sink is done with its packet,
  which it reads from the buffer of the decoder.
\<close>

datatype dec_event = Arrive nat | Sunk

fun dec_step :: "dec_event \<Rightarrow> dec_system \<Rightarrow> dec_system run" where
  "dec_step (Arrive k) s =
     (case ds_op s of
        Some (Receiving off len) \<Rightarrow>
          if ds_in s = [] then Inr s
          else let n = min (max 1 k) (min len (length (ds_in s))); d = ds_dec s
               in if off + n \<le> length (dec_buf d)
                  then bindE (PacketProtoDecoder_input_handler_done n
                           (d\<lparr>dec_buf := write_at off (take n (ds_in s)) (dec_buf d)\<rparr>)) (\<lambda>(d, cs).
                         dec_calls cs (s\<lparr>ds_op := None, ds_in := drop n (ds_in s), ds_dec := d\<rparr>))
                  else Inl OutOfBounds
      | _ \<Rightarrow> Inr s)"
| "dec_step Sunk s =
     (case ds_op s of
        Some (Sending off len) \<Rightarrow>
          if off + len \<le> length (dec_buf (ds_dec s))
          then let p = take len (drop off (dec_buf (ds_dec s)))
               in bindE (PacketProtoDecoder_output_handler_done (ds_dec s)) (\<lambda>(d, cs).
                    dec_calls cs (s\<lparr>ds_op := None, ds_out := ds_out s @ [p], ds_dec := d\<rparr>))
          else Inl OutOfBounds
      | _ \<Rightarrow> Inr s)"

fun dec_run :: "dec_event list \<Rightarrow> dec_system \<Rightarrow> dec_system run" where
  "dec_run [] s = Inr s"
| "dec_run (e # es) s = bindE (dec_step e s) (dec_run es)"

definition dec_start :: "(nat \<Rightarrow> byte list option) \<Rightarrow> nat \<Rightarrow> byte list \<Rightarrow> dec_system option run" where
  "dec_start alloc mtu input =
     (case PacketProtoDecoder_Init alloc mtu of
        None \<Rightarrow> Inr None
      | Some (d, cs) \<Rightarrow>
          bindE (dec_calls cs \<lparr>ds_dec = d, ds_op = None, ds_in = input, ds_out = [], ds_errors = 0\<rparr>) (\<lambda>s.
            Inr (Some s)))"

section \<open>The invariant\<close>

text \<open>The bytes received and not yet processed.\<close>

definition buffered :: "PacketProtoDecoder \<Rightarrow> byte list" where
  "buffered d = take (dec_buf_used d) (drop (dec_buf_start d) (dec_buf d))"

definition dec_ok :: "PacketProtoDecoder \<Rightarrow> bool" where
  "dec_ok d \<longleftrightarrow> length (dec_buf d) = dec_buf_size d \<and> dec_buf_size d = 2 + dec_output_mtu d \<and>
     dec_output_mtu d \<le> PACKETPROTO_MAXPAYLOAD \<and> dec_buf_start d + dec_buf_used d \<le> dec_buf_size d"

text \<open>The length in front of the buffered bytes.\<close>

abbreviation head_len :: "byte list \<Rightarrow> nat" where
  "head_len bs \<equiv> unat (ltoh16 (take 2 bs))"

lemma length_buffered: "dec_ok d \<Longrightarrow> length (buffered d) = dec_buf_used d"
  by (auto simp: buffered_def dec_ok_def)

lemma head_len_buffered:
  "dec_ok d \<Longrightarrow> 2 \<le> dec_buf_used d \<Longrightarrow> take 2 (drop (dec_buf_start d) (dec_buf d)) = take 2 (buffered d)"
  by (simp add: buffered_def min_absorb1)

text \<open>The three outcomes of \<open>process_data\<close>.\<close>

lemma process_packet:
  assumes "dec_ok d" and "2 \<le> dec_buf_used d" and "head_len (buffered d) \<le> dec_output_mtu d"
    and "2 + head_len (buffered d) \<le> dec_buf_used d"
  shows "\<exists>d' off. process_data d = Inr (d', [DecSend off (head_len (buffered d))]) \<and> dec_ok d' \<and>
    dec_output_mtu d' = dec_output_mtu d \<and> buffered d' = drop (2 + head_len (buffered d)) (buffered d) \<and>
    off + head_len (buffered d) \<le> length (dec_buf d') \<and>
    take (head_len (buffered d)) (drop off (dec_buf d')) = take (head_len (buffered d)) (drop 2 (buffered d))"
proof -
  let ?n = "head_len (buffered d)" and ?s = "dec_buf_start d"
  define d' where "d' = d\<lparr>dec_buf_start := ?s + (2 + ?n), dec_buf_used := dec_buf_used d - (2 + ?n)\<rparr>"
  have in_buf: "\<not> ?s + 2 > length (dec_buf d)" using assms by (simp add: dec_ok_def)
  have "process_data d = Inr (d', [DecSend (?s + 2) ?n])"
    using assms in_buf unfolding process_data_def Let_def head_len_buffered[OF assms(1,2)] d'_def by simp
  moreover have "dec_ok d'" using assms by (auto simp: dec_ok_def d'_def)
  moreover have "buffered d' = drop (2 + ?n) (buffered d)"
    by (simp add: buffered_def d'_def drop_take add_ac)
  moreover have "take ?n (drop (?s + 2) (dec_buf d')) = take ?n (drop 2 (buffered d))"
    using assms by (simp add: d'_def buffered_def drop_take min_absorb1 add.commute)
  moreover have "?s + 2 + ?n \<le> length (dec_buf d')" using assms by (auto simp: dec_ok_def d'_def)
  ultimately show ?thesis by (intro exI[of _ d'] exI[of _ "?s + 2"]) (simp add: d'_def)
qed


lemma process_wait:
  assumes "dec_ok d" and "dec_buf_used d < 2 \<or> head_len (buffered d) \<le> dec_output_mtu d \<and> dec_buf_used d < 2 + head_len (buffered d)"
  shows "\<exists>d' off len. process_data d = Inr (d', [DecRecv off len]) \<and> dec_ok d' \<and>
    dec_output_mtu d' = dec_output_mtu d \<and> buffered d' = buffered d \<and> 0 < len \<and>
    off = dec_buf_start d' + dec_buf_used d' \<and> off + len = dec_buf_size d'"
proof -
  have in_buf: "\<not> (dec_buf_used d \<ge> 2 \<and> dec_buf_start d + 2 > length (dec_buf d))"
    and small: "dec_buf_used d < dec_buf_size d" and fit: "dec_buf_start d + dec_buf_used d \<le> length (dec_buf d)"
    using assms by (auto simp: dec_ok_def)
  have hl: "2 \<le> dec_buf_used d \<Longrightarrow> unat (ltoh16 (take 2 (drop (dec_buf_start d) (dec_buf d)))) = head_len (buffered d)"
    using head_len_buffered[OF assms(1)] by simp
  have ne: "\<not> (2 \<le> dec_buf_used d \<and> dec_output_mtu d < unat (ltoh16 (take 2 (drop (dec_buf_start d) (dec_buf d)))))"
    and nf: "\<not> (2 \<le> dec_buf_used d \<and> \<not> (2 \<le> dec_buf_used d \<and> dec_output_mtu d < unat (ltoh16 (take 2 (drop (dec_buf_start d) (dec_buf d)))))
        \<and> \<not> dec_buf_used d - 2 < unat (ltoh16 (take 2 (drop (dec_buf_start d) (dec_buf d)))))"
    using assms(2) hl by auto
  show ?thesis
  proof (cases "dec_buf_start d + dec_buf_used d = dec_buf_size d")
    case True
    define d' where "d' = d\<lparr>dec_buf := write_at 0 (buffered d) (dec_buf d), dec_buf_start := 0\<rparr>"
    have lb: "length (buffered d) = dec_buf_used d" using length_buffered[OF assms(1)] .
    have "process_data d = Inr (d', [DecRecv (dec_buf_used d) (dec_buf_size d - dec_buf_used d)])"
      using True fit unfolding process_data_def Let_def if_not_P[OF in_buf] if_not_P[OF ne] if_not_P[OF nf]
      by (simp add: d'_def buffered_def)
    moreover have "dec_ok d'" using assms(1) small lb by (simp add: dec_ok_def d'_def)
    moreover have "buffered d' = buffered d"
    proof -
      have "buffered d' = take (dec_buf_used d) (write_at 0 (buffered d) (dec_buf d))"
        unfolding buffered_def[of d'] by (simp add: d'_def)
      then show ?thesis
        using take_write_at_0[of "buffered d" "dec_buf d"] lb small assms(1) by (simp add: dec_ok_def)
    qed
    ultimately show ?thesis using small by (simp add: d'_def)
  next
    case False
    then have "process_data d = Inr (d, [DecRecv (dec_buf_start d + dec_buf_used d)
        (dec_buf_size d - (dec_buf_start d + dec_buf_used d))])"
      unfolding process_data_def Let_def if_not_P[OF in_buf] if_not_P[OF ne] if_not_P[OF nf] by simp
    moreover have "dec_buf_start d + dec_buf_used d < dec_buf_size d" using False assms(1) by (simp add: dec_ok_def)
    ultimately show ?thesis using assms(1) by simp
  qed
qed

lemma process_error:
  assumes "dec_ok d" and "2 \<le> dec_buf_used d" and "head_len (buffered d) > dec_output_mtu d"
  shows "\<exists>d'. process_data d = Inr (d', [DecRecv 0 (dec_buf_size d'), DecError]) \<and> dec_ok d' \<and>
    dec_output_mtu d' = dec_output_mtu d \<and> dec_buf_start d' = 0 \<and> dec_buf_used d' = 0 \<and> 0 < dec_buf_size d'"
proof -
  have in_buf: "\<not> dec_buf_start d + 2 > length (dec_buf d)" using assms by (simp add: dec_ok_def)
  have "process_data d = Inr (d\<lparr>dec_buf_start := 0, dec_buf_used := 0\<rparr>, [DecRecv 0 (dec_buf_size d), DecError])"
    using assms in_buf unfolding process_data_def Let_def head_len_buffered[OF assms(1,2)] by simp
  then show ?thesis using assms(1) by (simp add: dec_ok_def)
qed

text \<open>What holds of every state of the system.\<close>

definition dec_inv :: "dec_system \<Rightarrow> bool" where
  "dec_inv s \<longleftrightarrow> dec_ok (ds_dec s) \<and>
     (case ds_op s of
        None \<Rightarrow> False
      | Some (Receiving off len) \<Rightarrow>
          off = dec_buf_start (ds_dec s) + dec_buf_used (ds_dec s) \<and> off + len = dec_buf_size (ds_dec s) \<and> 0 < len
      | Some (Sending off len) \<Rightarrow> off + len \<le> length (dec_buf (ds_dec s)))"

lemma process_inv:
  assumes "dec_ok d" and "ds_op s = None"
  shows "\<exists>s'. bindE (process_data d) (\<lambda>(d, cs). dec_calls cs (s\<lparr>ds_dec := d\<rparr>)) = Inr s' \<and> dec_inv s'"
proof -
  consider (packet) "2 \<le> dec_buf_used d" "head_len (buffered d) \<le> dec_output_mtu d" "2 + head_len (buffered d) \<le> dec_buf_used d"
    | (wait) "dec_buf_used d < 2 \<or> head_len (buffered d) \<le> dec_output_mtu d \<and> dec_buf_used d < 2 + head_len (buffered d)"
    | (err) "2 \<le> dec_buf_used d" "head_len (buffered d) > dec_output_mtu d"
    by linarith
  then show ?thesis
  proof cases
    case packet
    then show ?thesis using process_packet[OF assms(1) packet] assms(2) by (auto simp: dec_inv_def)
  next
    case wait
    then show ?thesis using process_wait[OF assms(1) wait] assms(2) by (auto simp: dec_inv_def)
  next
    case err
    then show ?thesis using process_error[OF assms(1) err] assms(2) by (auto simp: dec_inv_def)
  qed
qed

text \<open>Receiving \<open>n\<close> bytes extends the buffered bytes.\<close>

lemma receive_ok:
  assumes "dec_ok d" and "off = dec_buf_start d + dec_buf_used d" and "off + length bs \<le> dec_buf_size d"
  defines "d1 \<equiv> d\<lparr>dec_buf := write_at off bs (dec_buf d), dec_buf_used := dec_buf_used d + length bs\<rparr>"
  shows "dec_ok d1" "buffered d1 = buffered d @ bs" "dec_output_mtu d1 = dec_output_mtu d"
proof -
  have l: "off + length bs \<le> length (dec_buf d)" using assms(1,3) by (simp add: dec_ok_def)
  show "dec_ok d1" using assms(1,2,3) l by (simp add: dec_ok_def d1_def)
  have "take (off + length bs) (write_at off bs (dec_buf d)) = take off (dec_buf d) @ bs"
    using l by (rule take_write_at_end)
  then have "drop (dec_buf_start d) (take (off + length bs) (write_at off bs (dec_buf d)))
      = drop (dec_buf_start d) (take off (dec_buf d)) @ bs" using assms(2) l by simp
  then show "buffered d1 = buffered d @ bs"
    by (simp add: buffered_def d1_def drop_take assms(2))
  show "dec_output_mtu d1 = dec_output_mtu d" by (simp add: d1_def)
qed


lemma dec_step_inv:
  assumes inv: "dec_inv s"
  shows "\<exists>s'. dec_step e s = Inr s' \<and> dec_inv s'"
proof (cases e)
  case (Arrive k)
  show ?thesis
  proof (cases "\<exists>off len. ds_op s = Some (Receiving off len) \<and> ds_in s \<noteq> []")
    case True
    then obtain off len where op: "ds_op s = Some (Receiving off len)" "ds_in s \<noteq> []" by blast
    define n where "n = min (max 1 k) (min len (length (ds_in s)))"
    define bs where "bs = take n (ds_in s)"
    have i: "dec_ok (ds_dec s)" "off = dec_buf_start (ds_dec s) + dec_buf_used (ds_dec s)" "off + len = dec_buf_size (ds_dec s)" "0 < len"
      using inv op by (auto simp: dec_inv_def)
    have n: "length bs = n" "0 < n" "n \<le> len" using op(2) i(4) by (auto simp: n_def bs_def)
    let ?d = "(ds_dec s)\<lparr>dec_buf := write_at off bs (dec_buf (ds_dec s))\<rparr>"
    have "dec_ok (?d\<lparr>dec_buf_used := dec_buf_used ?d + n\<rparr>)"
      using receive_ok(1)[OF i(1,2), of bs] n i(3) by simp
    from process_inv[OF this, of "s\<lparr>ds_op := None, ds_in := drop n (ds_in s)\<rparr>"]
    obtain s' where s': "bindE (process_data (?d\<lparr>dec_buf_used := dec_buf_used ?d + n\<rparr>))
        (\<lambda>(d, cs). dec_calls cs (s\<lparr>ds_op := None, ds_in := drop n (ds_in s), ds_dec := d\<rparr>)) = Inr s'" "dec_inv s'" by auto
    have "PacketProtoDecoder_input_handler_done n ?d = process_data (?d\<lparr>dec_buf_used := dec_buf_used ?d + n\<rparr>)"
      using n i by (simp add: PacketProtoDecoder_input_handler_done_def)
    moreover have "off + n \<le> length (dec_buf (ds_dec s))" using n i(1,3) by (simp add: dec_ok_def)
    ultimately show ?thesis
      using s' op unfolding Arrive dec_step.simps op(1) option.case dec_op.case n_def[symmetric] bs_def[symmetric] Let_def
      by (simp add: case_prod_beta)
  next
    case False
    then have "dec_step e s = Inr s" using Arrive by (auto split: option.splits dec_op.splits)
    then show ?thesis using inv by simp
  qed
next
  case Sunk
  show ?thesis
  proof (cases "\<exists>off len. ds_op s = Some (Sending off len)")
    case True
    then obtain off len where op: "ds_op s = Some (Sending off len)" by blast
    have i: "dec_ok (ds_dec s)" "off + len \<le> length (dec_buf (ds_dec s))" using inv op by (auto simp: dec_inv_def)
    from process_inv[OF i(1), of "s\<lparr>ds_op := None, ds_out := ds_out s @ [take len (drop off (dec_buf (ds_dec s)))]\<rparr>"]
    show ?thesis
      using op i(2) by (simp add: Sunk Let_def PacketProtoDecoder_output_handler_done_def case_prod_beta)
  next
    case False
    then have "dec_step e s = Inr s" using Sunk by (auto split: option.splits dec_op.splits)
    then show ?thesis using inv by simp
  qed
qed

lemma dec_run_inv: "dec_inv s \<Longrightarrow> \<exists>s'. dec_run es s = Inr s' \<and> dec_inv s'"
proof (induction es arbitrary: s)
  case (Cons e es)
  from dec_step_inv[OF Cons.prems, of e] obtain s1 where "dec_step e s = Inr s1" "dec_inv s1" by blast
  with Cons.IH[of s1] show ?case by auto
qed auto

lemma dec_start_inv:
  assumes "\<And>n. length (mem n) = n"
  shows "\<exists>s. dec_start (\<lambda>n. Some (mem n)) mtu input = Inr (Some s) \<and> dec_inv s \<and> ds_in s = input \<and> ds_out s = [] \<and>
    ds_errors s = 0 \<and> buffered (ds_dec s) = [] \<and> dec_output_mtu (ds_dec s) = min mtu PACKETPROTO_MAXPAYLOAD \<and>
    (\<exists>off len. ds_op s = Some (Receiving off len))"
  using assms
  by (simp add: dec_start_def PacketProtoDecoder_Init_def Let_def PACKETPROTO_ENCLEN_def dec_inv_def dec_ok_def buffered_def)


section \<open>Well-formed streams\<close>

definition incomplete :: "PacketProtoDecoder \<Rightarrow> bool" where
  "incomplete d \<longleftrightarrow> dec_buf_used d < 2 \<or> dec_buf_used d < 2 + head_len (buffered d)"

definition rt_inv :: "byte list list \<Rightarrow> dec_system \<Rightarrow> bool" where
  "rt_inv ps s \<longleftrightarrow> dec_inv s \<and> ds_errors s = 0 \<and>
     (\<forall>p \<in> set ps. length p \<le> dec_output_mtu (ds_dec s)) \<and>
     (\<exists>rest. buffered (ds_dec s) @ ds_in s = concat (map packet_bytes rest) \<and>
        (case ds_op s of
           Some (Sending off len) \<Rightarrow> ds_out s @ take len (drop off (dec_buf (ds_dec s))) # rest = ps
         | _ \<Rightarrow> ds_out s @ rest = ps \<and> incomplete (ds_dec s)))"

lemma head_len_packet:
  assumes "length p \<le> PACKETPROTO_MAXPAYLOAD" and "bs @ r = packet_bytes p @ r'" and "2 \<le> length bs"
  shows "head_len bs = length p"
proof -
  have "take 2 bs = take 2 (bs @ r)" using assms(3) by simp
  also have "\<dots> = htol16 (of_nat (length p))" unfolding assms(2) by (simp add: packet_bytes_def)
  finally show ?thesis
    using assms(1) ltoh16_htol16[of "of_nat (length p)" "[]"] by (simp add: unat_of_nat take_bit_eq_mod)
qed

lemma process_rt:
  assumes ok: "dec_ok d" and s: "ds_op s = None" "ds_errors s = 0"
    and ps: "\<forall>p \<in> set ps. length p \<le> dec_output_mtu d"
    and rest: "buffered d @ ds_in s = concat (map packet_bytes rest)" "ds_out s @ rest = ps"
  shows "\<exists>s'. bindE (process_data d) (\<lambda>(d, cs). dec_calls cs (s\<lparr>ds_dec := d\<rparr>)) = Inr s' \<and> rt_inv ps s' \<and>
    ds_in s' = ds_in s \<and> ds_out s' = ds_out s"
proof -
  note lb = length_buffered[OF ok]
  have head: "head_len (buffered d) \<le> dec_output_mtu d" if "2 \<le> dec_buf_used d"
  proof (cases rest)
    case Nil
    then show ?thesis using rest(1) lb that by auto
  next
    case (Cons p rest')
    have "length p \<le> dec_output_mtu d" using ps rest(2) Cons by auto
    moreover have "head_len (buffered d) = length p"
      using head_len_packet[of p "buffered d" "ds_in s" "concat (map packet_bytes rest')"] rest(1) Cons that lb ok calculation
      by (simp add: dec_ok_def)
    ultimately show ?thesis by simp
  qed
  show ?thesis
  proof (cases "incomplete d")
    case True
    then have "dec_buf_used d < 2 \<or> head_len (buffered d) \<le> dec_output_mtu d \<and> dec_buf_used d < 2 + head_len (buffered d)"
      using head by (auto simp: incomplete_def)
    from process_wait[OF ok this] obtain d' off len where d': "process_data d = Inr (d', [DecRecv off len])" "dec_ok d'"
      "dec_output_mtu d' = dec_output_mtu d" "buffered d' = buffered d" "0 < len"
      "off = dec_buf_start d' + dec_buf_used d'" "off + len = dec_buf_size d'" by blast
    have "dec_buf_used d' = dec_buf_used d" using length_buffered[OF d'(2)] lb d'(4) by simp
    then have "incomplete d'" using True d'(4) by (simp add: incomplete_def)
    then show ?thesis using d' s ps rest by (auto simp: rt_inv_def dec_inv_def)
  next
    case False
    then have c: "2 \<le> dec_buf_used d" "2 + head_len (buffered d) \<le> dec_buf_used d" by (auto simp: incomplete_def)
    obtain p rest' where r: "rest = p # rest'" using rest(1) lb c(1) by (cases rest) auto
    have lp: "length p \<le> dec_output_mtu d" using ps rest(2) r by auto
    have hl: "head_len (buffered d) = length p"
      using head_len_packet[of p "buffered d" "ds_in s" "concat (map packet_bytes rest')"] rest(1) r c(1) lb ok lp
      by (simp add: dec_ok_def)
    obtain d' off where d': "process_data d = Inr (d', [DecSend off (length p)])" "dec_ok d'"
      "dec_output_mtu d' = dec_output_mtu d" "buffered d' = drop (2 + length p) (buffered d)"
      "off + length p \<le> length (dec_buf d')" "take (length p) (drop off (dec_buf d')) = take (length p) (drop 2 (buffered d))"
      using process_packet[OF ok c(1) head[OF c(1)] c(2)] unfolding hl by blast
    define B where "B = buffered d"
    have Bl: "2 + length p \<le> length B" using c(2) hl lb by (simp add: B_def)
    have whole: "B @ ds_in s = packet_bytes p @ concat (map packet_bytes rest')" using rest(1) r by (simp add: B_def)
    have "take (2 + length p) B = packet_bytes p"
      using arg_cong[OF whole, of "take (2 + length p)"] Bl by simp
    then have "take (length p) (drop 2 B) = p" by (simp add: take_drop packet_bytes_def add.commute)
    moreover have "drop (2 + length p) B @ ds_in s = concat (map packet_bytes rest')"
      using arg_cong[OF whole, of "drop (2 + length p)"] Bl by simp
    ultimately show ?thesis
      using d' s ps rest(2) r lp by (auto simp: rt_inv_def dec_inv_def B_def)
  qed
qed

lemma dec_step_rt:
  assumes inv: "rt_inv ps s"
  shows "\<exists>s'. dec_step e s = Inr s' \<and> rt_inv ps s'"
    and "\<exists>off len. ds_op s = Some (Receiving off len) \<Longrightarrow> ds_in s \<noteq> [] \<Longrightarrow>
      \<exists>s'. dec_step (Arrive k) s = Inr s' \<and> length (ds_in s') < length (ds_in s) \<and> ds_out s' = ds_out s"
    and "\<exists>off len. ds_op s = Some (Sending off len) \<Longrightarrow>
      \<exists>s'. dec_step Sunk s = Inr s' \<and> ds_in s' = ds_in s \<and> length (ds_out s') = Suc (length (ds_out s))"
proof -
  have i: "dec_inv s" "ds_errors s = 0" "\<forall>p \<in> set ps. length p \<le> dec_output_mtu (ds_dec s)"
    using inv by (auto simp: rt_inv_def)
  have arrive: "\<exists>s'. dec_step (Arrive k) s = Inr s' \<and> rt_inv ps s' \<and> length (ds_in s') < length (ds_in s) \<and> ds_out s' = ds_out s"
    if op: "ds_op s = Some (Receiving off len)" "ds_in s \<noteq> []" for off len k
  proof -
    define n where "n = min (max 1 k) (min len (length (ds_in s)))"
    define bs where "bs = take n (ds_in s)"
    have j: "dec_ok (ds_dec s)" "off = dec_buf_start (ds_dec s) + dec_buf_used (ds_dec s)" "off + len = dec_buf_size (ds_dec s)" "0 < len"
      using i(1) op by (auto simp: dec_inv_def)
    have n: "length bs = n" "0 < n" "n \<le> len" "bs @ drop n (ds_in s) = ds_in s" using op(2) j(4) by (auto simp: n_def bs_def)
    let ?d = "(ds_dec s)\<lparr>dec_buf := write_at off bs (dec_buf (ds_dec s))\<rparr>"
    let ?d1 = "(ds_dec s)\<lparr>dec_buf := write_at off bs (dec_buf (ds_dec s)), dec_buf_used := dec_buf_used (ds_dec s) + n\<rparr>"
    have rc: "dec_ok ?d1" "buffered ?d1 = buffered (ds_dec s) @ bs" "dec_output_mtu ?d1 = dec_output_mtu (ds_dec s)"
      using receive_ok[OF j(1,2), of bs] n j(3) by simp_all
    obtain rest where rest: "buffered (ds_dec s) @ ds_in s = concat (map packet_bytes rest)" "ds_out s @ rest = ps"
      using inv op by (auto simp: rt_inv_def)
    from process_rt[OF rc(1), of "s\<lparr>ds_op := None, ds_in := drop n (ds_in s)\<rparr>" ps rest]
    obtain s' where s': "bindE (process_data ?d1)
        (\<lambda>(d, cs). dec_calls cs (s\<lparr>ds_op := None, ds_in := drop n (ds_in s), ds_dec := d\<rparr>)) = Inr s'" "rt_inv ps s'"
      "ds_in s' = drop n (ds_in s)" "ds_out s' = ds_out s"
      using i rc rest n(4) by auto
    have "PacketProtoDecoder_input_handler_done n ?d = process_data ?d1"
      using n j by (simp add: PacketProtoDecoder_input_handler_done_def)
    moreover have "off + n \<le> length (dec_buf (ds_dec s))" using n j(1,3) by (simp add: dec_ok_def)
    ultimately have "dec_step (Arrive k) s = Inr s'"
      using s' op unfolding dec_step.simps op(1) option.case dec_op.case n_def[symmetric] bs_def[symmetric] Let_def
      by (simp add: case_prod_beta)
    moreover have "length (ds_in s') < length (ds_in s)" using s'(3) n(2) op(2) by simp
    ultimately show ?thesis using s' by blast
  qed
  have sunk: "\<exists>s'. dec_step Sunk s = Inr s' \<and> rt_inv ps s' \<and> ds_in s' = ds_in s \<and> length (ds_out s') = Suc (length (ds_out s))"
    if op: "ds_op s = Some (Sending off len)" for off len
  proof -
    have j: "dec_ok (ds_dec s)" "off + len \<le> length (dec_buf (ds_dec s))" using i(1) op by (auto simp: dec_inv_def)
    let ?p = "take len (drop off (dec_buf (ds_dec s)))"
    obtain rest where rest: "buffered (ds_dec s) @ ds_in s = concat (map packet_bytes rest)" "ds_out s @ ?p # rest = ps"
      using inv op by (auto simp: rt_inv_def)
    from process_rt[OF j(1), of "s\<lparr>ds_op := None, ds_out := ds_out s @ [?p]\<rparr>" ps rest] i rest
    show ?thesis using op j(2) by (auto simp: Let_def PacketProtoDecoder_output_handler_done_def case_prod_beta)
  qed
  have "dec_step (Arrive k) s = Inr s" if "\<nexists>off len. ds_op s = Some (Receiving off len) \<and> ds_in s \<noteq> []" for k
    using that by (auto split: option.splits dec_op.splits)
  moreover have "dec_step Sunk s = Inr s" if "\<nexists>off len. ds_op s = Some (Sending off len)"
    using that by (auto split: option.splits dec_op.splits)
  ultimately show "\<exists>s'. dec_step e s = Inr s' \<and> rt_inv ps s'"
    using arrive sunk inv by (cases e) blast+
  show "\<exists>off len. ds_op s = Some (Receiving off len) \<Longrightarrow> ds_in s \<noteq> [] \<Longrightarrow>
      \<exists>s'. dec_step (Arrive k) s = Inr s' \<and> length (ds_in s') < length (ds_in s) \<and> ds_out s' = ds_out s"
    using arrive by blast
  show "\<exists>off len. ds_op s = Some (Sending off len) \<Longrightarrow>
      \<exists>s'. dec_step Sunk s = Inr s' \<and> ds_in s' = ds_in s \<and> length (ds_out s') = Suc (length (ds_out s))"
    using sunk by blast
qed


lemma dec_run_rt: "rt_inv ps s \<Longrightarrow> \<exists>s'. dec_run es s = Inr s' \<and> rt_inv ps s'"
proof (induction es arbitrary: s)
  case (Cons e es)
  from dec_step_rt(1)[OF Cons.prems, of e] obtain s1 where "dec_step e s = Inr s1" "rt_inv ps s1" by blast
  with Cons.IH[of s1] show ?case by auto
qed auto

text \<open>When the stream is used up and the decoder waits, everything was delivered.\<close>

lemma rt_inv_end:
  assumes "rt_inv ps s" and "ds_op s = Some (Receiving off len)" and "ds_in s = []"
  shows "ds_out s = ps"
proof -
  obtain rest where r: "buffered (ds_dec s) = concat (map packet_bytes rest)" "ds_out s @ rest = ps" "incomplete (ds_dec s)"
    "dec_ok (ds_dec s)" "\<forall>p \<in> set ps. length p \<le> dec_output_mtu (ds_dec s)"
    using assms by (auto simp: rt_inv_def dec_inv_def)
  have "rest = []"
  proof (rule ccontr)
    assume "rest \<noteq> []"
    then obtain p rest' where p: "rest = p # rest'" by (cases rest) auto
    have "length p \<le> PACKETPROTO_MAXPAYLOAD" using r(2,4,5) p by (auto simp: dec_ok_def)
    moreover have b: "buffered (ds_dec s) = packet_bytes p @ concat (map packet_bytes rest')" using r(1) p by simp
    ultimately have "head_len (buffered (ds_dec s)) = length p"
      using head_len_packet[of p "buffered (ds_dec s)" "[]"] by simp
    moreover have "2 + length p \<le> dec_buf_used (ds_dec s)" using length_buffered[OF r(4)] b by simp
    ultimately show False using r(3) by (simp add: incomplete_def)
  qed
  with r(2) show ?thesis by simp
qed

lemma rt_inv_op: "rt_inv ps s \<Longrightarrow> (\<exists>off len. ds_op s = Some (Receiving off len)) \<or> (\<exists>off len. ds_op s = Some (Sending off len))"
  by (auto simp: rt_inv_def dec_inv_def split: option.splits dec_op.splits)

lemma rt_inv_out: "rt_inv ps s \<Longrightarrow> \<exists>todo. ds_out s @ todo = ps"
  using rt_inv_op[of ps s] by (auto simp: rt_inv_def)

text \<open>Alternating deliveries and completions finish the stream.\<close>

lemma rt_progress:
  assumes "rt_inv ps s" and "length (ds_in s) + length ps - length (ds_out s) \<le> n"
  shows "\<exists>s'. dec_run (concat (replicate n [Arrive k, Sunk])) s = Inr s' \<and> ds_out s' = ps"
  using assms
proof (induction n arbitrary: s)
  case 0
  have "length (ds_out s) \<le> length ps" using rt_inv_out[OF 0(1)] by auto
  moreover have "\<exists>todo. ds_out s @ todo = ps" using rt_inv_out[OF 0(1)] .
  ultimately show ?case using 0 by auto
next
  case (Suc n)
  obtain s1 where s1: "dec_step (Arrive k) s = Inr s1" "rt_inv ps s1" using dec_step_rt(1)[OF Suc.prems(1)] by blast
  obtain s2 where s2: "dec_step Sunk s1 = Inr s2" "rt_inv ps s2" using dec_step_rt(1)[OF s1(2)] by blast
  have le: "length (ds_out x) \<le> length ps" if "rt_inv ps x" for x using rt_inv_out[OF that] by auto
  have mono1: "length (ds_in s1) \<le> length (ds_in s) \<and> length (ds_out s1) = length (ds_out s)"
    using s1(1) dec_step_rt(2)[OF Suc.prems(1), of k]
    by (cases "ds_in s = []"; cases "\<exists>off len. ds_op s = Some (Receiving off len)") (auto split: option.splits dec_op.splits)
  have mono2: "length (ds_in s2) = length (ds_in s1) \<and> length (ds_out s1) \<le> length (ds_out s2)"
    using s2(1) dec_step_rt(3)[OF s1(2)]
    by (cases "\<exists>off len. ds_op s1 = Some (Sending off len)") (auto split: option.splits dec_op.splits)
  show ?case
  proof (cases "length (ds_in s2) + length ps - length (ds_out s2) \<le> n")
    case True
    from Suc.IH[OF s2(2) True] s1(1) s2(1) show ?thesis by simp
  next
    case False
    then have eq: "length (ds_in s1) = length (ds_in s)" "length (ds_out s2) = length (ds_out s1)"
      using Suc.prems(2) mono1 mono2 le[OF s2(2)] le[OF Suc.prems(1)] by linarith+
    have op1: "\<not> (\<exists>off len. ds_op s1 = Some (Sending off len))"
    proof
      assume "\<exists>off len. ds_op s1 = Some (Sending off len)"
      from dec_step_rt(3)[OF s1(2) this] s2(1) eq(2) show False by simp
    qed
    then obtain off len where r1: "ds_op s1 = Some (Receiving off len)" using rt_inv_op[OF s1(2)] by blast
    have "ds_in s1 \<noteq> []"
    proof
      assume e: "ds_in s1 = []"
      have "s2 = s1" using s2(1) r1 by simp
      then show False using False e rt_inv_end[OF s1(2) r1 e] by simp
    qed
    then have ne: "ds_in s \<noteq> []" using eq(1) by auto
    have "\<not> (\<exists>off len. ds_op s = Some (Receiving off len))"
      using dec_step_rt(2)[OF Suc.prems(1) _ ne, of k] s1(1) eq(1) by auto
    then obtain off' len' where "ds_op s = Some (Sending off' len')" using rt_inv_op[OF Suc.prems(1)] by blast
    then have "s1 = s" using s1(1) by simp
    then show ?thesis using op1 \<open>ds_op s = _\<close> by blast
  qed
qed

lemma rt_start:
  assumes "\<And>n. length (mem n) = n" and "\<forall>p \<in> set ps. length p \<le> min mtu PACKETPROTO_MAXPAYLOAD"
  shows "\<exists>s. dec_start (\<lambda>n. Some (mem n)) mtu (concat (map packet_bytes ps)) = Inr (Some s) \<and> rt_inv ps s \<and>
    ds_in s = concat (map packet_bytes ps) \<and> ds_out s = []"
proof -
  obtain s where s: "dec_start (\<lambda>n. Some (mem n)) mtu (concat (map packet_bytes ps)) = Inr (Some s)" "dec_inv s"
    "ds_in s = concat (map packet_bytes ps)" "ds_out s = []" "ds_errors s = 0" "buffered (ds_dec s) = []"
    "dec_output_mtu (ds_dec s) = min mtu PACKETPROTO_MAXPAYLOAD" "\<exists>off len. ds_op s = Some (Receiving off len)"
    using dec_start_inv[of mem mtu "concat (map packet_bytes ps)"] assms(1) by blast
  have "dec_buf_used (ds_dec s) = 0" using length_buffered[of "ds_dec s"] s(2,6) by (simp add: dec_inv_def)
  then have "rt_inv ps s" using s assms(2) by (auto simp: rt_inv_def incomplete_def)
  with s show ?thesis by blast
qed

section \<open>Properties\<close>

text \<open>
  Packets survive the byte stream.  The encoded packets (each within the MTU) arrive in pieces
  of any size and the sink finishes its packets at any time: in every reachable state no error was
  reported and the sink got the first packets, unchanged and in order; and whatever the pieces,
  after enough deliveries and completions it got all of them.
\<close>

theorem packetproto_stream:
  assumes "\<And>n. length (mem n) = n" and "\<forall>p \<in> set ps. length p \<le> min mtu PACKETPROTO_MAXPAYLOAD"
  shows "\<exists>s. dec_start (\<lambda>n. Some (mem n)) mtu (concat (map packet_bytes ps)) = Inr (Some s) \<and>
    (\<forall>es. \<exists>s' todo. dec_run es s = Inr s' \<and> ds_errors s' = 0 \<and> ds_out s' @ todo = ps) \<and>
    (\<forall>k n. length (concat (map packet_bytes ps)) + length ps \<le> n \<longrightarrow>
       (\<exists>s'. dec_run (concat (replicate n [Arrive k, Sunk])) s = Inr s' \<and> ds_out s' = ps))"
proof -
  obtain s where s: "dec_start (\<lambda>n. Some (mem n)) mtu (concat (map packet_bytes ps)) = Inr (Some s)" "rt_inv ps s"
    "ds_in s = concat (map packet_bytes ps)" "ds_out s = []"
    using rt_start[OF assms] by blast
  have "\<exists>s' todo. dec_run es s = Inr s' \<and> ds_errors s' = 0 \<and> ds_out s' @ todo = ps" for es
  proof -
    obtain s' where s': "dec_run es s = Inr s'" "rt_inv ps s'" using dec_run_rt[OF s(2)] by blast
    with rt_inv_out[OF s'(2)] show ?thesis by (auto simp: rt_inv_def)
  qed
  moreover have "\<exists>s'. dec_run (concat (replicate n [Arrive k, Sunk])) s = Inr s' \<and> ds_out s' = ps"
    if "length (concat (map packet_bytes ps)) + length ps \<le> n" for k n
    using rt_progress[OF s(2), of n k] that s(3,4) by simp
  ultimately show ?thesis using s(1) by blast
qed

theorem packetproto_stream_witness:
  "\<exists>s. dec_start (\<lambda>n. Some (replicate n 0)) 1500 (concat (map packet_bytes [[1, 2, 3], [], [4]])) = Inr (Some s) \<and>
    (\<forall>k. \<exists>s'. dec_run (concat (replicate 13 [Arrive k, Sunk])) s = Inr s' \<and> ds_out s' = [[1, 2, 3], [], [4]])"
  using packetproto_stream[of "\<lambda>n. replicate n 0" "[[1, 2, 3], [], [4]]" 1500] by auto

text \<open>
  C35. The decoder is safe on arbitrary input: whatever bytes arrive in whatever pieces, no byte
  outside the buffer is read or written, the assertions of the handlers and of the interfaces hold,
  and the decoder always has an operation in progress; when it is a receive there is room for at
  least one byte.
\<close>

theorem packetproto_any_input:
  assumes "\<And>n. length (mem n) = n"
  shows "\<exists>s. dec_start (\<lambda>n. Some (mem n)) mtu input = Inr (Some s) \<and>
    (\<forall>es. \<exists>s'. dec_run es s = Inr s' \<and> dec_inv s')"
proof -
  obtain s where "dec_start (\<lambda>n. Some (mem n)) mtu input = Inr (Some s)" "dec_inv s"
    using dec_start_inv[of mem mtu input] assms by blast
  with dec_run_inv show ?thesis by blast
qed

theorem packetproto_any_input_witness:
  "\<exists>s. dec_start (\<lambda>n. Some (replicate n 0)) 1500 [255, 255, 1] = Inr (Some s) \<and>
    (\<forall>es. \<exists>s'. dec_run es s = Inr s' \<and> dec_inv s')"
  using packetproto_any_input[of "\<lambda>n. replicate n 0" 1500 "[255, 255, 1]"] by simp

end
