(* ===== verification/PacketProtoFlow.thy ===== *)
theory PacketProtoFlow
  imports PacketBuffer PacketProto
begin

text \<open>
  \<^verbatim>\<open>tun2socks-iOS/flow/BufferWriter.c\<close>, \<^verbatim>\<open>PacketStreamSender.c\<close> and the chain
  \<^verbatim>\<open>PacketProtoFlow.c\<close> builds: buffer writer, encoder, packet buffer, then the stream sender and,
  at the other end of the connection, the decoder.
\<close>

section \<open>Buffer writer\<close>

record BufferWriter =
  bw_mtu :: nat
  bw_out_have :: bool
  bw_out :: nat
  bw_writing :: bool

definition BufferWriter_Init :: "nat \<Rightarrow> BufferWriter" where
  "BufferWriter_Init mtu = \<lparr>bw_mtu = mtu, bw_out_have = False, bw_out = 0, bw_writing = False\<rparr>"

definition BufferWriter_output_handler_recv :: "nat \<Rightarrow> BufferWriter \<Rightarrow> BufferWriter run" where
  "BufferWriter_output_handler_recv data w =
     bindE (guardE (\<not> bw_out_have w) AssertFailed) (\<lambda>_. Inr (w\<lparr>bw_out_have := True, bw_out := data\<rparr>))"

text \<open>The result is the place for the packet, \<open>None\<close> for the return value 0.\<close>

definition BufferWriter_StartPacket :: "BufferWriter \<Rightarrow> (BufferWriter \<times> nat option) run" where
  "BufferWriter_StartPacket w =
     bindE (guardE (\<not> bw_writing w) AssertFailed) (\<lambda>_.
       if \<not> bw_out_have w then Inr (w, None) else Inr (w\<lparr>bw_writing := True\<rparr>, Some (bw_out w)))"

text \<open>The result is the length reported to the receiver.\<close>

definition BufferWriter_EndPacket :: "nat \<Rightarrow> BufferWriter \<Rightarrow> (BufferWriter \<times> nat) run" where
  "BufferWriter_EndPacket len w =
     bindE (guardE (len \<le> bw_mtu w \<and> bw_out_have w \<and> bw_writing w) AssertFailed) (\<lambda>_.
       Inr (w\<lparr>bw_out_have := False, bw_writing := False\<rparr>, len))"

section \<open>Stream sender\<close>

record PacketStreamSender =
  pss_in :: "byte list"
  pss_in_len :: int
  pss_in_used :: int

datatype pss_call = StreamSend "byte list" | InputDone

definition PacketStreamSender_Init :: PacketStreamSender where
  "PacketStreamSender_Init = \<lparr>pss_in = [], pss_in_len = -1, pss_in_used = 0\<rparr>"

definition send_data :: "PacketStreamSender \<Rightarrow> (PacketStreamSender \<times> pss_call) run" where
  "send_data s =
     bindE (guardE (pss_in_len s \<ge> 0) AssertFailed) (\<lambda>_.
       if pss_in_used s < pss_in_len s
       then Inr (s, StreamSend (take (nat (pss_in_len s - pss_in_used s)) (drop (nat (pss_in_used s)) (pss_in s))))
       else Inr (s\<lparr>pss_in_len := -1\<rparr>, InputDone))"

definition PacketStreamSender_input_handler_send ::
    "byte list \<Rightarrow> int \<Rightarrow> PacketStreamSender \<Rightarrow> (PacketStreamSender \<times> pss_call) run" where
  "PacketStreamSender_input_handler_send data data_len s =
     bindE (guardE (pss_in_len s = -1 \<and> data_len \<ge> 0) AssertFailed) (\<lambda>_.
       send_data (s\<lparr>pss_in_len := data_len, pss_in := data, pss_in_used := 0\<rparr>))"

definition PacketStreamSender_output_handler_done ::
    "int \<Rightarrow> PacketStreamSender \<Rightarrow> (PacketStreamSender \<times> pss_call) run" where
  "PacketStreamSender_output_handler_done data_len s =
     bindE (guardE (pss_in_len s \<ge> 0 \<and> data_len > 0 \<and> data_len \<le> pss_in_len s - pss_in_used s) AssertFailed) (\<lambda>_.
       send_data (s\<lparr>pss_in_used := pss_in_used s + data_len\<rparr>))"

text \<open>
  The connection takes at least one byte of what it is offered: \<open>k i\<close> bytes in round \<open>i\<close>.
  The result collects the bytes written until the packet is done; \<open>fuel\<close> bounds the rounds.
\<close>

fun pss_drive ::
    "nat \<Rightarrow> (nat \<Rightarrow> nat) \<Rightarrow> PacketStreamSender \<times> pss_call \<Rightarrow> (PacketStreamSender \<times> byte list) option run" where
  "pss_drive fuel k (s, InputDone) = Inr (Some (s, []))"
| "pss_drive 0 k (s, StreamSend bs) = Inr None"
| "pss_drive (Suc fuel) k (s, StreamSend bs) =
     (let n = min (max 1 (k fuel)) (length bs)
      in bindE (PacketStreamSender_output_handler_done (int n) s) (\<lambda>sc.
         bindE (pss_drive fuel k sc) (\<lambda>r. Inr (map_option (\<lambda>(s, out). (s, take n bs @ out)) r))))"

lemma pss_drive_all:
  assumes "pss_in_len s = int (length (pss_in s))" and "0 \<le> pss_in_used s" and "pss_in_used s \<le> pss_in_len s"
    and "length (pss_in s) - nat (pss_in_used s) \<le> fuel"
  shows "\<exists>c s'. send_data s = Inr c \<and> pss_drive fuel k c = Inr (Some (s', drop (nat (pss_in_used s)) (pss_in s))) \<and>
    pss_in_len s' = -1"
  using assms
proof (induction fuel arbitrary: s)
  case 0
  then have "\<not> pss_in_used s < pss_in_len s" by auto
  with 0 show ?case by (simp add: send_data_def)
next
  case (Suc fuel)
  show ?case
  proof (cases "pss_in_used s < pss_in_len s")
    case False
    with Suc.prems show ?thesis by (simp add: send_data_def)
  next
    case True
    let ?bs = "drop (nat (pss_in_used s)) (pss_in s)"
    define n where "n = min (max 1 (k fuel)) (length ?bs)"
    have bs: "length ?bs = nat (pss_in_len s - pss_in_used s)" using Suc.prems True by (simp add: nat_diff_distrib)
    have n: "0 < n" "int n \<le> pss_in_len s - pss_in_used s" using bs True by (auto simp: n_def)
    have call: "send_data s = Inr (s, StreamSend ?bs)"
      using Suc.prems True bs by (simp add: send_data_def)
    let ?s = "s\<lparr>pss_in_used := pss_in_used s + int n\<rparr>"
    have "length (pss_in ?s) - nat (pss_in_used ?s) \<le> fuel"
      using Suc.prems(2,4) n by (simp add: nat_add_distrib)
    from Suc.IH[of ?s, OF _ _ _ this] Suc.prems n True
    obtain c s' where c: "send_data ?s = Inr c" "pss_drive fuel k c = Inr (Some (s', drop (nat (pss_in_used s + int n)) (pss_in s)))"
      "pss_in_len s' = -1" by (auto simp: nat_add_distrib)
    have "PacketStreamSender_output_handler_done (int n) s = Inr c"
      using n c(1) Suc.prems True by (simp add: PacketStreamSender_output_handler_done_def)
    moreover have "take n ?bs @ drop (nat (pss_in_used s + int n)) (pss_in s) = ?bs"
      using Suc.prems(2) by (simp add: nat_add_distrib flip: drop_drop) (metis add.commute append_take_drop_id drop_drop)
    ultimately have "pss_drive (Suc fuel) k (s, StreamSend ?bs) = Inr (Some (s', ?bs))"
      using c(2) unfolding pss_drive.simps Let_def n_def[symmetric] by simp
    with call c(3) show ?thesis by blast
  qed
qed


section \<open>Writing one packet\<close>

text \<open>
  The packet buffer has asked the encoder for a packet at \<open>off\<close>.  The request goes through the
  encoder to the buffer writer; the user writes \<open>d\<close> to the place \<open>StartPacket\<close> gives, and
  \<open>EndPacket\<close> sends the lengths back.  The result is the memory, the length the packet buffer
  sees, and the two components.
\<close>

definition flow_write ::
    "nat \<Rightarrow> byte list \<Rightarrow> BufferWriter \<Rightarrow> PacketProtoEncoder
      \<Rightarrow> (byte list \<times> nat \<times> BufferWriter \<times> PacketProtoEncoder) option run" where
  "flow_write off d w enc =
     bindE (PacketProtoEncoder_output_handler_recv off enc) (\<lambda>(enc, place).
     bindE (BufferWriter_output_handler_recv place w) (\<lambda>w.
     bindE (BufferWriter_StartPacket w) (\<lambda>(w, r).
       case r of
         None \<Rightarrow> Inr None
       | Some p \<Rightarrow>
           if p + length d \<le> length (enc_mem enc)
           then let enc = enc\<lparr>enc_mem := write_at p d (enc_mem enc)\<rparr>
                in bindE (BufferWriter_EndPacket (length d) w) (\<lambda>(w, len).
                   bindE (PacketProtoEncoder_input_handler_done len enc) (\<lambda>(enc, n).
                     Inr (Some (enc_mem enc, n, w, enc))))
           else Inl OutOfBounds)))"

lemma write_header_first:
  "off + length h + length d \<le> length mem \<Longrightarrow> write_at off h (write_at (off + length h) d mem) = write_at off (h @ d) mem"
  by (simp add: write_at_def add.assoc)

lemma flow_write_eq:
  assumes "enc_output_packet enc = None" and "\<not> bw_out_have w" and "\<not> bw_writing w"
    and "length d \<le> bw_mtu w" and "off + 2 + length d \<le> length (enc_mem enc)"
  shows "\<exists>w' enc'. flow_write off d w enc
      = Inr (Some (write_at off (packet_bytes d) (enc_mem enc), length (packet_bytes d), w', enc')) \<and>
    enc_output_packet enc' = None \<and> \<not> bw_out_have w' \<and> \<not> bw_writing w' \<and> bw_mtu w' = bw_mtu w \<and>
    enc_mem enc' = write_at off (packet_bytes d) (enc_mem enc)"
  using assms write_header_first[of off "htol16 (of_nat (length d))" d "enc_mem enc"]
  by (simp add: flow_write_def PacketProtoEncoder_output_handler_recv_def BufferWriter_output_handler_recv_def
      BufferWriter_StartPacket_def BufferWriter_EndPacket_def PacketProtoEncoder_input_handler_done_def
      Let_def packet_bytes_def PACKETPROTO_ENCLEN_def)

section \<open>Properties\<close>

text \<open>Every packet delivered to the packet buffer comes from the encoder.\<close>

definition encoded_events :: "nat \<Rightarrow> pb_event list \<Rightarrow> bool" where
  "encoded_events mtu es \<longleftrightarrow> (\<forall>e \<in> set es. \<forall>x. e = Deliver x \<longrightarrow> (\<exists>d. x = packet_bytes d \<and> length d \<le> mtu))"

lemma make_calls_received: "make_calls cs s = Inr s' \<Longrightarrow> sys_received s' = sys_received s \<and> sys_sent s' = sys_sent s"
proof (induction cs arbitrary: s)
  case (Cons c cs)
  then obtain s1 where "make_call c s = Inr s1" "make_calls cs s1 = Inr s'" by (auto simp: bindE_Inr_iff)
  moreover have "make_call c s = Inr s1 \<Longrightarrow> sys_received s1 = sys_received s \<and> sys_sent s1 = sys_sent s" for s1
    by (cases "(c, s)" rule: make_call.cases) (auto split: if_splits)
  ultimately show ?case using Cons.IH by auto
qed simp

lemma received_encoded:
  assumes "pb_run es s = Inr s'" and "encoded_events mtu es"
    and "\<forall>x \<in> set (sys_received s). \<exists>d. x = packet_bytes d \<and> length d \<le> mtu"
  shows "\<forall>x \<in> set (sys_received s'). \<exists>d. x = packet_bytes d \<and> length d \<le> mtu"
  using assms
proof (induction es arbitrary: s)
  case (Cons e es)
  then obtain s1 where s1: "pb_step e s = Inr s1" "pb_run es s1 = Inr s'" by (auto simp: bindE_Inr_iff)
  have "\<forall>x \<in> set (sys_received s1). \<exists>d. x = packet_bytes d \<and> length d \<le> mtu"
  proof (cases e)
    case (Deliver x)
    then have "\<exists>d. x = packet_bytes d \<and> length d \<le> mtu" using Cons.prems(2) by (auto simp: encoded_events_def)
    then show ?thesis
      using s1(1) Deliver Cons.prems(3)
      by (auto simp: Let_def bindE_Inr_iff split: option.splits if_splits dest!: make_calls_received)
  next
    case Finish
    then show ?thesis
      using s1(1) Cons.prems(3)
      by (auto simp: Let_def bindE_Inr_iff split: option.splits prod.splits dest!: make_calls_received)
  qed
  moreover have "encoded_events mtu es" using Cons.prems(2) by (simp add: encoded_events_def)
  ultimately show ?case using Cons.IH[OF s1(2)] by blast
qed simp

lemma encoded_list:
  assumes "\<forall>x \<in> set xs. \<exists>d. x = packet_bytes d \<and> length d \<le> mtu"
  shows "xs = map packet_bytes (map (drop 2) xs)" "\<forall>d \<in> set (map (drop 2) xs). length d \<le> mtu"
proof -
  have "drop 2 (packet_bytes d) = d" for d by (simp add: packet_bytes_def)
  with assms show "xs = map packet_bytes (map (drop 2) xs)" "\<forall>d \<in> set (map (drop 2) xs). length d \<le> mtu"
    by (induction xs) auto
qed



end
