(* ===== verification/BAVL.thy ===== *)
theory BAVL
  imports C_Prelude "HOL-Library.Tree"
begin

text \<open>
  The AVL tree of \<^verbatim>\<open>tun2socks-iOS/structure/BAVL.h\<close>, which indexes the connections of the UDP gateway
  client.

  \<^item> A node is its address; \<open>None\<close> is the null pointer. \<open>bv_node\<close> is the memory the nodes are in, and an
    operation changes single fields of it, in the order of the code. \<open>link[2]\<close> is a function of the side,
    \<open>False\<close> for 0 and \<open>True\<close> for 1.
  \<^item> The values are read through \<open>val\<close>, which stands for the offset of a value from its node, and compared by
    \<open>comparator\<close>.
  \<^item> A loop over pointers may not end when the memory holds a cycle: it is a partial function whose value is
    \<open>None\<close> then.
\<close>

type_synonym ptr = "nat option"

record bnode =
  bn_parent :: ptr
  bn_link :: "bool \<Rightarrow> ptr"
  bn_balance :: int

record bavl =
  bv_root :: ptr
  bv_node :: "nat \<Rightarrow> bnode"

abbreviation parent :: "bavl \<Rightarrow> nat \<Rightarrow> ptr" where
  "parent m a \<equiv> bn_parent (bv_node m a)"

abbreviation link :: "bavl \<Rightarrow> nat \<Rightarrow> bool \<Rightarrow> ptr" where
  "link m a \<equiv> bn_link (bv_node m a)"

abbreviation balance :: "bavl \<Rightarrow> nat \<Rightarrow> int" where
  "balance m a \<equiv> bn_balance (bv_node m a)"

definition set_parent :: "nat \<Rightarrow> ptr \<Rightarrow> bavl \<Rightarrow> bavl" where
  "set_parent a p m = m\<lparr>bv_node := (bv_node m)(a := (bv_node m a)\<lparr>bn_parent := p\<rparr>)\<rparr>"

definition set_link :: "nat \<Rightarrow> bool \<Rightarrow> ptr \<Rightarrow> bavl \<Rightarrow> bavl" where
  "set_link a d p m = m\<lparr>bv_node := (bv_node m)(a := (bv_node m a)\<lparr>bn_link := (link m a)(d := p)\<rparr>)\<rparr>"

definition set_balance :: "nat \<Rightarrow> int \<Rightarrow> bavl \<Rightarrow> bavl" where
  "set_balance a b m = m\<lparr>bv_node := (bv_node m)(a := (bv_node m a)\<lparr>bn_balance := b\<rparr>)\<rparr>"

definition set_root :: "ptr \<Rightarrow> bavl \<Rightarrow> bavl" where
  "set_root p m = m\<lparr>bv_root := p\<rparr>"

definition BAVL_OPTNEG :: "int \<Rightarrow> bool \<Rightarrow> int" where
  "BAVL_OPTNEG a neg = (if neg then - a else a)"

text \<open>\<open>if (a->link[d] = p) a->link[d]->parent = a\<close>.\<close>

definition adopt :: "nat \<Rightarrow> bool \<Rightarrow> ptr \<Rightarrow> bavl \<Rightarrow> bavl" where
  "adopt a d p m =
     (let m = set_link a d p m in case p of Some c \<Rightarrow> set_parent c (Some a) m | None \<Rightarrow> m)"

text \<open>\<open>if (q) q->link[old == q->link[1]] = p; else tree->root = p\<close>.\<close>

definition relink :: "ptr \<Rightarrow> nat \<Rightarrow> ptr \<Rightarrow> bavl \<Rightarrow> bavl" where
  "relink q old p m =
     (case q of Some a \<Rightarrow> set_link a (link m a True = Some old) p m | None \<Rightarrow> set_root p m)"

definition BAVL_rotate :: "nat \<Rightarrow> bool \<Rightarrow> bavl \<Rightarrow> bavl run" where
  "BAVL_rotate r dir m =
     (case link m r (\<not> dir) of
        None \<Rightarrow> Inl OutOfBounds
      | Some nr \<Rightarrow>
          let m = adopt r (\<not> dir) (link m nr dir) m;
              m = set_link nr dir (Some r) m;
              m = set_parent nr (parent m r) m;
              m = relink (parent m nr) r (Some nr) m
          in Inr (set_parent r (Some nr) m))"

partial_function (option) BAVL_subtree_end :: "bavl \<Rightarrow> bool \<Rightarrow> nat \<Rightarrow> nat option" where
  "BAVL_subtree_end m d n = (case link m n d of None \<Rightarrow> Some n | Some c \<Rightarrow> BAVL_subtree_end m d c)"

definition BAVL_replace_subtree :: "nat \<Rightarrow> ptr \<Rightarrow> bavl \<Rightarrow> bavl" where
  "BAVL_replace_subtree dest n m =
     (let m = relink (parent m dest) dest n m
      in case n of Some c \<Rightarrow> set_parent c (parent m dest) m | None \<Rightarrow> m)"

definition BAVL_swap_adjacent :: "nat \<Rightarrow> nat \<Rightarrow> bavl \<Rightarrow> bavl" where
  "BAVL_swap_adjacent n1 n2 m =
     (let side = (link m n1 True = Some n2);
          c = link m n1 (\<not> side);
          m = adopt n1 False (link m n2 False) m;
          m = adopt n1 True (link m n2 True) m;
          m = set_parent n2 (parent m n1) m;
          m = relink (parent m n2) n1 (Some n2) m;
          m = set_link n2 side (Some n1) m;
          m = set_parent n1 (Some n2) m
      in adopt n2 (\<not> side) c m)"

definition BAVL_swap_apart :: "nat \<Rightarrow> nat \<Rightarrow> bavl \<Rightarrow> bavl" where
  "BAVL_swap_apart n1 n2 m =
     (let temp = parent m n1;
          m = set_parent n1 (parent m n2) m;
          m = relink (parent m n1) n2 (Some n1) m;
          m = set_parent n2 temp m;
          m = relink temp n1 (Some n2) m;
          temp = link m n1 False;
          m = adopt n1 False (link m n2 False) m;
          m = adopt n2 False temp m;
          temp = link m n1 True;
          m = adopt n1 True (link m n2 True) m
      in adopt n2 True temp m)"

definition BAVL_swap_nodes :: "nat \<Rightarrow> nat \<Rightarrow> bavl \<Rightarrow> bavl" where
  "BAVL_swap_nodes n1 n2 m =
     (let m' = (if parent m n2 = Some n1 \<or> parent m n1 = Some n2
                then if parent m n1 = Some n2 then BAVL_swap_adjacent n2 n1 m else BAVL_swap_adjacent n1 n2 m
                else BAVL_swap_apart n1 n2 m);
          b = balance m' n1;
          m' = set_balance n1 (balance m' n2) m'
      in set_balance n2 b m')"

text \<open>
  The transformations of \<open>_BAVL_rebalance\<close> at a node whose balance factor is 2 or -2, and the function up to
  them: they give the root of the subtree and the change of its height.
\<close>

definition rebalance_rotate :: "nat \<Rightarrow> int \<Rightarrow> bavl \<Rightarrow> (bavl \<times> nat \<times> int) run" where
  "rebalance_rotate node delta m =
     (let bside = (balance m node = 2); bsidef = (if balance m node = 2 then 1 else -1)
      in case link m node bside of
           None \<Rightarrow> Inl AssertFailed
         | Some child \<Rightarrow>
             if balance m child * bsidef = 1
             then bindE (BAVL_rotate node (\<not> bside) m) (\<lambda>m.
                    Inr (set_balance child 0 (set_balance node 0 m), child, delta - 1))
             else if balance m child * bsidef = 0
             then bindE (BAVL_rotate node (\<not> bside) m) (\<lambda>m.
                    Inr (set_balance child (- bsidef) (set_balance node bsidef m), child, delta))
             else if balance m child * bsidef = -1
             then case link m child (\<not> bside) of
                    None \<Rightarrow> Inl AssertFailed
                  | Some gchild \<Rightarrow>
                      bindE (BAVL_rotate child bside m) (\<lambda>m.
                      bindE (BAVL_rotate node (\<not> bside) m) (\<lambda>m.
                        let m = set_balance node (- max 0 (balance m gchild * bsidef) * bsidef) m;
                            m = set_balance child (max 0 (- balance m gchild * bsidef) * bsidef) m
                        in Inr (set_balance gchild 0 m, gchild, delta - 1)))
             else Inl AssertFailed)"

definition rebalance_step :: "nat \<Rightarrow> bool \<Rightarrow> int \<Rightarrow> bavl \<Rightarrow> (bavl \<times> nat \<times> int) run" where
  "rebalance_step node side deltac m =
     (let delta = max deltac (BAVL_OPTNEG (balance m node) side) - max 0 (BAVL_OPTNEG (balance m node) side)
      in bindE (guardE (-1 \<le> delta \<and> delta \<le> 1) AssertFailed) (\<lambda>_.
           let m = set_balance node (balance m node - BAVL_OPTNEG deltac side) m
           in if balance m node = 2 \<or> balance m node = -2 then rebalance_rotate node delta m
              else Inr (m, node, delta)))"

partial_function (option) BAVL_rebalance :: "nat \<Rightarrow> bool \<Rightarrow> int \<Rightarrow> bavl \<Rightarrow> bavl run option" where
  "BAVL_rebalance node side deltac m =
     (if \<not> (-1 \<le> deltac \<and> deltac \<le> 1 \<and> -1 \<le> balance m node \<and> balance m node \<le> 1) then Some (Inl AssertFailed)
      else if deltac = 0 then Some (Inr m)
      else case rebalance_step node side deltac m of
             Inl e \<Rightarrow> Some (Inl e)
           | Inr (m, node, delta) \<Rightarrow>
               if \<not> (-1 \<le> delta \<and> delta \<le> 1) then Some (Inl AssertFailed)
               else case parent m node of
                      None \<Rightarrow> Some (Inr m)
                    | Some p \<Rightarrow> BAVL_rebalance p (link m p True = Some node) delta m)"

text \<open>A computation that may not end, and may stop with a fault.\<close>

definition bindO :: "'a run option \<Rightarrow> ('a \<Rightarrow> 'b run option) \<Rightarrow> 'b run option" where
  "bindO r f = (case r of None \<Rightarrow> None | Some (Inl e) \<Rightarrow> Some (Inl e) | Some (Inr x) \<Rightarrow> f x)"

lemma bindO_simps [simp]: "bindO (Some (Inr x)) f = f x" "bindO (Some (Inl e)) f = Some (Inl e)"
  by (simp_all add: bindO_def)

definition BAVL_Init :: "bavl \<Rightarrow> bavl" where
  "BAVL_Init m = set_root None m"

definition compare_values :: "('v \<Rightarrow> 'v \<Rightarrow> int) \<Rightarrow> 'v \<Rightarrow> 'v \<Rightarrow> int run" where
  "compare_values comparator v1 v2 =
     (let res = comparator v1 v2
      in bindE (guardE (res = -1 \<or> res = 0 \<or> res = 1) AssertFailed) (\<lambda>_. Inr res))"

text \<open>
  The search of \<open>BAVL_Insert\<close>, \<open>BAVL_Lookup\<close> and \<open>BAVL_LookupExact\<close>: the node where it ends, and the side
  that is free there, or \<open>None\<close> when the values are equal.
\<close>

partial_function (option) search :: "('v \<Rightarrow> 'v \<Rightarrow> int) \<Rightarrow> (nat \<Rightarrow> 'v) \<Rightarrow> bavl \<Rightarrow> 'v \<Rightarrow> nat \<Rightarrow> (nat \<times> bool option) run option" where
  "search comparator val m v c =
     (case compare_values comparator v (val c) of
        Inl e \<Rightarrow> Some (Inl e)
      | Inr res \<Rightarrow>
          if res = 0 then Some (Inr (c, None))
          else case link m c (res = 1) of
                 None \<Rightarrow> Some (Inr (c, Some (res = 1)))
               | Some c' \<Rightarrow> search comparator val m v c')"

text \<open>The fields of a node that is inserted.\<close>

definition new_node :: "nat \<Rightarrow> ptr \<Rightarrow> bavl \<Rightarrow> bavl" where
  "new_node node par m =
     set_balance node 0 (set_link node True None (set_link node False None (set_parent node par m)))"

definition BAVL_Insert :: "('v \<Rightarrow> 'v \<Rightarrow> int) \<Rightarrow> (nat \<Rightarrow> 'v) \<Rightarrow> nat \<Rightarrow> bavl \<Rightarrow> ((bool \<times> ptr) \<times> bavl) run option" where
  "BAVL_Insert comparator val node m =
     (case bv_root m of
        None \<Rightarrow> Some (Inr ((True, None), new_node node None (set_root (Some node) m)))
      | Some root \<Rightarrow>
          bindO (search comparator val m (val node) root) (\<lambda>(c, free).
            case free of
              None \<Rightarrow> Some (Inr ((False, Some c), m))
            | Some side \<Rightarrow>
                let m = new_node node (Some c) (set_link c side (Some node) m)
                in bindO (BAVL_rebalance c side 1 m) (\<lambda>m. Some (Inr ((True, Some c), m)))))"

definition remove_single :: "nat \<Rightarrow> bavl \<Rightarrow> bavl run option" where
  "remove_single node m =
     (if link m node False \<noteq> None \<and> link m node True \<noteq> None then Some (Inl AssertFailed)
      else let child = (if link m node False \<noteq> None then link m node False else link m node True)
           in case parent m node of
                Some p \<Rightarrow>
                  let side = (link m p True = Some node)
                  in BAVL_rebalance p side (-1) (BAVL_replace_subtree node child m)
              | None \<Rightarrow> Some (Inr (BAVL_replace_subtree node child m)))"

definition BAVL_Remove :: "nat \<Rightarrow> bavl \<Rightarrow> bavl run option" where
  "BAVL_Remove node m =
     (case link m node False of
        Some l \<Rightarrow>
          if link m node True \<noteq> None
          then case BAVL_subtree_end m True l of
                 None \<Rightarrow> None
               | Some mx \<Rightarrow> remove_single node (BAVL_swap_nodes node mx m)
          else remove_single node m
      | None \<Rightarrow> remove_single node m)"

definition BAVL_IsEmpty :: "bavl \<Rightarrow> bool" where
  "BAVL_IsEmpty m = (bv_root m = None)"

definition BAVL_Lookup :: "('v \<Rightarrow> 'v \<Rightarrow> int) \<Rightarrow> (nat \<Rightarrow> 'v) \<Rightarrow> 'v \<Rightarrow> bavl \<Rightarrow> ptr run option" where
  "BAVL_Lookup comparator val v m =
     (case bv_root m of
        None \<Rightarrow> Some (Inr None)
      | Some c \<Rightarrow> bindO (search comparator val m v c) (\<lambda>(c, free). Some (Inr (Some c))))"

definition BAVL_LookupExact :: "('v \<Rightarrow> 'v \<Rightarrow> int) \<Rightarrow> (nat \<Rightarrow> 'v) \<Rightarrow> 'v \<Rightarrow> bavl \<Rightarrow> ptr run option" where
  "BAVL_LookupExact comparator val v m =
     (case bv_root m of
        None \<Rightarrow> Some (Inr None)
      | Some c \<Rightarrow> bindO (search comparator val m v c) (\<lambda>(c, free).
                  Some (Inr (case free of None \<Rightarrow> Some c | Some _ \<Rightarrow> None))))"

text \<open>\<open>BAVL_GetFirst\<close> for \<open>d = False\<close>, \<open>BAVL_GetLast\<close> for \<open>d = True\<close>.\<close>

definition get_end :: "bool \<Rightarrow> bavl \<Rightarrow> ptr option" where
  "get_end d m =
     (case bv_root m of None \<Rightarrow> Some None | Some n \<Rightarrow> map_option Some (BAVL_subtree_end m d n))"

definition BAVL_GetFirst :: "bavl \<Rightarrow> ptr option" where
  "BAVL_GetFirst = get_end False"

definition BAVL_GetLast :: "bavl \<Rightarrow> ptr option" where
  "BAVL_GetLast = get_end True"

partial_function (option) climb :: "bavl \<Rightarrow> bool \<Rightarrow> nat \<Rightarrow> ptr option" where
  "climb m d n =
     (case parent m n of
        None \<Rightarrow> Some None
      | Some p \<Rightarrow> if link m p d = Some n then climb m d p else Some (Some p))"

text \<open>\<open>BAVL_GetNext\<close> for \<open>d = True\<close>, \<open>BAVL_GetPrev\<close> for \<open>d = False\<close>.\<close>

definition neighbour :: "bool \<Rightarrow> bavl \<Rightarrow> nat \<Rightarrow> ptr option" where
  "neighbour d m n =
     (case link m n d of
        Some c \<Rightarrow> map_option Some (BAVL_subtree_end m (\<not> d) c)
      | None \<Rightarrow> climb m d n)"

definition BAVL_GetNext :: "bavl \<Rightarrow> nat \<Rightarrow> ptr option" where
  "BAVL_GetNext = neighbour True"

definition BAVL_GetPrev :: "bavl \<Rightarrow> nat \<Rightarrow> ptr option" where
  "BAVL_GetPrev = neighbour False"

section \<open>The tree in the memory\<close>

text \<open>\<open>nd d x a y\<close> is the node \<open>a\<close> with \<open>y\<close> on side \<open>d\<close> and \<open>x\<close> on the other.\<close>

definition nd :: "bool \<Rightarrow> nat tree \<Rightarrow> nat \<Rightarrow> nat tree \<Rightarrow> nat tree" where
  "nd d x a y = (if d then Node x a y else Node y a x)"

fun tree_at :: "bavl \<Rightarrow> ptr \<Rightarrow> ptr \<Rightarrow> nat tree \<Rightarrow> bool" where
  "tree_at m par p Leaf \<longleftrightarrow> p = None"
| "tree_at m par p (Node l a r) \<longleftrightarrow> p = Some a \<and> parent m a = par
     \<and> tree_at m (Some a) (link m a False) l \<and> tree_at m (Some a) (link m a True) r"

type_synonym frame = "bool \<times> nat \<times> nat tree"

text \<open>The way from a subtree to the root: for every node, the side of the subtree and the other subtree.\<close>

fun plug :: "nat tree \<Rightarrow> frame list \<Rightarrow> nat tree" where
  "plug t [] = t"
| "plug t ((d, a, s) # c) = plug (nd d s a t) c"

fun ctx_at :: "bavl \<Rightarrow> ptr \<Rightarrow> ptr \<Rightarrow> frame list \<Rightarrow> bool" where
  "ctx_at m p par [] \<longleftrightarrow> bv_root m = p \<and> par = None"
| "ctx_at m p par ((d, a, s) # c) \<longleftrightarrow> par = Some a \<and> link m a d = p
     \<and> tree_at m (Some a) (link m a (\<not> d)) s \<and> ctx_at m (Some a) (parent m a) c"

fun ctx_nodes :: "frame list \<Rightarrow> nat set" where
  "ctx_nodes [] = {}"
| "ctx_nodes ((d, a, s) # c) = insert a (set_tree s \<union> ctx_nodes c)"

fun lefts :: "frame list \<Rightarrow> nat list" where
  "lefts [] = []"
| "lefts ((d, a, s) # c) = (if d then lefts c @ inorder s @ [a] else lefts c)"

fun rights :: "frame list \<Rightarrow> nat list" where
  "rights [] = []"
| "rights ((d, a, s) # c) = (if d then rights c else a # inorder s @ rights c)"

lemma tree_at_nd: "tree_at m par p (nd d x a y) \<longleftrightarrow> p = Some a \<and> parent m a = par
    \<and> tree_at m (Some a) (link m a d) y \<and> tree_at m (Some a) (link m a (\<not> d)) x"
  by (auto simp: nd_def)

lemma set_nd [simp]: "set_tree (nd d x a y) = insert a (set_tree x \<union> set_tree y)"
  by (auto simp: nd_def)

lemma inorder_nd: "inorder (nd d x a y) = (if d then inorder x @ a # inorder y else inorder y @ a # inorder x)"
  by (simp add: nd_def)

lemma height_nd [simp]: "height (nd d x a y) = Suc (max (height x) (height y))"
  by (simp add: nd_def max.commute)

lemma nd_flip: "nd (\<not> d) x a y = nd d y a x"
  by (simp add: nd_def)

lemma nd_exhaust: "t \<noteq> Leaf \<Longrightarrow> \<exists>x a y. t = nd d x a y"
  by (cases t; cases d) (auto simp: nd_def)

lemma inorder_plug: "inorder (plug t c) = lefts c @ inorder t @ rights c"
  by (induction t c rule: plug.induct) (auto simp: inorder_nd)

lemma plug_at: "tree_at m None (bv_root m) (plug t c) \<longleftrightarrow> (\<exists>p par. ctx_at m p par c \<and> tree_at m par p t)"
  by (induction t c rule: plug.induct) (auto simp: tree_at_nd)

lemma tree_at_cong:
  "(\<And>a. a \<in> set_tree t \<Longrightarrow> parent m' a = parent m a \<and> link m' a = link m a) \<Longrightarrow> tree_at m' par p t = tree_at m par p t"
  by (induction t arbitrary: par p) auto

lemma ctx_at_cong:
  "bv_root m' = bv_root m \<Longrightarrow> (\<And>a. a \<in> ctx_nodes c \<Longrightarrow> parent m' a = parent m a \<and> link m' a = link m a)
    \<Longrightarrow> ctx_at m' p par c = ctx_at m p par c"
proof (induction c arbitrary: p par rule: ctx_nodes.induct)
  case (2 d a s c)
  then have "parent m' a = parent m a" "link m' a = link m a" by auto
  moreover have "tree_at m' par p s = tree_at m par p s" for par p
    using "2.prems" by (intro tree_at_cong) auto
  ultimately show ?case using "2.IH" "2.prems" by simp
qed simp

lemma tree_at_root: "tree_at m par (Some a) t \<Longrightarrow> a \<in> set_tree t"
  by (cases t) auto

lemma tree_at_None: "tree_at m par None t \<longleftrightarrow> t = Leaf"
  by (cases t) auto

lemma distinct_plug:
  "distinct (inorder (plug t c)) \<Longrightarrow> set_tree t \<inter> ctx_nodes c = {} \<and> distinct (inorder t)"
proof (induction t c rule: plug.induct)
  case (2 t d a s c)
  then show ?case by (auto simp: inorder_nd split: if_splits simp flip: set_inorder)
qed simp

lemma set_parent_simps [simp]:
  "parent (set_parent a p m) x = (if x = a then p else parent m x)" "link (set_parent a p m) x = link m x"
  "balance (set_parent a p m) x = balance m x" "bv_root (set_parent a p m) = bv_root m"
  by (simp_all add: set_parent_def)

lemma set_link_simps [simp]:
  "parent (set_link a d p m) x = parent m x"
  "link (set_link a d p m) x = (if x = a then (link m a)(d := p) else link m x)"
  "balance (set_link a d p m) x = balance m x" "bv_root (set_link a d p m) = bv_root m"
  by (simp_all add: set_link_def)

lemma set_balance_simps [simp]:
  "parent (set_balance a b m) x = parent m x" "link (set_balance a b m) x = link m x"
  "balance (set_balance a b m) x = (if x = a then b else balance m x)" "bv_root (set_balance a b m) = bv_root m"
  by (simp_all add: set_balance_def)

lemma set_root_simps [simp]:
  "parent (set_root p m) x = parent m x" "link (set_root p m) x = link m x"
  "balance (set_root p m) x = balance m x" "bv_root (set_root p m) = p"
  by (simp_all add: set_root_def)

lemma adopt_simps [simp]:
  "parent (adopt a d p m) x = (if p = Some x then Some a else parent m x)"
  "link (adopt a d p m) x = (if x = a then (link m a)(d := p) else link m x)"
  "balance (adopt a d p m) x = balance m x" "bv_root (adopt a d p m) = bv_root m"
  by (auto simp: adopt_def Let_def split: option.split)

lemma relink_simps [simp]:
  "parent (relink q old p m) x = parent m x"
  "link (relink q old p m) x = (if q = Some x then (link m x)((link m x True = Some old) := p) else link m x)"
  "balance (relink q old p m) x = balance m x"
  "bv_root (relink q old p m) = (if q = None then p else bv_root m)"
  by (auto simp: relink_def split: option.split)

lemma tree_at_reparent:
  assumes "tree_at m par p t" and "distinct (inorder t)"
    and "\<And>a. a \<in> set_tree t \<Longrightarrow> link m' a = link m a"
    and "\<And>a. a \<in> set_tree t \<Longrightarrow> parent m' a = (if p = Some a then par' else parent m a)"
  shows "tree_at m' par' p t"
proof (cases t)
  case (Node l a r)
  then have sub: "b \<noteq> a" if "b \<in> set_tree l \<union> set_tree r" for b
    using assms(2) that by (auto simp flip: set_inorder)
  have "tree_at m' q x l = tree_at m q x l" "tree_at m' q x r = tree_at m q x r" for q x
    by (rule tree_at_cong; use assms(1,3,4) sub Node in auto)+
  then show ?thesis using assms(1,3,4) Node by auto
qed (use assms(1) in simp)

lemma ctx_at_relink:
  assumes "ctx_at m p par c" and "p \<noteq> None" and "\<And>a. a \<in> ctx_nodes c \<Longrightarrow> p \<noteq> Some a"
    and "case par of
           None \<Rightarrow> bv_root m' = p' \<and> (\<forall>a \<in> ctx_nodes c. parent m' a = parent m a \<and> link m' a = link m a)
         | Some q \<Rightarrow> bv_root m' = bv_root m \<and> parent m' q = parent m q
             \<and> link m' q = (link m q)((link m q True = p) := p')
             \<and> (\<forall>a \<in> ctx_nodes c - {q}. parent m' a = parent m a \<and> link m' a = link m a)"
    and "\<And>d a s c'. c = (d, a, s) # c' \<Longrightarrow> a \<notin> set_tree s \<and> a \<notin> ctx_nodes c'"
  shows "ctx_at m' p' par c"
proof (cases c rule: ctx_nodes.cases)
  case 1
  then show ?thesis using assms(1,4) by auto
next
  case (2 d q s c')
  with assms(1) have q: "par = Some q" "link m q d = p" "tree_at m (Some q) (link m q (\<not> d)) s"
    "ctx_at m (Some q) (parent m q) c'" by auto
  with assms(2,3) 2 have "link m q (\<not> d) \<noteq> p"
    using tree_at_root[of m "Some q" _ s] by (cases p) fastforce+
  with q(2) have d: "(link m q True = p) = d" by (cases d) auto
  have "tree_at m' x y s = tree_at m x y s" for x y
    by (rule tree_at_cong) (use assms(4,5) q(1) 2 in auto)
  moreover have "ctx_at m' x y c' = ctx_at m x y c'" for x y
    by (rule ctx_at_cong) (use assms(4,5) q(1) 2 in auto)
  ultimately show ?thesis using assms(4) q d 2 by simp
qed

lemma distinct_ctx:
  "distinct (inorder (plug t c)) \<Longrightarrow> c = (d, a, s) # c' \<Longrightarrow> a \<notin> set_tree s \<and> a \<notin> ctx_nodes c'"
  using distinct_plug[of "nd d s a t" c'] by (auto simp: inorder_nd split: if_splits)

lemma distinct_nd:
  "distinct (inorder (nd d x a y)) \<longleftrightarrow> distinct (inorder x) \<and> distinct (inorder y) \<and> a \<notin> set_tree x \<and> a \<notin> set_tree y
    \<and> set_tree x \<inter> set_tree y = {}"
  by (auto simp: inorder_nd)

lemma rotate_at:
  assumes ctx: "ctx_at m (Some r) par c" and tree: "tree_at m par (Some r) (nd b A r (nd b B n C))"
    and dist: "distinct (inorder (plug (nd b A r (nd b B n C)) c))"
  shows "\<exists>m'. BAVL_rotate r (\<not> b) m = Inr m' \<and> ctx_at m' (Some n) par c
    \<and> tree_at m' par (Some n) (nd b (nd b A r B) n C) \<and> (\<forall>a. balance m' a = balance m a)"
proof -
  have dis: "distinct (inorder (nd b A r (nd b B n C)))"
    "insert r (insert n (set_tree A \<union> set_tree B \<union> set_tree C)) \<inter> ctx_nodes c = {}"
    using distinct_plug[OF dist] by auto
  then have d: "r \<noteq> n" "r \<notin> set_tree A" "r \<notin> set_tree B" "r \<notin> set_tree C" "n \<notin> set_tree A" "n \<notin> set_tree B"
    "n \<notin> set_tree C" "set_tree A \<inter> set_tree B = {}" "set_tree B \<inter> set_tree C = {}" "distinct (inorder B)"
    by (auto simp: distinct_nd)
  from tree have r: "parent m r = par" "link m r b = Some n" "tree_at m (Some r) (link m r (\<not> b)) A"
    and n: "parent m n = Some r" "tree_at m (Some n) (link m n b) C" "tree_at m (Some n) (link m n (\<not> b)) B"
    by (auto simp: tree_at_nd)
  define pB where "pB = link m n (\<not> b)"
  have inB: "c' \<in> set_tree B" if "pB = Some c'" for c' using n(3) tree_at_root that by (auto simp: pB_def)
  obtain m' where m': "BAVL_rotate r (\<not> b) m = Inr m'" using r(2) by (simp add: BAVL_rotate_def Let_def)
  have par_in: "q \<in> ctx_nodes c" if "par = Some q" for q using ctx that by (cases c rule: ctx_nodes.cases) auto
  have neq: "q \<noteq> r" "q \<noteq> n" if "par = Some q" for q using par_in[OF that] dis(2) by auto
  have neqB: "x \<noteq> r" "x \<noteq> n" "par \<noteq> Some x" if "pB = Some x" for x
    using inB[OF that] d par_in dis(2) by auto
  have new: "bv_root m' = (if par = None then Some n else bv_root m)"
    "\<And>a. balance m' a = balance m a"
    "\<And>a. parent m' a = (if a = r then Some n else if a = n then par else if pB = Some a then Some r else parent m a)"
    "\<And>a. link m' a = (if a = r then (link m r)(b := pB) else if a = n then (link m n)((\<not> b) := Some r)
        else if par = Some a then (link m a)((link m a True = Some r) := Some n) else link m a)"
    using m' r(1,2) d(1) neq neqB pB_def unfolding BAVL_rotate_def Let_def
    by auto
  have c: "parent m' a = parent m a"
    "link m' a = (if par = Some a then (link m a)((link m a True = Some r) := Some n) else link m a)"
    if "a \<in> ctx_nodes c" for a
    using that dis(2) inB new(3,4) by auto
  have "ctx_at m' (Some n) par c"
  proof (rule ctx_at_relink[OF ctx])
    show "case par of
        None \<Rightarrow> bv_root m' = Some n \<and> (\<forall>a \<in> ctx_nodes c. parent m' a = parent m a \<and> link m' a = link m a)
      | Some q \<Rightarrow> bv_root m' = bv_root m \<and> parent m' q = parent m q
          \<and> link m' q = (link m q)((link m q True = Some r) := Some n)
          \<and> (\<forall>a \<in> ctx_nodes c - {q}. parent m' a = parent m a \<and> link m' a = link m a)"
      using new(1) c par_in by (cases par) auto
  qed (use dis(2) distinct_ctx[OF dist] in auto)
  moreover have "tree_at m' (Some r) (link m r (\<not> b)) A = tree_at m (Some r) (link m r (\<not> b)) A"
    by (rule tree_at_cong) (use d dis(2) new(3,4) inB par_in in fastforce)
  moreover have "tree_at m' (Some n) (link m n b) C = tree_at m (Some n) (link m n b) C"
    by (rule tree_at_cong) (use d dis(2) new(3,4) inB par_in in fastforce)
  moreover have "tree_at m' (Some r) pB B"
    by (rule tree_at_reparent[OF n(3)[folded pB_def] d(10)]) (use d dis(2) new(3,4) par_in in fastforce)+
  ultimately show ?thesis using m' new d(1) r(3) n(2) by (simp add: tree_at_nd)
qed

section \<open>Balance factors\<close>

definition sg :: "bool \<Rightarrow> int" where
  "sg d = (if d then 1 else -1)"

abbreviation hgt :: "nat tree \<Rightarrow> int" where
  "hgt t \<equiv> int (height t)"

fun bal_at :: "bavl \<Rightarrow> nat tree \<Rightarrow> bool" where
  "bal_at m Leaf \<longleftrightarrow> True"
| "bal_at m (Node l a r) \<longleftrightarrow> balance m a = hgt r - hgt l \<and> \<bar>hgt r - hgt l\<bar> \<le> 1 \<and> bal_at m l \<and> bal_at m r"

text \<open>The factors on the way to the root, for a subtree of height \<open>h\<close>.\<close>

fun ctx_bal :: "bavl \<Rightarrow> int \<Rightarrow> frame list \<Rightarrow> bool" where
  "ctx_bal m h [] \<longleftrightarrow> True"
| "ctx_bal m h ((d, a, s) # c) \<longleftrightarrow> balance m a = sg d * (h - hgt s) \<and> \<bar>h - hgt s\<bar> \<le> 1 \<and> bal_at m s
     \<and> ctx_bal m (1 + max h (hgt s)) c"

lemma bal_at_nd: "bal_at m (nd d x a y) \<longleftrightarrow> balance m a = sg d * (hgt y - hgt x) \<and> \<bar>hgt y - hgt x\<bar> \<le> 1
    \<and> bal_at m x \<and> bal_at m y"
  by (auto simp: nd_def sg_def)

lemma bal_at_cong: "(\<And>a. a \<in> set_tree t \<Longrightarrow> balance m' a = balance m a) \<Longrightarrow> bal_at m' t = bal_at m t"
  by (induction t) auto

lemma ctx_bal_cong: "(\<And>a. a \<in> ctx_nodes c \<Longrightarrow> balance m' a = balance m a) \<Longrightarrow> ctx_bal m' h c = ctx_bal m h c"
proof (induction c arbitrary: h rule: ctx_nodes.induct)
  case (2 d a s c)
  then show ?case using bal_at_cong[of s m' m] by auto
qed simp

lemma bal_at_plug: "bal_at m (plug t c) \<longleftrightarrow> bal_at m t \<and> ctx_bal m (hgt t) c"
proof (induction t c rule: plug.induct)
  case (2 t d a s c)
  have "hgt (nd d s a t) = 1 + max (hgt t) (hgt s)" by simp
  with 2 show ?case by (auto simp: bal_at_nd)
qed simp

lemma bal_at_set_balance [simp]: "a \<notin> set_tree t \<Longrightarrow> bal_at (set_balance a b m) t = bal_at m t"
  by (rule bal_at_cong) auto

lemma ctx_bal_set_balance [simp]: "a \<notin> ctx_nodes c \<Longrightarrow> ctx_bal (set_balance a b m) h c = ctx_bal m h c"
  by (rule ctx_bal_cong) auto

lemma set_balance_at [simp]:
  "tree_at (set_balance a b m) par p t = tree_at m par p t" "ctx_at (set_balance a b m) p par c = ctx_at m p par c"
  by (auto intro!: tree_at_cong ctx_at_cong)

text \<open>
  What the transformations give for the subtree \<open>t\<close>, whose higher side has height \<open>h\<close>: a balanced subtree with the
  same nodes in order, lower by \<open>k\<close>.
\<close>

definition rotated :: "bavl \<Rightarrow> ptr \<Rightarrow> frame list \<Rightarrow> nat tree \<Rightarrow> int \<Rightarrow> int \<Rightarrow> (bavl \<times> nat \<times> int) run \<Rightarrow> bool" where
  "rotated m par c t h delta r \<longleftrightarrow> (\<exists>m' a' t' k. r = Inr (m', a', delta - k) \<and> ctx_at m' (Some a') par c
     \<and> tree_at m' par (Some a') t' \<and> inorder t' = inorder t \<and> bal_at m' t'
     \<and> hgt t' = h + 1 - k \<and> (k = 0 \<or> k = 1) \<and> (\<forall>x \<in> ctx_nodes c. balance m' x = balance m x))"

lemma bside: "balance m a = 2 * sg b \<Longrightarrow> (balance m a = 2) = b" "balance m a = 2 * sg b \<Longrightarrow> (if balance m a = 2 then 1 else -1) = sg b"
  by (auto simp: sg_def)

lemma single_rotation_at:
  assumes ctx: "ctx_at m (Some a) par c" and tree: "tree_at m par (Some a) (nd b L a (nd b X ch Y))"
    and dist: "distinct (inorder (plug (nd b L a (nd b X ch Y)) c))" and bal: "bal_at m L" "bal_at m (nd b X ch Y)"
    and h: "height (nd b X ch Y) = height L + 2" and ba: "balance m a = 2 * sg b" and k: "hgt Y - hgt X = 1 \<or> hgt Y - hgt X = 0"
  shows "rotated m par c (nd b L a (nd b X ch Y)) (hgt (nd b X ch Y)) delta (rebalance_rotate a delta m)"
proof -
  have disj: "distinct (inorder (nd b L a (nd b X ch Y)))"
    "insert a (insert ch (set_tree L \<union> set_tree X \<union> set_tree Y)) \<inter> ctx_nodes c = {}"
    using distinct_plug[OF dist] by auto
  have link: "link m a b = Some ch" using tree by (auto simp: tree_at_nd)
  have bch: "balance m ch * sg b = hgt Y - hgt X" using bal(2) by (auto simp: bal_at_nd sg_def)
  from rotate_at[OF ctx tree dist] obtain m1 where m1: "BAVL_rotate a (\<not> b) m = Inr m1"
    "ctx_at m1 (Some ch) par c" "tree_at m1 par (Some ch) (nd b (nd b L a X) ch Y)" "\<And>x. balance m1 x = balance m x"
    by blast
  define ka where "ka = (if hgt Y - hgt X = 1 then 0 else sg b)"
  define m' where "m' = set_balance ch (- ka) (set_balance a ka m1)"
  have "bal_at m' L" "bal_at m' X" "bal_at m' Y"
    by (subst bal_at_cong[of _ m' m]; use bal disj(1) m1(4) in \<open>auto simp: m'_def distinct_nd bal_at_nd\<close>)+
  moreover have "hgt L + 2 = hgt (nd b X ch Y)" "hgt (nd b X ch Y) = 1 + max (hgt X) (hgt Y)" using h by auto
  ultimately have "bal_at m' (nd b (nd b L a X) ch Y)"
    "hgt (nd b (nd b L a X) ch Y) = hgt (nd b X ch Y) + 1 - (hgt Y - hgt X)"
    using k disj(1) by (auto simp: bal_at_nd distinct_nd m'_def ka_def sg_def)
  moreover have "rebalance_rotate a delta m = Inr (m', ch, delta - (hgt Y - hgt X))"
    using k m1(1) link bch unfolding rebalance_rotate_def bside[OF ba] Let_def
    by (auto simp: m'_def ka_def sg_def split: if_splits)
  moreover have "inorder (nd b (nd b L a X) ch Y) = inorder (nd b L a (nd b X ch Y))" by (simp add: inorder_nd)
  moreover have "ctx_at m' (Some ch) par c" "tree_at m' par (Some ch) (nd b (nd b L a X) ch Y)"
    using m1(2,3) by (simp_all add: m'_def)
  moreover have "\<forall>x \<in> ctx_nodes c. balance m' x = balance m x" using disj(2) m1(4) by (auto simp: m'_def)
  ultimately show ?thesis unfolding rotated_def using k by blast
qed

text \<open>The two rotations of the third case, for the grandchild \<open>g\<close>.\<close>

lemma two_rotations_at:
  assumes ctx: "ctx_at m (Some a) par c" and tree: "tree_at m par (Some a) (nd b L a (nd b (nd b X1 g X2) ch Y))"
    and dist: "distinct (inorder (plug (nd b L a (nd b (nd b X1 g X2) ch Y)) c))"
  shows "\<exists>m1 m2. BAVL_rotate ch b m = Inr m1 \<and> BAVL_rotate a (\<not> b) m1 = Inr m2 \<and> ctx_at m2 (Some g) par c
    \<and> tree_at m2 par (Some g) (nd b (nd b L a X1) g (nd b X2 ch Y)) \<and> (\<forall>x. balance m2 x = balance m x)"
proof -
  have flip: "nd b (nd b X1 g X2) ch Y = nd (\<not> b) Y ch (nd (\<not> b) X2 g X1)" by (simp add: nd_flip)
  have "ctx_at m (Some ch) (Some a) ((b, a, L) # c)" "tree_at m (Some a) (Some ch) (nd (\<not> b) Y ch (nd (\<not> b) X2 g X1))"
    using ctx tree unfolding flip[symmetric] by (auto simp: tree_at_nd)
  moreover have "distinct (inorder (plug (nd (\<not> b) Y ch (nd (\<not> b) X2 g X1)) ((b, a, L) # c)))"
    using dist by (simp add: flip)
  ultimately obtain m1 where m1: "BAVL_rotate ch b m = Inr m1" "ctx_at m1 (Some g) (Some a) ((b, a, L) # c)"
    "tree_at m1 (Some a) (Some g) (nd (\<not> b) (nd (\<not> b) Y ch X2) g X1)" "\<And>x. balance m1 x = balance m x"
    using rotate_at[of m ch "Some a" "(b, a, L) # c" "\<not> b" Y X2 g X1] by auto
  have "nd (\<not> b) (nd (\<not> b) Y ch X2) g X1 = nd b X1 g (nd b X2 ch Y)" by (simp add: nd_flip)
  then have at: "ctx_at m1 (Some a) (parent m1 a) c"
    "tree_at m1 (parent m1 a) (Some a) (nd b L a (nd b X1 g (nd b X2 ch Y)))"
    using m1(2,3) by (auto simp: tree_at_nd)
  have "parent m1 a = par" using ctx at(1) by (cases c rule: ctx_nodes.cases) auto
  moreover have "distinct (inorder (plug (nd b L a (nd b X1 g (nd b X2 ch Y))) c))"
    using dist by (simp add: inorder_plug inorder_nd split: if_splits)
  ultimately show ?thesis
    using rotate_at[of m1 a par c b L X1 g "nd b X2 ch Y"] at m1(1,4) by auto
qed

lemma double_rotation_at:
  assumes ctx: "ctx_at m (Some a) par c" and tree: "tree_at m par (Some a) (nd b L a (nd b (nd b X1 g X2) ch Y))"
    and dist: "distinct (inorder (plug (nd b L a (nd b (nd b X1 g X2) ch Y)) c))"
    and bal: "bal_at m L" "bal_at m (nd b (nd b X1 g X2) ch Y)"
    and h: "height (nd b (nd b X1 g X2) ch Y) = height L + 2" and ba: "balance m a = 2 * sg b"
    and k: "hgt Y - hgt (nd b X1 g X2) = -1"
  shows "rotated m par c (nd b L a (nd b (nd b X1 g X2) ch Y)) (hgt (nd b (nd b X1 g X2) ch Y)) delta (rebalance_rotate a delta m)"
proof -
  let ?t = "nd b (nd b L a X1) g (nd b X2 ch Y)"
  from two_rotations_at[OF ctx tree dist] obtain m1 m2 where rot: "BAVL_rotate ch b m = Inr m1" "BAVL_rotate a (\<not> b) m1 = Inr m2"
    "ctx_at m2 (Some g) par c" "tree_at m2 par (Some g) ?t" "\<And>x. balance m2 x = balance m x" by blast
  have link: "link m a b = Some ch" "link m ch (\<not> b) = Some g" using tree by (auto simp: tree_at_nd)
  have bch: "balance m ch * sg b = -1" using bal(2) k by (auto simp: bal_at_nd sg_def)
  define kn where "kn = - max 0 (hgt X2 - hgt X1) * sg b"
  define kc where "kc = max 0 (hgt X1 - hgt X2) * sg b"
  define m' where "m' = set_balance g 0 (set_balance ch kc (set_balance a kn m2))"
  have bg: "balance m g = sg b * (hgt X2 - hgt X1)" "\<bar>hgt X2 - hgt X1\<bar> \<le> 1" using bal(2) by (auto simp: bal_at_nd)
  have dis: "distinct [a, ch, g]" "{a, ch, g} \<inter> (set_tree L \<union> set_tree X1 \<union> set_tree X2 \<union> set_tree Y \<union> ctx_nodes c) = {}"
    using distinct_plug[OF dist] by (auto simp: distinct_nd)
  have sub: "bal_at m' L" "bal_at m' X1" "bal_at m' X2" "bal_at m' Y"
    by (subst bal_at_cong[of _ m' m]; use bal dis rot(5) in \<open>auto simp: m'_def bal_at_nd\<close>)+
  have hs: "hgt L = max (hgt X1) (hgt X2)" "hgt Y = max (hgt X1) (hgt X2)"
    "hgt (nd b (nd b X1 g X2) ch Y) = 2 + max (hgt X1) (hgt X2)" using k h by auto
  have "bal_at m' ?t" "hgt ?t = hgt (nd b (nd b X1 g X2) ch Y) + 1 - 1"
    using sub hs bg(2) dis(1) by (auto simp: bal_at_nd m'_def kn_def kc_def sg_def)
  moreover have "rebalance_rotate a delta m = Inr (m', g, delta - 1)"
    using rot(1,2,5) link bch bg(1) dis(1) unfolding rebalance_rotate_def bside[OF ba] Let_def
    by (auto simp: m'_def kn_def kc_def sg_def)
  moreover have "inorder ?t = inorder (nd b L a (nd b (nd b X1 g X2) ch Y))" by (simp add: inorder_nd)
  moreover have "ctx_at m' (Some g) par c" "tree_at m' par (Some g) ?t" using rot(3,4) by (simp_all add: m'_def)
  moreover have "\<forall>x \<in> ctx_nodes c. balance m' x = balance m x" using dis(2) rot(5) by (auto simp: m'_def)
  ultimately show ?thesis unfolding rotated_def by blast
qed

lemma rebalance_rotate_at:
  assumes ctx: "ctx_at m (Some a) par c" and tree: "tree_at m par (Some a) (nd b L a H)"
    and dist: "distinct (inorder (plug (nd b L a H) c))" and bal: "bal_at m L" "bal_at m H"
    and h: "height H = height L + 2" and ba: "balance m a = 2 * sg b"
  shows "rotated m par c (nd b L a H) (hgt H) delta (rebalance_rotate a delta m)"
proof -
  obtain X ch Y where H: "H = nd b X ch Y" using h nd_exhaust[of H b] by fastforce
  have "\<bar>hgt Y - hgt X\<bar> \<le> 1" using bal(2) by (auto simp: H bal_at_nd)
  then consider "hgt Y - hgt X = 1 \<or> hgt Y - hgt X = 0" | "hgt Y - hgt X = -1" by linarith
  then show ?thesis
  proof cases
    case 1
    with single_rotation_at[OF assms(1-7)[unfolded H]] show ?thesis unfolding H by blast
  next
    case 2
    then obtain X1 g X2 where X: "X = nd b X1 g X2" using nd_exhaust[of X b] by fastforce
    with 2 double_rotation_at[OF assms(1-7)[unfolded H X]] show ?thesis unfolding H X by blast
  qed
qed

lemma ctx_side:
  assumes "ctx_at m (Some n) par ((d, a, s) # c)" and "n \<notin> set_tree s"
  shows "(link m a True = Some n) = d"
  using assms tree_at_root[of m "Some a" n s] by (cases d) auto

lemma rebalance_step_at:
  assumes ctx: "ctx_at m p par ((d, a, s) # c)" and tree: "tree_at m par p t"
    and dist: "distinct (inorder (plug t ((d, a, s) # c)))" and bal: "bal_at m t"
    and cb: "ctx_bal m (hgt t - \<delta>) ((d, a, s) # c)" and \<delta>: "\<delta> = 1 \<or> \<delta> = -1"
  shows "\<exists>m' a' \<delta>' t'. rebalance_step a d \<delta> m = Inr (m', a', \<delta>') \<and> ctx_at m' (Some a') (parent m a) c
    \<and> tree_at m' (parent m a) (Some a') t' \<and> inorder t' = inorder (nd d s a t) \<and> bal_at m' t'
    \<and> ctx_bal m' (hgt t' - \<delta>') c \<and> -1 \<le> \<delta>' \<and> \<delta>' \<le> 1"
proof -
  let ?W = "nd d s a t"
  define h where "h = hgt t - \<delta>"
  define delta where "delta = max (h + \<delta>) (hgt s) - max h (hgt s)"
  define m1 where "m1 = set_balance a (sg d * (hgt t - hgt s)) m"
  have b: "balance m a = sg d * (h - hgt s)" "\<bar>h - hgt s\<bar> \<le> 1" "bal_at m s" "ctx_bal m (1 + max h (hgt s)) c"
    using cb by (auto simp: h_def)
  have dis: "a \<notin> set_tree s" "a \<notin> set_tree t" "a \<notin> ctx_nodes c" using distinct_plug[of ?W c] dist by (auto simp: distinct_nd)
  have at: "ctx_at m1 (Some a) (parent m a) c" "tree_at m1 (parent m a) (Some a) ?W"
    using ctx tree by (auto simp: m1_def tree_at_nd)
  have sub: "bal_at m1 s" "bal_at m1 t" "ctx_bal m1 (1 + max h (hgt s)) c"
    using bal b dis by (auto simp: m1_def)
  have range: "-1 \<le> delta" "delta \<le> 1" "1 + max h (hgt s) = hgt ?W - delta"
    using \<delta> by (auto simp: delta_def h_def)
  have start: "rebalance_step a d \<delta> m
      = (if \<bar>hgt t - hgt s\<bar> = 2 then rebalance_rotate a delta m1 else Inr (m1, a, delta))"
  proof -
    have "max \<delta> (BAVL_OPTNEG (balance m a) d) - max 0 (BAVL_OPTNEG (balance m a) d) = delta"
      "balance m a - BAVL_OPTNEG \<delta> d = sg d * (hgt t - hgt s)"
      using b(1) by (auto simp: BAVL_OPTNEG_def sg_def delta_def h_def)
    then show ?thesis using range(1,2) by (auto simp: rebalance_step_def Let_def m1_def sg_def)
  qed
  show ?thesis
  proof (cases "\<bar>hgt t - hgt s\<bar> = 2")
    case False
    then have "bal_at m1 ?W" using sub b(2) \<delta> by (auto simp: bal_at_nd m1_def h_def)
    with False start at sub(3) range show ?thesis by auto
  next
    case True
    define bs where "bs = (if hgt t - hgt s = 2 then d else \<not> d)"
    define L where "L = (if hgt t - hgt s = 2 then s else t)"
    define H where "H = (if hgt t - hgt s = 2 then t else s)"
    have W: "?W = nd bs L a H" by (simp add: bs_def L_def H_def nd_flip)
    have LH: "bal_at m1 L" "bal_at m1 H" "height H = height L + 2" "balance m1 a = 2 * sg bs"
      using True sub by (auto simp: L_def H_def bs_def m1_def sg_def)
    obtain m' a' t' k where "rebalance_rotate a delta m1 = Inr (m', a', delta - k)" "ctx_at m' (Some a') (parent m a) c"
      "tree_at m' (parent m a) (Some a') t'" "inorder t' = inorder ?W" "bal_at m' t'" "hgt t' = hgt H + 1 - k"
      "k = 0 \<or> k = 1" "\<forall>x \<in> ctx_nodes c. balance m' x = balance m1 x"
      using rebalance_rotate_at[OF at[unfolded W] _ LH] dist unfolding plug.simps W rotated_def by blast
    moreover from this have "ctx_bal m' (1 + max h (hgt s)) c" using ctx_bal_cong[of c m' m1] sub(3) by simp
    moreover have "hgt H + 1 - delta = 1 + max h (hgt s)"
      using range(3) True LH(3) by (auto simp: H_def L_def)
    moreover from calculation have "hgt t' - (delta - k) = 1 + max h (hgt s)" by linarith
    moreover have "0 \<le> delta" using \<delta> b(2) True by (auto simp: delta_def h_def)
    ultimately show ?thesis
      using True start range(2) by (intro exI[of _ m'] exI[of _ a'] exI[of _ "delta - k"] exI[of _ t']) auto
  qed
qed

lemma tree_at_parent: "tree_at m par (Some a) t \<Longrightarrow> parent m a = par"
  by (cases t) auto

text \<open>One call of the function, with the way its recursion goes.\<close>

lemma rebalance_call:
  assumes ctx: "ctx_at m p par ((d, a, s) # c)" and tree: "tree_at m par p t"
    and dist: "distinct (inorder (plug t ((d, a, s) # c)))" and bal: "bal_at m t"
    and cb: "ctx_bal m (hgt t - \<delta>) ((d, a, s) # c)" and \<delta>: "-1 \<le> \<delta>" "\<delta> \<le> 1" "\<delta> \<noteq> 0"
  shows "\<exists>m' a' \<delta>' t' q. ctx_at m' (Some a') q c \<and> tree_at m' q (Some a') t' \<and> inorder t' = inorder (nd d s a t)
    \<and> bal_at m' t' \<and> ctx_bal m' (hgt t' - \<delta>') c \<and> -1 \<le> \<delta>' \<and> \<delta>' \<le> 1
    \<and> BAVL_rebalance a d \<delta> m = (case c of
         [] \<Rightarrow> Some (Inr m') | (d2, a2, s2) # _ \<Rightarrow> BAVL_rebalance a2 d2 \<delta>' m')"
proof -
  from \<delta> have "\<delta> = 1 \<or> \<delta> = -1" by linarith
  from rebalance_step_at[OF ctx tree dist bal cb this] obtain m' a' \<delta>' t' where
    st: "rebalance_step a d \<delta> m = Inr (m', a', \<delta>')" and at: "ctx_at m' (Some a') (parent m a) c"
    "tree_at m' (parent m a) (Some a') t'" and t': "inorder t' = inorder (nd d s a t)" "bal_at m' t'"
    "ctx_bal m' (hgt t' - \<delta>') c" "-1 \<le> \<delta>'" "\<delta>' \<le> 1" by blast
  have dist': "distinct (inorder (plug t' c))" using dist t'(1) by (simp add: inorder_plug)
  have "-1 \<le> balance m a" "balance m a \<le> 1" using cb by (auto simp: sg_def)
  then have call: "BAVL_rebalance a d \<delta> m = (case parent m a of
      None \<Rightarrow> Some (Inr m') | Some p \<Rightarrow> BAVL_rebalance p (link m' p True = Some a') \<delta>' m')"
    using \<delta> st t'(4,5) tree_at_parent[OF at(2)] by (simp add: BAVL_rebalance.simps[of a])
  have "BAVL_rebalance a d \<delta> m = (case c of
      [] \<Rightarrow> Some (Inr m') | (d2, a2, s2) # _ \<Rightarrow> BAVL_rebalance a2 d2 \<delta>' m')"
  proof (cases c rule: ctx_nodes.cases)
    case 1
    then show ?thesis using call at(1) by simp
  next
    case (2 d2 a2 s2 c2)
    have "a' \<in> set_tree t'" by (rule tree_at_root[OF at(2)])
    then have "a' \<notin> set_tree s2" using distinct_plug[OF dist'] 2 by auto
    then show ?thesis using call at(1) ctx_side[of m' a' "parent m a" d2 a2 s2 c2] 2 by simp
  qed
  with at t' show ?thesis by blast
qed

lemma rebalance_nothing:
  assumes "ctx_at m p par ((d, a, s) # c)" and "tree_at m par p t" and "bal_at m t" and "ctx_bal m (hgt t) ((d, a, s) # c)"
  shows "BAVL_rebalance a d 0 m = Some (Inr m) \<and> tree_at m None (bv_root m) (plug t ((d, a, s) # c))
    \<and> bal_at m (plug t ((d, a, s) # c))"
proof -
  have "tree_at m None (bv_root m) (plug t ((d, a, s) # c))" unfolding plug_at using assms(1,2) by blast
  moreover have "bal_at m (plug t ((d, a, s) # c))" unfolding bal_at_plug using assms(3,4) by blast
  moreover have "BAVL_rebalance a d 0 m = Some (Inr m)" using assms(4) by (auto simp: BAVL_rebalance.simps[of a] sg_def)
  ultimately show ?thesis by blast
qed

lemma rebalance_at:
  assumes "ctx_at m p par ((d, a, s) # c)" and "tree_at m par p t"
    and "distinct (inorder (plug t ((d, a, s) # c)))" and "bal_at m t"
    and "ctx_bal m (hgt t - \<delta>) ((d, a, s) # c)" and "-1 \<le> \<delta>" and "\<delta> \<le> 1"
  shows "\<exists>m' t'. BAVL_rebalance a d \<delta> m = Some (Inr m') \<and> tree_at m' None (bv_root m') t'
    \<and> inorder t' = inorder (plug t ((d, a, s) # c)) \<and> bal_at m' t'"
  using assms
proof (induction c arbitrary: m p par d a s t \<delta>)
  case Nil
  show ?case
  proof (cases "\<delta> = 0")
    case True
    then show ?thesis using rebalance_nothing[OF Nil(1,2,4)] Nil(5) unfolding True diff_0_right by blast
  next
    case False
    from rebalance_call[OF Nil False] show ?thesis by auto
  qed
next
  case (Cons f c)
  show ?case
  proof (cases "\<delta> = 0")
    case True
    then show ?thesis
      using rebalance_nothing[OF Cons.prems(1,2,4)] Cons.prems(5) unfolding True diff_0_right by blast
  next
    case False
    obtain d2 a2 s2 where f: "f = (d2, a2, s2)" by (cases f)
    from rebalance_call[OF Cons.prems False] obtain m' a' \<delta>' t' q where
      s: "ctx_at m' (Some a') q (f # c)" "tree_at m' q (Some a') t'" "bal_at m' t'" "ctx_bal m' (hgt t' - \<delta>') (f # c)"
      "-1 \<le> \<delta>'" "\<delta>' \<le> 1" and e: "inorder t' = inorder (nd d s a t)"
      and call: "BAVL_rebalance a d \<delta> m = BAVL_rebalance a2 d2 \<delta>' m'" by (auto simp: f)
    have i: "inorder (plug t' (f # c)) = inorder (plug t ((d, a, s) # f # c))" using e by (simp add: inorder_plug)
    show ?thesis
      using Cons.IH[of m' "Some a'" q d2 a2 s2 t' \<delta>'] s i Cons.prems(3) call unfolding f by auto
  qed
qed

end
