(* ===== verification/BAVL_Removal.thy ===== *)
theory BAVL_Removal
  imports BAVL
begin

text \<open>
  Removal from the AVL tree of \<^verbatim>\<open>BAVL.h\<close>. A node with at most one subtree is replaced by it and the way to
  the root is balanced; a node with two subtrees is exchanged with its predecessor first. The exchange
  rewires up to eight pointers; what it does is stated as a renaming of the two nodes in the whole memory
  (\<open>exchanged\<close>), under which the tree predicates are invariant.
\<close>

section \<open>Removal\<close>

lemma ctx_parent: "ctx_at m p (Some q) c \<Longrightarrow> q \<in> ctx_nodes c"
  by (cases c rule: ctx_nodes.cases) auto

lemma replace_at:
  assumes ctx: "ctx_at m (Some n) par c" and tree: "tree_at m par (Some n) (nd d X n Leaf)"
    and dist: "distinct (inorder (plug (nd d X n Leaf) c))" and px: "px = link m n (\<not> d)"
    and m1: "m1 = BAVL_replace_subtree n px m"
  shows "ctx_at m1 px par c" and "tree_at m1 par px X" and "balance m1 x = balance m x"
proof -
  have dis: "distinct (inorder X)" "n \<notin> set_tree X" "insert n (set_tree X) \<inter> ctx_nodes c = {}"
    using distinct_plug[OF dist] by (auto simp: distinct_nd)
  have n: "parent m n = par" "tree_at m (Some n) px X" using tree px by (auto simp: tree_at_nd)
  have inX: "z \<in> set_tree X" if "px = Some z" for z using n(2) tree_at_root that by auto
  have new: "parent m1 z = (if px = Some z then par else parent m z)"
    "link m1 z = (if par = Some z then (link m z)((link m z True = Some n) := px) else link m z)"
    "bv_root m1 = (if par = None then px else bv_root m)" "balance m1 z = balance m z" for z
    using n(1) by (cases px; simp add: m1 BAVL_replace_subtree_def Let_def)+
  show "balance m1 x = balance m x" by (rule new(4))
  show "ctx_at m1 px par c"
  proof (rule ctx_at_relink[OF ctx])
    show "case par of
        None \<Rightarrow> bv_root m1 = px \<and> (\<forall>a \<in> ctx_nodes c. parent m1 a = parent m a \<and> link m1 a = link m a)
      | Some q \<Rightarrow> bv_root m1 = bv_root m \<and> parent m1 q = parent m q
          \<and> link m1 q = (link m q)((link m q True = Some n) := px)
          \<and> (\<forall>a \<in> ctx_nodes c - {q}. parent m1 a = parent m a \<and> link m1 a = link m a)"
      using new(1-3) inX dis(3) ctx_parent[of m "Some n" _ c] ctx by (fastforce split: option.split)
  qed (use dis distinct_ctx[OF dist] in auto)
  show "tree_at m1 par px X"
    by (rule tree_at_reparent[OF n(2) dis(1)]) (use new(1,2) ctx_parent[of m "Some n" _ c] ctx dis(3) in fastforce)+
qed

lemma remove_single_at:
  assumes ctx: "ctx_at m (Some n) par c" and tree: "tree_at m par (Some n) (nd d X n Leaf)"
    and dist: "distinct (inorder (plug (nd d X n Leaf) c))" and bal: "bal_at m (plug (nd d X n Leaf) c)"
  shows "\<exists>m' t'. remove_single n m = Some (Inr m') \<and> tree_at m' None (bv_root m') t'
    \<and> inorder t' = lefts c @ inorder X @ rights c \<and> bal_at m' t'"
proof -
  define px where "px = link m n (\<not> d)"
  define m1 where "m1 = BAVL_replace_subtree n px m"
  note at = replace_at[OF ctx tree dist px_def m1_def]
  have n: "parent m n = par" "link m n d = None" using tree by (auto simp: tree_at_nd)
  have child: "(if link m n False \<noteq> None then link m n False else link m n True) = px"
    using n(2) by (cases d) (auto simp: px_def)
  have bal1: "bal_at m1 X" "ctx_bal m1 (hgt X + 1) c"
    using bal bal_at_cong[of X m1 m] ctx_bal_cong[of c m1 m] at(3)
    by (auto simp: bal_at_plug bal_at_nd add.commute)
  have dist1: "distinct (inorder (plug X c))" using dist by (auto simp: inorder_plug inorder_nd split: if_splits)
  show ?thesis
  proof (cases c rule: ctx_nodes.cases)
    case 1
    then have "remove_single n m = Some (Inr m1)"
      using ctx n child by (cases d) (auto simp: remove_single_def Let_def m1_def)
    then show ?thesis using 1 at bal1(1) by auto
  next
    case (2 e a s c')
    have "n \<notin> set_tree s" using distinct_plug[OF dist] 2 by auto
    then have side: "par = Some a" "(link m a True = Some n) = e" using ctx_side[of m n par e a s c'] ctx 2 by auto
    have "remove_single n m = BAVL_rebalance a e (-1) m1"
      using n child side by (cases d) (auto simp: remove_single_def Let_def m1_def)
    moreover have "\<exists>m' t'. BAVL_rebalance a e (-1) m1 = Some (Inr m') \<and> tree_at m' None (bv_root m') t'
      \<and> inorder t' = inorder (plug X ((e, a, s) # c')) \<and> bal_at m' t'"
      by (rule rebalance_at) (use at bal1 dist1 2 in auto)
    ultimately show ?thesis using 2 inorder_plug[of X c] by simp
  qed
qed

section \<open>Exchange of two nodes\<close>

definition swp :: "nat \<Rightarrow> nat \<Rightarrow> nat \<Rightarrow> nat" where
  "swp n1 n2 x = (if x = n1 then n2 else if x = n2 then n1 else x)"

lemma swp_swp [simp]: "swp n1 n2 (swp n1 n2 x) = x"
  by (simp add: swp_def)

text \<open>What the pointers of a tree with the nodes \<open>S\<close> look like at every node.\<close>

definition linked :: "bavl \<Rightarrow> nat set \<Rightarrow> bool" where
  "linked m S \<longleftrightarrow>
     (\<forall>a \<in> S. \<forall>d b. link m a d = Some b \<longrightarrow> b \<in> S \<and> b \<noteq> a \<and> parent m b = Some a \<and> link m a (\<not> d) \<noteq> Some b)
     \<and> (\<forall>a \<in> S. \<forall>q. parent m a = Some q \<longrightarrow> q \<in> S \<and> q \<noteq> a \<and> (\<exists>d. link m q d = Some a))
     \<and> (\<forall>a \<in> S. (parent m a = None) = (bv_root m = Some a))"

lemma plug_append: "plug t (c @ c') = plug (plug t c) c'"
  by (induction t c rule: plug.induct) auto

lemma in_plug: "a \<in> set_tree t \<Longrightarrow> \<exists>l r c. t = plug (Node l a r) c"
proof (induction t)
  case (Node l x r)
  consider "a = x" | "a \<in> set_tree l" | "a \<in> set_tree r" using Node.prems by auto
  then show ?case
  proof cases
    case 1
    then show ?thesis using plug.simps(1) by metis
  next
    case 2
    then obtain l' r' c where "l = plug (Node l' a r') c" using Node.IH(1) by blast
    then have "Node l x r = plug (Node l' a r') (c @ [(False, x, r)])" by (simp add: plug_append nd_def)
    then show ?thesis by blast
  next
    case 3
    then obtain l' r' c where "r = plug (Node l' a r') c" using Node.IH(2) by blast
    then have "Node l x r = plug (Node l' a r') (c @ [(True, x, l)])" by (simp add: plug_append nd_def)
    then show ?thesis by blast
  qed
qed simp

lemma set_plug: "set_tree (plug t c) = set_tree t \<union> ctx_nodes c"
  by (induction t c rule: plug.induct) auto

lemma linked_child:
  assumes "tree_at m par (Some a) (nd d x a y)" and "distinct (inorder (nd d x a y))" and "link m a d = Some b"
  shows "b \<in> set_tree y \<and> b \<noteq> a \<and> parent m b = Some a \<and> link m a (\<not> d) \<noteq> Some b"
proof -
  have "tree_at m (Some a) (Some b) y" "tree_at m (Some a) (link m a (\<not> d)) x"
    using assms(1,3) by (auto simp: tree_at_nd)
  then have "b \<in> set_tree y" "parent m b = Some a" "\<And>z. link m a (\<not> d) = Some z \<Longrightarrow> z \<in> set_tree x"
    using tree_at_root[of m "Some a"] tree_at_parent[of m "Some a"] by auto
  then show ?thesis using assms(2) unfolding distinct_nd by blast
qed

lemma linked_tree:
  assumes "tree_at m None (bv_root m) t" and "distinct (inorder t)"
  shows "linked m (set_tree t)"
  unfolding linked_def
proof (intro conjI ballI allI impI)
  fix a assume "a \<in> set_tree t"
  then obtain l r c where t: "t = plug (Node l a r) c" using in_plug by blast
  then obtain par where at: "ctx_at m (Some a) par c" "tree_at m par (Some a) (Node l a r)"
    using assms(1) unfolding t plug_at by auto
  have dis: "distinct (inorder (Node l a r))" "set_tree (Node l a r) \<inter> ctx_nodes c = {}"
    using distinct_plug assms(2) unfolding t by blast+
  have par: "parent m a = par" using at(2) by simp
  { fix d b assume "link m a d = Some b"
    moreover have "Node l a r = nd d (if d then l else r) a (if d then r else l)" by (simp add: nd_def)
    ultimately have "b \<in> set_tree (Node l a r) \<and> b \<noteq> a \<and> parent m b = Some a \<and> link m a (\<not> d) \<noteq> Some b"
      using linked_child[of m par a d] at(2) dis(1) by auto
    then show "b \<in> set_tree t" "b \<noteq> a" "parent m b = Some a" "link m a (\<not> d) \<noteq> Some b"
      by (auto simp: t set_plug) }
  { fix q assume "parent m a = Some q"
    then obtain d s c' where "c = (d, q, s) # c'" "link m q d = Some a"
      using at(1) par by (cases c rule: ctx_nodes.cases) auto
    then show "q \<in> set_tree t" "q \<noteq> a" "\<exists>d. link m q d = Some a" using dis(2) by (auto simp: t set_plug) }
  show "(parent m a = None) = (bv_root m = Some a)"
    using at(1) par assms(1) tree_at_parent[of m None a t] by (cases c rule: ctx_nodes.cases) auto
qed

lemma tree_at_swap:
  assumes "tree_at m par p t"
    and "\<And>x. x \<in> set_tree t \<Longrightarrow> parent m' (swp n1 n2 x) = map_option (swp n1 n2) (parent m x)"
    and "\<And>x d. x \<in> set_tree t \<Longrightarrow> link m' (swp n1 n2 x) d = map_option (swp n1 n2) (link m x d)"
  shows "tree_at m' (map_option (swp n1 n2) par) (map_option (swp n1 n2) p) (map_tree (swp n1 n2) t)"
  using assms
proof (induction t arbitrary: par p)
  case (Node l a r)
  then show ?case using Node.IH(1)[of "Some a"] Node.IH(2)[of "Some a"] by auto
qed simp

lemma bal_at_swap:
  assumes "bal_at m t" and "\<And>x. x \<in> set_tree t \<Longrightarrow> balance m' (swp n1 n2 x) = balance m x"
  shows "bal_at m' (map_tree (swp n1 n2) t)"
  using assms by (induction t) auto

text \<open>Memory \<open>m'\<close> is memory \<open>m\<close> with the nodes \<open>n1\<close> and \<open>n2\<close> exchanged.\<close>

definition exchanged :: "nat \<Rightarrow> nat \<Rightarrow> bavl \<Rightarrow> bavl \<Rightarrow> nat set \<Rightarrow> bool" where
  "exchanged n1 n2 m m' S \<longleftrightarrow>
     (\<forall>x \<in> S. parent m' (swp n1 n2 x) = map_option (swp n1 n2) (parent m x)
        \<and> (\<forall>d. link m' (swp n1 n2 x) d = map_option (swp n1 n2) (link m x d)))
     \<and> bv_root m' = map_option (swp n1 n2) (bv_root m)"

lemma swap_apart_fields:
  assumes "parent m n2 \<noteq> Some n1" and "parent m n1 \<noteq> Some n2" and "parent m n1 \<noteq> Some n1" and "parent m n2 \<noteq> Some n2"
    and "n1 \<noteq> n2" and "parent m n1 \<noteq> parent m n2" and disj: "\<forall>d e y. link m n1 d = Some y \<longrightarrow> link m n2 e \<noteq> Some y"
    and m': "m' = BAVL_swap_apart n1 n2 m"
  shows "parent m' x = (if \<exists>d. link m n1 d = Some x then Some n2 else if \<exists>d. link m n2 d = Some x then Some n1
      else if x = n1 then parent m n2 else if x = n2 then parent m n1 else parent m x)"
    and "link m' x = (if x = n1 then link m n2 else if x = n2 then link m n1
      else if parent m n2 = Some x then (link m x)((link m x True = Some n2) := Some n1)
      else if parent m n1 = Some x then (link m x)((link m x True = Some n1) := Some n2) else link m x)"
    and "bv_root m' = (if parent m n1 = None then Some n2 else if parent m n2 = None then Some n1 else bv_root m)"
    and "balance m' x = balance m x"
proof -
  define mp where "mp = relink (parent m n1) n1 (Some n2) (set_parent n2 (parent m n1)
    (relink (parent m n2) n2 (Some n1) (set_parent n1 (parent m n2) m)))"
  have mp: "parent mp x = (if x = n1 then parent m n2 else if x = n2 then parent m n1 else parent m x)"
    "link mp n1 = link m n1" "link mp n2 = link m n2" "balance mp x = balance m x" for x
    using assms by (auto simp: mp_def)
  have lp: "link mp x = (if parent m n2 = Some x then (link m x)((link m x True = Some n2) := Some n1)
      else if parent m n1 = Some x then (link m x)((link m x True = Some n1) := Some n2) else link m x)" for x
    using assms by (auto simp: mp_def)
  have m'': "m' = adopt n2 True (link m n1 True) (adopt n1 True (link m n2 True) (adopt n2 False (link m n1 False)
    (adopt n1 False (link m n2 False) mp)))"
    using assms(1-6) mp(2,3) by (simp add: m' BAVL_swap_apart_def Let_def mp_def)
  show "parent m' x = (if \<exists>d. link m n1 d = Some x then Some n2 else if \<exists>d. link m n2 d = Some x then Some n1
      else if x = n1 then parent m n2 else if x = n2 then parent m n1 else parent m x)"
    using mp(1) disj by (auto simp: m'' ex_bool_eq)
  show "link m' x = (if x = n1 then link m n2 else if x = n2 then link m n1
      else if parent m n2 = Some x then (link m x)((link m x True = Some n2) := Some n1)
      else if parent m n1 = Some x then (link m x)((link m x True = Some n1) := Some n2) else link m x)"
    using mp(2,3) lp assms(1-5) by (auto simp: m'' fun_eq_iff)
  show "bv_root m' = (if parent m n1 = None then Some n2 else if parent m n2 = None then Some n1 else bv_root m)"
    by (simp add: m'' mp_def)
  show "balance m' x = balance m x" using mp(4) by (simp add: m'')
qed

lemma linkedD:
  assumes "linked m S" and "a \<in> S"
  shows "link m a d = Some b \<Longrightarrow> b \<in> S \<and> b \<noteq> a \<and> parent m b = Some a \<and> link m a (\<not> d) \<noteq> Some b"
    and "parent m a = Some q \<Longrightarrow> q \<in> S \<and> q \<noteq> a \<and> (\<exists>d. link m q d = Some a)"
    and "(parent m a = None) = (bv_root m = Some a)"
  using assms unfolding linked_def by blast+

lemma linked_iff:
  assumes "linked m S" and "x \<in> S" and "n \<in> S"
  shows "link m x d = Some n \<longleftrightarrow> parent m n = Some x \<and> (link m x True = Some n) = d"
    and "(\<exists>d. link m x d = Some n) \<longleftrightarrow> parent m n = Some x"
proof -
  have "\<exists>d. link m x d = Some n" if "parent m n = Some x" using linkedD(2)[OF assms(1,3) that] by blast
  moreover have "parent m n = Some x \<and> (link m x True = Some n) = d" if "link m x d = Some n" for d
    using linkedD(1)[OF assms(1,2) that] that by (cases d) auto
  ultimately show "link m x d = Some n \<longleftrightarrow> parent m n = Some x \<and> (link m x True = Some n) = d"
    "(\<exists>d. link m x d = Some n) \<longleftrightarrow> parent m n = Some x" by (cases d; blast)+
qed

lemma swap_apart_exchanges:
  assumes l: "linked m S" and S: "n1 \<in> S" "n2 \<in> S" and "n1 \<noteq> n2" and "parent m n1 \<noteq> parent m n2"
    and "parent m n2 \<noteq> Some n1" and "parent m n1 \<noteq> Some n2" and m': "m' = BAVL_swap_apart n1 n2 m"
  shows "exchanged n1 n2 m m' S" and "balance m' x = balance m x"
proof -
  have self: "parent m n1 \<noteq> Some n1" "parent m n2 \<noteq> Some n2" using linkedD(2)[OF l] S by blast+
  have disj: "\<forall>d e y. link m n1 d = Some y \<longrightarrow> link m n2 e \<noteq> Some y"
    using linkedD(1)[OF l S(1)] linkedD(1)[OF l S(2)] assms(4) by force
  note f = swap_apart_fields[OF assms(6,7) self assms(4,5) disj m']
  show "balance m' x = balance m x" by (rule f(4))
  have "parent m' (swp n1 n2 x) = map_option (swp n1 n2) (parent m x)" if "x \<in> S" for x
    using that assms(4-7) self S unfolding f(1)
    by (cases "parent m x") (auto simp: swp_def linked_iff(2)[OF l])
  moreover have "link m' (swp n1 n2 x) d = map_option (swp n1 n2) (link m x d)" if x: "x \<in> S" for x d
  proof (cases "x = n1 \<or> x = n2")
    case True
    then have "b \<noteq> n1" "b \<noteq> n2" if "link m x d = Some b" for b using linkedD(1)[OF l x that] assms(6,7) by auto
    with True assms(4) f(2)[of "swp n1 n2 x"] show ?thesis by (cases "link m x d") (auto simp: swp_def)
  next
    case False
    then have sx: "swp n1 n2 x = x" by (simp add: swp_def)
    note at = linked_iff(1)[OF l x S(1), of d] linked_iff(1)[OF l x S(2), of d]
    consider "link m x d = Some n1" | "link m x d = Some n2" | "link m x d \<noteq> Some n1" "link m x d \<noteq> Some n2" by blast
    then show ?thesis
    proof cases
      case 3
      then have "link m' x d = link m x d" using at f(2)[of x] False by simp
      then show ?thesis using 3 unfolding sx by (cases "link m x d") (auto simp: swp_def)
    qed (use at f(2)[of x] False assms(4,5) in \<open>simp_all add: sx, simp_all add: swp_def\<close>)
  qed
  moreover have "bv_root m' = map_option (swp n1 n2) (bv_root m)"
    unfolding f(3) using linkedD(3)[OF l S(1)] linkedD(3)[OF l S(2)] assms(4,5) by (cases "bv_root m") (auto simp: swp_def)
  ultimately show "exchanged n1 n2 m m' S" unfolding exchanged_def by blast
qed

lemma swap_adjacent_fields:
  assumes "link m n1 side = Some n2" and "link m n1 (\<not> side) \<noteq> Some n2" and "parent m n1 \<noteq> Some n1" and "parent m n1 \<noteq> Some n2"
    and "n1 \<noteq> n2" and "\<forall>d. link m n2 d \<noteq> Some n1" and "\<forall>d. link m n2 d \<noteq> Some n2" and "link m n1 (\<not> side) \<noteq> Some n1"
    and m': "m' = BAVL_swap_adjacent n1 n2 m"
  shows "parent m' x = (if x = n1 then Some n2 else if x = n2 then parent m n1
      else if link m n1 (\<not> side) = Some x then Some n2 else if \<exists>d. link m n2 d = Some x then Some n1 else parent m x)"
    and "link m' x = (if x = n2 then (link m n1)(side := Some n1) else if x = n1 then link m n2
      else if parent m n1 = Some x then (link m x)((link m x True = Some n1) := Some n2) else link m x)"
    and "bv_root m' = (if parent m n1 = None then Some n2 else bv_root m)"
    and "balance m' x = balance m x"
proof -
  have side: "(link m n1 True = Some n2) = side" using assms(1,2) by (cases side) auto
  define mc where "mc = adopt n1 True (link m n2 True) (adopt n1 False (link m n2 False) m)"
  have mc: "parent mc z = (if \<exists>d. link m n2 d = Some z then Some n1 else parent m z)"
    "link mc z = (if z = n1 then link m n2 else link m z)" "bv_root mc = bv_root m" "balance mc z = balance m z" for z
    using assms(5) by (auto simp: mc_def ex_bool_eq fun_eq_iff)
  have p: "parent mc n1 = parent m n1" using mc(1) assms(6) by simp
  have m'': "m' = adopt n2 (\<not> side) (link m n1 (\<not> side)) (set_parent n1 (Some n2) (set_link n2 side (Some n1)
    (relink (parent m n1) n1 (Some n2) (set_parent n2 (parent m n1) mc))))"
    using p assms(5) unfolding m' BAVL_swap_adjacent_def Let_def side by (simp add: mc_def)
  show "parent m' x = (if x = n1 then Some n2 else if x = n2 then parent m n1
      else if link m n1 (\<not> side) = Some x then Some n2 else if \<exists>d. link m n2 d = Some x then Some n1 else parent m x)"
    using mc(1) assms(2,8) by (simp add: m'')
  show "link m' x = (if x = n2 then (link m n1)(side := Some n1) else if x = n1 then link m n2
      else if parent m n1 = Some x then (link m x)((link m x True = Some n1) := Some n2) else link m x)"
    using mc(2) assms(3-5) by (cases side) (auto simp: m'' fun_eq_iff)
  show "bv_root m' = (if parent m n1 = None then Some n2 else bv_root m)" by (simp add: m'' mc(3))
  show "balance m' x = balance m x" by (simp add: m'' mc(4))
qed

lemma swap_adjacent_exchanges:
  assumes l: "linked m S" and S: "n1 \<in> S" "n2 \<in> S" and par: "parent m n2 = Some n1" "parent m n1 \<noteq> Some n2"
    and m': "m' = BAVL_swap_adjacent n1 n2 m"
  shows "exchanged n1 n2 m m' S" and "balance m' x = balance m x"
proof -
  obtain side where side: "link m n1 side = Some n2" using linkedD(2)[OF l S(2) par(1)] by blast
  have n: "n1 \<noteq> n2" "parent m n1 \<noteq> Some n1" "link m n1 (\<not> side) \<noteq> Some n2" "link m n1 (\<not> side) \<noteq> Some n1"
    "\<forall>d. link m n2 d \<noteq> Some n1" "\<forall>d. link m n2 d \<noteq> Some n2"
    using linkedD(1)[OF l S(1)] linkedD(1)[OF l S(2)] linkedD(2)[OF l S(1)] side par by blast+
  note f = swap_adjacent_fields[OF side n(3,2) par(2) n(1,5,6,4) m']
  show "balance m' x = balance m x" by (rule f(4))
  have other: "link m n1 (\<not> side) = Some x \<longleftrightarrow> parent m x = Some n1" if "x \<in> S" "x \<noteq> n2" for x
    using linked_iff(1)[OF l S(1) that(1), of side] linked_iff(1)[OF l S(1) that(1), of "\<not> side"] side that(2)
    by (cases side) auto
  have "parent m' (swp n1 n2 x) = map_option (swp n1 n2) (parent m x)" if "x \<in> S" for x
    using that n(1,2) par S other unfolding f(1)
    by (cases "parent m x") (auto simp: swp_def linked_iff(2)[OF l])
  moreover have "link m' (swp n1 n2 x) d = map_option (swp n1 n2) (link m x d)" if x: "x \<in> S" for x d
  proof -
    consider "x = n1" | "x = n2" | "x \<noteq> n1" "x \<noteq> n2" by blast
    then show ?thesis
    proof cases
      case 1
      then show ?thesis using f(2)[of n2] n(1,3,4) side by (cases "d = side"; cases "link m n1 d") (auto simp: swp_def)
    next
      case 2
      then show ?thesis using f(2)[of n1] n(1,5,6) by (cases "link m n2 d") (auto simp: swp_def)
    next
      case 3
      have "link m x d \<noteq> Some n2" using linkedD(1)[OF l x, of d n2] par(1) 3 by auto
      with 3 f(2)[of x] linked_iff(1)[OF l x S(1), of d] show ?thesis
        by (cases "link m x d") (auto simp: swp_def)
    qed
  qed
  moreover have "bv_root m' = map_option (swp n1 n2) (bv_root m)"
    unfolding f(3) using linkedD(3)[OF l S(1)] linkedD(3)[OF l S(2)] par(1) by (cases "bv_root m") (auto simp: swp_def)
  ultimately show "exchanged n1 n2 m m' S" unfolding exchanged_def by blast
qed

lemma swap_nodes_at:
  assumes t: "tree_at m None (bv_root m) t" "distinct (inorder t)" "bal_at m t"
    and n: "n1 \<in> set_tree t" "n2 \<in> set_tree t" "n1 \<noteq> n2" "parent m n1 \<noteq> Some n2" "parent m n1 \<noteq> parent m n2"
    and m': "m' = BAVL_swap_nodes n1 n2 m"
  shows "tree_at m' None (bv_root m') (map_tree (swp n1 n2) t)" and "bal_at m' (map_tree (swp n1 n2) t)"
proof -
  define m1 where "m1 = (if parent m n2 = Some n1 then BAVL_swap_adjacent n1 n2 m else BAVL_swap_apart n1 n2 m)"
  have ex: "exchanged n1 n2 m m1 (set_tree t)" and b: "\<And>x. balance m1 x = balance m x"
    using swap_adjacent_exchanges[OF linked_tree[OF t(1,2)] n(1,2)] swap_apart_exchanges[OF linked_tree[OF t(1,2)] n(1,2,3)] n(4,5)
    unfolding m1_def by (auto split: if_splits)
  have m'': "m' = set_balance n2 (balance m1 n1) (set_balance n1 (balance m1 n2) m1)"
    using n(4) unfolding m' BAVL_swap_nodes_def m1_def Let_def by simp
  have "tree_at m1 (map_option (swp n1 n2) None) (map_option (swp n1 n2) (bv_root m)) (map_tree (swp n1 n2) t)"
    by (rule tree_at_swap[OF t(1)]) (use ex in \<open>auto simp: exchanged_def\<close>)
  moreover have "bv_root m1 = map_option (swp n1 n2) (bv_root m)" using ex by (simp add: exchanged_def)
  ultimately show "tree_at m' None (bv_root m') (map_tree (swp n1 n2) t)" by (simp add: m'')
  show "bal_at m' (map_tree (swp n1 n2) t)"
    by (rule bal_at_swap[OF t(3)]) (auto simp: m'' b swp_def n(3))
qed

lemma tree_parent: "tree_at m par p t \<Longrightarrow> x \<in> set_tree t \<Longrightarrow> parent m x = par \<or> (\<exists>q \<in> set_tree t. parent m x = Some q)"
  by (induction t arbitrary: par p) fastforce+

lemma subtree_end_at:
  "tree_at m par (Some a) t \<Longrightarrow> \<exists>x y c. BAVL_subtree_end m d a = Some x \<and> t = plug (nd d y x Leaf) c
     \<and> (if d then rights c = [] else lefts c = [])"
proof (induction t arbitrary: par a)
  case (Node l z r)
  have a: "a = z" and sub: "tree_at m (Some a) (link m a d) (if d then r else l)" using Node.prems by auto
  show ?case
  proof (cases "link m a d")
    case None
    then have "Node l z r = nd d (if d then l else r) z Leaf" using sub by (auto simp: tree_at_None nd_def split: if_splits)
    moreover have "BAVL_subtree_end m d a = Some z" using None by (subst BAVL_subtree_end.simps) (simp add: a)
    ultimately show ?thesis by (metis plug.simps(1) lefts.simps(1) rights.simps(1))
  next
    case (Some b)
    then obtain x y c where IH: "BAVL_subtree_end m d b = Some x" "(if d then r else l) = plug (nd d y x Leaf) c"
      "if d then rights c = [] else lefts c = []"
      using Node.IH(1)[of "Some a" b] Node.IH(2)[of "Some a" b] sub by (cases d) auto
    let ?c = "c @ [(d, z, if d then l else r)]"
    have "Node l z r = plug (nd d y x Leaf) ?c" using IH(2) by (auto simp: plug_append nd_def split: if_splits)
    moreover have "BAVL_subtree_end m d a = Some x" using Some IH(1) by (subst BAVL_subtree_end.simps) simp
    moreover have "if d then rights ?c = [] else lefts ?c = []"
      using IH(3) by (induction c) (auto split: if_splits)
    ultimately show ?thesis by blast
  qed
qed simp

lemma map_tree_plug:
  "map_tree f (plug t c) = plug (map_tree f t) (map (\<lambda>(d, a, s). (d, f a, map_tree f s)) c)"
  by (induction t c rule: plug.induct) (auto simp: nd_def)

lemma rights_append: "rights (c @ c') = rights c @ rights c'" and lefts_append: "lefts (c @ c') = lefts c' @ lefts c"
  by (induction c rule: lefts.induct) auto

lemma remove_single_tree:
  assumes t: "tree_at m None (bv_root m) (plug (nd d X n Leaf) c)" "distinct (inorder (plug (nd d X n Leaf) c))"
    "bal_at m (plug (nd d X n Leaf) c)"
  shows "\<exists>m' t'. remove_single n m = Some (Inr m') \<and> tree_at m' None (bv_root m') t'
    \<and> inorder t' = remove1 n (inorder (plug (nd d X n Leaf) c)) \<and> bal_at m' t'"
proof -
  obtain par where at: "ctx_at m (Some n) par c" "tree_at m par (Some n) (nd d X n Leaf)"
    using t(1) unfolding plug_at by (auto simp: tree_at_nd)
  have "n \<notin> set_tree X" "n \<notin> set (lefts c)" using t(2) by (auto simp: inorder_plug inorder_nd split: if_splits)
  then have "remove1 n (inorder (plug (nd d X n Leaf) c)) = lefts c @ inorder X @ rights c"
    by (auto simp: inorder_plug inorder_nd remove1_append)
  with remove_single_at[OF at t(2,3)] show ?thesis by simp
qed

lemma remove_two_children:
  assumes t: "tree_at m None (bv_root m) t" "distinct (inorder t)" "bal_at m t"
    and eq: "t = plug (Node l n r) c" and l: "l = plug (nd True y mx Leaf) k" "rights k = []"
  shows "\<exists>m' t'. remove_single n (BAVL_swap_nodes n mx m) = Some (Inr m') \<and> tree_at m' None (bv_root m') t'
    \<and> inorder t' = remove1 n (inorder t) \<and> bal_at m' t'"
proof -
  define m1 where "m1 = BAVL_swap_nodes n mx m"
  obtain par where at: "ctx_at m (Some n) par c" "tree_at m par (Some n) (Node l n r)"
    using t(1) unfolding eq plug_at by auto
  have dis: "distinct (inorder (Node l n r))" "set_tree (Node l n r) \<inter> ctx_nodes c = {}"
    using distinct_plug t(2) unfolding eq by blast+
  have mx: "mx \<in> set_tree l" by (simp add: l(1) set_plug)
  have inord: "inorder t = (lefts c @ lefts k @ inorder y) @ mx # n # (inorder r @ rights c)"
    using l(2) by (simp add: eq inorder_plug l(1) nd_def)
  have par: "parent m n = par" using at(2) by simp
  have out: "par \<noteq> Some x" if "x \<in> set_tree (Node l n r)" for x using ctx_parent[of m "Some n" x c] at(1) dis(2) that by auto
  have "tree_at m (Some n) (link m n False) l" using at(2) by simp
  then have "parent m mx = Some n \<or> (\<exists>q \<in> set_tree l. parent m mx = Some q)" by (rule tree_parent[OF _ mx])
  then have "parent m n \<noteq> Some mx" "parent m n \<noteq> parent m mx" using out mx unfolding par by auto
  moreover have "n \<noteq> mx" using dis(1) mx by auto
  moreover have "n \<in> set_tree t" "mx \<in> set_tree t" using mx by (auto simp: eq set_plug)
  ultimately have swap: "tree_at m1 None (bv_root m1) (map_tree (swp n mx) t)" "bal_at m1 (map_tree (swp n mx) t)"
    using swap_nodes_at[OF t _ _ _ _ _ m1_def] by blast+
  have "map (swp n mx) xs = xs" if "n \<notin> set xs" "mx \<notin> set xs" for xs
    by (rule map_idI) (use that in \<open>auto simp: swp_def\<close>)
  then have io: "inorder (map_tree (swp n mx) t) = (lefts c @ lefts k @ inorder y) @ n # mx # (inorder r @ rights c)"
    using t(2) unfolding inorder_map inord by (auto simp: swp_def)
  then have d1: "distinct (inorder (map_tree (swp n mx) t))" using t(2) unfolding inord by auto
  have "t = plug (nd True y mx Leaf) (k @ (False, n, r) # c)" by (simp add: eq l(1) plug_append nd_def)
  moreover have "map_tree (swp n mx) (nd True y mx Leaf) = nd True (map_tree (swp n mx) y) n Leaf"
    by (simp add: nd_def swp_def)
  ultimately obtain X c' where p: "map_tree (swp n mx) t = plug (nd True X n Leaf) c'"
    using map_tree_plug by metis
  have "remove1 n (inorder (map_tree (swp n mx) t)) = remove1 n (inorder t)"
    using t(2) unfolding io unfolding inord by (auto simp: remove1_append)
  with remove_single_tree[of m1 True X n c'] swap d1 show ?thesis unfolding p m1_def by simp
qed

lemma remove_at:
  assumes t: "tree_at m None (bv_root m) t" "distinct (inorder t)" "bal_at m t" and "n \<in> set_tree t"
  shows "\<exists>m' t'. BAVL_Remove n m = Some (Inr m') \<and> tree_at m' None (bv_root m') t'
    \<and> inorder t' = remove1 n (inorder t) \<and> bal_at m' t'"
proof -
  obtain l r c where eq: "t = plug (Node l n r) c" using in_plug[OF assms(4)] by blast
  obtain par where at: "tree_at m par (Some n) (Node l n r)" using t(1) unfolding eq plug_at by auto
  have single: "BAVL_Remove n m = remove_single n m" if "l = Leaf \<or> r = Leaf"
    using at that by (auto simp: BAVL_Remove_def split: option.split)
  consider "r = Leaf" | "l = Leaf" | "l \<noteq> Leaf" "r \<noteq> Leaf" by blast
  then show ?thesis
  proof cases
    case 1
    then have "t = plug (nd True l n Leaf) c" by (simp add: eq nd_def)
    then show ?thesis using remove_single_tree[of m True l n c] t single 1 by simp
  next
    case 2
    then have "t = plug (nd False r n Leaf) c" by (simp add: eq nd_def)
    then show ?thesis using remove_single_tree[of m False r n c] t single 2 by simp
  next
    case 3
    then obtain a b where ab: "link m n False = Some a" "link m n True = Some b" "tree_at m (Some n) (Some a) l"
      using at by (cases "link m n False"; cases "link m n True") (auto simp: tree_at_None)
    obtain mx y k where k: "BAVL_subtree_end m True a = Some mx" "l = plug (nd True y mx Leaf) k" "rights k = []"
      using subtree_end_at[OF ab(3), of True] by auto
    then show ?thesis using remove_two_children[OF t eq k(2,3)] ab by (simp add: BAVL_Remove_def)
  qed
qed

end
