(* ===== verification/BAVL_Ops.thy ===== *)
theory BAVL_Ops
  imports BAVL_Removal
begin

text \<open>
  The operations of the AVL tree: insertion, removal, search and iteration, against the sequence of the
  nodes in order.
\<close>

section \<open>Comparators\<close>

text \<open>What the comments of \<^verbatim>\<open>BAVL.h\<close> ask of a comparator.\<close>

locale comparator =
  fixes cmp :: "'v \<Rightarrow> 'v \<Rightarrow> int"
  assumes cmp_range: "cmp x y = -1 \<or> cmp x y = 0 \<or> cmp x y = 1"
    and cmp_swap: "cmp y x = - cmp x y"
    and cmp_trans: "cmp x y = -1 \<Longrightarrow> cmp y z = -1 \<Longrightarrow> cmp x z = -1"
    and cmp_equal: "cmp x y = 0 \<Longrightarrow> cmp x z = cmp y z"
begin

lemma cmp_refl [simp]: "cmp x x = 0"
  using cmp_swap[of x x] by simp

lemma compare_values_ok [simp]: "compare_values cmp x y = Inr (cmp x y)"
  using cmp_range[of x y] by (simp add: compare_values_def)

definition before :: "(nat \<Rightarrow> 'v) \<Rightarrow> nat \<Rightarrow> nat \<Rightarrow> bool" where
  "before val a b \<longleftrightarrow> cmp (val a) (val b) = -1"

lemma before_irrefl [simp]: "\<not> before val a a"
  by (simp add: before_def)

lemma before_trans: "before val a b \<Longrightarrow> before val b c \<Longrightarrow> before val a c"
  using cmp_trans by (auto simp: before_def)

lemma sorted_distinct: "sorted_wrt (before val) xs \<Longrightarrow> distinct xs"
  by (induction xs) auto

text \<open>Side \<open>d\<close> of node \<open>x\<close> is the free place of tree \<open>t\<close> where the value \<open>v\<close> belongs.\<close>

definition free_at :: "(nat \<Rightarrow> 'v) \<Rightarrow> bavl \<Rightarrow> 'v \<Rightarrow> nat tree \<Rightarrow> nat \<Rightarrow> bool \<Rightarrow> bool" where
  "free_at val m v t x d \<longleftrightarrow> (\<exists>s c. plug Leaf ((d, x, s) # c) = t \<and> ctx_at m None (Some x) ((d, x, s) # c)
     \<and> (\<forall>y \<in> set (lefts ((d, x, s) # c)). cmp (val y) v = -1)
     \<and> (\<forall>y \<in> set (rights ((d, x, s) # c)). cmp v (val y) = -1))"

text \<open>A search ends at a node with an equal value, or at the free place where the value belongs.\<close>

lemma search_at:
  assumes "tree_at m par (Some c) t" and "ctx_at m (Some c) par ctx"
    and "sorted_wrt (before val) (inorder (plug t ctx))"
    and "\<forall>x \<in> set (lefts ctx). cmp (val x) v = -1" and "\<forall>x \<in> set (rights ctx). cmp v (val x) = -1"
  shows "(\<exists>x \<in> set_tree t. search cmp val m v c = Some (Inr (x, None)) \<and> cmp v (val x) = 0)
    \<or> (\<exists>x d. search cmp val m v c = Some (Inr (x, Some d)) \<and> free_at val m v (plug t ctx) x d)"
  using assms
proof (induction t arbitrary: par c ctx)
  case (Node l a r)
  have a: "c = a" and at: "tree_at m (Some a) (link m a False) l" "tree_at m (Some a) (link m a True) r" "parent m a = par"
    using Node.prems(1) by auto
  show ?case
  proof (cases "cmp v (val a) = 0")
    case True
    then have "search cmp val m v c = Some (Inr (a, None))" by (subst search.simps) (simp add: a)
    then show ?thesis using True by auto
  next
    case False
    define d where "d = (cmp v (val a) = 1)"
    define x where "x = (if d then l else r)"
    define y where "y = (if d then r else l)"
    have t: "Node l a r = nd d x a y" by (simp add: nd_def x_def y_def)
    have xy: "tree_at m (Some a) (link m a d) y" "tree_at m (Some a) (link m a (\<not> d)) x"
      using at by (auto simp: x_def y_def)
    then have ctx: "ctx_at m (link m a d) (Some a) ((d, a, x) # ctx)" using Node.prems(2) a at(3) by simp
    have "sorted_wrt (before val) (inorder (nd d x a y))"
      using Node.prems(3) by (simp add: inorder_plug sorted_wrt_append t)
    then have ord: "\<forall>z \<in> set_tree x. if d then before val z a else before val a z"
      by (auto simp: inorder_nd sorted_wrt_append)
    have va: "cmp (val a) v = (if d then -1 else 1)" using False cmp_range[of v "val a"] cmp_swap[of v "val a"]
      by (auto simp: d_def)
    have va2: "cmp v (val a) = (if d then 1 else -1)" using va cmp_swap[of "val a" v] by (cases d) simp_all
    have "if d then cmp (val z) v = -1 else cmp v (val z) = -1" if "z \<in> set_tree x" for z
      using ord that va va2 cmp_trans[of "val z" "val a" v] cmp_trans[of v "val a" "val z"]
      by (cases d) (auto simp: before_def)
    then have sides: "\<forall>z \<in> set (lefts ((d, a, x) # ctx)). cmp (val z) v = -1"
      "\<forall>z \<in> set (rights ((d, a, x) # ctx)). cmp v (val z) = -1"
      using Node.prems(4,5) va va2 by (cases d; auto)+
    have step: "search cmp val m v c = (case link m a d of
        None \<Rightarrow> Some (Inr (a, Some d)) | Some c' \<Rightarrow> search cmp val m v c')"
      using False unfolding a d_def by (subst search.simps) simp
    show ?thesis
    proof (cases "link m a d")
      case None
      then have "y = Leaf" using xy(1) by (simp add: tree_at_None)
      then have "plug Leaf ((d, a, x) # ctx) = plug (Node l a r) ctx" by (simp add: t)
      moreover have "ctx_at m None (Some a) ((d, a, x) # ctx)" using ctx None by simp
      ultimately have "free_at val m v (plug (Node l a r) ctx) a d" using sides unfolding free_at_def by blast
      with None step show ?thesis by auto
    next
      case (Some c')
      have p: "plug y ((d, a, x) # ctx) = plug (Node l a r) ctx" by (simp add: t)
      have "(\<exists>z \<in> set_tree y. search cmp val m v c' = Some (Inr (z, None)) \<and> cmp v (val z) = 0)
        \<or> (\<exists>z e. search cmp val m v c' = Some (Inr (z, Some e)) \<and> free_at val m v (plug y ((d, a, x) # ctx)) z e)"
        using Node.IH[of "Some a" c' "(d, a, x) # ctx"] xy(1) ctx Node.prems(3) sides Some p
        unfolding y_def by (cases d) simp_all
      moreover have "set_tree y \<subseteq> set_tree (Node l a r)" by (auto simp: t)
      ultimately show ?thesis unfolding p using step Some by auto
    qed
  qed
qed simp

text \<open>The memory holds a balanced search tree with the nodes \<open>xs\<close> in order.\<close>

definition rep :: "(nat \<Rightarrow> 'v) \<Rightarrow> bavl \<Rightarrow> nat list \<Rightarrow> bool" where
  "rep val m xs \<longleftrightarrow> (\<exists>t. tree_at m None (bv_root m) t \<and> bal_at m t \<and> inorder t = xs) \<and> sorted_wrt (before val) xs"

lemma repD:
  assumes "rep val m xs"
  obtains t where "tree_at m None (bv_root m) t" "bal_at m t" "inorder t = xs" "sorted_wrt (before val) xs"
  using assms by (auto simp: rep_def)

lemma search_rep:
  assumes "tree_at m None (Some c) t" and "bv_root m = Some c" and "sorted_wrt (before val) (inorder t)"
  shows "(\<exists>x \<in> set_tree t. search cmp val m v c = Some (Inr (x, None)) \<and> cmp v (val x) = 0)
    \<or> (\<exists>x d. search cmp val m v c = Some (Inr (x, Some d)) \<and> free_at val m v t x d)"
  using search_at[of m None c t "[]" val v] assms by simp

lemma free_atD:
  assumes "free_at val m v t x d" and "y \<in> set_tree t"
  shows "cmp v (val y) \<noteq> 0"
proof -
  obtain s c where f: "plug Leaf ((d, x, s) # c) = t" "\<forall>y \<in> set (lefts ((d, x, s) # c)). cmp (val y) v = -1"
    "\<forall>y \<in> set (rights ((d, x, s) # c)). cmp v (val y) = -1"
    using assms(1) by (auto simp: free_at_def)
  have "inorder t = lefts ((d, x, s) # c) @ rights ((d, x, s) # c)"
    using f(1) inorder_plug[of Leaf "(d, x, s) # c"] by simp
  then have "y \<in> set (lefts ((d, x, s) # c)) \<union> set (rights ((d, x, s) # c))"
    using assms(2) unfolding set_inorder[symmetric] by (metis set_append)
  then show ?thesis using f(2,3) cmp_swap[of v "val y"] by (auto simp del: lefts.simps rights.simps)
qed

lemma find_equal:
  "sorted_wrt (before val) xs \<Longrightarrow> x \<in> set xs \<Longrightarrow> cmp v (val x) = 0 \<Longrightarrow> List.find (\<lambda>x. cmp v (val x) = 0) xs = Some x"
proof (induction xs)
  case (Cons y ys)
  have "cmp v (val y) \<noteq> 0" if "x \<in> set ys"
    using Cons.prems that cmp_equal[of v "val y" "val x"] by (auto simp: before_def)
  with Cons show ?case by auto
qed simp

lemma lookup_exact:
  assumes "rep val m xs"
  shows "BAVL_LookupExact cmp val v m = Some (Inr (List.find (\<lambda>x. cmp v (val x) = 0) xs))"
proof -
  obtain t where t: "tree_at m None (bv_root m) t" "inorder t = xs" "sorted_wrt (before val) xs" by (rule repD[OF assms])
  show ?thesis
  proof (cases "bv_root m")
    case None
    then have "xs = []" using t(1,2) by (simp add: tree_at_None)
    with None show ?thesis by (simp add: BAVL_LookupExact_def)
  next
    case (Some c)
    with t have "tree_at m None (Some c) t" "sorted_wrt (before val) (inorder t)" by simp_all
    from search_rep[OF this(1) Some this(2), of v] consider
      x where "x \<in> set_tree t" "search cmp val m v c = Some (Inr (x, None))" "cmp v (val x) = 0"
      | x d where "search cmp val m v c = Some (Inr (x, Some d))" "free_at val m v t x d" by blast
    then show ?thesis
    proof cases
      case 1
      then have "List.find (\<lambda>x. cmp v (val x) = 0) xs = Some x"
        using find_equal[OF t(3)] t(2) by (auto simp flip: set_inorder)
      with 1 Some show ?thesis by (simp add: BAVL_LookupExact_def)
    next
      case 2
      then have "List.find (\<lambda>x. cmp v (val x) = 0) xs = None"
        using free_atD[OF 2(2)] t(2) by (auto simp: find_None_iff simp flip: set_inorder)
      with 2 Some show ?thesis by (simp add: BAVL_LookupExact_def)
    qed
  qed
qed

lemma insert_link:
  assumes ctx: "ctx_at m None (Some x) ((d, x, s) # c)" and dist: "distinct (inorder (plug Leaf ((d, x, s) # c)))"
    and new: "node \<notin> set_tree (plug Leaf ((d, x, s) # c))"
    and m1: "m1 = new_node node (Some x) (set_link x d (Some node) m)"
  shows "ctx_at m1 (Some node) (Some x) ((d, x, s) # c)" and "tree_at m1 (Some x) (Some node) (Node Leaf node Leaf)"
    and "bal_at m1 (Node Leaf node Leaf)" and "ctx_bal m1 h ((d, x, s) # c) = ctx_bal m h ((d, x, s) # c)"
proof -
  have nodes: "set_tree (plug t c') = set_tree t \<union> ctx_nodes c'" for t c'
    by (induction t c' rule: plug.induct) auto
  have n: "node \<noteq> x" "node \<notin> set_tree s" "node \<notin> ctx_nodes c" using new by (auto simp: nodes)
  have x: "x \<notin> set_tree s" "x \<notin> ctx_nodes c" using distinct_ctx[OF dist] by auto
  have "tree_at m1 par p s = tree_at m par p s" for par p
    by (rule tree_at_cong) (use n x in \<open>auto simp: m1 new_node_def\<close>)
  moreover have "ctx_at m1 p par c = ctx_at m p par c" for par p
    by (rule ctx_at_cong) (use n x in \<open>auto simp: m1 new_node_def\<close>)
  ultimately show "ctx_at m1 (Some node) (Some x) ((d, x, s) # c)" using ctx n by (simp add: m1 new_node_def)
  show "tree_at m1 (Some x) (Some node) (Node Leaf node Leaf)" "bal_at m1 (Node Leaf node Leaf)"
    using n by (simp_all add: m1 new_node_def)
  show "ctx_bal m1 h ((d, x, s) # c) = ctx_bal m h ((d, x, s) # c)"
    by (rule ctx_bal_cong) (use n in \<open>auto simp: m1 new_node_def\<close>)
qed

lemma insert_empty:
  assumes "rep val m xs" and "bv_root m = None"
  shows "xs = [] \<and> rep val (new_node node None (set_root (Some node) m)) [node]"
proof -
  have "xs = []" using assms by (auto simp: rep_def tree_at_None)
  moreover have "rep val (new_node node None (set_root (Some node) m)) [node]"
    unfolding rep_def by (intro conjI exI[of _ "Node Leaf node Leaf"]) (simp_all add: new_node_def)
  ultimately show ?thesis ..
qed

lemma insert_free:
  assumes t: "tree_at m None (bv_root m) t" "bal_at m t" "sorted_wrt (before val) (inorder t)" and "node \<notin> set_tree t"
    and root: "bv_root m = Some c" and search: "search cmp val m (val node) c = Some (Inr (x, Some d))"
    and free: "free_at val m (val node) t x d"
  shows "\<exists>m' ys zs. BAVL_Insert cmp val node m = Some (Inr ((True, Some x), m')) \<and> inorder t = ys @ zs
    \<and> rep val m' (ys @ node # zs) \<and> (if d then ys \<noteq> [] \<and> last ys = x else zs \<noteq> [] \<and> hd zs = x)"
proof -
  obtain s k where f: "plug Leaf ((d, x, s) # k) = t" "ctx_at m None (Some x) ((d, x, s) # k)"
    and ord: "\<forall>y \<in> set (lefts ((d, x, s) # k)). cmp (val y) (val node) = -1"
      "\<forall>y \<in> set (rights ((d, x, s) # k)). cmp (val node) (val y) = -1"
    using free by (auto simp: free_at_def)
  let ?k = "(d, x, s) # k" and ?n = "Node Leaf node Leaf :: nat tree"
  have i: "inorder t = lefts ?k @ rights ?k" "inorder (plug ?n ?k) = lefts ?k @ node # rights ?k"
    using f(1) inorder_plug[of Leaf ?k] inorder_plug[of ?n ?k] by simp_all
  have "sorted_wrt (before val) (lefts ?k @ node # rights ?k)"
    using t(3) ord unfolding i(1) sorted_wrt_append by (auto simp: before_def simp del: lefts.simps rights.simps)
  then have sorted: "sorted_wrt (before val) (inorder (plug ?n ?k))" by (simp only: i(2))
  define m1 where "m1 = new_node node (Some x) (set_link x d (Some node) m)"
  have dist: "distinct (inorder (plug Leaf ?k))" unfolding f(1) by (rule sorted_distinct[OF t(3)])
  have "node \<notin> set_tree (plug Leaf ?k)" unfolding f(1) by (rule assms(4))
  note at = insert_link[OF f(2) dist this m1_def]
  have "ctx_bal m (hgt Leaf) ?k" using t(2) unfolding f(1)[symmetric] bal_at_plug by blast
  then have "ctx_bal m1 (hgt ?n - 1) ?k" unfolding at(4) by simp
  from rebalance_at[OF at(1,2) sorted_distinct[OF sorted] at(3) this] obtain m' t' where
    m': "BAVL_rebalance x d 1 m1 = Some (Inr m')" "tree_at m' None (bv_root m') t'" "bal_at m' t'"
    "inorder t' = lefts ?k @ node # rights ?k" unfolding i(2) by auto
  then have "rep val m' (lefts ?k @ node # rights ?k)" using sorted unfolding rep_def i(2) by blast
  moreover have "BAVL_Insert cmp val node m = Some (Inr ((True, Some x), m'))"
    using root search m'(1) by (simp add: BAVL_Insert_def m1_def)
  moreover have "if d then lefts ?k \<noteq> [] \<and> last (lefts ?k) = x else rights ?k \<noteq> [] \<and> hd (rights ?k) = x" by simp
  ultimately show ?thesis using i(1) by blast
qed

text \<open>Insertion, with the neighbour of the place that the documentation of \<open>ref\<close> promises.\<close>

lemma insert_rep:
  assumes "rep val m xs" and "node \<notin> set xs"
  shows "(\<exists>x \<in> set xs. cmp (val node) (val x) = 0 \<and> BAVL_Insert cmp val node m = Some (Inr ((False, Some x), m)))
    \<or> (\<exists>m' ys zs ref. BAVL_Insert cmp val node m = Some (Inr ((True, ref), m')) \<and> xs = ys @ zs \<and> rep val m' (ys @ node # zs)
        \<and> (\<forall>x \<in> set xs. cmp (val node) (val x) \<noteq> 0)
        \<and> (case ref of None \<Rightarrow> xs = [] | Some x \<Rightarrow> ys \<noteq> [] \<and> last ys = x \<or> zs \<noteq> [] \<and> hd zs = x))"
proof (cases "bv_root m")
  case None
  with insert_empty[OF assms(1) None, of node] show ?thesis by (auto simp: BAVL_Insert_def)
next
  case (Some c)
  obtain t where t: "tree_at m None (bv_root m) t" "bal_at m t" "inorder t = xs" "sorted_wrt (before val) xs"
    by (rule repD[OF assms(1)])
  have set: "set_tree t = set xs" using t(3) by (metis set_inorder)
  from search_rep[of m c t val "val node"] t Some consider
      x where "x \<in> set_tree t" "search cmp val m (val node) c = Some (Inr (x, None))" "cmp (val node) (val x) = 0"
    | x d where "search cmp val m (val node) c = Some (Inr (x, Some d))" "free_at val m (val node) t x d"
    by auto
  then show ?thesis
  proof cases
    case 1
    then show ?thesis using Some set by (auto simp: BAVL_Insert_def)
  next
    case 2
    with insert_free[OF t(1,2) _ _ Some 2] t(3,4) assms(2) set obtain m' ys zs where
      "BAVL_Insert cmp val node m = Some (Inr ((True, Some x), m'))" "xs = ys @ zs" "rep val m' (ys @ node # zs)"
      "if d then ys \<noteq> [] \<and> last ys = x else zs \<noteq> [] \<and> hd zs = x" by auto
    moreover have "\<forall>x \<in> set xs. cmp (val node) (val x) \<noteq> 0" using free_atD[OF 2(2)] set by blast
    ultimately show ?thesis by (cases d) force+
  qed
qed

lemma remove_rep:
  assumes "rep val m xs" and "node \<in> set xs"
  shows "\<exists>m'. BAVL_Remove node m = Some (Inr m') \<and> rep val m' (remove1 node xs)"
proof -
  obtain t where t: "tree_at m None (bv_root m) t" "bal_at m t" "inorder t = xs" "sorted_wrt (before val) xs"
    by (rule repD[OF assms(1)])
  have d: "distinct xs" by (rule sorted_distinct[OF t(4)])
  have "node \<in> set_tree t" using assms(2) t(3) by (metis set_inorder)
  then obtain m' t' where m': "BAVL_Remove node m = Some (Inr m')" "tree_at m' None (bv_root m') t'"
    "inorder t' = remove1 node xs" "bal_at m' t'"
    using remove_at[OF t(1) _ t(2), of node] d t(3) by auto
  moreover have "sorted_wrt (before val) (remove1 node xs)"
    using t(4) d by (simp add: distinct_remove1_removeAll removeAll_filter_not_eq sorted_wrt_filter)
  ultimately show ?thesis unfolding rep_def by blast
qed

lemma rep_init: "rep val (BAVL_Init m) []"
  unfolding rep_def BAVL_Init_def by (intro conjI exI[of _ Leaf]) simp_all

lemma rep_cong: "(\<And>x. x \<in> set xs \<Longrightarrow> val' x = val x) \<Longrightarrow> rep val' m xs = rep val m xs"
  unfolding rep_def before_def by (intro conj_cong refl) (auto intro: sorted_wrt_mono_rel[rotated])

end

section \<open>Iteration\<close>

definition first_of :: "bool \<Rightarrow> nat list \<Rightarrow> ptr" where
  "first_of d xs = (if xs = [] then None else Some (if d then last xs else hd xs))"

lemma end_at:
  assumes "tree_at m par (Some a) t"
  shows "map_option Some (BAVL_subtree_end m d a) = Some (first_of d (inorder t))"
proof -
  obtain x y c where "BAVL_subtree_end m d a = Some x" "t = plug (nd d y x Leaf) c"
    "if d then rights c = [] else lefts c = []"
    using subtree_end_at[OF assms] by blast
  then show ?thesis by (cases d) (auto simp: first_of_def inorder_plug inorder_nd)
qed

lemma get_end_at: "tree_at m None (bv_root m) t \<Longrightarrow> get_end d m = Some (first_of d (inorder t))"
  using end_at by (cases "bv_root m") (auto simp: get_end_def tree_at_None first_of_def)

lemma climb_at:
  assumes "ctx_at m (Some n) par c" and "parent m n = par" and "n \<notin> ctx_nodes c"
    and "distinct (lefts c @ rights c)"
  shows "climb m d n = Some (if d then first_of False (rights c) else first_of True (lefts c))"
  using assms
proof (induction c arbitrary: n par)
  case Nil
  then show ?case by (subst climb.simps) (auto simp: first_of_def)
next
  case (Cons f c)
  obtain e a s where f: "f = (e, a, s)" by (cases f)
  have link: "par = Some a" "link m a e = Some n" "tree_at m (Some a) (link m a (\<not> e)) s" "ctx_at m (Some a) (parent m a) c"
    using Cons.prems(1) f by auto
  have "link m a (\<not> e) \<noteq> Some n" using tree_at_root[of m "Some a" n s] link(3) Cons.prems(3) f by auto
  then have "link m a d = Some n \<longleftrightarrow> d = e" using link(2) by (cases d; cases e) auto
  then have step: "climb m d n = (if d = e then climb m d a else Some (Some a))"
    using Cons.prems(2) link(1) by (subst climb.simps) simp
  have nodes: "set (lefts c) \<union> set (rights c) = ctx_nodes c" for c
    by (induction c rule: ctx_nodes.induct) auto
  have "a \<notin> ctx_nodes c" "distinct (lefts c @ rights c)"
    using Cons.prems(4) nodes[of c] by (auto simp: f split: if_splits)
  then have "climb m d a = Some (if d then first_of False (rights c) else first_of True (lefts c))"
    using Cons.IH[OF link(4) refl] by simp
  with step show ?case by (cases d; cases e) (auto simp: f first_of_def)
qed

lemma neighbour_at:
  assumes t: "tree_at m None (bv_root m) t" "distinct (inorder t)" and i: "inorder t = ys @ n # zs"
  shows "neighbour d m n = Some (if d then first_of False zs else first_of True ys)"
proof -
  have "n \<in> set_tree t" using i by (metis in_set_conv_decomp set_inorder)
  then obtain l r c where eq: "t = plug (Node l n r) c" using in_plug by blast
  obtain par where at: "ctx_at m (Some n) par c" "tree_at m par (Some n) (Node l n r)"
    using t(1) unfolding eq plug_at by auto
  have split: "inorder t = (lefts c @ inorder l) @ n # (inorder r @ rights c)" by (simp add: eq inorder_plug)
  moreover have "n \<notin> set ys" "n \<notin> set zs" using t(2) unfolding i by auto
  ultimately have yz: "ys = lefts c @ inorder l" "zs = inorder r @ rights c"
    using append_Cons_eq_iff[of n ys zs "lefts c @ inorder l" "inorder r @ rights c"] unfolding i by auto
  have dis: "n \<notin> ctx_nodes c" "distinct (lefts c @ rights c)"
    using distinct_plug[of "Node l n r" c] t(2) split by (auto simp: eq)
  show ?thesis
  proof (cases "link m n d")
    case None
    then have "(if d then r else l) = Leaf" using at(2) by (auto simp: tree_at_None split: if_splits)
    moreover have "climb m d n = Some (if d then first_of False (rights c) else first_of True (lefts c))"
      by (rule climb_at[OF at(1)]) (use at(2) dis in auto)
    ultimately show ?thesis using None yz by (cases d) (auto simp: neighbour_def)
  next
    case (Some a)
    then have sub: "tree_at m (Some n) (Some a) (if d then r else l)" using at(2) by (cases d) auto
    then have "inorder (if d then r else l) \<noteq> []" by (cases "if d then r else l") auto
    with end_at[OF sub, of "\<not> d"] Some yz show ?thesis by (cases d) (auto simp: neighbour_def first_of_def)
  qed
qed

section \<open>Height\<close>

lemma balanced_height: "bal_at m t \<Longrightarrow> 2 ^ (height t div 2) \<le> size1 t"
proof (induction "height t" arbitrary: t rule: less_induct)
  case less
  show ?case
  proof (cases t)
    case (Node l a r)
    show ?thesis
    proof (cases "height t \<ge> 2")
      case True
      have "\<bar>hgt r - hgt l\<bar> \<le> 1" "bal_at m l" "bal_at m r" using less.prems Node by auto
      then have h: "height t \<le> height l + 2" "height t \<le> height r + 2" "height l < height t" "height r < height t"
        using Node by auto
      then have "2 ^ (height l div 2) \<le> size1 l" "2 ^ (height r div 2) \<le> size1 r"
        using less.hyps \<open>bal_at m l\<close> \<open>bal_at m r\<close> by blast+
      moreover have "(2::nat) ^ (height t div 2) = 2 * 2 ^ ((height t - 2) div 2)"
        using True by (metis (no_types) div2_Suc_Suc le_add_diff_inverse numeral_2_eq_2 plus_nat.simps(1,2) power_Suc)
      moreover have "(2::nat) ^ ((height t - 2) div 2) \<le> 2 ^ (height l div 2)" "(2::nat) ^ ((height t - 2) div 2) \<le> 2 ^ (height r div 2)"
        using h by (auto intro!: power_increasing div_le_mono)
      ultimately have "2 ^ (height t div 2) \<le> size1 l + size1 r" by linarith
      then show ?thesis using Node by simp
    next
      case False
      then have "height t div 2 = 0" by simp
      then show ?thesis by (simp add: size1_size)
    qed
  qed simp
qed

section \<open>The tree as a sorted sequence\<close>

datatype 'v avl_op = AvlInsert nat | AvlRemove nat | AvlLookup 'v | AvlEnd bool | AvlNeighbour bool nat

datatype avl_out = Inserted bool | Removed | AvlNode ptr

fun avl_step :: "('v \<Rightarrow> 'v \<Rightarrow> int) \<Rightarrow> (nat \<Rightarrow> 'v) \<Rightarrow> 'v avl_op \<Rightarrow> bavl \<Rightarrow> (avl_out \<times> bavl) run option" where
  "avl_step cmp val (AvlInsert n) m = bindO (BAVL_Insert cmp val n m) (\<lambda>((ok, ref), m). Some (Inr (Inserted ok, m)))"
| "avl_step cmp val (AvlRemove n) m = bindO (BAVL_Remove n m) (\<lambda>m. Some (Inr (Removed, m)))"
| "avl_step cmp val (AvlLookup v) m = bindO (BAVL_LookupExact cmp val v m) (\<lambda>p. Some (Inr (AvlNode p, m)))"
| "avl_step cmp val (AvlEnd d) m =
     map_option (\<lambda>p. Inr (AvlNode p, m)) (if d then BAVL_GetLast m else BAVL_GetFirst m)"
| "avl_step cmp val (AvlNeighbour d n) m =
     map_option (\<lambda>p. Inr (AvlNode p, m)) (if d then BAVL_GetNext m n else BAVL_GetPrev m n)"

fun avl_run :: "('v \<Rightarrow> 'v \<Rightarrow> int) \<Rightarrow> (nat \<Rightarrow> 'v) \<Rightarrow> 'v avl_op list \<Rightarrow> bavl \<Rightarrow> (avl_out list \<times> bavl) run option" where
  "avl_run cmp val [] m = Some (Inr ([], m))"
| "avl_run cmp val (p # ps) m =
     bindO (avl_step cmp val p m) (\<lambda>(out, m).
     bindO (avl_run cmp val ps m) (\<lambda>(outs, m). Some (Inr (out # outs, m))))"

text \<open>The same operations on the sequence of the nodes; \<open>None\<close> is a call the rules of the tree forbid.\<close>

fun seq_step :: "('v \<Rightarrow> 'v \<Rightarrow> int) \<Rightarrow> (nat \<Rightarrow> 'v) \<Rightarrow> 'v avl_op \<Rightarrow> nat list \<Rightarrow> (avl_out \<times> nat list) option" where
  "seq_step cmp val (AvlInsert n) xs =
     (if n \<in> set xs then None
      else if \<exists>x \<in> set xs. cmp (val n) (val x) = 0 then Some (Inserted False, xs)
      else Some (Inserted True, takeWhile (\<lambda>x. cmp (val x) (val n) = -1) xs @ n # dropWhile (\<lambda>x. cmp (val x) (val n) = -1) xs))"
| "seq_step cmp val (AvlRemove n) xs = (if n \<in> set xs then Some (Removed, remove1 n xs) else None)"
| "seq_step cmp val (AvlLookup v) xs = Some (AvlNode (List.find (\<lambda>x. cmp v (val x) = 0) xs), xs)"
| "seq_step cmp val (AvlEnd d) xs = Some (AvlNode (first_of d xs), xs)"
| "seq_step cmp val (AvlNeighbour d n) xs =
     (if n \<in> set xs
      then Some (AvlNode (if d then first_of False (tl (dropWhile (\<lambda>x. x \<noteq> n) xs)) else first_of True (takeWhile (\<lambda>x. x \<noteq> n) xs)), xs)
      else None)"

fun seq_run :: "('v \<Rightarrow> 'v \<Rightarrow> int) \<Rightarrow> (nat \<Rightarrow> 'v) \<Rightarrow> 'v avl_op list \<Rightarrow> nat list \<Rightarrow> (avl_out list \<times> nat list) option" where
  "seq_run cmp val [] xs = Some ([], xs)"
| "seq_run cmp val (p # ps) xs =
     (case seq_step cmp val p xs of
        None \<Rightarrow> None
      | Some (out, xs) \<Rightarrow> (case seq_run cmp val ps xs of None \<Rightarrow> None | Some (outs, xs) \<Rightarrow> Some (out # outs, xs)))"

context comparator
begin

lemma sorted_split:
  assumes "sorted_wrt (before val) (ys @ n # zs)"
  shows "takeWhile (\<lambda>x. cmp (val x) (val n) = -1) (ys @ zs) = ys" "dropWhile (\<lambda>x. cmp (val x) (val n) = -1) (ys @ zs) = zs"
proof -
  have "\<forall>x \<in> set ys. cmp (val x) (val n) = -1" using assms by (auto simp: sorted_wrt_append before_def)
  moreover have "cmp (val z) (val n) \<noteq> -1" if "z \<in> set zs" for z
    using assms that cmp_swap[of "val z" "val n"] by (auto simp: sorted_wrt_append before_def)
  ultimately show "takeWhile (\<lambda>x. cmp (val x) (val n) = -1) (ys @ zs) = ys"
    "dropWhile (\<lambda>x. cmp (val x) (val n) = -1) (ys @ zs) = zs"
    by (simp_all add: takeWhile_append dropWhile_append) (cases zs; simp)+
qed

lemma neighbour_rep:
  assumes "rep val m xs" and "n \<in> set xs"
  shows "neighbour d m n = Some (if d then first_of False (tl (dropWhile (\<lambda>x. x \<noteq> n) xs))
    else first_of True (takeWhile (\<lambda>x. x \<noteq> n) xs))"
proof -
  obtain t where t: "tree_at m None (bv_root m) t" "inorder t = xs" "sorted_wrt (before val) xs" by (rule repD[OF assms(1)])
  have dis: "distinct (inorder t)" using sorted_distinct[OF t(3)] t(2) by simp
  obtain ys zs where xs: "xs = ys @ n # zs" "n \<notin> set ys" using split_list_first[OF assms(2)] by blast
  then have "takeWhile (\<lambda>x. x \<noteq> n) xs = ys" "tl (dropWhile (\<lambda>x. x \<noteq> n) xs) = zs"
    by (auto simp: takeWhile_append dropWhile_append)
  then show ?thesis using neighbour_at[OF t(1) dis, of ys n zs d] t(2) xs(1) by simp
qed

lemma step_refines:
  assumes rep: "rep val m xs" and "seq_step cmp val p xs = Some (out, xs')"
  shows "\<exists>m'. avl_step cmp val p m = Some (Inr (out, m')) \<and> rep val m' xs'"
proof (cases p)
  case (AvlInsert n)
  with assms(2) have n: "n \<notin> set xs" by (auto split: if_splits)
  from insert_rep[OF rep n] show ?thesis
  proof (elim disjE bexE exE conjE)
    fix x assume "x \<in> set xs" "cmp (val n) (val x) = 0" "BAVL_Insert cmp val n m = Some (Inr ((False, Some x), m))"
    then show ?thesis using assms AvlInsert n by (auto split: if_splits)
  next
    fix m' ys zs ref assume h: "BAVL_Insert cmp val n m = Some (Inr ((True, ref), m'))" "xs = ys @ zs"
      "rep val m' (ys @ n # zs)" "\<forall>x \<in> set xs. cmp (val n) (val x) \<noteq> 0"
    then have "sorted_wrt (before val) (ys @ n # zs)" by (simp add: rep_def)
    with h assms(2) AvlInsert n show ?thesis by (auto simp: sorted_split)
  qed
next
  case (AvlRemove n)
  then show ?thesis using remove_rep[OF rep, of n] assms(2) by (auto split: if_splits)
next
  case (AvlLookup v)
  then show ?thesis using lookup_exact[OF rep, of v] assms by auto
next
  case (AvlEnd d)
  obtain t where "tree_at m None (bv_root m) t" "inorder t = xs" by (rule repD[OF rep])
  then show ?thesis using AvlEnd assms get_end_at[of m t d] by (cases d) (auto simp: BAVL_GetLast_def BAVL_GetFirst_def)
next
  case (AvlNeighbour d n)
  with assms(2) have "n \<in> set xs" by (auto split: if_splits)
  from neighbour_rep[OF rep this, of d] show ?thesis
    using AvlNeighbour assms by (auto simp: BAVL_GetNext_def BAVL_GetPrev_def split: if_splits)
qed

lemma run_refines:
  "rep val m xs \<Longrightarrow> seq_run cmp val ps xs = Some (outs, xs') \<Longrightarrow> \<exists>m'. avl_run cmp val ps m = Some (Inr (outs, m')) \<and> rep val m' xs'"
proof (induction ps arbitrary: m xs outs)
  case (Cons p ps)
  from Cons.prems(2) obtain out ys outs' where s: "seq_step cmp val p xs = Some (out, ys)"
    "seq_run cmp val ps ys = Some (outs', xs')" "outs = out # outs'"
    by (auto split: option.splits prod.splits)
  from step_refines[OF Cons.prems(1) s(1)] obtain m' where "avl_step cmp val p m = Some (Inr (out, m'))" "rep val m' ys" by blast
  with Cons.IH[OF _ s(2), of m'] s(3) show ?case by auto
qed simp

end

text \<open>
  C9. The pointer-based AVL tree is a sorted sequence: every sequence of insertions, removals, searches and
  iteration steps that the rules of \<^verbatim>\<open>BAVL.h\<close> allow ends, without a failed assertion or a null pointer access,
  and returns what the same operations on the sorted sequence of the nodes return. Afterwards the memory
  holds a search tree with exactly these nodes whose balance factors are right, and whose height is
  logarithmic: a search in n nodes looks at most at \<open>2 log\<^sub>2 (n + 1) + 1\<close> of them.
\<close>

theorem bavl_refinement:
  assumes "comparator cmp" and "seq_run cmp val ps [] = Some (outs, xs)"
  shows "\<exists>m' t. avl_run cmp val ps (BAVL_Init m) = Some (Inr (outs, m')) \<and> tree_at m' None (bv_root m') t
    \<and> inorder t = xs \<and> bal_at m' t \<and> 2 ^ (height t div 2) \<le> length xs + 1"
proof -
  obtain m' where m': "avl_run cmp val ps (BAVL_Init m) = Some (Inr (outs, m'))" "comparator.rep cmp val m' xs"
    using comparator.run_refines[OF assms(1) comparator.rep_init[OF assms(1)] assms(2)] by blast
  then obtain t where t: "tree_at m' None (bv_root m') t" "bal_at m' t" "inorder t = xs"
    by (auto simp: comparator.rep_def[OF assms(1)])
  moreover have "size1 t = length xs + 1" using t(3) by (metis length_inorder size1_size)
  ultimately show ?thesis using m'(1) balanced_height[of m' t] by auto
qed

theorem bavl_refinement_witness:
  "\<exists>m' t. avl_run (\<lambda>x y :: int. sgn (x - y)) int [AvlInsert 5, AvlInsert 7, AvlInsert 9, AvlInsert 6, AvlRemove 7,
      AvlNeighbour True 5, AvlLookup 8] (BAVL_Init \<lparr>bv_root = None, bv_node = \<lambda>_. \<lparr>bn_parent = None, bn_link = \<lambda>_. None, bn_balance = 0\<rparr>\<rparr>)
      = Some (Inr ([Inserted True, Inserted True, Inserted True, Inserted True, Removed, AvlNode (Some 6), AvlNode None], m'))
    \<and> tree_at m' None (bv_root m') t \<and> inorder t = [5, 6, 9]"
proof -
  have c: "comparator (\<lambda>x y :: int. sgn (x - y))"
    by unfold_locales (auto simp: sgn_if split: if_splits)
  have "seq_run (\<lambda>x y :: int. sgn (x - y)) int [AvlInsert 5, AvlInsert 7, AvlInsert 9, AvlInsert 6, AvlRemove 7,
      AvlNeighbour True 5, AvlLookup 8] []
    = Some ([Inserted True, Inserted True, Inserted True, Inserted True, Removed, AvlNode (Some 6), AvlNode None], [5, 6, 9])"
    by (simp add: first_of_def sgn_if)
  from bavl_refinement[OF c this] show ?thesis by blast
qed

end
