(* ===== verification/BAddr.thy ===== *)
theory BAddr
  imports PacketProto BAVL_Ops
begin

text \<open>
  Socket addresses (\<^verbatim>\<open>tun2socks-iOS/system/BAddr.h\<close>) and their order, which the UDP gateway client sorts its
  connections by. The machine is little-endian: a word in the memory is its bytes from the lowest, and an
  address or port in network byte order is a word whose bytes are in that order. Link-layer addresses, the third
  kind of the source, are left out.
\<close>

datatype BAddr = BAddrNone | BAddrIPv4 u32 u16 | BAddrIPv6 "byte list" u16

fun BAddr_type :: "BAddr \<Rightarrow> int" where
  "BAddr_type BAddrNone = 0"
| "BAddr_type (BAddrIPv4 ip port) = 1"
| "BAddr_type (BAddrIPv6 ip port) = 2"

definition B_COMPARE :: "'a::linorder \<Rightarrow> 'a \<Rightarrow> int" where
  "B_COMPARE a b = of_bool (a > b) - of_bool (a < b)"

definition ntoh16 :: "u16 \<Rightarrow> u16" where
  "ntoh16 x = ltoh16 (rev (htol16 x))"

definition ntoh32 :: "u32 \<Rightarrow> u32" where
  "ntoh32 x = load32_le (rev (store32_le x))"

fun memcmp :: "nat \<Rightarrow> byte list \<Rightarrow> byte list \<Rightarrow> int" where
  "memcmp 0 a b = 0"
| "memcmp (Suc n) a b =
     (if byte_at a 0 \<noteq> byte_at b 0 then B_COMPARE (byte_at a 0) (byte_at b 0) else memcmp n (tl a) (tl b))"

fun BAddr_CompareOrder :: "BAddr \<Rightarrow> BAddr \<Rightarrow> int" where
  "BAddr_CompareOrder (BAddrIPv4 ip1 port1) (BAddrIPv4 ip2 port2) =
     (let cmp = B_COMPARE (ntoh32 ip1) (ntoh32 ip2)
      in if cmp \<noteq> 0 then cmp else B_COMPARE (ntoh16 port1) (ntoh16 port2))"
| "BAddr_CompareOrder (BAddrIPv6 ip1 port1) (BAddrIPv6 ip2 port2) =
     (let cmp = memcmp 16 ip1 ip2
      in if cmp \<noteq> 0 then B_COMPARE cmp 0 else B_COMPARE (ntoh16 port1) (ntoh16 port2))"
| "BAddr_CompareOrder addr1 addr2 = B_COMPARE (BAddr_type addr1) (BAddr_type addr2)"

record conaddr =
  local_addr :: BAddr
  remote_addr :: BAddr

definition uint16_comparator :: "u16 \<Rightarrow> u16 \<Rightarrow> int" where
  "uint16_comparator v1 v2 = B_COMPARE v1 v2"

definition conaddr_comparator :: "conaddr \<Rightarrow> conaddr \<Rightarrow> int" where
  "conaddr_comparator v1 v2 =
     (let r = BAddr_CompareOrder (remote_addr v1) (remote_addr v2)
      in if r \<noteq> 0 then r else BAddr_CompareOrder (local_addr v1) (local_addr v2))"

definition wf_addr :: "BAddr \<Rightarrow> bool" where
  "wf_addr a \<longleftrightarrow> (case a of BAddrNone \<Rightarrow> False | BAddrIPv4 _ _ \<Rightarrow> True | BAddrIPv6 ip _ \<Rightarrow> length ip = 16)"

definition wf_conaddr :: "conaddr \<Rightarrow> bool" where
  "wf_conaddr c \<longleftrightarrow> wf_addr (local_addr c) \<and> wf_addr (remote_addr c)"

section \<open>Comparators\<close>

lemma B_COMPARE_eq_0 [simp]: "B_COMPARE a b = 0 \<longleftrightarrow> a = b"
  by (auto simp: B_COMPARE_def)

lemma B_COMPARE_self [simp]: "B_COMPARE a a = 0"
  by simp

lemma B_COMPARE_cases: "B_COMPARE a b = (if a < b then -1 else if a = b then 0 else 1)"
  by (auto simp: B_COMPARE_def)

lemma B_COMPARE_sign: "c \<in> {-1, 0, 1} \<Longrightarrow> B_COMPARE c (0::int) = c"
  by (auto simp: B_COMPARE_def)

lemma comparator_B_COMPARE: "comparator (\<lambda>x y. B_COMPARE (f x) (f y))"
  by unfold_locales (auto simp: B_COMPARE_cases split: if_splits)

text \<open>Comparison by one comparator, and where that gives equality by another.\<close>

lemma comparator_lex:
  assumes "comparator c1" and "comparator c2"
  shows "comparator (\<lambda>x y. if c1 x y \<noteq> 0 then c1 x y else c2 x y)"
proof -
  note r1 = comparator.cmp_range[OF assms(1)] and r2 = comparator.cmp_range[OF assms(2)]
  note s1 = comparator.cmp_swap[OF assms(1)] and s2 = comparator.cmp_swap[OF assms(2)]
  note e1 = comparator.cmp_equal[OF assms(1)] and e2 = comparator.cmp_equal[OF assms(2)]
  show ?thesis
  proof
    fix x y z
    let ?c = "\<lambda>x y. if c1 x y \<noteq> 0 then c1 x y else c2 x y"
    show "?c x y = -1 \<or> ?c x y = 0 \<or> ?c x y = 1" using r1[of x y] r2[of x y] by auto
    show "?c y x = - ?c x y" using s1[of y x] s2[of y x] by simp
    have eq: "c1 x z = c1 y z" if "c1 x y = 0" for x y z using e1[OF that] .
    have eq': "c1 x z = c1 x y" if "c1 y z = 0" for x y z
      using e1[OF that, of x] s1[of x z] s1[of x y] by simp
    show "?c x z = -1" if "?c x y = -1" "?c y z = -1"
      using that eq[of x y z] eq'[of y z x] comparator.cmp_trans[OF assms(1), of x y z]
        comparator.cmp_trans[OF assms(2), of x y z] by (auto split: if_splits)
    show "?c x z = ?c y z" if "?c x y = 0"
      using that e1[of x y z] e2[of x y z] by (auto split: if_splits)
  qed
qed

lemma comparator_on: "comparator c \<Longrightarrow> comparator (\<lambda>x y. c (f x) (f y))"
  unfolding comparator_def by blast

lemma memcmp_comparator: "comparator (memcmp n)"
proof (induction n)
  case 0
  show ?case by unfold_locales auto
next
  case (Suc n)
  have "comparator (\<lambda>a b. if B_COMPARE (byte_at a 0) (byte_at b 0) \<noteq> 0 then B_COMPARE (byte_at a 0) (byte_at b 0)
    else memcmp n (tl a) (tl b))"
    by (rule comparator_lex[OF comparator_B_COMPARE comparator_on[OF Suc]])
  also have "(\<lambda>a b. if B_COMPARE (byte_at a 0) (byte_at b 0) \<noteq> 0 then B_COMPARE (byte_at a 0) (byte_at b 0)
    else memcmp n (tl a) (tl b)) = memcmp (Suc n)" by (simp add: fun_eq_iff)
  finally show ?case .
qed

lemma memcmp_eq_0: "length a = n \<Longrightarrow> length b = n \<Longrightarrow> memcmp n a b = 0 \<longleftrightarrow> a = b"
proof (induction n arbitrary: a b)
  case (Suc n)
  then obtain x a' y b' where "a = x # a'" "b = y # b'" by (metis length_Suc_conv)
  with Suc show ?case by auto
qed simp

text \<open>The order of the addresses, one field after the other.\<close>

definition addr_ip4 :: "BAddr \<Rightarrow> u32" where
  "addr_ip4 a = (case a of BAddrIPv4 ip _ \<Rightarrow> ntoh32 ip | _ \<Rightarrow> 0)"

definition addr_ip6 :: "BAddr \<Rightarrow> byte list" where
  "addr_ip6 a = (case a of BAddrIPv6 ip _ \<Rightarrow> ip | _ \<Rightarrow> [])"

definition addr_port :: "BAddr \<Rightarrow> u16" where
  "addr_port a = (case a of BAddrIPv4 _ p \<Rightarrow> ntoh16 p | BAddrIPv6 _ p \<Rightarrow> ntoh16 p | BAddrNone \<Rightarrow> 0)"

definition lexc :: "('a \<Rightarrow> 'a \<Rightarrow> int) \<Rightarrow> ('a \<Rightarrow> 'a \<Rightarrow> int) \<Rightarrow> 'a \<Rightarrow> 'a \<Rightarrow> int" where
  "lexc c1 c2 = (\<lambda>x y. if c1 x y \<noteq> 0 then c1 x y else c2 x y)"

lemma comparator_lexc: "comparator c1 \<Longrightarrow> comparator c2 \<Longrightarrow> comparator (lexc c1 c2)"
  unfolding lexc_def by (rule comparator_lex)

lemma CompareOrder_fields: "BAddr_CompareOrder = lexc (\<lambda>x y. B_COMPARE (BAddr_type x) (BAddr_type y))
    (lexc (\<lambda>x y. B_COMPARE (addr_ip4 x) (addr_ip4 y)) (lexc (\<lambda>x y. memcmp 16 (addr_ip6 x) (addr_ip6 y))
      (\<lambda>x y. B_COMPARE (addr_port x) (addr_port y))))"
proof (intro ext)
  fix x y
  have "B_COMPARE (memcmp 16 a b) 0 = memcmp 16 a b" for a b
    using comparator.cmp_range[OF memcmp_comparator, of 16 a b] by (intro B_COMPARE_sign) blast
  moreover have "memcmp n [] [] = 0" for n by (induction n) auto
  ultimately show "BAddr_CompareOrder x y = lexc (\<lambda>x y. B_COMPARE (BAddr_type x) (BAddr_type y))
    (lexc (\<lambda>x y. B_COMPARE (addr_ip4 x) (addr_ip4 y)) (lexc (\<lambda>x y. memcmp 16 (addr_ip6 x) (addr_ip6 y))
      (\<lambda>x y. B_COMPARE (addr_port x) (addr_port y)))) x y"
    by (cases x; cases y) (auto simp: lexc_def addr_ip4_def addr_ip6_def addr_port_def Let_def simp del: memcmp.simps)
qed

lemma CompareOrder_comparator: "comparator BAddr_CompareOrder"
  unfolding CompareOrder_fields
  by (intro comparator_lexc comparator_B_COMPARE comparator_on[OF memcmp_comparator])

interpretation conid: comparator uint16_comparator
  unfolding uint16_comparator_def[abs_def] by (rule comparator_B_COMPARE[where f = "\<lambda>x. x"])

interpretation conaddr: comparator conaddr_comparator
proof -
  have eq: "conaddr_comparator = lexc (\<lambda>x y. BAddr_CompareOrder (remote_addr x) (remote_addr y))
    (\<lambda>x y. BAddr_CompareOrder (local_addr x) (local_addr y))"
    by (simp add: fun_eq_iff conaddr_comparator_def lexc_def Let_def)
  show "comparator conaddr_comparator"
    unfolding eq by (rule comparator_lexc[OF comparator_on[OF CompareOrder_comparator] comparator_on[OF CompareOrder_comparator]])
qed

lemma ntoh16_inj: "ntoh16 x = ntoh16 y \<longleftrightarrow> x = y"
proof -
  have "ntoh16 (ntoh16 x) = x" for x
    by (auto simp: ntoh16_def htol16_def ltoh16_def bit_eq_iff bit_simps)
  then show ?thesis by metis
qed

lemma ntoh32_inj: "ntoh32 x = ntoh32 y \<longleftrightarrow> x = y"
proof -
  have "ntoh32 (ntoh32 x) = x" for x
    unfolding ntoh32_def by (simp add: store32_le_load32_le)
  then show ?thesis by metis
qed

lemma CompareOrder_eq_0: "wf_addr a \<Longrightarrow> wf_addr b \<Longrightarrow> BAddr_CompareOrder a b = 0 \<longleftrightarrow> a = b"
  by (cases a; cases b)
    (auto simp: wf_addr_def Let_def ntoh16_inj ntoh32_inj memcmp_eq_0 simp del: memcmp.simps split: if_splits)

lemma conaddr_eq_0: "wf_conaddr a \<Longrightarrow> wf_conaddr b \<Longrightarrow> conaddr_comparator a b = 0 \<longleftrightarrow> a = b"
  by (cases a; cases b) (auto simp: conaddr_comparator_def wf_conaddr_def CompareOrder_eq_0 Let_def)

end
