(* ===== verification/LinkedList1.thy ===== *)
theory LinkedList1
  imports C_Prelude
begin

text \<open>
  The doubly linked list of \<^verbatim>\<open>tun2socks-iOS/structure/LinkedList1.h\<close> on a memory of nodes: a node is its
  address, \<open>None\<close> is the null pointer. \<open>chain\<close> relates the memory to a sequence of nodes; every operation
  is the operation of its name on the sequence. The locale \<open>node_sequence\<close> is what the clients of the list use.
\<close>

record llnode =
  ll_p :: "nat option"
  ll_n :: "nat option"

record llist =
  ll_first :: "nat option"
  ll_last :: "nat option"
  ll_node :: "nat \<Rightarrow> llnode"

abbreviation ll_prev :: "llist \<Rightarrow> nat \<Rightarrow> nat option" where
  "ll_prev l x \<equiv> ll_p (ll_node l x)"

abbreviation ll_next :: "llist \<Rightarrow> nat \<Rightarrow> nat option" where
  "ll_next l x \<equiv> ll_n (ll_node l x)"

definition set_prev :: "nat \<Rightarrow> nat option \<Rightarrow> llist \<Rightarrow> llist" where
  "set_prev x p l = l\<lparr>ll_node := (ll_node l)(x := (ll_node l x)\<lparr>ll_p := p\<rparr>)\<rparr>"

definition set_next :: "nat \<Rightarrow> nat option \<Rightarrow> llist \<Rightarrow> llist" where
  "set_next x p l = l\<lparr>ll_node := (ll_node l)(x := (ll_node l x)\<lparr>ll_n := p\<rparr>)\<rparr>"

text \<open>\<open>if (q) q->n = p; else list->first = p\<close> and \<open>if (q) q->p = p; else list->last = p\<close>.\<close>

definition link_after :: "nat option \<Rightarrow> nat option \<Rightarrow> llist \<Rightarrow> llist" where
  "link_after q p l = (case q of Some x \<Rightarrow> set_next x p l | None \<Rightarrow> l\<lparr>ll_first := p\<rparr>)"

definition link_before :: "nat option \<Rightarrow> nat option \<Rightarrow> llist \<Rightarrow> llist" where
  "link_before q p l = (case q of Some x \<Rightarrow> set_prev x p l | None \<Rightarrow> l\<lparr>ll_last := p\<rparr>)"

definition LinkedList1_Init :: "llist \<Rightarrow> llist" where
  "LinkedList1_Init l = l\<lparr>ll_first := None, ll_last := None\<rparr>"

definition LinkedList1_IsEmpty :: "llist \<Rightarrow> bool" where
  "LinkedList1_IsEmpty l = (ll_first l = None)"

definition LinkedList1_GetFirst :: "llist \<Rightarrow> nat option" where
  "LinkedList1_GetFirst l = ll_first l"

definition LinkedList1_GetLast :: "llist \<Rightarrow> nat option" where
  "LinkedList1_GetLast l = ll_last l"

definition LinkedList1_Prepend :: "nat \<Rightarrow> llist \<Rightarrow> llist" where
  "LinkedList1_Prepend x l =
     (let l = set_prev x None l;
          l = set_next x (ll_first l) l;
          l = link_before (ll_first l) (Some x) l
      in l\<lparr>ll_first := Some x\<rparr>)"

definition LinkedList1_Append :: "nat \<Rightarrow> llist \<Rightarrow> llist" where
  "LinkedList1_Append x l =
     (let l = set_prev x (ll_last l) l;
          l = set_next x None l;
          l = link_after (ll_last l) (Some x) l
      in l\<lparr>ll_last := Some x\<rparr>)"

definition LinkedList1_InsertBefore :: "nat \<Rightarrow> nat \<Rightarrow> llist \<Rightarrow> llist" where
  "LinkedList1_InsertBefore x target l =
     (let l = set_prev x (ll_prev l target) l;
          l = set_next x (Some target) l;
          l = link_after (ll_prev l target) (Some x) l
      in set_prev target (Some x) l)"

definition LinkedList1_InsertAfter :: "nat \<Rightarrow> nat \<Rightarrow> llist \<Rightarrow> llist" where
  "LinkedList1_InsertAfter x target l =
     (let l = set_prev x (Some target) l;
          l = set_next x (ll_next l target) l;
          l = link_before (ll_next l target) (Some x) l
      in set_next target (Some x) l)"

definition LinkedList1_Remove :: "nat \<Rightarrow> llist \<Rightarrow> llist" where
  "LinkedList1_Remove x l =
     (let l = link_after (ll_prev l x) (ll_next l x) l
      in link_before (ll_next l x) (ll_prev l x) l)"

text \<open>\<open>ins_list\<close> is given by its first and last node; its nodes are in the same memory.\<close>

definition LinkedList1_InsertListAfter :: "nat option \<times> nat option \<Rightarrow> nat option \<Rightarrow> llist \<Rightarrow> llist" where
  "LinkedList1_InsertListAfter ins target l =
     (case ins of
        (Some f, Some e) \<Rightarrow>
          let t_next = (case target of Some t \<Rightarrow> ll_next l t | None \<Rightarrow> ll_first l);
              l = set_prev f target l;
              l = set_next e t_next l;
              l = link_after target (Some f) l
          in link_before t_next (Some e) l
      | _ \<Rightarrow> l)"

section \<open>Chains\<close>

lemma set_prev_simps [simp]:
  "ll_prev (set_prev x p l) y = (if y = x then p else ll_prev l y)" "ll_next (set_prev x p l) y = ll_next l y"
  "ll_first (set_prev x p l) = ll_first l" "ll_last (set_prev x p l) = ll_last l"
  by (simp_all add: set_prev_def)

lemma set_next_simps [simp]:
  "ll_next (set_next x p l) y = (if y = x then p else ll_next l y)" "ll_prev (set_next x p l) y = ll_prev l y"
  "ll_first (set_next x p l) = ll_first l" "ll_last (set_next x p l) = ll_last l"
  by (simp_all add: set_next_def)

lemma link_after_simps [simp]:
  "ll_next (link_after q p l) y = (if q = Some y then p else ll_next l y)" "ll_prev (link_after q p l) y = ll_prev l y"
  "ll_first (link_after q p l) = (if q = None then p else ll_first l)" "ll_last (link_after q p l) = ll_last l"
  by (auto simp: link_after_def split: option.split)

lemma link_before_simps [simp]:
  "ll_prev (link_before q p l) y = (if q = Some y then p else ll_prev l y)" "ll_next (link_before q p l) y = ll_next l y"
  "ll_last (link_before q p l) = (if q = None then p else ll_last l)" "ll_first (link_before q p l) = ll_first l"
  by (auto simp: link_before_def split: option.split)

definition first_or :: "nat list \<Rightarrow> nat option \<Rightarrow> nat option" where
  "first_or xs n = (case xs of [] \<Rightarrow> n | x # _ \<Rightarrow> Some x)"

definition last_or :: "nat option \<Rightarrow> nat list \<Rightarrow> nat option" where
  "last_or p xs = (if xs = [] then p else Some (last xs))"

text \<open>The nodes \<open>xs\<close> are linked in this order, between the nodes \<open>p\<close> and \<open>n\<close>.\<close>

fun chain :: "llist \<Rightarrow> nat option \<Rightarrow> nat list \<Rightarrow> nat option \<Rightarrow> bool" where
  "chain l p [] n \<longleftrightarrow> True"
| "chain l p (x # xs) n \<longleftrightarrow> ll_prev l x = p \<and> ll_next l x = first_or xs n \<and> chain l (Some x) xs n"

definition ll_rep :: "llist \<Rightarrow> nat list \<Rightarrow> bool" where
  "ll_rep l xs \<longleftrightarrow> distinct xs \<and> ll_first l = first_or xs None \<and> ll_last l = last_or None xs \<and> chain l None xs None"

lemma ends_simps [simp]:
  "first_or [] n = n" "first_or (x # xs) n = Some x" "last_or p [] = p" "last_or p (x # xs) = last_or (Some x) xs"
  "first_or (xs @ ys) n = first_or xs (first_or ys n)" "last_or p (xs @ ys) = last_or (last_or p xs) ys"
  by (auto simp: first_or_def last_or_def split: list.split)

lemma chain_append: "chain l p (xs @ ys) n \<longleftrightarrow> chain l p xs (first_or ys n) \<and> chain l (last_or p xs) ys n"
  by (induction xs arbitrary: p) auto

lemma chain_cong:
  "(\<And>x. x \<in> set xs \<Longrightarrow> ll_prev l' x = ll_prev l x \<and> ll_next l' x = ll_next l x) \<Longrightarrow> chain l' p xs n = chain l p xs n"
  by (induction xs arbitrary: p) auto

text \<open>A chain with other nodes around it: only the links of its ends change.\<close>

lemma chain_move:
  assumes "chain l p xs n" and "distinct xs"
    and "\<And>x. x \<in> set xs \<Longrightarrow> ll_prev l' x = (if Some x = first_or xs None then p' else ll_prev l x)"
    and "\<And>x. x \<in> set xs \<Longrightarrow> ll_next l' x = (if Some x = last_or None xs then n' else ll_next l x)"
  shows "chain l' p' xs n'"
  using assms
proof (induction xs arbitrary: p p')
  case (Cons x xs)
  have ne: "Some y \<noteq> Some x" if "y \<in> set xs" for y using Cons.prems(2) that by auto
  have last: "Some y = last_or (Some x) xs \<longleftrightarrow> Some y = last_or None xs" if "y \<in> set xs" for y
    using that by (cases xs) auto
  have prev: "ll_prev l' y = (if Some y = first_or xs None then Some x else ll_prev l y)" if "y \<in> set xs" for y
    using Cons.prems(1,2,3) that by (cases xs) auto
  have "chain l' (Some x) xs n'"
    by (rule Cons.IH[of "Some x"]) (use Cons.prems last prev in auto)
  moreover have "ll_next l' x = first_or xs n'"
    using Cons.prems(1,2,4) by (cases xs) (auto simp: last_or_def)
  ultimately show ?case using Cons.prems(3) by simp
qed simp

lemma first_in: "first_or xs None = Some x \<Longrightarrow> x \<in> set xs"
  by (cases xs) auto

lemma last_in: "last_or None xs = Some x \<Longrightarrow> x \<in> set xs"
  by (auto simp: last_or_def split: if_splits)

lemma chain_first: "chain l p xs n \<Longrightarrow> first_or xs None = Some x \<Longrightarrow> ll_prev l x = p"
  by (cases xs) auto

lemma chain_last: "chain l p xs n \<Longrightarrow> last_or None xs = Some x \<Longrightarrow> ll_next l x = n"
proof (induction xs arbitrary: p)
  case (Cons y ys)
  then show ?case by (cases ys) auto
qed simp

lemma insert_chain:
  assumes rep: "ll_rep l (ys @ zs)" and ws: "chain l p ws n" "ws \<noteq> []" and dis: "distinct (ys @ ws @ zs)"
    and ends: "ll_first l' = first_or ys (first_or ws None)" "ll_last l' = last_or (last_or None ws) zs"
    and prv: "\<And>x. ll_prev l' x = (if first_or ws None = Some x then last_or None ys
        else if first_or zs None = Some x then last_or None ws else ll_prev l x)"
    and nxt: "\<And>x. ll_next l' x = (if last_or None ws = Some x then first_or zs None
        else if last_or None ys = Some x then first_or ws None else ll_next l x)"
  shows "ll_rep l' (ys @ ws @ zs)"
proof -
  have out: "x \<notin> set ys \<and> x \<notin> set zs" if "x \<in> set ws" for x using dis that by auto
  have out2: "x \<notin> set zs" if "x \<in> set ys" for x using dis that by auto
  obtain w ws' where w: "ws = w # ws'" using ws(2) by (cases ws) auto
  have l: "chain l None ys (first_or zs None)" "chain l (last_or None ys) zs None"
    using rep by (auto simp: ll_rep_def chain_append)
  have "chain l' None ys (first_or ws None)"
    by (rule chain_move[OF l(1)], use dis in simp)
      (use prv nxt out out2 first_in[of ws] first_in[of zs] last_in[of ws] chain_first[OF l(1)] in \<open>fastforce+\<close>)
  moreover have "chain l' (last_or None ys) ws (first_or zs None)"
    by (rule chain_move[OF ws(1)], use dis in simp)
      (use prv nxt out first_in[of zs] last_in[of ys] in \<open>fastforce+\<close>)
  moreover have "chain l' (last_or None ws) zs None"
    by (rule chain_move[OF l(2)], use dis in simp)
      (use prv nxt out out2 first_in[of ws] last_in[of ws] last_in[of ys] chain_last[OF l(2)] in \<open>fastforce+\<close>)
  ultimately show ?thesis using dis ends w by (simp add: ll_rep_def chain_append)
qed

section \<open>The operations\<close>

lemma Init_rep: "ll_rep (LinkedList1_Init l) []"
  by (simp add: ll_rep_def LinkedList1_Init_def)

lemma First_rep: "ll_rep l xs \<Longrightarrow> LinkedList1_GetFirst l = first_or xs None"
  by (simp add: ll_rep_def LinkedList1_GetFirst_def)

lemma Last_rep: "ll_rep l xs \<Longrightarrow> LinkedList1_GetLast l = last_or None xs"
  by (simp add: ll_rep_def LinkedList1_GetLast_def)

lemma IsEmpty_rep: "ll_rep l xs \<Longrightarrow> LinkedList1_IsEmpty l = (xs = [])"
  by (cases xs) (auto simp: ll_rep_def LinkedList1_IsEmpty_def)

text \<open>A single node that is not in the list yet is a chain of its own.\<close>

lemma insert_node:
  assumes "ll_rep l (ys @ zs)" and "x \<notin> set (ys @ zs)"
    and "ll_first l' = first_or ys (Some x)" and "ll_last l' = last_or (Some x) zs"
    and "\<And>y. ll_prev l' y = (if y = x then last_or None ys else if first_or zs None = Some y then Some x else ll_prev l y)"
    and "\<And>y. ll_next l' y = (if y = x then first_or zs None else if last_or None ys = Some y then Some x else ll_next l y)"
  shows "ll_rep l' (ys @ x # zs)"
proof -
  have "distinct (ys @ [x] @ zs)" using assms(1,2) by (auto simp: ll_rep_def)
  moreover have "chain l (ll_prev l x) [x] (ll_next l x)" by simp
  ultimately show ?thesis using insert_chain[OF assms(1), of "ll_prev l x" "[x]" "ll_next l x" l'] assms(3-6) by auto
qed

lemma ends_ne: "ys \<noteq> [] \<Longrightarrow> first_or ys q = Some (hd ys)" "ys \<noteq> [] \<Longrightarrow> last_or p ys = Some (last ys)"
  by (auto simp: first_or_def last_or_def split: list.split)

lemma Append_rep: "ll_rep l xs \<Longrightarrow> x \<notin> set xs \<Longrightarrow> ll_rep (LinkedList1_Append x l) (xs @ [x])"
  by (rule insert_node[of l xs "[]"], simp_all add: LinkedList1_Append_def Let_def ll_rep_def)
    (cases "xs = []"; auto simp: ends_ne)+

lemma Prepend_rep:
  assumes "ll_rep l xs" and "x \<notin> set xs"
  shows "ll_rep (LinkedList1_Prepend x l) (x # xs)"
proof -
  have "ll_rep (LinkedList1_Prepend x l) ([] @ x # xs)"
    by (rule insert_node, use assms in \<open>simp_all add: LinkedList1_Prepend_def Let_def ll_rep_def\<close>)
      (use assms in \<open>(cases "xs = []"; auto simp: ends_ne)+\<close>)
  then show ?thesis by simp
qed

lemma InsertBefore_rep:
  assumes "ll_rep l (ys @ t # zs)" and "x \<notin> set (ys @ t # zs)"
  shows "ll_rep (LinkedList1_InsertBefore x t l) (ys @ x # t # zs)"
proof -
  have t: "ll_prev l t = last_or None ys" using assms(1) by (auto simp: ll_rep_def chain_append)
  have "ll_first l = first_or ys (Some t)" "ll_last l = last_or (Some t) zs" using assms(1) by (auto simp: ll_rep_def)
  moreover have "t \<notin> set ys" using assms(1) by (auto simp: ll_rep_def)
  ultimately show ?thesis using t assms(2)
    by (intro insert_node[OF assms(1)])
      (simp_all add: LinkedList1_InsertBefore_def Let_def, (cases "ys = []"; auto simp: ends_ne)+)
qed

lemma InsertAfter_rep:
  assumes "ll_rep l (ys @ t # zs)" and "x \<notin> set (ys @ t # zs)"
  shows "ll_rep (LinkedList1_InsertAfter x t l) (ys @ t # x # zs)"
proof -
  have t: "ll_next l t = first_or zs None" using assms(1) by (auto simp: ll_rep_def chain_append)
  have "ll_first l = first_or ys (Some t)" "ll_last l = last_or (Some t) zs" using assms(1) by (auto simp: ll_rep_def)
  moreover have "t \<notin> set zs" using assms(1) by (auto simp: ll_rep_def)
  moreover have "ll_rep l ((ys @ [t]) @ zs)" using assms(1) by simp
  ultimately have "ll_rep (LinkedList1_InsertAfter x t l) ((ys @ [t]) @ x # zs)" using t assms(2)
    by (intro insert_node)
      (simp_all add: LinkedList1_InsertAfter_def Let_def, (cases "zs = []"; auto simp: ends_ne)+)
  then show ?thesis by simp
qed

lemma InsertListAfter_rep:
  assumes "ll_rep l (ys @ zs)" and "chain l p ws n" and "distinct (ys @ ws @ zs)"
  shows "ll_rep (LinkedList1_InsertListAfter (first_or ws None, last_or None ws) (last_or None ys) l) (ys @ ws @ zs)"
proof (cases "ws = []")
  case True
  then show ?thesis using assms(1) by (simp add: LinkedList1_InsertListAfter_def)
next
  case False
  then have w: "first_or ws q = Some (hd ws)" "last_or q ws = Some (last ws)" "hd ws \<in> set ws" "last ws \<in> set ws" for q
    by (simp_all add: ends_ne)
  have fl: "ll_first l = first_or ys (first_or zs None)" "ll_last l = last_or (last_or None ys) zs"
    using assms(1) by (auto simp: ll_rep_def)
  have tn: "(case last_or None ys of Some t \<Rightarrow> ll_next l t | None \<Rightarrow> ll_first l) = first_or zs None"
    using assms(1) chain_last[of l None ys "first_or zs None"] fl
    by (cases "ys = []") (auto simp: ll_rep_def chain_append ends_ne)
  define l' where "l' = link_before (first_or zs None) (Some (last ws)) (link_after (last_or None ys) (Some (hd ws))
    (set_next (last ws) (first_or zs None) (set_prev (hd ws) (last_or None ys) l)))"
  have out: "last ws \<notin> set ys" "hd ws \<notin> set zs" using assms(3) w(3,4) by auto
  have "ll_rep l' (ys @ ws @ zs)"
  proof (rule insert_chain[OF assms(1,2) False assms(3)])
    show "ll_first l' = first_or ys (first_or ws None)" "ll_last l' = last_or (last_or None ws) zs"
      using fl by (cases "ys = []"; cases "zs = []"; simp add: l'_def w ends_ne)+
    show "ll_prev l' x = (if first_or ws None = Some x then last_or None ys
        else if first_or zs None = Some x then last_or None ws else ll_prev l x)" for x
      using out(2) first_in[of zs x] by (auto simp: l'_def w)
    show "ll_next l' x = (if last_or None ws = Some x then first_or zs None
        else if last_or None ys = Some x then first_or ws None else ll_next l x)" for x
      using out(1) last_in[of ys x] by (auto simp: l'_def w)
  qed
  then show ?thesis by (simp add: LinkedList1_InsertListAfter_def w Let_def tn l'_def)
qed

lemma Remove_rep:
  assumes "ll_rep l (ys @ x # zs)"
  shows "ll_rep (LinkedList1_Remove x l) (ys @ zs)"
proof -
  have dis: "distinct (ys @ x # zs)" and c: "chain l None ys (Some x)" "ll_prev l x = last_or None ys"
    "ll_next l x = first_or zs None" "chain l (Some x) zs None"
    and e: "ll_first l = first_or ys (Some x)" "ll_last l = last_or (Some x) zs"
    using assms by (auto simp: ll_rep_def chain_append)
  let ?l = "LinkedList1_Remove x l"
  have new: "ll_prev ?l y = (if first_or zs None = Some y then last_or None ys else ll_prev l y)"
    "ll_next ?l y = (if last_or None ys = Some y then first_or zs None else ll_next l y)" if "y \<noteq> x" for y
    using c(2,3) dis last_in[of ys x] that by (auto simp: LinkedList1_Remove_def Let_def)
  have y: "y \<noteq> x" "first_or zs None \<noteq> Some y" if "y \<in> set ys" for y using dis first_in[of zs y] that by auto
  have z: "z \<noteq> x" "last_or None ys \<noteq> Some z" if "z \<in> set zs" for z using dis last_in[of ys z] that by auto
  have "chain ?l None ys (first_or zs None)"
  proof (rule chain_move[OF c(1)])
    fix u assume u: "u \<in> set ys"
    show "ll_prev ?l u = (if Some u = first_or ys None then None else ll_prev l u)"
      using new(1)[OF y(1)[OF u]] y(2)[OF u] chain_first[OF c(1), of u] by simp
    show "ll_next ?l u = (if Some u = last_or None ys then first_or zs None else ll_next l u)"
      using new(2)[OF y(1)[OF u]] by auto
  qed (use dis in simp)
  moreover have "chain ?l (last_or None ys) zs None"
  proof (rule chain_move[OF c(4)])
    fix u assume u: "u \<in> set zs"
    show "ll_prev ?l u = (if Some u = first_or zs None then last_or None ys else ll_prev l u)"
      using new(1)[OF z(1)[OF u]] by auto
    show "ll_next ?l u = (if Some u = last_or None zs then None else ll_next l u)"
      using new(2)[OF z(1)[OF u]] z(2)[OF u] chain_last[OF c(4), of u] by simp
  qed (use dis in simp)
  moreover have "ll_first ?l = first_or (ys @ zs) None" "ll_last ?l = last_or None (ys @ zs)"
  proof -
    have "ll_first ?l = (if last_or None ys = None then first_or zs None else ll_first l)"
      "ll_last ?l = (if first_or zs None = None then last_or None ys else ll_last l)"
      using c(2,3) dis last_in[of ys x] by (auto simp: LinkedList1_Remove_def Let_def)
    then show "ll_first ?l = first_or (ys @ zs) None" "ll_last ?l = last_or None (ys @ zs)"
      unfolding e by (cases "ys = []"; cases "zs = []"; simp add: ends_ne)+
  qed
  ultimately show ?thesis using dis by (simp add: ll_rep_def chain_append)
qed

section \<open>The interface of the list\<close>

locale node_sequence =
  fixes rep :: "'m \<Rightarrow> nat list \<Rightarrow> bool"
    and append_node :: "nat \<Rightarrow> 'm \<Rightarrow> 'm"
    and remove_node :: "nat \<Rightarrow> 'm \<Rightarrow> 'm"
    and first_node :: "'m \<Rightarrow> nat option"
  assumes distinct_law: "rep m xs \<Longrightarrow> distinct xs"
    and append_law: "rep m xs \<Longrightarrow> x \<notin> set xs \<Longrightarrow> rep (append_node x m) (xs @ [x])"
    and remove_law: "rep m xs \<Longrightarrow> x \<in> set xs \<Longrightarrow> rep (remove_node x m) (remove1 x xs)"
    and first_law: "rep m (x # xs) \<Longrightarrow> first_node m = Some x" "rep m [] \<Longrightarrow> first_node m = None"
begin

lemma move_to_end:
  assumes "rep m xs" and "x \<in> set xs"
  shows "rep (append_node x (remove_node x m)) (remove1 x xs @ [x])"
  using append_law[OF remove_law[OF assms]] distinct_law[OF assms(1)] by simp

lemma rotate_first: "rep m (x # xs) \<Longrightarrow> first_node m = Some x \<and> rep (append_node x (remove_node x m)) (xs @ [x])"
  using move_to_end[of m "x # xs" x] first_law(1) by simp

end

interpretation ll: node_sequence ll_rep LinkedList1_Append LinkedList1_Remove LinkedList1_GetFirst
proof
  fix l xs x
  show "ll_rep l xs \<Longrightarrow> distinct xs" by (simp add: ll_rep_def)
  show "ll_rep l xs \<Longrightarrow> x \<notin> set xs \<Longrightarrow> ll_rep (LinkedList1_Append x l) (xs @ [x])" by (rule Append_rep)
  show "ll_rep (LinkedList1_Remove x l) (remove1 x xs)" if r: "ll_rep l xs" and x: "x \<in> set xs"
  proof -
    obtain ys zs where "xs = ys @ x # zs" "x \<notin> set ys" using split_list_first[OF x] by blast
    then show ?thesis using Remove_rep[of l ys x zs] r by (simp add: remove1_append)
  qed
qed (simp_all add: First_rep)

end
