(* ===== verification/FairQueue.thy ===== *)
theory FairQueue
  imports C_Prelude
begin

text \<open>
  The fair queue of \<^verbatim>\<open>tun2socks-iOS/flow/PacketPassFairQueue.c\<close>, which shares one output among the
  UDP connections.

  \<^item> A flow is its address, a natural number; \<open>fq_flow\<close> is the memory the flow objects are in.
  \<^item> The virtual time of a flow is a \<open>u64\<close>, with the code's handling of its overflow.
  \<^item> \<open>queued_tree\<close> is the AVL tree as the sequence of its nodes: the first node, insertion by
    \<open>compare_flows\<close> and removal are those of the tree.
  \<^item> \<open>schedule_job\<close> is whether the job is pending.
  \<^item> An operation returns the queue with the calls it makes: the output starts to send a packet, a
    flow's packet is done, the busy handler of a flow is called, the output is asked to cancel.
\<close>

record flow =
  fl_time :: u64
  is_queued :: bool
  fl_data :: "byte list"
  handler_busy :: bool

record fair_queue =
  fq_flow :: "nat \<Rightarrow> flow"
  flows_list :: "nat list"
  queued_tree :: "nat list"
  sending_flow :: "nat option"
  sending_len :: nat
  previous_flow :: "nat option"
  freeing :: bool
  schedule_job :: bool
  packet_weight :: nat
  output_mtu :: nat
  use_cancel :: bool

datatype fq_call = OutSend "byte list" | FlowDone nat | Busy nat | OutCancel

type_synonym fq_result = "fair_queue \<times> fq_call list"

definition FAIRQUEUE_MAX_TIME :: u64 where
  "FAIRQUEUE_MAX_TIME = - 1"

abbreviation time :: "fair_queue \<Rightarrow> nat \<Rightarrow> u64" where
  "time m f \<equiv> fl_time (fq_flow m f)"

definition set_flow :: "nat \<Rightarrow> flow \<Rightarrow> fair_queue \<Rightarrow> fair_queue" where
  "set_flow f x m = m\<lparr>fq_flow := (fq_flow m)(f := x)\<rparr>"

text \<open>\<open>compare_flows(f1, f2) < 0\<close>.\<close>

definition compare_flows :: "fair_queue \<Rightarrow> nat \<Rightarrow> nat \<Rightarrow> bool" where
  "compare_flows m f1 f2 \<longleftrightarrow> time m f1 < time m f2 \<or> time m f1 = time m f2 \<and> f1 < f2"

fun tree_insert :: "fair_queue \<Rightarrow> nat \<Rightarrow> nat list \<Rightarrow> nat list" where
  "tree_insert m f [] = [f]"
| "tree_insert m f (g # t) = (if compare_flows m f g then f # g # t else g # tree_insert m f t)"

fun tree_first :: "nat list \<Rightarrow> nat option" where
  "tree_first [] = None"
| "tree_first (f # t) = Some f"

definition get_current_time :: "fair_queue \<Rightarrow> u64 run" where
  "get_current_time m =
     (case sending_flow m of
        Some f \<Rightarrow> Inr (time m f)
      | None \<Rightarrow>
          bindE (case tree_first (queued_tree m) of
                   None \<Rightarrow> Inr None
                 | Some f \<Rightarrow> bindE (guardE (is_queued (fq_flow m f)) AssertFailed) (\<lambda>_. Inr (Some (time m f))))
            (\<lambda>have.
            case previous_flow m of
              None \<Rightarrow> Inr (case have of None \<Rightarrow> 0 | Some t \<Rightarrow> t)
            | Some p \<Rightarrow>
                Inr (case have of
                       None \<Rightarrow> time m p
                     | Some t \<Rightarrow> if time m p < t then time m p else t)))"

fun subtract_loop :: "u64 \<Rightarrow> nat \<Rightarrow> nat list \<Rightarrow> fair_queue \<Rightarrow> fair_queue run" where
  "subtract_loop sub flow [] m = Inr m"
| "subtract_loop sub flow (g # gs) m =
     (if sub > time m g \<and> g \<noteq> flow
      then bindE (guardE (\<not> is_queued (fq_flow m g)) AssertFailed) (\<lambda>_.
             subtract_loop sub flow gs (set_flow g ((fq_flow m g)\<lparr>fl_time := 0\<rparr>) m))
      else subtract_loop sub flow gs (set_flow g ((fq_flow m g)\<lparr>fl_time := time m g - sub\<rparr>) m))"

definition increment_sent_flow :: "nat \<Rightarrow> u64 \<Rightarrow> fair_queue \<Rightarrow> fair_queue run" where
  "increment_sent_flow flow amount m =
     bindE (guardE (amount \<le> FAIRQUEUE_MAX_TIME \<and> \<not> is_queued (fq_flow m flow) \<and> sending_flow m = None)
             AssertFailed) (\<lambda>_.
     bindE (if amount > FAIRQUEUE_MAX_TIME - time m flow
            then
              bindE (case tree_first (queued_tree m) of
                       None \<Rightarrow> Inr (time m flow)
                     | Some f \<Rightarrow> bindE (guardE (is_queued (fq_flow m f)) AssertFailed) (\<lambda>_. Inr (time m f)))
                (\<lambda>sub. subtract_loop sub flow (flows_list m) m)
            else Inr m) (\<lambda>m.
       Inr (set_flow flow ((fq_flow m flow)\<lparr>fl_time := time m flow + amount\<rparr>) m)))"

definition schedule :: "fair_queue \<Rightarrow> fq_result run" where
  "schedule m =
     bindE (guardE (sending_flow m = None \<and> previous_flow m = None \<and> \<not> freeing m) AssertFailed) (\<lambda>_.
       case tree_first (queued_tree m) of
         None \<Rightarrow> Inl AssertFailed
       | Some f \<Rightarrow>
           bindE (guardE (is_queued (fq_flow m f)) AssertFailed) (\<lambda>_.
             let m = m\<lparr>queued_tree := remove1 f (queued_tree m)\<rparr>;
                 m = set_flow f ((fq_flow m f)\<lparr>is_queued := False\<rparr>) m
             in Inr (m\<lparr>sending_flow := Some f, sending_len := length (fl_data (fq_flow m f))\<rparr>,
                     [OutSend (fl_data (fq_flow m f))])))"

definition schedule_job_handler :: "fair_queue \<Rightarrow> fq_result run" where
  "schedule_job_handler m =
     bindE (guardE (sending_flow m = None \<and> \<not> freeing m) AssertFailed) (\<lambda>_.
       let m = m\<lparr>previous_flow := None\<rparr>
       in if queued_tree m \<noteq> [] then schedule m else Inr (m, []))"

definition fq_input_handler_send :: "nat \<Rightarrow> byte list \<Rightarrow> fair_queue \<Rightarrow> fq_result run" where
  "fq_input_handler_send flow data m =
     bindE (guardE (sending_flow m \<noteq> Some flow \<and> \<not> is_queued (fq_flow m flow) \<and> \<not> freeing m) AssertFailed) (\<lambda>_.
     bindE (if previous_flow m = Some flow then Inr (m\<lparr>previous_flow := None\<rparr>)
            else bindE (get_current_time m) (\<lambda>t.
                   Inr (set_flow flow ((fq_flow m flow)\<lparr>fl_time := max (time m flow) t\<rparr>) m))) (\<lambda>m.
       let m = set_flow flow ((fq_flow m flow)\<lparr>fl_data := data\<rparr>) m
       in bindE (guardE (flow \<notin> set (queued_tree m)) AssertFailed) (\<lambda>_.
            let m = m\<lparr>queued_tree := tree_insert m flow (queued_tree m)\<rparr>;
                m = set_flow flow ((fq_flow m flow)\<lparr>is_queued := True\<rparr>) m
            in if sending_flow m = None \<and> \<not> schedule_job m then schedule m else Inr (m, []))))"

definition fq_output_handler_done :: "fair_queue \<Rightarrow> fq_result run" where
  "fq_output_handler_done m =
     (case sending_flow m of
        None \<Rightarrow> Inl AssertFailed
      | Some flow \<Rightarrow>
          bindE (guardE (previous_flow m = None \<and> \<not> schedule_job m \<and> \<not> freeing m
                         \<and> \<not> is_queued (fq_flow m flow)) AssertFailed) (\<lambda>_.
            let m = m\<lparr>sending_flow := None, previous_flow := Some flow\<rparr>
            in bindE (increment_sent_flow flow (of_nat (packet_weight m) + of_nat (sending_len m)) m) (\<lambda>m.
                 let m = m\<lparr>schedule_job := True\<rparr>
                 in if handler_busy (fq_flow m flow)
                    then Inr (set_flow flow ((fq_flow m flow)\<lparr>handler_busy := False\<rparr>) m, [FlowDone flow, Busy flow])
                    else Inr (m, [FlowDone flow]))))"

text \<open>\<open>Inr None\<close> is the return value 0; \<open>mem\<close> is the memory of the flow objects.\<close>

definition PacketPassFairQueue_Init ::
    "(nat \<Rightarrow> flow) \<Rightarrow> nat \<Rightarrow> bool \<Rightarrow> bool \<Rightarrow> nat \<Rightarrow> fair_queue option run" where
  "PacketPassFairQueue_Init mem mtu has_cancel cancel weight =
     bindE (guardE (weight > 0 \<and> (cancel \<longrightarrow> has_cancel)) AssertFailed) (\<lambda>_.
       if of_nat mtu \<le> FAIRQUEUE_MAX_TIME \<and> of_nat weight \<le> FAIRQUEUE_MAX_TIME - of_nat mtu
       then Inr (Some \<lparr>fq_flow = mem, flows_list = [], queued_tree = [], sending_flow = None, sending_len = 0,
                       previous_flow = None, freeing = False, schedule_job = False, packet_weight = weight,
                       output_mtu = mtu, use_cancel = cancel\<rparr>)
       else Inr None)"

definition PacketPassFairQueue_Free :: "fair_queue \<Rightarrow> fair_queue run" where
  "PacketPassFairQueue_Free m =
     bindE (guardE (flows_list m = [] \<and> queued_tree m = [] \<and> previous_flow m = None \<and> sending_flow m = None)
             AssertFailed) (\<lambda>_. Inr (m\<lparr>schedule_job := False\<rparr>))"

definition PacketPassFairQueue_PrepareFree :: "fair_queue \<Rightarrow> fair_queue" where
  "PacketPassFairQueue_PrepareFree m = m\<lparr>freeing := True\<rparr>"

definition PacketPassFairQueueFlow_Init :: "nat \<Rightarrow> fair_queue \<Rightarrow> fair_queue run" where
  "PacketPassFairQueueFlow_Init flow m =
     bindE (guardE (\<not> freeing m) AssertFailed) (\<lambda>_.
       let m = set_flow flow ((fq_flow m flow)\<lparr>handler_busy := False, fl_time := 0\<rparr>) m;
           m = m\<lparr>flows_list := flows_list m @ [flow]\<rparr>
       in Inr (set_flow flow ((fq_flow m flow)\<lparr>is_queued := False\<rparr>) m))"

definition PacketPassFairQueueFlow_Free :: "nat \<Rightarrow> fair_queue \<Rightarrow> fair_queue run" where
  "PacketPassFairQueueFlow_Free flow m =
     bindE (guardE (freeing m \<or> sending_flow m \<noteq> Some flow) AssertFailed) (\<lambda>_.
       let m = (if sending_flow m = Some flow then m\<lparr>sending_flow := None\<rparr> else m);
           m = (if previous_flow m = Some flow then m\<lparr>previous_flow := None\<rparr> else m);
           m = (if is_queued (fq_flow m flow) then m\<lparr>queued_tree := remove1 flow (queued_tree m)\<rparr> else m)
       in Inr (m\<lparr>flows_list := remove1 flow (flows_list m)\<rparr>))"

definition PacketPassFairQueueFlow_IsBusy :: "nat \<Rightarrow> fair_queue \<Rightarrow> bool run" where
  "PacketPassFairQueueFlow_IsBusy flow m =
     bindE (guardE (\<not> freeing m) AssertFailed) (\<lambda>_. Inr (sending_flow m = Some flow))"

definition PacketPassFairQueueFlow_RequestCancel :: "nat \<Rightarrow> fair_queue \<Rightarrow> fq_result run" where
  "PacketPassFairQueueFlow_RequestCancel flow m =
     bindE (guardE (sending_flow m = Some flow \<and> use_cancel m \<and> \<not> freeing m \<and> \<not> schedule_job m) AssertFailed)
       (\<lambda>_. Inr (m, [OutCancel]))"

definition PacketPassFairQueueFlow_SetBusyHandler :: "nat \<Rightarrow> bool \<Rightarrow> fair_queue \<Rightarrow> fair_queue run" where
  "PacketPassFairQueueFlow_SetBusyHandler flow handler m =
     bindE (guardE (sending_flow m = Some flow \<and> \<not> freeing m) AssertFailed) (\<lambda>_.
       Inr (set_flow flow ((fq_flow m flow)\<lparr>handler_busy := handler\<rparr>) m))"

text \<open>
  What happens to a queue: the calls of the program on a flow (a new flow, a packet, the busy handler, a
  cancel, the end of a flow), the output that has sent its packet, the job that runs, and the start of the
  queue's end.
\<close>

datatype fq_event = EvInit nat | EvSend nat "byte list" | EvDone | EvJob | EvBusy nat bool | EvCancel nat
  | EvFree nat | EvPrepare

fun fq_dispatch :: "fq_event \<Rightarrow> fair_queue \<Rightarrow> fq_result run" where
  "fq_dispatch (EvInit f) m = bindE (PacketPassFairQueueFlow_Init f m) (\<lambda>m. Inr (m, []))"
| "fq_dispatch (EvSend f d) m = fq_input_handler_send f d m"
| "fq_dispatch EvDone m = fq_output_handler_done m"
| "fq_dispatch EvJob m = schedule_job_handler (m\<lparr>schedule_job := False\<rparr>)"
| "fq_dispatch (EvBusy f h) m = bindE (PacketPassFairQueueFlow_SetBusyHandler f h m) (\<lambda>m. Inr (m, []))"
| "fq_dispatch (EvCancel f) m = PacketPassFairQueueFlow_RequestCancel f m"
| "fq_dispatch (EvFree f) m = bindE (PacketPassFairQueueFlow_Free f m) (\<lambda>m. Inr (m, []))"
| "fq_dispatch EvPrepare m = Inr (PacketPassFairQueue_PrepareFree m, [])"

text \<open>
  The queue with what its clients see: \<open>sys_pend\<close> the packet each flow waits for, \<open>sys_out\<close> whether the
  output has a packet it is not done with.
\<close>

record fq_sys =
  sys_q :: fair_queue
  sys_pend :: "nat \<Rightarrow> byte list option"
  sys_out :: bool

fun fq_env :: "fq_event \<Rightarrow> fq_sys \<Rightarrow> fq_sys" where
  "fq_env (EvSend f d) s = s\<lparr>sys_pend := (sys_pend s)(f \<mapsto> d)\<rparr>"
| "fq_env EvDone s = s\<lparr>sys_out := False\<rparr>"
| "fq_env (EvFree f) s = s\<lparr>sys_pend := (sys_pend s)(f := None)\<rparr>"
| "fq_env _ s = s"

fun fq_track :: "fq_call \<Rightarrow> fq_sys \<Rightarrow> fq_sys" where
  "fq_track (OutSend d) s = s\<lparr>sys_out := True\<rparr>"
| "fq_track (FlowDone f) s = s\<lparr>sys_pend := (sys_pend s)(f := None)\<rparr>"
| "fq_track _ s = s"

definition fq_step :: "fq_event \<Rightarrow> fq_sys \<Rightarrow> (fq_sys \<times> fq_call list) run" where
  "fq_step e s = bindE (fq_dispatch e (sys_q s)) (\<lambda>(m, cs).
     Inr (fold fq_track cs ((fq_env e s)\<lparr>sys_q := m\<rparr>), cs))"

text \<open>
  What the clients keep to: a flow sends its next packet when the last one is done, no packet is longer than
  the MTU, the output is done only with a packet it has, and a flow is freed while it is being sent only
  after the queue has been prepared for its end.
\<close>

fun fq_legal :: "fq_event \<Rightarrow> fq_sys \<Rightarrow> bool" where
  "fq_legal (EvInit f) s \<longleftrightarrow> \<not> freeing (sys_q s) \<and> f \<notin> set (flows_list (sys_q s))"
| "fq_legal (EvSend f d) s \<longleftrightarrow> \<not> freeing (sys_q s) \<and> f \<in> set (flows_list (sys_q s)) \<and> sys_pend s f = None
     \<and> length d \<le> output_mtu (sys_q s)"
| "fq_legal EvDone s \<longleftrightarrow> \<not> freeing (sys_q s) \<and> sys_out s"
| "fq_legal EvJob s \<longleftrightarrow> \<not> freeing (sys_q s) \<and> schedule_job (sys_q s)"
| "fq_legal (EvBusy f h) s \<longleftrightarrow> \<not> freeing (sys_q s) \<and> PacketPassFairQueueFlow_IsBusy f (sys_q s) = Inr True"
| "fq_legal (EvCancel f) s \<longleftrightarrow> \<not> freeing (sys_q s) \<and> use_cancel (sys_q s)
     \<and> PacketPassFairQueueFlow_IsBusy f (sys_q s) = Inr True"
| "fq_legal (EvFree f) s \<longleftrightarrow> f \<in> set (flows_list (sys_q s))
     \<and> (freeing (sys_q s) \<or> PacketPassFairQueueFlow_IsBusy f (sys_q s) = Inr False)"
| "fq_legal EvPrepare s \<longleftrightarrow> True"

inductive fq_reachable :: "fq_sys \<Rightarrow> bool" where
  start: "PacketPassFairQueue_Init mem mtu has_cancel cancel weight = Inr (Some m) \<Longrightarrow> weight < 2 ^ 31 \<Longrightarrow> mtu < 2 ^ 31
    \<Longrightarrow> fq_reachable \<lparr>sys_q = m, sys_pend = \<lambda>_. None, sys_out = False\<rparr>"
| step: "fq_reachable s \<Longrightarrow> fq_legal e s \<Longrightarrow> fq_step e s = Inr (s', cs) \<Longrightarrow> fq_reachable s'"

text \<open>A history of events; one that the clients' rules forbid ends it.\<close>

fun fq_run :: "fq_event list \<Rightarrow> fq_sys \<Rightarrow> (fq_sys \<times> fq_call list) run" where
  "fq_run [] s = Inr (s, [])"
| "fq_run (e # es) s =
     bindE (guardE (fq_legal e s) AssertFailed) (\<lambda>_.
     bindE (fq_step e s) (\<lambda>(s, cs).
     bindE (fq_run es s) (\<lambda>(s, ds). Inr (s, cs @ ds))))"

definition fq_start :: "nat \<Rightarrow> nat \<Rightarrow> fq_sys" where
  "fq_start mtu weight =
     (case PacketPassFairQueue_Init (\<lambda>_. \<lparr>fl_time = 0, is_queued = False, fl_data = [], handler_busy = False\<rparr>)
        mtu True True weight of
        Inr (Some m) \<Rightarrow> \<lparr>sys_q = m, sys_pend = \<lambda>_. None, sys_out = False\<rparr>)"

section \<open>The order of the flows\<close>

lemma compare_trans: "compare_flows m f g \<Longrightarrow> compare_flows m g h \<Longrightarrow> compare_flows m f h"
  by (auto simp: compare_flows_def)

lemma compare_total: "f \<noteq> g \<Longrightarrow> \<not> compare_flows m f g \<Longrightarrow> compare_flows m g f"
  by (auto simp: compare_flows_def)

lemma compare_cong: "fl_time \<circ> fq_flow m' = fl_time \<circ> fq_flow m \<Longrightarrow> compare_flows m' = compare_flows m"
  by (auto simp: compare_flows_def fun_eq_iff)

lemma set_tree_insert [simp]: "set (tree_insert m f t) = insert f (set t)"
  by (induction t) auto

lemma distinct_tree_insert: "distinct t \<Longrightarrow> f \<notin> set t \<Longrightarrow> distinct (tree_insert m f t)"
  by (induction t) auto

lemma sorted_tree_insert:
  "sorted_wrt (compare_flows m) t \<Longrightarrow> f \<notin> set t \<Longrightarrow> sorted_wrt (compare_flows m) (tree_insert m f t)"
proof (induction t)
  case (Cons g t)
  then show ?case
    using compare_total[of f g m] by (auto intro: compare_trans)
qed simp

lemma sorted_cong:
  assumes "sorted_wrt R t" and "\<And>f g. f \<in> set t \<Longrightarrow> g \<in> set t \<Longrightarrow> R f g \<Longrightarrow> Q f g"
  shows "sorted_wrt Q t"
  using assms by (auto intro: sorted_wrt_mono_rel)

section \<open>The overflow of the virtual time\<close>

definition sub_time :: "u64 \<Rightarrow> nat \<Rightarrow> nat \<Rightarrow> u64 \<Rightarrow> u64" where
  "sub_time sub flow g t = (if sub > t \<and> g \<noteq> flow then 0 else t - sub)"

lemma subtract_loop_eq:
  assumes "distinct gs" and "\<forall>g \<in> set gs. sub > time m g \<and> g \<noteq> flow \<longrightarrow> \<not> is_queued (fq_flow m g)"
  shows "subtract_loop sub flow gs m = Inr (m\<lparr>fq_flow :=
    (\<lambda>g. if g \<in> set gs then (fq_flow m g)\<lparr>fl_time := sub_time sub flow g (time m g)\<rparr> else fq_flow m g)\<rparr>)"
  using assms
proof (induction gs arbitrary: m)
  case (Cons g gs)
  let ?m = "set_flow g ((fq_flow m g)\<lparr>fl_time := sub_time sub flow g (time m g)\<rparr>) m"
  have "subtract_loop sub flow (g # gs) m = subtract_loop sub flow gs ?m"
    using Cons.prems(2) by (simp add: sub_time_def)
  also have "\<dots> = Inr (?m\<lparr>fq_flow :=
      (\<lambda>h. if h \<in> set gs then (fq_flow ?m h)\<lparr>fl_time := sub_time sub flow h (time ?m h)\<rparr> else fq_flow ?m h)\<rparr>)"
    by (rule Cons.IH) (use Cons.prems in \<open>auto simp: set_flow_def\<close>)
  also have "(\<lambda>h. if h \<in> set gs then (fq_flow ?m h)\<lparr>fl_time := sub_time sub flow h (time ?m h)\<rparr> else fq_flow ?m h)
    = (\<lambda>h. if h \<in> set (g # gs) then (fq_flow m h)\<lparr>fl_time := sub_time sub flow h (time m h)\<rparr> else fq_flow m h)"
    using Cons.prems(1) by (auto simp: set_flow_def fun_eq_iff)
  finally show ?case by (simp add: set_flow_def)
qed simp

lemma unat_sub_time:
  assumes "g \<noteq> flow"
  shows "unat (sub_time sub flow g t) = unat t - unat sub"
proof (cases "sub > t")
  case True
  then show ?thesis using assms by (simp add: sub_time_def word_less_nat_alt)
next
  case False
  then have "sub \<le> t" by simp
  with False show ?thesis by (simp add: sub_time_def unat_sub)
qed

text \<open>
  The time of the flow that has just been served advances by \<open>amount\<close>; when it would overflow, all
  times go down by the same amount, those of idle flows at most to zero.
\<close>

definition times_advance :: "nat \<Rightarrow> nat \<Rightarrow> nat \<Rightarrow> fair_queue \<Rightarrow> fair_queue \<Rightarrow> bool" where
  "times_advance sub flow amount m m' \<longleftrightarrow>
     unat (time m' flow) + sub = unat (time m flow) + amount
     \<and> (\<forall>g \<in> set (flows_list m) - {flow}. unat (time m' g) = unat (time m g) - sub)
     \<and> (\<forall>q \<in> set (queued_tree m). sub \<le> unat (time m q))"

lemma wrap_back:
  fixes t sub amount :: u64
  assumes over: "2 ^ 64 \<le> unat t + unat amount" and ge: "t \<le> sub"
  shows "unat (t - sub + amount) + unat sub = unat t + unat amount"
proof -
  have "uint (t - sub + amount) = (uint t - uint sub + uint amount) mod 2 ^ 64"
    by (simp add: uint_word_ariths mod_simps)
  moreover have "uint sub < 2 ^ 64" "uint amount < 2 ^ 64"
    using uint_lt2p[of sub] uint_lt2p[of amount] by simp_all
  moreover have "uint t \<le> uint sub" using ge by (simp add: word_le_def)
  moreover have "int (2 ^ 64) \<le> int (unat t + unat amount)" using over by (simp only: of_nat_le_iff)
  then have "2 ^ 64 \<le> uint t + uint amount" by simp
  ultimately have "uint (t - sub + amount) = uint t - uint sub + uint amount"
    by (simp add: mod_pos_pos_trivial)
  then have "int (unat (t - sub + amount)) + int (unat sub) = int (unat t) + int (unat amount)"
    by simp
  then show ?thesis by linarith
qed

lemma increment_exact:
  assumes "distinct (flows_list m)" and "flow \<in> set (flows_list m)" and "set (queued_tree m) \<subseteq> set (flows_list m)"
    and q: "\<forall>f \<in> set (flows_list m). is_queued (fq_flow m f) \<longleftrightarrow> f \<in> set (queued_tree m)"
    and "sorted_wrt (compare_flows m) (queued_tree m)" and "flow \<notin> set (queued_tree m)"
    and le: "\<forall>q \<in> set (queued_tree m). time m flow \<le> time m q"
    and "sending_flow m = None"
  shows "\<exists>fl sub. increment_sent_flow flow amount m = Inr (m\<lparr>fq_flow := fl\<rparr>)
    \<and> (\<forall>g. fl g = (fq_flow m g)\<lparr>fl_time := fl_time (fl g)\<rparr>)
    \<and> times_advance sub flow (unat amount) m (m\<lparr>fq_flow := fl\<rparr>)"
proof -
  have top: "amount \<le> FAIRQUEUE_MAX_TIME"
    by (simp add: FAIRQUEUE_MAX_TIME_def)
  have guard: "amount \<le> FAIRQUEUE_MAX_TIME \<and> \<not> is_queued (fq_flow m flow) \<and> sending_flow m = None"
    using top assms(2,6,8) q by simp
  have max: "unat (FAIRQUEUE_MAX_TIME - time m flow) = 2 ^ 64 - 1 - unat (time m flow)"
    by (simp add: FAIRQUEUE_MAX_TIME_def unat_sub_if' unsigned_minus_1_eq_mask mask_eq_exp_minus_1)
      (use unsigned_less[of "time m flow", where ?'a = nat] in simp)
  show ?thesis
  proof (cases "amount > FAIRQUEUE_MAX_TIME - time m flow")
    case False
    then have small: "unat (time m flow) + unat amount < 2 ^ 64"
      using max unsigned_less[of "time m flow", where ?'a = nat] by (simp add: word_less_nat_alt not_less)
    then have add: "unat (time m flow + amount) = unat (time m flow) + unat amount"
      by (simp add: unat_word_ariths)
    define fl where "fl = (fq_flow m)(flow := (fq_flow m flow)\<lparr>fl_time := time m flow + amount\<rparr>)"
    have "increment_sent_flow flow amount m = Inr (m\<lparr>fq_flow := fl\<rparr>)"
      using guard False by (simp add: increment_sent_flow_def set_flow_def fl_def)
    moreover have "times_advance 0 flow (unat amount) m (m\<lparr>fq_flow := fl\<rparr>)"
      using add by (auto simp: times_advance_def fl_def)
    ultimately show ?thesis by (intro exI[of _ fl] exI[of _ 0]) (auto simp: fl_def)
  next
    case True
    then have "2 ^ 64 - 1 - unat (time m flow) < unat amount"
      by (simp only: word_less_nat_alt max)
    then have over: "2 ^ 64 \<le> unat (time m flow) + unat amount" by linarith
    define sub where "sub = (case tree_first (queued_tree m) of None \<Rightarrow> time m flow | Some f \<Rightarrow> time m f)"
    have ge: "time m flow \<le> sub" using le by (cases "queued_tree m") (auto simp: sub_def)
    have least: "sub \<le> time m q" if "q \<in> set (queued_tree m)" for q
      using that assms(5) by (cases "queued_tree m") (auto simp: sub_def compare_flows_def)
    have pick: "(case tree_first (queued_tree m) of
                   None \<Rightarrow> Inr (time m flow)
                 | Some f \<Rightarrow> bindE (guardE (is_queued (fq_flow m f)) AssertFailed) (\<lambda>_. Inr (time m f))) = Inr sub"
      using q assms(3) by (cases "queued_tree m") (auto simp: sub_def)
    define fl where "fl = (\<lambda>g. if g = flow then (fq_flow m flow)\<lparr>fl_time := time m flow - sub + amount\<rparr>
      else if g \<in> set (flows_list m) then (fq_flow m g)\<lparr>fl_time := sub_time sub flow g (time m g)\<rparr> else fq_flow m g)"
    have loop: "subtract_loop sub flow (flows_list m) m = Inr (m\<lparr>fq_flow :=
      (\<lambda>g. if g \<in> set (flows_list m) then (fq_flow m g)\<lparr>fl_time := sub_time sub flow g (time m g)\<rparr> else fq_flow m g)\<rparr>)"
      by (rule subtract_loop_eq) (use assms(1) q least in \<open>auto simp: not_le[symmetric]\<close>)
    have "increment_sent_flow flow amount m = Inr (m\<lparr>fq_flow := fl\<rparr>)"
      using guard True assms(2)
      by (simp add: increment_sent_flow_def pick loop set_flow_def fl_def sub_time_def fun_upd_def fun_eq_iff
          cong: if_cong)
    moreover have "unat (time m flow - sub + amount) + unat sub = unat (time m flow) + unat amount"
      by (rule wrap_back[OF over ge])
    ultimately show ?thesis
      using least by (intro exI[of _ fl] exI[of _ "unat sub"])
        (auto simp: times_advance_def fl_def unat_sub_time word_le_nat_alt)
  qed
qed

section \<open>The invariant\<close>

definition fq_tree :: "fair_queue \<Rightarrow> bool" where
  "fq_tree m \<longleftrightarrow> distinct (flows_list m) \<and> distinct (queued_tree m) \<and> set (queued_tree m) \<subseteq> set (flows_list m)
     \<and> (\<forall>f \<in> set (flows_list m). is_queued (fq_flow m f) \<longleftrightarrow> f \<in> set (queued_tree m))
     \<and> sorted_wrt (compare_flows m) (queued_tree m)
     \<and> (\<forall>q \<in> set (queued_tree m). length (fl_data (fq_flow m q)) \<le> output_mtu m)
     \<and> 0 < packet_weight m \<and> packet_weight m + output_mtu m < 2 ^ 64"

definition fq_sched :: "fair_queue \<Rightarrow> bool" where
  "fq_sched m \<longleftrightarrow>
     (\<forall>f. sending_flow m = Some f \<longrightarrow> f \<in> set (flows_list m) \<and> f \<notin> set (queued_tree m)
        \<and> (\<forall>q \<in> set (queued_tree m). time m f \<le> time m q) \<and> previous_flow m = None \<and> \<not> schedule_job m
        \<and> sending_len m = length (fl_data (fq_flow m f)) \<and> sending_len m \<le> output_mtu m)
     \<and> (\<forall>p. previous_flow m = Some p \<longrightarrow> p \<in> set (flows_list m) \<and> p \<notin> set (queued_tree m) \<and> schedule_job m)
     \<and> (\<not> freeing m \<longrightarrow> sending_flow m = None \<longrightarrow> queued_tree m \<noteq> [] \<longrightarrow> schedule_job m)"

definition fq_inv :: "fair_queue \<Rightarrow> bool" where
  "fq_inv m \<longleftrightarrow> fq_tree m \<and> fq_sched m"

text \<open>The packets the queue holds: those of the queued flows and the one that is being sent.\<close>

definition packets :: "fair_queue \<Rightarrow> nat \<Rightarrow> byte list option" where
  "packets m f = (if f \<in> set (queued_tree m) \<or> sending_flow m = Some f then Some (fl_data (fq_flow m f)) else None)"

definition same_config :: "fair_queue \<Rightarrow> fair_queue \<Rightarrow> bool" where
  "same_config m m' \<longleftrightarrow> packet_weight m' = packet_weight m \<and> output_mtu m' = output_mtu m \<and> freeing m' = freeing m"

text \<open>Either nothing new is sent, or the output was idle and one packet is given to it.\<close>

definition one_send :: "fair_queue \<Rightarrow> fair_queue \<Rightarrow> fq_call list \<Rightarrow> bool" where
  "one_send m m' cs \<longleftrightarrow>
     sending_flow m' = sending_flow m \<and> set cs \<subseteq> {OutCancel}
     \<or> (sending_flow m = None
        \<and> (\<exists>f d. sending_flow m' = Some f \<and> packets m' f = Some d \<and> cs = [OutSend d] \<and> length d \<le> output_mtu m))"

definition fq_good :: "fair_queue \<Rightarrow> (nat \<Rightarrow> byte list option) \<Rightarrow> fq_result run \<Rightarrow> bool" where
  "fq_good m pk r \<longleftrightarrow>
     (\<exists>m' cs. r = Inr (m', cs) \<and> fq_inv m' \<and> same_config m m' \<and> packets m' = pk \<and> one_send m m' cs)"

lemma schedule_step:
  assumes "fq_tree m" and "sending_flow m = None" and "previous_flow m = None" and "\<not> freeing m"
    and "\<not> schedule_job m" and "queued_tree m \<noteq> []"
  shows "fq_good m (packets m) (schedule m)"
proof -
  from assms(6) obtain f t where t: "queued_tree m = f # t" by (cases "queued_tree m") auto
  define x where "x = (fq_flow m f)\<lparr>is_queued := False\<rparr>"
  define m' where "m' = m\<lparr>queued_tree := t, fq_flow := (fq_flow m)(f := x), sending_flow := Some f,
    sending_len := length (fl_data x)\<rparr>"
  have "is_queued (fq_flow m f)" using assms(1) t by (simp add: fq_tree_def)
  then have "schedule m = Inr (m', [OutSend (fl_data x)])"
    using assms t by (simp add: schedule_def set_flow_def m'_def x_def)
  moreover have "fl_time \<circ> fq_flow m' = fl_time \<circ> fq_flow m" by (auto simp: m'_def x_def fun_eq_iff)
  then have cmp: "compare_flows m' = compare_flows m" by (rule compare_cong)
  have "time m f \<le> time m q" if "q \<in> set t" for q
    using assms(1) t that by (auto simp: fq_tree_def compare_flows_def)
  then have "fq_inv m'"
    using assms t unfolding fq_inv_def fq_tree_def fq_sched_def cmp
    by (auto simp: m'_def x_def)
  moreover have "packets m' = packets m" using t assms(2) by (auto simp: packets_def m'_def x_def fun_eq_iff)
  moreover have "length (fl_data x) \<le> output_mtu m" using assms(1) t by (simp add: fq_tree_def x_def)
  moreover have "packets m' f = Some (fl_data x)" "sending_flow m' = Some f" by (simp_all add: packets_def m'_def)
  ultimately show ?thesis
    using assms(2) unfolding fq_good_def by (auto simp: same_config_def one_send_def m'_def)
qed

lemma current_time_ok:
  assumes "fq_tree m"
  shows "\<exists>t. get_current_time m = Inr t \<and> (\<forall>f. sending_flow m = Some f \<longrightarrow> t = time m f)"
  using assms by (cases "queued_tree m") (auto simp: get_current_time_def fq_tree_def split: option.split)

lemma input_step:
  assumes inv: "fq_inv m" and "flow \<in> set (flows_list m)" and "\<not> is_queued (fq_flow m flow)"
    and "sending_flow m \<noteq> Some flow" and "length data \<le> output_mtu m" and "\<not> freeing m"
  shows "fq_good m ((packets m)(flow \<mapsto> data)) (fq_input_handler_send flow data m)"
proof -
  from inv have tr: "fq_tree m" and sc: "fq_sched m" by (simp_all add: fq_inv_def)
  then have out: "flow \<notin> set (queued_tree m)" using assms(2,3) by (auto simp: fq_tree_def)
  from current_time_ok[OF tr] obtain t where t: "get_current_time m = Inr t"
    "\<And>f. sending_flow m = Some f \<Longrightarrow> t = time m f" by blast
  define x where "x = (fq_flow m flow)\<lparr>fl_time := (if previous_flow m = Some flow then time m flow
      else max (time m flow) t), fl_data := data, is_queued := True\<rparr>"
  define prev where "prev = (if previous_flow m = Some flow then None else previous_flow m)"
  define mt where "mt = m\<lparr>previous_flow := prev, fq_flow := (fq_flow m)(flow := x\<lparr>is_queued := False\<rparr>)\<rparr>"
  define m' where "m' = m\<lparr>previous_flow := prev, queued_tree := tree_insert mt flow (queued_tree m),
    fq_flow := (fq_flow m)(flow := x)\<rparr>"
  have step: "fq_input_handler_send flow data m
      = (if sending_flow m' = None \<and> \<not> schedule_job m' then schedule m' else Inr (m', []))"
  proof (cases "previous_flow m = Some flow")
    case True
    have "(fq_flow m flow)\<lparr>fl_data := data\<rparr> = x\<lparr>is_queued := False\<rparr>"
      using True assms(3) by (simp add: x_def)
    with True assms(3,4,6) out show ?thesis
      by (simp add: fq_input_handler_send_def Let_def set_flow_def m'_def mt_def prev_def)
        (simp add: x_def)
  next
    case False
    have "(fq_flow m flow)\<lparr>fl_time := max (time m flow) t, fl_data := data\<rparr> = x\<lparr>is_queued := False\<rparr>"
      using False assms(3) by (simp add: x_def)
    moreover have "m\<lparr>previous_flow := prev\<rparr> = m" using False by (simp add: prev_def)
    ultimately show ?thesis
      using False assms(3,4,6) out t(1)
      by (simp add: fq_input_handler_send_def Let_def set_flow_def m'_def mt_def)
        (simp add: x_def)
  qed
  have "fl_time \<circ> fq_flow m' = fl_time \<circ> fq_flow mt" by (auto simp: m'_def mt_def fun_eq_iff)
  then have cmp: "compare_flows m' = compare_flows mt" by (rule compare_cong)
  have "sorted_wrt (compare_flows mt) (queued_tree m)"
    by (rule sorted_cong[of "compare_flows m"])
      (use tr out in \<open>auto simp: fq_tree_def compare_flows_def mt_def\<close>)
  then have "sorted_wrt (compare_flows m') (queued_tree m')"
    using out unfolding cmp by (simp add: sorted_tree_insert m'_def)
  then have tr': "fq_tree m'"
    using tr out assms(2,5) unfolding fq_tree_def
    by (auto simp: m'_def mt_def x_def distinct_tree_insert)
  have pk: "packets m' = (packets m)(flow \<mapsto> data)"
    using assms(4) by (auto simp: packets_def m'_def x_def fun_eq_iff)
  show ?thesis
  proof (cases "sending_flow m = None \<and> \<not> schedule_job m")
    case True
    then have "previous_flow m = None" using sc by (cases "previous_flow m") (auto simp: fq_sched_def)
    then have "fq_good m' (packets m') (schedule m')"
      using True tr' assms(6) set_tree_insert[of mt flow "queued_tree m"]
      by (intro schedule_step) (auto simp: m'_def mt_def prev_def simp del: set_tree_insert)
    moreover have "fq_good m pk r" if "fq_good m' pk r" for pk r
      using that by (simp add: fq_good_def same_config_def one_send_def m'_def)
    moreover have "fq_input_handler_send flow data m = schedule m'"
      using step True by (simp add: m'_def)
    ultimately show ?thesis by (simp add: pk)
  next
    case False
    have "max (time m flow) t \<ge> time m f" if "sending_flow m = Some f" for f using t(2)[OF that] by simp
    then have "fq_sched m'"
      using sc False assms(2,4,6) out unfolding fq_sched_def
      by (auto simp: m'_def mt_def prev_def x_def split: if_splits)
    moreover have "fq_input_handler_send flow data m = Inr (m', [])"
      using step False by (simp add: m'_def)
    ultimately show ?thesis
      using tr' pk by (simp add: fq_good_def fq_inv_def same_config_def one_send_def) (simp add: m'_def)
  qed
qed

lemma job_step:
  assumes inv: "fq_inv m" and "schedule_job m" and "\<not> freeing m"
  shows "fq_good m (packets m) (schedule_job_handler (m\<lparr>schedule_job := False\<rparr>))"
proof -
  from inv have tr: "fq_tree m" and sc: "fq_sched m" by (simp_all add: fq_inv_def)
  define m' where "m' = m\<lparr>schedule_job := False, previous_flow := None\<rparr>"
  have cmp: "compare_flows m' = compare_flows m" by (rule compare_cong) (simp add: m'_def)
  have tr': "fq_tree m'" using tr unfolding fq_tree_def cmp by (simp add: m'_def)
  have idle: "sending_flow m = None" using sc assms(2) by (cases "sending_flow m") (auto simp: fq_sched_def)
  have pk: "packets m' = packets m" by (simp add: packets_def m'_def fun_eq_iff)
  have h: "schedule_job_handler (m\<lparr>schedule_job := False\<rparr>)
      = (if queued_tree m' \<noteq> [] then schedule m' else Inr (m', []))"
    using idle assms(3) by (simp add: schedule_job_handler_def m'_def)
  have "fq_good m' (packets m') (if queued_tree m' \<noteq> [] then schedule m' else Inr (m', []))"
  proof (cases "queued_tree m' = []")
    case False
    then show ?thesis
      using schedule_step[OF tr'] idle assms(3) by (simp add: m'_def)
  next
    case True
    then have "fq_sched m'" using idle by (simp add: fq_sched_def m'_def)
    with True tr' show ?thesis by (simp add: fq_good_def fq_inv_def same_config_def one_send_def)
  qed
  then show ?thesis
    unfolding h pk by (auto simp: fq_good_def same_config_def one_send_def m'_def)
qed

lemma advance_order:
  assumes "times_advance sub flow a m m'" and "f \<in> set (queued_tree m)" and "g \<in> set (queued_tree m)"
    and "set (queued_tree m) \<subseteq> set (flows_list m)" and "flow \<notin> set (queued_tree m)"
    and "compare_flows m f g"
  shows "compare_flows m' f g"
proof -
  have "f \<in> set (flows_list m) - {flow}" "g \<in> set (flows_list m) - {flow}" using assms by auto
  then have "unat (time m' f) = unat (time m f) - sub" "unat (time m' g) = unat (time m g) - sub"
    "sub \<le> unat (time m f)" "sub \<le> unat (time m g)"
    using assms(1-3) unfolding times_advance_def by blast+
  with assms(6) show ?thesis
    unfolding compare_flows_def word_less_nat_alt word_unat_eq_iff by auto
qed

lemma done_step:
  assumes inv: "fq_inv m" and send: "sending_flow m = Some flow" and "\<not> freeing m"
  shows "\<exists>m' sub. fq_output_handler_done m
           = Inr (m', if handler_busy (fq_flow m flow) then [FlowDone flow, Busy flow] else [FlowDone flow])
    \<and> fq_inv m' \<and> same_config m m' \<and> packets m' = (packets m)(flow := None) \<and> sending_flow m' = None
    \<and> times_advance sub flow (packet_weight m + sending_len m) m m'
    \<and> flows_list m' = flows_list m \<and> queued_tree m' = queued_tree m"
proof -
  from inv have tr: "fq_tree m" and sc: "fq_sched m" by (simp_all add: fq_inv_def)
  from sc send have s: "flow \<in> set (flows_list m)" "flow \<notin> set (queued_tree m)" "previous_flow m = None"
    "\<not> schedule_job m" "sending_len m \<le> output_mtu m" "\<forall>q \<in> set (queued_tree m). time m flow \<le> time m q"
    by (auto simp: fq_sched_def)
  define m1 where "m1 = m\<lparr>sending_flow := None, previous_flow := Some flow\<rparr>"
  define a :: u64 where "a = of_nat (packet_weight m) + of_nat (sending_len m)"
  have "packet_weight m + sending_len m < 2 ^ 64" using tr s(5) by (simp add: fq_tree_def)
  then have a: "unat a = packet_weight m + sending_len m"
    unfolding a_def of_nat_add[symmetric] by (simp add: unsigned_of_nat take_bit_nat_eq_self del: of_nat_add)
  have cmp: "compare_flows m1 = compare_flows m" by (rule compare_cong) (simp add: m1_def)
  have "\<exists>fl sub. increment_sent_flow flow a m1 = Inr (m1\<lparr>fq_flow := fl\<rparr>)
    \<and> (\<forall>g. fl g = (fq_flow m1 g)\<lparr>fl_time := fl_time (fl g)\<rparr>)
    \<and> times_advance sub flow (unat a) m1 (m1\<lparr>fq_flow := fl\<rparr>)"
    by (rule increment_exact) (use tr s in \<open>simp_all add: fq_tree_def cmp\<close>, simp_all add: m1_def)
  then obtain fl sub where inc: "increment_sent_flow flow a m1 = Inr (m1\<lparr>fq_flow := fl\<rparr>)"
    and fl: "\<And>g. fl g = (fq_flow m1 g)\<lparr>fl_time := fl_time (fl g)\<rparr>"
    and adv: "times_advance sub flow (unat a) m1 (m1\<lparr>fq_flow := fl\<rparr>)" by blast
  have same: "fl_data (fl g) = fl_data (fq_flow m g)" "is_queued (fl g) = is_queued (fq_flow m g)"
      "handler_busy (fl g) = handler_busy (fq_flow m g)" for g
    by (subst fl, simp add: m1_def)+
  define fl' where "fl' = (if handler_busy (fl flow) then fl(flow := (fl flow)\<lparr>handler_busy := False\<rparr>) else fl)"
  have same': "fl_data (fl' g) = fl_data (fq_flow m g)" "is_queued (fl' g) = is_queued (fq_flow m g)"
    "fl_time (fl' g) = fl_time (fl g)" for g by (auto simp: fl'_def same)
  define m' where "m' = m1\<lparr>schedule_job := True, fq_flow := fl'\<rparr>"
  have call: "fq_output_handler_done m
    = Inr (m', if handler_busy (fq_flow m flow) then [FlowDone flow, Busy flow] else [FlowDone flow])"
    using tr s send assms(3) inc
    by (simp add: fq_output_handler_done_def fq_tree_def Let_def m1_def[symmetric] a_def[symmetric])
      (auto simp: m1_def a_def m'_def fl'_def same set_flow_def)
  have adv': "times_advance sub flow (packet_weight m + sending_len m) m m'"
    using adv unfolding a by (simp add: times_advance_def m'_def m1_def same')
  have sorted: "sorted_wrt (compare_flows m') (queued_tree m)"
    by (rule sorted_cong[of "compare_flows m"], use tr in \<open>simp add: fq_tree_def\<close>)
      (use tr s(2) adv' in \<open>auto simp: fq_tree_def intro: advance_order\<close>)
  then have "fq_tree m'"
    using tr unfolding fq_tree_def by (simp add: m'_def m1_def same')
  moreover have "fq_sched m'" using s by (simp add: fq_sched_def m'_def m1_def)
  moreover have "packets m' = (packets m)(flow := None)"
    using s(2) send by (auto simp: packets_def m'_def m1_def same' fun_eq_iff)
  moreover have "same_config m m'" "sending_flow m' = None" "flows_list m' = flows_list m" "queued_tree m' = queued_tree m"
    by (simp_all add: same_config_def m'_def m1_def)
  ultimately show ?thesis using call adv' unfolding fq_inv_def by blast
qed

lemma flow_init_step:
  assumes inv: "fq_inv m" and "flow \<notin> set (flows_list m)" and "\<not> freeing m"
  shows "\<exists>m'. PacketPassFairQueueFlow_Init flow m = Inr m' \<and> fq_good m (packets m) (Inr (m', []))
    \<and> time m' flow = 0"
proof -
  from inv have tr: "fq_tree m" and sc: "fq_sched m" by (simp_all add: fq_inv_def)
  define x where "x = (fq_flow m flow)\<lparr>handler_busy := False, fl_time := 0, is_queued := False\<rparr>"
  define m' where "m' = m\<lparr>flows_list := flows_list m @ [flow], fq_flow := (fq_flow m)(flow := x)\<rparr>"
  have out: "flow \<notin> set (queued_tree m)" "sending_flow m \<noteq> Some flow" "previous_flow m \<noteq> Some flow"
    using tr sc assms(2) by (auto simp: fq_tree_def fq_sched_def)
  have "PacketPassFairQueueFlow_Init flow m = Inr m'"
    using assms(3) by (simp add: PacketPassFairQueueFlow_Init_def set_flow_def m'_def x_def)
  moreover have "sorted_wrt (compare_flows m') (queued_tree m)"
    by (rule sorted_cong[of "compare_flows m"])
      (use tr out in \<open>auto simp: fq_tree_def compare_flows_def m'_def\<close>)
  then have "fq_tree m'" using tr assms(2) out unfolding fq_tree_def by (auto simp: m'_def x_def)
  moreover have "fq_sched m'" using sc out unfolding fq_sched_def by (auto simp: m'_def x_def)
  moreover have "packets m' = packets m" using out by (auto simp: packets_def m'_def fun_eq_iff)
  ultimately show ?thesis
    by (simp add: fq_good_def fq_inv_def same_config_def one_send_def) (simp add: m'_def x_def)
qed

lemma flow_free_step:
  assumes inv: "fq_inv m" and "flow \<in> set (flows_list m)" and "freeing m \<or> sending_flow m \<noteq> Some flow"
  shows "\<exists>m'. PacketPassFairQueueFlow_Free flow m = Inr m' \<and> fq_inv m' \<and> same_config m m'
    \<and> packets m' = (packets m)(flow := None)
    \<and> sending_flow m' = (if sending_flow m = Some flow then None else sending_flow m)"
proof -
  from inv have tr: "fq_tree m" and sc: "fq_sched m" by (simp_all add: fq_inv_def)
  define m' where "m' = m\<lparr>sending_flow := (if sending_flow m = Some flow then None else sending_flow m),
    previous_flow := (if previous_flow m = Some flow then None else previous_flow m),
    queued_tree := remove1 flow (queued_tree m), flows_list := remove1 flow (flows_list m)\<rparr>"
  have d: "distinct (queued_tree m)" "distinct (flows_list m)" using tr by (simp_all add: fq_tree_def)
  have idem: "remove1 flow (queued_tree m) = queued_tree m" if "\<not> is_queued (fq_flow m flow)"
    using tr that assms(2) by (intro remove1_idem) (auto simp: fq_tree_def)
  have "PacketPassFairQueueFlow_Free flow m = Inr m'"
    using assms(3) idem by (auto simp: PacketPassFairQueueFlow_Free_def Let_def m'_def)
  moreover have cmp: "compare_flows m' = compare_flows m" by (rule compare_cong) (simp add: m'_def)
  have "sorted_wrt (compare_flows m) (remove1 flow (queued_tree m))"
    using tr d by (simp add: distinct_remove1_removeAll removeAll_filter_not_eq sorted_wrt_filter fq_tree_def)
  then have "fq_tree m'" using tr d unfolding fq_tree_def cmp by (auto simp: m'_def)
  moreover have "queued_tree m \<noteq> []" if "remove1 flow (queued_tree m) \<noteq> []" using that by auto
  then have "fq_sched m'" using sc d assms(3) unfolding fq_sched_def by (auto simp: m'_def split: if_splits)
  moreover have "packets m' = (packets m)(flow := None)"
    using d by (auto simp: packets_def m'_def fun_eq_iff)
  ultimately show ?thesis
    by (simp add: fq_inv_def same_config_def) (simp add: m'_def)
qed

lemma prepare_free_step:
  assumes "fq_inv m"
  shows "fq_inv (PacketPassFairQueue_PrepareFree m)" and "packets (PacketPassFairQueue_PrepareFree m) = packets m"
proof -
  let ?m = "PacketPassFairQueue_PrepareFree m"
  have cmp: "compare_flows ?m = compare_flows m" by (rule compare_cong) (simp add: PacketPassFairQueue_PrepareFree_def)
  show "fq_inv ?m" using assms unfolding fq_inv_def fq_tree_def fq_sched_def cmp
    by (auto simp: PacketPassFairQueue_PrepareFree_def)
  show "packets ?m = packets m" by (simp add: packets_def PacketPassFairQueue_PrepareFree_def fun_eq_iff)
qed

lemma busy_handler_step:
  assumes inv: "fq_inv m" and "sending_flow m = Some flow" and "\<not> freeing m"
  shows "\<exists>m'. PacketPassFairQueueFlow_SetBusyHandler flow h m = Inr m' \<and> fq_good m (packets m) (Inr (m', []))"
proof -
  define m' where "m' = set_flow flow ((fq_flow m flow)\<lparr>handler_busy := h\<rparr>) m"
  have cmp: "compare_flows m' = compare_flows m"
    by (rule compare_cong) (auto simp: m'_def set_flow_def fun_eq_iff)
  have "fq_inv m'" using inv unfolding fq_inv_def fq_tree_def fq_sched_def cmp by (auto simp: m'_def set_flow_def)
  moreover have "packets m' = packets m" by (auto simp: packets_def m'_def set_flow_def fun_eq_iff)
  moreover have "PacketPassFairQueueFlow_SetBusyHandler flow h m = Inr m'"
    using assms(2,3) by (simp add: PacketPassFairQueueFlow_SetBusyHandler_def m'_def)
  ultimately show ?thesis
    by (simp add: fq_good_def same_config_def one_send_def) (simp add: m'_def set_flow_def)
qed

lemma queue_init_inv:
  assumes "0 < weight" and "weight < 2 ^ 31" and "mtu < 2 ^ 31" and "cancel \<longrightarrow> has_cancel"
  shows "\<exists>m. PacketPassFairQueue_Init mem mtu has_cancel cancel weight = Inr (Some m) \<and> fq_inv m
    \<and> packets m = (\<lambda>_. None) \<and> sending_flow m = None \<and> \<not> freeing m \<and> packet_weight m = weight \<and> output_mtu m = mtu"
proof -
  have max: "unat FAIRQUEUE_MAX_TIME = 2 ^ 64 - 1"
    by (simp add: FAIRQUEUE_MAX_TIME_def unsigned_minus_1_eq_mask mask_eq_exp_minus_1)
  have u: "unat (of_nat mtu :: u64) = mtu" "unat (of_nat weight :: u64) = weight"
    using assms(2,3) by (simp_all add: unsigned_of_nat take_bit_nat_eq_self)
  have "(of_nat mtu :: u64) \<le> FAIRQUEUE_MAX_TIME" by (simp add: FAIRQUEUE_MAX_TIME_def)
  moreover from this have "(of_nat weight :: u64) \<le> FAIRQUEUE_MAX_TIME - of_nat mtu"
    using assms(2,3) by (simp add: word_le_nat_alt unat_sub max u)
  ultimately show ?thesis
    using assms by (simp add: PacketPassFairQueue_Init_def fq_inv_def fq_tree_def fq_sched_def packets_def fun_eq_iff)
qed

section \<open>The queue with its clients\<close>

definition fq_sys_inv :: "fq_sys \<Rightarrow> bool" where
  "fq_sys_inv s \<longleftrightarrow> fq_inv (sys_q s) \<and> sys_pend s = packets (sys_q s)
     \<and> (\<not> freeing (sys_q s) \<longrightarrow> sys_out s = (sending_flow (sys_q s) \<noteq> None))"

text \<open>A step that does not fail: the invariant again, and every packet sent is that of the flow in service.\<close>

definition step_safe :: "fq_event \<Rightarrow> fq_sys \<Rightarrow> bool" where
  "step_safe e s \<longleftrightarrow> (\<exists>s' cs. fq_step e s = Inr (s', cs) \<and> fq_sys_inv s'
     \<and> (\<forall>d. OutSend d \<in> set cs \<longrightarrow> \<not> sys_out s \<and> length d \<le> output_mtu (sys_q s)
          \<and> (\<exists>f. sending_flow (sys_q s') = Some f \<and> sys_pend s' f = Some d
               \<and> (\<forall>q \<in> set (queued_tree (sys_q s')). time (sys_q s') f \<le> time (sys_q s') q))))"

lemma track_cancel [simp]: "set cs \<subseteq> {OutCancel} \<Longrightarrow> fold fq_track cs s = s"
  by (induction cs) auto

lemma good_step:
  assumes inv: "fq_sys_inv s" and good: "fq_good (sys_q s) pk (fq_dispatch e (sys_q s))"
    and env: "sys_pend (fq_env e s) = pk" "sys_out (fq_env e s) = sys_out s" "\<not> freeing (sys_q s)"
  shows "step_safe e s"
proof -
  from good obtain m' cs where d: "fq_dispatch e (sys_q s) = Inr (m', cs)" and m': "fq_inv m'"
    "same_config (sys_q s) m'" "packets m' = pk" and one: "one_send (sys_q s) m' cs"
    by (auto simp: fq_good_def)
  let ?s = "(fq_env e s)\<lparr>sys_q := m'\<rparr>"
  have st: "fq_step e s = Inr (fold fq_track cs ?s, cs)" by (simp add: fq_step_def d)
  have out: "sys_out s = (sending_flow (sys_q s) \<noteq> None)" using inv env(3) by (simp add: fq_sys_inv_def)
  from one show ?thesis unfolding one_send_def
  proof (elim disjE conjE exE)
    assume h: "sending_flow m' = sending_flow (sys_q s)" "set cs \<subseteq> {OutCancel}"
    then have "OutSend d \<notin> set cs" for d by auto
    moreover have "fq_sys_inv ?s" using m' h(1) env out by (simp add: fq_sys_inv_def same_config_def)
    ultimately show ?thesis using st h(2) by (simp add: step_safe_def)
  next
    fix f d assume h: "sending_flow (sys_q s) = None" "sending_flow m' = Some f" "packets m' f = Some d"
      "cs = [OutSend d]" "length d \<le> output_mtu (sys_q s)"
    have "\<forall>q \<in> set (queued_tree m'). time m' f \<le> time m' q"
      using m'(1) h(2) by (simp add: fq_inv_def fq_sched_def)
    with st m' h env out show ?thesis by (simp add: step_safe_def fq_sys_inv_def same_config_def)
  qed
qed

lemma IsBusy_iff: "\<not> freeing m \<Longrightarrow> PacketPassFairQueueFlow_IsBusy f m = Inr (sending_flow m = Some f)"
  by (simp add: PacketPassFairQueueFlow_IsBusy_def)

lemma legal_step_safe:
  assumes inv: "fq_sys_inv s" and legal: "fq_legal e s"
  shows "step_safe e s"
proof -
  let ?m = "sys_q s"
  from inv have i: "fq_inv ?m" and p: "sys_pend s = packets ?m"
    and o: "\<not> freeing ?m \<Longrightarrow> sys_out s = (sending_flow ?m \<noteq> None)" by (auto simp: fq_sys_inv_def)
  show ?thesis
  proof (cases e)
    case (EvInit f)
    with legal flow_init_step[OF i, of f] p show ?thesis by (intro good_step[OF inv, of "packets ?m"]) auto
  next
    case (EvSend f d)
    with legal p have f: "f \<in> set (flows_list ?m)" "f \<notin> set (queued_tree ?m)" "sending_flow ?m \<noteq> Some f"
      by (auto simp: packets_def split: if_splits)
    then have "\<not> is_queued (fq_flow ?m f)" using i by (simp add: fq_inv_def fq_tree_def)
    with legal EvSend input_step[OF i f(1), of d] f p show ?thesis
      by (intro good_step[OF inv, of "(packets ?m)(f \<mapsto> d)"]) auto
  next
    case EvDone
    with legal o obtain f where f: "sending_flow ?m = Some f" "\<not> freeing ?m" by auto
    from done_step[OF i f] EvDone p show ?thesis
      by (auto simp: step_safe_def fq_step_def fq_sys_inv_def same_config_def f)
  next
    case EvJob
    with legal job_step[OF i] p show ?thesis by (intro good_step[OF inv, of "packets ?m"]) auto
  next
    case (EvBusy f h)
    with legal busy_handler_step[OF i, of f h] p show ?thesis
      by (intro good_step[OF inv, of "packets ?m"]) (auto simp: IsBusy_iff)
  next
    case (EvCancel f)
    with legal i p show ?thesis
      by (intro good_step[OF inv, of "packets ?m"])
        (auto simp: IsBusy_iff PacketPassFairQueueFlow_RequestCancel_def fq_good_def same_config_def one_send_def
          fq_inv_def fq_sched_def)
  next
    case (EvFree f)
    with legal have l: "f \<in> set (flows_list ?m)" "freeing ?m \<or> sending_flow ?m \<noteq> Some f"
      by (auto simp: IsBusy_iff PacketPassFairQueueFlow_IsBusy_def)
    from flow_free_step[OF i l] EvFree p o l(2) show ?thesis
      by (auto simp: step_safe_def fq_step_def fq_sys_inv_def same_config_def)
  next
    case EvPrepare
    with prepare_free_step[OF i] p show ?thesis
      by (auto simp: step_safe_def fq_step_def fq_sys_inv_def PacketPassFairQueue_PrepareFree_def)
  qed
qed

lemma fq_reachable_inv: "fq_reachable s \<Longrightarrow> fq_sys_inv s"
proof (induction rule: fq_reachable.induct)
  case (start mem mtu has_cancel cancel weight m)
  then have "0 < weight" "cancel \<longrightarrow> has_cancel"
    by (auto simp: PacketPassFairQueue_Init_def guardE_def split: if_splits)
  with start queue_init_inv[of weight mtu cancel has_cancel mem] show ?case by (auto simp: fq_sys_inv_def)
next
  case (step s e s' cs)
  with legal_step_safe[of s e] show ?case by (auto simp: step_safe_def)
qed

lemma run_reachable: "fq_run es s = Inr (s', cs) \<Longrightarrow> fq_reachable s \<Longrightarrow> fq_reachable s'"
proof (induction es arbitrary: s cs)
  case (Cons e es)
  then show ?case by (auto simp: bindE_Inr_iff guardE_def split: if_splits prod.splits intro: fq_reachable.step)
qed simp

lemma start_reachable:
  assumes "0 < weight" and "weight < 2 ^ 31" and "mtu < 2 ^ 31"
  shows "fq_reachable (fq_start mtu weight)"
proof -
  obtain m where m: "PacketPassFairQueue_Init (\<lambda>_. \<lparr>fl_time = 0, is_queued = False, fl_data = [], handler_busy = False\<rparr>)
      mtu True True weight = Inr (Some m)"
    using queue_init_inv[OF assms, of True True] by blast
  then show ?thesis using fq_reachable.start[OF m assms(2,3)] by (simp add: fq_start_def)
qed

text \<open>For concrete histories: what a run computes, with the state reachable.\<close>

lemma run_start:
  assumes "case fq_run es (fq_start mtu weight) of Inl _ \<Rightarrow> False | Inr (s, cs) \<Rightarrow> P s cs"
    and "0 < weight" and "weight < 2 ^ 31" and "mtu < 2 ^ 31"
  obtains s cs where "fq_run es (fq_start mtu weight) = Inr (s, cs)" "fq_reachable s" "P s cs"
  using assms(1) run_reachable[OF _ start_reachable[OF assms(2-4)], of es] that
  by (auto split: sum.splits prod.splits)

section \<open>Properties\<close>

text \<open>
  C20. Fair queue: whatever the flows, the output and the job do in any order, no assertion of the queue
  fails; it holds exactly the packets whose senders have not been told that they are done; and when it
  gives a packet to the output, the output is idle, the packet is that of a waiting flow, unchanged and
  within the MTU, and no queued flow has a smaller virtual time.
\<close>

theorem fairqueue_safe:
  assumes "fq_reachable s" and "fq_legal e s"
  shows "\<exists>s' cs. fq_step e s = Inr (s', cs) \<and> sys_pend s' = packets (sys_q s')
    \<and> (\<forall>d. OutSend d \<in> set cs \<longrightarrow> \<not> sys_out s \<and> length d \<le> output_mtu (sys_q s)
         \<and> (\<exists>f. sending_flow (sys_q s') = Some f \<and> sys_pend s' f = Some d
              \<and> (\<forall>q \<in> set (queued_tree (sys_q s')). time (sys_q s') f \<le> time (sys_q s') q)))"
  using legal_step_safe[OF fq_reachable_inv[OF assms(1)] assms(2)] by (auto simp: step_safe_def fq_sys_inv_def)

theorem fairqueue_safe_witness:
  "\<exists>s s' cs. fq_run [EvInit 7, EvInit 8, EvSend 7 [1, 2], EvSend 8 [3]] (fq_start 10 1) = Inr (s, [OutSend [1, 2]])
    \<and> fq_step EvDone s = Inr (s', cs) \<and> sys_pend s' = packets (sys_q s')"
proof -
  let ?P = "\<lambda>s cs. cs = [OutSend [1, 2]] \<and> fq_legal EvDone s"
  have c: "case fq_run [EvInit 7, EvInit 8, EvSend 7 [1, 2], EvSend 8 [3]] (fq_start 10 1) of
      Inl _ \<Rightarrow> False | Inr (s, cs) \<Rightarrow> ?P s cs"
    by code_simp
  obtain s cs where run: "fq_run [EvInit 7, EvInit 8, EvSend 7 [1, 2], EvSend 8 [3]] (fq_start 10 1) = Inr (s, cs)"
    and r: "fq_reachable s" and l: "?P s cs"
    by (rule run_start[OF c]) simp_all
  with run fairqueue_safe[OF r, of EvDone] show ?thesis by blast
qed

text \<open>
  C21. Work conservation of the fair queue: as long as a flow waits for its packet, the output is busy, or the
  job is pending and running it gives the output a packet. No packet is forgotten.
\<close>

theorem fairqueue_work_conserving:
  assumes "fq_reachable s" and "\<not> freeing (sys_q s)" and "sys_pend s f = Some d"
  shows "sys_out s \<or> (fq_legal EvJob s \<and> (\<exists>s' cs. fq_step EvJob s = Inr (s', cs) \<and> sys_out s'))"
proof (cases "sys_out s")
  case False
  have inv: "fq_inv (sys_q s)" "sending_flow (sys_q s) = None" "sys_pend s = packets (sys_q s)"
    using fq_reachable_inv[OF assms(1)] assms(2) False by (auto simp: fq_sys_inv_def)
  with assms(3) have q: "queued_tree (sys_q s) \<noteq> []" by (auto simp: packets_def split: if_splits)
  with inv assms(2) have job: "fq_legal EvJob s" by (simp add: fq_inv_def fq_sched_def)
  obtain s' cs where st: "fq_step EvJob s = Inr (s', cs)"
    using legal_step_safe[OF fq_reachable_inv[OF assms(1)] job] by (auto simp: step_safe_def)
  have "sys_out s'"
    using st inv q assms(2)
    by (auto simp: fq_step_def schedule_job_handler_def schedule_def Let_def guardE_def bindE_Inr_iff
        split: if_splits option.splits)
  with st job show ?thesis by blast
qed simp

theorem fairqueue_work_conserving_witness:
  "\<exists>s s' cs. fq_run [EvInit 7, EvInit 8, EvSend 7 [1, 2], EvSend 8 [3], EvDone] (fq_start 10 1)
      = Inr (s, [OutSend [1, 2], FlowDone 7]) \<and> fq_step EvJob s = Inr (s', cs) \<and> sys_out s'"
proof -
  let ?P = "\<lambda>s cs. cs = [OutSend [1, 2], FlowDone 7] \<and> \<not> freeing (sys_q s) \<and> sys_pend s 8 = Some [3] \<and> \<not> sys_out s"
  have c: "case fq_run [EvInit 7, EvInit 8, EvSend 7 [1, 2], EvSend 8 [3], EvDone] (fq_start 10 1) of
      Inl _ \<Rightarrow> False | Inr (s, cs) \<Rightarrow> ?P s cs"
    by code_simp
  obtain s cs where run: "fq_run [EvInit 7, EvInit 8, EvSend 7 [1, 2], EvSend 8 [3], EvDone] (fq_start 10 1) = Inr (s, cs)"
    and r: "fq_reachable s" and l: "?P s cs"
    by (rule run_start[OF c]) simp_all
  with run fairqueue_work_conserving[OF r, of 8 "[3]"] show ?thesis by blast
qed



text \<open>
  The current time of a queue with no packet and no previous flow is 0, while the flows keep the times they
  have: on an idle queue the time of a flow is not raised, so that flow \<open>g\<close> is served as long as it has sent
  less than flow \<open>f\<close> has in the past, however long ago that was.
\<close>

lemma fairqueue_idle_debt:
  assumes "fq_reachable s" and "\<not> freeing (sys_q s)" and "sys_pend s = (\<lambda>_. None)" and "\<not> schedule_job (sys_q s)"
    and "f \<in> set (flows_list (sys_q s))" and "g \<in> set (flows_list (sys_q s))" and "f \<noteq> g"
    and "length d \<le> output_mtu (sys_q s)" and "length e \<le> output_mtu (sys_q s)" and "time (sys_q s) g \<le> time (sys_q s) f"
  shows "\<exists>s'. fq_run [EvSend g d, EvSend f e] s = Inr (s', [OutSend d])
    \<and> time (sys_q s') f = time (sys_q s) f \<and> time (sys_q s') g = time (sys_q s) g"
proof -
  have inv: "fq_inv (sys_q s)" "packets (sys_q s) = (\<lambda>_. None)"
    using fq_reachable_inv[OF assms(1)] assms(3) by (simp_all add: fq_sys_inv_def)
  then have q: "queued_tree (sys_q s) = []" "sending_flow (sys_q s) = None"
    by (auto simp: packets_def fun_eq_iff split: if_splits)
      (metis list.set_intros(1) neq_Nil_conv, metis option.exhaust)
  have p: "previous_flow (sys_q s) = None"
    using inv(1) assms(4) by (cases "previous_flow (sys_q s)") (auto simp: fq_inv_def fq_sched_def)
  have "\<not> is_queued (fq_flow (sys_q s) f)" "\<not> is_queued (fq_flow (sys_q s) g)"
    using inv(1) q assms(5,6) by (auto simp: fq_inv_def fq_tree_def)
  with q p assms(2-) show ?thesis
    by (simp add: fq_step_def fq_input_handler_send_def get_current_time_def schedule_def set_flow_def Let_def max_def)
qed

end
