(* ===== verification/UdpGwClient.thy ===== *)
theory UdpGwClient
  imports BAddr LinkedList1 FairQueue
begin

text \<open>
  The client of the UDP gateway (\<^verbatim>\<open>tun2socks-iOS/udpgw_client/UdpGwClient.c\<close>), which carries the UDP packets of
  the device to the gateway: a table of connections, one per pair of addresses.

  \<^item> A connection is its address; \<open>con\<close> is the memory of the connections, \<open>by_conaddr\<close> and \<open>by_conid\<close> are the
    two AVL trees over it, \<open>connections_list\<close> the list from the least to the most recently used one, and
    \<open>send_queue\<close> the fair queue, whose flows have the addresses of their connections.
  \<^item> The outcome of \<open>malloc\<close>, of \<open>PacketProtoFlow_Init\<close> and of \<open>BufferWriter_StartPacket\<close> are arguments: the
    new address, whether the flow could be set up, and whether its buffer has room.
  \<^item> A handler returns the client with the calls it makes: a packet put into the buffer of a connection, a
    packet for the user, the keepalive packet, an error for the user.
  \<^item> The searches of the trees are partial functions, so a handler returns \<open>None\<close> where it would not end.
\<close>

record connection =
  con_conaddr :: conaddr
  first_flags :: byte
  first_data :: "byte list"
  con_conid :: u16
  first_job :: bool

record udpgw_client =
  udp_mtu :: nat
  max_connections :: nat
  udpgw_mtu :: nat
  by_conaddr :: bavl
  by_conid :: bavl
  connections_list :: llist
  con :: "nat \<Rightarrow> connection"
  num_connections :: nat
  next_conid :: nat
  send_queue :: fair_queue
  keepalive_qflow :: nat
  keepalive_sending :: bool
  have_server :: bool

datatype ug_call = Submit nat "byte list" | Received BAddr BAddr "byte list" | Keepalive "byte list" | ServerError

type_synonym ug_result = "(udpgw_client \<times> ug_call list) run option"

definition UDPGW_CLIENT_FLAG_KEEPALIVE :: byte where
  "UDPGW_CLIENT_FLAG_KEEPALIVE = 1"

definition UDPGW_CLIENT_FLAG_REBIND :: byte where
  "UDPGW_CLIENT_FLAG_REBIND = 2"

definition UDPGW_CLIENT_FLAG_DNS :: byte where
  "UDPGW_CLIENT_FLAG_DNS = 4"

definition UDPGW_CLIENT_FLAG_IPV6 :: byte where
  "UDPGW_CLIENT_FLAG_IPV6 = 8"

text \<open>The sum of the sizes, or -1 where it is more than an \<open>int\<close> holds.\<close>

definition udpgw_compute_mtu :: "nat \<Rightarrow> int" where
  "udpgw_compute_mtu dgram_mtu =
     (let s = 3 + (max 6 18 + dgram_mtu) in if s > 2 ^ 31 - 1 then -1 else int s)"

abbreviation conaddr_of :: "udpgw_client \<Rightarrow> nat \<Rightarrow> conaddr" where
  "conaddr_of g c \<equiv> con_conaddr (con g c)"

abbreviation conid_of :: "udpgw_client \<Rightarrow> nat \<Rightarrow> u16" where
  "conid_of g c \<equiv> con_conid (con g c)"

definition guardO :: "bool \<Rightarrow> fault \<Rightarrow> unit run option" where
  "guardO b e = Some (guardE b e)"

definition set_con :: "nat \<Rightarrow> connection \<Rightarrow> udpgw_client \<Rightarrow> udpgw_client" where
  "set_con c x g = g\<lparr>con := (con g)(c := x)\<rparr>"

definition find_connection_by_conaddr :: "conaddr \<Rightarrow> udpgw_client \<Rightarrow> ptr run option" where
  "find_connection_by_conaddr a g = BAVL_LookupExact conaddr_comparator (conaddr_of g) a (by_conaddr g)"

definition find_connection_by_conid :: "u16 \<Rightarrow> udpgw_client \<Rightarrow> ptr run option" where
  "find_connection_by_conid i g = BAVL_LookupExact uint16_comparator (conid_of g) i (by_conid g)"

partial_function (option) unused_conid_loop :: "udpgw_client \<Rightarrow> (u16 \<times> udpgw_client) run option" where
  "unused_conid_loop g =
     (case find_connection_by_conid (of_nat (next_conid g)) g of
        None \<Rightarrow> None
      | Some r \<Rightarrow> (case r of
          Inl e \<Rightarrow> Some (Inl e)
        | Inr p \<Rightarrow>
            if p = None then Some (Inr (of_nat (next_conid g), g))
            else unused_conid_loop (g\<lparr>next_conid :=
                   (if next_conid g = max_connections g - 1 then 0 else next_conid g + 1)\<rparr>)))"

definition find_unused_conid :: "udpgw_client \<Rightarrow> (u16 \<times> udpgw_client) run option" where
  "find_unused_conid g =
     bindO (guardO (num_connections g < max_connections g) AssertFailed) (\<lambda>_. unused_conid_loop g)"

text \<open>\<open>struct udpgw_header\<close> with the address that follows it.\<close>

definition addr_bytes :: "BAddr \<Rightarrow> byte list" where
  "addr_bytes a =
     (case a of
        BAddrNone \<Rightarrow> []
      | BAddrIPv4 ip port \<Rightarrow> store32_le ip @ htol16 port
      | BAddrIPv6 ip port \<Rightarrow> ip @ htol16 port)"

definition connection_send :: "nat \<Rightarrow> byte \<Rightarrow> byte list \<Rightarrow> bool \<Rightarrow> udpgw_client \<Rightarrow> (udpgw_client \<times> ug_call list) run" where
  "connection_send c flags data room g =
     bindE (guardE (length data \<le> udp_mtu g) AssertFailed) (\<lambda>_.
       if \<not> room then Inr (g, [])
       else
         let remote = remote_addr (conaddr_of g c);
             flags = (if BAddr_type remote = 2 then flags OR UDPGW_CLIENT_FLAG_IPV6 else flags);
             out = [flags] @ htol16 (conid_of g c) @ addr_bytes remote @ data
         in bindE (guardE (length out \<le> udpgw_mtu g) OutOfBounds) (\<lambda>_. Inr (g, [Submit c out])))"

definition connection_first_job_handler :: "nat \<Rightarrow> bool \<Rightarrow> udpgw_client \<Rightarrow> (udpgw_client \<times> ug_call list) run" where
  "connection_first_job_handler c room g =
     connection_send c (UDPGW_CLIENT_FLAG_REBIND OR first_flags (con g c)) (first_data (con g c)) room g"

text \<open>The last part of \<open>connection_init\<close>: the connection enters the trees and the list.\<close>

definition enter_table :: "nat \<Rightarrow> udpgw_client \<Rightarrow> udpgw_client run option" where
  "enter_table c g =
     bindO (BAVL_Insert conaddr_comparator (conaddr_of g) c (by_conaddr g)) (\<lambda>((ok, ref), t).
     bindO (guardO ok AssertFailed) (\<lambda>_.
       let g = g\<lparr>by_conaddr := t\<rparr>
       in bindO (BAVL_Insert uint16_comparator (conid_of g) c (by_conid g)) (\<lambda>((ok, ref), t).
          bindO (guardO ok AssertFailed) (\<lambda>_.
            let g = g\<lparr>by_conid := t\<rparr>;
                g = g\<lparr>connections_list := LinkedList1_Append c (connections_list g)\<rparr>
            in Some (Inr (g\<lparr>num_connections := num_connections g + 1\<rparr>))))))"

definition connection_init ::
    "conaddr \<Rightarrow> byte \<Rightarrow> byte list \<Rightarrow> nat option \<Rightarrow> bool \<Rightarrow> udpgw_client \<Rightarrow> udpgw_client run option" where
  "connection_init a flags data malloc flow_ok g =
     bindO (guardO (num_connections g < max_connections g) AssertFailed) (\<lambda>_.
     bindO (find_connection_by_conaddr a g) (\<lambda>p.
     bindO (guardO (p = None \<and> length data \<le> udp_mtu g) AssertFailed) (\<lambda>_.
       case malloc of
         None \<Rightarrow> Some (Inr g)
       | Some c \<Rightarrow>
           let g = set_con c ((con g c)\<lparr>con_conaddr := a, first_flags := flags, first_data := data\<rparr>) g
           in bindO (find_unused_conid g) (\<lambda>(conid, g).
                let g = set_con c ((con g c)\<lparr>con_conid := conid, first_job := True\<rparr>) g
                in bindO (Some (PacketPassFairQueueFlow_Init c (send_queue g))) (\<lambda>q.
                     let g = g\<lparr>send_queue := q\<rparr>
                     in if \<not> flow_ok
                        then bindO (Some (PacketPassFairQueueFlow_Free c (send_queue g))) (\<lambda>q.
                               Some (Inr (set_con c ((con g c)\<lparr>first_job := False\<rparr>) (g\<lparr>send_queue := q\<rparr>))))
                        else enter_table c g)))))"

definition connection_free :: "nat \<Rightarrow> udpgw_client \<Rightarrow> udpgw_client run option" where
  "connection_free c g =
     bindO (guardO (freeing (send_queue g) \<or> sending_flow (send_queue g) \<noteq> Some c) AssertFailed) (\<lambda>_.
       let g = g\<lparr>num_connections := num_connections g - 1\<rparr>;
           g = g\<lparr>connections_list := LinkedList1_Remove c (connections_list g)\<rparr>
       in bindO (BAVL_Remove c (by_conid g)) (\<lambda>t.
            let g = g\<lparr>by_conid := t\<rparr>
            in bindO (BAVL_Remove c (by_conaddr g)) (\<lambda>t.
                 let g = g\<lparr>by_conaddr := t\<rparr>
                 in bindO (Some (PacketPassFairQueueFlow_Free c (send_queue g))) (\<lambda>q.
                      let g = g\<lparr>send_queue := q\<rparr>
                      in Some (Inr (set_con c ((con g c)\<lparr>first_job := False\<rparr>) g))))))"

definition reuse_connection :: "conaddr \<Rightarrow> udpgw_client \<Rightarrow> (nat \<times> udpgw_client) run option" where
  "reuse_connection a g =
     bindO (find_connection_by_conaddr a g) (\<lambda>p.
     bindO (guardO (p = None \<and> num_connections g > 0) AssertFailed) (\<lambda>_.
       case LinkedList1_GetFirst (connections_list g) of
         None \<Rightarrow> Some (Inl OutOfBounds)
       | Some c \<Rightarrow>
           bindO (BAVL_Remove c (by_conaddr g)) (\<lambda>t.
             let g = g\<lparr>by_conaddr := t\<rparr>;
                 g = set_con c ((con g c)\<lparr>con_conaddr := a\<rparr>) g
             in bindO (BAVL_Insert conaddr_comparator (conaddr_of g) c (by_conaddr g)) (\<lambda>((ok, ref), t).
                bindO (guardO ok AssertFailed) (\<lambda>_. Some (Inr (c, g\<lparr>by_conaddr := t\<rparr>)))))))"

definition touch_connection :: "nat \<Rightarrow> udpgw_client \<Rightarrow> udpgw_client" where
  "touch_connection c g =
     g\<lparr>connections_list := LinkedList1_Append c (LinkedList1_Remove c (connections_list g))\<rparr>"

definition UdpGwClient_SubmitPacket ::
    "BAddr \<Rightarrow> BAddr \<Rightarrow> bool \<Rightarrow> byte list \<Rightarrow> nat option \<Rightarrow> bool \<Rightarrow> bool \<Rightarrow> udpgw_client \<Rightarrow> ug_result" where
  "UdpGwClient_SubmitPacket laddr raddr is_dns data malloc flow_ok room g =
     bindO (guardO (BAddr_type laddr \<in> {1, 2} \<and> BAddr_type raddr \<in> {1, 2} \<and> length data \<le> udp_mtu g) AssertFailed) (\<lambda>_.
       let a = \<lparr>local_addr = laddr, remote_addr = raddr\<rparr>
       in bindO (find_connection_by_conaddr a g) (\<lambda>c.
            let flags = (if is_dns then UDPGW_CLIENT_FLAG_DNS else 0)
            in bindO (if c = None \<and> num_connections g = max_connections g
                      then bindO (reuse_connection a g) (\<lambda>(c, g).
                             Some (Inr (Some c, flags OR UDPGW_CLIENT_FLAG_REBIND, g)))
                      else Some (Inr (c, flags, g))) (\<lambda>(c, flags, g).
                 case c of
                   None \<Rightarrow> bindO (connection_init a flags data malloc flow_ok g) (\<lambda>g. Some (Inr (g, [])))
                 | Some c \<Rightarrow> Some (connection_send c flags data room (touch_connection c g)))))"

text \<open>\<open>struct udpgw_addr_ipv4\<close> and \<open>struct udpgw_addr_ipv6\<close> at the front of the data, and the rest.\<close>

definition parse_addr :: "byte \<Rightarrow> byte list \<Rightarrow> (BAddr \<times> byte list) option" where
  "parse_addr flags data =
     (if flags AND UDPGW_CLIENT_FLAG_IPV6 \<noteq> 0
      then if length data < 18 then None
           else Some (BAddrIPv6 (take 16 data) (ltoh16 (take 2 (drop 16 data))), drop 18 data)
      else if length data < 6 then None
           else Some (BAddrIPv4 (load32_le (take 4 data)) (ltoh16 (take 2 (drop 4 data))), drop 6 data))"

definition recv_interface_handler_send :: "byte list \<Rightarrow> udpgw_client \<Rightarrow> ug_result" where
  "recv_interface_handler_send data g =
     bindO (guardO (have_server g \<and> length data \<le> udpgw_mtu g) AssertFailed) (\<lambda>_.
       if length data < 3 then Some (Inr (g, []))
       else
         let flags = byte_at data 0; conid = ltoh16 (take 2 (drop 1 data))
         in case parse_addr flags (drop 3 data) of
              None \<Rightarrow> Some (Inr (g, []))
            | Some (raddr, data) \<Rightarrow>
                if length data > udp_mtu g then Some (Inr (g, []))
                else bindO (find_connection_by_conid conid g) (\<lambda>c.
                       case c of
                         None \<Rightarrow> Some (Inr (g, []))
                       | Some c \<Rightarrow>
                           if BAddr_CompareOrder (remote_addr (conaddr_of g c)) raddr \<noteq> 0 then Some (Inr (g, []))
                           else let g = touch_connection c g
                                in Some (Inr (g, [Received (local_addr (conaddr_of g c)) (remote_addr (conaddr_of g c)) data]))))"

definition send_monitor_handler :: "udpgw_client \<Rightarrow> udpgw_client \<times> ug_call list" where
  "send_monitor_handler g =
     (if keepalive_sending g then (g, [])
      else (g\<lparr>keepalive_sending := True\<rparr>, [Keepalive (htol16 3 @ [UDPGW_CLIENT_FLAG_KEEPALIVE, 0, 0])]))"

definition keepalive_if_handler_done :: "udpgw_client \<Rightarrow> udpgw_client run" where
  "keepalive_if_handler_done g =
     bindE (guardE (keepalive_sending g) AssertFailed) (\<lambda>_. Inr (g\<lparr>keepalive_sending := False\<rparr>))"

definition decoder_handler_error :: "udpgw_client \<Rightarrow> (udpgw_client \<times> ug_call list) run" where
  "decoder_handler_error g = bindE (guardE (have_server g) AssertFailed) (\<lambda>_. Inr (g, [ServerError]))"

text \<open>\<open>Inr None\<close> is the return value 0; \<open>mem\<close> is the memory before, \<open>ka\<close> the address of the keepalive flow.\<close>

definition UdpGwClient_Init :: "udpgw_client \<Rightarrow> (nat \<Rightarrow> flow) \<Rightarrow> nat \<Rightarrow> nat \<Rightarrow> nat \<Rightarrow> nat \<Rightarrow> udpgw_client option run" where
  "UdpGwClient_Init mem fmem ka mtu max_con send_buffer_size =
     bindE (guardE (0 \<le> udpgw_compute_mtu mtu \<and> udpgw_compute_mtu mtu \<le> 65535 \<and> max_con > 0 \<and> send_buffer_size > 0)
             AssertFailed) (\<lambda>_.
       let g = mem\<lparr>udp_mtu := mtu, max_connections := (if max_con > 65536 then 65536 else max_con),
                   udpgw_mtu := nat (udpgw_compute_mtu mtu), by_conaddr := BAVL_Init (by_conaddr mem),
                   by_conid := BAVL_Init (by_conid mem),
                   connections_list := LinkedList1_Init (connections_list mem),
                   num_connections := 0, next_conid := 0\<rparr>
       in bindE (PacketPassFairQueue_Init fmem (udpgw_mtu g + 2) False False 1) (\<lambda>q.
            case q of
              None \<Rightarrow> Inr None
            | Some q \<Rightarrow>
                bindE (PacketPassFairQueueFlow_Init ka q) (\<lambda>q.
                  Inr (Some (g\<lparr>send_queue := q, keepalive_qflow := ka, keepalive_sending := False, have_server := False\<rparr>)))))"

partial_function (option) free_connections :: "udpgw_client \<Rightarrow> udpgw_client run option" where
  "free_connections g =
     (case LinkedList1_GetFirst (connections_list g) of
        None \<Rightarrow> Some (Inr g)
      | Some c \<Rightarrow> (case connection_free c g of
          None \<Rightarrow> None
        | Some r \<Rightarrow> (case r of Inl e \<Rightarrow> Some (Inl e) | Inr g \<Rightarrow> free_connections g)))"

definition UdpGwClient_Free :: "udpgw_client \<Rightarrow> fair_queue run option" where
  "UdpGwClient_Free g =
     bindO (free_connections (g\<lparr>send_queue := PacketPassFairQueue_PrepareFree (send_queue g)\<rparr>)) (\<lambda>g.
     bindO (Some (PacketPassFairQueueFlow_Free (keepalive_qflow g) (send_queue g))) (\<lambda>q.
     Some (PacketPassFairQueue_Free q)))"

definition UdpGwClient_ConnectServer :: "bool \<Rightarrow> udpgw_client \<Rightarrow> (bool \<times> udpgw_client) run" where
  "UdpGwClient_ConnectServer decoder_ok g =
     bindE (guardE (\<not> have_server g) AssertFailed) (\<lambda>_.
       if decoder_ok then Inr (True, g\<lparr>have_server := True\<rparr>) else Inr (False, g))"

definition UdpGwClient_DisconnectServer :: "udpgw_client \<Rightarrow> udpgw_client run" where
  "UdpGwClient_DisconnectServer g =
     bindE (guardE (have_server g) AssertFailed) (\<lambda>_. Inr (g\<lparr>have_server := False\<rparr>))"

section \<open>The trees as indexes\<close>

text \<open>A tree that holds a set of nodes: what the table uses of it.\<close>

context comparator
begin

definition holds :: "(nat \<Rightarrow> 'v) \<Rightarrow> bavl \<Rightarrow> nat set \<Rightarrow> bool" where
  "holds val m S \<longleftrightarrow> (\<exists>xs. rep val m xs \<and> set xs = S)"

lemma holds_init: "holds val (BAVL_Init m) {}"
  using rep_init[of val m] by (auto simp: holds_def)

lemma holds_cong: "(\<And>x. x \<in> S \<Longrightarrow> val' x = val x) \<Longrightarrow> holds val' m S = holds val m S"
  unfolding holds_def by (metis rep_cong)

lemma holds_unique:
  assumes "holds val m S" and "x \<in> S" and "y \<in> S" and "cmp (val x) (val y) = 0"
  shows "x = y"
proof -
  obtain xs where xs: "sorted_wrt (before val) xs" "set xs = S" using assms(1) by (auto simp: holds_def rep_def)
  then have "x \<noteq> y \<Longrightarrow> cmp (val x) (val y) = -1 \<or> cmp (val y) (val x) = -1"
    using assms(2,3) by (induction xs arbitrary: S) (auto simp: before_def)
  then show ?thesis using assms(4) cmp_swap[of "val x" "val y"] by auto
qed

lemma holds_lookup_none:
  assumes "holds val m S" and "\<And>x. x \<in> S \<Longrightarrow> cmp v (val x) \<noteq> 0"
  shows "BAVL_LookupExact cmp val v m = Some (Inr None)"
proof -
  obtain xs where xs: "rep val m xs" "set xs = S" using assms(1) by (auto simp: holds_def)
  then have "List.find (\<lambda>x. cmp v (val x) = 0) xs = None" using assms(2) by (auto simp: find_None_iff)
  with lookup_exact[OF xs(1), of v] show ?thesis by simp
qed

lemma holds_lookup_some:
  assumes "holds val m S" and "c \<in> S" and "cmp v (val c) = 0"
  shows "BAVL_LookupExact cmp val v m = Some (Inr (Some c))"
proof -
  obtain xs where xs: "rep val m xs" "set xs = S" using assms(1) by (auto simp: holds_def)
  then obtain x where x: "List.find (\<lambda>x. cmp v (val x) = 0) xs = Some x"
    using assms(2,3) by (cases "List.find (\<lambda>x. cmp v (val x) = 0) xs") (auto simp: find_None_iff)
  then have "x \<in> S" "cmp v (val x) = 0" using xs(2) by (auto simp: find_Some_iff)
  moreover have "cmp (val x) (val c) = cmp v (val c)" using cmp_equal[OF calculation(2)] by simp
  ultimately have "x = c" using holds_unique[OF assms(1) _ assms(2)] assms(3) by simp
  with x lookup_exact[OF xs(1), of v] show ?thesis by simp
qed

lemma holds_insert:
  assumes "holds val m S" and "c \<notin> S" and "\<And>x. x \<in> S \<Longrightarrow> cmp (val c) (val x) \<noteq> 0"
  shows "\<exists>ref m'. BAVL_Insert cmp val c m = Some (Inr ((True, ref), m')) \<and> holds val m' (insert c S)"
proof -
  obtain xs where xs: "rep val m xs" "set xs = S" using assms(1) by (auto simp: holds_def)
  from insert_rep[OF xs(1), of c] xs(2) assms(2,3) obtain m' ys zs ref where
    "BAVL_Insert cmp val c m = Some (Inr ((True, ref), m'))" "xs = ys @ zs" "rep val m' (ys @ c # zs)" by blast
  then show ?thesis unfolding holds_def using xs(2) by (intro exI[of _ ref] exI[of _ m']) force
qed

lemma holds_remove:
  assumes "holds val m S" and "c \<in> S"
  shows "\<exists>m'. BAVL_Remove c m = Some (Inr m') \<and> holds val m' (S - {c})"
proof -
  obtain xs where xs: "rep val m xs" "set xs = S" using assms(1) by (auto simp: holds_def)
  then have "distinct xs" using sorted_distinct by (auto simp: rep_def)
  with remove_rep[OF xs(1), of c] xs(2) assms(2) show ?thesis unfolding holds_def by (metis set_remove1_eq)
qed

end

section \<open>The table of connections\<close>

text \<open>
  The table with the connections \<open>xs\<close>, the least recently used first: the list and both trees hold them,
  their addresses and identifiers are well formed, and there are at most \<open>max_connections\<close>.
\<close>

definition table_conn :: "udpgw_client \<Rightarrow> nat \<Rightarrow> bool" where
  "table_conn g c \<longleftrightarrow> unat (conid_of g c) < max_connections g \<and> wf_conaddr (conaddr_of g c)
     \<and> (first_job (con g c) \<longrightarrow> length (first_data (con g c)) \<le> udp_mtu g)"

definition table_inv :: "udpgw_client \<Rightarrow> nat list \<Rightarrow> bool" where
  "table_inv g xs \<longleftrightarrow> ll_rep (connections_list g) xs \<and> conaddr.holds (conaddr_of g) (by_conaddr g) (set xs)
     \<and> conid.holds (conid_of g) (by_conid g) (set xs) \<and> num_connections g = length xs
     \<and> length xs \<le> max_connections g \<and> max_connections g \<le> 65536 \<and> next_conid g < max_connections g
     \<and> udpgw_mtu g = 21 + udp_mtu g \<and> (\<forall>c \<in> set xs. table_conn g c)"

text \<open>The queue: the flows are the keepalive flow and those of the connections.\<close>

definition queue_inv :: "udpgw_client \<Rightarrow> nat list \<Rightarrow> bool" where
  "queue_inv g xs \<longleftrightarrow> fq_inv (send_queue g) \<and> set (flows_list (send_queue g)) = insert (keepalive_qflow g) (set xs)
     \<and> keepalive_qflow g \<notin> set xs \<and> output_mtu (send_queue g) = udpgw_mtu g + 2"

lemma table_distinct: "table_inv g xs \<Longrightarrow> distinct xs"
  by (auto simp: table_inv_def intro: ll.distinct_law)

lemma uint16_eq_0 [simp]: "uint16_comparator a b = 0 \<longleftrightarrow> a = b"
  by (simp add: uint16_comparator_def)

lemma find_conid_some:
  "table_inv g xs \<Longrightarrow> c \<in> set xs \<Longrightarrow> find_connection_by_conid (conid_of g c) g = Some (Inr (Some c))"
  by (auto simp: find_connection_by_conid_def table_inv_def intro: conid.holds_lookup_some)

lemma find_conid_none:
  "conid.holds (conid_of g) (by_conid g) S \<Longrightarrow> i \<notin> conid_of g ` S \<Longrightarrow> find_connection_by_conid i g = Some (Inr None)"
  by (auto simp: find_connection_by_conid_def intro!: conid.holds_lookup_none)

lemma find_conid:
  assumes "table_inv g xs"
  obtains c where "c \<in> set xs" "conid_of g c = i" "find_connection_by_conid i g = Some (Inr (Some c))"
  | "i \<notin> conid_of g ` set xs" "find_connection_by_conid i g = Some (Inr None)"
  using find_conid_some[OF assms] find_conid_none[of g "set xs" i] assms unfolding table_inv_def by blast

lemma find_conaddr:
  assumes "table_inv g xs" and "wf_conaddr a"
  obtains c where "c \<in> set xs" "conaddr_of g c = a" "find_connection_by_conaddr a g = Some (Inr (Some c))"
  | "a \<notin> conaddr_of g ` set xs" "find_connection_by_conaddr a g = Some (Inr None)"
proof (cases "a \<in> conaddr_of g ` set xs")
  case True
  then obtain c where "c \<in> set xs" "conaddr_of g c = a" by auto
  then show ?thesis using that(1)[of c] assms(1) conaddr.holds_lookup_some[of "conaddr_of g" "by_conaddr g" "set xs" c a]
    by (simp add: find_connection_by_conaddr_def table_inv_def)
next
  case False
  moreover have "conaddr_comparator a (conaddr_of g x) \<noteq> 0" if "x \<in> set xs" for x
    using that False assms conaddr_eq_0[of a "conaddr_of g x"] by (auto simp: table_inv_def table_conn_def)
  ultimately show ?thesis
    using that(2) assms(1) conaddr.holds_lookup_none[of "conaddr_of g" "by_conaddr g" "set xs" a]
    by (simp add: find_connection_by_conaddr_def table_inv_def)
qed

lemma table_ids_distinct: "table_inv g xs \<Longrightarrow> c \<in> set xs \<Longrightarrow> c' \<in> set xs \<Longrightarrow> conid_of g c = conid_of g c' \<Longrightarrow> c = c'"
  using conid.holds_unique[of "conid_of g" "by_conid g" "set xs" c c'] by (simp add: table_inv_def)

lemma table_addrs_distinct:
  "table_inv g xs \<Longrightarrow> c \<in> set xs \<Longrightarrow> c' \<in> set xs \<Longrightarrow> conaddr_of g c = conaddr_of g c' \<Longrightarrow> c = c'"
  using conaddr.holds_unique[of "conaddr_of g" "by_conaddr g" "set xs" c c'] by (simp add: table_inv_def)

text \<open>The search for an identifier ends: among \<open>max_connections\<close> identifiers one is free.\<close>

lemma guardO_bind [simp]: "bindO (guardO b e) f = (if b then f () else Some (Inl e))"
  by (simp add: guardO_def)

lemma unused_conid_loop_ends:
  assumes "conid.holds (conid_of g) (by_conid g) S" and "next_conid g < max_connections g" and "max_connections g \<le> 65536"
    and "(next_conid g + k) mod max_connections g \<notin> (unat \<circ> conid_of g) ` S"
  shows "\<exists>i < max_connections g. unused_conid_loop g = Some (Inr (of_nat i, g\<lparr>next_conid := i\<rparr>))
    \<and> i \<notin> (unat \<circ> conid_of g) ` S"
  using assms
proof (induction k arbitrary: g)
  case 0
  let ?i = "next_conid g"
  from 0 have i: "?i \<notin> (unat \<circ> conid_of g) ` S" and u: "unat (of_nat ?i :: u16) = ?i"
    by (simp_all add: unsigned_of_nat take_bit_nat_eq_self)
  then have "(of_nat ?i :: u16) \<notin> conid_of g ` S" by force
  with 0 i show ?case
    by (intro exI[of _ ?i]) (subst unused_conid_loop.simps, simp add: find_conid_none)
next
  case (Suc k)
  let ?i = "next_conid g" and ?n = "max_connections g"
  have u: "unat (of_nat ?i :: u16) = ?i" using Suc.prems(2,3) by (simp add: unsigned_of_nat take_bit_nat_eq_self)
  show ?case
  proof (cases "?i \<in> (unat \<circ> conid_of g) ` S")
    case False
    with u have "(of_nat ?i :: u16) \<notin> conid_of g ` S" by force
    with False Suc.prems show ?thesis
      by (intro exI[of _ ?i]) (subst unused_conid_loop.simps, simp add: find_conid_none)
  next
    case True
    then obtain c where c: "c \<in> S" "unat (conid_of g c) = ?i" by auto
    then have "conid_of g c = of_nat ?i" by (metis of_nat_unat ucast_id)
    then have found: "find_connection_by_conid (of_nat ?i) g = Some (Inr (Some c))"
      using Suc.prems(1) c(1) conid.holds_lookup_some[of "conid_of g" "by_conid g" S c "of_nat ?i"]
      by (simp add: find_connection_by_conid_def)
    let ?j = "if ?i = ?n - 1 then 0 else ?i + 1"
    have "(?j + k) mod ?n = (?i + Suc k) mod ?n" using Suc.prems(2) by auto
    with Suc.prems have "\<exists>i < ?n. unused_conid_loop (g\<lparr>next_conid := ?j\<rparr>) = Some (Inr (of_nat i, g\<lparr>next_conid := i\<rparr>))
      \<and> i \<notin> (unat \<circ> conid_of g) ` S"
      using Suc.IH[of "g\<lparr>next_conid := ?j\<rparr>"] by auto
    with found show ?thesis by (subst unused_conid_loop.simps) simp
  qed
qed

lemma find_unused_conid_ends:
  assumes "table_inv g xs" and "length xs < max_connections g"
  shows "\<exists>i < max_connections g. find_unused_conid g = Some (Inr (of_nat i, g\<lparr>next_conid := i\<rparr>))
    \<and> unat (of_nat i :: u16) = i \<and> of_nat i \<notin> conid_of g ` set xs"
proof -
  let ?n = "max_connections g" and ?U = "(unat \<circ> conid_of g) ` set xs"
  have t: "conid.holds (conid_of g) (by_conid g) (set xs)" "next_conid g < ?n" "?n \<le> 65536" "num_connections g < ?n"
    using assms by (auto simp: table_inv_def)
  have "card ?U \<le> card (set xs)" by (rule card_image_le) simp
  also have "\<dots> \<le> length xs" by (rule card_length)
  finally have "card ?U < card {..<?n}" using assms(2) by simp
  then obtain i where i: "i < ?n" "i \<notin> ?U" by (metis card_mono finite_imageI finite_set leD lessThan_iff subsetI)
  have "(next_conid g + (i + (?n - next_conid g))) mod ?n = i" using i(1) t(2) by simp
  with i(2) have "(next_conid g + (i + (?n - next_conid g))) mod ?n \<notin> ?U" by simp
  from unused_conid_loop_ends[OF t(1-3) this] obtain j where
    j: "j < ?n" "unused_conid_loop g = Some (Inr (of_nat j, g\<lparr>next_conid := j\<rparr>))" "j \<notin> ?U" by blast
  then have u: "unat (of_nat j :: u16) = j" using t(3) by (simp add: unsigned_of_nat take_bit_nat_eq_self)
  with j t(4) show ?thesis by (intro exI[of _ j]) (force simp: find_unused_conid_def)
qed

section \<open>The operations on the table\<close>

text \<open>The packet of the gateway protocol for a datagram.\<close>

definition gw_packet :: "byte \<Rightarrow> u16 \<Rightarrow> BAddr \<Rightarrow> byte list \<Rightarrow> byte list" where
  "gw_packet flags i remote d =
     [if BAddr_type remote = 2 then flags OR UDPGW_CLIENT_FLAG_IPV6 else flags] @ htol16 i @ addr_bytes remote @ d"

text \<open>What no operation on a packet changes.\<close>

definition ug_frame :: "udpgw_client \<Rightarrow> udpgw_client \<Rightarrow> bool" where
  "ug_frame g g' \<longleftrightarrow> udp_mtu g' = udp_mtu g \<and> udpgw_mtu g' = udpgw_mtu g \<and> max_connections g' = max_connections g
     \<and> keepalive_qflow g' = keepalive_qflow g \<and> keepalive_sending g' = keepalive_sending g
     \<and> have_server g' = have_server g \<and> packets (send_queue g') = packets (send_queue g)
     \<and> freeing (send_queue g') = freeing (send_queue g)"

lemma ug_frame_refl [simp]: "ug_frame g g"
  by (simp add: ug_frame_def)

lemma ug_frame_trans: "ug_frame g g' \<Longrightarrow> ug_frame g' g'' \<Longrightarrow> ug_frame g g''"
  by (simp add: ug_frame_def)

lemma length_addr_bytes: "wf_addr a \<Longrightarrow> length (addr_bytes a) \<le> 18"
  by (cases a) (simp_all add: wf_addr_def addr_bytes_def)

lemma length_gw_packet: "wf_addr a \<Longrightarrow> length (gw_packet flags i a d) \<le> 21 + length d"
  using length_addr_bytes[of a] by (simp add: gw_packet_def)

lemma connection_send_ok:
  assumes "table_inv g xs" and "c \<in> set xs" and "length data \<le> udp_mtu g"
  shows "connection_send c flags data room g
    = Inr (g, if room then [Submit c (gw_packet flags (conid_of g c) (remote_addr (conaddr_of g c)) data)] else [])"
proof -
  have "wf_addr (remote_addr (conaddr_of g c))" using assms(1,2) by (auto simp: table_inv_def table_conn_def wf_conaddr_def)
  with length_gw_packet[OF this, of flags "conid_of g c" data] assms show ?thesis
    by (simp add: connection_send_def gw_packet_def Let_def table_inv_def)
qed

lemma touch_inv:
  assumes "table_inv g xs" and "c \<in> set xs"
  shows "table_inv (touch_connection c g) (remove1 c xs @ [c])"
proof -
  have "ll_rep (connections_list (touch_connection c g)) (remove1 c xs @ [c])"
    using ll.move_to_end[OF _ assms(2)] assms(1) by (simp add: touch_connection_def table_inv_def)
  moreover have "set (remove1 c xs @ [c]) = set xs" "length (remove1 c xs @ [c]) = length xs"
    using assms table_distinct[OF assms(1)] by (auto simp: length_remove1 dest: length_pos_if_in_set)
  ultimately show ?thesis
    using assms(1) unfolding table_inv_def table_conn_def by (simp only:) (simp add: touch_connection_def)
qed

lemma touch_simps [simp]:
  "con (touch_connection c g) = con g" "send_queue (touch_connection c g) = send_queue g"
  "keepalive_qflow (touch_connection c g) = keepalive_qflow g" "udpgw_mtu (touch_connection c g) = udpgw_mtu g"
  "udp_mtu (touch_connection c g) = udp_mtu g" "ug_frame g (touch_connection c g)"
  by (simp_all add: touch_connection_def ug_frame_def)

lemma queue_inv_cong:
  assumes "queue_inv g xs" and "send_queue g' = send_queue g" and "keepalive_qflow g' = keepalive_qflow g"
    and "udpgw_mtu g' = udpgw_mtu g" and "set xs' = set xs"
  shows "queue_inv g' xs'"
  using assms by (simp add: queue_inv_def)

lemma flow_lists:
  "PacketPassFairQueueFlow_Init f m = Inr m' \<Longrightarrow> flows_list m' = flows_list m @ [f]"
  "PacketPassFairQueueFlow_Free f m = Inr m' \<Longrightarrow> flows_list m' = remove1 f (flows_list m)"
  by (auto simp: PacketPassFairQueueFlow_Init_def PacketPassFairQueueFlow_Free_def set_flow_def Let_def bindE_Inr_iff)

text \<open>A new flow: the queue has one more, and it can be taken back.\<close>

lemma flow_new:
  assumes "queue_inv g xs" and "\<not> freeing (send_queue g)" and "c \<notin> insert (keepalive_qflow g) (set xs)"
  shows "\<exists>q. PacketPassFairQueueFlow_Init c (send_queue g) = Inr q \<and> fq_inv q \<and> packets q = packets (send_queue g)
    \<and> set (flows_list q) = insert c (set (flows_list (send_queue g))) \<and> output_mtu q = output_mtu (send_queue g)
    \<and> \<not> freeing q
    \<and> (\<exists>q'. PacketPassFairQueueFlow_Free c q = Inr q' \<and> fq_inv q' \<and> packets q' = packets (send_queue g)
        \<and> set (flows_list q') = set (flows_list (send_queue g)) \<and> output_mtu q' = output_mtu (send_queue g)
        \<and> \<not> freeing q')"
proof -
  let ?m = "send_queue g"
  have inv: "fq_inv ?m" and c: "c \<notin> set (flows_list ?m)" using assms(1,3) by (auto simp: queue_inv_def)
  then have none: "packets ?m c = None" "sending_flow ?m \<noteq> Some c"
    by (auto simp: packets_def fq_inv_def fq_sched_def fq_tree_def)
  obtain q where q: "PacketPassFairQueueFlow_Init c ?m = Inr q" "fq_inv q" "packets q = packets ?m" "same_config ?m q"
    "sending_flow q = sending_flow ?m"
    using flow_init_step[OF inv c assms(2)] by (auto simp: fq_good_def one_send_def)
  then have fl: "flows_list q = flows_list ?m @ [c]" by (simp add: flow_lists)
  obtain q' where q': "PacketPassFairQueueFlow_Free c q = Inr q'" "fq_inv q'" "packets q' = (packets q)(c := None)"
    "same_config q q'"
    using flow_free_step[OF q(2), of c] none q(5) fl by auto
  then have "flows_list q' = flows_list ?m" using c fl by (simp add: flow_lists remove1_append)
  moreover have "(packets ?m)(c := None) = packets ?m" using none(1) by auto
  ultimately show ?thesis using q q' fl assms(2) by (auto simp: same_config_def)
qed

text \<open>The table depends on its connections only.\<close>

lemma table_inv_cong:
  assumes "table_inv g xs" and "\<forall>x \<in> set xs. con g' x = con g x"
    and "connections_list g' = connections_list g" "by_conaddr g' = by_conaddr g" "by_conid g' = by_conid g"
    and "num_connections g' = num_connections g" "max_connections g' = max_connections g" "udp_mtu g' = udp_mtu g"
    and "udpgw_mtu g' = udpgw_mtu g" and "next_conid g' < max_connections g"
  shows "table_inv g' xs"
  using assms conaddr.holds_cong[of "set xs" "conaddr_of g'" "conaddr_of g"]
    conid.holds_cong[of "set xs" "conid_of g'" "conid_of g"]
  unfolding table_inv_def table_conn_def by auto

text \<open>The first part of \<open>connection_init\<close>: an identifier and a flow for the connection at \<open>c\<close>.\<close>

definition new_client :: "nat \<Rightarrow> conaddr \<Rightarrow> byte \<Rightarrow> byte list \<Rightarrow> nat \<Rightarrow> bool \<Rightarrow> fair_queue \<Rightarrow> udpgw_client \<Rightarrow> udpgw_client" where
  "new_client c a flags data i job q g =
     (set_con c ((con g c)\<lparr>con_conaddr := a, first_flags := flags, first_data := data, con_conid := of_nat i, first_job := job\<rparr>)
       (g\<lparr>next_conid := i\<rparr>))\<lparr>send_queue := q\<rparr>"

lemma new_client_simps [simp]:
  "con (new_client c a flags data i job q g) x =
     (if x = c then (con g c)\<lparr>con_conaddr := a, first_flags := flags, first_data := data, con_conid := of_nat i, first_job := job\<rparr>
      else con g x)"
  "connections_list (new_client c a flags data i job q g) = connections_list g"
  "by_conaddr (new_client c a flags data i job q g) = by_conaddr g"
  "by_conid (new_client c a flags data i job q g) = by_conid g"
  "num_connections (new_client c a flags data i job q g) = num_connections g"
  "max_connections (new_client c a flags data i job q g) = max_connections g"
  "udp_mtu (new_client c a flags data i job q g) = udp_mtu g"
  "udpgw_mtu (new_client c a flags data i job q g) = udpgw_mtu g"
  "next_conid (new_client c a flags data i job q g) = i"
  "send_queue (new_client c a flags data i job q g) = q"
  "keepalive_qflow (new_client c a flags data i job q g) = keepalive_qflow g"
  "keepalive_sending (new_client c a flags data i job q g) = keepalive_sending g"
  "have_server (new_client c a flags data i job q g) = have_server g"
  by (simp_all add: new_client_def set_con_def)

lemma connection_init_parts:
  assumes inv: "table_inv g xs" "queue_inv g xs" and "\<not> freeing (send_queue g)" and len: "length xs < max_connections g"
    and a: "wf_conaddr a" "a \<notin> conaddr_of g ` set xs" and d: "length data \<le> udp_mtu g"
    and c: "c \<notin> insert (keepalive_qflow g) (set xs)"
  shows "\<exists>i q q'. i < max_connections g \<and> unat (of_nat i :: u16) = i \<and> of_nat i \<notin> conid_of g ` set xs
    \<and> connection_init a flags data (Some c) flow_ok g =
        (if flow_ok then enter_table c (new_client c a flags data i True q g)
         else Some (Inr (new_client c a flags data i False q' g)))
    \<and> fq_inv q \<and> packets q = packets (send_queue g) \<and> set (flows_list q) = insert c (set (flows_list (send_queue g)))
    \<and> output_mtu q = output_mtu (send_queue g) \<and> \<not> freeing q
    \<and> fq_inv q' \<and> packets q' = packets (send_queue g) \<and> set (flows_list q') = set (flows_list (send_queue g))
    \<and> output_mtu q' = output_mtu (send_queue g) \<and> \<not> freeing q'"
proof -
  have free: "find_connection_by_conaddr a g = Some (Inr None)" using a(2) by (rule_tac find_conaddr[OF inv(1) a(1)]) auto
  define g1 where "g1 = set_con c ((con g c)\<lparr>con_conaddr := a, first_flags := flags, first_data := data\<rparr>) g"
  have same: "\<forall>x \<in> set xs. con g1 x = con g x" using c by (auto simp: g1_def set_con_def)
  have t1: "table_inv g1 xs"
    by (rule table_inv_cong[OF inv(1) same]) (use inv(1) in \<open>simp_all add: g1_def set_con_def table_inv_def\<close>)
  obtain i where i: "i < max_connections g1" "find_unused_conid g1 = Some (Inr (of_nat i, g1\<lparr>next_conid := i\<rparr>))"
    "unat (of_nat i :: u16) = i" "of_nat i \<notin> conid_of g1 ` set xs"
    using find_unused_conid_ends[OF t1] len by (auto simp: g1_def set_con_def)
  from flow_new[OF inv(2) assms(3) c] obtain q q' where q: "PacketPassFairQueueFlow_Init c (send_queue g) = Inr q"
    "PacketPassFairQueueFlow_Free c q = Inr q'" and qs: "fq_inv q \<and> packets q = packets (send_queue g)
    \<and> set (flows_list q) = insert c (set (flows_list (send_queue g)))
    \<and> output_mtu q = output_mtu (send_queue g) \<and> \<not> freeing q
    \<and> fq_inv q' \<and> packets q' = packets (send_queue g) \<and> set (flows_list q') = set (flows_list (send_queue g))
    \<and> output_mtu q' = output_mtu (send_queue g) \<and> \<not> freeing q'" by blast
  have "connection_init a flags data (Some c) flow_ok g =
      (if flow_ok then enter_table c (new_client c a flags data i True q g)
       else Some (Inr (new_client c a flags data i False q' g)))"
    using free d len inv(1) i(2) q
    by (simp add: connection_init_def table_inv_def Let_def g1_def[symmetric])
      (simp add: new_client_def g1_def set_con_def)
  moreover have "of_nat i \<notin> conid_of g ` set xs" using i(4) same by (metis image_cong)
  moreover have "i < max_connections g" using i(1) by (simp add: g1_def set_con_def)
  ultimately show ?thesis using i(3) qs by blast
qed

lemma enter_table_ok:
  assumes inv: "table_inv g xs" and len: "length xs < max_connections g" and c: "c \<notin> set xs" "table_conn g c"
    and new: "conaddr_of g c \<notin> conaddr_of g ` set xs" "conid_of g c \<notin> conid_of g ` set xs"
  shows "\<exists>g'. enter_table c g = Some (Inr g') \<and> table_inv g' (xs @ [c]) \<and> con g' = con g \<and> ug_frame g g'
    \<and> send_queue g' = send_queue g"
proof -
  have "conaddr_comparator (conaddr_of g c) (conaddr_of g x) \<noteq> 0" if "x \<in> set xs" for x
    using that inv c(2) new(1) conaddr_eq_0[of "conaddr_of g c" "conaddr_of g x"]
    by (auto simp: table_inv_def table_conn_def)
  then obtain ref t where t: "BAVL_Insert conaddr_comparator (conaddr_of g) c (by_conaddr g) = Some (Inr ((True, ref), t))"
    "conaddr.holds (conaddr_of g) t (insert c (set xs))"
    using conaddr.holds_insert[OF _ c(1), of "conaddr_of g" "by_conaddr g"] inv unfolding table_inv_def by blast
  have "uint16_comparator (conid_of g c) (conid_of g x) \<noteq> 0" if "x \<in> set xs" for x using that new(2) by auto
  then obtain ref' t' where t': "BAVL_Insert uint16_comparator (conid_of g) c (by_conid g) = Some (Inr ((True, ref'), t'))"
    "conid.holds (conid_of g) t' (insert c (set xs))"
    using conid.holds_insert[OF _ c(1), of "conid_of g" "by_conid g"] inv unfolding table_inv_def by blast
  define g' where "g' = g\<lparr>by_conaddr := t, by_conid := t', connections_list := LinkedList1_Append c (connections_list g),
    num_connections := num_connections g + 1\<rparr>"
  have "enter_table c g = Some (Inr g')" using t(1) t'(1) by (simp add: enter_table_def Let_def g'_def)
  moreover have "table_inv g' (xs @ [c])"
    using inv t(2) t'(2) ll.append_law[OF _ c(1)] c(2) len unfolding table_inv_def table_conn_def by (auto simp: g'_def)
  ultimately show ?thesis by (simp add: g'_def ug_frame_def)
qed

lemma connection_init_ok:
  assumes inv: "table_inv g xs" "queue_inv g xs" and "\<not> freeing (send_queue g)" and len: "length xs < max_connections g"
    and a: "wf_conaddr a" "a \<notin> conaddr_of g ` set xs" and d: "length data \<le> udp_mtu g"
    and c: "c \<notin> insert (keepalive_qflow g) (set xs)"
  shows "\<exists>g' i. connection_init a flags data (Some c) flow_ok g = Some (Inr g') \<and> ug_frame g g'
    \<and> (\<forall>x \<in> set xs. con g' x = con g x) \<and> (let xs' = if flow_ok then xs @ [c] else xs in table_inv g' xs' \<and> queue_inv g' xs')
    \<and> con_conaddr (con g' c) = a \<and> con_conid (con g' c) = i \<and> i \<notin> conid_of g ` set xs
    \<and> first_job (con g' c) = flow_ok \<and> first_data (con g' c) = data \<and> first_flags (con g' c) = flags"
proof -
  from connection_init_parts[OF assms, of flags flow_ok] obtain i q q' where i: "i < max_connections g"
    "unat (of_nat i :: u16) = i" "of_nat i \<notin> conid_of g ` set xs"
    and call: "connection_init a flags data (Some c) flow_ok g =
        (if flow_ok then enter_table c (new_client c a flags data i True q g)
         else Some (Inr (new_client c a flags data i False q' g)))"
    and q: "fq_inv q" "packets q = packets (send_queue g)" "set (flows_list q) = insert c (set (flows_list (send_queue g)))"
     "output_mtu q = output_mtu (send_queue g)" "\<not> freeing q"
    and q': "fq_inv q'" "packets q' = packets (send_queue g)" "set (flows_list q') = set (flows_list (send_queue g))"
    "output_mtu q' = output_mtu (send_queue g)" "\<not> freeing q'" by blast
  have same: "\<forall>x \<in> set xs. con (new_client c a flags data i job q g) x = con g x" for job q using c by auto
  have t: "table_inv (new_client c a flags data i job q g) xs" for job q
    by (rule table_inv_cong[OF inv(1) same]) (simp_all add: i(1))
  show ?thesis
  proof (cases flow_ok)
    case False
    then show ?thesis using call same t inv(2) q' assms(3) i(3)
      by (auto simp: queue_inv_def ug_frame_def)
  next
    case True
    let ?g = "new_client c a flags data i True q g"
    have "table_conn ?g c" using i(1,2) a(1) d by (simp add: table_conn_def)
    moreover have "conaddr_of ?g ` set xs = conaddr_of g ` set xs" "conid_of ?g ` set xs = conid_of g ` set xs"
      using same by (auto intro: image_cong)
    ultimately obtain g' where g': "enter_table c ?g = Some (Inr g')" "table_inv g' (xs @ [c])" "con g' = con ?g"
      "ug_frame ?g g'" "send_queue g' = q"
      using enter_table_ok[OF t[of True q], of c] len c a(2) i(3) by auto
    then have "queue_inv g' (xs @ [c])" "ug_frame g g'"
      using inv(2) q c assms(3) by (auto simp: queue_inv_def ug_frame_def)
    with True call g' same i(3) show ?thesis by (intro exI[of _ g'] exI[of _ "of_nat i"]) auto
  qed
qed

lemma reuse_connection_ok:
  assumes inv: "table_inv g (c # xs)" and a: "wf_conaddr a" "a \<notin> conaddr_of g ` set (c # xs)"
  shows "\<exists>g'. reuse_connection a g = Some (Inr (c, g')) \<and> table_inv g' (c # xs) \<and> ug_frame g g'
    \<and> send_queue g' = send_queue g \<and> con g' = (con g)(c := (con g c)\<lparr>con_conaddr := a\<rparr>)"
proof -
  have free: "find_connection_by_conaddr a g = Some (Inr None)" using a(2) by (rule_tac find_conaddr[OF inv a(1)]) auto
  have d: "c \<notin> set xs" using table_distinct[OF inv] by simp
  have fst: "LinkedList1_GetFirst (connections_list g) = Some c" using inv ll.first_law(1) by (auto simp: table_inv_def)
  obtain t where t: "BAVL_Remove c (by_conaddr g) = Some (Inr t)" "conaddr.holds (conaddr_of g) t (set xs)"
    using conaddr.holds_remove[of "conaddr_of g" "by_conaddr g" "set (c # xs)" c] inv d by (auto simp: table_inv_def)
  define g1 where "g1 = set_con c ((con g c)\<lparr>con_conaddr := a\<rparr>) (g\<lparr>by_conaddr := t\<rparr>)"
  have same: "conaddr_of g1 x = conaddr_of g x" if "x \<in> set xs" for x using that d by (auto simp: g1_def set_con_def)
  have ids: "conid_of g1 x = conid_of g x" for x by (simp add: g1_def set_con_def)
  have t1: "conaddr.holds (conaddr_of g1) t (set xs)" using t(2) conaddr.holds_cong[OF same] by simp
  have "conaddr_comparator (conaddr_of g1 c) (conaddr_of g1 x) \<noteq> 0" if "x \<in> set xs" for x
    using that same[OF that] a inv conaddr_eq_0[of a "conaddr_of g x"]
    by (auto simp: g1_def set_con_def table_inv_def table_conn_def)
  then obtain ref t' where t': "BAVL_Insert conaddr_comparator (conaddr_of g1) c t = Some (Inr ((True, ref), t'))"
    "conaddr.holds (conaddr_of g1) t' (insert c (set xs))"
    using conaddr.holds_insert[OF t1 d] by blast
  define g' where "g' = g1\<lparr>by_conaddr := t'\<rparr>"
  have "by_conaddr g1 = t" by (simp add: g1_def set_con_def)
  then have "reuse_connection a g = Some (Inr (c, g'))" using free fst t(1) t'(1) inv
    by (simp add: reuse_connection_def table_inv_def Let_def g1_def[symmetric] g'_def)
  moreover have con: "con g' = (con g)(c := (con g c)\<lparr>con_conaddr := a\<rparr>)" by (simp add: g'_def g1_def set_con_def)
  moreover have "table_inv g' (c # xs)"
  proof -
    have "conaddr.holds (conaddr_of g') t' (set (c # xs))" using t'(2) by (simp add: g'_def)
    moreover have "conid.holds (conid_of g') (by_conid g') (set (c # xs))"
      using inv conid.holds_cong[of "set (c # xs)" "conid_of g'" "conid_of g"]
      by (simp add: table_inv_def g'_def ids) (simp add: g1_def set_con_def)
    ultimately show ?thesis using inv a(1) d con
      unfolding table_inv_def table_conn_def by (simp add: g'_def g1_def set_con_def)
  qed
  ultimately show ?thesis by (auto simp: ug_frame_def g'_def g1_def set_con_def)
qed

section \<open>The table as a list\<close>

text \<open>
  What the table means: the identifiers with the addresses they stand for, from the least to the most recently
  used. A packet for address \<open>a\<close> uses the entry of \<open>a\<close>; where there is none and the table is full, the entry
  used longest ago is rebound to \<open>a\<close>; otherwise a new entry with a free identifier is made, if the memory
  allows it. The result is the identifier and the flags of the packet that is sent at once.
\<close>

type_synonym lru_table = "(u16 \<times> conaddr) list"

definition view :: "udpgw_client \<Rightarrow> nat list \<Rightarrow> lru_table" where
  "view g xs = map (\<lambda>c. (conid_of g c, conaddr_of g c)) xs"

inductive lru_submit :: "nat \<Rightarrow> conaddr \<Rightarrow> byte \<Rightarrow> lru_table \<Rightarrow> lru_table \<Rightarrow> (byte \<times> u16) option \<Rightarrow> bool"
  for n a flags where
  hit: "(i, a) \<in> set v \<Longrightarrow> lru_submit n a flags v (remove1 (i, a) v @ [(i, a)]) (Some (flags, i))"
| rebind: "a \<notin> snd ` set ((i, b) # v) \<Longrightarrow> length ((i, b) # v) = n
    \<Longrightarrow> lru_submit n a flags ((i, b) # v) (v @ [(i, a)]) (Some (flags OR UDPGW_CLIENT_FLAG_REBIND, i))"
| create: "a \<notin> snd ` set v \<Longrightarrow> length v < n \<Longrightarrow> i \<notin> fst ` set v \<Longrightarrow> lru_submit n a flags v (v @ [(i, a)]) None"
| lost: "a \<notin> snd ` set v \<Longrightarrow> length v < n \<Longrightarrow> lru_submit n a flags v v None"

definition submit_calls :: "udpgw_client \<Rightarrow> nat list \<Rightarrow> bool \<Rightarrow> BAddr \<Rightarrow> byte list \<Rightarrow> (byte \<times> u16) option \<Rightarrow> ug_call list \<Rightarrow> bool" where
  "submit_calls g xs room remote d r cs \<longleftrightarrow>
     (case r of
        None \<Rightarrow> cs = []
      | Some (flags, i) \<Rightarrow> \<exists>c \<in> set xs. conid_of g c = i \<and> cs = (if room then [Submit c (gw_packet flags i remote d)] else []))"

lemma map_remove1_inj: "inj_on f (insert x (set xs)) \<Longrightarrow> map f (remove1 x xs) = remove1 (f x) (map f xs)"
  by (induction xs) (auto simp: inj_on_def)

lemma view_touch:
  assumes "table_inv g xs" and "c \<in> set xs"
  shows "view g (remove1 c xs @ [c]) = remove1 (conid_of g c, conaddr_of g c) (view g xs) @ [(conid_of g c, conaddr_of g c)]"
proof -
  have "inj_on (\<lambda>c. (conid_of g c, conaddr_of g c)) (insert c (set xs))"
    using table_ids_distinct[OF assms(1)] assms(2) by (auto simp: inj_on_def)
  from map_remove1_inj[OF this] show ?thesis by (simp add: view_def)
qed

lemma set_view: "set (view g xs) = (\<lambda>c. (conid_of g c, conaddr_of g c)) ` set xs"
  by (simp add: view_def)

lemma view_cong: "\<forall>x \<in> set xs. con g' x = con g x \<Longrightarrow> view g' xs = view g xs"
  by (simp add: view_def)

text \<open>A packet goes out on connection \<open>c\<close>, which becomes the one used last.\<close>

lemma touch_send_ok:
  assumes "table_inv g xs" and "queue_inv g xs" and "c \<in> set xs" and "length d \<le> udp_mtu g"
  shows "\<exists>g' cs. connection_send c flags d room (touch_connection c g) = Inr (g', cs)
    \<and> table_inv g' (remove1 c xs @ [c]) \<and> queue_inv g' (remove1 c xs @ [c]) \<and> ug_frame g g' \<and> con g' = con g
    \<and> submit_calls g' (remove1 c xs @ [c]) room (remote_addr (conaddr_of g c)) d (Some (flags, conid_of g c)) cs"
proof -
  let ?xs = "remove1 c xs @ [c]"
  have "set ?xs = set xs" using assms(3) table_distinct[OF assms(1)] by auto
  moreover note t = touch_inv[OF assms(1,3)]
  ultimately show ?thesis
    using connection_send_ok[OF t, of c d flags room] assms(3,4) queue_inv_cong[OF assms(2), of "touch_connection c g" ?xs]
    by (intro exI[of _ "touch_connection c g"] exI[of _ "if room
      then [Submit c (gw_packet flags (conid_of g c) (remote_addr (conaddr_of g c)) d)] else []"])
      (auto simp: submit_calls_def)
qed

text \<open>A packet is handled as the list prescribes, and the invariants hold again.\<close>

definition dns_flags :: "bool \<Rightarrow> byte" where
  "dns_flags dns = (if dns then UDPGW_CLIENT_FLAG_DNS else 0)"

definition submit_ok :: "udpgw_client \<Rightarrow> nat list \<Rightarrow> conaddr \<Rightarrow> byte \<Rightarrow> bool \<Rightarrow> byte list \<Rightarrow> ug_result \<Rightarrow> bool" where
  "submit_ok g xs a flags room d call \<longleftrightarrow>
     (\<exists>g' xs' cs res. call = Some (Inr (g', cs)) \<and> table_inv g' xs' \<and> queue_inv g' xs' \<and> ug_frame g g'
        \<and> lru_submit (max_connections g) a flags (view g xs) (view g' xs') res
        \<and> submit_calls g' xs' room (remote_addr a) d res cs)"

lemma submit_hit:
  assumes inv: "table_inv g xs" "queue_inv g xs" and d: "length d \<le> udp_mtu g" and c: "c \<in> set xs" "conaddr_of g c = a"
  shows "submit_ok g xs a f room d (Some (connection_send c f d room (touch_connection c g)))"
proof -
  let ?xs = "remove1 c xs @ [c]"
  obtain g' cs where s: "connection_send c f d room (touch_connection c g) = Inr (g', cs)"
    "table_inv g' ?xs" "queue_inv g' ?xs" "ug_frame g g'" "con g' = con g"
    "submit_calls g' ?xs room (remote_addr a) d (Some (f, conid_of g c)) cs"
    using touch_send_ok[OF inv c(1) d, of f room] c(2) by auto
  have "view g' ?xs = remove1 (conid_of g c, a) (view g xs) @ [(conid_of g c, a)]"
    using view_touch[OF inv(1) c(1)] s(5) c(2) by (simp add: view_def)
  moreover have "(conid_of g c, a) \<in> set (view g xs)" using c by (auto simp: set_view)
  ultimately have "lru_submit (max_connections g) a f (view g xs) (view g' ?xs) (Some (f, conid_of g c))"
    by (simp add: lru_submit.hit)
  with s show ?thesis unfolding submit_ok_def by blast
qed

lemma submit_rebind:
  assumes inv: "table_inv g xs" "queue_inv g xs" and d: "length d \<le> udp_mtu g" and a: "wf_conaddr a"
    "a \<notin> conaddr_of g ` set xs" and full: "length xs = max_connections g"
  shows "submit_ok g xs a f room d (bindO (reuse_connection a g) (\<lambda>(c, g).
    Some (connection_send c (f OR UDPGW_CLIENT_FLAG_REBIND) d room (touch_connection c g))))"
proof -
  have "0 < max_connections g" using inv(1) by (auto simp: table_inv_def)
  with full obtain c ys where xs: "xs = c # ys" by (cases xs) auto
  obtain g1 where g1: "reuse_connection a g = Some (Inr (c, g1))" "table_inv g1 xs" "ug_frame g g1"
    "send_queue g1 = send_queue g" "con g1 = (con g)(c := (con g c)\<lparr>con_conaddr := a\<rparr>)"
    using reuse_connection_ok[of g c ys a] inv(1) a xs by auto
  let ?f = "f OR UDPGW_CLIENT_FLAG_REBIND"
  have "queue_inv g1 xs" using g1(3) by (intro queue_inv_cong[OF inv(2) g1(4)]) (simp_all add: ug_frame_def)
  moreover have "length d \<le> udp_mtu g1" using d g1(3) by (simp add: ug_frame_def)
  ultimately obtain g' cs where s: "connection_send c ?f d room (touch_connection c g1) = Inr (g', cs)"
    "table_inv g' (ys @ [c])" "queue_inv g' (ys @ [c])" "ug_frame g1 g'" "con g' = con g1"
    "submit_calls g' (ys @ [c]) room (remote_addr a) d (Some (?f, conid_of g c)) cs"
    using touch_send_ok[OF g1(2), of c d ?f room] g1(5) xs by auto
  have "c \<notin> set ys" using table_distinct[OF inv(1)] xs by simp
  then have v: "view g' (ys @ [c]) = view g ys @ [(conid_of g c, a)]" "view g xs = (conid_of g c, conaddr_of g c) # view g ys"
    using s(5) g1(5) by (auto simp: view_def xs)
  moreover have "a \<notin> snd ` set (view g xs)" "length (view g xs) = max_connections g"
    using a(2) full by (auto simp: set_view) (simp add: view_def)
  ultimately have "lru_submit (max_connections g) a f (view g xs) (view g' (ys @ [c])) (Some (?f, conid_of g c))"
    unfolding v by (rule_tac lru_submit.rebind)
  with s ug_frame_trans[OF g1(3) s(4)] g1(1) show ?thesis unfolding submit_ok_def by auto
qed

lemma submit_new:
  assumes inv: "table_inv g xs" "queue_inv g xs" "\<not> freeing (send_queue g)" and d: "length d \<le> udp_mtu g"
    and a: "wf_conaddr a" "a \<notin> conaddr_of g ` set xs" and len: "length xs < max_connections g"
    and m: "malloc = None \<or> (\<exists>c. malloc = Some c \<and> c \<notin> insert (keepalive_qflow g) (set xs))"
  shows "submit_ok g xs a f room d (bindO (connection_init a f d malloc flow_ok g) (\<lambda>g. Some (Inr (g, []))))"
proof -
  have out: "a \<notin> snd ` set (view g xs)" using a(2) by (auto simp: set_view)
  have lost: "lru_submit (max_connections g) a f (view g xs) (view g xs) None"
    using lru_submit.lost[OF out] len by (simp add: view_def)
  from m show ?thesis
  proof (elim disjE exE conjE)
    assume "malloc = None"
    moreover have "find_connection_by_conaddr a g = Some (Inr None)"
      using a(2) by (rule_tac find_conaddr[OF inv(1) a(1)]) auto
    ultimately have "connection_init a f d malloc flow_ok g = Some (Inr g)"
      using d len inv(1) by (simp add: connection_init_def table_inv_def)
    with lost inv show ?thesis unfolding submit_ok_def
      by (intro exI[of _ g] exI[of _ xs] exI[of _ "[]"] exI[of _ None]) (simp add: submit_calls_def)
  next
    fix c assume "malloc = Some c" "c \<notin> insert (keepalive_qflow g) (set xs)"
    with connection_init_ok[OF inv len a d, of c f flow_ok] obtain g' i where
      g': "connection_init a f d malloc flow_ok g = Some (Inr g')" "ug_frame g g'" "\<forall>x \<in> set xs. con g' x = con g x"
      "let xs' = if flow_ok then xs @ [c] else xs in table_inv g' xs' \<and> queue_inv g' xs'"
      "con_conaddr (con g' c) = a" "con_conid (con g' c) = i" "i \<notin> conid_of g ` set xs" by blast
    have "i \<notin> fst ` set (view g xs)" using g'(7) by (auto simp: set_view)
    then have "lru_submit (max_connections g) a f (view g xs) (view g xs @ [(i, a)]) None"
      using lru_submit.create[OF out] len by (simp add: view_def)
    moreover have "view g' (xs @ [c]) = view g xs @ [(i, a)]" "view g' xs = view g xs"
      using g'(3,5,6) by (simp_all add: view_def)
    ultimately have "lru_submit (max_connections g) a f (view g xs) (view g' (if flow_ok then xs @ [c] else xs)) None"
      using lost by simp
    with g' show ?thesis unfolding submit_ok_def
      by (intro exI[of _ g'] exI[of _ "if flow_ok then xs @ [c] else xs"] exI[of _ "[]"] exI[of _ None])
        (simp add: submit_calls_def Let_def)
  qed
qed

lemma SubmitPacket_ok:
  assumes inv: "table_inv g xs" "queue_inv g xs" "\<not> freeing (send_queue g)"
    and wf: "wf_addr l" "wf_addr r" and d: "length d \<le> udp_mtu g"
    and m: "malloc = None \<or> (\<exists>c. malloc = Some c \<and> c \<notin> insert (keepalive_qflow g) (set xs))"
  shows "submit_ok g xs \<lparr>local_addr = l, remote_addr = r\<rparr> (dns_flags dns) room d
    (UdpGwClient_SubmitPacket l r dns d malloc flow_ok room g)"
proof -
  let ?a = "\<lparr>local_addr = l, remote_addr = r\<rparr>"
  have a: "wf_conaddr ?a" using wf by (simp add: wf_conaddr_def)
  have "BAddr_type l \<in> {1, 2}" "BAddr_type r \<in> {1, 2}" using wf by (cases l; cases r; simp add: wf_addr_def)+
  then have call: "UdpGwClient_SubmitPacket l r dns d malloc flow_ok room g = bindO (find_connection_by_conaddr ?a g) (\<lambda>p.
      bindO (if p = None \<and> num_connections g = max_connections g
             then bindO (reuse_connection ?a g) (\<lambda>(c, g). Some (Inr (Some c, dns_flags dns OR UDPGW_CLIENT_FLAG_REBIND, g)))
             else Some (Inr (p, dns_flags dns, g))) (\<lambda>(c, flags, g).
        case c of None \<Rightarrow> bindO (connection_init ?a flags d malloc flow_ok g) (\<lambda>g. Some (Inr (g, [])))
        | Some c \<Rightarrow> Some (connection_send c flags d room (touch_connection c g))))"
    using d by (simp only: UdpGwClient_SubmitPacket_def dns_flags_def[symmetric] Let_def guardO_bind simp_thms if_True)
  have n: "num_connections g = length xs" "length xs \<le> max_connections g" using inv(1) by (simp_all add: table_inv_def)
  show ?thesis
  proof (rule find_conaddr[OF inv(1) a])
    fix c assume "c \<in> set xs" "conaddr_of g c = ?a" "find_connection_by_conaddr ?a g = Some (Inr (Some c))"
    with submit_hit[OF inv(1,2) d] show ?thesis unfolding call by simp
  next
    assume none: "?a \<notin> conaddr_of g ` set xs" "find_connection_by_conaddr ?a g = Some (Inr None)"
    show ?thesis
    proof (cases "length xs = max_connections g")
      case True
      moreover have "0 < max_connections g" using inv(1) by (auto simp: table_inv_def)
      ultimately obtain c ys where "xs = c # ys" by (cases xs) auto
      then obtain g1 where "reuse_connection ?a g = Some (Inr (c, g1))"
        using reuse_connection_ok[of g c ys ?a] inv(1) a none(1) by blast
      with submit_rebind[OF inv(1,2) d a none(1) True] True n none(2) show ?thesis unfolding call by simp
    next
      case False
      with submit_new[OF inv d a none(1) _ m] n none(2) show ?thesis unfolding call by simp
    qed
  qed
qed

section \<open>Packets from the gateway\<close>

definition parse_reply :: "byte list \<Rightarrow> (u16 \<times> BAddr \<times> byte list) option" where
  "parse_reply data =
     (if length data < 3 then None
      else map_option (\<lambda>(r, d). (ltoh16 (take 2 (drop 1 data)), r, d)) (parse_addr (byte_at data 0) (drop 3 data)))"

text \<open>
  A packet is delivered if its identifier and its remote address are those of an entry, to the local address of
  that entry, which becomes the one used last; every other packet is dropped.
\<close>

inductive lru_receive :: "nat \<Rightarrow> byte list \<Rightarrow> lru_table \<Rightarrow> lru_table \<Rightarrow> ug_call list \<Rightarrow> bool" for mtu data where
  deliver: "parse_reply data = Some (i, r, d) \<Longrightarrow> length d \<le> mtu \<Longrightarrow> (i, \<lparr>local_addr = l, remote_addr = r\<rparr>) \<in> set v
    \<Longrightarrow> lru_receive mtu data v (remove1 (i, \<lparr>local_addr = l, remote_addr = r\<rparr>) v @ [(i, \<lparr>local_addr = l, remote_addr = r\<rparr>)])
          [Received l r d]"
| drop: "(\<And>i r d l. parse_reply data = Some (i, r, d) \<Longrightarrow> length d \<le> mtu \<Longrightarrow> (i, \<lparr>local_addr = l, remote_addr = r\<rparr>) \<notin> set v)
    \<Longrightarrow> lru_receive mtu data v v []"

lemma parse_addr_wf: "parse_addr flags data = Some (r, d) \<Longrightarrow> wf_addr r"
  by (auto simp: parse_addr_def wf_addr_def split: if_splits)

lemma ltoh16_htol16_exact [simp]: "ltoh16 (htol16 x) = x"
  using ltoh16_htol16[of x "[]"] by simp

lemma parse_addr_bytes:
  assumes "wf_addr a" and "flags AND UDPGW_CLIENT_FLAG_IPV6 \<noteq> 0 \<longleftrightarrow> BAddr_type a = 2"
  shows "parse_addr flags (addr_bytes a @ d) = Some (a, d)"
  using assms by (cases a) (auto simp: parse_addr_def wf_addr_def addr_bytes_def)

lemma parse_gw_packet:
  assumes "wf_addr r" and "flags AND UDPGW_CLIENT_FLAG_IPV6 = 0"
  shows "parse_reply (gw_packet flags i r d) = Some (i, r, d)"
proof -
  let ?f = "if BAddr_type r = 2 then flags OR UDPGW_CLIENT_FLAG_IPV6 else flags"
  have "(flags OR UDPGW_CLIENT_FLAG_IPV6) AND UDPGW_CLIENT_FLAG_IPV6 = UDPGW_CLIENT_FLAG_IPV6"
    by (simp add: bit_eq_iff bit_simps)
  then have "parse_addr ?f (addr_bytes r @ d) = Some (r, d)"
    using assms by (intro parse_addr_bytes) (auto simp: UDPGW_CLIENT_FLAG_IPV6_def)
  then show ?thesis by (simp add: parse_reply_def gw_packet_def del: if_split split del: if_split)
qed

lemma recv_call:
  assumes "have_server g" and "length data \<le> udpgw_mtu g"
  shows "parse_reply data = None \<Longrightarrow> recv_interface_handler_send data g = Some (Inr (g, []))"
    and "parse_reply data = Some (i, r, d) \<Longrightarrow> recv_interface_handler_send data g =
      (if length d > udp_mtu g then Some (Inr (g, []))
       else bindO (find_connection_by_conid i g) (\<lambda>c.
         case c of
           None \<Rightarrow> Some (Inr (g, []))
         | Some c \<Rightarrow>
             if BAddr_CompareOrder (remote_addr (conaddr_of g c)) r \<noteq> 0 then Some (Inr (g, []))
             else Some (Inr (touch_connection c g, [Received (local_addr (conaddr_of g c)) (remote_addr (conaddr_of g c)) d]))))"
  using assms unfolding recv_interface_handler_send_def Let_def touch_simps by (auto simp: parse_reply_def split: if_splits)

text \<open>A packet with the identifier of connection \<open>c\<close> and its remote address.\<close>

lemma recv_deliver:
  assumes inv: "table_inv g xs" "queue_inv g xs" and p: "parse_reply data = Some (i, r, d)"
    and c: "c \<in> set xs" "conid_of g c = i" "remote_addr (conaddr_of g c) = r" and d: "length d \<le> udp_mtu g"
  shows "table_inv (touch_connection c g) (remove1 c xs @ [c])" and "queue_inv (touch_connection c g) (remove1 c xs @ [c])"
    and "lru_receive (udp_mtu g) data (view g xs) (view (touch_connection c g) (remove1 c xs @ [c]))
      [Received (local_addr (conaddr_of g c)) r d]"
proof -
  let ?xs = "remove1 c xs @ [c]"
  obtain l where a: "conaddr_of g c = \<lparr>local_addr = l, remote_addr = r\<rparr>" using c(3) by (cases "conaddr_of g c") simp
  show "table_inv (touch_connection c g) ?xs" by (rule touch_inv[OF inv(1) c(1)])
  show "queue_inv (touch_connection c g) ?xs"
    by (rule queue_inv_cong[OF inv(2)]) (use c(1) table_distinct[OF inv(1)] in auto)
  have "(i, \<lparr>local_addr = l, remote_addr = r\<rparr>) \<in> set (view g xs)" using c(1,2) a by (force simp: set_view)
  then show "lru_receive (udp_mtu g) data (view g xs) (view (touch_connection c g) ?xs)
      [Received (local_addr (conaddr_of g c)) r d]"
    using lru_receive.deliver[OF p d] view_touch[OF inv(1) c(1)] a c(2) by (simp add: view_def)
qed

lemma recv_ok:
  assumes inv: "table_inv g xs" "queue_inv g xs" and g: "have_server g" "length data \<le> udpgw_mtu g"
  shows "\<exists>g' xs' cs. recv_interface_handler_send data g = Some (Inr (g', cs)) \<and> table_inv g' xs' \<and> queue_inv g' xs'
    \<and> ug_frame g g' \<and> lru_receive (udp_mtu g) data (view g xs) (view g' xs') cs"
proof -
  have dropped: ?thesis if "recv_interface_handler_send data g = Some (Inr (g, []))"
    and "\<And>i r d l. parse_reply data = Some (i, r, d) \<Longrightarrow> length d \<le> udp_mtu g
      \<Longrightarrow> (i, \<lparr>local_addr = l, remote_addr = r\<rparr>) \<notin> set (view g xs)"
    using that inv lru_receive.drop[of data "udp_mtu g" "view g xs"] by (intro exI[of _ g] exI[of _ xs] exI[of _ "[]"]) simp
  show ?thesis
  proof (cases "parse_reply data")
    case None
    then show ?thesis using recv_call(1)[OF g] by (intro dropped) simp_all
  next
    case (Some p)
    then obtain i r d where p: "parse_reply data = Some (i, r, d)" by (cases p) auto
    then have wf: "wf_addr r" by (auto simp: parse_reply_def parse_addr_wf split: if_splits)
    note call = recv_call(2)[OF g p]
    show ?thesis
    proof (rule find_conid[OF inv(1), of i])
      fix c assume c: "c \<in> set xs" "conid_of g c = i" "find_connection_by_conid i g = Some (Inr (Some c))"
      have uniq: "conaddr_of g c = a" if "(i, a) \<in> set (view g xs)" for a
        using that c(1,2) table_ids_distinct[OF inv(1)] by (auto simp: set_view)
      have "wf_addr (remote_addr (conaddr_of g c))" using inv(1) c(1) by (auto simp: table_inv_def table_conn_def wf_conaddr_def)
      note eq = CompareOrder_eq_0[OF this wf]
      show ?thesis
      proof (cases "length d \<le> udp_mtu g \<and> remote_addr (conaddr_of g c) = r")
        case False
        show ?thesis
        proof (rule dropped)
          show "recv_interface_handler_send data g = Some (Inr (g, []))" using False call c(3) eq by auto
          show "(i', \<lparr>local_addr = l, remote_addr = r'\<rparr>) \<notin> set (view g xs)"
            if "parse_reply data = Some (i', r', d')" "length d' \<le> udp_mtu g" for i' r' d' l
            using that p False uniq[of "\<lparr>local_addr = l, remote_addr = r'\<rparr>"] by auto
        qed
      next
        case True
        then have "recv_interface_handler_send data g
            = Some (Inr (touch_connection c g, [Received (local_addr (conaddr_of g c)) r d]))"
          using call c(3) eq by simp
        with recv_deliver[OF inv p c(1,2)] True show ?thesis by (metis touch_simps(6))
      qed
    next
      assume "i \<notin> conid_of g ` set xs" "find_connection_by_conid i g = Some (Inr None)"
      with call p show ?thesis by (intro dropped) (auto simp: set_view)
    qed
  qed
qed

section \<open>The start and the end\<close>

lemma compute_mtu: "0 \<le> udpgw_compute_mtu mtu \<Longrightarrow> udpgw_compute_mtu mtu = int (21 + mtu)"
  by (auto simp: udpgw_compute_mtu_def Let_def split: if_splits)

lemma UdpGwClient_Init_ok:
  assumes "0 \<le> udpgw_compute_mtu mtu" and "udpgw_compute_mtu mtu \<le> 65535" and "max_con > 0" and "send_buffer_size > 0"
  shows "\<exists>g. UdpGwClient_Init mem fmem ka mtu max_con send_buffer_size = Inr (Some g) \<and> table_inv g [] \<and> queue_inv g []
    \<and> \<not> freeing (send_queue g) \<and> packets (send_queue g) = (\<lambda>_. None) \<and> \<not> keepalive_sending g \<and> \<not> have_server g
    \<and> udp_mtu g = mtu \<and> max_connections g = min max_con 65536"
proof -
  note mtu = compute_mtu[OF assms(1)]
  obtain m where m: "PacketPassFairQueue_Init fmem (23 + mtu) False False 1 = Inr (Some m)" "fq_inv m"
    "packets m = (\<lambda>_. None)" "\<not> freeing m" "output_mtu m = 23 + mtu" "flows_list m = []"
    using queue_init_inv[of 1 "23 + mtu" False False fmem] assms(2) mtu
    by (auto simp: PacketPassFairQueue_Init_def bindE_Inr_iff split: if_splits)
  obtain q where q: "PacketPassFairQueueFlow_Init ka m = Inr q" "fq_inv q" "packets q = packets m" "same_config m q"
    using flow_init_step[OF m(2), of ka] m(4,6) by (auto simp: fq_good_def)
  have fl: "flows_list q = [ka]" using flow_lists(1)[OF q(1)] m(6) by simp
  define g where "g = mem\<lparr>udp_mtu := mtu, max_connections := min max_con 65536, udpgw_mtu := 21 + mtu,
    by_conaddr := BAVL_Init (by_conaddr mem), by_conid := BAVL_Init (by_conid mem),
    connections_list := LinkedList1_Init (connections_list mem), num_connections := 0, next_conid := 0,
    send_queue := q, keepalive_qflow := ka, keepalive_sending := False, have_server := False\<rparr>"
  have "nat (int (21 + mtu)) = 21 + mtu" "(if max_con > 65536 then 65536 else max_con) = min max_con 65536" by auto
  then have "UdpGwClient_Init mem fmem ka mtu max_con send_buffer_size = Inr (Some g)"
    using assms mtu m(1) q(1) by (simp add: UdpGwClient_Init_def Let_def g_def)
  moreover have "table_inv g []" using assms(3) Init_rep conaddr.holds_init conid.holds_init
    by (simp add: table_inv_def g_def)
  moreover have "queue_inv g []" using q fl m(5) by (simp add: queue_inv_def same_config_def g_def)
  ultimately show ?thesis using q m(3,4) by (simp add: g_def same_config_def)
qed

lemma connection_free_ok:
  assumes inv: "table_inv g (c # xs)" "queue_inv g (c # xs)" and fr: "freeing (send_queue g)"
  shows "\<exists>g'. connection_free c g = Some (Inr g') \<and> table_inv g' xs \<and> queue_inv g' xs \<and> freeing (send_queue g')"
proof -
  have d: "c \<notin> set xs" using table_distinct[OF inv(1)] by simp
  obtain t where t: "BAVL_Remove c (by_conid g) = Some (Inr t)" "conid.holds (conid_of g) t (set xs)"
    using conid.holds_remove[of "conid_of g" "by_conid g" "set (c # xs)" c] inv(1) d by (auto simp: table_inv_def)
  obtain t' where t': "BAVL_Remove c (by_conaddr g) = Some (Inr t')" "conaddr.holds (conaddr_of g) t' (set xs)"
    using conaddr.holds_remove[of "conaddr_of g" "by_conaddr g" "set (c # xs)" c] inv(1) d by (auto simp: table_inv_def)
  have q0: "fq_inv (send_queue g)" "c \<in> set (flows_list (send_queue g))" using inv(2) by (auto simp: queue_inv_def)
  obtain q where q: "PacketPassFairQueueFlow_Free c (send_queue g) = Inr q" "fq_inv q" "same_config (send_queue g) q"
    using flow_free_step[OF q0] fr by blast
  have fl: "set (flows_list q) = insert (keepalive_qflow g) (set xs)"
    using flow_lists(2)[OF q(1)] q0(1) inv(2) d by (auto simp: queue_inv_def fq_inv_def fq_tree_def)
  define g' where "g' = set_con c ((con g c)\<lparr>first_job := False\<rparr>) (g\<lparr>num_connections := num_connections g - 1,
    connections_list := LinkedList1_Remove c (connections_list g), by_conid := t, by_conaddr := t', send_queue := q\<rparr>)"
  have "connection_free c g = Some (Inr g')"
    using fr t(1) t'(1) q(1) by (simp add: connection_free_def Let_def g'_def)
  moreover have "ll_rep (LinkedList1_Remove c (connections_list g)) xs"
    using ll.remove_law[of "connections_list g" "c # xs" c] inv(1) by (simp add: table_inv_def)
  moreover have "conaddr.holds (conaddr_of g') t' (set xs)" "conid.holds (conid_of g') t (set xs)"
    using t(2) t'(2) d conaddr.holds_cong[of "set xs" "conaddr_of g'" "conaddr_of g"]
      conid.holds_cong[of "set xs" "conid_of g'" "conid_of g"] by (auto simp: g'_def set_con_def)
  ultimately show ?thesis using inv d fl q fr
    by (intro exI[of _ g']) (auto simp: table_inv_def table_conn_def queue_inv_def same_config_def g'_def set_con_def)
qed

lemma free_connections_ok:
  assumes "table_inv g xs" and "queue_inv g xs" and "freeing (send_queue g)"
  shows "\<exists>g'. free_connections g = Some (Inr g') \<and> queue_inv g' [] \<and> freeing (send_queue g')"
  using assms
proof (induction xs arbitrary: g)
  case Nil
  then show ?case using ll.first_law(2)[of "connections_list g"] by (subst free_connections.simps) (simp add: table_inv_def)
next
  case (Cons c xs)
  have "LinkedList1_GetFirst (connections_list g) = Some c"
    using Cons.prems(1) ll.first_law(1)[of "connections_list g" c xs] by (simp add: table_inv_def)
  moreover obtain g' where "connection_free c g = Some (Inr g')" "table_inv g' xs" "queue_inv g' xs" "freeing (send_queue g')"
    using connection_free_ok[OF Cons.prems] by blast
  ultimately show ?case using Cons.IH[of g'] by (subst free_connections.simps) simp
qed

lemma UdpGwClient_Free_ok:
  assumes "table_inv g xs" and "queue_inv g xs"
  shows "\<exists>q. UdpGwClient_Free g = Some (Inr q) \<and> flows_list q = [] \<and> queued_tree q = [] \<and> sending_flow q = None
    \<and> \<not> schedule_job q"
proof -
  let ?g = "g\<lparr>send_queue := PacketPassFairQueue_PrepareFree (send_queue g)\<rparr>"
  have "table_inv ?g xs" by (rule table_inv_cong[OF assms(1)]) (use assms(1) in \<open>simp_all add: table_inv_def\<close>)
  moreover have "queue_inv ?g xs" using assms(2) prepare_free_step(1) by (auto simp: queue_inv_def PacketPassFairQueue_PrepareFree_def)
  ultimately obtain g' where g': "free_connections ?g = Some (Inr g')" "queue_inv g' []" "freeing (send_queue g')"
    using free_connections_ok[of ?g xs] by (auto simp: PacketPassFairQueue_PrepareFree_def)
  let ?k = "keepalive_qflow g'"
  have q0: "fq_inv (send_queue g')" "?k \<in> set (flows_list (send_queue g'))" using g'(2) by (auto simp: queue_inv_def)
  obtain q where q: "PacketPassFairQueueFlow_Free ?k (send_queue g') = Inr q" "fq_inv q"
    using flow_free_step[OF q0] g'(3) by blast
  have "distinct (flows_list (send_queue g'))" "set (flows_list (send_queue g')) = {?k}"
    using g'(2) by (auto simp: queue_inv_def fq_inv_def fq_tree_def)
  then have fl: "flows_list q = []"
    using flow_lists(2)[OF q(1)] by (simp add: distinct_remove1_removeAll removeAll_filter_not_eq filter_empty_conv)
  moreover have "queued_tree q = []" "sending_flow q = None" "previous_flow q = None"
    using q(2) fl by (auto simp: fq_inv_def fq_tree_def fq_sched_def)
  ultimately show ?thesis using g'(1) q(1) by (simp add: UdpGwClient_Free_def PacketPassFairQueue_Free_def)
qed

end
