(* ===== verification/PacketPassInterface.thy ===== *)
theory PacketPassInterface
  imports C_Prelude
begin

text \<open>
  The interface through which one component passes packets to another
  (\<^verbatim>\<open>tun2socks-iOS/flow/PacketPassInterface.h\<close>, \<^verbatim>\<open>PacketPassInterface.c\<close>): the user gives a packet, a job hands it to the
  provider, the provider reports when it is done, and a job tells the user. A handler that is set is a flag; a
  pending job is a flag, which is off when its handler runs. An operation returns the calls of the handlers.
\<close>

datatype ppi_state = PPI_STATE_NONE | PPI_STATE_OPERATION_PENDING | PPI_STATE_BUSY | PPI_STATE_DONE_PENDING

record packet_pass_interface =
  ppi_mtu :: nat
  handler_requestcancel :: bool
  handler_done :: bool
  job_operation :: bool
  job_operation_data :: "byte list"
  job_requestcancel :: bool
  job_done :: bool
  state :: ppi_state
  cancel_requested :: bool

datatype ppi_call = HandlerSend "byte list" | HandlerCancel | HandlerDone

type_synonym ppi_result = "(packet_pass_interface \<times> ppi_call list) run"

text \<open>\<open>mem\<close> is the memory before.\<close>

definition PacketPassInterface_Init :: "packet_pass_interface \<Rightarrow> nat \<Rightarrow> packet_pass_interface" where
  "PacketPassInterface_Init mem mtu =
     mem\<lparr>ppi_mtu := mtu, handler_requestcancel := False, handler_done := False, job_operation := False,
         job_requestcancel := False, job_done := False, state := PPI_STATE_NONE\<rparr>"

definition PacketPassInterface_Free :: "packet_pass_interface \<Rightarrow> packet_pass_interface" where
  "PacketPassInterface_Free i = i\<lparr>job_done := False, job_requestcancel := False, job_operation := False\<rparr>"

definition PacketPassInterface_EnableCancel :: "packet_pass_interface \<Rightarrow> packet_pass_interface run" where
  "PacketPassInterface_EnableCancel i =
     bindE (guardE (\<not> handler_requestcancel i \<and> \<not> handler_done i) AssertFailed) (\<lambda>_.
       Inr (i\<lparr>handler_requestcancel := True\<rparr>))"

definition PacketPassInterface_Done :: "packet_pass_interface \<Rightarrow> packet_pass_interface run" where
  "PacketPassInterface_Done i =
     bindE (guardE (state i = PPI_STATE_BUSY) AssertFailed) (\<lambda>_.
       Inr (i\<lparr>job_requestcancel := False, job_done := True, state := PPI_STATE_DONE_PENDING\<rparr>))"

definition PacketPassInterface_GetMTU :: "packet_pass_interface \<Rightarrow> nat" where
  "PacketPassInterface_GetMTU i = ppi_mtu i"

definition PacketPassInterface_Sender_Init :: "packet_pass_interface \<Rightarrow> packet_pass_interface run" where
  "PacketPassInterface_Sender_Init i =
     bindE (guardE (\<not> handler_done i) AssertFailed) (\<lambda>_. Inr (i\<lparr>handler_done := True\<rparr>))"

definition PacketPassInterface_Sender_Send :: "byte list \<Rightarrow> packet_pass_interface \<Rightarrow> packet_pass_interface run" where
  "PacketPassInterface_Sender_Send data i =
     bindE (guardE (length data \<le> ppi_mtu i \<and> state i = PPI_STATE_NONE \<and> handler_done i) AssertFailed) (\<lambda>_.
       Inr (i\<lparr>job_operation_data := data, job_operation := True, state := PPI_STATE_OPERATION_PENDING,
              cancel_requested := False\<rparr>))"

definition PacketPassInterface_Sender_RequestCancel :: "packet_pass_interface \<Rightarrow> packet_pass_interface run" where
  "PacketPassInterface_Sender_RequestCancel i =
     bindE (guardE (state i \<in> {PPI_STATE_OPERATION_PENDING, PPI_STATE_BUSY, PPI_STATE_DONE_PENDING}
                    \<and> handler_requestcancel i) AssertFailed) (\<lambda>_.
       if cancel_requested i then Inr i
       else
         let i = i\<lparr>cancel_requested := True\<rparr>
         in if state i = PPI_STATE_OPERATION_PENDING
            then Inr (i\<lparr>job_operation := False, job_done := True, state := PPI_STATE_DONE_PENDING\<rparr>)
            else if state i = PPI_STATE_BUSY then Inr (i\<lparr>job_requestcancel := True\<rparr>)
            else Inr i)"

definition PacketPassInterface_HasCancel :: "packet_pass_interface \<Rightarrow> bool" where
  "PacketPassInterface_HasCancel i = handler_requestcancel i"

definition PacketPassInterface_job_operation :: "packet_pass_interface \<Rightarrow> ppi_result" where
  "PacketPassInterface_job_operation i =
     bindE (guardE (state i = PPI_STATE_OPERATION_PENDING) AssertFailed) (\<lambda>_.
       Inr (i\<lparr>state := PPI_STATE_BUSY\<rparr>, [HandlerSend (job_operation_data i)]))"

definition PacketPassInterface_job_requestcancel :: "packet_pass_interface \<Rightarrow> ppi_result" where
  "PacketPassInterface_job_requestcancel i =
     bindE (guardE (state i = PPI_STATE_BUSY \<and> cancel_requested i \<and> handler_requestcancel i) AssertFailed) (\<lambda>_.
       Inr (i, [HandlerCancel]))"

definition PacketPassInterface_job_done :: "packet_pass_interface \<Rightarrow> ppi_result" where
  "PacketPassInterface_job_done i =
     bindE (guardE (state i = PPI_STATE_DONE_PENDING) AssertFailed) (\<lambda>_.
       Inr (i\<lparr>state := PPI_STATE_NONE\<rparr>, [HandlerDone]))"

section \<open>The interface between its user and its provider\<close>

text \<open>
  \<open>user_has\<close> is the packet the user has given and not been told about, \<open>provider_has\<close> the packet the provider has
  and is not done with.
\<close>

datatype ppi_event = UserSend "byte list" | UserCancel | ProviderDone | JobOperation | JobRequestcancel | JobDone

record ppi_sys =
  ppi :: packet_pass_interface
  user_has :: "byte list option"
  provider_has :: "byte list option"

fun ppi_dispatch :: "ppi_event \<Rightarrow> packet_pass_interface \<Rightarrow> ppi_result" where
  "ppi_dispatch (UserSend d) i = bindE (PacketPassInterface_Sender_Send d i) (\<lambda>i. Inr (i, []))"
| "ppi_dispatch UserCancel i = bindE (PacketPassInterface_Sender_RequestCancel i) (\<lambda>i. Inr (i, []))"
| "ppi_dispatch ProviderDone i = bindE (PacketPassInterface_Done i) (\<lambda>i. Inr (i, []))"
| "ppi_dispatch JobOperation i = PacketPassInterface_job_operation (i\<lparr>job_operation := False\<rparr>)"
| "ppi_dispatch JobRequestcancel i = PacketPassInterface_job_requestcancel (i\<lparr>job_requestcancel := False\<rparr>)"
| "ppi_dispatch JobDone i = PacketPassInterface_job_done (i\<lparr>job_done := False\<rparr>)"

fun ppi_env :: "ppi_event \<Rightarrow> ppi_sys \<Rightarrow> ppi_sys" where
  "ppi_env (UserSend d) s = s\<lparr>user_has := Some d\<rparr>"
| "ppi_env ProviderDone s = s\<lparr>provider_has := None\<rparr>"
| "ppi_env _ s = s"

fun ppi_track :: "ppi_call \<Rightarrow> ppi_sys \<Rightarrow> ppi_sys" where
  "ppi_track (HandlerSend d) s = s\<lparr>provider_has := Some d\<rparr>"
| "ppi_track HandlerCancel s = s"
| "ppi_track HandlerDone s = s\<lparr>user_has := None\<rparr>"

definition ppi_step :: "ppi_event \<Rightarrow> ppi_sys \<Rightarrow> (ppi_sys \<times> ppi_call list) run" where
  "ppi_step e s = bindE (ppi_dispatch e (ppi s)) (\<lambda>(i, cs). Inr (fold ppi_track cs ((ppi_env e s)\<lparr>ppi := i\<rparr>), cs))"

fun ppi_legal :: "ppi_event \<Rightarrow> ppi_sys \<Rightarrow> bool" where
  "ppi_legal (UserSend d) s \<longleftrightarrow> user_has s = None \<and> length d \<le> PacketPassInterface_GetMTU (ppi s)"
| "ppi_legal UserCancel s \<longleftrightarrow> user_has s \<noteq> None \<and> PacketPassInterface_HasCancel (ppi s)"
| "ppi_legal ProviderDone s \<longleftrightarrow> provider_has s \<noteq> None"
| "ppi_legal JobOperation s \<longleftrightarrow> job_operation (ppi s)"
| "ppi_legal JobRequestcancel s \<longleftrightarrow> job_requestcancel (ppi s)"
| "ppi_legal JobDone s \<longleftrightarrow> job_done (ppi s)"

text \<open>The set-up: the provider makes the interface, with cancel or without, and the user takes it.\<close>

definition ppi_setup :: "packet_pass_interface \<Rightarrow> nat \<Rightarrow> bool \<Rightarrow> packet_pass_interface run" where
  "ppi_setup mem mtu cancel =
     (let i = PacketPassInterface_Init mem mtu
      in bindE (if cancel then PacketPassInterface_EnableCancel i else Inr i) PacketPassInterface_Sender_Init)"

inductive ppi_reachable :: "ppi_sys \<Rightarrow> bool" where
  start: "ppi_setup mem mtu cancel = Inr i \<Longrightarrow> ppi_reachable \<lparr>ppi = i, user_has = None, provider_has = None\<rparr>"
| step: "ppi_reachable s \<Longrightarrow> ppi_legal e s \<Longrightarrow> ppi_step e s = Inr (s', cs) \<Longrightarrow> ppi_reachable s'"

definition ppi_inv :: "packet_pass_interface \<Rightarrow> bool" where
  "ppi_inv i \<longleftrightarrow> handler_done i \<and> (job_operation i \<longleftrightarrow> state i = PPI_STATE_OPERATION_PENDING)
     \<and> (job_done i \<longleftrightarrow> state i = PPI_STATE_DONE_PENDING)
     \<and> (job_requestcancel i \<longrightarrow> state i = PPI_STATE_BUSY \<and> cancel_requested i \<and> handler_requestcancel i)"

definition ppi_sys_inv :: "ppi_sys \<Rightarrow> bool" where
  "ppi_sys_inv s \<longleftrightarrow> ppi_inv (ppi s)
     \<and> user_has s = (if state (ppi s) = PPI_STATE_NONE then None else Some (job_operation_data (ppi s)))
     \<and> provider_has s = (if state (ppi s) = PPI_STATE_BUSY then user_has s else None)"

lemmas ppi_defs = PacketPassInterface_Init_def PacketPassInterface_EnableCancel_def PacketPassInterface_Done_def
  PacketPassInterface_GetMTU_def PacketPassInterface_Sender_Init_def PacketPassInterface_Sender_Send_def
  PacketPassInterface_Sender_RequestCancel_def PacketPassInterface_HasCancel_def PacketPassInterface_job_operation_def
  PacketPassInterface_job_requestcancel_def PacketPassInterface_job_done_def

lemma setup_inv: "ppi_setup mem mtu cancel = Inr i \<Longrightarrow> ppi_inv i \<and> state i = PPI_STATE_NONE \<and> ppi_mtu i = mtu"
  by (auto simp: ppi_setup_def ppi_defs ppi_inv_def Let_def split: if_splits)

lemma ppi_step_inv:
  assumes "ppi_sys_inv s" and "ppi_legal e s"
  shows "\<exists>s' cs. ppi_step e s = Inr (s', cs) \<and> ppi_sys_inv s'
    \<and> (\<forall>d. HandlerSend d \<in> set cs \<longrightarrow> provider_has s = None \<and> user_has s = Some d)
    \<and> (HandlerDone \<in> set cs \<longrightarrow> user_has s \<noteq> None \<and> provider_has s = None)
    \<and> (HandlerCancel \<in> set cs \<longrightarrow> provider_has s \<noteq> None)"
  using assms
  by (cases e; cases "state (ppi s)") (auto simp: ppi_sys_inv_def ppi_inv_def ppi_step_def ppi_defs Let_def)

lemma ppi_reachable_inv: "ppi_reachable s \<Longrightarrow> ppi_sys_inv s"
proof (induction rule: ppi_reachable.induct)
  case (start mem mtu cancel i)
  then show ?case using setup_inv by (simp add: ppi_sys_inv_def)
next
  case (step s e s' cs)
  then show ?case using ppi_step_inv[of s e] by auto
qed



end
