(* ===== verification/UdpGwSystem.thy ===== *)
theory UdpGwSystem
  imports UdpGwClient PacketPassInterface
begin

text \<open>
  The UDP gateway client with its surroundings: packets of the user and of the gateway, the pending jobs, the
  inactivity monitor, the connections' senders and the output of the queue, in any order.

  \<^item> \<open>sys_ka\<close> is the interface of the keepalive flow, through which the client sends its keepalive packet.
  \<^item> A step returns the calls of the client and of its queue; \<open>None\<close> would be a search or loop that does not end,
    \<open>Inl\<close> a failed assertion or a write past a buffer.
\<close>

record gw_sys =
  sys_g :: udpgw_client
  sys_ka :: packet_pass_interface

type_synonym gw_out = "ug_call + fq_call"

type_synonym gw_result = "(gw_sys \<times> gw_out list) run"

datatype gw_event = GwSubmit BAddr BAddr bool "byte list" "nat option" bool bool | GwRecv "byte list"
  | GwFirstJob nat bool | GwMonitor | GwKeepaliveJob | GwKeepaliveDone | GwConnect bool | GwDisconnect
  | GwDecoderError | GwSend nat "byte list" | GwOutDone | GwJob

definition client_result :: "gw_sys \<Rightarrow> (udpgw_client \<times> ug_call list) run \<Rightarrow> gw_result" where
  "client_result s r = bindE r (\<lambda>(g, cs). Inr (s\<lparr>sys_g := g\<rparr>, map Inl cs))"

text \<open>The queue reports a flow's packet through the interface of the flow.\<close>

definition queue_result :: "gw_sys \<Rightarrow> fq_result run \<Rightarrow> gw_result" where
  "queue_result s r = bindE r (\<lambda>(q, cs).
     bindE (if FlowDone (keepalive_qflow (sys_g s)) \<in> set cs then PacketPassInterface_Done (sys_ka s) else Inr (sys_ka s)) (\<lambda>i.
     Inr (s\<lparr>sys_g := (sys_g s)\<lparr>send_queue := q\<rparr>, sys_ka := i\<rparr>, map Inr cs)))"

definition monitor_step :: "gw_sys \<Rightarrow> gw_result" where
  "monitor_step s =
     (case send_monitor_handler (sys_g s) of
        (g, [Keepalive p]) \<Rightarrow> bindE (PacketPassInterface_Sender_Send p (sys_ka s)) (\<lambda>i. Inr (s\<lparr>sys_g := g, sys_ka := i\<rparr>, [Inl (Keepalive p)]))
      | (g, cs) \<Rightarrow> Inr (s\<lparr>sys_g := g\<rparr>, map Inl cs))"

text \<open>The jobs of the keepalive interface: the packet goes to the queue, and the client is told that it is done.\<close>

definition keepalive_job_step :: "gw_sys \<Rightarrow> gw_result" where
  "keepalive_job_step s =
     bindE (PacketPassInterface_job_operation ((sys_ka s)\<lparr>job_operation := False\<rparr>)) (\<lambda>(i, cs).
       case cs of
         [HandlerSend d] \<Rightarrow>
           queue_result (s\<lparr>sys_ka := i\<rparr>) (fq_input_handler_send (keepalive_qflow (sys_g s)) d (send_queue (sys_g s)))
       | _ \<Rightarrow> Inr (s\<lparr>sys_ka := i\<rparr>, []))"

definition keepalive_done_step :: "gw_sys \<Rightarrow> gw_result" where
  "keepalive_done_step s =
     bindE (PacketPassInterface_job_done ((sys_ka s)\<lparr>job_done := False\<rparr>)) (\<lambda>(i, cs).
       if HandlerDone \<in> set cs
       then bindE (keepalive_if_handler_done (sys_g s)) (\<lambda>g. Inr (s\<lparr>sys_g := g, sys_ka := i\<rparr>, []))
       else Inr (s\<lparr>sys_ka := i\<rparr>, []))"

text \<open>A job is not pending any more when its handler runs.\<close>

fun gw_step :: "gw_event \<Rightarrow> gw_sys \<Rightarrow> gw_result option" where
  "gw_step (GwSubmit l r dns d malloc flow_ok room) s =
     map_option (client_result s) (UdpGwClient_SubmitPacket l r dns d malloc flow_ok room (sys_g s))"
| "gw_step (GwRecv d) s = map_option (client_result s) (recv_interface_handler_send d (sys_g s))"
| "gw_step (GwFirstJob c room) s =
     (let g = sys_g s
      in Some (client_result s (connection_first_job_handler c room (set_con c ((con g c)\<lparr>first_job := False\<rparr>) g))))"
| "gw_step GwMonitor s = Some (monitor_step s)"
| "gw_step GwKeepaliveJob s = Some (keepalive_job_step s)"
| "gw_step GwKeepaliveDone s = Some (keepalive_done_step s)"
| "gw_step (GwConnect ok) s =
     Some (bindE (UdpGwClient_ConnectServer ok (sys_g s)) (\<lambda>(_, g). Inr (s\<lparr>sys_g := g\<rparr>, [])))"
| "gw_step GwDisconnect s = Some (bindE (UdpGwClient_DisconnectServer (sys_g s)) (\<lambda>g. Inr (s\<lparr>sys_g := g\<rparr>, [])))"
| "gw_step GwDecoderError s = Some (client_result s (decoder_handler_error (sys_g s)))"
| "gw_step (GwSend c d) s = Some (queue_result s (fq_input_handler_send c d (send_queue (sys_g s))))"
| "gw_step GwOutDone s = Some (queue_result s (fq_output_handler_done (send_queue (sys_g s))))"
| "gw_step GwJob s =
     Some (queue_result s (schedule_job_handler ((send_queue (sys_g s))\<lparr>schedule_job := False\<rparr>)))"

text \<open>
  What the surroundings keep to: addresses are of a known kind and packets within the MTU, \<open>malloc\<close> returns
  memory that is not in use, a job runs when it is pending, a connection's sender sends one packet at a time, and
  the output is done with a packet it has.
\<close>

fun gw_legal :: "gw_event \<Rightarrow> gw_sys \<Rightarrow> bool" where
  "gw_legal (GwSubmit l r dns d malloc flow_ok room) s \<longleftrightarrow> wf_addr l \<and> wf_addr r \<and> length d \<le> udp_mtu (sys_g s)
     \<and> (case malloc of None \<Rightarrow> True | Some c \<Rightarrow> c \<notin> set (flows_list (send_queue (sys_g s))))"
| "gw_legal (GwRecv d) s \<longleftrightarrow> have_server (sys_g s) \<and> length d \<le> udpgw_mtu (sys_g s)"
| "gw_legal (GwFirstJob c room) s \<longleftrightarrow> c \<in> set (flows_list (send_queue (sys_g s))) \<and> c \<noteq> keepalive_qflow (sys_g s)
     \<and> first_job (con (sys_g s) c)"
| "gw_legal GwMonitor s \<longleftrightarrow> True"
| "gw_legal GwKeepaliveJob s \<longleftrightarrow> job_operation (sys_ka s)"
| "gw_legal GwKeepaliveDone s \<longleftrightarrow> job_done (sys_ka s)"
| "gw_legal (GwConnect ok) s \<longleftrightarrow> \<not> have_server (sys_g s)"
| "gw_legal GwDisconnect s \<longleftrightarrow> have_server (sys_g s)"
| "gw_legal GwDecoderError s \<longleftrightarrow> have_server (sys_g s)"
| "gw_legal (GwSend c d) s \<longleftrightarrow> c \<in> set (flows_list (send_queue (sys_g s))) \<and> c \<noteq> keepalive_qflow (sys_g s)
     \<and> packets (send_queue (sys_g s)) c = None \<and> length d \<le> output_mtu (send_queue (sys_g s))"
| "gw_legal GwOutDone s \<longleftrightarrow> sending_flow (send_queue (sys_g s)) \<noteq> None"
| "gw_legal GwJob s \<longleftrightarrow> schedule_job (send_queue (sys_g s))"

text \<open>At the start the interface of the keepalive flow has been set up for the packets of the queue.\<close>

inductive gw_reachable :: "gw_sys \<Rightarrow> bool" where
  start: "UdpGwClient_Init mem fmem ka mtu max_con send_buffer_size = Inr (Some g)
    \<Longrightarrow> ppi_setup imem (output_mtu (send_queue g)) False = Inr i \<Longrightarrow> gw_reachable \<lparr>sys_g = g, sys_ka = i\<rparr>"
| step: "gw_reachable s \<Longrightarrow> gw_legal e s \<Longrightarrow> gw_step e s = Some (Inr (s', os)) \<Longrightarrow> gw_reachable s'"

text \<open>A history of events; one that the surroundings' rules forbid ends it.\<close>

fun gw_run :: "gw_event list \<Rightarrow> gw_sys \<Rightarrow> gw_result option" where
  "gw_run [] s = Some (Inr (s, []))"
| "gw_run (e # es) s =
     bindO (guardO (gw_legal e s) AssertFailed) (\<lambda>_.
     bindO (gw_step e s) (\<lambda>(s, os).
     bindO (gw_run es s) (\<lambda>(s, os'). Some (Inr (s, os @ os')))))"

section \<open>The invariant\<close>

definition gw_inv :: "gw_sys \<Rightarrow> nat list \<Rightarrow> bool" where
  "gw_inv s xs \<longleftrightarrow> table_inv (sys_g s) xs \<and> queue_inv (sys_g s) xs \<and> \<not> freeing (send_queue (sys_g s))
     \<and> ppi_inv (sys_ka s) \<and> ppi_mtu (sys_ka s) = udpgw_mtu (sys_g s) + 2
     \<and> (state (sys_ka s) = PPI_STATE_OPERATION_PENDING \<longrightarrow> length (job_operation_data (sys_ka s)) \<le> ppi_mtu (sys_ka s))
     \<and> (keepalive_sending (sys_g s) \<longleftrightarrow> state (sys_ka s) \<noteq> PPI_STATE_NONE)
     \<and> (state (sys_ka s) = PPI_STATE_BUSY \<longleftrightarrow> packets (send_queue (sys_g s)) (keepalive_qflow (sys_g s)) \<noteq> None)"

definition outs_fit :: "udpgw_client \<Rightarrow> gw_out list \<Rightarrow> bool" where
  "outs_fit g os \<longleftrightarrow> (\<forall>c p. Inl (Submit c p) \<in> set os \<longrightarrow> length p \<le> udpgw_mtu g)"

definition gw_good :: "gw_event \<Rightarrow> gw_sys \<Rightarrow> bool" where
  "gw_good e s \<longleftrightarrow> (\<exists>s' xs os. gw_step e s = Some (Inr (s', os)) \<and> gw_inv s' xs \<and> outs_fit (sys_g s) os)"

lemma subtract_flows: "subtract_loop sub f gs m = Inr m' \<Longrightarrow> flows_list m' = flows_list m"
  by (induction gs arbitrary: m) (auto simp: set_flow_def bindE_Inr_iff split: if_splits)

lemma increment_flows: "increment_sent_flow f a m = Inr m' \<Longrightarrow> flows_list m' = flows_list m"
  by (auto simp: increment_sent_flow_def set_flow_def bindE_Inr_iff dest!: subtract_flows split: if_splits option.splits)

lemma schedule_flows: "schedule m = Inr (m', cs) \<Longrightarrow> flows_list m' = flows_list m"
  by (auto simp: schedule_def set_flow_def Let_def bindE_Inr_iff split: option.splits)

lemma queue_flows:
  "fq_input_handler_send f d m = Inr (m', cs) \<Longrightarrow> flows_list m' = flows_list m"
  "fq_output_handler_done m = Inr (m', cs) \<Longrightarrow> flows_list m' = flows_list m"
  "schedule_job_handler m = Inr (m', cs) \<Longrightarrow> flows_list m' = flows_list m"
  by (auto simp: fq_input_handler_send_def fq_output_handler_done_def schedule_job_handler_def set_flow_def Let_def
      bindE_Inr_iff dest!: schedule_flows increment_flows split: if_splits option.splits)

text \<open>Steps of the client: the keepalive interface stays as it is, and so do the packets of the queue.\<close>

lemma client_good:
  assumes "gw_inv s xs" and "table_inv g' xs'" and "queue_inv g' xs'" and "ug_frame (sys_g s) g'"
  shows "gw_inv (s\<lparr>sys_g := g'\<rparr>) xs'"
  using assms by (auto simp: gw_inv_def ug_frame_def)

lemma submit_calls_fit:
  assumes "submit_calls g xs room r d res cs" and "wf_addr r" and "length d \<le> udp_mtu g" and "udpgw_mtu g = 21 + udp_mtu g"
  shows "outs_fit g (map Inl cs)"
  using assms length_gw_packet[OF assms(2), of _ _ d]
  by (auto simp: submit_calls_def outs_fit_def split: option.splits if_splits) (meson add_left_mono le_trans)+

lemma submit_good:
  assumes inv: "gw_inv s xs" and legal: "gw_legal (GwSubmit l r dns d malloc flow_ok room) s"
  shows "gw_good (GwSubmit l r dns d malloc flow_ok room) s"
proof -
  let ?g = "sys_g s" and ?a = "\<lparr>local_addr = l, remote_addr = r\<rparr>"
  have i: "table_inv ?g xs" "queue_inv ?g xs" "\<not> freeing (send_queue ?g)" using inv by (simp_all add: gw_inv_def)
  have "malloc = None \<or> (\<exists>c. malloc = Some c \<and> c \<notin> insert (keepalive_qflow ?g) (set xs))"
    using legal i(2) by (auto simp: queue_inv_def split: option.splits)
  with SubmitPacket_ok[OF i, of l r d malloc dns room flow_ok] legal obtain g' xs' cs res where
    g': "UdpGwClient_SubmitPacket l r dns d malloc flow_ok room ?g = Some (Inr (g', cs))" "table_inv g' xs'" "queue_inv g' xs'"
    "ug_frame ?g g'" "submit_calls g' xs' room r d res cs"
    by (auto simp: submit_ok_def)
  have "outs_fit g' (map Inl cs)" using g' legal by (intro submit_calls_fit[OF g'(5)]) (simp_all add: table_inv_def ug_frame_def)
  then have "outs_fit ?g (map Inl cs)" using g'(4) by (simp add: outs_fit_def ug_frame_def)
  with g'(1) client_good[OF inv g'(2-4)] show ?thesis by (auto simp: gw_good_def client_result_def)
qed

lemma recv_good:
  assumes inv: "gw_inv s xs" and legal: "gw_legal (GwRecv d) s"
  shows "gw_good (GwRecv d) s"
proof -
  obtain g' xs' cs where g': "recv_interface_handler_send d (sys_g s) = Some (Inr (g', cs))" "table_inv g' xs'"
    "queue_inv g' xs'" "ug_frame (sys_g s) g'" "lru_receive (udp_mtu (sys_g s)) d (view (sys_g s) xs) (view g' xs') cs"
    using recv_ok[of "sys_g s" xs d] inv legal by (auto simp: gw_inv_def)
  have "outs_fit (sys_g s) (map Inl cs)" using g'(5) by (cases) (auto simp: outs_fit_def)
  with g'(1) client_good[OF inv g'(2-4)] show ?thesis by (auto simp: gw_good_def client_result_def)
qed

text \<open>The first job of a connection: its pending flag is off, and its packet is put into the buffer.\<close>

lemma first_job_off:
  assumes "table_inv g xs" and "g' = set_con c ((con g c)\<lparr>first_job := False\<rparr>) g"
  shows "table_inv g' xs" and "queue_inv g xs \<Longrightarrow> queue_inv g' xs" and "ug_frame g g'"
proof -
  have same: "conaddr_of g' x = conaddr_of g x" "conid_of g' x = conid_of g x" for x by (simp_all add: assms(2) set_con_def)
  show "table_inv g' xs"
    using assms(1) conaddr.holds_cong[of "set xs" "conaddr_of g'" "conaddr_of g"]
      conid.holds_cong[of "set xs" "conid_of g'" "conid_of g"]
    unfolding table_inv_def table_conn_def same by (auto simp: assms(2) set_con_def)
qed (auto simp: queue_inv_def ug_frame_def assms(2) set_con_def)

lemma first_job_call:
  assumes "table_inv g xs" and "c \<in> set xs" and "length (first_data (con g c)) \<le> udp_mtu g"
  shows "connection_first_job_handler c room (set_con c ((con g c)\<lparr>first_job := False\<rparr>) g)
    = Inr (set_con c ((con g c)\<lparr>first_job := False\<rparr>) g, if room then [Submit c (gw_packet (UDPGW_CLIENT_FLAG_REBIND OR first_flags (con g c))
        (conid_of g c) (remote_addr (conaddr_of g c)) (first_data (con g c)))] else [])"
  using connection_send_ok[OF first_job_off(1)[OF assms(1) refl, of c] assms(2)] assms(3)
  by (simp add: connection_first_job_handler_def set_con_def)

lemma first_job_good:
  assumes inv: "gw_inv s xs" and legal: "gw_legal (GwFirstJob c room) s"
  shows "gw_good (GwFirstJob c room) s"
proof -
  let ?g = "sys_g s"
  define g' where "g' = set_con c ((con ?g c)\<lparr>first_job := False\<rparr>) ?g"
  have i: "table_inv ?g xs" "queue_inv ?g xs" using inv by (simp_all add: gw_inv_def)
  have c: "c \<in> set xs" using legal i(2) by (auto simp: queue_inv_def)
  have d: "length (first_data (con ?g c)) \<le> udp_mtu ?g" and wf: "wf_addr (remote_addr (conaddr_of ?g c))"
    and m: "udpgw_mtu ?g = 21 + udp_mtu ?g"
    using i(1) c legal by (auto simp: table_inv_def table_conn_def wf_conaddr_def)
  note call = first_job_call[OF i(1) c d, of room, folded g'_def]
  have "gw_inv (s\<lparr>sys_g := g'\<rparr>) xs"
    using client_good[OF inv] first_job_off[OF i(1) g'_def] i(2) by blast
  moreover have "length (gw_packet f j (remote_addr (conaddr_of ?g c)) (first_data (con ?g c))) \<le> udpgw_mtu ?g" for f j
    using length_gw_packet[OF wf, of f j "first_data (con ?g c)"] d m by simp
  ultimately show ?thesis using call
    by (auto simp: gw_good_def client_result_def Let_def g'_def[symmetric] outs_fit_def)
qed

text \<open>Steps of the queue: the flows stay, and the packet of the keepalive flow is where its interface says.\<close>

lemma queue_good:
  assumes inv: "gw_inv s xs" and r: "r = Inr (q, cs)" and q: "fq_inv q" "same_config (send_queue (sys_g s)) q"
    "flows_list q = flows_list (send_queue (sys_g s))"
    and dn: "FlowDone (keepalive_qflow (sys_g s)) \<in> set cs \<Longrightarrow> state (sys_ka s) = PPI_STATE_BUSY
      \<and> packets q (keepalive_qflow (sys_g s)) = None"
    and keep: "FlowDone (keepalive_qflow (sys_g s)) \<notin> set cs
      \<Longrightarrow> packets q (keepalive_qflow (sys_g s)) = packets (send_queue (sys_g s)) (keepalive_qflow (sys_g s))"
  shows "\<exists>s'. queue_result s r = Inr (s', map Inr cs) \<and> gw_inv s' xs"
proof -
  let ?ka = "keepalive_qflow (sys_g s)"
  have t: "table_inv ((sys_g s)\<lparr>send_queue := q\<rparr>) xs"
    by (rule table_inv_cong[of "sys_g s"]) (use inv in \<open>simp_all add: gw_inv_def table_inv_def\<close>)
  show ?thesis
  proof (cases "FlowDone ?ka \<in> set cs")
    case True
    with dn[OF True] inv r t q show ?thesis
      by (auto simp: queue_result_def PacketPassInterface_Done_def gw_inv_def ppi_inv_def queue_inv_def same_config_def)
  next
    case False
    with keep[OF False] inv r t q show ?thesis
      by (auto simp: queue_result_def gw_inv_def queue_inv_def same_config_def)
  qed
qed

lemma outs_fit_queue [simp]: "outs_fit g (map Inr cs)" "outs_fit g []"
  by (auto simp: outs_fit_def)

lemma no_report: "one_send m m' cs \<Longrightarrow> FlowDone f \<notin> set cs"
  by (auto simp: one_send_def)

lemma send_good:
  assumes inv: "gw_inv s xs" and legal: "gw_legal (GwSend c d) s"
  shows "gw_good (GwSend c d) s"
proof -
  let ?m = "send_queue (sys_g s)"
  have m: "fq_inv ?m" "\<not> freeing ?m" using inv by (auto simp: gw_inv_def queue_inv_def)
  have c: "c \<in> set (flows_list ?m)" "sending_flow ?m \<noteq> Some c" "\<not> is_queued (fq_flow ?m c)"
    using legal m(1) by (auto simp: packets_def fq_inv_def fq_tree_def split: if_splits)
  obtain q cs where r: "fq_input_handler_send c d ?m = Inr (q, cs)" "fq_inv q" "same_config ?m q"
    "packets q = (packets ?m)(c \<mapsto> d)" "one_send ?m q cs"
    using input_step[OF m(1) c(1,3,2), of d] legal m(2) by (auto simp: fq_good_def)
  from queue_good[OF inv r(1-3) queue_flows(1)[OF r(1)]] no_report[OF r(5)] r(4) legal
  show ?thesis by (auto simp: gw_good_def)
qed

lemma job_good:
  assumes inv: "gw_inv s xs" and legal: "gw_legal GwJob s"
  shows "gw_good GwJob s"
proof -
  let ?m = "send_queue (sys_g s)"
  have m: "fq_inv ?m" "\<not> freeing ?m" using inv by (auto simp: gw_inv_def queue_inv_def)
  obtain q cs where r: "schedule_job_handler (?m\<lparr>schedule_job := False\<rparr>) = Inr (q, cs)" "fq_inv q" "same_config ?m q"
    "packets q = packets ?m" "one_send ?m q cs"
    using job_step[OF m(1) _ m(2)] legal by (auto simp: fq_good_def)
  have "flows_list q = flows_list ?m" using queue_flows(3)[OF r(1)] by simp
  from queue_good[OF inv r(1-3) this] no_report[OF r(5)] r(4)
  show ?thesis by (auto simp: gw_good_def)
qed

lemma out_done_good:
  assumes inv: "gw_inv s xs" and legal: "gw_legal GwOutDone s"
  shows "gw_good GwOutDone s"
proof -
  let ?m = "send_queue (sys_g s)"
  have m: "fq_inv ?m" "\<not> freeing ?m" using inv by (auto simp: gw_inv_def queue_inv_def)
  obtain f where f: "sending_flow ?m = Some f" using legal by auto
  obtain q cs where r: "fq_output_handler_done ?m = Inr (q, cs)" "fq_inv q" "same_config ?m q"
    "packets q = (packets ?m)(f := None)" "\<And>h. FlowDone h \<in> set cs \<longleftrightarrow> h = f"
    using done_step[OF m(1) f m(2)] by fastforce
  have "packets ?m f \<noteq> None" using f by (simp add: packets_def)
  then have "f = keepalive_qflow (sys_g s) \<Longrightarrow> state (sys_ka s) = PPI_STATE_BUSY" using inv by (auto simp: gw_inv_def)
  with queue_good[OF inv r(1-3) queue_flows(2)[OF r(1)]] r(4,5)
  show ?thesis by (auto simp: gw_good_def)
qed

lemma monitor_good:
  assumes inv: "gw_inv s xs"
  shows "gw_good GwMonitor s"
proof (cases "keepalive_sending (sys_g s)")
  case True
  with inv show ?thesis by (auto simp: gw_good_def monitor_step_def send_monitor_handler_def)
next
  case False
  let ?g = "(sys_g s)\<lparr>keepalive_sending := True\<rparr>"
  have t: "table_inv ?g xs" by (rule table_inv_cong[of "sys_g s"]) (use inv in \<open>simp_all add: gw_inv_def table_inv_def\<close>)
  have "state (sys_ka s) = PPI_STATE_NONE" "handler_done (sys_ka s)" "ppi_mtu (sys_ka s) = udpgw_mtu (sys_g s) + 2"
    "udpgw_mtu (sys_g s) = 21 + udp_mtu (sys_g s)"
    using inv False by (auto simp: gw_inv_def ppi_inv_def table_inv_def)
  with False inv t show ?thesis
    by (auto simp: gw_good_def monitor_step_def send_monitor_handler_def PacketPassInterface_Sender_Send_def gw_inv_def
        ppi_inv_def queue_inv_def outs_fit_def)
qed

lemma keepalive_job_good:
  assumes inv: "gw_inv s xs" and legal: "gw_legal GwKeepaliveJob s"
  shows "gw_good GwKeepaliveJob s"
proof -
  let ?m = "send_queue (sys_g s)" and ?ka = "keepalive_qflow (sys_g s)" and ?i = "sys_ka s"
  have st: "state ?i = PPI_STATE_OPERATION_PENDING" using inv legal by (simp add: gw_inv_def ppi_inv_def)
  let ?s = "s\<lparr>sys_ka := ?i\<lparr>job_operation := False, state := PPI_STATE_BUSY\<rparr>\<rparr>" and ?d = "job_operation_data ?i"
  have m: "fq_inv ?m" "\<not> freeing ?m" "?ka \<in> set (flows_list ?m)" "packets ?m ?ka = None" "length ?d \<le> output_mtu ?m"
    using inv st by (auto simp: gw_inv_def queue_inv_def)
  have c: "sending_flow ?m \<noteq> Some ?ka" "\<not> is_queued (fq_flow ?m ?ka)"
    using m(1,3,4) by (auto simp: packets_def fq_inv_def fq_tree_def split: if_splits)
  obtain q cs where r: "fq_input_handler_send ?ka ?d ?m = Inr (q, cs)" "fq_inv q" "same_config ?m q"
    "packets q = (packets ?m)(?ka \<mapsto> ?d)" "one_send ?m q cs"
    using input_step[OF m(1,3) c(2,1) m(5,2)] by (auto simp: fq_good_def)
  let ?s' = "?s\<lparr>sys_g := (sys_g s)\<lparr>send_queue := q\<rparr>\<rparr>"
  have t: "table_inv ((sys_g s)\<lparr>send_queue := q\<rparr>) xs"
    by (rule table_inv_cong[of "sys_g s"]) (use inv in \<open>simp_all add: gw_inv_def table_inv_def\<close>)
  have "gw_inv ?s' xs" using inv t r(2-4) queue_flows(1)[OF r(1)] st
    by (auto simp: gw_inv_def ppi_inv_def queue_inv_def same_config_def)
  moreover have "gw_step GwKeepaliveJob s = Some (Inr (?s', map Inr cs))"
    using st r(1) no_report[OF r(5)]
    by (simp add: keepalive_job_step_def PacketPassInterface_job_operation_def queue_result_def)
  ultimately show ?thesis unfolding gw_good_def by (metis outs_fit_queue(1))
qed

lemma keepalive_done_good:
  assumes inv: "gw_inv s xs" and legal: "gw_legal GwKeepaliveDone s"
  shows "gw_good GwKeepaliveDone s"
proof -
  have st: "state (sys_ka s) = PPI_STATE_DONE_PENDING" "keepalive_sending (sys_g s)"
    using inv legal by (auto simp: gw_inv_def ppi_inv_def)
  let ?g = "(sys_g s)\<lparr>keepalive_sending := False\<rparr>"
  have t: "table_inv ?g xs" by (rule table_inv_cong[of "sys_g s"]) (use inv in \<open>simp_all add: gw_inv_def table_inv_def\<close>)
  have "gw_inv (s\<lparr>sys_g := ?g, sys_ka := (sys_ka s)\<lparr>job_done := False, state := PPI_STATE_NONE\<rparr>\<rparr>) xs"
    using inv t st by (auto simp: gw_inv_def ppi_inv_def queue_inv_def)
  moreover have "gw_step GwKeepaliveDone s
      = Some (Inr (s\<lparr>sys_g := ?g, sys_ka := (sys_ka s)\<lparr>job_done := False, state := PPI_STATE_NONE\<rparr>\<rparr>, []))"
    using st by (simp add: keepalive_done_step_def PacketPassInterface_job_done_def keepalive_if_handler_done_def)
  ultimately show ?thesis unfolding gw_good_def by (metis outs_fit_queue(2))
qed

text \<open>The server comes and goes: the rest of the client stays.\<close>

lemma server_inv:
  assumes "gw_inv s xs"
  shows "gw_inv (s\<lparr>sys_g := (sys_g s)\<lparr>have_server := b\<rparr>\<rparr>) xs"
proof -
  have "table_inv ((sys_g s)\<lparr>have_server := b\<rparr>) xs"
    by (rule table_inv_cong[of "sys_g s"]) (use assms in \<open>simp_all add: gw_inv_def table_inv_def\<close>)
  with assms show ?thesis by (auto simp: gw_inv_def queue_inv_def)
qed

lemma server_good:
  assumes "gw_inv s xs"
  shows "gw_legal (GwConnect ok) s \<Longrightarrow> gw_good (GwConnect ok) s" and "gw_legal GwDisconnect s \<Longrightarrow> gw_good GwDisconnect s"
    and "gw_legal GwDecoderError s \<Longrightarrow> gw_good GwDecoderError s"
  using assms server_inv[OF assms, of True] server_inv[OF assms, of False]
  by (auto simp: gw_good_def UdpGwClient_ConnectServer_def UdpGwClient_DisconnectServer_def decoder_handler_error_def
      client_result_def outs_fit_def)

lemma legal_good: "gw_inv s xs \<Longrightarrow> gw_legal e s \<Longrightarrow> gw_good e s"
  by (cases e) (simp_all only: submit_good recv_good first_job_good monitor_good keepalive_job_good keepalive_done_good
      server_good send_good out_done_good job_good)

lemma gw_reachable_inv: "gw_reachable s \<Longrightarrow> \<exists>xs. gw_inv s xs"
proof (induction rule: gw_reachable.induct)
  case (start mem fmem ka mtu max_con sbs g imem i)
  then have "0 \<le> udpgw_compute_mtu mtu" "udpgw_compute_mtu mtu \<le> 65535" "max_con > 0" "sbs > 0"
    by (auto simp: UdpGwClient_Init_def bindE_Inr_iff guardE_def split: if_splits)
  from UdpGwClient_Init_ok[OF this, of mem fmem ka] start setup_inv[OF start(2)]
  have "gw_inv \<lparr>sys_g = g, sys_ka = i\<rparr> []" by (auto simp: gw_inv_def queue_inv_def)
  then show ?case by blast
next
  case (step s e s' os)
  then obtain xs where "gw_inv s xs" by blast
  with legal_good[of s xs e] step(2,3) show ?case by (auto simp: gw_good_def)
qed

lemma gw_run_reachable: "gw_run es s = Some (Inr (s', os)) \<Longrightarrow> gw_reachable s \<Longrightarrow> gw_reachable s'"
proof (induction es arbitrary: s os)
  case (Cons e es)
  then obtain s1 os1 os2 where "gw_legal e s" "gw_step e s = Some (Inr (s1, os1))" "gw_run es s1 = Some (Inr (s', os2))"
    by (auto simp: bindO_def guardO_def guardE_def split: if_splits option.splits sum.splits prod.splits)
  with Cons.IH[of s1 os2] Cons.prems(2) show ?case by (blast intro: gw_reachable.step)
qed simp

text \<open>A packet of a new pair of addresses, with room and memory for its connection.\<close>

lemma new_connection_step:
  assumes inv: "gw_inv s xs" and legal: "gw_legal (GwSubmit l r dns d (Some c) True room) s"
    and none: "find_connection_by_conaddr \<lparr>local_addr = l, remote_addr = r\<rparr> (sys_g s) = Some (Inr None)"
    and len: "num_connections (sys_g s) < max_connections (sys_g s)"
  obtains g' where "UdpGwClient_SubmitPacket l r dns d (Some c) True room (sys_g s) = Some (Inr (g', []))"
    "table_inv g' (xs @ [c])" "queue_inv g' (xs @ [c])" "ug_frame (sys_g s) g'"
    "conaddr_of g' c = \<lparr>local_addr = l, remote_addr = r\<rparr>" "conid_of g' c \<notin> conid_of (sys_g s) ` set xs"
    "first_job (con g' c)" "first_data (con g' c) = d" "first_flags (con g' c) = dns_flags dns"
proof -
  let ?g = "sys_g s" and ?a = "\<lparr>local_addr = l, remote_addr = r\<rparr>"
  have i: "table_inv ?g xs" "queue_inv ?g xs" "\<not> freeing (send_queue ?g)" "num_connections ?g = length xs"
    using inv by (auto simp: gw_inv_def table_inv_def)
  have a: "wf_conaddr ?a" "length d \<le> udp_mtu ?g" "c \<notin> insert (keepalive_qflow ?g) (set xs)"
    using legal i(2) by (auto simp: wf_conaddr_def queue_inv_def)
  have out: "?a \<notin> conaddr_of ?g ` set xs" by (rule find_conaddr[OF i(1) a(1)]) (use none in auto)
  from connection_init_ok[OF i(1-3) _ a(1) out a(2,3), of "dns_flags dns" True] len i(4) obtain g' where
    g': "connection_init ?a (dns_flags dns) d (Some c) True ?g = Some (Inr g')" "ug_frame ?g g'" "table_inv g' (xs @ [c])"
    "queue_inv g' (xs @ [c])" "conaddr_of g' c = ?a" "conid_of g' c \<notin> conid_of ?g ` set xs"
    "first_job (con g' c)" "first_data (con g' c) = d" "first_flags (con g' c) = dns_flags dns" by (auto simp: Let_def)
  have "BAddr_type l \<in> {1, 2}" "BAddr_type r \<in> {1, 2}" using a(1) by (cases l; cases r; simp add: wf_conaddr_def wf_addr_def)+
  then have "UdpGwClient_SubmitPacket l r dns d (Some c) True room ?g = Some (Inr (g', []))"
    using none len g'(1) a(2) by (simp add: UdpGwClient_SubmitPacket_def Let_def dns_flags_def)
  with g' show thesis by (intro that) simp_all
qed

text \<open>A client for concrete histories, with arbitrary memory before its start.\<close>

definition gw_mem :: udpgw_client where
  "gw_mem = \<lparr>udp_mtu = 0, max_connections = 0, udpgw_mtu = 0,
     by_conaddr = \<lparr>bv_root = Some 9, bv_node = \<lambda>_. \<lparr>bn_parent = None, bn_link = \<lambda>_. None, bn_balance = 0\<rparr>\<rparr>,
     by_conid = \<lparr>bv_root = Some 9, bv_node = \<lambda>_. \<lparr>bn_parent = None, bn_link = \<lambda>_. None, bn_balance = 0\<rparr>\<rparr>,
     connections_list = \<lparr>ll_first = Some 9, ll_last = None, ll_node = \<lambda>_. \<lparr>ll_p = None, ll_n = None\<rparr>\<rparr>,
     con = \<lambda>_. \<lparr>con_conaddr = \<lparr>local_addr = BAddrNone, remote_addr = BAddrNone\<rparr>, first_flags = 0, first_data = [],
       con_conid = 7, first_job = False\<rparr>,
     num_connections = 5, next_conid = 5,
     send_queue = \<lparr>fq_flow = \<lambda>_. \<lparr>fl_time = 0, is_queued = False, fl_data = [], handler_busy = False\<rparr>, flows_list = [],
       queued_tree = [], sending_flow = None, sending_len = 0, previous_flow = None, freeing = False, schedule_job = False,
       packet_weight = 1, output_mtu = 0, use_cancel = False\<rparr>,
     keepalive_qflow = 0, keepalive_sending = True, have_server = True\<rparr>"

definition gw_start :: "nat \<Rightarrow> nat \<Rightarrow> gw_sys" where
  "gw_start mtu max_con =
     (case UdpGwClient_Init gw_mem (fq_flow (send_queue gw_mem)) 0 mtu max_con 100 of
        Inr (Some g) \<Rightarrow> \<lparr>sys_g = g,
          sys_ka = \<lparr>ppi_mtu = mtu + 23, handler_requestcancel = False, handler_done = True, job_operation = False,
            job_operation_data = [], job_requestcancel = False, job_done = False, state = PPI_STATE_NONE,
            cancel_requested = False\<rparr>\<rparr>)"

lemma gw_start_reachable:
  assumes "mtu \<le> 65514" and "max_con > 0"
  shows "gw_reachable (gw_start mtu max_con)"
proof -
  let ?i = "\<lparr>ppi_mtu = mtu + 23, handler_requestcancel = False, handler_done = True, job_operation = False,
    job_operation_data = [], job_requestcancel = False, job_done = False, state = PPI_STATE_NONE, cancel_requested = False\<rparr>"
  have "0 \<le> udpgw_compute_mtu mtu" "udpgw_compute_mtu mtu \<le> 65535"
    using assms(1) by (auto simp: udpgw_compute_mtu_def Let_def)
  from UdpGwClient_Init_ok[OF this assms(2), of 100] obtain g where
    g: "UdpGwClient_Init gw_mem (fq_flow (send_queue gw_mem)) 0 mtu max_con 100 = Inr (Some g)" "table_inv g []" "queue_inv g []"
    "udp_mtu g = mtu" by force
  then have "output_mtu (send_queue g) = mtu + 23" by (simp add: table_inv_def queue_inv_def)
  then have "ppi_setup ?i (output_mtu (send_queue g)) False = Inr ?i" by (simp add: ppi_setup_def ppi_defs Let_def)
  from gw_reachable.start[OF g(1) this] show ?thesis by (simp add: gw_start_def g(1))
qed

lemma gw_start_simps:
  assumes "mtu \<le> 65514" and "max_con > 0"
  shows "udp_mtu (sys_g (gw_start mtu max_con)) = mtu" and "udpgw_mtu (sys_g (gw_start mtu max_con)) = 21 + mtu"
    and "flows_list (send_queue (sys_g (gw_start mtu max_con))) = [0]"
    and "num_connections (sys_g (gw_start mtu max_con)) = 0" and "\<not> have_server (sys_g (gw_start mtu max_con))"
    and "ll_rep (connections_list (sys_g (gw_start mtu max_con))) []"
    and "gw_inv (gw_start mtu max_con) []" and "max_connections (sys_g (gw_start mtu max_con)) = min max_con 65536"
proof -
  have "0 \<le> udpgw_compute_mtu mtu" "udpgw_compute_mtu mtu \<le> 65535"
    using assms(1) by (auto simp: udpgw_compute_mtu_def Let_def)
  from UdpGwClient_Init_ok[OF this assms(2), of 100 gw_mem "fq_flow (send_queue gw_mem)" 0] obtain g where
    g: "UdpGwClient_Init gw_mem (fq_flow (send_queue gw_mem)) 0 mtu max_con 100 = Inr (Some g)" "table_inv g []" "queue_inv g []"
    "udp_mtu g = mtu" "\<not> have_server g" "max_connections g = min max_con 65536" by auto
  have "flows_list (send_queue g) = [0]"
    using g(1) by (auto simp: UdpGwClient_Init_def PacketPassFairQueue_Init_def PacketPassFairQueueFlow_Init_def set_flow_def
      Let_def bindE_Inr_iff split: if_splits)
  with g show "udp_mtu (sys_g (gw_start mtu max_con)) = mtu" "udpgw_mtu (sys_g (gw_start mtu max_con)) = 21 + mtu"
    "flows_list (send_queue (sys_g (gw_start mtu max_con))) = [0]"
    "num_connections (sys_g (gw_start mtu max_con)) = 0" "\<not> have_server (sys_g (gw_start mtu max_con))"
    "ll_rep (connections_list (sys_g (gw_start mtu max_con))) []"
    "max_connections (sys_g (gw_start mtu max_con)) = min max_con 65536"
    by (simp_all add: gw_start_def table_inv_def)
  obtain ys where "gw_inv (gw_start mtu max_con) ys" using gw_reachable_inv[OF gw_start_reachable[OF assms]] by blast
  moreover from this g(1,2) have "ys = []" by (auto simp: gw_inv_def table_inv_def gw_start_def)
  ultimately show "gw_inv (gw_start mtu max_con) []" by simp
qed

text \<open>A list has one sequence of nodes.\<close>

lemma chain_fun: "chain l p xs None \<Longrightarrow> chain l p ys None \<Longrightarrow> first_or xs None = first_or ys None \<Longrightarrow> xs = ys"
proof (induction xs arbitrary: p ys)
  case Nil
  then show ?case by (cases ys) simp_all
next
  case (Cons x xs)
  then obtain zs where ys: "ys = x # zs" by (cases ys) auto
  with Cons.prems Cons.IH[of "Some x" zs] show ?case by simp
qed

lemma ll_rep_fun: "ll_rep l xs \<Longrightarrow> ll_rep l ys \<Longrightarrow> xs = ys"
  by (auto simp: ll_rep_def intro: chain_fun)

lemma find_unique:
  assumes "c \<in> set xs" and "P c" and "\<And>x. x \<in> set xs \<Longrightarrow> P x \<Longrightarrow> x = c"
  shows "List.find P xs = Some c"
proof (cases "List.find P xs")
  case None
  with assms(1,2) show ?thesis by (auto simp: find_None_iff)
next
  case (Some x)
  then have "x \<in> set xs" "P x" by (auto simp: find_Some_iff)
  with assms(3) Some show ?thesis by simp
qed

text \<open>
  A reply of the gateway with the identifier and the remote address of a table entry, encoded as the client
  encodes its own packets, is delivered to the local address of that entry with the data it carries.
\<close>

lemma recv_echo:
  assumes t: "table_inv g xs" and "have_server g" and c: "c \<in> set xs"
    and "length d \<le> udp_mtu g" and "flags AND UDPGW_CLIENT_FLAG_IPV6 = 0"
  shows "length (gw_packet flags (conid_of g c) (remote_addr (conaddr_of g c)) d) \<le> udpgw_mtu g"
    and "recv_interface_handler_send (gw_packet flags (conid_of g c) (remote_addr (conaddr_of g c)) d) g
      = Some (Inr (touch_connection c g, [Received (local_addr (conaddr_of g c)) (remote_addr (conaddr_of g c)) d]))"
proof -
  let ?r = "remote_addr (conaddr_of g c)"
  have wf: "wf_addr ?r" using t c by (auto simp: table_inv_def table_conn_def wf_conaddr_def)
  show len: "length (gw_packet flags (conid_of g c) ?r d) \<le> udpgw_mtu g"
    using length_gw_packet[OF wf, of flags "conid_of g c" d] assms(4) t by (simp add: table_inv_def)
  show "recv_interface_handler_send (gw_packet flags (conid_of g c) ?r d) g
      = Some (Inr (touch_connection c g, [Received (local_addr (conaddr_of g c)) ?r d]))"
    using recv_call(2)[OF assms(2) len parse_gw_packet[OF wf assms(5)]] assms(4) find_conid_some[OF t c]
      CompareOrder_eq_0[OF wf wf] by simp
qed

section \<open>Properties\<close>

text \<open>
  C11. UDP gateway client: whatever packets, jobs, connections to the gateway and failures of the memory come in
  which order, no assertion of the client, its trees, its list, its queue or the keepalive interface
  fails, every search and loop ends, and no packet is longer than its buffer.
\<close>

theorem udpgw_safe:
  assumes "gw_reachable s" and "gw_legal e s"
  shows "\<exists>s' os. gw_step e s = Some (Inr (s', os)) \<and> (\<forall>c p. Inl (Submit c p) \<in> set os \<longrightarrow> length p \<le> udpgw_mtu (sys_g s))"
  using gw_reachable_inv[OF assms(1)] legal_good[OF _ assms(2)] unfolding gw_good_def outs_fit_def by blast

theorem udpgw_safe_witness:
  "\<exists>s' os. gw_step (GwSubmit (BAddrIPv4 1 2) (BAddrIPv4 3 4) True [5] (Some 8) True True) (gw_start 10 1) = Some (Inr (s', os))"
proof -
  have "gw_legal (GwSubmit (BAddrIPv4 1 2) (BAddrIPv4 3 4) True [5] (Some 8) True True) (gw_start 10 1)"
    by (simp add: gw_start_simps wf_addr_def)
  moreover have "gw_reachable (gw_start 10 1)" by (rule gw_start_reachable) simp_all
  ultimately show ?thesis using udpgw_safe by blast
qed

text \<open>
  C25. Table of the UDP gateway client: the list holds every connection once, there are as many as are counted
  and not more than allowed, no two have the same identifier or the same pair of addresses, the identifiers are below
  the bound, and both searches find exactly the connections of the list.
\<close>

theorem udpgw_table:
  assumes "gw_reachable s"
  shows "\<exists>xs. ll_rep (connections_list (sys_g s)) xs \<and> distinct xs \<and> num_connections (sys_g s) = length xs
    \<and> length xs \<le> max_connections (sys_g s) \<and> distinct (map (conid_of (sys_g s)) xs) \<and> distinct (map (conaddr_of (sys_g s)) xs)
    \<and> (\<forall>c \<in> set xs. unat (conid_of (sys_g s) c) < max_connections (sys_g s) \<and> wf_conaddr (conaddr_of (sys_g s) c))
    \<and> (\<forall>i. find_connection_by_conid i (sys_g s) = Some (Inr (List.find (\<lambda>c. conid_of (sys_g s) c = i) xs)))
    \<and> (\<forall>a. wf_conaddr a \<longrightarrow> find_connection_by_conaddr a (sys_g s) = Some (Inr (List.find (\<lambda>c. conaddr_of (sys_g s) c = a) xs)))"
proof -
  let ?g = "sys_g s"
  obtain xs where t: "table_inv ?g xs" using gw_reachable_inv[OF assms] by (auto simp: gw_inv_def)
  have id: "find_connection_by_conid i ?g = Some (Inr (List.find (\<lambda>c. conid_of ?g c = i) xs))" for i
  proof (rule find_conid[OF t, of i])
    fix c assume c: "c \<in> set xs" "conid_of ?g c = i" "find_connection_by_conid i ?g = Some (Inr (Some c))"
    have "List.find (\<lambda>c. conid_of ?g c = i) xs = Some c"
      by (rule find_unique) (use c table_ids_distinct[OF t] in auto)
    with c(3) show ?thesis by simp
  qed (auto simp: find_None_iff2)
  have addr: "find_connection_by_conaddr a ?g = Some (Inr (List.find (\<lambda>c. conaddr_of ?g c = a) xs))" if "wf_conaddr a" for a
  proof (rule find_conaddr[OF t that])
    fix c assume c: "c \<in> set xs" "conaddr_of ?g c = a" "find_connection_by_conaddr a ?g = Some (Inr (Some c))"
    have "List.find (\<lambda>c. conaddr_of ?g c = a) xs = Some c"
      by (rule find_unique) (use c table_addrs_distinct[OF t] in auto)
    with c(3) show ?thesis by simp
  qed (auto simp: find_None_iff2)
  have "distinct (map (conid_of ?g) xs)" "distinct (map (conaddr_of ?g) xs)"
    using table_distinct[OF t] table_ids_distinct[OF t] table_addrs_distinct[OF t]
    by (auto simp: distinct_map inj_on_def)
  with t id addr table_distinct[OF t] show ?thesis by (auto simp: table_inv_def table_conn_def)
qed

theorem udpgw_table_witness: "\<exists>xs. ll_rep (connections_list (sys_g (gw_start 10 1))) xs \<and> length xs = 0"
proof -
  obtain xs where "ll_rep (connections_list (sys_g (gw_start 10 1))) xs" "num_connections (sys_g (gw_start 10 1)) = length xs"
    using udpgw_table[OF gw_start_reachable[of 10 1]] by auto
  then show ?thesis by (auto simp: gw_start_simps)
qed



text \<open>
  C19. Address translation, incoming: a packet of the gateway is delivered if and only if it is well formed, its data
  is within the MTU, and its identifier and remote address are those of an entry of the table; it goes to the local
  address of that entry, with its data unchanged, and the entry becomes the one used last. Any other packet is
  dropped and leaves the table as it is.
\<close>

theorem udpgw_receive_refines:
  assumes "gw_reachable s" and "gw_legal (GwRecv p) s"
  shows "\<exists>xs s' xs' cs. ll_rep (connections_list (sys_g s)) xs
    \<and> gw_step (GwRecv p) s = Some (Inr (s', map Inl cs)) \<and> ll_rep (connections_list (sys_g s')) xs'
    \<and> lru_receive (udp_mtu (sys_g s)) p (view (sys_g s) xs) (view (sys_g s') xs') cs"
proof -
  obtain xs where i: "table_inv (sys_g s) xs" "queue_inv (sys_g s) xs"
    using gw_reachable_inv[OF assms(1)] by (auto simp: gw_inv_def)
  obtain g' xs' cs where "recv_interface_handler_send p (sys_g s) = Some (Inr (g', cs))" "table_inv g' xs'"
    "lru_receive (udp_mtu (sys_g s)) p (view (sys_g s) xs) (view g' xs') cs"
    using recv_ok[OF i, of p] assms(2) by auto
  with i(1) show ?thesis
    by (intro exI[of _ xs] exI[of _ "s\<lparr>sys_g := g'\<rparr>"] exI[of _ xs'] exI[of _ cs])
      (simp add: client_result_def table_inv_def)
qed

theorem udpgw_receive_refines_witness:
  "\<exists>s s' cs. gw_run [GwConnect True] (gw_start 10 1) = Some (Inr (s, [])) \<and> gw_step (GwRecv [0, 7, 0, 1, 2, 3, 4, 5, 6, 9]) s
    = Some (Inr (s', map Inl cs))"
proof -
  let ?p = "[0, 7, 0, 1, 2, 3, 4, 5, 6, 9] :: byte list"
  let ?s = "(gw_start 10 1)\<lparr>sys_g := (sys_g (gw_start 10 1))\<lparr>have_server := True\<rparr>\<rparr>"
  have s: "gw_run [GwConnect True] (gw_start 10 1) = Some (Inr (?s, []))" "gw_legal (GwRecv ?p) ?s"
    by (simp_all add: gw_start_simps UdpGwClient_ConnectServer_def)
  have "gw_reachable ?s" by (rule gw_run_reachable[OF s(1) gw_start_reachable]) simp_all
  from udpgw_receive_refines[OF this s(2)] s(1) show ?thesis by blast
qed

text \<open>
  First packet of a new connection: with a new pair of addresses, room in the table and memory for the connection,
  nothing is sent at once; the job that is then pending puts the packet into the buffer, under the new identifier
  and marked so that the gateway starts the identifier anew.
\<close>

theorem udpgw_first_packet:
  assumes "gw_reachable s" and "gw_legal (GwSubmit l r dns d (Some c) True room) s"
    and "find_connection_by_conaddr \<lparr>local_addr = l, remote_addr = r\<rparr> (sys_g s) = Some (Inr None)"
    and "num_connections (sys_g s) < max_connections (sys_g s)"
  shows "\<exists>s' i s''. gw_step (GwSubmit l r dns d (Some c) True room) s = Some (Inr (s', []))
    \<and> find_connection_by_conid i (sys_g s) = Some (Inr None) \<and> gw_legal (GwFirstJob c True) s'
    \<and> gw_step (GwFirstJob c True) s'
        = Some (Inr (s'', [Inl (Submit c (gw_packet (UDPGW_CLIENT_FLAG_REBIND OR dns_flags dns) i r d))]))"
proof -
  obtain xs where inv: "gw_inv s xs" using gw_reachable_inv[OF assms(1)] by blast
  obtain g' where g': "UdpGwClient_SubmitPacket l r dns d (Some c) True room (sys_g s) = Some (Inr (g', []))"
    "table_inv g' (xs @ [c])" "queue_inv g' (xs @ [c])" "ug_frame (sys_g s) g'"
    "conaddr_of g' c = \<lparr>local_addr = l, remote_addr = r\<rparr>" "conid_of g' c \<notin> conid_of (sys_g s) ` set xs"
    "first_job (con g' c)" "first_data (con g' c) = d" "first_flags (con g' c) = dns_flags dns"
    by (rule new_connection_step[OF inv assms(2-4)]) blast
  let ?i = "conid_of g' c"
  have "table_inv (sys_g s) xs" using inv by (simp add: gw_inv_def)
  then have "find_connection_by_conid ?i (sys_g s) = Some (Inr None)"
    using g'(6) find_conid_none by (auto simp: table_inv_def)
  moreover have "c \<in> set (flows_list (send_queue g'))" "c \<noteq> keepalive_qflow g'" using g'(3) by (auto simp: queue_inv_def)
  moreover have "connection_first_job_handler c True (set_con c ((con g' c)\<lparr>first_job := False\<rparr>) g')
      = Inr (set_con c ((con g' c)\<lparr>first_job := False\<rparr>) g', [Submit c (gw_packet (UDPGW_CLIENT_FLAG_REBIND OR dns_flags dns) ?i r d)])"
    using first_job_call[OF g'(2), of c True] g'(4,5,8,9) assms(2) by (simp add: ug_frame_def)
  ultimately show ?thesis using g'(1,7)
    by (intro exI[of _ "s\<lparr>sys_g := g'\<rparr>"] exI[of _ ?i] exI) (simp add: client_result_def Let_def)
qed

theorem udpgw_first_packet_witness:
  "\<exists>s' i s''. gw_step (GwSubmit (BAddrIPv4 1 2) (BAddrIPv4 3 4) True [5] (Some 8) True True) (gw_start 10 1) = Some (Inr (s', []))
    \<and> gw_step (GwFirstJob 8 True) s' = Some (Inr (s'', [Inl (Submit 8 (gw_packet (UDPGW_CLIENT_FLAG_REBIND OR dns_flags True) i
        (BAddrIPv4 3 4) [5]))]))"
proof -
  let ?s = "gw_start 10 1" and ?a = "\<lparr>local_addr = BAddrIPv4 1 2, remote_addr = BAddrIPv4 3 4\<rparr>"
  have "gw_inv ?s []" by (rule gw_start_simps) simp_all
  then have "find_connection_by_conaddr ?a (sys_g ?s) = Some (Inr None)"
    by (rule_tac find_conaddr[of "sys_g ?s" "[]" ?a]) (auto simp: gw_inv_def wf_conaddr_def wf_addr_def)
  moreover have "gw_legal (GwSubmit (BAddrIPv4 1 2) (BAddrIPv4 3 4) True [5] (Some 8) True True) ?s"
    "num_connections (sys_g ?s) < max_connections (sys_g ?s)" by (simp_all add: gw_start_simps wf_addr_def)
  moreover have "gw_reachable ?s" by (rule gw_start_reachable) simp_all
  ultimately show ?thesis using udpgw_first_packet[of ?s "BAddrIPv4 1 2" "BAddrIPv4 3 4" True "[5]" 8 True] by blast
qed

text \<open>
  End of the UDP gateway client: from every state it can be freed. The loop over the connections ends, no
  assertion fails although a packet may be in transmission, and the queue is left without flows, packets and jobs.
\<close>

theorem udpgw_free:
  assumes "gw_reachable s"
  shows "\<exists>q. UdpGwClient_Free (sys_g s) = Some (Inr q) \<and> flows_list q = [] \<and> queued_tree q = [] \<and> sending_flow q = None
    \<and> \<not> schedule_job q"
  using gw_reachable_inv[OF assms] UdpGwClient_Free_ok by (auto simp: gw_inv_def)

theorem udpgw_free_witness: "\<exists>q. UdpGwClient_Free (sys_g (gw_start 10 1)) = Some (Inr q) \<and> flows_list q = []"
proof -
  have "gw_reachable (gw_start 10 1)" by (rule gw_start_reachable) simp_all
  from udpgw_free[OF this] show ?thesis by blast
qed

end
