(* ===== verification/BSocksClient.thy ===== *)
theory BSocksClient
  imports C_Prelude
begin

text \<open>
  The SOCKS5 client of \<^verbatim>\<open>tun2socks-iOS/socksclient/BSocksClient.c\<close>, which opens the connection to
  the local proxy for every TCP connection taken from the tunnel.

  \<^item> \<open>state\<close> has the values of the \<open>STATE_\<close> constants; \<open>io\<close> and \<open>con_open\<close> record which of the
    connection objects are initialised, so a double initialisation or a double free is a fault.
  \<^item> \<open>buffer\<close> is the heap block of the same name.  \<open>al n\<close> is the block \<open>BRealloc\<close> finds for \<open>n\<close>
    bytes, with its previous contents, or \<open>None\<close>.
  \<^item> A handler returns the object with the calls it makes: starting to send, starting to receive and
    the event it reports to the user.  The system below completes these operations in any order.
  \<^item> Addresses and ports are kept in network byte order, as in \<open>BAddr\<close>; the sizes of the protocol
    structs are those of \<^verbatim>\<open>misc/socks_proto.h\<close>.
\<close>

datatype socks_state =
    CONNECTING | SENDING_HELLO | SENT_HELLO | SENDING_PASSWORD | SENT_PASSWORD
  | SENDING_REQUEST | SENT_REQUEST | RECEIVED_REPLY_HEADER | UP

datatype socks_event = EVENT_ERROR | EVENT_UP | EVENT_ERROR_CLOSED

datatype BAddr = IPv4 "byte list" "byte list" | IPv6 "byte list" "byte list" | OtherAddr

datatype io_state = IONone | IOControl | IOUp

record auth_info =
  auth_type :: int
  username :: "byte list"
  password :: "byte list"

record BSocksClient =
  auth_info :: "auth_info list"
  dest_addr :: BAddr
  state :: socks_state
  buffer :: "byte list option"
  con_open :: bool
  io :: io_state
  recv_dest :: nat
  recv_len :: nat
  recv_total :: nat

datatype socks_call = Send "byte list" | Recv nat nat | Report socks_event

type_synonym memory = "nat \<Rightarrow> byte list option"
type_synonym handled = "BSocksClient \<times> socks_call list"

definition SOCKS_VERSION :: byte where "SOCKS_VERSION = 5"
definition METHOD_NONE :: int where "METHOD_NONE = 0"
definition METHOD_PASSWORD :: int where "METHOD_PASSWORD = 2"

definition BSocksClient_auth_none :: "auth_info \<Rightarrow> auth_info" where
  "BSocksClient_auth_none junk = junk\<lparr>auth_type := METHOD_NONE\<rparr>"

definition BSocksClient_auth_password :: "byte list \<Rightarrow> byte list \<Rightarrow> auth_info" where
  "BSocksClient_auth_password u p = \<lparr>auth_type = METHOD_PASSWORD, username = u, password = p\<rparr>"

section \<open>Helpers\<close>

definition report_error :: "BSocksClient \<Rightarrow> socks_event \<Rightarrow> handled" where
  "report_error o1 e = (o1, [Report e])"

definition init_control_io :: "BSocksClient \<Rightarrow> BSocksClient run" where
  "init_control_io o1 =
     bindE (guardE (con_open o1 \<and> io o1 = IONone) AssertFailed) (\<lambda>_. Inr (o1\<lparr>io := IOControl\<rparr>))"

definition free_control_io :: "BSocksClient \<Rightarrow> BSocksClient run" where
  "free_control_io o1 =
     bindE (guardE (con_open o1 \<and> io o1 = IOControl) AssertFailed) (\<lambda>_. Inr (o1\<lparr>io := IONone\<rparr>))"

definition init_up_io :: "BSocksClient \<Rightarrow> BSocksClient run" where
  "init_up_io o1 =
     bindE (guardE (con_open o1 \<and> io o1 = IONone) AssertFailed) (\<lambda>_. Inr (o1\<lparr>io := IOUp\<rparr>))"

definition free_up_io :: "BSocksClient \<Rightarrow> BSocksClient run" where
  "free_up_io o1 =
     bindE (guardE (con_open o1 \<and> io o1 = IOUp) AssertFailed) (\<lambda>_. Inr (o1\<lparr>io := IONone\<rparr>))"

definition free_connection :: "BSocksClient \<Rightarrow> BSocksClient run" where
  "free_connection o1 =
     bindE (guardE (con_open o1 \<and> io o1 = IONone) AssertFailed) (\<lambda>_. Inr (o1\<lparr>con_open := False\<rparr>))"

text \<open>\<open>realloc\<close> keeps the old contents; the new part holds what was there.\<close>

definition reserve_buffer :: "memory \<Rightarrow> BSocksClient \<Rightarrow> nat \<Rightarrow> BSocksClient option" where
  "reserve_buffer al o1 sz =
     (case al sz of
        None \<Rightarrow> None
      | Some mem \<Rightarrow>
          let old = (case buffer o1 of None \<Rightarrow> [] | Some b \<Rightarrow> take sz b)
          in Some (o1\<lparr>buffer := Some (old @ drop (length old) mem)\<rparr>))"

definition buffer_write :: "nat \<Rightarrow> byte list \<Rightarrow> BSocksClient \<Rightarrow> BSocksClient run" where
  "buffer_write off bs o1 =
     (case buffer o1 of
        None \<Rightarrow> Inl OutOfBounds
      | Some b \<Rightarrow> if off + length bs \<le> length b then Inr (o1\<lparr>buffer := Some (write_at off bs b)\<rparr>)
                  else Inl OutOfBounds)"

definition buffer_read :: "nat \<Rightarrow> nat \<Rightarrow> BSocksClient \<Rightarrow> byte list run" where
  "buffer_read off n o1 =
     (case buffer o1 of
        None \<Rightarrow> Inl OutOfBounds
      | Some b \<Rightarrow> if off + n \<le> length b then Inr (take n (drop off b)) else Inl OutOfBounds)"

definition do_receive :: "BSocksClient \<Rightarrow> handled run" where
  "do_receive o1 =
     bindE (guardE (recv_len o1 < recv_total o1) AssertFailed) (\<lambda>_.
       Inr (o1, [Recv (recv_dest o1 + recv_len o1) (recv_total o1 - recv_len o1)]))"

definition start_receive :: "BSocksClient \<Rightarrow> nat \<Rightarrow> nat \<Rightarrow> handled run" where
  "start_receive o1 dest tot =
     bindE (guardE (tot > 0) AssertFailed) (\<lambda>_.
       do_receive (o1\<lparr>recv_dest := dest, recv_len := 0, recv_total := tot\<rparr>))"

text \<open>Sending the first \<open>n\<close> bytes of the buffer.\<close>

definition send_buffer :: "BSocksClient \<Rightarrow> nat \<Rightarrow> socks_state \<Rightarrow> handled run" where
  "send_buffer o1 n st = bindE (buffer_read 0 n o1) (\<lambda>bs. Inr (o1\<lparr>state := st\<rparr>, [Send bs]))"

section \<open>Handlers\<close>

definition connector_handler :: "memory \<Rightarrow> bool \<Rightarrow> bool \<Rightarrow> BSocksClient \<Rightarrow> handled run" where
  "connector_handler al init_ok is_error o1 =
     bindE (guardE (state o1 = CONNECTING) AssertFailed) (\<lambda>_.
       if is_error then Inr (report_error o1 EVENT_ERROR)
       else if \<not> init_ok then Inr (report_error o1 EVENT_ERROR)
       else
       bindE (init_control_io (o1\<lparr>con_open := True\<rparr>)) (\<lambda>o1.
         let n = length (auth_info o1);
             fail = bindE (free_control_io o1) (\<lambda>o1. bindE (free_connection o1) (\<lambda>o1.
                      Inr (report_error o1 EVENT_ERROR)))
         in if n = 0 \<or> n > 255 then fail
            else
            case reserve_buffer al o1 (2 + n) of
              None \<Rightarrow> fail
            | Some o1 \<Rightarrow>
                bindE (buffer_write 0 [SOCKS_VERSION, of_nat n] o1) (\<lambda>o1.
                bindE (buffer_write 2 (map (of_int \<circ> auth_type) (auth_info o1)) o1) (\<lambda>o1.
                  send_buffer o1 (2 + n) SENDING_HELLO))))"

definition connection_handler :: "bool \<Rightarrow> BSocksClient \<Rightarrow> handled run" where
  "connection_handler recv_closed o1 =
     bindE (guardE (state o1 \<noteq> CONNECTING) AssertFailed) (\<lambda>_.
       if state o1 = UP \<and> recv_closed then Inr (report_error o1 EVENT_ERROR_CLOSED)
       else Inr (report_error o1 EVENT_ERROR))"

definition auth_finished :: "memory \<Rightarrow> BSocksClient \<Rightarrow> handled run" where
  "auth_finished al o1 =
     (let sz = (case dest_addr o1 of IPv4 _ _ \<Rightarrow> 4 + 6 | IPv6 _ _ \<Rightarrow> 4 + 18 | OtherAddr \<Rightarrow> 4)
      in case reserve_buffer al o1 sz of
           None \<Rightarrow> Inr (report_error o1 EVENT_ERROR)
         | Some o1 \<Rightarrow>
             bindE (case dest_addr o1 of
                      IPv4 ip port \<Rightarrow> bindE (buffer_write 4 (ip @ port) o1) (\<lambda>o1. Inr (1, o1))
                    | IPv6 ip port \<Rightarrow> bindE (buffer_write 4 (ip @ port) o1) (\<lambda>o1. Inr (4, o1))
                    | OtherAddr \<Rightarrow> Inl AssertFailed) (\<lambda>(atyp, o1).
             bindE (buffer_write 0 [SOCKS_VERSION, 1, 0, atyp] o1) (\<lambda>o1.
               send_buffer o1 sz SENDING_REQUEST)))"

definition find_auth :: "byte \<Rightarrow> auth_info list \<Rightarrow> auth_info option" where
  "find_auth m ais = find (\<lambda>ai. auth_type ai = uint m) ais"

definition received_hello :: "memory \<Rightarrow> BSocksClient \<Rightarrow> handled run" where
  "received_hello al o1 =
     bindE (buffer_read 0 2 o1) (\<lambda>imsg.
       if imsg ! 0 \<noteq> SOCKS_VERSION then Inr (report_error o1 EVENT_ERROR)
       else
       case find_auth (imsg ! 1) (auth_info o1) of
         None \<Rightarrow> Inr (report_error o1 EVENT_ERROR)
       | Some ai \<Rightarrow>
           if auth_type ai = METHOD_NONE then auth_finished al o1
           else if auth_type ai = METHOD_PASSWORD
           then
             let u = username ai; p = password ai
             in if length u = 0 \<or> length u > 255 \<or> length p = 0 \<or> length p > 255
                then Inr (report_error o1 EVENT_ERROR)
                else
                let sz = 1 + 1 + length u + 1 + length p
                in case reserve_buffer al o1 sz of
                     None \<Rightarrow> Inr (report_error o1 EVENT_ERROR)
                   | Some o1 \<Rightarrow>
                       bindE (buffer_write 0 [1, of_nat (length u)] o1) (\<lambda>o1.
                       bindE (buffer_write 2 u o1) (\<lambda>o1.
                       bindE (buffer_write (2 + length u) [of_nat (length p)] o1) (\<lambda>o1.
                       bindE (buffer_write (3 + length u) p o1) (\<lambda>o1.
                         send_buffer o1 sz SENDING_PASSWORD))))
           else Inl AssertFailed)"

definition received_reply_header :: "BSocksClient \<Rightarrow> handled run" where
  "received_reply_header o1 =
     bindE (buffer_read 0 4 o1) (\<lambda>imsg.
       if imsg ! 0 \<noteq> SOCKS_VERSION then Inr (report_error o1 EVENT_ERROR)
       else if imsg ! 1 \<noteq> 0 then Inr (report_error o1 EVENT_ERROR)
       else if imsg ! 3 \<noteq> 1 \<and> imsg ! 3 \<noteq> 4 then Inr (report_error o1 EVENT_ERROR)
       else
       bindE (start_receive o1 4 (if imsg ! 3 = 1 then 6 else 18)) (\<lambda>(o1, calls).
         Inr (o1\<lparr>state := RECEIVED_REPLY_HEADER\<rparr>, calls)))"

definition received_password_reply :: "memory \<Rightarrow> BSocksClient \<Rightarrow> handled run" where
  "received_password_reply al o1 =
     bindE (buffer_read 0 2 o1) (\<lambda>b.
       if b ! 0 \<noteq> 1 then Inr (report_error o1 EVENT_ERROR)
       else if b ! 1 \<noteq> 0 then Inr (report_error o1 EVENT_ERROR)
       else auth_finished al o1)"

definition received_reply_rest :: "BSocksClient \<Rightarrow> handled run" where
  "received_reply_rest o1 =
     bindE (free_control_io (o1\<lparr>buffer := None\<rparr>)) (\<lambda>o1.
     bindE (init_up_io o1) (\<lambda>o1.
       Inr (o1\<lparr>state := UP\<rparr>, [Report EVENT_UP])))"

definition recv_handler_done :: "memory \<Rightarrow> nat \<Rightarrow> BSocksClient \<Rightarrow> handled run" where
  "recv_handler_done al data_len o1 =
     bindE (guardE (recv_len o1 + data_len \<le> recv_total o1) AssertFailed) (\<lambda>_.
       let o1 = o1\<lparr>recv_len := recv_len o1 + data_len\<rparr>
       in if recv_len o1 < recv_total o1 then do_receive o1
          else
          case state o1 of
            SENT_HELLO \<Rightarrow> received_hello al o1
          | SENT_REQUEST \<Rightarrow> received_reply_header o1
          | SENT_PASSWORD \<Rightarrow> received_password_reply al o1
          | RECEIVED_REPLY_HEADER \<Rightarrow> received_reply_rest o1
          | _ \<Rightarrow> Inl AssertFailed)"

text \<open>What the three branches of \<open>send_handler_done\<close> do: a buffer of \<open>sz\<close> bytes, then receiving.\<close>

definition receive_into :: "memory \<Rightarrow> BSocksClient \<Rightarrow> nat \<Rightarrow> nat \<Rightarrow> socks_state \<Rightarrow> handled run" where
  "receive_into al o1 sz tot st =
     (case reserve_buffer al o1 sz of
        None \<Rightarrow> Inr (report_error o1 EVENT_ERROR)
      | Some o1 \<Rightarrow>
          bindE (start_receive o1 0 tot) (\<lambda>(o1, calls). Inr (o1\<lparr>state := st\<rparr>, calls)))"

definition send_handler_done :: "memory \<Rightarrow> BSocksClient \<Rightarrow> handled run" where
  "send_handler_done al o1 =
     bindE (guardE (buffer o1 \<noteq> None) AssertFailed) (\<lambda>_.
       case state o1 of
         SENDING_HELLO \<Rightarrow> receive_into al o1 2 2 SENT_HELLO
       | SENDING_REQUEST \<Rightarrow> receive_into al o1 (4 + max 6 18) 4 SENT_REQUEST
       | SENDING_PASSWORD \<Rightarrow> receive_into al o1 2 2 SENT_PASSWORD
       | _ \<Rightarrow> Inl AssertFailed)"

text \<open>\<open>Inr None\<close> is the return value 0.\<close>

definition BSocksClient_Init ::
    "bool \<Rightarrow> auth_info list \<Rightarrow> BAddr \<Rightarrow> BSocksClient option run" where
  "BSocksClient_Init connector_ok ais dest =
     bindE (guardE (dest \<noteq> OtherAddr) AssertFailed) (\<lambda>_.
     bindE (guardE (\<forall>ai \<in> set ais. auth_type ai = METHOD_NONE \<or> auth_type ai = METHOD_PASSWORD) AssertFailed)
       (\<lambda>_. if connector_ok
            then Inr (Some \<lparr>auth_info = ais, dest_addr = dest, state = CONNECTING, buffer = None,
                            con_open = False, io = IONone, recv_dest = 0, recv_len = 0, recv_total = 0\<rparr>)
            else Inr None))"

definition BSocksClient_Free :: "BSocksClient \<Rightarrow> BSocksClient run" where
  "BSocksClient_Free o1 =
     bindE (if state o1 \<noteq> CONNECTING
            then bindE (if state o1 = UP then free_up_io o1 else free_control_io o1) free_connection
            else Inr o1) (\<lambda>o1. Inr (o1\<lparr>buffer := None\<rparr>))"

section \<open>The client with its connection\<close>

text \<open>
  \<open>tx\<close> and \<open>rx\<close> are the operations in progress, \<open>sent\<close> and \<open>got\<close> what has passed over the connection
  so far and \<open>evs\<close> the events reported to the user.  An operation may be started only when none is in
  progress, as \<open>PacketPassInterface\<close> and \<open>StreamRecvInterface\<close> assert.
\<close>

record socks_sys =
  cl :: BSocksClient
  tx :: "byte list option"
  rx :: "(nat \<times> nat) option"
  sent :: "byte list"
  got :: "byte list"
  evs :: "socks_event list"

fun do_calls :: "socks_call list \<Rightarrow> socks_sys \<Rightarrow> socks_sys run" where
  "do_calls [] s = Inr s"
| "do_calls (Send bs # cs) s =
     bindE (guardE (tx s = None) AssertFailed) (\<lambda>_. do_calls cs (s\<lparr>tx := Some bs\<rparr>))"
| "do_calls (Recv off n # cs) s =
     bindE (guardE (rx s = None \<and> n > 0) AssertFailed) (\<lambda>_. do_calls cs (s\<lparr>rx := Some (off, n)\<rparr>))"
| "do_calls (Report e # cs) s = do_calls cs (s\<lparr>evs := evs s @ [e]\<rparr>)"

datatype socks_input = Connected bool bool | SendDone | Received "byte list" | ConEvent bool

text \<open>After an error event the user frees the object, so nothing more happens.\<close>

definition alive :: "socks_sys \<Rightarrow> bool" where
  "alive s \<longleftrightarrow> EVENT_ERROR \<notin> set (evs s) \<and> EVENT_ERROR_CLOSED \<notin> set (evs s)"

fun enabled :: "socks_input \<Rightarrow> socks_sys \<Rightarrow> bool" where
  "enabled (Connected ok err) s \<longleftrightarrow> alive s \<and> state (cl s) = CONNECTING"
| "enabled SendDone s \<longleftrightarrow> alive s \<and> tx s \<noteq> None"
| "enabled (Received d) s \<longleftrightarrow>
     alive s \<and> (case rx s of None \<Rightarrow> False | Some (off, n) \<Rightarrow> 0 < length d \<and> length d \<le> n)"
| "enabled (ConEvent closed) s \<longleftrightarrow> alive s \<and> con_open (cl s)"

definition finish :: "socks_sys \<Rightarrow> handled \<Rightarrow> socks_sys run" where
  "finish s r = (case r of (o1, cs) \<Rightarrow> do_calls cs (s\<lparr>cl := o1\<rparr>))"

fun respond :: "memory \<Rightarrow> socks_input \<Rightarrow> socks_sys \<Rightarrow> socks_sys run" where
  "respond al (Connected ok err) s = bindE (connector_handler al ok err (cl s)) (finish s)"
| "respond al SendDone s =
     (case tx s of
        None \<Rightarrow> Inl AssertFailed
      | Some bs \<Rightarrow>
          bindE (send_handler_done al (cl s)) (finish (s\<lparr>tx := None, sent := sent s @ bs\<rparr>)))"
| "respond al (Received d) s =
     (case rx s of
        None \<Rightarrow> Inl AssertFailed
      | Some (off, n) \<Rightarrow>
          bindE (buffer_write off d (cl s)) (\<lambda>o1.
          bindE (recv_handler_done al (length d) o1) (finish (s\<lparr>rx := None, got := got s @ d\<rparr>))))"
| "respond al (ConEvent closed) s = bindE (connection_handler closed (cl s)) (finish s)"

inductive reachable :: "memory \<Rightarrow> socks_sys \<Rightarrow> socks_sys \<Rightarrow> bool" for al s0 where
  start: "reachable al s0 s0"
| step: "reachable al s0 s \<Longrightarrow> enabled x s \<Longrightarrow> respond al x s = Inr s' \<Longrightarrow> reachable al s0 s'"

definition socks_start :: "BSocksClient \<Rightarrow> socks_sys" where
  "socks_start o1 = \<lparr>cl = o1, tx = None, rx = None, sent = [], got = [], evs = []\<rparr>"

section \<open>The conversation\<close>

definition wf_addr :: "BAddr \<Rightarrow> bool" where
  "wf_addr a = (case a of
     IPv4 ip port \<Rightarrow> length ip = 4 \<and> length port = 2
   | IPv6 ip port \<Rightarrow> length ip = 16 \<and> length port = 2
   | OtherAddr \<Rightarrow> False)"

definition mem_ok :: "memory \<Rightarrow> bool" where
  "mem_ok al \<longleftrightarrow> (\<forall>n m. al n = Some m \<longrightarrow> length m = n)"

definition hello :: "auth_info list \<Rightarrow> byte list" where
  "hello ais = [SOCKS_VERSION, of_nat (length ais)] @ map (of_int \<circ> auth_type) ais"

definition password_packet :: "auth_info \<Rightarrow> byte list" where
  "password_packet ai =
     [1, of_nat (length (username ai))] @ username ai @ [of_nat (length (password ai))] @ password ai"

definition request :: "BAddr \<Rightarrow> byte list" where
  "request a = (case a of
     IPv4 ip port \<Rightarrow> [SOCKS_VERSION, 1, 0, 1] @ ip @ port
   | IPv6 ip port \<Rightarrow> [SOCKS_VERSION, 1, 0, 4] @ ip @ port
   | OtherAddr \<Rightarrow> [])"

text \<open>The authentication: what the client sends and what the server answers.\<close>

definition password_ok :: "auth_info list \<Rightarrow> auth_info \<Rightarrow> bool" where
  "password_ok ais ai \<longleftrightarrow> ai \<in> set ais \<and> auth_type ai = METHOD_PASSWORD
     \<and> length (username ai) \<in> {1..255} \<and> length (password ai) \<in> {1..255}"

definition auth_talk :: "auth_info list \<Rightarrow> byte list \<Rightarrow> byte list \<Rightarrow> bool" where
  "auth_talk ais a g \<longleftrightarrow>
     a = [] \<and> g = [SOCKS_VERSION, 0] \<and> (\<exists>ai \<in> set ais. auth_type ai = METHOD_NONE)
     \<or> g = [SOCKS_VERSION, 2, 1, 0] \<and> (\<exists>ai. password_ok ais ai \<and> a = password_packet ai)"

definition good_reply :: "byte list \<Rightarrow> bool" where
  "good_reply r \<longleftrightarrow> (\<exists>x t addr. r = [SOCKS_VERSION, 0, x, t] @ addr
     \<and> (t = 1 \<and> length addr = 6 \<or> t = 4 \<and> length addr = 18))"

definition sending :: "byte list \<Rightarrow> socks_sys \<Rightarrow> bool" where
  "sending bs s \<longleftrightarrow> tx s = Some bs \<and> rx s = None \<and> buffer (cl s) \<noteq> None"

definition receiving :: "nat \<Rightarrow> nat \<Rightarrow> nat \<Rightarrow> byte list \<Rightarrow> byte list \<Rightarrow> socks_sys \<Rightarrow> bool" where
  "receiving dest tot n hdr g s \<longleftrightarrow> tx s = None \<and> recv_dest (cl s) = dest \<and> recv_total (cl s) = tot
     \<and> recv_len (cl s) < tot \<and> rx s = Some (dest + recv_len (cl s), tot - recv_len (cl s))
     \<and> (\<exists>b. buffer (cl s) = Some b \<and> length b = n \<and> dest + tot \<le> n \<and> take dest b = hdr
          \<and> got s = g @ take (dest + recv_len (cl s)) b)"

definition phase :: "socks_sys \<Rightarrow> bool" where
  "phase s = (let c = cl s; ais = auth_info c; hi = hello ais; rq = request (dest_addr c)
     in case state c of
       CONNECTING \<Rightarrow> tx s = None \<and> rx s = None \<and> sent s = [] \<and> got s = [] \<and> buffer c = None
     | SENDING_HELLO \<Rightarrow> sending hi s \<and> sent s = [] \<and> got s = []
     | SENT_HELLO \<Rightarrow> receiving 0 2 2 [] [] s \<and> sent s = hi
     | SENDING_PASSWORD \<Rightarrow> (\<exists>ai. password_ok ais ai \<and> sending (password_packet ai) s \<and> sent s = hi
         \<and> got s = [SOCKS_VERSION, 2])
     | SENT_PASSWORD \<Rightarrow> (\<exists>ai. password_ok ais ai \<and> receiving 0 2 2 [] [SOCKS_VERSION, 2] s
         \<and> sent s = hi @ password_packet ai)
     | SENDING_REQUEST \<Rightarrow> (\<exists>a. auth_talk ais a (got s) \<and> sending rq s \<and> sent s = hi @ a)
     | SENT_REQUEST \<Rightarrow> (\<exists>a g. auth_talk ais a g \<and> receiving 0 4 22 [] g s \<and> sent s = hi @ a @ rq)
     | RECEIVED_REPLY_HEADER \<Rightarrow> (\<exists>a g x t. auth_talk ais a g \<and> t \<in> {1, 4}
         \<and> receiving 4 (if t = 1 then 6 else 18) 22 [SOCKS_VERSION, 0, x, t] g s \<and> sent s = hi @ a @ rq)
     | UP \<Rightarrow> tx s = None \<and> rx s = None
         \<and> (\<exists>a g r. auth_talk ais a g \<and> good_reply r \<and> sent s = hi @ a @ rq \<and> got s = g @ r))"

text \<open>The connection objects that exist in a state.\<close>

definition resources :: "BSocksClient \<Rightarrow> bool" where
  "resources c = (case state c of
     CONNECTING \<Rightarrow> \<not> con_open c \<and> io c = IONone
   | UP \<Rightarrow> con_open c \<and> io c = IOUp
   | _ \<Rightarrow> con_open c \<and> io c = IOControl)"

definition up_events :: "socks_state \<Rightarrow> socks_event list" where
  "up_events st = (if st = UP then [EVENT_UP] else [])"

definition wf_client :: "BSocksClient \<Rightarrow> bool" where
  "wf_client c \<longleftrightarrow> wf_addr (dest_addr c)
     \<and> (\<forall>ai \<in> set (auth_info c). auth_type ai = METHOD_NONE \<or> auth_type ai = METHOD_PASSWORD)"

definition conversation :: "BSocksClient \<Rightarrow> socks_sys \<Rightarrow> bool" where
  "conversation c s \<longleftrightarrow> (\<exists>a g r. auth_talk (auth_info c) a g \<and> good_reply r
     \<and> sent s = hello (auth_info c) @ a @ request (dest_addr c) \<and> got s = g @ r)"

definition socks_inv :: "BSocksClient \<Rightarrow> socks_sys \<Rightarrow> bool" where
  "socks_inv c0 s \<longleftrightarrow> auth_info (cl s) = auth_info c0 \<and> dest_addr (cl s) = dest_addr c0 \<and> resources (cl s)
     \<and> (if alive s then phase s \<and> evs s = up_events (state (cl s))
        else \<exists>e. (e = EVENT_ERROR \<or> e = EVENT_ERROR_CLOSED \<and> state (cl s) = UP)
               \<and> evs s = up_events (state (cl s)) @ [e])
     \<and> (state (cl s) = UP \<longrightarrow> conversation c0 s)"

text \<open>A bound on the number of events that are still possible.\<close>

primrec stage :: "socks_state \<Rightarrow> nat" where
  "stage CONNECTING = 100"
| "stage SENDING_HELLO = 90"
| "stage SENT_HELLO = 80"
| "stage SENDING_PASSWORD = 70"
| "stage SENT_PASSWORD = 60"
| "stage SENDING_REQUEST = 50"
| "stage SENT_REQUEST = 40"
| "stage RECEIVED_REPLY_HEADER = 20"
| "stage UP = 1"

definition remaining :: "socks_sys \<Rightarrow> nat" where
  "remaining s = (if \<not> alive s then 0
     else stage (state (cl s))
       + (if rx s = None then 0 else recv_total (cl s) - recv_len (cl s)))"

definition good_step :: "BSocksClient \<Rightarrow> socks_sys \<Rightarrow> socks_sys run \<Rightarrow> bool" where
  "good_step c0 s r \<longleftrightarrow> (\<exists>s'. r = Inr s' \<and> socks_inv c0 s' \<and> remaining s' < remaining s)"

section \<open>What each handler does\<close>

lemma reserve_buffer_Some:
  assumes "mem_ok al" and "reserve_buffer al c n = Some c'"
  obtains b where "c' = c\<lparr>buffer := Some b\<rparr>" "length b = n"
proof -
  from assms obtain m where m: "al n = Some m" "length m = n"
    by (auto simp: reserve_buffer_def mem_ok_def split: option.splits)
  define old where "old = (case buffer c of None \<Rightarrow> [] | Some b \<Rightarrow> take n b)"
  have "length old \<le> n" by (auto simp: old_def split: option.split)
  then have "length (old @ drop (length old) m) = n" using m by simp
  moreover have "c' = c\<lparr>buffer := Some (old @ drop (length old) m)\<rparr>"
    using assms(2) m by (simp add: reserve_buffer_def old_def Let_def)
  ultimately show thesis using that by blast
qed

lemma buffer_write_ok [simp]:
  "buffer c = Some b \<Longrightarrow> off + length bs \<le> length b \<Longrightarrow>
     buffer_write off bs c = Inr (c\<lparr>buffer := Some (write_at off bs b)\<rparr>)"
  by (simp add: buffer_write_def)

lemma buffer_read_ok [simp]:
  "buffer c = Some b \<Longrightarrow> off + n \<le> length b \<Longrightarrow> buffer_read off n c = Inr (take n (drop off b))"
  by (simp add: buffer_read_def)

lemma send_buffer_ok [simp]:
  "buffer c = Some b \<Longrightarrow> length b = n \<Longrightarrow> send_buffer c n st = Inr (c\<lparr>state := st\<rparr>, [Send b])"
  by (simp add: send_buffer_def)

definition error_result :: "BSocksClient \<Rightarrow> handled run \<Rightarrow> bool" where
  "error_result c r \<longleftrightarrow> r = Inr (c, [Report EVENT_ERROR])"

definition send_result :: "BSocksClient \<Rightarrow> byte list \<Rightarrow> socks_state \<Rightarrow> handled run \<Rightarrow> bool" where
  "send_result c bs st r \<longleftrightarrow> r = Inr (c\<lparr>buffer := Some bs, state := st\<rparr>, [Send bs])"

lemma request_simps [simp]:
  "request (IPv4 ip port) = [SOCKS_VERSION, 1, 0, 1] @ ip @ port"
  "request (IPv6 ip port) = [SOCKS_VERSION, 1, 0, 4] @ ip @ port"
  by (simp_all add: request_def)

lemma auth_finished_cases:
  assumes "mem_ok al" and "wf_addr (dest_addr c)"
  shows "error_result c (auth_finished al c)
    \<or> send_result c (request (dest_addr c)) SENDING_REQUEST (auth_finished al c)"
proof -
  define n where "n = length (request (dest_addr c))"
  have n: "(case dest_addr c of IPv4 _ _ \<Rightarrow> 4 + 6 | IPv6 _ _ \<Rightarrow> 4 + 18 | OtherAddr \<Rightarrow> 4) = n"
    using assms(2) by (auto simp: n_def wf_addr_def split: BAddr.splits)
  show ?thesis
  proof (cases "reserve_buffer al c n")
    case None
    then show ?thesis by (simp add: auth_finished_def n error_result_def report_error_def)
  next
    case (Some c')
    from reserve_buffer_Some[OF assms(1) this] obtain b where b: "c' = c\<lparr>buffer := Some b\<rparr>" "length b = n" .
    with Some assms(2) show ?thesis
      by (cases "dest_addr c")
        (simp_all add: auth_finished_def n send_result_def wf_addr_def n_def write_at_def)
  qed
qed

lemma length_hello [simp]: "length (hello ais) = 2 + length ais"
  by (simp add: hello_def)

lemma connector_cases:
  assumes "mem_ok al" and "state c = CONNECTING" and "resources c"
  shows "error_result c (connector_handler al ok err c)
    \<or> send_result (c\<lparr>con_open := True, io := IOControl\<rparr>) (hello (auth_info c)) SENDING_HELLO
        (connector_handler al ok err c)"
proof -
  define c1 where "c1 = c\<lparr>con_open := True, io := IOControl\<rparr>"
  define n where "n = length (auth_info c)"
  from assms(2,3) have res: "\<not> con_open c" "io c = IONone" by (simp_all add: resources_def)
  then have closed: "c1\<lparr>io := IONone\<rparr>\<lparr>con_open := False\<rparr> = c" by (simp add: c1_def)
  show ?thesis
  proof (cases "err \<or> \<not> ok \<or> n = 0 \<or> n > 255")
    case True
    with assms(2) res closed show ?thesis
      by (auto simp: connector_handler_def error_result_def report_error_def init_control_io_def Let_def
          free_control_io_def free_connection_def n_def c1_def)
  next
    case False
    show ?thesis
    proof (cases "reserve_buffer al c1 (2 + n)")
      case None
      with False assms(2) res closed show ?thesis
        by (auto simp: connector_handler_def error_result_def report_error_def init_control_io_def Let_def
            free_control_io_def free_connection_def n_def c1_def)
    next
      case (Some c')
      from reserve_buffer_Some[OF assms(1) this] obtain b where b: "c' = c1\<lparr>buffer := Some b\<rparr>" "length b = 2 + n" .
      have "write_at 2 (map (of_int \<circ> auth_type) (auth_info c)) (write_at 0 [SOCKS_VERSION, of_nat n] b)
        = hello (auth_info c)"
        using b(2) by (simp add: write_at_def hello_def n_def)
      with False assms(2) res Some b show ?thesis
        by (simp add: connector_handler_def send_result_def init_control_io_def Let_def n_def c1_def)
    qed
  qed
qed

lemma received_hello_cases:
  assumes "mem_ok al" and "wf_client c" and "buffer c = Some b" and "length b = 2"
  shows "error_result c (received_hello al c)
    \<or> (b = [SOCKS_VERSION, 0] \<and> auth_talk (auth_info c) [] b
        \<and> send_result c (request (dest_addr c)) SENDING_REQUEST (received_hello al c))
    \<or> (b = [SOCKS_VERSION, 2] \<and> (\<exists>ai. password_ok (auth_info c) ai
        \<and> send_result c (password_packet ai) SENDING_PASSWORD (received_hello al c)))"
proof -
  from assms(4) obtain v m where vm: "b = [v, m]" by (auto simp: numeral_2_eq_2 length_Suc_conv)
  show ?thesis
  proof (cases "v = SOCKS_VERSION \<and> find_auth m (auth_info c) \<noteq> None")
    case False
    then show ?thesis
      using assms(3) vm by (auto simp: received_hello_def error_result_def report_error_def)
  next
    case True
    then obtain ai where ai: "find_auth m (auth_info c) = Some ai" "v = SOCKS_VERSION" by auto
    then have mem: "ai \<in> set (auth_info c)" "auth_type ai = uint m" by (auto simp: find_auth_def find_Some_iff)
    with assms(2) consider "auth_type ai = METHOD_NONE" | "auth_type ai = METHOD_PASSWORD"
      by (auto simp: wf_client_def)
    then show ?thesis
    proof cases
      case 1
      with mem have "uint m = uint (0 :: byte)" by (simp add: METHOD_NONE_def)
      then have "m = 0" by (simp only: word_uint_eq_iff)
      moreover have "received_hello al c = auth_finished al c"
        using assms(3) vm ai 1 by (simp add: received_hello_def)
      moreover have "auth_talk (auth_info c) [] [SOCKS_VERSION, 0]" using mem 1 by (auto simp: auth_talk_def)
      ultimately show ?thesis
        using auth_finished_cases[OF assms(1), of c] assms(2) vm ai by (auto simp: wf_client_def)
    next
      case 2
      with mem have "uint m = uint (2 :: byte)" by (simp add: METHOD_PASSWORD_def)
      then have m: "m = 2" by (simp only: word_uint_eq_iff)
      have ne: "METHOD_PASSWORD \<noteq> METHOD_NONE" by (simp add: METHOD_NONE_def METHOD_PASSWORD_def)
      let ?u = "username ai" and ?p = "password ai"
      define n where "n = Suc (Suc (Suc (length ?u + length ?p)))"
      show ?thesis
      proof (cases "length ?u \<in> {1..255} \<and> length ?p \<in> {1..255}")
        case False
        then have "length ?u = 0 \<or> length ?u > 255 \<or> length ?p = 0 \<or> length ?p > 255"
          by (auto simp: Suc_le_eq)
        then have "error_result c (received_hello al c)"
          using assms(3) vm ai 2 ne by (simp add: received_hello_def error_result_def report_error_def Let_def)
        then show ?thesis ..
      next
        case lens: True
        then have ne2: "?u \<noteq> []" "?p \<noteq> []" by auto
        show ?thesis
        proof (cases "reserve_buffer al c n")
          case None
          then have "error_result c (received_hello al c)"
            using assms(3) vm ai 2 ne by (simp add: received_hello_def error_result_def report_error_def Let_def n_def)
          then show ?thesis ..
        next
          case (Some c')
          from reserve_buffer_Some[OF assms(1) this] obtain k where k: "c' = c\<lparr>buffer := Some k\<rparr>" "length k = n" .
          have "write_at (3 + length ?u) ?p (write_at (2 + length ?u) [of_nat (length ?p)]
              (write_at 2 ?u (write_at 0 [1, of_nat (length ?u)] k))) = password_packet ai"
            using k(2) by (simp add: write_at_def password_packet_def n_def numeral_3_eq_3)
          then have "send_result c (password_packet ai) SENDING_PASSWORD (received_hello al c)"
            using assms(3) vm ai 2 ne ne2 lens Some k
            by (simp add: received_hello_def send_result_def Let_def n_def password_packet_def)
          moreover have "password_ok (auth_info c) ai" using mem 2 lens by (simp add: password_ok_def)
          ultimately show ?thesis using vm ai m by blast
        qed
      qed
    qed
  qed
qed

section \<open>The invariant\<close>

lemma finish_error:
  "finish s (c, [Report EVENT_ERROR]) = Inr (s\<lparr>cl := c, evs := evs s @ [EVENT_ERROR]\<rparr>)"
  by (simp add: finish_def)

lemma finish_send:
  "tx s = None \<Longrightarrow> finish s (c, [Send bs]) = Inr (s\<lparr>cl := c, tx := Some bs\<rparr>)"
  by (simp add: finish_def)

lemma finish_recv:
  "rx s = None \<Longrightarrow> 0 < n \<Longrightarrow> finish s (c, [Recv off n]) = Inr (s\<lparr>cl := c, rx := Some (off, n)\<rparr>)"
  by (simp add: finish_def)

text \<open>An error reported from a live state other than UP ends the life of the object.\<close>

lemma inv_error:
  assumes "auth_info c = auth_info c0" "dest_addr c = dest_addr c0" "resources c" "state c \<noteq> UP"
    and "cl s' = c" "evs s' = [EVENT_ERROR]"
  shows "socks_inv c0 s'"
  using assms by (auto simp: socks_inv_def alive_def up_events_def)

lemma inv_live:
  assumes "auth_info (cl s) = auth_info c0" "dest_addr (cl s) = dest_addr c0" "resources (cl s)" "state (cl s) \<noteq> UP"
    and "phase s" "evs s = []"
  shows "socks_inv c0 s"
  using assms by (auto simp: socks_inv_def alive_def up_events_def)

lemma remaining_pos: "alive s \<Longrightarrow> 0 < remaining s"
  by (cases "state (cl s)") (simp_all add: remaining_def)

lemma remaining_dead: "evs s = [EVENT_ERROR] \<Longrightarrow> remaining s = 0"
  by (simp add: remaining_def alive_def)

lemma remaining_live: "evs s = [] \<Longrightarrow> remaining s
    = stage (state (cl s)) + (if rx s = None then 0 else recv_total (cl s) - recv_len (cl s))"
  by (simp add: remaining_def alive_def)

lemma inv_down:
  assumes "socks_inv c0 s" "alive s" "state (cl s) \<noteq> UP"
  shows "auth_info (cl s) = auth_info c0" "dest_addr (cl s) = dest_addr c0" "resources (cl s)" "phase s" "evs s = []"
  using assms by (auto simp: socks_inv_def up_events_def)

lemma connected_step:
  assumes "mem_ok al" and inv: "socks_inv c0 s" and "enabled (Connected ok err) s"
  shows "good_step c0 s (respond al (Connected ok err) s)"
proof -
  from assms(3) have st: "alive s" "state (cl s) = CONNECTING" by simp_all
  with inv_down[OF inv] have d: "auth_info (cl s) = auth_info c0" "dest_addr (cl s) = dest_addr c0"
    "resources (cl s)" "phase s" "evs s = []" by simp_all
  from d(4) st(2) have ph: "tx s = None" "rx s = None" "sent s = []" "got s = []" by (simp_all add: phase_def Let_def)
  from connector_cases[OF assms(1) st(2) d(3), of ok err] show ?thesis
  proof
    assume "error_result (cl s) (connector_handler al ok err (cl s))"
    then show ?thesis
      using d st remaining_pos[OF st(1)]
      by (auto simp: good_step_def error_result_def finish_error remaining_dead intro!: inv_error[where c = "cl s"])
  next
    assume "send_result (cl s\<lparr>con_open := True, io := IOControl\<rparr>) (hello (auth_info (cl s))) SENDING_HELLO
        (connector_handler al ok err (cl s))"
    then show ?thesis
      using d ph st
      by (auto simp: good_step_def send_result_def finish_send phase_def Let_def sending_def resources_def
          remaining_live intro!: inv_live)
  qed
qed

lemma receive_into_step:
  assumes "mem_ok al" and "rx s = None" and "tx s = None" and "0 < tot" "tot \<le> n"
  shows "error_result (cl s) (receive_into al (cl s) n tot st)
    \<or> (\<exists>c s'. bindE (receive_into al (cl s) n tot st) (finish s) = Inr s' \<and> cl s' = c \<and> evs s' = evs s
        \<and> sent s' = sent s \<and> receiving 0 tot n [] (got s) s'
        \<and> state c = st \<and> auth_info c = auth_info (cl s) \<and> dest_addr c = dest_addr (cl s)
        \<and> con_open c = con_open (cl s) \<and> io c = io (cl s))"
proof (cases "reserve_buffer al (cl s) n")
  case None
  then show ?thesis by (simp add: receive_into_def error_result_def report_error_def)
next
  case (Some c')
  from reserve_buffer_Some[OF assms(1) this] obtain b where "c' = cl s\<lparr>buffer := Some b\<rparr>" "length b = n" .
  with Some assms(2-5) show ?thesis
    by (simp add: receive_into_def start_receive_def do_receive_def finish_recv receiving_def)
qed

lemma send_done_step:
  assumes "mem_ok al" and inv: "socks_inv c0 s" and "enabled SendDone s"
  shows "good_step c0 s (respond al SendDone s)"
proof -
  from assms(3) obtain bs where st: "alive s" "tx s = Some bs" by auto
  from inv st have up: "state (cl s) \<noteq> UP" by (auto simp: socks_inv_def phase_def Let_def)
  from inv_down[OF inv st(1) up] have d: "auth_info (cl s) = auth_info c0" "dest_addr (cl s) = dest_addr c0"
    "resources (cl s)" "phase s" "evs s = []" by simp_all
  define s1 where "s1 = s\<lparr>tx := None, sent := sent s @ bs\<rparr>"
  have step: "respond al SendDone s = bindE (send_handler_done al (cl s1)) (finish s1)"
    using st by (simp add: s1_def)
  have go: ?thesis
    if h: "send_handler_done al (cl s1) = receive_into al (cl s1) n tot st'" and "0 < tot" "tot \<le> n" "rx s = None"
      and nxt: "\<And>s'. receiving 0 tot n [] (got s) s' \<Longrightarrow> sent s' = sent s @ bs \<Longrightarrow> state (cl s') = st' \<Longrightarrow>
        auth_info (cl s') = auth_info c0 \<Longrightarrow> dest_addr (cl s') = dest_addr c0 \<Longrightarrow>
        phase s' \<and> st' \<noteq> UP \<and> st' \<noteq> CONNECTING" and "state (cl s) \<noteq> CONNECTING"
      and less: "stage st' + tot < stage (state (cl s))" for n tot st'
  proof -
    have clean: "rx s1 = None" "tx s1 = None" using that by (simp_all add: s1_def)
    from receive_into_step[OF assms(1) clean that(2,3), of st'] show ?thesis
    proof (elim disjE exE conjE)
      assume "error_result (cl s1) (receive_into al (cl s1) n tot st')"
      then show ?thesis
        using d up h step remaining_pos[OF st(1)]
        by (auto simp: good_step_def error_result_def finish_error s1_def remaining_dead
            intro!: inv_error[where c = "cl s"])
    next
      fix c s'
      assume a: "bindE (receive_into al (cl s1) n tot st') (finish s1) = Inr s'" "cl s' = c" "evs s' = evs s1"
        "sent s' = sent s1" "receiving 0 tot n [] (got s1) s'" "state c = st'" "auth_info c = auth_info (cl s1)"
        "dest_addr c = dest_addr (cl s1)" "con_open c = con_open (cl s1)" "io c = io (cl s1)"
      then have ph: "phase s' \<and> st' \<noteq> UP \<and> st' \<noteq> CONNECTING"
        using nxt[of s'] d by (simp add: s1_def)
      have "resources c"
        using a d(3) ph up \<open>state (cl s) \<noteq> CONNECTING\<close>
        by (cases "state (cl s)"; cases st') (simp_all add: resources_def s1_def)
      moreover have "remaining s' < remaining s"
        using a d(5) less by (simp add: remaining_live s1_def receiving_def)
      ultimately show ?thesis
        unfolding step h good_step_def using a d ph
        by (intro exI[of _ s'] conjI inv_live) (simp_all add: s1_def)
    qed
  qed
  show ?thesis
  proof (cases "state (cl s)")
    case SENDING_HELLO
    with d(4) st(2) have "sending (hello (auth_info c0)) s" "sent s = []" "got s = []" "bs = hello (auth_info c0)"
      by (simp_all add: phase_def Let_def sending_def d)
    with SENDING_HELLO show ?thesis
      by (intro go[where n = 2 and tot = 2 and st' = SENT_HELLO])
        (auto simp: send_handler_done_def s1_def sending_def phase_def Let_def)
  next
    case SENDING_PASSWORD
    with d(4) st(2) obtain ai where "password_ok (auth_info c0) ai" "sending (password_packet ai) s"
      "sent s = hello (auth_info c0)" "got s = [SOCKS_VERSION, 2]" "bs = password_packet ai"
      by (auto simp: phase_def Let_def sending_def d)
    with SENDING_PASSWORD show ?thesis
      by (intro go[where n = 2 and tot = 2 and st' = SENT_PASSWORD])
        (auto simp: send_handler_done_def s1_def sending_def phase_def Let_def)
  next
    case SENDING_REQUEST
    with d(4) st(2) obtain a where "auth_talk (auth_info c0) a (got s)" "sending (request (dest_addr c0)) s"
      "sent s = hello (auth_info c0) @ a" "bs = request (dest_addr c0)"
      by (auto simp: phase_def Let_def sending_def d)
    with SENDING_REQUEST show ?thesis
      by (intro go[where n = 22 and tot = 4 and st' = SENT_REQUEST])
        (auto simp: send_handler_done_def s1_def sending_def phase_def Let_def)
  qed (use d(4) st(2) up in \<open>auto simp: phase_def Let_def receiving_def\<close>)
qed

text \<open>More data while a message of the server is incomplete, and the last of it.\<close>

lemma received_data:
  assumes "receiving dest tot n hdr g s" and "0 < length d" and "recv_len (cl s) + length d \<le> tot"
  obtains b where "buffer (cl s) = Some b" "length b = n" "dest + tot \<le> n"
    "rx s = Some (dest + recv_len (cl s), tot - recv_len (cl s))" "tx s = None"
    "buffer_write (dest + recv_len (cl s)) d (cl s)
       = Inr (cl s\<lparr>buffer := Some (write_at (dest + recv_len (cl s)) d b)\<rparr>)"
    "length (write_at (dest + recv_len (cl s)) d b) = n"
    "take dest (write_at (dest + recv_len (cl s)) d b) = hdr"
    "got s @ d = g @ take (dest + (recv_len (cl s) + length d)) (write_at (dest + recv_len (cl s)) d b)"
proof -
  from assms(1) obtain b where b: "buffer (cl s) = Some b" "length b = n" "dest + tot \<le> n" "take dest b = hdr"
    "got s = g @ take (dest + recv_len (cl s)) b" "tx s = None"
    "rx s = Some (dest + recv_len (cl s), tot - recv_len (cl s))"
    by (auto simp: receiving_def)
  have fits: "dest + recv_len (cl s) + length d \<le> length b" using b assms(3) by simp
  show thesis
    by (rule that[of b])
      (use b fits take_write_at_end[OF fits] take_write_at_before[of dest "dest + recv_len (cl s)" b d]
        in \<open>simp_all add: add.assoc\<close>)
qed

definition same_client :: "BSocksClient \<Rightarrow> BSocksClient \<Rightarrow> bool" where
  "same_client c c' \<longleftrightarrow> state c' = state c \<and> auth_info c' = auth_info c \<and> dest_addr c' = dest_addr c
     \<and> con_open c' = con_open c \<and> io c' = io c"

lemma same_client_resources: "same_client c c' \<Longrightarrow> resources c' = resources c"
  by (cases "state c") (simp_all add: same_client_def resources_def)

lemma received_more:
  assumes "receiving dest tot n hdr g s" and "0 < length d" and "recv_len (cl s) + length d < tot"
  shows "\<exists>s'. respond al (Received d) s = Inr s' \<and> receiving dest tot n hdr g s' \<and> sent s' = sent s
    \<and> evs s' = evs s \<and> same_client (cl s) (cl s') \<and> recv_len (cl s) < recv_len (cl s')"
proof -
  have tot: "recv_total (cl s) = tot" "recv_dest (cl s) = dest" using assms(1) by (simp_all add: receiving_def)
  from received_data[OF assms(1,2)] assms(3) obtain b where b: "length b = n" "dest + tot \<le> n"
    "rx s = Some (dest + recv_len (cl s), tot - recv_len (cl s))" "tx s = None"
    "buffer_write (dest + recv_len (cl s)) d (cl s)
       = Inr (cl s\<lparr>buffer := Some (write_at (dest + recv_len (cl s)) d b)\<rparr>)"
    "length (write_at (dest + recv_len (cl s)) d b) = n"
    "take dest (write_at (dest + recv_len (cl s)) d b) = hdr"
    "got s @ d = g @ take (dest + (recv_len (cl s) + length d)) (write_at (dest + recv_len (cl s)) d b)"
    by (metis less_imp_le)
  then show ?thesis
    using assms(2,3) tot
    by (simp add: recv_handler_done_def do_receive_def finish_recv receiving_def same_client_def add.assoc)
qed

lemma received_all:
  assumes "receiving dest tot n hdr g s" and "0 < length d" and "recv_len (cl s) + length d = tot"
  obtains c s1 b where "buffer c = Some b" "length b = n" "take dest b = hdr" "same_client (cl s) c"
    "cl s1 = cl s" "tx s1 = None" "rx s1 = None" "sent s1 = sent s" "evs s1 = evs s" "got s1 = g @ take (dest + tot) b"
    "respond al (Received d) s = bindE (case state (cl s) of
         SENT_HELLO \<Rightarrow> received_hello al c
       | SENT_REQUEST \<Rightarrow> received_reply_header c
       | SENT_PASSWORD \<Rightarrow> received_password_reply al c
       | RECEIVED_REPLY_HEADER \<Rightarrow> received_reply_rest c
       | _ \<Rightarrow> Inl AssertFailed) (finish s1)"
proof -
  have tot: "recv_total (cl s) = tot" using assms(1) by (simp add: receiving_def)
  from received_data[OF assms(1,2)] assms(3) obtain b where b: "length b = n" "dest + tot \<le> n"
    "rx s = Some (dest + recv_len (cl s), tot - recv_len (cl s))" "tx s = None"
    "buffer_write (dest + recv_len (cl s)) d (cl s)
       = Inr (cl s\<lparr>buffer := Some (write_at (dest + recv_len (cl s)) d b)\<rparr>)"
    "length (write_at (dest + recv_len (cl s)) d b) = n"
    "take dest (write_at (dest + recv_len (cl s)) d b) = hdr"
    "got s @ d = g @ take (dest + (recv_len (cl s) + length d)) (write_at (dest + recv_len (cl s)) d b)"
    by (metis order_refl)
  show thesis
  proof (rule that)
    let ?b = "write_at (dest + recv_len (cl s)) d b"
    show "buffer (cl s\<lparr>buffer := Some ?b, recv_len := recv_len (cl s) + length d\<rparr>) = Some ?b" by simp
    show "length ?b = n" "take dest ?b = hdr" using b by simp_all
    show "same_client (cl s) (cl s\<lparr>buffer := Some ?b, recv_len := recv_len (cl s) + length d\<rparr>)"
      by (simp add: same_client_def)
    show "got (s\<lparr>rx := None, got := got s @ d\<rparr>) = g @ take (dest + tot) ?b" using b assms(3) by simp
    show "respond al (Received d) s = bindE (case state (cl s) of
         SENT_HELLO \<Rightarrow> received_hello al (cl s\<lparr>buffer := Some ?b, recv_len := recv_len (cl s) + length d\<rparr>)
       | SENT_REQUEST \<Rightarrow> received_reply_header (cl s\<lparr>buffer := Some ?b, recv_len := recv_len (cl s) + length d\<rparr>)
       | SENT_PASSWORD \<Rightarrow> received_password_reply al (cl s\<lparr>buffer := Some ?b, recv_len := recv_len (cl s) + length d\<rparr>)
       | RECEIVED_REPLY_HEADER \<Rightarrow> received_reply_rest (cl s\<lparr>buffer := Some ?b, recv_len := recv_len (cl s) + length d\<rparr>)
       | _ \<Rightarrow> Inl AssertFailed) (finish (s\<lparr>rx := None, got := got s @ d\<rparr>))"
      using b assms(3) tot by (cases "state (cl s)") (simp_all add: recv_handler_done_def)
  qed (use b in simp_all)
qed

text \<open>The outcomes of a complete message: an error, or the next message is sent.\<close>

lemma error_step:
  assumes "error_result c h" "same_client (cl s) c" "evs s1 = []" "resources (cl s)" "state (cl s) \<noteq> UP"
    "auth_info (cl s) = auth_info c0" "dest_addr (cl s) = dest_addr c0" "alive s"
  shows "good_step c0 s (bindE h (finish s1))"
  using assms same_client_resources[OF assms(2)] remaining_pos[OF assms(8)]
  by (auto simp: good_step_def error_result_def finish_error same_client_def remaining_dead
      intro!: inv_error[where c = c])

lemma send_step:
  assumes "send_result c bs st h" "same_client (cl s) c" "evs s1 = []" "tx s1 = None" "rx s1 = None"
    "resources (cl s)" "state (cl s) \<notin> {UP, CONNECTING}" "st \<notin> {UP, CONNECTING}"
    "auth_info (cl s) = auth_info c0" "dest_addr (cl s) = dest_addr c0"
    and "\<And>s'. sending bs s' \<Longrightarrow> state (cl s') = st \<Longrightarrow> sent s' = sent s1 \<Longrightarrow> got s' = got s1 \<Longrightarrow>
      auth_info (cl s') = auth_info c0 \<Longrightarrow> dest_addr (cl s') = dest_addr c0 \<Longrightarrow> phase s'"
    and "alive s" "stage st < stage (state (cl s))"
  shows "good_step c0 s (bindE h (finish s1))"
proof -
  define s' where "s' = s1\<lparr>cl := c\<lparr>buffer := Some bs, state := st\<rparr>, tx := Some bs\<rparr>"
  have "bindE h (finish s1) = Inr s'" using assms(1,4) by (simp add: send_result_def finish_send s'_def)
  moreover have "phase s'"
    by (rule assms(11)) (use assms in \<open>simp_all add: s'_def sending_def same_client_def\<close>)
  moreover have "resources (cl s')"
    using assms(2,6-8) by (cases "state (cl s)"; cases st) (simp_all add: resources_def same_client_def s'_def)
  ultimately show ?thesis
    unfolding good_step_def using assms(2,3,5,8-10,12,13)
    by (intro exI[of _ s'] conjI inv_live) (simp_all add: s'_def same_client_def remaining_def alive_def)
qed

lemma two_bytes: "length b = 2 \<Longrightarrow> \<exists>x y. b = [x, y]"
  by (auto simp: numeral_2_eq_2 length_Suc_conv)

lemma hello_step:
  assumes "mem_ok al" and "wf_client c0" and inv: "socks_inv c0 s" and "alive s" and "state (cl s) = SENT_HELLO"
    and "0 < length d" and "recv_len (cl s) + length d = 2"
  shows "good_step c0 s (respond al (Received d) s)"
proof -
  from inv_down[OF inv] assms(4,5) have d: "auth_info (cl s) = auth_info c0" "dest_addr (cl s) = dest_addr c0"
    "resources (cl s)" "phase s" "evs s = []" by simp_all
  then have rc: "receiving 0 2 2 [] [] s" and sent: "sent s = hello (auth_info c0)"
    using assms(5) by (simp_all add: phase_def Let_def)
  obtain c s1 b where b: "buffer c = Some b" "length b = 2" and same: "same_client (cl s) c"
    and s1: "tx s1 = None" "rx s1 = None" "sent s1 = sent s" "evs s1 = evs s" "got s1 = b"
    and h: "respond al (Received d) s = bindE (received_hello al c) (finish s1)"
  proof (rule received_all[OF rc assms(6,7), of al], goal_cases)
    case (1 c s1 b)
    then show ?case using assms(5) that[of c b s1] by simp
  qed
  have c: "auth_info c = auth_info c0" "dest_addr c = dest_addr c0" using same d by (simp_all add: same_client_def)
  then have "wf_client c" using assms(2) by (simp add: wf_client_def)
  from received_hello_cases[OF assms(1) this b] show ?thesis
  proof (elim disjE conjE exE)
    assume "error_result c (received_hello al c)"
    then show ?thesis unfolding h by (rule error_step) (use same s1 d assms(4,5) in simp_all)
  next
    assume "auth_talk (auth_info c) [] b"
      "send_result c (request (dest_addr c)) SENDING_REQUEST (received_hello al c)"
    then show ?thesis
      unfolding h
      by (elim send_step) (use same s1 d c sent assms(4,5) in \<open>auto simp: phase_def Let_def\<close>)
  next
    fix ai
    assume "b = [SOCKS_VERSION, 2]" "password_ok (auth_info c) ai"
      "send_result c (password_packet ai) SENDING_PASSWORD (received_hello al c)"
    then show ?thesis
      unfolding h
      by (elim send_step) (use same s1 d c sent assms(4,5) in \<open>auto simp: phase_def Let_def\<close>)
  qed
qed

lemma password_step:
  assumes "mem_ok al" and "wf_client c0" and inv: "socks_inv c0 s" and "alive s" and "state (cl s) = SENT_PASSWORD"
    and "0 < length d" and "recv_len (cl s) + length d = 2"
  shows "good_step c0 s (respond al (Received d) s)"
proof -
  from inv_down[OF inv] assms(4,5) have d: "auth_info (cl s) = auth_info c0" "dest_addr (cl s) = dest_addr c0"
    "resources (cl s)" "phase s" "evs s = []" by simp_all
  then obtain ai where ai: "password_ok (auth_info c0) ai" and rc: "receiving 0 2 2 [] [SOCKS_VERSION, 2] s"
    and sent: "sent s = hello (auth_info c0) @ password_packet ai"
    using assms(5) by (auto simp: phase_def Let_def)
  obtain c s1 b where b: "buffer c = Some b" "length b = 2" and same: "same_client (cl s) c"
    and s1: "tx s1 = None" "rx s1 = None" "sent s1 = sent s" "evs s1 = evs s" "got s1 = [SOCKS_VERSION, 2] @ b"
    and h: "respond al (Received d) s = bindE (received_password_reply al c) (finish s1)"
  proof (rule received_all[OF rc assms(6,7), of al], goal_cases)
    case (1 c s1 b)
    then show ?case using assms(5) that[of c b s1] by simp
  qed
  have c: "auth_info c = auth_info c0" "dest_addr c = dest_addr c0" using same d by (simp_all add: same_client_def)
  then have "wf_addr (dest_addr c)" using assms(2) by (simp add: wf_client_def)
  note cases = auth_finished_cases[OF assms(1) this]
  from two_bytes[OF b(2)] obtain x y where xy: "b = [x, y]" by blast
  show ?thesis
  proof (cases "x = 1 \<and> y = 0")
    case False
    then have "error_result c (received_password_reply al c)"
      using b xy by (auto simp: received_password_reply_def error_result_def report_error_def)
    then show ?thesis unfolding h by (rule error_step) (use same s1 d assms(4,5) in simp_all)
  next
    case True
    then have fin: "received_password_reply al c = auth_finished al c"
      using b xy by (simp add: received_password_reply_def)
    have "auth_talk (auth_info c0) (password_packet ai) (got s1)"
      using ai s1(5) xy True by (auto simp: auth_talk_def)
    from cases this show ?thesis
      unfolding h fin
    proof (elim disjE)
      assume "error_result c (auth_finished al c)"
      then show "good_step c0 s (bindE (auth_finished al c) (finish s1))"
        by (rule error_step) (use same s1 d assms(4,5) in simp_all)
    next
      assume "send_result c (request (dest_addr c)) SENDING_REQUEST (auth_finished al c)"
        and "auth_talk (auth_info c0) (password_packet ai) (got s1)"
      then show "good_step c0 s (bindE (auth_finished al c) (finish s1))"
        by (elim send_step) (use same s1 d c sent assms(4,5) in \<open>auto simp: phase_def Let_def\<close>)
    qed
  qed
qed

lemma phase_reply_header:
  assumes "state (cl s) = RECEIVED_REPLY_HEADER" "auth_talk (auth_info (cl s)) a g" "t = 1 \<or> t = 4"
    "receiving 4 (if t = 1 then 6 else 18) 22 [SOCKS_VERSION, 0, x, t] g s"
    "sent s = hello (auth_info (cl s)) @ a @ request (dest_addr (cl s))"
  shows "phase s"
proof -
  have "\<exists>a g x t. auth_talk (auth_info (cl s)) a g \<and> t \<in> {1, 4}
      \<and> receiving 4 (if t = 1 then 6 else 18) 22 [SOCKS_VERSION, 0, x, t] g s
      \<and> sent s = hello (auth_info (cl s)) @ a @ request (dest_addr (cl s))"
    using assms(2-5) by blast
  with assms(1) show ?thesis by (simp add: phase_def Let_def)
qed

lemma reply_header_step:
  assumes inv: "socks_inv c0 s" and "alive s" and "state (cl s) = SENT_REQUEST"
    and "0 < length d" and "recv_len (cl s) + length d = 4"
  shows "good_step c0 s (respond al (Received d) s)"
proof -
  from inv_down[OF inv] assms(2,3) have d: "auth_info (cl s) = auth_info c0" "dest_addr (cl s) = dest_addr c0"
    "resources (cl s)" "phase s" "evs s = []" by simp_all
  then obtain a g where talk: "auth_talk (auth_info c0) a g" and rc: "receiving 0 4 22 [] g s"
    and sent: "sent s = hello (auth_info c0) @ a @ request (dest_addr c0)"
    using assms(3) by (auto simp: phase_def Let_def)
  obtain c s1 b where b: "buffer c = Some b" "length b = 22" and same: "same_client (cl s) c"
    and s1: "tx s1 = None" "rx s1 = None" "sent s1 = sent s" "evs s1 = evs s" "got s1 = g @ take 4 b"
    and h: "respond al (Received d) s = bindE (received_reply_header c) (finish s1)"
  proof (rule received_all[OF rc assms(4,5), of al], goal_cases)
    case (1 c s1 b)
    then show ?case using assms(3) that[of c b s1] by simp
  qed
  from length_4_eq_list[of "take 4 b"] b(2) obtain v r x t where m: "take 4 b = [v, r, x, t]" by auto
  show ?thesis
  proof (cases "v = SOCKS_VERSION \<and> r = 0 \<and> (t = 1 \<or> t = 4)")
    case False
    then have "error_result c (received_reply_header c)"
      using b m by (auto simp: received_reply_header_def error_result_def report_error_def)
    then show ?thesis unfolding h by (rule error_step) (use same s1 d assms(2,3) in simp_all)
  next
    case True
    define tot where "tot = (if t = 1 then 6 else 18 :: nat)"
    define c' where "c' = c\<lparr>recv_dest := 4, recv_len := 0, recv_total := tot, state := RECEIVED_REPLY_HEADER\<rparr>"
    define s' where "s' = s1\<lparr>cl := c', rx := Some (4, tot)\<rparr>"
    have "received_reply_header c = Inr (c', [Recv 4 tot])"
      using b m True
      by (auto simp: received_reply_header_def start_receive_def do_receive_def c'_def tot_def)
    moreover have "0 < tot" by (simp add: tot_def)
    ultimately have "respond al (Received d) s = Inr s'"
      unfolding h using s1(2) by (simp add: finish_recv s'_def)
    moreover have "receiving 4 tot 22 [SOCKS_VERSION, 0, x, t] g s'"
      using s1 b m True by (auto simp: receiving_def s'_def c'_def tot_def)
    then have "phase s'"
      by (intro phase_reply_header[of s' a g t x])
        (use talk True same d sent s1(3) in \<open>simp_all add: s'_def c'_def tot_def same_client_def\<close>)
    moreover have "resources c'"
      using same d(3) assms(3) by (simp add: resources_def c'_def same_client_def)
    moreover have "remaining s' < remaining s"
      using s1(4) d(5) assms(3) by (simp add: remaining_live s'_def c'_def tot_def)
    ultimately show ?thesis
      unfolding good_step_def using same d s1(4)
      by (intro exI[of _ s'] conjI inv_live) (simp_all add: s'_def c'_def same_client_def)
  qed
qed

lemma reply_rest_step:
  assumes inv: "socks_inv c0 s" and "alive s" and "state (cl s) = RECEIVED_REPLY_HEADER"
    and "0 < length d" and "recv_len (cl s) + length d = recv_total (cl s)"
  shows "good_step c0 s (respond al (Received d) s)"
proof -
  from inv_down[OF inv] assms(2,3) have d: "auth_info (cl s) = auth_info c0" "dest_addr (cl s) = dest_addr c0"
    "resources (cl s)" "phase s" "evs s = []" by simp_all
  then have "\<exists>a g x t. auth_talk (auth_info c0) a g \<and> t \<in> {1, 4}
      \<and> receiving 4 (if t = 1 then 6 else 18) 22 [SOCKS_VERSION, 0, x, t] g s
      \<and> sent s = hello (auth_info c0) @ a @ request (dest_addr c0)"
    using assms(3) by (simp add: phase_def Let_def)
  then obtain a g x t tot where talk: "auth_talk (auth_info c0) a g" and t: "t \<in> {1, 4}"
    and tot: "tot = (if t = 1 then 6 else 18)"
    and rc: "receiving 4 tot 22 [SOCKS_VERSION, 0, x, t] g s"
    and sent: "sent s = hello (auth_info c0) @ a @ request (dest_addr c0)"
    by blast
  have full: "recv_len (cl s) + length d = tot" using assms(5) rc by (simp add: receiving_def)
  obtain c s1 b where b: "buffer c = Some b" "length b = 22" "take 4 b = [SOCKS_VERSION, 0, x, t]"
    and same: "same_client (cl s) c"
    and s1: "tx s1 = None" "rx s1 = None" "sent s1 = sent s" "evs s1 = evs s" "got s1 = g @ take (4 + tot) b"
    and h: "respond al (Received d) s = bindE (received_reply_rest c) (finish s1)"
  proof (rule received_all[OF rc assms(4) full, of al], goal_cases)
    case (1 c s1 b)
    then show ?case using assms(3) that[of c b s1] by simp
  qed
  define c' where "c' = c\<lparr>buffer := None, io := IONone, io := IOUp, state := UP\<rparr>"
  define s' where "s' = s1\<lparr>cl := c', evs := [EVENT_UP]\<rparr>"
  from same d(3) assms(3) have res: "con_open c" "io c = IOControl"
    by (simp_all add: same_client_def resources_def)
  then have "respond al (Received d) s = Inr s'"
    unfolding h using s1(4) d(5)
    by (simp add: received_reply_rest_def free_control_io_def init_up_io_def finish_def s'_def c'_def)
  moreover have "good_reply (take (4 + tot) b)"
    using b t tot by (auto simp: good_reply_def take_add)
  then have "conversation c0 s'" "phase s'"
    using talk sent s1 same d by (auto simp: conversation_def phase_def s'_def c'_def same_client_def)
  moreover have "alive s'" "resources c'" using res by (simp_all add: alive_def s'_def resources_def c'_def)
  moreover have "remaining s' < remaining s"
    using d(5) assms(3) s1(2) by (simp add: remaining_def alive_def s'_def c'_def)
  ultimately show ?thesis
    unfolding good_step_def using same d
    by (intro exI[of _ s']) (simp add: socks_inv_def s'_def c'_def same_client_def up_events_def)
qed

lemma more_step:
  assumes "receiving dest tot n hdr g s" and "0 < length d" and "recv_len (cl s) + length d < tot"
    and inv: "socks_inv c0 s" and "alive s" and "state (cl s) \<noteq> UP"
    and nxt: "\<And>s'. receiving dest tot n hdr g s' \<Longrightarrow> sent s' = sent s \<Longrightarrow> same_client (cl s) (cl s') \<Longrightarrow> phase s'"
  shows "good_step c0 s (respond al (Received d) s)"
proof -
  from received_more[OF assms(1-3)] obtain s' where s': "respond al (Received d) s = Inr s'"
    "receiving dest tot n hdr g s'" "sent s' = sent s" "evs s' = evs s" "same_client (cl s) (cl s')"
    "recv_len (cl s) < recv_len (cl s')" by metis
  note d = inv_down[OF inv assms(5,6)]
  have "remaining s' < remaining s"
  proof -
    have "recv_total (cl s') = recv_total (cl s)" "recv_len (cl s') < recv_total (cl s)" "rx s \<noteq> None" "rx s' \<noteq> None"
      using s'(2) assms(1) by (simp_all add: receiving_def)
    then have "remaining s = stage (state (cl s)) + (recv_total (cl s) - recv_len (cl s))"
      "remaining s' = stage (state (cl s)) + (recv_total (cl s) - recv_len (cl s'))"
      using s'(4,5) d(5) by (auto simp: remaining_live same_client_def)
    with s'(6) \<open>recv_len (cl s') < recv_total (cl s)\<close> show ?thesis by linarith
  qed
  moreover have "phase s'" by (rule nxt) (use s' in simp_all)
  moreover have "resources (cl s')" using same_client_resources[OF s'(5)] d(3) by simp
  ultimately show ?thesis
    unfolding good_step_def using s' d assms(6)
    by (intro exI[of _ s'] conjI inv_live) (simp_all add: same_client_def)
qed

lemma received_step:
  assumes "mem_ok al" and "wf_client c0" and inv: "socks_inv c0 s" and "enabled (Received d) s"
  shows "good_step c0 s (respond al (Received d) s)"
proof -
  from assms(4) obtain off k where al: "alive s" and rx: "rx s = Some (off, k)" and len: "0 < length d" "length d \<le> k"
    by (auto split: option.splits)
  from inv al rx have up: "state (cl s) \<noteq> UP" by (auto simp: socks_inv_def phase_def Let_def)
  note d = inv_down[OF inv al up]
  have fit: "recv_len (cl s) + length d \<le> tot" if "receiving dest tot n hdr g s" for dest tot n hdr g
    using that rx len by (auto simp: receiving_def)
  show ?thesis
  proof (cases "state (cl s)")
    case SENT_HELLO
    then have rc: "receiving 0 2 2 [] [] s" and se: "sent s = hello (auth_info (cl s))"
      using d(4) by (simp_all add: phase_def Let_def)
    show ?thesis
    proof (cases "recv_len (cl s) + length d = 2")
      case True
      then show ?thesis using hello_step[OF assms(1,2) inv al SENT_HELLO len(1)] by simp
    next
      case False
      with fit[OF rc] show ?thesis
        by (intro more_step[OF rc len(1) _ inv al up])
          (use SENT_HELLO se in \<open>auto simp: phase_def Let_def same_client_def\<close>)
    qed
  next
    case SENT_PASSWORD
    then obtain ai where rc: "receiving 0 2 2 [] [SOCKS_VERSION, 2] s" and ai: "password_ok (auth_info (cl s)) ai"
      and se: "sent s = hello (auth_info (cl s)) @ password_packet ai"
      using d(4) by (auto simp: phase_def Let_def)
    show ?thesis
    proof (cases "recv_len (cl s) + length d = 2")
      case True
      then show ?thesis using password_step[OF assms(1,2) inv al SENT_PASSWORD len(1)] by simp
    next
      case False
      with fit[OF rc] show ?thesis
        by (intro more_step[OF rc len(1) _ inv al up])
          (use SENT_PASSWORD ai se in \<open>auto simp: phase_def Let_def same_client_def\<close>)
    qed
  next
    case SENT_REQUEST
    then obtain a g where rc: "receiving 0 4 22 [] g s" and ag: "auth_talk (auth_info (cl s)) a g"
      and se: "sent s = hello (auth_info (cl s)) @ a @ request (dest_addr (cl s))"
      using d(4) by (auto simp: phase_def Let_def)
    show ?thesis
    proof (cases "recv_len (cl s) + length d = 4")
      case True
      then show ?thesis using reply_header_step[OF inv al SENT_REQUEST len(1)] by simp
    next
      case False
      with fit[OF rc] show ?thesis
        by (intro more_step[OF rc len(1) _ inv al up])
          (use SENT_REQUEST ag se in \<open>auto simp: phase_def Let_def same_client_def\<close>)
    qed
  next
    case RECEIVED_REPLY_HEADER
    then have "\<exists>a g x t. auth_talk (auth_info (cl s)) a g \<and> t \<in> {1, 4}
        \<and> receiving 4 (if t = 1 then 6 else 18) 22 [SOCKS_VERSION, 0, x, t] g s
        \<and> sent s = hello (auth_info (cl s)) @ a @ request (dest_addr (cl s))"
      using d(4) by (simp add: phase_def Let_def)
    then obtain a g x t where rc: "receiving 4 (if t = 1 then 6 else 18) 22 [SOCKS_VERSION, 0, x, t] g s"
      and ag: "auth_talk (auth_info (cl s)) a g" and t: "t = 1 \<or> t = 4"
      and se: "sent s = hello (auth_info (cl s)) @ a @ request (dest_addr (cl s))" by blast
    have tot: "recv_total (cl s) = (if t = 1 then 6 else 18)" using rc by (simp only: receiving_def)
    show ?thesis
    proof (cases "recv_len (cl s) + length d = recv_total (cl s)")
      case True
      then show ?thesis using reply_rest_step[OF inv al RECEIVED_REPLY_HEADER len(1)] by simp
    next
      case False
      then have "recv_len (cl s) + length d < (if t = 1 then 6 else 18)" using fit[OF rc] tot by simp
      then show ?thesis
      proof (rule more_step[OF rc len(1) _ inv al up])
        fix s'
        assume "receiving 4 (if t = 1 then 6 else 18) 22 [SOCKS_VERSION, 0, x, t] g s'" "sent s' = sent s"
          "same_client (cl s) (cl s')"
        then show "phase s'"
          by (intro phase_reply_header[of s' a g t x])
            (use RECEIVED_REPLY_HEADER ag t se in \<open>simp_all add: same_client_def\<close>)
      qed
    qed
  qed (use d(4) rx up in \<open>auto simp: phase_def Let_def sending_def\<close>)
qed

lemma con_event_step:
  assumes inv: "socks_inv c0 s" and "enabled (ConEvent closed) s"
  shows "good_step c0 s (respond al (ConEvent closed) s)"
proof -
  from assms(2) have al: "alive s" "con_open (cl s)" by simp_all
  with inv have st: "state (cl s) \<noteq> CONNECTING" and ev: "evs s = up_events (state (cl s))"
    by (auto simp: socks_inv_def resources_def)
  define e where "e = (if state (cl s) = UP \<and> closed then EVENT_ERROR_CLOSED else EVENT_ERROR)"
  define s' where "s' = s\<lparr>evs := evs s @ [e]\<rparr>"
  have "respond al (ConEvent closed) s = Inr s'"
    using st by (simp add: connection_handler_def report_error_def finish_def s'_def e_def)
  moreover have dead: "\<not> alive s'" by (simp add: alive_def s'_def e_def)
  moreover have "socks_inv c0 s'"
    using inv dead ev al by (auto simp: socks_inv_def s'_def e_def conversation_def)
  moreover have "remaining s' < remaining s" using remaining_pos[OF al(1)] dead by (simp add: remaining_def)
  ultimately show ?thesis by (auto simp: good_step_def)
qed

lemma socks_step:
  assumes "mem_ok al" and "wf_client c0" and "socks_inv c0 s" and "enabled x s"
  shows "good_step c0 s (respond al x s)"
proof (cases x)
  case (Connected ok err)
  with assms connected_step[OF assms(1,3)] show ?thesis by blast
next
  case SendDone
  with assms send_done_step[OF assms(1,3)] show ?thesis by blast
next
  case (Received d)
  with assms received_step[OF assms(1-3)] show ?thesis by blast
next
  case (ConEvent closed)
  with assms con_event_step[OF assms(3)] show ?thesis by blast
qed

lemma reachable_inv:
  assumes "reachable al s0 s" and "mem_ok al" and "wf_client c0" and "socks_inv c0 s0"
  shows "socks_inv c0 s"
  using assms(1)
proof (induction rule: reachable.induct)
  case (step s x s')
  with socks_step[OF assms(2,3), of s x] show ?case by (auto simp: good_step_def)
qed (rule assms(4))

lemma start_inv:
  assumes "BSocksClient_Init ok ais dest = Inr (Some c)" and "wf_addr dest"
  shows "wf_client c" "socks_inv c (socks_start c)" "auth_info c = ais" "dest_addr c = dest"
  using assms
  by (auto simp: BSocksClient_Init_def wf_client_def socks_inv_def socks_start_def alive_def phase_def
      resources_def up_events_def guardE_def split: if_splits)

section \<open>Properties\<close>

text \<open>
  C10. Whatever the server sends and in whatever pieces, whatever allocations fail and whenever the
  connection breaks, no handler of a client that \<open>BSocksClient_Init\<close> set up fails an assertion,
  leaves its buffer, starts an operation while one is in progress or frees what it does not hold,
  and \<open>BSocksClient_Free\<close> is possible at every point.
\<close>

theorem socks_client_safe:
  assumes "mem_ok al" and "wf_addr dest" and "BSocksClient_Init ok ais dest = Inr (Some c)"
    and "reachable al (socks_start c) s"
  shows "(\<forall>x. enabled x s \<longrightarrow> (\<exists>s'. respond al x s = Inr s'))
    \<and> (\<exists>c'. BSocksClient_Free (cl s) = Inr c' \<and> \<not> con_open c' \<and> io c' = IONone \<and> buffer c' = None)"
proof -
  note st = start_inv[OF assms(3,2)]
  from reachable_inv[OF assms(4,1) st(1,2)] have inv: "socks_inv c s" .
  then have "resources (cl s)" by (simp add: socks_inv_def)
  then have "\<exists>c'. BSocksClient_Free (cl s) = Inr c' \<and> \<not> con_open c' \<and> io c' = IONone \<and> buffer c' = None"
    by (cases "state (cl s)")
      (simp_all add: resources_def BSocksClient_Free_def free_up_io_def free_control_io_def free_connection_def)
  with socks_step[OF assms(1) st(1) inv] show ?thesis by (auto simp: good_step_def)
qed

text \<open>
  C23. The client reports that it is up only after a complete conversation: it has sent exactly its
  hello, the password packet if that method was chosen, and the request for its destination, and the
  server has answered with a method the client offered, with success and with a bound address.
\<close>

theorem socks_up_conversation:
  assumes "mem_ok al" and "wf_addr dest" and "BSocksClient_Init ok ais dest = Inr (Some c)"
    and "reachable al (socks_start c) s" and "EVENT_UP \<in> set (evs s)"
  shows "\<exists>a g r. auth_talk ais a g \<and> good_reply r \<and> sent s = hello ais @ a @ request dest \<and> got s = g @ r"
proof -
  note st = start_inv[OF assms(3,2)]
  from reachable_inv[OF assms(4,1) st(1,2)] have inv: "socks_inv c s" .
  with assms(5) have "state (cl s) = UP"
    by (auto simp: socks_inv_def up_events_def split: if_splits)
  with inv st show ?thesis by (simp add: socks_inv_def conversation_def)
qed

text \<open>
  A client that is neither up nor failed always waits for exactly one thing: the connection, the
  end of a send, or more data; it never hangs with nothing in progress.
\<close>

theorem socks_never_idle:
  assumes "mem_ok al" and "wf_addr dest" and "BSocksClient_Init ok ais dest = Inr (Some c)"
    and "reachable al (socks_start c) s" and "alive s" and "state (cl s) \<noteq> UP"
  shows "state (cl s) = CONNECTING \<and> tx s = None \<and> rx s = None
    \<or> tx s \<noteq> None \<and> rx s = None
    \<or> tx s = None \<and> (\<exists>off n. rx s = Some (off, n) \<and> 0 < n)"
proof -
  note st = start_inv[OF assms(3,2)]
  from reachable_inv[OF assms(4,1) st(1,2)] have inv: "socks_inv c s" .
  from inv_down(4)[OF this assms(5,6)] show ?thesis
    by (cases "state (cl s)") (auto simp: phase_def Let_def sending_def receiving_def assms(6))
qed

text \<open>Runs of the client as lists of events.\<close>

fun socks_run :: "memory \<Rightarrow> socks_input list \<Rightarrow> socks_sys \<Rightarrow> socks_sys option" where
  "socks_run al [] s = Some s"
| "socks_run al (x # xs) s =
     (if enabled x s then (case respond al x s of Inl _ \<Rightarrow> None | Inr s' \<Rightarrow> socks_run al xs s') else None)"

lemma socks_run_reachable:
  "reachable al s0 s \<Longrightarrow> socks_run al xs s = Some s' \<Longrightarrow> reachable al s0 s'"
  by (induction xs arbitrary: s) (auto split: if_splits sum.splits intro: reachable.step)

lemma socks_run_bound:
  assumes "mem_ok al" and "wf_client c0" and "socks_inv c0 s" and "socks_run al xs s = Some s'"
  shows "length xs + remaining s' \<le> remaining s"
  using assms(3,4)
proof (induction xs arbitrary: s)
  case (Cons x xs)
  then have en: "enabled x s" by (auto split: if_splits)
  from socks_step[OF assms(1,2) Cons.prems(1) en] obtain s1 where
    s1: "respond al x s = Inr s1" "socks_inv c0 s1" "remaining s1 < remaining s" by (auto simp: good_step_def)
  with Cons.IH[of s1] Cons.prems(2) en show ?case by simp
qed simp

text \<open>
  C34. The handshake ends: from the start at most 100 events happen, so every run in which operations
  complete reaches the up state or an error, even when every byte arrives on its own.
\<close>

theorem socks_handshake_ends:
  assumes "mem_ok al" and "wf_addr dest" and "BSocksClient_Init ok ais dest = Inr (Some c)"
    and "socks_run al xs (socks_start c) = Some s"
  shows "length xs \<le> 100"
proof -
  note st = start_inv[OF assms(3,2)]
  have "state c = CONNECTING" using assms(3) by (auto simp: BSocksClient_Init_def guardE_def split: if_splits)
  then have "remaining (socks_start c) = 100" by (simp add: remaining_def socks_start_def alive_def)
  with socks_run_bound[OF assms(1) st(1,2) assms(4)] show ?thesis by simp
qed

section \<open>A concrete run\<close>

definition demo_mem :: memory where
  "demo_mem n = Some (replicate n 0)"

definition demo_auth :: "auth_info list" where
  "demo_auth = [\<lparr>auth_type = 0, username = [], password = []\<rparr>, \<lparr>auth_type = 2, username = [97], password = [98]\<rparr>]"

definition demo_client :: BSocksClient where
  "demo_client = \<lparr>auth_info = demo_auth, dest_addr = IPv4 [1, 2, 3, 4] [0, 80], state = CONNECTING, buffer = None,
     con_open = False, io = IONone, recv_dest = 0, recv_len = 0, recv_total = 0\<rparr>"

definition demo_inputs :: "socks_input list" where
  "demo_inputs = [Connected True False, SendDone, Received [5], Received [2], SendDone, Received [1, 0], SendDone,
     Received [5, 0, 0], Received [1], Received [127, 0, 0, 1, 0, 0]]"

definition demo_end :: socks_sys where
  "demo_end = (case socks_run demo_mem demo_inputs (socks_start demo_client) of Some s \<Rightarrow> s | None \<Rightarrow> socks_start demo_client)"

lemma demo_run: "socks_run demo_mem demo_inputs (socks_start demo_client) \<noteq> None \<and> evs demo_end = [EVENT_UP]"
  by code_simp

lemma demo_mid: "map_option (\<lambda>s. (alive s, state (cl s))) (socks_run demo_mem (take 3 demo_inputs) (socks_start demo_client))
    = Some (True, SENT_HELLO)"
  by code_simp

lemma demo_facts:
  "mem_ok demo_mem" "wf_addr (IPv4 [1, 2, 3, 4] [0, 80])"
  "BSocksClient_Init True demo_auth (IPv4 [1, 2, 3, 4] [0, 80]) = Inr (Some demo_client)"
  "socks_run demo_mem demo_inputs (socks_start demo_client) = Some demo_end"
  "reachable demo_mem (socks_start demo_client) demo_end"
proof -
  show run: "socks_run demo_mem demo_inputs (socks_start demo_client) = Some demo_end"
    using demo_run by (auto simp: demo_end_def)
  show "reachable demo_mem (socks_start demo_client) demo_end"
    by (rule socks_run_reachable[OF reachable.start run])
qed (simp_all add: mem_ok_def demo_mem_def wf_addr_def BSocksClient_Init_def demo_auth_def demo_client_def
    METHOD_NONE_def METHOD_PASSWORD_def)

lemma demo_end_open: "enabled (ConEvent True) demo_end"
  by code_simp

theorem socks_client_safe_witness:
  "(\<exists>s'. respond demo_mem (ConEvent True) demo_end = Inr s')
    \<and> (\<exists>c'. BSocksClient_Free (cl demo_end) = Inr c' \<and> \<not> con_open c' \<and> io c' = IONone \<and> buffer c' = None)"
  using socks_client_safe[OF demo_facts(1-3,5)] demo_end_open by blast

theorem socks_up_conversation_witness:
  "\<exists>a g r. auth_talk demo_auth a g \<and> good_reply r
     \<and> sent demo_end = hello demo_auth @ a @ request (IPv4 [1, 2, 3, 4] [0, 80]) \<and> got demo_end = g @ r"
  by (rule socks_up_conversation[OF demo_facts(1-3,5)]) (simp add: demo_run)

theorem socks_never_idle_witness:
  "\<exists>s. socks_run demo_mem (take 3 demo_inputs) (socks_start demo_client) = Some s
     \<and> (state (cl s) = CONNECTING \<and> tx s = None \<and> rx s = None
        \<or> tx s \<noteq> None \<and> rx s = None
        \<or> tx s = None \<and> (\<exists>off n. rx s = Some (off, n) \<and> 0 < n))"
proof -
  from demo_mid obtain s where s: "socks_run demo_mem (take 3 demo_inputs) (socks_start demo_client) = Some s"
    "alive s" "state (cl s) = SENT_HELLO" by auto
  from socks_never_idle[OF demo_facts(1-3) socks_run_reachable[OF reachable.start s(1)] s(2)] s(1,3)
  show ?thesis by auto
qed

theorem socks_handshake_ends_witness: "length demo_inputs \<le> 100"
  by (rule socks_handshake_ends[OF demo_facts(1-4)])

end
