(* ===== verification/SocksUser.thy ===== *)
theory SocksUser
  imports BSocksClient
begin

text \<open>
  What the users of the SOCKS5 client rely on: it can be freed in every state, a handler makes one call, and a step
  reports nothing, that the client is up, or an error.
\<close>

lemma BSocksClient_Free_ok: "resources c \<Longrightarrow> \<exists>c'. BSocksClient_Free c = Inr c'"
  by (cases "BSocksClient.state c")
    (simp_all add: resources_def BSocksClient_Free_def free_up_io_def free_control_io_def free_connection_def)

text \<open>A handler of the SOCKS client makes one call.\<close>

lemma report_calls:
  "report_error c e = (c', cs) \<Longrightarrow> \<exists>x. cs = [x]"
  "do_receive c = Inr (c', cs) \<Longrightarrow> \<exists>x. cs = [x]"
  "start_receive c d n = Inr (c', cs) \<Longrightarrow> \<exists>x. cs = [x]"
  "send_buffer c n st = Inr (c', cs) \<Longrightarrow> \<exists>x. cs = [x]"
  by (auto simp: report_error_def do_receive_def start_receive_def send_buffer_def bindE_Inr_iff)

lemma auth_finished_calls: "auth_finished al c = Inr (c', cs) \<Longrightarrow> \<exists>x. cs = [x]"
  by (auto simp: auth_finished_def Let_def bindE_Inr_iff split: option.splits BSocksClient.BAddr.splits dest!: report_calls)

lemma handler_calls:
  "connector_handler al ok err c = Inr (c', cs) \<Longrightarrow> \<exists>x. cs = [x]"
  "connection_handler closed c = Inr (c', cs) \<Longrightarrow> \<exists>x. cs = [x]"
  "received_hello al c = Inr (c', cs) \<Longrightarrow> \<exists>x. cs = [x]"
  "received_reply_header c = Inr (c', cs) \<Longrightarrow> \<exists>x. cs = [x]"
  "received_password_reply al c = Inr (c', cs) \<Longrightarrow> \<exists>x. cs = [x]"
  "received_reply_rest c = Inr (c', cs) \<Longrightarrow> \<exists>x. cs = [x]"
  "receive_into al c sz tot st = Inr (c', cs) \<Longrightarrow> \<exists>x. cs = [x]"
  subgoal by (auto simp: connector_handler_def Let_def bindE_Inr_iff split: if_splits option.splits dest!: report_calls)
  subgoal by (auto simp: connection_handler_def bindE_Inr_iff split: if_splits dest!: report_calls)
  subgoal by (auto simp: received_hello_def Let_def bindE_Inr_iff split: if_splits option.splits dest!: report_calls auth_finished_calls)
  subgoal by (auto simp: received_reply_header_def bindE_Inr_iff split: if_splits dest!: report_calls)
  subgoal by (auto simp: received_password_reply_def bindE_Inr_iff split: if_splits dest!: report_calls auth_finished_calls)
  subgoal by (auto simp: received_reply_rest_def bindE_Inr_iff)
  subgoal by (auto simp: receive_into_def bindE_Inr_iff split: option.splits dest!: report_calls)
  done

lemma io_calls:
  "recv_handler_done al n c = Inr (c', cs) \<Longrightarrow> \<exists>x. cs = [x]"
  "send_handler_done al c = Inr (c', cs) \<Longrightarrow> \<exists>x. cs = [x]"
  by (auto simp: recv_handler_done_def send_handler_done_def Let_def bindE_Inr_iff split: if_splits socks_state.splits
      dest!: report_calls handler_calls)

lemma finish_events: "finish s (c, [x]) = Inr s' \<Longrightarrow> evs s' = evs s \<or> (\<exists>e. evs s' = evs s @ [e])"
  by (cases x) (auto simp: finish_def bindE_Inr_iff)

lemma respond_events: "respond al x s = Inr s' \<Longrightarrow> evs s' = evs s \<or> (\<exists>e. evs s' = evs s @ [e])"
  by (cases x) (auto simp: bindE_Inr_iff split: option.splits dest!: handler_calls io_calls finish_events)

text \<open>What the SOCKS client reports in a step: nothing, that it is up, or an error.\<close>

lemma socks_reports:
  assumes "socks_inv c0 s" and "alive s" and "socks_inv c0 s'" and "respond al x s = Inr s'"
  obtains "evs s' = evs s" "alive s'" "BSocksClient.state (cl s') = UP \<longleftrightarrow> BSocksClient.state (cl s) = UP"
  | "evs s' = evs s @ [EVENT_UP]" "alive s'" "BSocksClient.state (cl s') = UP" "BSocksClient.state (cl s) \<noteq> UP"
  | e where "evs s' = evs s @ [e]" "e = EVENT_ERROR \<or> e = EVENT_ERROR_CLOSED"
  using assms respond_events[OF assms(4)] by (auto simp: socks_inv_def up_events_def alive_def split: if_splits)

end
