(* ===== verification/SocksUdpGwClient.thy ===== *)
theory SocksUdpGwClient
  imports UdpGwSystem SocksUser
begin

text \<open>
  The UDP gateway client with its SOCKS connection (\<^verbatim>\<open>tun2socks/SocksUdpGwClient.c\<close>, as built without
  \<^verbatim>\<open>BADVPN_SOCKS_UDP_RELAY\<close>): it connects to the gateway through a SOCKS server, lends the connection to the gateway
  client while it is up, and tries again some time after every failure.

  \<^item> \<open>su_gw\<close> is the gateway client with its surroundings, \<open>su_socks\<close> the SOCKS client with its connection.
  \<^item> \<open>reconnect_timer\<close> says whether the timer is running; \<open>BReactor_SetTimer\<close> starts it.
  \<^item> \<open>connector_ok\<close> and \<open>decoder_ok\<close> say whether the connector and the packet decoder can be set up.
\<close>

record socks_udpgw_client =
  su_gw :: gw_sys
  su_socks :: socks_sys
  su_auth_info :: "auth_info list"
  remote_udpgw_addr :: BSocksClient.BAddr
  reconnect_timer :: bool
  have_socks :: bool
  socks_up :: bool

definition free_socks :: "socks_udpgw_client \<Rightarrow> socks_udpgw_client run" where
  "free_socks o1 =
     bindE (guardE (have_socks o1) AssertFailed) (\<lambda>_.
     bindE (if socks_up o1 then UdpGwClient_DisconnectServer (sys_g (su_gw o1)) else Inr (sys_g (su_gw o1))) (\<lambda>g.
     bindE (BSocksClient_Free (cl (su_socks o1))) (\<lambda>c.
       Inr (o1\<lparr>su_gw := (su_gw o1)\<lparr>sys_g := g\<rparr>, su_socks := (su_socks o1)\<lparr>cl := c\<rparr>, have_socks := False\<rparr>))))"

definition try_connect :: "bool \<Rightarrow> socks_udpgw_client \<Rightarrow> socks_udpgw_client run" where
  "try_connect connector_ok o1 =
     bindE (guardE (\<not> have_socks o1 \<and> \<not> reconnect_timer o1) AssertFailed) (\<lambda>_.
     bindE (BSocksClient_Init connector_ok (su_auth_info o1) (remote_udpgw_addr o1)) (\<lambda>r.
       case r of
         None \<Rightarrow> Inr (o1\<lparr>reconnect_timer := True\<rparr>)
       | Some c \<Rightarrow> Inr (o1\<lparr>su_socks := socks_start c, have_socks := True, socks_up := False\<rparr>)))"

definition reconnect_timer_handler :: "bool \<Rightarrow> socks_udpgw_client \<Rightarrow> socks_udpgw_client run" where
  "reconnect_timer_handler connector_ok o1 =
     bindE (guardE (\<not> have_socks o1) AssertFailed) (\<lambda>_. try_connect connector_ok o1)"

definition free_and_wait :: "socks_udpgw_client \<Rightarrow> socks_udpgw_client run" where
  "free_and_wait o1 = bindE (free_socks o1) (\<lambda>o1. Inr (o1\<lparr>reconnect_timer := True\<rparr>))"

definition socks_client_handler :: "bool \<Rightarrow> socks_event \<Rightarrow> socks_udpgw_client \<Rightarrow> socks_udpgw_client run" where
  "socks_client_handler decoder_ok event o1 =
     bindE (guardE (have_socks o1) AssertFailed) (\<lambda>_.
       case event of
         EVENT_UP \<Rightarrow>
           bindE (guardE (\<not> socks_up o1) AssertFailed) (\<lambda>_.
           bindE (UdpGwClient_ConnectServer decoder_ok (sys_g (su_gw o1))) (\<lambda>(ok, g).
             let o1 = o1\<lparr>su_gw := (su_gw o1)\<lparr>sys_g := g\<rparr>\<rparr>
             in if ok then Inr (o1\<lparr>socks_up := True\<rparr>) else free_and_wait o1))
       | EVENT_ERROR \<Rightarrow> free_and_wait o1
       | EVENT_ERROR_CLOSED \<Rightarrow> free_and_wait o1)"

definition udpgw_handler_servererror :: "socks_udpgw_client \<Rightarrow> socks_udpgw_client run" where
  "udpgw_handler_servererror o1 =
     bindE (guardE (have_socks o1 \<and> socks_up o1) AssertFailed) (\<lambda>_. free_and_wait o1)"

text \<open>\<open>Inr None\<close> is the return value 0. The memory of the gateway client and of its keepalive interface is arbitrary before.\<close>

definition SocksUdpGwClient_Init ::
    "socks_udpgw_client \<Rightarrow> (nat \<Rightarrow> flow) \<Rightarrow> nat \<Rightarrow> nat \<Rightarrow> nat \<Rightarrow> nat \<Rightarrow> auth_info list \<Rightarrow> BSocksClient.BAddr \<Rightarrow> bool
      \<Rightarrow> socks_udpgw_client option run" where
  "SocksUdpGwClient_Init mem fmem ka mtu max_con send_buffer_size auth remote connector_ok =
     bindE (guardE (remote \<noteq> OtherAddr) AssertFailed) (\<lambda>_.
     bindE (UdpGwClient_Init (sys_g (su_gw mem)) fmem ka mtu max_con send_buffer_size) (\<lambda>r.
       case r of
         None \<Rightarrow> Inr None
       | Some g \<Rightarrow>
           bindE (ppi_setup (sys_ka (su_gw mem)) (output_mtu (send_queue g)) False) (\<lambda>i.
           bindE (try_connect connector_ok (mem\<lparr>su_gw := \<lparr>sys_g = g, sys_ka = i\<rparr>, su_auth_info := auth, remote_udpgw_addr := remote,
                    reconnect_timer := False, have_socks := False\<rparr>)) (\<lambda>o1. Inr (Some o1)))))"

definition SocksUdpGwClient_Free :: "socks_udpgw_client \<Rightarrow> (socks_udpgw_client \<times> fair_queue) run option" where
  "SocksUdpGwClient_Free o1 =
     bindO (Some (if have_socks o1 then free_socks o1 else Inr o1)) (\<lambda>o1.
     let o1 = o1\<lparr>reconnect_timer := False\<rparr>
     in bindO (UdpGwClient_Free (sys_g (su_gw o1))) (\<lambda>q. Some (Inr (o1, q))))"

section \<open>Steps\<close>

text \<open>
  An event of the gateway client's surroundings, whose reports of errors and packets go through
  the handlers of this object; an event of the SOCKS connection, whose reports do so too; or the timer.
\<close>

datatype su_event = SuGw gw_event | SuSocks socks_input bool | SuTimer bool

type_synonym su_result = "(socks_udpgw_client \<times> gw_out list) run option"

fun handle_events :: "bool \<Rightarrow> socks_event list \<Rightarrow> socks_udpgw_client \<Rightarrow> socks_udpgw_client run" where
  "handle_events ok [] o1 = Inr o1"
| "handle_events ok (e # es) o1 = bindE (socks_client_handler ok e o1) (handle_events ok es)"

definition su_gw_step :: "gw_event \<Rightarrow> socks_udpgw_client \<Rightarrow> su_result" where
  "su_gw_step e o1 =
     bindO (gw_step e (su_gw o1)) (\<lambda>(s, os).
       let o1 = o1\<lparr>su_gw := s\<rparr>
       in Some (bindE (if Inl ServerError \<in> set os then udpgw_handler_servererror o1 else Inr o1) (\<lambda>o1. Inr (o1, os))))"

definition SocksUdpGwClient_SubmitPacket ::
    "BAddr.BAddr \<Rightarrow> BAddr.BAddr \<Rightarrow> bool \<Rightarrow> byte list \<Rightarrow> nat option \<Rightarrow> bool \<Rightarrow> bool \<Rightarrow> socks_udpgw_client \<Rightarrow> su_result" where
  "SocksUdpGwClient_SubmitPacket l r dns d malloc flow_ok room o1 = su_gw_step (GwSubmit l r dns d malloc flow_ok room) o1"

definition su_socks_step :: "memory \<Rightarrow> socks_input \<Rightarrow> bool \<Rightarrow> socks_udpgw_client \<Rightarrow> socks_udpgw_client run" where
  "su_socks_step al x decoder_ok o1 =
     bindE (respond al x (su_socks o1)) (\<lambda>s.
       handle_events decoder_ok (drop (length (evs (su_socks o1))) (evs s)) (o1\<lparr>su_socks := s\<rparr>))"

fun su_step :: "memory \<Rightarrow> su_event \<Rightarrow> socks_udpgw_client \<Rightarrow> su_result" where
  "su_step al (SuGw e) o1 = su_gw_step e o1"
| "su_step al (SuSocks x decoder_ok) o1 = Some (bindE (su_socks_step al x decoder_ok o1) (\<lambda>o1. Inr (o1, [])))"
| "su_step al (SuTimer connector_ok) o1 =
     Some (bindE (reconnect_timer_handler connector_ok (o1\<lparr>reconnect_timer := False\<rparr>)) (\<lambda>o1. Inr (o1, [])))"

text \<open>Only this object connects and disconnects the gateway client.\<close>

fun su_legal :: "su_event \<Rightarrow> socks_udpgw_client \<Rightarrow> bool" where
  "su_legal (SuGw e) o1 \<longleftrightarrow> gw_legal e (su_gw o1) \<and> e \<noteq> GwConnect True \<and> e \<noteq> GwConnect False \<and> e \<noteq> GwDisconnect"
| "su_legal (SuSocks x decoder_ok) o1 \<longleftrightarrow> have_socks o1 \<and> enabled x (su_socks o1)"
| "su_legal (SuTimer connector_ok) o1 \<longleftrightarrow> reconnect_timer o1"

inductive su_reachable :: "memory \<Rightarrow> socks_udpgw_client \<Rightarrow> bool" for al where
  start: "SocksUdpGwClient_Init mem fmem ka mtu max_con send_buffer_size auth remote ok = Inr (Some o1)
    \<Longrightarrow> BSocksClient.wf_addr remote \<Longrightarrow> su_reachable al o1"
| step: "su_reachable al o1 \<Longrightarrow> su_legal e o1 \<Longrightarrow> su_step al e o1 = Some (Inr (o2, os)) \<Longrightarrow> su_reachable al o2"

section \<open>What a step of the gateway client changes\<close>

text \<open>
  The MTU and the connection to the server stay, unless the latter is made or given up; the pairs of addresses
  of the table are old ones or that of the packet submitted, and what is received is for one of these
  pairs and within the MTU.
\<close>

definition table_pairs :: "gw_sys \<Rightarrow> conaddr set" where
  "table_pairs s = {a. \<exists>xs. ll_rep (connections_list (sys_g s)) xs \<and> a \<in> conaddr_of (sys_g s) ` set xs}"

fun submitted_pair :: "gw_event \<Rightarrow> conaddr set" where
  "submitted_pair (GwSubmit l r dns d malloc flow_ok room) = {\<lparr>local_addr = l, remote_addr = r\<rparr>}"
| "submitted_pair _ = {}"

definition gw_effect :: "gw_event \<Rightarrow> gw_sys \<Rightarrow> gw_sys \<Rightarrow> gw_out list \<Rightarrow> bool" where
  "gw_effect e s s' os \<longleftrightarrow> udp_mtu (sys_g s') = udp_mtu (sys_g s)
     \<and> (have_server (sys_g s') = have_server (sys_g s))
     \<and> table_pairs s' \<subseteq> table_pairs s \<union> submitted_pair e
     \<and> (\<forall>l r d. Inl (ug_call.Received l r d) \<in> set os \<longrightarrow> \<lparr>local_addr = l, remote_addr = r\<rparr> \<in> table_pairs s \<and> length d \<le> udp_mtu (sys_g s))
     \<and> (Inl ServerError \<in> set os \<longleftrightarrow> e = GwDecoderError)"

lemma table_pairs_list: "ll_rep (connections_list (sys_g s)) xs \<Longrightarrow> table_pairs s = conaddr_of (sys_g s) ` set xs"
  unfolding table_pairs_def using ll_rep_fun by blast

lemma table_pairs_view: "ll_rep (connections_list (sys_g s)) xs \<Longrightarrow> table_pairs s = snd ` set (view (sys_g s) xs)"
  by (simp add: table_pairs_list view_def image_image)

lemma table_pairs_cong:
  "connections_list (sys_g s') = connections_list (sys_g s) \<Longrightarrow> (\<And>c. conaddr_of (sys_g s') c = conaddr_of (sys_g s) c)
    \<Longrightarrow> table_pairs s' = table_pairs s"
  by (simp add: table_pairs_def)

lemma queue_effect: "queue_result s r = Inr (s', os) \<Longrightarrow> e \<noteq> GwDecoderError \<Longrightarrow> gw_effect e s s' os"
  unfolding gw_effect_def queue_result_def
  by (auto simp: bindE_Inr_iff table_pairs_def split: prod.splits if_splits)

lemma lru_submit_pairs: "lru_submit n a flags v v' res \<Longrightarrow> snd ` set v' \<subseteq> insert a (snd ` set v)"
  by (induction rule: lru_submit.induct) (auto dest: subsetD[OF set_remove1_subset] intro: image_eqI)

lemma lru_receive_pairs:
  "lru_receive mtu p v v' cs \<Longrightarrow> snd ` set v' \<subseteq> snd ` set v" "lru_receive mtu p v v' cs \<Longrightarrow> ServerError \<notin> set cs"
  by (induction rule: lru_receive.induct) (auto dest: subsetD[OF set_remove1_subset] intro: image_eqI[rotated])

lemma lru_receive_calls:
  "lru_receive mtu p v v' cs \<Longrightarrow> ug_call.Received l r d \<in> set cs \<Longrightarrow> \<lparr>local_addr = l, remote_addr = r\<rparr> \<in> snd ` set v \<and> length d \<le> mtu"
  by (induction rule: lru_receive.induct) force+

lemma submit_effect:
  assumes inv: "gw_inv s xs" and legal: "gw_legal (GwSubmit l r dns d malloc flow_ok room) s"
    and step: "gw_step (GwSubmit l r dns d malloc flow_ok room) s = Some (Inr (s', os))"
  shows "gw_effect (GwSubmit l r dns d malloc flow_ok room) s s' os"
proof -
  let ?g = "sys_g s" and ?a = "\<lparr>local_addr = l, remote_addr = r\<rparr>"
  have i: "table_inv ?g xs" "queue_inv ?g xs" "\<not> freeing (send_queue ?g)" using inv by (simp_all add: gw_inv_def)
  have "malloc = None \<or> (\<exists>c. malloc = Some c \<and> c \<notin> insert (keepalive_qflow ?g) (set xs))"
    using legal i(2) by (auto simp: queue_inv_def split: option.splits)
  with SubmitPacket_ok[OF i, of l r d malloc dns room flow_ok] legal obtain g' xs' cs res where
    c: "UdpGwClient_SubmitPacket l r dns d malloc flow_ok room ?g = Some (Inr (g', cs))"
    and t: "table_inv g' xs'" "ug_frame ?g g'" "lru_submit (max_connections ?g) ?a (dns_flags dns) (view ?g xs) (view g' xs') res"
    "submit_calls g' xs' room r d res cs"
    by (auto simp: submit_ok_def)
  have "s' = s\<lparr>sys_g := g'\<rparr>" "os = map Inl cs" using c step by (simp_all add: client_result_def)
  note g' = t this
  have "snd ` set (view g' xs') \<subseteq> insert ?a (snd ` set (view ?g xs))" by (rule lru_submit_pairs[OF g'(3)])
  moreover have "Inl (ug_call.Received l' r' d') \<notin> set os" "Inl ServerError \<notin> set os" for l' r' d'
    using g'(4,6) by (auto simp: submit_calls_def split: option.splits if_splits)
  ultimately show ?thesis using g'(1,2,5) i(1) table_pairs_view[of s xs] table_pairs_view[of s' xs']
    by (simp add: gw_effect_def table_inv_def ug_frame_def)
qed

lemma recv_effect:
  assumes inv: "gw_inv s xs" and legal: "gw_legal (GwRecv p) s" and step: "gw_step (GwRecv p) s = Some (Inr (s', os))"
  shows "gw_effect (GwRecv p) s s' os"
proof -
  obtain g' xs' cs where r: "recv_interface_handler_send p (sys_g s) = Some (Inr (g', cs))"
    and t: "table_inv g' xs'" "ug_frame (sys_g s) g'" "lru_receive (udp_mtu (sys_g s)) p (view (sys_g s) xs) (view g' xs') cs"
    using recv_ok[of "sys_g s" xs p] inv legal by (auto simp: gw_inv_def)
  have "s' = s\<lparr>sys_g := g'\<rparr>" "os = map Inl cs" using r step by (simp_all add: client_result_def)
  note g' = t this
  have "snd ` set (view g' xs') \<subseteq> snd ` set (view (sys_g s) xs)" by (rule lru_receive_pairs(1)[OF g'(3)])
  moreover have "\<forall>l r d. Inl (ug_call.Received l r d) \<in> set os \<longrightarrow>
      \<lparr>local_addr = l, remote_addr = r\<rparr> \<in> snd ` set (view (sys_g s) xs) \<and> length d \<le> udp_mtu (sys_g s)"
    using lru_receive_calls[OF g'(3)] g'(5) by auto
  moreover have "Inl ServerError \<notin> set os" using lru_receive_pairs(2)[OF g'(3)] g'(5) by auto
  ultimately show ?thesis using g'(1,2,4) inv table_pairs_view[of s xs] table_pairs_view[of s' xs']
    by (simp add: gw_effect_def table_inv_def ug_frame_def gw_inv_def)
qed

lemma first_effect:
  assumes inv: "gw_inv s xs" and legal: "gw_legal (GwFirstJob c room) s" and step: "gw_step (GwFirstJob c room) s = Some (Inr (s', os))"
  shows "gw_effect (GwFirstJob c room) s s' os"
proof -
  have i: "table_inv (sys_g s) xs" "queue_inv (sys_g s) xs" using inv by (simp_all add: gw_inv_def)
  have c: "c \<in> set xs" using legal i(2) by (auto simp: queue_inv_def)
  have "length (first_data (con (sys_g s) c)) \<le> udp_mtu (sys_g s)" using i(1) c legal by (auto simp: table_inv_def table_conn_def)
  from first_job_call[OF i(1) c this, of room] step have
    s': "s' = s\<lparr>sys_g := set_con c ((con (sys_g s) c)\<lparr>first_job := False\<rparr>) (sys_g s)\<rparr>"
    "set os \<subseteq> range (\<lambda>p. Inl (Submit c p))" by (auto simp: client_result_def Let_def split: if_splits)
  have "table_pairs s' = table_pairs s" by (rule table_pairs_cong) (simp_all add: s'(1) set_con_def)
  with s' show ?thesis by (auto simp: gw_effect_def set_con_def)
qed

lemma keepalive_job_effect:
  assumes "keepalive_job_step s = Inr (s', os)"
  shows "gw_effect GwKeepaliveJob s s' os"
proof -
  obtain i cs where j: "PacketPassInterface_job_operation ((sys_ka s)\<lparr>job_operation := False\<rparr>) = Inr (i, cs)"
    using assms by (auto simp: keepalive_job_step_def bindE_Inr_iff)
  show ?thesis
  proof (cases "\<exists>d. cs = [HandlerSend d]")
    case True
    with assms j obtain r where "queue_result (s\<lparr>sys_ka := i\<rparr>) r = Inr (s', os)" by (auto simp: keepalive_job_step_def)
    from queue_effect[OF this, of GwKeepaliveJob] show ?thesis by (simp add: gw_effect_def table_pairs_def)
  next
    case False
    with assms j have "s' = s\<lparr>sys_ka := i\<rparr>" "os = []"
      by (auto simp: keepalive_job_step_def split: list.splits ppi_call.splits)
    then show ?thesis by (simp add: gw_effect_def table_pairs_def)
  qed
qed

lemma gw_step_effect:
  assumes "gw_inv s xs" and "gw_legal e s" and "gw_step e s = Some (Inr (s', os))"
    and "e \<noteq> GwConnect True" and "e \<noteq> GwConnect False" and "e \<noteq> GwDisconnect"
  shows "gw_effect e s s' os"
proof (cases e)
  case (GwSubmit l r dns d malloc flow_ok room)
  with assms submit_effect show ?thesis by blast
next
  case (GwRecv p)
  with assms recv_effect show ?thesis by blast
next
  case (GwFirstJob c room)
  with assms first_effect show ?thesis by blast
next
  case GwMonitor
  with assms(3) have "udp_mtu (sys_g s') = udp_mtu (sys_g s)" "have_server (sys_g s') = have_server (sys_g s)"
    "connections_list (sys_g s') = connections_list (sys_g s)" "con (sys_g s') = con (sys_g s)"
    "set os \<subseteq> range (\<lambda>p. Inl (Keepalive p))"
    by (cases "keepalive_sending (sys_g s)", auto simp: monitor_step_def send_monitor_handler_def bindE_Inr_iff)+
  with GwMonitor table_pairs_cong[of s' s] show ?thesis by (auto simp: gw_effect_def)
next
  case GwKeepaliveJob
  with assms(3) keepalive_job_effect show ?thesis by simp
next
  case GwKeepaliveDone
  with assms(3) obtain i b where "s' = s\<lparr>sys_g := (sys_g s)\<lparr>keepalive_sending := b\<rparr>, sys_ka := i\<rparr>" "os = []"
    by (auto simp: keepalive_done_step_def PacketPassInterface_job_done_def keepalive_if_handler_done_def bindE_Inr_iff split: if_splits)
  with GwKeepaliveDone show ?thesis by (simp add: gw_effect_def table_pairs_def)
next
  case GwDecoderError
  with assms(3) show ?thesis
    by (auto simp: gw_effect_def decoder_handler_error_def client_result_def bindE_Inr_iff table_pairs_def)
next
  case (GwConnect ok)
  with assms(4,5) show ?thesis by (cases ok) simp_all
qed (use assms(3,6) in \<open>auto intro: queue_effect\<close>)

section \<open>The invariant\<close>

text \<open>
  The gateway client has a server exactly while the SOCKS connection is up, and the timer is running exactly while
  there is no SOCKS client.
\<close>

definition socks_part :: "socks_udpgw_client \<Rightarrow> bool" where
  "socks_part o1 \<longleftrightarrow> (\<exists>c0. wf_client c0 \<and> socks_inv c0 (su_socks o1) \<and> alive (su_socks o1)
     \<and> (socks_up o1 \<longleftrightarrow> BSocksClient.state (cl (su_socks o1)) = UP))"

definition su_inv :: "socks_udpgw_client \<Rightarrow> bool" where
  "su_inv o1 \<longleftrightarrow> (\<exists>xs. gw_inv (su_gw o1) xs) \<and> (have_server (sys_g (su_gw o1)) \<longleftrightarrow> have_socks o1 \<and> socks_up o1)
     \<and> (reconnect_timer o1 \<longleftrightarrow> \<not> have_socks o1) \<and> BSocksClient.wf_addr (remote_udpgw_addr o1)
     \<and> (\<forall>ai \<in> set (su_auth_info o1). auth_type ai = METHOD_NONE \<or> auth_type ai = METHOD_PASSWORD)
     \<and> (have_socks o1 \<longrightarrow> socks_part o1)"

text \<open>The calls that give up the connection: possible whenever there is a SOCKS client that holds what it says it holds.\<close>

lemma free_socks_ok:
  assumes "have_socks o1" and "resources (cl (su_socks o1))" and "socks_up o1 = have_server (sys_g (su_gw o1))"
  shows "\<exists>c'. free_socks o1 = Inr (o1\<lparr>su_gw := (su_gw o1)\<lparr>sys_g := (sys_g (su_gw o1))\<lparr>have_server := False\<rparr>\<rparr>,
    su_socks := (su_socks o1)\<lparr>cl := c'\<rparr>, have_socks := False\<rparr>)"
proof -
  obtain c' where "BSocksClient_Free (cl (su_socks o1)) = Inr c'" using BSocksClient_Free_ok[OF assms(2)] by blast
  moreover have "(sys_g (su_gw o1))\<lparr>have_server := False\<rparr> = sys_g (su_gw o1)" if "\<not> socks_up o1" using that assms(3) by simp
  ultimately show ?thesis using assms(1,3)
    by (cases "socks_up o1") (auto simp: free_socks_def UdpGwClient_DisconnectServer_def intro!: exI[of _ c'])
qed

definition su_frame :: "socks_udpgw_client \<Rightarrow> socks_udpgw_client \<Rightarrow> bool" where
  "su_frame o1 o2 \<longleftrightarrow> udp_mtu (sys_g (su_gw o2)) = udp_mtu (sys_g (su_gw o1)) \<and> table_pairs (su_gw o2) = table_pairs (su_gw o1)"

lemma gw_server_frame:
  "table_pairs (s\<lparr>sys_g := (sys_g s)\<lparr>have_server := b\<rparr>\<rparr>) = table_pairs s" 
  by (simp add: table_pairs_def)

lemma wait_ok:
  assumes "have_socks o1" and "resources (cl (su_socks o1))" and "socks_up o1 = have_server (sys_g (su_gw o1))"
    and "gw_inv (su_gw o1) xs" and "BSocksClient.wf_addr (remote_udpgw_addr o1)"
    and "\<forall>ai \<in> set (su_auth_info o1). auth_type ai = METHOD_NONE \<or> auth_type ai = METHOD_PASSWORD"
  shows "\<exists>o2. free_and_wait o1 = Inr o2 \<and> su_inv o2 \<and> su_frame o1 o2"
proof -
  obtain c' where "free_socks o1 = Inr (o1\<lparr>su_gw := (su_gw o1)\<lparr>sys_g := (sys_g (su_gw o1))\<lparr>have_server := False\<rparr>\<rparr>,
    su_socks := (su_socks o1)\<lparr>cl := c'\<rparr>, have_socks := False\<rparr>)" using free_socks_ok[OF assms(1-3)] by blast
  with server_inv[OF assms(4), of False] assms(5,6) show ?thesis
    by (auto simp: free_and_wait_def su_inv_def su_frame_def gw_server_frame)
qed

lemma try_connect_ok:
  assumes "\<not> have_socks o1" and "\<not> reconnect_timer o1" and "gw_inv (su_gw o1) xs" and "\<not> have_server (sys_g (su_gw o1))"
    and "BSocksClient.wf_addr (remote_udpgw_addr o1)"
    and "\<forall>ai \<in> set (su_auth_info o1). auth_type ai = METHOD_NONE \<or> auth_type ai = METHOD_PASSWORD"
  shows "\<exists>o2. try_connect ok o1 = Inr o2 \<and> su_inv o2 \<and> su_frame o1 o2"
proof -
  have "remote_udpgw_addr o1 \<noteq> OtherAddr" using assms(5) by (auto simp: BSocksClient.wf_addr_def)
  then obtain r where r: "BSocksClient_Init ok (su_auth_info o1) (remote_udpgw_addr o1) = Inr r"
    using assms(6) by (cases ok) (simp_all add: BSocksClient_Init_def)
  show ?thesis
  proof (cases r)
    case None
    with r assms show ?thesis by (auto simp: try_connect_def su_inv_def su_frame_def)
  next
    case (Some c)
    from start_inv[OF r[unfolded Some] assms(5)] have "wf_client c" "socks_inv c (socks_start c)" by simp_all
    moreover have "BSocksClient.state c = CONNECTING"
      using r Some assms(6) by (auto simp: BSocksClient_Init_def guardE_def split: if_splits)
    moreover have "alive (socks_start c)" by (simp add: alive_def socks_start_def)
    ultimately have "socks_part (o1\<lparr>su_socks := socks_start c, have_socks := True, socks_up := False\<rparr>)"
      by (auto simp: socks_part_def socks_start_def)
    with Some r assms show ?thesis by (auto simp: try_connect_def su_inv_def su_frame_def)
  qed
qed

text \<open>The steps keep the invariant; only those of the gateway client change the table.\<close>

definition su_good :: "memory \<Rightarrow> su_event \<Rightarrow> socks_udpgw_client \<Rightarrow> bool" where
  "su_good al e o1 \<longleftrightarrow> (\<exists>o2 os. su_step al e o1 = Some (Inr (o2, os)) \<and> su_inv o2 \<and> outs_fit (sys_g (su_gw o1)) os
     \<and> (\<exists>s. (case e of SuGw x \<Rightarrow> gw_effect x (su_gw o1) s os | _ \<Rightarrow> s = su_gw o1 \<and> os = [])
          \<and> udp_mtu (sys_g (su_gw o2)) = udp_mtu (sys_g s) \<and> table_pairs (su_gw o2) = table_pairs s))"

lemma su_gw_good:
  assumes inv: "su_inv o1" and legal: "su_legal (SuGw e) o1"
  shows "su_good al (SuGw e) o1"
proof -
  obtain xs where g: "gw_inv (su_gw o1) xs" using inv by (auto simp: su_inv_def)
  from legal_good[OF g, of e] legal obtain s os ys where
    s: "gw_step e (su_gw o1) = Some (Inr (s, os))" "gw_inv s ys" "outs_fit (sys_g (su_gw o1)) os" by (auto simp: gw_good_def)
  have eff: "gw_effect e (su_gw o1) s os" by (rule gw_step_effect[OF g _ s(1)]) (use legal in simp_all)
  let ?o = "o1\<lparr>su_gw := s\<rparr>"
  have hs: "have_server (sys_g s) = have_server (sys_g (su_gw o1))" and se: "Inl ServerError \<in> set os \<longleftrightarrow> e = GwDecoderError"
    using eff by (auto simp: gw_effect_def)
  show ?thesis
  proof (cases "e = GwDecoderError")
    case True
    then have up: "have_socks o1" "socks_up o1" "have_server (sys_g (su_gw o1))" using inv legal by (auto simp: su_inv_def)
    then have "resources (cl (su_socks o1))" using inv by (auto simp: su_inv_def socks_part_def socks_inv_def)
    with up inv s(2) hs obtain o2 where "free_and_wait ?o = Inr o2" "su_inv o2" "su_frame ?o o2"
      using wait_ok[of ?o ys] by (auto simp: su_inv_def)
    with s eff se True up show ?thesis
      by (auto simp: su_good_def su_gw_step_def Let_def udpgw_handler_servererror_def su_frame_def)
  next
    case False
    have "su_inv ?o" using inv s(2) hs by (auto simp: su_inv_def socks_part_def)
    with s eff se False show ?thesis by (auto simp: su_good_def su_gw_step_def Let_def)
  qed
qed

lemma su_timer_good:
  assumes inv: "su_inv o1" and legal: "su_legal (SuTimer ok) o1"
  shows "su_good al (SuTimer ok) o1"
proof -
  let ?o = "o1\<lparr>reconnect_timer := False\<rparr>"
  obtain xs where g: "gw_inv (su_gw o1) xs" using inv by (auto simp: su_inv_def)
  have "\<not> have_socks o1" "\<not> have_server (sys_g (su_gw o1))" using inv legal by (auto simp: su_inv_def)
  with try_connect_ok[of ?o xs ok] g inv obtain o2 where "try_connect ok ?o = Inr o2" "su_inv o2" "su_frame ?o o2"
    by (auto simp: su_inv_def)
  with \<open>\<not> have_socks o1\<close> show ?thesis by (simp add: su_good_def reconnect_timer_handler_def su_frame_def)
qed

lemma su_socks_good:
  assumes al: "mem_ok al" and inv: "su_inv o1" and legal: "su_legal (SuSocks x ok) o1"
  shows "su_good al (SuSocks x ok) o1"
proof -
  let ?s = "su_socks o1"
  obtain xs where g: "gw_inv (su_gw o1) xs" using inv by (auto simp: su_inv_def)
  obtain c0 where c0: "wf_client c0" "socks_inv c0 ?s" "alive ?s" "socks_up o1 \<longleftrightarrow> BSocksClient.state (cl ?s) = UP"
    and hs: "have_socks o1" "have_server (sys_g (su_gw o1)) = socks_up o1" "\<not> reconnect_timer o1"
    using inv legal by (auto simp: su_inv_def socks_part_def)
  have cfg: "BSocksClient.wf_addr (remote_udpgw_addr o1)"
    "\<forall>ai \<in> set (su_auth_info o1). auth_type ai = METHOD_NONE \<or> auth_type ai = METHOD_PASSWORD" using inv by (simp_all add: su_inv_def)
  obtain s' where s': "respond al x ?s = Inr s'" "socks_inv c0 s'"
    using socks_step[OF al c0(1,2), of x] legal by (auto simp: good_step_def)
  then have res: "resources (cl s')" by (simp add: socks_inv_def)
  let ?o = "o1\<lparr>su_socks := s'\<rparr>"
  have wait: "\<exists>o2. free_and_wait ?o = Inr o2 \<and> su_inv o2 \<and> su_frame ?o o2"
    by (rule wait_ok[of ?o xs]) (use hs g cfg res in simp_all)
  have done_if: "su_good al (SuSocks x ok) o1" if "su_socks_step al x ok o1 = Inr o2" "su_inv o2" "su_frame o1 o2" for o2
    using that by (simp add: su_good_def su_frame_def)
  show ?thesis
  proof (rule socks_reports[OF c0(2,3) s'(2,1)])
    assume e: "evs s' = evs ?s" "alive s'" "BSocksClient.state (cl s') = UP \<longleftrightarrow> BSocksClient.state (cl ?s) = UP"
    have "su_inv ?o" using inv c0 s'(2) e by (auto simp: su_inv_def socks_part_def)
    with s'(1) e(1) show ?thesis by (intro done_if[of ?o]) (simp_all add: su_socks_step_def su_frame_def)
  next
    assume e: "evs s' = evs ?s @ [EVENT_UP]" "alive s'" "BSocksClient.state (cl s') = UP" "BSocksClient.state (cl ?s) \<noteq> UP"
    then have up: "\<not> socks_up o1" using c0(4) by simp
    show ?thesis
    proof (cases ok)
      case True
      let ?o2 = "?o\<lparr>su_gw := (su_gw o1)\<lparr>sys_g := (sys_g (su_gw o1))\<lparr>have_server := True\<rparr>\<rparr>, socks_up := True\<rparr>"
      have "su_inv ?o2" using server_inv[OF g, of True] c0(1) s'(2) e hs cfg by (auto simp: su_inv_def socks_part_def)
      with True s'(1) e(1) hs up show ?thesis
        by (intro done_if[of ?o2]) (simp_all add: su_socks_step_def socks_client_handler_def UdpGwClient_ConnectServer_def
            su_frame_def gw_server_frame)
    next
      case False
      from wait obtain o2 where o2: "free_and_wait ?o = Inr o2" "su_inv o2" "su_frame ?o o2" by blast
      from False s'(1) e(1) hs up o2 show ?thesis
        by (intro done_if[of o2]) (simp_all add: su_socks_step_def socks_client_handler_def UdpGwClient_ConnectServer_def su_frame_def)
    qed
  next
    fix e assume e: "evs s' = evs ?s @ [e]" "e = EVENT_ERROR \<or> e = EVENT_ERROR_CLOSED"
    with wait s'(1) hs show ?thesis
      by (auto simp: su_socks_step_def socks_client_handler_def su_frame_def intro: done_if)
  qed
qed

lemma su_legal_good: "mem_ok al \<Longrightarrow> su_inv o1 \<Longrightarrow> su_legal e o1 \<Longrightarrow> su_good al e o1"
  by (cases e) (simp_all only: su_gw_good su_timer_good su_socks_good)

lemma su_init_inv:
  assumes "SocksUdpGwClient_Init mem fmem ka mtu max_con sbs auth remote ok = Inr (Some o1)" and "BSocksClient.wf_addr remote"
  shows "su_inv o1" and "udp_mtu (sys_g (su_gw o1)) = mtu" and "table_pairs (su_gw o1) = {}"
proof -
  obtain g i where g: "UdpGwClient_Init (sys_g (su_gw mem)) fmem ka mtu max_con sbs = Inr (Some g)"
    "ppi_setup (sys_ka (su_gw mem)) (output_mtu (send_queue g)) False = Inr i"
    and t: "try_connect ok (mem\<lparr>su_gw := \<lparr>sys_g = g, sys_ka = i\<rparr>, su_auth_info := auth, remote_udpgw_addr := remote,
              reconnect_timer := False, have_socks := False\<rparr>) = Inr o1"
    using assms(1) by (auto simp: SocksUdpGwClient_Init_def bindE_Inr_iff split: option.splits)
  let ?o = "mem\<lparr>su_gw := \<lparr>sys_g = g, sys_ka = i\<rparr>, su_auth_info := auth, remote_udpgw_addr := remote,
    reconnect_timer := False, have_socks := False\<rparr>"
  have "gw_reachable \<lparr>sys_g = g, sys_ka = i\<rparr>" by (rule gw_reachable.start[OF g])
  then obtain xs where inv: "gw_inv \<lparr>sys_g = g, sys_ka = i\<rparr> xs" using gw_reachable_inv by blast
  have "0 \<le> udpgw_compute_mtu mtu" "udpgw_compute_mtu mtu \<le> 65535" "max_con > 0" "sbs > 0"
    using g(1) by (auto simp: UdpGwClient_Init_def bindE_Inr_iff guardE_def split: if_splits)
  from UdpGwClient_Init_ok[OF this, of "sys_g (su_gw mem)" fmem ka] g(1)
  have g': "table_inv g []" "\<not> have_server g" "udp_mtu g = mtu" by auto
  have "\<forall>ai \<in> set auth. auth_type ai = METHOD_NONE \<or> auth_type ai = METHOD_PASSWORD"
    using t by (auto simp: try_connect_def BSocksClient_Init_def bindE_Inr_iff guardE_def split: if_splits)
  with try_connect_ok[of ?o xs ok] t inv g'(2) assms(2) have "su_inv o1" "su_frame ?o o1" by auto
  moreover have "table_pairs \<lparr>sys_g = g, sys_ka = i\<rparr> = {}"
    using g'(1) table_pairs_list[of "\<lparr>sys_g = g, sys_ka = i\<rparr>" "[]"] by (simp add: table_inv_def)
  ultimately show "su_inv o1" "udp_mtu (sys_g (su_gw o1)) = mtu" "table_pairs (su_gw o1) = {}"
    using g'(3) by (simp_all add: su_frame_def)
qed

lemma su_reachable_inv: "su_reachable al o1 \<Longrightarrow> mem_ok al \<Longrightarrow> su_inv o1"
proof (induction rule: su_reachable.induct)
  case (step o1 e o2 os)
  then show ?case using su_legal_good[of al o1 e] by (auto simp: su_good_def)
qed (rule su_init_inv)

text \<open>A client for concrete histories, with a SOCKS connection being made.\<close>

definition su_mem :: socks_udpgw_client where
  "su_mem = \<lparr>su_gw = \<lparr>sys_g = gw_mem, sys_ka = sys_ka (gw_start 10 1)\<rparr>, su_socks = socks_start demo_client, su_auth_info = [],
     remote_udpgw_addr = OtherAddr, reconnect_timer = True, have_socks = True, socks_up = True\<rparr>"

definition su_start :: "nat \<Rightarrow> nat \<Rightarrow> socks_udpgw_client" where
  "su_start mtu max_con = \<lparr>su_gw = gw_start mtu max_con, su_socks = socks_start demo_client, su_auth_info = demo_auth,
     remote_udpgw_addr = IPv4 [1, 2, 3, 4] [0, 80], reconnect_timer = False, have_socks = True, socks_up = False\<rparr>"

lemma su_start_init:
  assumes "mtu \<le> 65514" and "max_con > 0"
  shows "SocksUdpGwClient_Init su_mem (fq_flow (send_queue gw_mem)) 0 mtu max_con 100 demo_auth (IPv4 [1, 2, 3, 4] [0, 80]) True
    = Inr (Some (su_start mtu max_con))"
proof -
  have "0 \<le> udpgw_compute_mtu mtu" "udpgw_compute_mtu mtu \<le> 65535" using assms(1) by (auto simp: udpgw_compute_mtu_def Let_def)
  from UdpGwClient_Init_ok[OF this assms(2), of 100] obtain g where
    g: "UdpGwClient_Init gw_mem (fq_flow (send_queue gw_mem)) 0 mtu max_con 100 = Inr (Some g)" "table_inv g []" "queue_inv g []"
    "udp_mtu g = mtu" by force
  then have o: "output_mtu (send_queue g) = mtu + 23" by (simp add: table_inv_def queue_inv_def)
  obtain h where "UdpGwClient_Init gw_mem (fq_flow (send_queue gw_mem)) 0 10 1 100 = Inr (Some h)"
    using UdpGwClient_Init_ok[of 10 1 100 gw_mem "fq_flow (send_queue gw_mem)" 0] by (auto simp: udpgw_compute_mtu_def Let_def)
  then have "ppi_setup (sys_ka (gw_start 10 1)) (output_mtu (send_queue g)) False = Inr (sys_ka (gw_start mtu max_con))"
    using g(1) by (simp add: ppi_setup_def ppi_defs Let_def o gw_start_def)
  moreover have "\<lparr>sys_g = g, sys_ka = sys_ka (gw_start mtu max_con)\<rparr> = gw_start mtu max_con" using g(1) by (simp add: gw_start_def)
  ultimately show ?thesis
    using g(1) demo_facts(3) by (simp add: SocksUdpGwClient_Init_def su_mem_def try_connect_def su_start_def)
qed

lemma su_start_reachable: "mtu \<le> 65514 \<Longrightarrow> max_con > 0 \<Longrightarrow> su_reachable al (su_start mtu max_con)"
  by (rule su_reachable.start[OF su_start_init demo_facts(2)])

section \<open>Properties\<close>

text \<open>
  C13. UDP gateway over SOCKS: whatever the gateway, the SOCKS server, the device and the timer do in which order,
  and whatever cannot be allocated, no assertion of the object, of its SOCKS client or of its gateway client fails:
  a server is connected and disconnected only once each, and a SOCKS client is freed only
  when there is one. The object can be freed at every point.
\<close>

theorem socks_udpgw_safe:
  assumes "mem_ok al" and "su_reachable al o1" and "su_legal e o1"
  shows "(\<exists>o2 os. su_step al e o1 = Some (Inr (o2, os)))
    \<and> (\<exists>o2 q. SocksUdpGwClient_Free o1 = Some (Inr (o2, q)) \<and> \<not> have_socks o2 \<and> \<not> reconnect_timer o2 \<and> flows_list q = [])"
proof -
  note inv = su_reachable_inv[OF assms(2,1)]
  obtain xs where g: "gw_inv (su_gw o1) xs" using inv by (auto simp: su_inv_def)
  have free: "\<exists>q. UdpGwClient_Free (sys_g s) = Some (Inr q) \<and> flows_list q = []" if "gw_inv s xs" for s
    using UdpGwClient_Free_ok[of "sys_g s" xs] that unfolding gw_inv_def by blast
  have "\<exists>o2 q. SocksUdpGwClient_Free o1 = Some (Inr (o2, q)) \<and> \<not> have_socks o2 \<and> \<not> reconnect_timer o2 \<and> flows_list q = []"
  proof (cases "have_socks o1")
    case True
    with inv obtain c' where "free_socks o1 = Inr (o1\<lparr>su_gw := (su_gw o1)\<lparr>sys_g := (sys_g (su_gw o1))\<lparr>have_server := False\<rparr>\<rparr>,
        su_socks := (su_socks o1)\<lparr>cl := c'\<rparr>, have_socks := False\<rparr>)"
      using free_socks_ok[of o1] by (auto simp: su_inv_def socks_part_def socks_inv_def)
    with True free[OF server_inv[OF g, of False]] show ?thesis by (auto simp: SocksUdpGwClient_Free_def Let_def)
  next
    case False
    with free[OF g] show ?thesis by (auto simp: SocksUdpGwClient_Free_def Let_def)
  qed
  with su_legal_good[OF assms(1) inv assms(3)] show ?thesis unfolding su_good_def by blast
qed

theorem socks_udpgw_safe_witness:
  "\<exists>o2 os. su_step demo_mem (SuSocks (Connected True False) True) (su_start 10 1) = Some (Inr (o2, os))"
proof -
  have "su_legal (SuSocks (Connected True False) True) (su_start 10 1)"
    by (simp add: su_start_def socks_start_def demo_client_def alive_def)
  from socks_udpgw_safe[OF demo_facts(1) su_start_reachable this] show ?thesis by simp
qed

text \<open>
  C16. Connection to the gateway: the gateway client has a server exactly while the SOCKS connection is up, the
  reconnect timer runs exactly while there is no SOCKS client, and the object never waits for nothing: there is the timer,
  a connection that is up, or a SOCKS handshake with one operation in progress.
\<close>

theorem socks_udpgw_connection:
  assumes "mem_ok al" and "su_reachable al o1"
  shows "have_server (sys_g (su_gw o1)) = (have_socks o1 \<and> socks_up o1)
    \<and> reconnect_timer o1 = (\<not> have_socks o1)
    \<and> (reconnect_timer o1 \<or> have_socks o1 \<and> socks_up o1 \<and> EVENT_UP \<in> set (evs (su_socks o1))
       \<or> (\<exists>x \<in> {Connected True False, SendDone, socks_input.Received [0]}. su_legal (SuSocks x True) o1))"
proof (cases "have_socks o1 \<and> \<not> socks_up o1")
  case True
  note inv = su_reachable_inv[OF assms(2,1)]
  with True obtain c0 where c0: "socks_inv c0 (su_socks o1)" "alive (su_socks o1)" "BSocksClient.state (cl (su_socks o1)) \<noteq> UP"
    by (auto simp: su_inv_def socks_part_def)
  from inv_down(4)[OF c0] c0(2,3) have "\<exists>x \<in> {Connected True False, SendDone, socks_input.Received [0]}. enabled x (su_socks o1)"
    by (cases "BSocksClient.state (cl (su_socks o1))") (auto simp: phase_def Let_def sending_def receiving_def)
  with inv True show ?thesis by (auto simp: su_inv_def)
next
  case False
  note inv = su_reachable_inv[OF assms(2,1)]
  have "EVENT_UP \<in> set (evs (su_socks o1))" if "have_socks o1" "socks_up o1"
    using that inv by (auto simp: su_inv_def socks_part_def socks_inv_def up_events_def)
  with False inv show ?thesis by (auto simp: su_inv_def)
qed

theorem socks_udpgw_connection_witness:
  "have_server (sys_g (su_gw (su_start 10 1))) = (have_socks (su_start 10 1) \<and> socks_up (su_start 10 1))"
  using socks_udpgw_connection[OF demo_facts(1) su_start_reachable[of 10 1]] by simp

end
