(* ===== verification/UdpPackets.thy ===== *)
theory UdpPackets
  imports BAddr
begin

text \<open>
  The UDP packets of the device (\<^verbatim>\<open>misc/ipv4_proto.h\<close>, \<^verbatim>\<open>misc/ipv6_proto.h\<close>, \<^verbatim>\<open>misc/udp_proto.h\<close> and the UDP part of
  \<^verbatim>\<open>tun2socks/tun2socks.c\<close>): the headers, their checksums, the packets that go to the gateway and those that come
  back. A header is a record of its fields as they are in the memory of a little-endian machine, so a field in
  network byte order is a word with its bytes in that order. Reading outside of a packet and
  writing outside of the buffer of the device are faults.
\<close>

definition badvpn_read_be16 :: "byte \<Rightarrow> byte \<Rightarrow> u16" where
  "badvpn_read_be16 a b = push_bit 8 (ucast a) OR ucast b"

definition hton16 :: "u16 \<Rightarrow> u16" where
  "hton16 x = ltoh16 (rev (htol16 x))"

definition hton32 :: "u32 \<Rightarrow> u32" where
  "hton32 x = load32_le (rev (store32_le x))"

definition bytes_at :: "nat \<Rightarrow> nat \<Rightarrow> byte list \<Rightarrow> byte list run" where
  "bytes_at off len data = bindE (guardE (off + len \<le> length data) OutOfBounds) (\<lambda>_. Inr (take len (drop off data)))"

section \<open>Headers\<close>

record ipv4_header =
  version4_ihl4 :: byte
  ds :: byte
  total_length :: u16
  identification :: u16
  flags3_fragmentoffset13 :: u16
  ttl :: byte
  protocol :: byte
  ip_checksum :: u16
  source_address :: u32
  destination_address :: u32

record ipv6_header =
  version4_tc4 :: byte
  tc4_fl4 :: byte
  fl :: u16
  payload_length :: u16
  next_header :: byte
  hop_limit :: byte
  source_address6 :: "byte list"
  destination_address6 :: "byte list"

record udp_header =
  source_port :: u16
  dest_port :: u16
  udp_len :: u16
  udp_sum :: u16

text \<open>The packed structs in memory, and back.\<close>

definition ipv4_bytes :: "ipv4_header \<Rightarrow> byte list" where
  "ipv4_bytes h = [version4_ihl4 h, ds h] @ htol16 (total_length h) @ htol16 (identification h)
     @ htol16 (flags3_fragmentoffset13 h) @ [ttl h, protocol h] @ htol16 (ip_checksum h)
     @ store32_le (source_address h) @ store32_le (destination_address h)"

definition ipv4_of :: "byte list \<Rightarrow> ipv4_header" where
  "ipv4_of b = \<lparr>version4_ihl4 = byte_at b 0, ds = byte_at b 1, total_length = ltoh16 (take 2 (drop 2 b)),
     identification = ltoh16 (take 2 (drop 4 b)), flags3_fragmentoffset13 = ltoh16 (take 2 (drop 6 b)),
     ttl = byte_at b 8, protocol = byte_at b 9, ip_checksum = ltoh16 (take 2 (drop 10 b)),
     source_address = load32_le (take 4 (drop 12 b)), destination_address = load32_le (take 4 (drop 16 b))\<rparr>"

definition ipv6_bytes :: "ipv6_header \<Rightarrow> byte list" where
  "ipv6_bytes h = [version4_tc4 h, tc4_fl4 h] @ htol16 (fl h) @ htol16 (payload_length h) @ [next_header h, hop_limit h]
     @ source_address6 h @ destination_address6 h"

definition ipv6_of :: "byte list \<Rightarrow> ipv6_header" where
  "ipv6_of b = \<lparr>version4_tc4 = byte_at b 0, tc4_fl4 = byte_at b 1, fl = ltoh16 (take 2 (drop 2 b)),
     payload_length = ltoh16 (take 2 (drop 4 b)), next_header = byte_at b 6, hop_limit = byte_at b 7,
     source_address6 = take 16 (drop 8 b), destination_address6 = take 16 (drop 24 b)\<rparr>"

definition udp_bytes :: "udp_header \<Rightarrow> byte list" where
  "udp_bytes h = htol16 (source_port h) @ htol16 (dest_port h) @ htol16 (udp_len h) @ htol16 (udp_sum h)"

definition udp_of :: "byte list \<Rightarrow> udp_header" where
  "udp_of b = \<lparr>source_port = ltoh16 (take 2 b), dest_port = ltoh16 (take 2 (drop 2 b)),
     udp_len = ltoh16 (take 2 (drop 4 b)), udp_sum = ltoh16 (take 2 (drop 6 b))\<rparr>"

definition IPV4_PROTOCOL_UDP :: byte where
  "IPV4_PROTOCOL_UDP = 17"

definition IPV6_NEXT_UDP :: byte where
  "IPV6_NEXT_UDP = 17"

definition IPV4_GET_VERSION :: "ipv4_header \<Rightarrow> byte" where
  "IPV4_GET_VERSION h = drop_bit 4 (version4_ihl4 h AND 0xF0)"

definition IPV4_GET_IHL :: "ipv4_header \<Rightarrow> byte" where
  "IPV4_GET_IHL h = version4_ihl4 h AND 0x0F"

definition IPV4_MAKE_VERSION_IHL :: "nat \<Rightarrow> byte" where
  "IPV4_MAKE_VERSION_IHL sz = of_nat (sz div 4 + 4 * 16)"

section \<open>Checksums\<close>

text \<open>The loops that add 16-bit words to \<open>t\<close>, and the loop that folds the carries.\<close>

fun sum_loop :: "u32 \<Rightarrow> byte list \<Rightarrow> u32" where
  "sum_loop t (a # b # bs) = sum_loop (t + ucast (badvpn_read_be16 a b)) bs"
| "sum_loop t _ = t"

function fold_carry :: "u32 \<Rightarrow> u32" where
  "fold_carry t = (if drop_bit 16 t \<noteq> 0 then fold_carry ((t AND 0xFFFF) + drop_bit 16 t) else t)"
  by pat_completeness auto

lemma fold_carry_step:
  fixes t :: u32
  shows "unat ((t AND 0xFFFF) + drop_bit 16 t) = unat t mod 2 ^ 16 + unat t div 2 ^ 16"
proof -
  have m: "t AND 0xFFFF = take_bit 16 t"
    using take_bit_eq_mask[of 16 t] by (simp add: mask_eq_exp_minus_1)
  have "unat (t AND 0xFFFF) = unat t mod 2 ^ 16" unfolding m by (simp add: take_bit_eq_mod unat_mod)
  moreover have "unat (drop_bit 16 t) = unat t div 2 ^ 16" by (simp add: drop_bit_eq_div unat_div)
  moreover have "unat t < 2 ^ 32" using unsigned_less[of t, where ?'a = nat] by simp
  then have "unat t mod 2 ^ 16 + unat t div 2 ^ 16 < 2 ^ 32" by simp
  ultimately show ?thesis by (simp add: unat_word_ariths)
qed

lemma drop_bit_16_eq_0: "drop_bit 16 (t :: u32) = 0 \<longleftrightarrow> unat t < 2 ^ 16"
  by (simp add: unat_eq_zero[symmetric] drop_bit_eq_div unat_div div_eq_0_iff)

lemma fold_less:
  fixes n :: nat
  assumes "2 ^ 16 \<le> n"
  shows "n mod 2 ^ 16 + n div 2 ^ 16 < n"
proof -
  define q r where "q = n div 2 ^ 16" and "r = n mod 2 ^ 16"
  have "n = q * 65536 + r" unfolding q_def r_def using div_mult_mod_eq[of n "2 ^ 16"] by simp
  moreover have "0 < q" using assms by (simp add: q_def div_greater_zero_iff)
  ultimately show ?thesis unfolding q_def[symmetric] r_def[symmetric] by simp
qed

termination fold_carry
proof (relation "measure unat")
  fix t :: u32 assume "drop_bit 16 t \<noteq> 0"
  then have "2 ^ 16 \<le> unat t" using drop_bit_16_eq_0[of t] by simp
  from fold_less[OF this] show "((t AND 0xFFFF) + drop_bit 16 t, t) \<in> measure unat"
    by (simp only: fold_carry_step in_measure)
qed simp

declare fold_carry.simps [simp del]

definition ipv4_checksum :: "ipv4_header \<Rightarrow> byte list \<Rightarrow> u16 run" where
  "ipv4_checksum h extra =
     bindE (guardE (even (length extra)) AssertFailed) (\<lambda>_.
       Inr (hton16 (ucast (NOT (fold_carry (sum_loop (sum_loop 0 (ipv4_bytes h)) extra))))))"

definition udp_checksum_summer :: "byte list \<Rightarrow> nat \<Rightarrow> u32 run" where
  "udp_checksum_summer data len =
     bindE (guardE (even len) AssertFailed) (\<lambda>_. bindE (bytes_at 0 len data) (\<lambda>d. Inr (sum_loop 0 d)))"

text \<open>The sum over the payload, whose last byte may be alone.\<close>

definition payload_sum :: "byte list \<Rightarrow> nat \<Rightarrow> u32 run" where
  "payload_sum payload len =
     (if even len then udp_checksum_summer payload len
      else bindE (udp_checksum_summer payload (len - 1)) (\<lambda>t.
           bindE (bytes_at (len - 1) 1 payload) (\<lambda>b.
           bindE (udp_checksum_summer (htol16 (hton16 (push_bit 8 (ucast (byte_at b 0))))) 2) (\<lambda>t'. Inr (t + t')))))"

definition finish_sum :: "u32 \<Rightarrow> u16" where
  "finish_sum t =
     (let t = fold_carry t; t = (if t = 0 then 0xFFFF else t) in hton16 (ucast (NOT t)))"

definition udp_checksum :: "udp_header \<Rightarrow> byte list \<Rightarrow> u16 \<Rightarrow> u32 \<Rightarrow> u32 \<Rightarrow> u16 run" where
  "udp_checksum h payload len src dst =
     bindE (udp_checksum_summer (store32_le src) 4) (\<lambda>t1.
     bindE (udp_checksum_summer (store32_le dst) 4) (\<lambda>t2.
     bindE (udp_checksum_summer (htol16 (hton16 (ucast IPV4_PROTOCOL_UDP))) 2) (\<lambda>t3.
     bindE (udp_checksum_summer (htol16 (hton16 (8 + len))) 2) (\<lambda>t4.
     bindE (udp_checksum_summer (udp_bytes h) 8) (\<lambda>t5.
     bindE (payload_sum payload (unat len)) (\<lambda>t6.
       Inr (finish_sum (t1 + t2 + t3 + t4 + t5 + t6))))))))"

definition udp_ip6_checksum :: "udp_header \<Rightarrow> byte list \<Rightarrow> u16 \<Rightarrow> byte list \<Rightarrow> byte list \<Rightarrow> u16 run" where
  "udp_ip6_checksum h payload len src dst =
     bindE (udp_checksum_summer src 16) (\<lambda>t1.
     bindE (udp_checksum_summer dst 16) (\<lambda>t2.
     bindE (udp_checksum_summer (store32_le (hton32 (8 + ucast len))) 4) (\<lambda>t3.
     bindE (udp_checksum_summer (store32_le (hton32 (ucast IPV6_NEXT_UDP))) 4) (\<lambda>t4.
     bindE (udp_checksum_summer (udp_bytes h) 8) (\<lambda>t5.
     bindE (payload_sum payload (unat len)) (\<lambda>t6.
       Inr (finish_sum (t1 + t2 + t3 + t4 + t5 + t6))))))))"

section \<open>The packets\<close>

definition ipv4_check :: "byte list \<Rightarrow> (ipv4_header \<times> byte list) option run" where
  "ipv4_check data =
     (if length data < 20 then Inr None
      else bindE (bytes_at 0 20 data) (\<lambda>hb.
        let out_header = ipv4_of hb
        in if IPV4_GET_VERSION out_header \<noteq> 4 then Inr None
           else
             let header_len = unat (IPV4_GET_IHL out_header) * 4; total_length = unat (ntoh16 (total_length out_header))
             in if header_len < 20 \<or> header_len > length data then Inr None
                else if total_length < header_len \<or> total_length > length data then Inr None
                else bindE (bytes_at 20 (header_len - 20) data) (\<lambda>extra.
                     bindE (ipv4_checksum (out_header\<lparr>ip_checksum := hton16 0\<rparr>) extra) (\<lambda>checksum_computed.
                       if ip_checksum out_header \<noteq> checksum_computed then Inr None
                       else bindE (bytes_at header_len (total_length - header_len) data) (\<lambda>payload.
                              Inr (Some (out_header, payload)))))))"

definition ipv6_check :: "byte list \<Rightarrow> (ipv6_header \<times> byte list) option run" where
  "ipv6_check data =
     (if length data < 40 then Inr None
      else bindE (bytes_at 0 40 data) (\<lambda>hb.
        let out_header = ipv6_of hb
        in if drop_bit 4 (version4_tc4 out_header) \<noteq> 6 then Inr None
           else
             let payload_length = unat (ntoh16 (payload_length out_header))
             in if payload_length > length data - 40 then Inr None
                else bindE (bytes_at 40 payload_length data) (\<lambda>payload. Inr (Some (out_header, payload)))))"

definition udp_check :: "byte list \<Rightarrow> (udp_header \<times> byte list) option run" where
  "udp_check data =
     (if length data < 8 then Inr None
      else bindE (bytes_at 0 8 data) (\<lambda>hb.
        let out_header = udp_of hb; udp_length = unat (ntoh16 (udp_len out_header))
        in if udp_length < 8 \<or> udp_length > 8 + (length data - 8) then Inr None
           else bindE (bytes_at 8 (udp_length - 8) data) (\<lambda>payload. Inr (Some (out_header, payload)))))"

record options =
  has_udpgw :: bool
  has_ip6 :: bool
  device_mtu :: nat
  opt_udp_mtu :: nat

text \<open>The value of \<open>udp_mtu\<close> that the main program computes.\<close>

definition compute_udp_mtu :: "nat \<Rightarrow> bool \<Rightarrow> nat" where
  "compute_udp_mtu mtu ip6 =
     (let udp_mtu = int mtu - 28; udp_ip6_mtu = int mtu - 48;
          udp_mtu = (if ip6 \<and> udp_mtu < udp_ip6_mtu then udp_ip6_mtu else udp_mtu)
      in nat (if udp_mtu < 0 then 0 else udp_mtu))"

text \<open>
  \<open>None\<close> is the return value 0, with which the packet goes on to lwip; \<open>Some\<close> is the call of
  \<open>SocksUdpGwClient_SubmitPacket\<close> with its local address, remote address, DNS flag and data.
\<close>

type_synonym submit = "BAddr \<times> BAddr \<times> bool \<times> byte list"

definition process_ipv4_udp :: "byte list \<Rightarrow> submit option run" where
  "process_ipv4_udp data =
     (if length data < 20 \<or> byte_at data 9 \<noteq> IPV4_PROTOCOL_UDP then Inr None
      else bindE (ipv4_check data) (\<lambda>r.
        case r of None \<Rightarrow> Inr None
        | Some (iph, data) \<Rightarrow> bindE (udp_check data) (\<lambda>r.
            case r of None \<Rightarrow> Inr None
            | Some (udph, data) \<Rightarrow>
                bindE (udp_checksum (udph\<lparr>udp_sum := 0\<rparr>) data (of_nat (length data)) (source_address iph) (destination_address iph))
                  (\<lambda>checksum_computed.
                    if udp_sum udph \<noteq> checksum_computed then Inr None
                    else Inr (Some (BAddrIPv4 (source_address iph) (source_port udph),
                                    BAddrIPv4 (destination_address iph) (dest_port udph), False, data))))))"

definition process_ipv6_udp :: "byte list \<Rightarrow> submit option run" where
  "process_ipv6_udp data =
     (if length data < 40 \<or> byte_at data 6 \<noteq> IPV6_NEXT_UDP then Inr None
      else bindE (ipv6_check data) (\<lambda>r.
        case r of None \<Rightarrow> Inr None
        | Some (iph, data) \<Rightarrow> bindE (udp_check data) (\<lambda>r.
            case r of None \<Rightarrow> Inr None
            | Some (udph, data) \<Rightarrow>
                bindE (udp_ip6_checksum (udph\<lparr>udp_sum := 0\<rparr>) data (of_nat (length data)) (source_address6 iph) (destination_address6 iph))
                  (\<lambda>checksum_computed.
                    if udp_sum udph \<noteq> checksum_computed then Inr None
                    else Inr (Some (BAddrIPv6 (source_address6 iph) (source_port udph),
                                    BAddrIPv6 (destination_address6 iph) (dest_port udph), False, data))))))"

definition process_device_udp_packet :: "options \<Rightarrow> byte list \<Rightarrow> submit option run" where
  "process_device_udp_packet opt data =
     (let ip_version = (if length data > 0 then drop_bit 4 (byte_at data 0) else 0)
      in bindE (if ip_version = 4 then process_ipv4_udp data
                else if ip_version = 6 then (if \<not> has_ip6 opt then Inr None else process_ipv6_udp data)
                else Inr None) (\<lambda>r.
           case r of
             None \<Rightarrow> Inr None
           | Some (l, r, dns, data) \<Rightarrow> if length data > opt_udp_mtu opt then Inr None else Inr (Some (l, r, dns, data))))"

definition put :: "nat \<Rightarrow> byte list \<Rightarrow> byte list \<Rightarrow> byte list run" where
  "put off bs buf = bindE (guardE (off + length bs \<le> length buf) OutOfBounds) (\<lambda>_. Inr (write_at off bs buf))"

text \<open>The three copies into the device's buffer, and the packet that is sent from it.\<close>

definition write_packet :: "byte list \<Rightarrow> byte list \<Rightarrow> byte list \<Rightarrow> byte list \<Rightarrow> (byte list \<times> byte list option) run" where
  "write_packet iph udph data buf =
     bindE (put 0 iph buf) (\<lambda>buf.
     bindE (put (length iph) udph buf) (\<lambda>buf.
     bindE (put (length iph + length udph) data buf) (\<lambda>buf.
       Inr (buf, Some (take (length iph + length udph + length data) buf)))))"

definition reply_ipv4 :: "u32 \<Rightarrow> u16 \<Rightarrow> u32 \<Rightarrow> u16 \<Rightarrow> byte list \<Rightarrow> byte list \<Rightarrow> (byte list \<times> byte list option) run" where
  "reply_ipv4 lip lport rip rport data buf =
     (let iph = \<lparr>version4_ihl4 = IPV4_MAKE_VERSION_IHL 20, ds = 0, total_length = hton16 (of_nat (20 + 8 + length data)),
                 identification = hton16 0, flags3_fragmentoffset13 = hton16 0, ttl = 64, protocol = IPV4_PROTOCOL_UDP,
                 ip_checksum = hton16 0, source_address = rip, destination_address = lip\<rparr>
      in bindE (ipv4_checksum iph []) (\<lambda>c.
           let iph = iph\<lparr>ip_checksum := c\<rparr>;
               udph = \<lparr>source_port = rport, dest_port = lport, udp_len = hton16 (of_nat (8 + length data)), udp_sum = hton16 0\<rparr>
           in bindE (udp_checksum udph data (of_nat (length data)) (source_address iph) (destination_address iph)) (\<lambda>c.
                write_packet (ipv4_bytes iph) (udp_bytes (udph\<lparr>udp_sum := c\<rparr>)) data buf)))"

definition reply_ipv6 :: "byte list \<Rightarrow> u16 \<Rightarrow> byte list \<Rightarrow> u16 \<Rightarrow> byte list \<Rightarrow> byte list \<Rightarrow> (byte list \<times> byte list option) run" where
  "reply_ipv6 lip lport rip rport data buf =
     (let iph = \<lparr>version4_tc4 = 0x60, tc4_fl4 = 0, fl = hton16 0, payload_length = hton16 (of_nat (8 + length data)),
                 next_header = IPV6_NEXT_UDP, hop_limit = 64, source_address6 = take 16 rip, destination_address6 = take 16 lip\<rparr>;
          udph = \<lparr>source_port = rport, dest_port = lport, udp_len = hton16 (of_nat (8 + length data)), udp_sum = hton16 0\<rparr>
      in bindE (udp_ip6_checksum udph data (of_nat (length data)) (source_address6 iph) (destination_address6 iph)) (\<lambda>c.
           write_packet (ipv6_bytes iph) (udp_bytes (udph\<lparr>udp_sum := c\<rparr>)) data buf))"

definition udpgw_client_handler_received ::
    "options \<Rightarrow> BAddr \<Rightarrow> BAddr \<Rightarrow> byte list \<Rightarrow> byte list \<Rightarrow> (byte list \<times> byte list option) run" where
  "udpgw_client_handler_received opt l r data buf =
     bindE (guardE (has_udpgw opt \<and> BAddr_type l \<in> {1, 2} \<and> BAddr_type l = BAddr_type r) AssertFailed) (\<lambda>_.
       case (l, r) of
         (BAddrIPv4 lip lport, BAddrIPv4 rip rport) \<Rightarrow>
           if int (length data) > 65535 - 28 \<or> int (length data) > int (device_mtu opt) - 28 then Inr (buf, None)
           else reply_ipv4 lip lport rip rport data buf
       | (BAddrIPv6 lip lport, BAddrIPv6 rip rport) \<Rightarrow>
           if \<not> has_ip6 opt then Inr (buf, None)
           else if int (length data) > 65535 - 8 \<or> int (length data) > int (device_mtu opt) - 48 then Inr (buf, None)
           else reply_ipv6 lip lport rip rport data buf
       | _ \<Rightarrow> Inr (buf, None))"

section \<open>Bytes of the headers\<close>

lemma bytes_at_ok [simp]: "off + len \<le> length data \<Longrightarrow> bytes_at off len data = Inr (take len (drop off data))"
  by (simp add: bytes_at_def)

lemma ltoh16_htol16' [simp]: "ltoh16 (htol16 x) = x"
  using ltoh16_htol16[of x "[]"] by simp

lemma htol16_ltoh16: "length b = 2 \<Longrightarrow> htol16 (ltoh16 b) = b"
proof -
  assume "length b = 2"
  then obtain x y where "b = [x, y]" by (cases b; cases "tl b") auto
  then show ?thesis by (auto simp: htol16_def ltoh16_def bit_eq_iff bit_simps dest: bit_imp_le_length)
qed

lemma hton16_bytes: "htol16 (hton16 x) = rev (htol16 x)"
  by (simp add: hton16_def htol16_ltoh16)

lemma ntoh16_hton16 [simp]: "ntoh16 (hton16 x) = x"
  by (simp add: ntoh16_def hton16_bytes)

lemma hton32_bytes: "store32_le (hton32 x) = rev (store32_le x)"
  by (simp add: hton32_def store32_le_load32_le)

lemma length_headers [simp]:
  "length (ipv4_bytes h) = 20" "length (udp_bytes u) = 8"
  "length (source_address6 h6) = 16 \<Longrightarrow> length (destination_address6 h6) = 16 \<Longrightarrow> length (ipv6_bytes h6) = 40"
  by (simp_all add: ipv4_bytes_def udp_bytes_def ipv6_bytes_def)

lemma ipv4_of_bytes [simp]: "ipv4_of (ipv4_bytes h) = h"
  by (cases h) (simp add: ipv4_of_def ipv4_bytes_def htol16_def store32_le_def ltoh16_htol16'[unfolded htol16_def]
      load32_le_store32_le[unfolded store32_le_def])

lemma udp_of_bytes [simp]: "udp_of (udp_bytes h) = h"
  by (cases h) (simp add: udp_of_def udp_bytes_def htol16_def ltoh16_htol16'[unfolded htol16_def])

lemma ipv6_of_bytes [simp]:
  "length (source_address6 h) = 16 \<Longrightarrow> length (destination_address6 h) = 16 \<Longrightarrow> ipv6_of (ipv6_bytes h) = h"
  by (cases h) (simp add: ipv6_of_def ipv6_bytes_def htol16_def ltoh16_htol16'[unfolded htol16_def])

lemma ipv6_addresses: "length b = 40 \<Longrightarrow> length (source_address6 (ipv6_of b)) = 16 \<and> length (destination_address6 (ipv6_of b)) = 16"
  by (simp add: ipv6_of_def)

section \<open>Ones' complement sums\<close>

text \<open>The sum of the big-endian words of RFC 1071, and its ones' complement value: 0 only for the sum 0.\<close>

fun be_sum :: "byte list \<Rightarrow> nat" where
  "be_sum (a # b # bs) = unat a * 256 + unat b + be_sum bs"
| "be_sum [a] = unat a * 256"
| "be_sum [] = 0"

definition ones_sum :: "nat \<Rightarrow> nat" where
  "ones_sum n = (if n = 0 then 0 else (n - 1) mod 65535 + 1)"

lemma read_be16_unat: "unat (badvpn_read_be16 a b) = unat a * 256 + unat b"
proof -
  have "badvpn_read_be16 a b = push_bit 8 (ucast a) + ucast b"
    unfolding badvpn_read_be16_def
    by (rule disjunctive_add[symmetric]) (auto simp: bit_simps dest: bit_imp_le_length)
  also have "\<dots> = of_nat (unat a * 256 + unat b)" by (simp add: push_bit_eq_mult mult.commute)
  finally have e: "badvpn_read_be16 a b = of_nat (unat a * 256 + unat b)" .
  have "unat a < 256" "unat b < 256" using unsigned_less[of a, where ?'a = nat] unsigned_less[of b, where ?'a = nat] by simp_all
  then have "unat a * 256 + unat b < 2 ^ 16" by simp
  then show ?thesis unfolding e by (simp add: unsigned_of_nat take_bit_nat_eq_self del: of_nat_add of_nat_mult)
qed

lemma be_sum_le: "be_sum bs \<le> 65535 * ((length bs + 1) div 2)"
proof (induction bs rule: be_sum.induct)
  case (1 a b bs)
  have "unat (badvpn_read_be16 a b) < 2 ^ 16" using unsigned_less[of "badvpn_read_be16 a b", where ?'a = nat] by simp
  with 1 show ?case by (simp add: read_be16_unat)
next
  case (2 a)
  have "unat a < 256" using unsigned_less[of a, where ?'a = nat] by simp
  then show ?case by simp
qed simp

lemma sum_loop_be: "even (length bs) \<Longrightarrow> sum_loop t bs = t + of_nat (be_sum bs)"
proof (induction t bs rule: sum_loop.induct)
  case (1 t a b bs)
  have "(ucast (badvpn_read_be16 a b) :: u32) = of_nat (unat a * 256 + unat b)"
    unfolding read_be16_unat[symmetric] by simp
  with 1 show ?case by simp
qed simp_all

lemma be_sum_append: "even (length xs) \<Longrightarrow> be_sum (xs @ ys) = be_sum xs + be_sum ys"
  by (induction xs rule: be_sum.induct) auto

lemma be_sum_take_last:
  assumes "odd (length xs)"
  shows "be_sum xs = be_sum (take (length xs - 1) xs) + unat (last xs) * 256"
proof -
  obtain ys y where xs: "xs = ys @ [y]" using assms by (cases xs rule: rev_cases) auto
  with assms have "even (length ys)" by simp
  with xs show ?thesis by (simp add: be_sum_append)
qed

lemma ones_sum_step: "2 ^ 16 \<le> n \<Longrightarrow> ones_sum (n mod 2 ^ 16 + n div 2 ^ 16) = ones_sum n"
proof -
  assume n: "2 ^ 16 \<le> n"
  define q r where "q = n div 2 ^ 16" and "r = n mod 2 ^ 16"
  have "n = q * 65536 + r" unfolding q_def r_def using div_mult_mod_eq[of n "2 ^ 16"] by simp
  moreover have q: "0 < q" using n by (simp add: q_def div_greater_zero_iff)
  ultimately have "n - 1 = (r + q - 1) + q * 65535" by simp
  then have "(n - 1) mod 65535 = (r + q - 1) mod 65535" by (simp only: mod_mult_self1)
  with n q show ?thesis unfolding q_def[symmetric] r_def[symmetric] by (simp add: ones_sum_def)
qed

lemma fold_carry_ones: "unat (fold_carry t) = ones_sum (unat t)"
proof (induction t rule: fold_carry.induct)
  case (1 t)
  show ?case
  proof (cases "drop_bit 16 t = 0")
    case True
    then have "unat t < 2 ^ 16" by (simp only: drop_bit_16_eq_0)
    then have "ones_sum (unat t) = unat t" by (cases "unat t") (auto simp: ones_sum_def)
    with True show ?thesis by (subst fold_carry.simps) simp
  next
    case False
    then have "2 ^ 16 \<le> unat t" using drop_bit_16_eq_0[of t] by simp
    from ones_sum_step[OF this] 1[OF False] show ?thesis
      by (subst fold_carry.simps) (simp only: False if_True fold_carry_step not_False_eq_True)
  qed
qed

lemma ones_sum_le: "ones_sum n \<le> 65535"
  by (simp add: ones_sum_def Suc_le_eq)

lemma ones_sum_0: "ones_sum n = 0 \<longleftrightarrow> n = 0"
  by (simp add: ones_sum_def)

text \<open>A sum to which the complement of its value is added is all ones.\<close>

lemma ones_sum_complement: "0 < n \<Longrightarrow> ones_sum (n + (65535 - ones_sum n)) = 65535"
proof -
  assume n: "0 < n"
  define q r where "q = (n - 1) div 65535" and "r = (n - 1) mod 65535"
  have "n - 1 = q * 65535 + r" unfolding q_def r_def by simp
  then have e: "n = q * 65535 + r + 1" using n by simp
  have r: "r < 65535" by (simp add: r_def)
  have "ones_sum n = r + 1" using n by (simp add: ones_sum_def r_def)
  then have "n + (65535 - ones_sum n) = (q + 1) * 65535" using e r by simp
  moreover have "((q + 1) * 65535 - 1) mod 65535 = 65534"
  proof -
    have "(q + 1) * 65535 - 1 = 65534 + q * 65535" by simp
    then show ?thesis by (simp only: mod_mult_self1) simp
  qed
  ultimately show ?thesis by (simp add: ones_sum_def)
qed

text \<open>The sums that the checksums of the packets are taken of.\<close>

definition udp4_sum :: "udp_header \<Rightarrow> byte list \<Rightarrow> u32 \<Rightarrow> u32 \<Rightarrow> nat" where
  "udp4_sum h payload src dst =
     be_sum (store32_le src) + be_sum (store32_le dst) + 17 + (8 + length payload) + be_sum (udp_bytes h) + be_sum payload"

definition udp6_sum :: "udp_header \<Rightarrow> byte list \<Rightarrow> byte list \<Rightarrow> byte list \<Rightarrow> nat" where
  "udp6_sum h payload src dst =
     be_sum src + be_sum dst + (8 + length payload) + 17 + be_sum (udp_bytes h) + be_sum payload"

lemma summer_ok: "even len \<Longrightarrow> len \<le> length d \<Longrightarrow> udp_checksum_summer d len = Inr (of_nat (be_sum (take len d)))"
  by (simp add: udp_checksum_summer_def sum_loop_be)

lemma be_sum_htol16: "be_sum (rev (htol16 x)) = unat x"
proof -
  have "badvpn_read_be16 (ucast (drop_bit 8 x)) (ucast x) = x"
    by (auto simp: badvpn_read_be16_def bit_eq_iff bit_simps)
  then show ?thesis using read_be16_unat[of "ucast (drop_bit 8 x)" "ucast x"] by (simp add: htol16_def)
qed

lemma summer_hton16: "udp_checksum_summer (htol16 (hton16 x)) 2 = Inr (of_nat (unat x))"
  by (simp add: summer_ok hton16_bytes be_sum_htol16 del: of_nat_unat)

lemma be_sum_small32: "unat x < 65536 \<Longrightarrow> be_sum (rev (store32_le x)) = unat x"
proof -
  assume x: "unat x < 65536"
  then have d: "drop_bit 16 x = 0" using drop_bit_16_eq_0[of x] by simp
  have "drop_bit 24 x = drop_bit 8 (drop_bit 16 x)" by (simp add: drop_bit_drop_bit)
  then have hi: "ucast (drop_bit 24 x) = (0 :: byte)" "ucast (drop_bit 16 x) = (0 :: byte)" by (simp_all add: d)
  have "ucast x = badvpn_read_be16 (ucast (drop_bit 8 x)) (ucast x)"
    by (auto simp: badvpn_read_be16_def bit_eq_iff bit_simps)
  then have "be_sum (rev (store32_le x)) = unat (ucast x :: u16)"
    using read_be16_unat[of "ucast (drop_bit 8 x)" "ucast x"] hi by (simp add: store32_le_def)
  also have "\<dots> = unat x" using x by (simp add: unsigned_ucast_eq take_bit_nat_eq_self)
  finally show ?thesis .
qed

lemma payload_sum_ok: "payload_sum payload (length payload) = Inr (of_nat (be_sum payload))"
proof (cases "even (length payload)")
  case True
  then show ?thesis by (simp add: payload_sum_def summer_ok)
next
  case False
  then have ne: "payload \<noteq> []" by auto
  have b: "take (Suc 0) (drop (length payload - Suc 0) payload) = [last payload]"
    using ne by (cases payload rule: rev_cases) auto
  have "unat (push_bit 8 (ucast (last payload)) :: u16) = unat (last payload) * 256"
    using read_be16_unat[of "last payload" 0] by (simp add: badvpn_read_be16_def)
  with False ne b show ?thesis
    by (simp add: payload_sum_def summer_ok summer_hton16 be_sum_take_last[of payload] Suc_le_eq del: of_nat_unat)
qed

lemma not_fold_ones:
  assumes "S < 2 ^ 32"
  shows "(ucast (NOT (fold_carry (of_nat S))) :: u16) = of_nat (65535 - ones_sum S)" and "unat (fold_carry (of_nat S)) = ones_sum S"
proof -
  have u: "unat (of_nat S :: u32) = S" using assms by (simp add: unsigned_of_nat take_bit_nat_eq_self)
  let ?t = "fold_carry (of_nat S)"
  show t: "unat ?t = ones_sum S" by (simp add: fold_carry_ones u)
  have "(ucast (NOT ?t) :: u16) = NOT (ucast ?t)" by (simp add: bit_eq_iff bit_simps)
  also have "\<dots> = - 1 - of_nat (ones_sum S)" by (simp add: not_eq_complement t[symmetric])
  also have "\<dots> = of_nat (65535 - ones_sum S)" using ones_sum_le[of S] by (simp add: of_nat_diff)
  finally show "(ucast (NOT ?t) :: u16) = of_nat (65535 - ones_sum S)" .
qed

lemma finish_sum_ones:
  assumes "0 < S" and "S < 2 ^ 32"
  shows "finish_sum (of_nat S) = hton16 (of_nat (65535 - ones_sum S))"
proof -
  have "fold_carry (of_nat S) \<noteq> 0" using not_fold_ones(2)[OF assms(2)] ones_sum_0[of S] assms(1) by (metis gr_implies_not0 unat_0)
  then show ?thesis using not_fold_ones(1)[OF assms(2)] by (simp add: finish_sum_def Let_def)
qed

lemma be_sum_fixed: "length bs = 4 \<Longrightarrow> be_sum bs \<le> 65535 * 2" "length bs = 8 \<Longrightarrow> be_sum bs \<le> 65535 * 4"
  "length bs = 16 \<Longrightarrow> be_sum bs \<le> 65535 * 8" "length bs = 20 \<Longrightarrow> be_sum bs \<le> 65535 * 10"
  using be_sum_le[of bs] by simp_all

lemma payload_bound: "length payload \<le> 65527 \<Longrightarrow> be_sum payload \<le> 65535 * 32764"
  using be_sum_le[of payload] div_le_mono[of "length payload + 1" 65528 2] by simp

lemma udp_checksum_ok:
  assumes "length payload \<le> 65527"
  shows "udp_checksum h payload (of_nat (length payload)) src dst
    = Inr (hton16 (of_nat (65535 - ones_sum (udp4_sum h payload src dst))))"
proof -
  have l: "unat (of_nat (length payload) :: u16) = length payload" "unat (8 + of_nat (length payload) :: u16) = 8 + length payload"
    using assms by (simp_all add: unsigned_of_nat take_bit_nat_eq_self unat_word_ariths)
  have "0 < udp4_sum h payload src dst" by (simp add: udp4_sum_def)
  moreover have "udp4_sum h payload src dst < 2 ^ 32"
    using be_sum_fixed(1)[of "store32_le src"] be_sum_fixed(1)[of "store32_le dst"] be_sum_fixed(2)[of "udp_bytes h"]
      payload_bound[OF assms] assms by (simp add: udp4_sum_def)
  ultimately show ?thesis
    unfolding finish_sum_ones[symmetric, of "udp4_sum h payload src dst"]
    by (simp add: udp_checksum_def summer_hton16 l payload_sum_ok udp4_sum_def summer_ok IPV4_PROTOCOL_UDP_def finish_sum_ones[symmetric] del: of_nat_unat)
qed

lemma udp_ip6_checksum_ok:
  assumes "length payload \<le> 65527" and "length src = 16" and "length dst = 16"
  shows "udp_ip6_checksum h payload (of_nat (length payload)) src dst
    = Inr (hton16 (of_nat (65535 - ones_sum (udp6_sum h payload src dst))))"
proof -
  have l: "unat (of_nat (length payload) :: u16) = length payload"
    "unat (8 + ucast (of_nat (length payload) :: u16) :: u32) = 8 + length payload"
    using assms by (simp_all add: unsigned_of_nat take_bit_nat_eq_self unat_word_ariths unsigned_ucast_eq)
  have s: "be_sum (store32_le (hton32 (8 + ucast (of_nat (length payload) :: u16)))) = 8 + length payload"
    "be_sum (store32_le (hton32 17)) = 17"
    using l(2) assms(1) by (simp_all add: hton32_bytes be_sum_small32)
  have "0 < udp6_sum h payload src dst" by (simp add: udp6_sum_def)
  moreover have "udp6_sum h payload src dst < 2 ^ 32"
    using be_sum_fixed(3)[OF assms(2)] be_sum_fixed(3)[OF assms(3)] be_sum_fixed(2)[of "udp_bytes h"]
      payload_bound[OF assms(1)] assms(1) by (simp add: udp6_sum_def)
  ultimately show ?thesis
    using assms l by (simp add: udp_ip6_checksum_def s payload_sum_ok udp6_sum_def summer_ok IPV6_NEXT_UDP_def finish_sum_ones[symmetric] del: of_nat_unat)
qed

lemma ipv4_checksum_ok:
  assumes "even (length extra)" and "length extra \<le> 40"
  shows "ipv4_checksum h extra = Inr (hton16 (of_nat (65535 - ones_sum (be_sum (ipv4_bytes h @ extra)))))"
proof -
  have "be_sum (ipv4_bytes h @ extra) \<le> 65535 * ((length (ipv4_bytes h @ extra) + 1) div 2)" by (rule be_sum_le)
  also have "\<dots> \<le> 65535 * 30" using assms(2) by (intro mult_le_mono2) (simp add: div_le_mono)
  finally have "be_sum (ipv4_bytes h @ extra) < 2 ^ 32" by simp
  note c = not_fold_ones(1)[OF this]
  have "sum_loop (sum_loop 0 (ipv4_bytes h)) extra = of_nat (be_sum (ipv4_bytes h @ extra))"
    using assms(1) by (simp add: sum_loop_be be_sum_append)
  then show ?thesis using assms(1) c by (simp add: ipv4_checksum_def)
qed

section \<open>Parsing arbitrary packets\<close>

definition part_of :: "byte list \<Rightarrow> byte list \<Rightarrow> bool" where
  "part_of p data \<longleftrightarrow> (\<exists>off. off + length p \<le> length data \<and> p = take (length p) (drop off data))"

lemma part_of_slice: "off + len \<le> length data \<Longrightarrow> part_of (take len (drop off data)) data"
  unfolding part_of_def by (intro exI[of _ off]) simp

lemma part_of_trans: "part_of p q \<Longrightarrow> part_of q r \<Longrightarrow> part_of p r"
  unfolding part_of_def
proof (elim exE conjE)
  fix a b assume a: "a + length p \<le> length q" "p = take (length p) (drop a q)"
    and b: "b + length q \<le> length r" "q = take (length q) (drop b r)"
  have "take (length p) (drop a q) = take (length p) (drop a (take (length q) (drop b r)))" using b(2) by simp
  also have "\<dots> = take (length p) (drop (b + a) r)" using a(1) by (simp add: drop_take add.commute)
  finally show "\<exists>off. off + length p \<le> length r \<and> p = take (length p) (drop off r)"
    using a b(1) by (intro exI[of _ "b + a"]) simp
qed

lemma ihl_le: "unat (IPV4_GET_IHL h) \<le> 15"
proof -
  have "IPV4_GET_IHL h \<le> 0x0F" unfolding IPV4_GET_IHL_def by (rule word_and_le1)
  then show ?thesis by (simp add: word_le_nat_alt)
qed

lemma ipv4_check_any:
  obtains "ipv4_check data = Inr None"
  | h p where "ipv4_check data = Inr (Some (h, p))" "part_of p data" "length p \<le> 65515"
proof -
  define h where "h = ipv4_of (take 20 data)"
  define hl where "hl = unat (IPV4_GET_IHL h) * 4"
  define tl' where "tl' = unat (ntoh16 (total_length h))"
  show thesis
  proof (cases "length data < 20 \<or> IPV4_GET_VERSION h \<noteq> 4 \<or> hl < 20 \<or> hl > length data \<or> tl' < hl \<or> tl' > length data")
    case True
    then show thesis using that(1) by (auto simp: ipv4_check_def h_def hl_def tl'_def Let_def)
  next
    case False
    let ?extra = "take (hl - 20) (drop 20 data)"
    have "length ?extra = hl - 20" using False by auto
    then have "even (length ?extra)" "length ?extra \<le> 40" using ihl_le[of h] by (simp_all add: hl_def)
    note c = ipv4_checksum_ok[OF this]
    have five: "\<not> unat (IPV4_GET_IHL h) < 5" using False by (auto simp: hl_def)
    have call: "ipv4_check data = bindE (ipv4_checksum (h\<lparr>ip_checksum := hton16 0\<rparr>) ?extra) (\<lambda>checksum_computed.
        if ip_checksum h \<noteq> checksum_computed then Inr None else Inr (Some (h, take (tl' - hl) (drop hl data))))"
      using False five by (simp add: ipv4_check_def h_def[symmetric] hl_def[symmetric] tl'_def[symmetric] Let_def cong: if_cong)
    have "tl' < 65536" using unsigned_less[of "ntoh16 (total_length h)", where ?'a = nat] by (simp add: tl'_def)
    then have "length (take (tl' - hl) (drop hl data)) \<le> 65515" using False by auto
    moreover have "part_of (take (tl' - hl) (drop hl data)) data" using False by (intro part_of_slice) auto
    ultimately show thesis using that c call by (cases "ip_checksum h = hton16 (of_nat (65535 - ones_sum
      (be_sum (ipv4_bytes (h\<lparr>ip_checksum := hton16 0\<rparr>) @ ?extra))))") simp_all
  qed
qed

lemma ipv6_check_any:
  obtains "ipv6_check data = Inr None"
  | h p where "ipv6_check data = Inr (Some (h, p))" "part_of p data" "length p \<le> 65535"
      "length (source_address6 h) = 16" "length (destination_address6 h) = 16"
proof -
  define h where "h = ipv6_of (take 40 data)"
  define pl where "pl = unat (ntoh16 (payload_length h))"
  show thesis
  proof (cases "length data < 40 \<or> drop_bit 4 (version4_tc4 h) \<noteq> 6 \<or> pl > length data - 40")
    case True
    then show thesis using that(1) by (auto simp: ipv6_check_def h_def pl_def Let_def)
  next
    case False
    then have "40 + pl \<le> length data" by auto
    with False have "ipv6_check data = Inr (Some (h, take pl (drop 40 data)))"
      by (simp add: ipv6_check_def h_def[symmetric] pl_def[symmetric] Let_def)
    moreover have "pl < 65536" using unsigned_less[of "ntoh16 (payload_length h)", where ?'a = nat] by (simp add: pl_def)
    moreover have "length (source_address6 h) = 16" "length (destination_address6 h) = 16"
      using False by (simp_all add: h_def ipv6_of_def)
    moreover have "part_of (take pl (drop 40 data)) data" using False by (intro part_of_slice) auto
    ultimately show thesis using that(2)[of h "take pl (drop 40 data)"] by simp
  qed
qed

lemma udp_check_any:
  obtains "udp_check data = Inr None"
  | h p where "udp_check data = Inr (Some (h, p))" "part_of p data" "length p \<le> 65527"
proof -
  define h where "h = udp_of (take 8 data)"
  define ul where "ul = unat (ntoh16 (udp_len h))"
  show thesis
  proof (cases "length data < 8 \<or> ul < 8 \<or> ul > 8 + (length data - 8)")
    case True
    then show thesis using that(1) by (auto simp: udp_check_def h_def ul_def Let_def)
  next
    case False
    then have "ul \<le> length data" by auto
    with False have "udp_check data = Inr (Some (h, take (ul - 8) (drop 8 data)))"
      by (simp add: udp_check_def h_def[symmetric] ul_def[symmetric] Let_def)
    moreover have "ul < 65536" using unsigned_less[of "ntoh16 (udp_len h)", where ?'a = nat] by (simp add: ul_def)
    moreover have "part_of (take (ul - 8) (drop 8 data)) data" using False by (intro part_of_slice) auto
    ultimately show thesis using that(2)[of h "take (ul - 8) (drop 8 data)"] by simp
  qed
qed

text \<open>What a parsed datagram looks like: both addresses of one kind, the data a part of the packet.\<close>

definition good_submit :: "byte list \<Rightarrow> submit \<Rightarrow> bool" where
  "good_submit data s \<longleftrightarrow> (case s of (l, r, dns, d) \<Rightarrow>
     wf_addr l \<and> wf_addr r \<and> BAddr_type l = BAddr_type r \<and> part_of d data \<and> length d \<le> 65527 \<and> \<not> dns)"

lemma process_ipv4_any: "\<exists>r. process_ipv4_udp data = Inr r \<and> (\<forall>s. r = Some s \<longrightarrow> good_submit data s)"
proof (cases "length data < 20 \<or> byte_at data 9 \<noteq> IPV4_PROTOCOL_UDP")
  case False
  show ?thesis
  proof (rule ipv4_check_any[of data])
    fix h p assume h: "ipv4_check data = Inr (Some (h, p))" "part_of p data" "length p \<le> 65515"
    show ?thesis
    proof (rule udp_check_any[of p])
      fix u d assume u: "udp_check p = Inr (Some (u, d))" "part_of d p" "length d \<le> 65527"
      have "part_of d data" using part_of_trans[OF u(2) h(2)] .
      with False h(1) u(1,3) udp_checksum_ok[OF u(3)] show ?thesis
        by (auto simp: process_ipv4_udp_def good_submit_def wf_addr_def)
    qed (use False h in \<open>simp add: process_ipv4_udp_def\<close>)
  qed (use False in \<open>simp add: process_ipv4_udp_def\<close>)
qed (auto simp: process_ipv4_udp_def)

lemma process_ipv6_any: "\<exists>r. process_ipv6_udp data = Inr r \<and> (\<forall>s. r = Some s \<longrightarrow> good_submit data s)"
proof (cases "length data < 40 \<or> byte_at data 6 \<noteq> IPV6_NEXT_UDP")
  case False
  show ?thesis
  proof (rule ipv6_check_any[of data])
    fix h p assume h: "ipv6_check data = Inr (Some (h, p))" "part_of p data" "length p \<le> 65535"
      "length (source_address6 h) = 16" "length (destination_address6 h) = 16"
    show ?thesis
    proof (rule udp_check_any[of p])
      fix u d assume u: "udp_check p = Inr (Some (u, d))" "part_of d p" "length d \<le> 65527"
      have "part_of d data" using part_of_trans[OF u(2) h(2)] .
      with False h(1,4,5) u(1,3) udp_ip6_checksum_ok[OF u(3) h(4,5)] show ?thesis
        by (auto simp: process_ipv6_udp_def good_submit_def wf_addr_def)
    qed (use False h in \<open>simp add: process_ipv6_udp_def\<close>)
  qed (use False in \<open>simp add: process_ipv6_udp_def\<close>)
qed (auto simp: process_ipv6_udp_def)

lemma process_device_any:
  "\<exists>r. process_device_udp_packet opt data = Inr r
    \<and> (\<forall>l r' dns d. r = Some (l, r', dns, d) \<longrightarrow> good_submit data (l, r', dns, d) \<and> length d \<le> opt_udp_mtu opt
        \<and> (BAddr_type l = 2 \<longrightarrow> has_ip6 opt))"
proof -
  obtain r4 where r4: "process_ipv4_udp data = Inr r4" "\<forall>s. r4 = Some s \<longrightarrow> good_submit data s" using process_ipv4_any by blast
  obtain r6 where r6: "process_ipv6_udp data = Inr r6" "\<forall>s. r6 = Some s \<longrightarrow> good_submit data s" using process_ipv6_any by blast
  have four: "BAddr_type l = 1" if "r4 = Some (l, r, dns, d)" for l r dns d
    using that r4(1) by (auto simp: process_ipv4_udp_def bindE_Inr_iff split: if_splits option.splits)
  show ?thesis
    using r4 r6 four by (cases r4; cases r6) (auto simp: process_device_udp_packet_def Let_def)
qed

section \<open>Replies\<close>

lemma write_packet_ok:
  assumes "length iph + length udph + length data \<le> length buf"
  shows "\<exists>buf'. write_packet iph udph data buf = Inr (buf', Some (iph @ udph @ data)) \<and> length buf' = length buf"
proof -
  let ?b1 = "write_at 0 iph buf" let ?b2 = "write_at (length iph) udph ?b1"
  let ?b3 = "write_at (length iph + length udph) data ?b2"
  have l: "length ?b1 = length buf" "length ?b2 = length buf" "length ?b3 = length buf"
    using assms by (simp_all add: write_at_def)
  have "take (length iph + length udph + length data) ?b3 = iph @ udph @ data"
    using assms by (simp add: write_at_def)
  with assms l show ?thesis by (simp add: write_packet_def put_def)
qed

lemma version_byte: "drop_bit 4 (0x45 :: byte) = 4" "(0x45 :: byte) AND 0xF0 = 0x40" "(0x45 :: byte) AND 0x0F = 5"
  "drop_bit 4 (0x40 :: byte) = 4" "drop_bit 4 (0x60 :: byte) = 6"
  by (simp_all add: drop_bit_eq_div)

lemma byte_at_append: "i < length xs \<Longrightarrow> byte_at (xs @ ys) i = byte_at xs i"
  by (simp add: byte_at_def nth_append)

text \<open>The headers in front of a datagram of \<open>n\<close> bytes, and the checks that accept them.\<close>

lemma udp_check_built:
  assumes "length d \<le> 65527" and "udp_len u = hton16 (of_nat (8 + length d))"
  shows "udp_check (udp_bytes u @ d) = Inr (Some (u, d))"
proof -
  have "unat (of_nat (8 + length d) :: u16) = 8 + length d"
    using assms(1) by (simp add: unsigned_of_nat take_bit_nat_eq_self del: of_nat_add)
  then show ?thesis using assms by (simp add: udp_check_def Let_def del: of_nat_add)
qed

lemma ipv4_check_built:
  assumes "length p \<le> 65515" and h: "version4_ihl4 h = 0x45" "total_length h = hton16 (of_nat (20 + length p))"
    "ipv4_checksum (h\<lparr>ip_checksum := hton16 0\<rparr>) [] = Inr (ip_checksum h)"
  shows "ipv4_check (ipv4_bytes h @ p) = Inr (Some (h, p))"
proof -
  have "unat (of_nat (20 + length p) :: u16) = 20 + length p"
    using assms(1) by (simp add: unsigned_of_nat take_bit_nat_eq_self del: of_nat_add)
  moreover have "IPV4_GET_VERSION h = 4" "unat (IPV4_GET_IHL h) * 4 = 20"
    by (simp_all add: IPV4_GET_VERSION_def IPV4_GET_IHL_def h(1) version_byte)
  ultimately show ?thesis using h by (simp add: ipv4_check_def Let_def del: of_nat_add)
qed

lemma ipv6_check_built:
  assumes "length p \<le> 65535" and h: "version4_tc4 h = 0x60" "payload_length h = hton16 (of_nat (length p))"
    and a: "length (source_address6 h) = 16" "length (destination_address6 h) = 16"
  shows "ipv6_check (ipv6_bytes h @ p) = Inr (Some (h, p))"
proof -
  have "unat (of_nat (length p) :: u16) = length p"
    using assms(1) by (simp add: unsigned_of_nat take_bit_nat_eq_self)
  then show ?thesis using h a by (simp add: ipv6_check_def Let_def version_byte)
qed

lemma reply_ipv4_parses:
  assumes d: "length d \<le> 65507" and buf: "28 + length d \<le> length buf"
  shows "\<exists>buf' p. reply_ipv4 lip lport rip rport d buf = Inr (buf', Some p) \<and> length buf' = length buf
    \<and> length p = 28 + length d \<and> drop_bit 4 (byte_at p 0) = 4
    \<and> process_ipv4_udp p = Inr (Some (BAddrIPv4 rip rport, BAddrIPv4 lip lport, False, d))"
proof -
  define h0 where "h0 = \<lparr>version4_ihl4 = IPV4_MAKE_VERSION_IHL 20, ds = 0, total_length = hton16 (of_nat (20 + 8 + length d)),
    identification = hton16 0, flags3_fragmentoffset13 = hton16 0, ttl = 64, protocol = IPV4_PROTOCOL_UDP,
    ip_checksum = hton16 0, source_address = rip, destination_address = lip\<rparr>"
  define u0 where "u0 = \<lparr>source_port = rport, dest_port = lport, udp_len = hton16 (of_nat (8 + length d)), udp_sum = hton16 0\<rparr>"
  obtain c where c: "ipv4_checksum h0 [] = Inr c" using ipv4_checksum_ok[of "[]" h0] by simp
  obtain k where k: "udp_checksum u0 d (of_nat (length d)) rip lip = Inr k" using udp_checksum_ok[of d u0 rip lip] d by simp
  define h u where "h = h0\<lparr>ip_checksum := c\<rparr>" and "u = u0\<lparr>udp_sum := k\<rparr>"
  let ?p = "ipv4_bytes h @ udp_bytes u @ d"
  obtain buf' where w: "write_packet (ipv4_bytes h) (udp_bytes u) d buf = Inr (buf', Some ?p)" "length buf' = length buf"
    using write_packet_ok[of "ipv4_bytes h" "udp_bytes u" d buf] buf by auto
  have "reply_ipv4 lip lport rip rport d buf = Inr (buf', Some ?p)"
    using c k w(1) unfolding h_def u_def by (simp add: reply_ipv4_def Let_def h0_def u0_def)
  moreover have v: "version4_ihl4 h = 0x45" by (simp add: h_def h0_def IPV4_MAKE_VERSION_IHL_def)
  have "ipv4_check ?p = Inr (Some (h, udp_bytes u @ d))"
  proof (rule ipv4_check_built[OF _ v])
    have "h\<lparr>ip_checksum := hton16 0\<rparr> = h0" by (simp add: h_def h0_def)
    then show "ipv4_checksum (h\<lparr>ip_checksum := hton16 0\<rparr>) [] = Inr (ip_checksum h)" using c by (simp add: h_def)
  qed (use d in \<open>simp_all add: h_def h0_def\<close>)
  moreover have "udp_check (udp_bytes u @ d) = Inr (Some (u, d))"
    by (rule udp_check_built) (use d in \<open>simp_all add: u_def u0_def\<close>)
  moreover have "u\<lparr>udp_sum := 0\<rparr> = u0" by (simp add: u_def u0_def hton16_def htol16_def ltoh16_def)
  moreover have "byte_at ?p 9 = IPV4_PROTOCOL_UDP" "byte_at ?p 0 = 0x45"
    using v by (simp_all add: ipv4_bytes_def htol16_def h_def h0_def)
  ultimately show ?thesis using w(2) k
    by (intro exI[of _ buf'] exI[of _ ?p]) (simp add: process_ipv4_udp_def version_byte, simp add: h_def h0_def u_def u0_def)
qed

lemma reply_ipv6_parses:
  assumes d: "length d \<le> 65527" and buf: "48 + length d \<le> length buf" and a: "length lip = 16" "length rip = 16"
  shows "\<exists>buf' p. reply_ipv6 lip lport rip rport d buf = Inr (buf', Some p) \<and> length buf' = length buf
    \<and> length p = 48 + length d \<and> drop_bit 4 (byte_at p 0) = 6
    \<and> process_ipv6_udp p = Inr (Some (BAddrIPv6 rip rport, BAddrIPv6 lip lport, False, d))"
proof -
  define h where "h = \<lparr>version4_tc4 = 0x60, tc4_fl4 = 0, fl = hton16 0, payload_length = hton16 (of_nat (8 + length d)),
    next_header = IPV6_NEXT_UDP, hop_limit = 64, source_address6 = rip, destination_address6 = lip\<rparr>"
  define u0 where "u0 = \<lparr>source_port = rport, dest_port = lport, udp_len = hton16 (of_nat (8 + length d)), udp_sum = hton16 0\<rparr>"
  obtain k where k: "udp_ip6_checksum u0 d (of_nat (length d)) rip lip = Inr k" using udp_ip6_checksum_ok[of d rip lip u0] d a by simp
  define u where "u = u0\<lparr>udp_sum := k\<rparr>"
  have s: "length (source_address6 h) = 16" "length (destination_address6 h) = 16" using a by (simp_all add: h_def)
  let ?p = "ipv6_bytes h @ udp_bytes u @ d"
  obtain buf' where w: "write_packet (ipv6_bytes h) (udp_bytes u) d buf = Inr (buf', Some ?p)" "length buf' = length buf"
    using write_packet_ok[of "ipv6_bytes h" "udp_bytes u" d buf] buf s by auto
  have "reply_ipv6 lip lport rip rport d buf = Inr (buf', Some ?p)"
    using k w(1) a unfolding u_def by (simp add: reply_ipv6_def Let_def h_def u0_def)
  moreover have "ipv6_check ?p = Inr (Some (h, udp_bytes u @ d))"
    by (rule ipv6_check_built[OF _ _ _ s]) (use d in \<open>simp_all add: h_def\<close>)
  moreover have "udp_check (udp_bytes u @ d) = Inr (Some (u, d))"
    by (rule udp_check_built) (use d in \<open>simp_all add: u_def u0_def\<close>)
  moreover have "u\<lparr>udp_sum := 0\<rparr> = u0" by (simp add: u_def u0_def hton16_def htol16_def ltoh16_def)
  moreover have "byte_at ?p 6 = IPV6_NEXT_UDP" "byte_at ?p 0 = 0x60" by (simp_all add: ipv6_bytes_def htol16_def h_def)
  ultimately show ?thesis using w(2) k s
    by (intro exI[of _ buf'] exI[of _ ?p]) (simp add: process_ipv6_udp_def version_byte, simp add: h_def u_def u0_def)
qed

end
