(* ===== verification/UdpDatagram.thy ===== *)
theory UdpDatagram
  imports UdpPackets
begin

text \<open>
  Which UDP packets of the device are accepted, and that the packets built from replies are such packets: the
  packet formats of the RFCs as predicates, checksums as sums that come out as all ones, and the
  properties of the packet functions of \<^verbatim>\<open>UdpPackets\<close>.
\<close>

section \<open>The datagrams that are accepted\<close>

lemma hton16_ntoh16 [simp]: "hton16 (ntoh16 x) = x"
  by (simp add: ntoh16_def hton16_def htol16_ltoh16)

lemma ntoh16_0 [simp]: "ntoh16 0 = 0"
  by (simp add: ntoh16_def htol16_def ltoh16_def)

lemma be_sum_field: "be_sum (htol16 x) = unat (ntoh16 x)"
  using be_sum_htol16[of "ntoh16 x"] hton16_bytes[of "ntoh16 x"] by simp

lemma list_of_8: "length b = 8 \<Longrightarrow> \<exists>x0 x1 x2 x3 x4 x5 x6 x7. b = [x0, x1, x2, x3, x4, x5, x6, x7]"
  by (simp add: numeral_eq_Suc length_Suc_conv) blast

lemma pair_bytes: "htol16 (ltoh16 [x, y]) = [x, y]"
  by (rule htol16_ltoh16) simp

lemma quad_bytes: "store32_le (load32_le [w, x, y, z]) = [w, x, y, z]"
  by (rule store32_le_load32_le) simp

lemma ipv4_bytes_of: "length b = 20 \<Longrightarrow> ipv4_bytes (ipv4_of b) = b"
proof -
  assume l: "length b = 20"
  have "length (take 8 b) = 8" "length (take 8 (drop 8 b)) = 8" "length (drop 16 b) = 4" using l by simp_all
  then obtain x0 x1 x2 x3 x4 x5 x6 x7 y0 y1 y2 y3 y4 y5 y6 y7 z where
    x: "take 8 b = [x0, x1, x2, x3, x4, x5, x6, x7]" "take 8 (drop 8 b) = [y0, y1, y2, y3, y4, y5, y6, y7]"
    "drop 16 b = z" "length z = 4" using list_of_8 by metis
  have "b = take 8 b @ take 8 (drop 8 b) @ drop 16 b"
    using append_take_drop_id[of 8 b] append_take_drop_id[of 8 "drop 8 b"] by simp
  then have b: "b = [x0, x1, x2, x3, x4, x5, x6, x7] @ [y0, y1, y2, y3, y4, y5, y6, y7] @ z" using x by simp
  show ?thesis unfolding b using x(4)
    by (simp add: ipv4_of_def ipv4_bytes_def byte_at_def pair_bytes quad_bytes store32_le_load32_le)
qed

lemma udp_bytes_of: "length b = 8 \<Longrightarrow> udp_bytes (udp_of b) = b"
  by (drule list_of_8) (elim exE, simp add: udp_of_def udp_bytes_def pair_bytes)

lemma ipv6_bytes_of: "length b = 40 \<Longrightarrow> ipv6_bytes (ipv6_of b) = b"
proof -
  assume l: "length b = 40"
  have "length (take 8 b) = 8" using l by simp
  then obtain x0 x1 x2 x3 x4 x5 x6 x7 where x: "take 8 b = [x0, x1, x2, x3, x4, x5, x6, x7]" using list_of_8 by blast
  define c where "c = drop 8 b"
  have b: "b = [x0, x1, x2, x3, x4, x5, x6, x7] @ c" "length c = 32" using x l append_take_drop_id[of 8 b] by (simp_all add: c_def)
  then have "c = take 16 c @ take 16 (drop 16 c)" by (simp add: take_all)
  with b show ?thesis by (simp add: ipv6_of_def ipv6_bytes_def byte_at_def pair_bytes)
qed

text \<open>
  Comparing with the computed checksum against adding everything up: the one value that the comparison misses is all
  ones, the other representation of zero.
\<close>

lemma ones_sum_mod: "0 < n \<Longrightarrow> ones_sum n = 65535 \<longleftrightarrow> n mod 65535 = 0"
proof -
  assume n: "0 < n"
  have "n mod 65535 = ((n - 1) mod 65535 + 1) mod 65535" using n by (simp add: mod_Suc_eq)
  moreover have "(r + 1) mod 65535 = 0 \<longleftrightarrow> r + 1 = (65535 :: nat)" if "r < 65535" for r
    using that by (cases "r = 65534") simp_all
  ultimately show ?thesis using n by (simp add: ones_sum_def del: mod_0_imp_dvd)
qed

lemma complement_iff:
  assumes "0 < S" and "C \<le> 65535"
  shows "C = 65535 - ones_sum S \<longleftrightarrow> C \<noteq> 65535 \<and> ones_sum (S + C) = 65535"
proof
  assume "C = 65535 - ones_sum S"
  with ones_sum_complement[OF assms(1)] ones_sum_0[of S] ones_sum_le[of S] assms(1)
  show "C \<noteq> 65535 \<and> ones_sum (S + C) = 65535" by auto
next
  assume c: "C \<noteq> 65535 \<and> ones_sum (S + C) = 65535"
  have o: "0 < ones_sum S" "ones_sum S \<le> 65535" using ones_sum_0[of S] ones_sum_le[of S] assms(1) by auto
  have "S mod 65535 = ones_sum S mod 65535" using assms(1) by (simp add: ones_sum_def mod_Suc_eq)
  then have "(ones_sum S + C) mod 65535 = (S + C) mod 65535" by (metis mod_add_left_eq)
  also have "\<dots> = 0" using c assms(1) ones_sum_mod[of "S + C"] by simp
  finally obtain k where k: "ones_sum S + C = 65535 * k" by (auto simp: mod_eq_0_iff_dvd elim: dvdE)
  moreover have "0 < k" using k o by (cases k) auto
  moreover have "k < 2"
  proof (rule ccontr)
    assume "\<not> k < 2"
    then have "65535 * 2 \<le> 65535 * k" by simp
    with k o assms(2) c show False by simp
  qed
  ultimately have "ones_sum S + C = 65535" by (simp add: numeral_2_eq_2 less_Suc_eq)
  then show "C = 65535 - ones_sum S" by simp
qed

lemma field_iff:
  assumes "0 < S"
  shows "x = hton16 (of_nat (65535 - ones_sum S)) \<longleftrightarrow> x \<noteq> 0xFFFF \<and> ones_sum (S + unat (ntoh16 x)) = 65535"
proof -
  have u: "unat (of_nat (65535 - ones_sum S) :: u16) = 65535 - ones_sum S"
    by (simp add: unsigned_of_nat take_bit_nat_eq_self)
  have "unat (ntoh16 x) \<le> 65535" using unsigned_less[of "ntoh16 x", where ?'a = nat] by simp
  note c = complement_iff[OF assms this]
  have "x = hton16 y \<longleftrightarrow> ntoh16 x = y" for y by auto
  then have "x = hton16 (of_nat (65535 - ones_sum S)) \<longleftrightarrow> unat (ntoh16 x) = 65535 - ones_sum S"
    using u by (metis word_unat_eq_iff)
  moreover have "unat (ntoh16 x) = 65535 \<longleftrightarrow> x = 0xFFFF"
  proof
    assume "unat (ntoh16 x) = 65535"
    then have "ntoh16 x = 0xFFFF" by (simp add: word_unat_eq_iff[of "ntoh16 x" "0xFFFF"])
    then have "x = hton16 0xFFFF" using hton16_ntoh16[of x] by simp
    then show "x = 0xFFFF" by (simp add: hton16_def htol16_def ltoh16_def)
  qed (simp add: ntoh16_def htol16_def ltoh16_def)
  ultimately show ?thesis using c by simp
qed

lemma ipv4_sum_split:
  assumes "even (length extra)"
  shows "be_sum (ipv4_bytes h @ extra)
    = be_sum (ipv4_bytes (h\<lparr>ip_checksum := hton16 0\<rparr>) @ extra) + unat (ntoh16 (ip_checksum h))"
  using assms by (simp add: ipv4_bytes_def be_sum_append be_sum_field)

lemma udp_sum_split:
  "be_sum (udp_bytes u) = be_sum (udp_bytes (u\<lparr>udp_sum := 0\<rparr>)) + unat (ntoh16 (udp_sum u))"
  by (simp add: udp_bytes_def be_sum_append be_sum_field)

lemma ipv4_check_iff:
  "ipv4_check data = Inr (Some (h, p)) \<longleftrightarrow>
     (\<exists>extra stray. data = ipv4_bytes h @ extra @ p @ stray \<and> IPV4_GET_VERSION h = 4
        \<and> unat (IPV4_GET_IHL h) * 4 = 20 + length extra
        \<and> unat (ntoh16 (total_length h)) = 20 + length extra + length p
        \<and> ip_checksum h \<noteq> 0xFFFF \<and> ones_sum (be_sum (ipv4_bytes h @ extra)) = 65535)"
  (is "_ \<longleftrightarrow> ?rhs")
proof -
  have sum: "ipv4_checksum (h\<lparr>ip_checksum := hton16 0\<rparr>) extra = Inr (ip_checksum h)
      \<longleftrightarrow> ip_checksum h \<noteq> 0xFFFF \<and> ones_sum (be_sum (ipv4_bytes h @ extra)) = 65535"
    if e: "unat (IPV4_GET_IHL h) * 4 = 20 + length extra" and v: "IPV4_GET_VERSION h = 4" for extra
  proof -
    have x: "even (length extra)" "length extra \<le> 40" using e ihl_le[of h] by presburger+
    have "version4_ihl4 h \<noteq> 0" using v by (auto simp: IPV4_GET_VERSION_def)
    then have "0 < be_sum (ipv4_bytes (h\<lparr>ip_checksum := hton16 0\<rparr>) @ extra)"
      by (simp add: ipv4_bytes_def be_sum_append unat_gt_0)
    from field_iff[OF this, of "ip_checksum h"] show ?thesis
      unfolding ipv4_checksum_ok[OF x] ipv4_sum_split[OF x(1), of h] by auto
  qed
  show ?thesis
  proof
    assume r: "ipv4_check data = Inr (Some (h, p))"
    define hl where "hl = unat (IPV4_GET_IHL h) * 4"
    define tl' where "tl' = unat (ntoh16 (total_length h))"
    define extra where "extra = take (hl - 20) (drop 20 data)"
    have *: "h = ipv4_of (take 20 data)" "20 \<le> length data" "IPV4_GET_VERSION h = 4" "20 \<le> hl" "hl \<le> length data"
      "hl \<le> tl'" "tl' \<le> length data" "p = take (tl' - hl) (drop hl data)"
      "ipv4_checksum (h\<lparr>ip_checksum := hton16 0\<rparr>) extra = Inr (ip_checksum h)"
      using r by (auto simp: ipv4_check_def bytes_at_def Let_def bindE_Inr_iff hl_def tl'_def extra_def split: if_splits)
    have le: "length extra = hl - 20" using *(4,5) by (simp add: extra_def)
    have "data = take 20 data @ extra @ p @ drop tl' data"
    proof -
      have "drop hl data = p @ drop tl' data" using *(6) by (metis *(8) append_take_drop_id drop_drop le_add_diff_inverse2)
      moreover have "drop 20 data = extra @ drop hl data"
        using *(4) by (metis extra_def append_take_drop_id drop_drop le_add_diff_inverse2)
      ultimately show ?thesis by (metis append_take_drop_id append_assoc)
    qed
    moreover have "ipv4_bytes h = take 20 data" using *(1,2) by (simp add: ipv4_bytes_of)
    ultimately have d: "data = ipv4_bytes h @ extra @ p @ drop tl' data" by simp
    have hl: "unat (IPV4_GET_IHL h) * 4 = 20 + length extra" using le *(4) by (simp add: hl_def)
    moreover have "unat (ntoh16 (total_length h)) = 20 + length extra + length p"
      using le *(4-8) by (simp add: tl'_def)
    ultimately show ?rhs using d sum[OF hl *(3)] *(3,9) by blast
  next
    assume ?rhs
    then obtain extra stray where *: "data = ipv4_bytes h @ extra @ p @ stray" "IPV4_GET_VERSION h = 4"
      "unat (IPV4_GET_IHL h) * 4 = 20 + length extra" "unat (ntoh16 (total_length h)) = 20 + length extra + length p"
      "ip_checksum h \<noteq> 0xFFFF" "ones_sum (be_sum (ipv4_bytes h @ extra)) = 65535" by blast
    with sum[OF *(3,2)] have "ipv4_checksum (h\<lparr>ip_checksum := hton16 0\<rparr>) extra = Inr (ip_checksum h)" by simp
    with *(1-4) show "ipv4_check data = Inr (Some (h, p))" by (simp add: ipv4_check_def Let_def)
  qed
qed

lemma ipv6_check_iff:
  "ipv6_check data = Inr (Some (h, p)) \<longleftrightarrow>
     (\<exists>stray. data = ipv6_bytes h @ p @ stray \<and> drop_bit 4 (version4_tc4 h) = 6
        \<and> length (source_address6 h) = 16 \<and> length (destination_address6 h) = 16
        \<and> unat (ntoh16 (payload_length h)) = length p)"
  (is "_ \<longleftrightarrow> ?rhs")
proof
  assume r: "ipv6_check data = Inr (Some (h, p))"
  define pl where "pl = unat (ntoh16 (payload_length h))"
  have *: "h = ipv6_of (take 40 data)" "40 \<le> length data" "drop_bit 4 (version4_tc4 h) = 6" "40 + pl \<le> length data"
    "p = take pl (drop 40 data)"
    using r by (auto simp: ipv6_check_def bytes_at_def Let_def bindE_Inr_iff pl_def split: if_splits)
  have "data = ipv6_bytes h @ p @ drop pl (drop 40 data)"
    using *(1,2,5) by (simp add: ipv6_bytes_of del: drop_drop)
  moreover have "length (source_address6 h) = 16" "length (destination_address6 h) = 16" using *(1,2) by (simp_all add: ipv6_of_def)
  ultimately show ?rhs using *(3,4,5) by (auto simp: pl_def)
next
  assume ?rhs
  then show "ipv6_check data = Inr (Some (h, p))" by (auto simp: ipv6_check_def Let_def)
qed

lemma udp_check_iff:
  "udp_check data = Inr (Some (u, d)) \<longleftrightarrow>
     (\<exists>rest. data = udp_bytes u @ d @ rest \<and> unat (ntoh16 (udp_len u)) = 8 + length d)"
  (is "_ \<longleftrightarrow> ?rhs")
proof
  assume r: "udp_check data = Inr (Some (u, d))"
  define ul where "ul = unat (ntoh16 (udp_len u))"
  have *: "u = udp_of (take 8 data)" "8 \<le> length data" "8 \<le> ul" "ul \<le> length data" "d = take (ul - 8) (drop 8 data)"
    using r by (auto simp: udp_check_def bytes_at_def Let_def bindE_Inr_iff ul_def split: if_splits)
  have "data = udp_bytes u @ d @ drop (ul - 8) (drop 8 data)"
    using *(1,2,5) by (simp add: udp_bytes_of del: drop_drop)
  moreover have "ul = 8 + length d" using *(3-5) by simp
  ultimately show ?rhs unfolding ul_def by blast
next
  assume ?rhs
  then show "udp_check data = Inr (Some (u, d))" by (auto simp: udp_check_def Let_def)
qed

text \<open>
  Datagrams as RFC 768, 791, 1071 and 8200 have them: headers, options of IPv4, data, bytes of the IP
  payload after the datagram and bytes after the IP packet. The sums over the IPv4 header and over the
  datagram with its pseudo header are all ones.
\<close>

definition ipv4_datagram :: "byte list \<Rightarrow> ipv4_header \<Rightarrow> udp_header \<Rightarrow> byte list \<Rightarrow> bool" where
  "ipv4_datagram data h u d \<longleftrightarrow>
     (\<exists>extra rest stray. data = ipv4_bytes h @ extra @ udp_bytes u @ d @ rest @ stray
        \<and> IPV4_GET_VERSION h = 4 \<and> protocol h = 17
        \<and> unat (IPV4_GET_IHL h) * 4 = 20 + length extra
        \<and> unat (ntoh16 (total_length h)) = 20 + length extra + 8 + length d + length rest
        \<and> unat (ntoh16 (udp_len u)) = 8 + length d
        \<and> ones_sum (be_sum (ipv4_bytes h @ extra)) = 65535
        \<and> ones_sum (udp4_sum u d (source_address h) (destination_address h)) = 65535)"

definition ipv6_datagram :: "byte list \<Rightarrow> ipv6_header \<Rightarrow> udp_header \<Rightarrow> byte list \<Rightarrow> bool" where
  "ipv6_datagram data h u d \<longleftrightarrow>
     (\<exists>rest stray. data = ipv6_bytes h @ udp_bytes u @ d @ rest @ stray
        \<and> drop_bit 4 (version4_tc4 h) = 6 \<and> next_header h = 17
        \<and> length (source_address6 h) = 16 \<and> length (destination_address6 h) = 16
        \<and> unat (ntoh16 (payload_length h)) = 8 + length d + length rest
        \<and> unat (ntoh16 (udp_len u)) = 8 + length d
        \<and> ones_sum (udp6_sum u d (source_address6 h) (destination_address6 h)) = 65535)"

lemma udp_len_bound: "unat (ntoh16 (udp_len u)) = 8 + length d \<Longrightarrow> length d \<le> 65527"
  using unsigned_less[of "ntoh16 (udp_len u)", where ?'a = nat] by simp

lemma udp4_verify:
  assumes "length d \<le> 65527"
  shows "udp_checksum (u\<lparr>udp_sum := 0\<rparr>) d (of_nat (length d)) s t = Inr (udp_sum u)
    \<longleftrightarrow> udp_sum u \<noteq> 0xFFFF \<and> ones_sum (udp4_sum u d s t) = 65535"
proof -
  have "0 < udp4_sum (u\<lparr>udp_sum := 0\<rparr>) d s t" by (simp add: udp4_sum_def)
  from field_iff[OF this, of "udp_sum u"] show ?thesis
    unfolding udp_checksum_ok[OF assms] by (auto simp: udp4_sum_def udp_sum_split[of u] add_ac)
qed

lemma udp6_verify:
  assumes "length d \<le> 65527" and "length s = 16" and "length t = 16"
  shows "udp_ip6_checksum (u\<lparr>udp_sum := 0\<rparr>) d (of_nat (length d)) s t = Inr (udp_sum u)
    \<longleftrightarrow> udp_sum u \<noteq> 0xFFFF \<and> ones_sum (udp6_sum u d s t) = 65535"
proof -
  have "0 < udp6_sum (u\<lparr>udp_sum := 0\<rparr>) d s t" by (simp add: udp6_sum_def)
  from field_iff[OF this, of "udp_sum u"] show ?thesis
    unfolding udp_ip6_checksum_ok[OF assms] by (auto simp: udp6_sum_def udp_sum_split[of u] add_ac)
qed

lemma process_ipv4_iff:
  "process_ipv4_udp data = Inr (Some (l, r, dns, d)) \<longleftrightarrow>
     (\<exists>h u. ipv4_datagram data h u d \<and> ip_checksum h \<noteq> 0xFFFF \<and> udp_sum u \<noteq> 0xFFFF \<and> \<not> dns
        \<and> l = BAddrIPv4 (source_address h) (source_port u) \<and> r = BAddrIPv4 (destination_address h) (dest_port u))"
  (is "_ \<longleftrightarrow> ?rhs")
proof
  assume "process_ipv4_udp data = Inr (Some (l, r, dns, d))"
  then obtain h p u where *: "byte_at data 9 = IPV4_PROTOCOL_UDP" "ipv4_check data = Inr (Some (h, p))"
    "udp_check p = Inr (Some (u, d))"
    "udp_checksum (u\<lparr>udp_sum := 0\<rparr>) d (of_nat (length d)) (source_address h) (destination_address h) = Inr (udp_sum u)"
    and a: "\<not> dns" "l = BAddrIPv4 (source_address h) (source_port u)" "r = BAddrIPv4 (destination_address h) (dest_port u)"
    by (auto simp: process_ipv4_udp_def bindE_Inr_iff split: if_splits option.splits)
  obtain extra stray where h: "data = ipv4_bytes h @ extra @ p @ stray" "IPV4_GET_VERSION h = 4"
    "unat (IPV4_GET_IHL h) * 4 = 20 + length extra" "unat (ntoh16 (total_length h)) = 20 + length extra + length p"
    "ip_checksum h \<noteq> 0xFFFF" "ones_sum (be_sum (ipv4_bytes h @ extra)) = 65535" using *(2) ipv4_check_iff by auto
  obtain rest where u: "p = udp_bytes u @ d @ rest" "unat (ntoh16 (udp_len u)) = 8 + length d" using *(3) udp_check_iff by auto
  have "protocol h = 17" using *(1) by (simp add: h(1) ipv4_bytes_def htol16_def IPV4_PROTOCOL_UDP_def)
  moreover have "udp_sum u \<noteq> 0xFFFF" "ones_sum (udp4_sum u d (source_address h) (destination_address h)) = 65535"
    using *(4) udp4_verify[OF udp_len_bound[OF u(2)]] by auto
  ultimately have "ipv4_datagram data h u d" using h u unfolding ipv4_datagram_def
    by (intro exI[of _ extra] exI[of _ rest] exI[of _ stray]) simp
  with \<open>udp_sum u \<noteq> 0xFFFF\<close> h(5) a show ?rhs by blast
next
  assume ?rhs
  then obtain h u extra rest stray where a: "ip_checksum h \<noteq> 0xFFFF" "udp_sum u \<noteq> 0xFFFF" "\<not> dns"
    "l = BAddrIPv4 (source_address h) (source_port u)" "r = BAddrIPv4 (destination_address h) (dest_port u)"
    and h: "data = ipv4_bytes h @ extra @ (udp_bytes u @ d @ rest) @ stray" "IPV4_GET_VERSION h = 4" "protocol h = 17"
    "unat (IPV4_GET_IHL h) * 4 = 20 + length extra"
    "unat (ntoh16 (total_length h)) = 20 + length extra + length (udp_bytes u @ d @ rest)"
    "unat (ntoh16 (udp_len u)) = 8 + length d" "ones_sum (be_sum (ipv4_bytes h @ extra)) = 65535"
    "ones_sum (udp4_sum u d (source_address h) (destination_address h)) = 65535"
    by (auto simp: ipv4_datagram_def)
  have "ipv4_check data = Inr (Some (h, udp_bytes u @ d @ rest))" using h(1,2,4,5,7) a(1) ipv4_check_iff by blast
  moreover have "udp_check (udp_bytes u @ d @ rest) = Inr (Some (u, d))" using h(6) udp_check_iff by blast
  moreover have "udp_checksum (u\<lparr>udp_sum := 0\<rparr>) d (of_nat (length d)) (source_address h) (destination_address h) = Inr (udp_sum u)"
    using udp4_verify[OF udp_len_bound[OF h(6)]] h(8) a(2) by blast
  moreover have "20 \<le> length data" "byte_at data 9 = IPV4_PROTOCOL_UDP"
    using h(3) by (simp_all add: h(1) ipv4_bytes_def htol16_def IPV4_PROTOCOL_UDP_def)
  ultimately show "process_ipv4_udp data = Inr (Some (l, r, dns, d))" using a(3-5) by (simp add: process_ipv4_udp_def)
qed

lemma process_ipv6_iff:
  "process_ipv6_udp data = Inr (Some (l, r, dns, d)) \<longleftrightarrow>
     (\<exists>h u. ipv6_datagram data h u d \<and> udp_sum u \<noteq> 0xFFFF \<and> \<not> dns
        \<and> l = BAddrIPv6 (source_address6 h) (source_port u) \<and> r = BAddrIPv6 (destination_address6 h) (dest_port u))"
  (is "_ \<longleftrightarrow> ?rhs")
proof
  assume "process_ipv6_udp data = Inr (Some (l, r, dns, d))"
  then obtain h p u where *: "byte_at data 6 = IPV6_NEXT_UDP" "ipv6_check data = Inr (Some (h, p))"
    "udp_check p = Inr (Some (u, d))"
    "udp_ip6_checksum (u\<lparr>udp_sum := 0\<rparr>) d (of_nat (length d)) (source_address6 h) (destination_address6 h) = Inr (udp_sum u)"
    and a: "\<not> dns" "l = BAddrIPv6 (source_address6 h) (source_port u)" "r = BAddrIPv6 (destination_address6 h) (dest_port u)"
    by (auto simp: process_ipv6_udp_def bindE_Inr_iff split: if_splits option.splits)
  obtain stray where h: "data = ipv6_bytes h @ p @ stray" "drop_bit 4 (version4_tc4 h) = 6"
    "length (source_address6 h) = 16" "length (destination_address6 h) = 16" "unat (ntoh16 (payload_length h)) = length p"
    using *(2) ipv6_check_iff by auto
  obtain rest where u: "p = udp_bytes u @ d @ rest" "unat (ntoh16 (udp_len u)) = 8 + length d" using *(3) udp_check_iff by auto
  have "next_header h = 17" using *(1) by (simp add: h(1) ipv6_bytes_def htol16_def IPV6_NEXT_UDP_def)
  moreover have "udp_sum u \<noteq> 0xFFFF" "ones_sum (udp6_sum u d (source_address6 h) (destination_address6 h)) = 65535"
    using *(4) udp6_verify[OF udp_len_bound[OF u(2)] h(3,4)] by auto
  ultimately have "ipv6_datagram data h u d" using h u unfolding ipv6_datagram_def
    by (intro exI[of _ rest] exI[of _ stray]) simp
  with \<open>udp_sum u \<noteq> 0xFFFF\<close> a show ?rhs by blast
next
  assume ?rhs
  then obtain h u rest stray where a: "udp_sum u \<noteq> 0xFFFF" "\<not> dns"
    "l = BAddrIPv6 (source_address6 h) (source_port u)" "r = BAddrIPv6 (destination_address6 h) (dest_port u)"
    and h: "data = ipv6_bytes h @ (udp_bytes u @ d @ rest) @ stray" "drop_bit 4 (version4_tc4 h) = 6" "next_header h = 17"
    "length (source_address6 h) = 16" "length (destination_address6 h) = 16"
    "unat (ntoh16 (payload_length h)) = length (udp_bytes u @ d @ rest)"
    "unat (ntoh16 (udp_len u)) = 8 + length d" "ones_sum (udp6_sum u d (source_address6 h) (destination_address6 h)) = 65535"
    by (auto simp: ipv6_datagram_def)
  have "ipv6_check data = Inr (Some (h, udp_bytes u @ d @ rest))" using h(1,2,4-6) ipv6_check_iff by blast
  moreover have "udp_check (udp_bytes u @ d @ rest) = Inr (Some (u, d))" using h(7) udp_check_iff by blast
  moreover have "udp_ip6_checksum (u\<lparr>udp_sum := 0\<rparr>) d (of_nat (length d)) (source_address6 h) (destination_address6 h) = Inr (udp_sum u)"
    using udp6_verify[OF udp_len_bound[OF h(7)] h(4,5)] h(8) a(1) by blast
  moreover have "40 \<le> length data" "byte_at data 6 = IPV6_NEXT_UDP"
    using h(3-5) by (simp_all add: h(1) ipv6_bytes_def htol16_def IPV6_NEXT_UDP_def)
  ultimately show "process_ipv6_udp data = Inr (Some (l, r, dns, d))" using a(2-4) by (simp add: process_ipv6_udp_def)
qed

lemma version_nibble: "drop_bit 4 x AND 0xF = drop_bit 4 (x :: byte)"
proof -
  have "drop_bit 4 x AND 0xF = take_bit 4 (drop_bit 4 x)" using take_bit_eq_mask[of 4 "drop_bit 4 x"] by (simp add: mask_eq_exp_minus_1)
  also have "\<dots> = drop_bit 4 x" by (auto simp: bit_eq_iff bit_simps dest: bit_imp_le_length)
  finally show ?thesis .
qed

lemma datagram_version:
  "ipv4_datagram data h u d \<Longrightarrow> data \<noteq> [] \<and> drop_bit 4 (byte_at data 0) = 4"
  "ipv6_datagram data h6 u d \<Longrightarrow> data \<noteq> [] \<and> drop_bit 4 (byte_at data 0) = 6"
  by (auto simp: ipv4_datagram_def ipv6_datagram_def ipv4_bytes_def ipv6_bytes_def IPV4_GET_VERSION_def version_nibble)

lemma limit_iff:
  "bindE x (\<lambda>r. case r of None \<Rightarrow> Inr None
      | Some (l, r, dns, data) \<Rightarrow> if length data > m then Inr None else Inr (Some (l, r, dns, data))) = Inr (Some (l, r, dns, d))
    \<longleftrightarrow> x = Inr (Some (l, r, dns, d)) \<and> length d \<le> m"
  by (cases x) (auto split: option.splits)

text \<open>A datagram whose sum is zero and whose checksum is therefore sent as all ones.\<close>

lemma all_ones_datagram:
  "ipv4_datagram [0x45, 0, 0, 30, 0, 0, 0, 0, 64, 17, 0x60, 0xBF, 10, 0, 0, 1, 8, 8, 8, 8, 0, 53, 0, 53, 0, 10, 0xFF, 0xFF, 229, 95]
     \<lparr>version4_ihl4 = 0x45, ds = 0, total_length = 0x1E00, identification = 0, flags3_fragmentoffset13 = 0, ttl = 64, protocol = 17,
       ip_checksum = 0xBF60, source_address = 0x0100000A, destination_address = 0x08080808\<rparr>
     \<lparr>source_port = 0x3500, dest_port = 0x3500, udp_len = 0x0A00, udp_sum = 0xFFFF\<rparr> [229, 95]"
  unfolding ipv4_datagram_def
  by (intro exI[of _ "[]"])
    (simp add: ipv4_bytes_def udp_bytes_def htol16_def store32_le_def drop_bit_eq_div IPV4_GET_VERSION_def IPV4_GET_IHL_def
      ntoh16_def ltoh16_def push_bit_eq_mult udp4_sum_def ones_sum_def)

text \<open>
  For every sequence of bytes no read leaves the packet and no assertion fails, the checksum loops end, and what is
  handed to the gateway client has two addresses of the same kind, data that is a part of the packet and within the MTU, and is IPv6
  only if IPv6 is enabled.
\<close>

lemma device_udp_input:
  "\<exists>res. process_device_udp_packet opt data = Inr res \<and> (case res of None \<Rightarrow> True | Some (l, r, dns, d) \<Rightarrow>
      wf_addr l \<and> wf_addr r \<and> BAddr_type l = BAddr_type r \<and> length d \<le> opt_udp_mtu opt
      \<and> (\<exists>off. off + length d \<le> length data \<and> d = take (length d) (drop off data)) \<and> (has_ip6 opt \<or> BAddr_type l = 1))"
proof -
  obtain res where r: "process_device_udp_packet opt data = Inr res"
    "\<And>l r dns d. res = Some (l, r, dns, d) \<Longrightarrow> good_submit data (l, r, dns, d) \<and> length d \<le> opt_udp_mtu opt
      \<and> (BAddr_type l = 2 \<longrightarrow> has_ip6 opt)" using process_device_any[of opt data] by blast
  have k: "has_ip6 opt \<or> BAddr_type l = 1" if "res = Some (l, r, dns, d)" for l r dns d
    using r(2)[OF that] by (cases l) (auto simp: good_submit_def wf_addr_def)
  show ?thesis
  proof (cases res)
    case (Some q)
    then obtain l r dns d where q: "res = Some (l, r, dns, d)" by (cases q) auto
    with r(1) r(2)[OF q] k[OF q] show ?thesis by (auto simp: good_submit_def part_of_def)
  qed (use r(1) in simp)
qed

lemma reply_fits:
  assumes "wf_addr l" and "wf_addr r" and "BAddr_type l = BAddr_type r" and "has_udpgw opt"
    and "BAddr_type l = 2 \<longrightarrow> has_ip6 opt"
    and "length d + (if BAddr_type l = 1 then 28 else 48) \<le> min (device_mtu opt) (if BAddr_type l = 1 then 65535 else 65575)" and "length buf = device_mtu opt"
    and "length d \<le> opt_udp_mtu opt"
  shows "\<exists>buf' p. udpgw_client_handler_received opt l r d buf = Inr (buf', Some p) \<and> length buf' = length buf
    \<and> length p \<le> device_mtu opt \<and> process_device_udp_packet opt p = Inr (Some (r, l, False, d))"
proof (cases l)
  case (BAddrIPv4 lip lport)
  with assms(2,3) obtain rip rport where r: "r = BAddrIPv4 rip rport" by (cases r) (simp_all add: wf_addr_def)
  obtain buf' p where p: "reply_ipv4 lip lport rip rport d buf = Inr (buf', Some p)" "length buf' = length buf"
    "length p = 28 + length d" "drop_bit 4 (byte_at p 0) = 4"
    "process_ipv4_udp p = Inr (Some (BAddrIPv4 rip rport, BAddrIPv4 lip lport, False, d))"
    using reply_ipv4_parses[of d buf lip lport rip rport] assms(6,7) BAddrIPv4 by auto
  with assms(4,6,8) BAddrIPv4 r show ?thesis
    by (intro exI[of _ buf'] exI[of _ p]) (auto simp: udpgw_client_handler_received_def process_device_udp_packet_def Let_def)
next
  case (BAddrIPv6 lip lport)
  with assms(2,3) obtain rip rport where r: "r = BAddrIPv6 rip rport" by (cases r) (simp_all add: wf_addr_def)
  have "length lip = 16" "length rip = 16" using assms(1,2) BAddrIPv6 r by (simp_all add: wf_addr_def)
  then obtain buf' p where p: "reply_ipv6 lip lport rip rport d buf = Inr (buf', Some p)" "length buf' = length buf"
    "length p = 48 + length d" "drop_bit 4 (byte_at p 0) = 6"
    "process_ipv6_udp p = Inr (Some (BAddrIPv6 rip rport, BAddrIPv6 lip lport, False, d))"
    using reply_ipv6_parses[of d buf lip rip lport rport] assms(6,7) BAddrIPv6 by auto
  with assms(4-6,8) BAddrIPv6 r show ?thesis
    by (intro exI[of _ buf'] exI[of _ p]) (auto simp: udpgw_client_handler_received_def process_device_udp_packet_def Let_def)
qed (use assms(1) in \<open>simp add: wf_addr_def\<close>)

section \<open>Properties\<close>


text \<open>
  C14. Packets written to the device: if a datagram from the gateway fits the MTU of the device, the packet is built
  within the buffer, has its exact length, and its headers and checksums are such that a receiver that parses it
  as this program does reads the remote address as source, the local address as destination, and the data.
\<close>

theorem udp_reply_roundtrip:
  assumes "wf_addr l" and "wf_addr r" and "BAddr_type l = BAddr_type r" and "has_udpgw opt"
    and "BAddr_type l = 2 \<longrightarrow> has_ip6 opt"
    and "length d + (if BAddr_type l = 1 then 28 else 48) \<le> min (device_mtu opt) (if BAddr_type l = 1 then 65535 else 65575)" and "length buf = device_mtu opt"
    and "length d \<le> opt_udp_mtu opt"
  shows "\<exists>buf' p. udpgw_client_handler_received opt l r d buf = Inr (buf', Some p) \<and> length buf' = length buf
    \<and> length p \<le> device_mtu opt \<and> process_device_udp_packet opt p = Inr (Some (r, l, False, d))"
  using assms by (rule reply_fits)

theorem udp_reply_roundtrip_witness:
  "\<exists>buf' p. udpgw_client_handler_received \<lparr>has_udpgw = True, has_ip6 = False, device_mtu = 40, opt_udp_mtu = 12\<rparr>
      (BAddrIPv4 0x0100000A 0x3500) (BAddrIPv4 0x08080808 0x3500) [1, 2, 3] (replicate 40 0) = Inr (buf', Some p)
    \<and> process_device_udp_packet \<lparr>has_udpgw = True, has_ip6 = False, device_mtu = 40, opt_udp_mtu = 12\<rparr> p
        = Inr (Some (BAddrIPv4 0x08080808 0x3500, BAddrIPv4 0x0100000A 0x3500, False, [1, 2, 3]))"
proof -
  let ?o = "\<lparr>has_udpgw = True, has_ip6 = False, device_mtu = 40, opt_udp_mtu = 12\<rparr>"
  have "wf_addr (BAddrIPv4 0x0100000A 0x3500)" "wf_addr (BAddrIPv4 0x08080808 0x3500)" by (simp_all add: wf_addr_def)
  with udp_reply_roundtrip[of "BAddrIPv4 0x0100000A 0x3500" "BAddrIPv4 0x08080808 0x3500" ?o "[1, 2, 3]" "replicate 40 0"]
  show ?thesis by auto
qed

end
