(* ===== verification/UdpPath.thy ===== *)
theory UdpPath
  imports SocksUdpGwClient UdpDatagram
begin

text \<open>
  The way of UDP datagrams through \<^verbatim>\<open>tun2socks/tun2socks.c\<close>: packets read from the device pass through a
  \<^verbatim>\<open>SinglePacketBuffer\<close> and an interface to \<open>device_read_handler_send\<close>, which gives datagrams to the gateway client and everything
  else to lwip; replies of the gateway are written to the device.

  \<^item> \<open>device_read_interface\<close> and \<open>buffer_receiving\<close> are the interface and the state of \<open>device_read_buffer\<close>: whether a receive
    operation of the device is in progress.
  \<^item> \<open>device_write_buf\<close> is the buffer of the same name, of the size of the device's MTU.
  \<^item> \<open>pbuf_ok\<close> says whether \<open>pbuf_alloc\<close> succeeds; lwip's input function is an output of the model.
\<close>

record tun2socks =
  udpgw :: socks_udpgw_client
  options_of :: options
  device_read_interface :: packet_pass_interface
  buffer_receiving :: bool
  device_write_buf :: "byte list"

datatype tun_out = DeviceSend "byte list" | NetifInput "byte list" | Gateway gw_out

type_synonym tun_result = "(tun2socks \<times> tun_out list) run option"

definition DEFAULT_UDPGW_MAX_CONNECTIONS :: nat where
  "DEFAULT_UDPGW_MAX_CONNECTIONS = 256"

text \<open>The buffer between the device and the interface: a packet received is passed on, and a packet passed on lets the next one be received.\<close>

definition receiver_recv :: "tun2socks \<Rightarrow> tun2socks run" where
  "receiver_recv t = bindE (guardE (\<not> buffer_receiving t) AssertFailed) (\<lambda>_. Inr (t\<lparr>buffer_receiving := True\<rparr>))"

definition input_handler_done :: "byte list \<Rightarrow> tun2socks \<Rightarrow> tun2socks run" where
  "input_handler_done d t =
     bindE (PacketPassInterface_Sender_Send d (device_read_interface t)) (\<lambda>i. Inr (t\<lparr>device_read_interface := i\<rparr>))"

definition output_handler_done :: "tun2socks \<Rightarrow> tun2socks run" where
  "output_handler_done t = receiver_recv t"

definition SinglePacketBuffer_Init :: "bool \<Rightarrow> nat \<Rightarrow> tun2socks \<Rightarrow> tun2socks option run" where
  "SinglePacketBuffer_Init balloc_ok input_mtu t =
     bindE (guardE (PacketPassInterface_GetMTU (device_read_interface t) \<ge> input_mtu) AssertFailed) (\<lambda>_.
     bindE (PacketPassInterface_Sender_Init (device_read_interface t)) (\<lambda>i.
       if balloc_ok
       then bindE (receiver_recv (t\<lparr>device_read_interface := i, buffer_receiving := False\<rparr>)) (\<lambda>t. Inr (Some t))
       else Inr None))"

text \<open>The part of the main program that sets up reading from the device, the gateway client and the write buffer.\<close>

definition udp_setup ::
    "tun2socks \<Rightarrow> nat \<Rightarrow> bool \<Rightarrow> bool \<Rightarrow> (nat \<Rightarrow> flow) \<Rightarrow> nat \<Rightarrow> nat \<Rightarrow> auth_info list \<Rightarrow> BSocksClient.BAddr \<Rightarrow> bool \<Rightarrow> byte list option
      \<Rightarrow> tun2socks option run" where
  "udp_setup mem mtu ip6 balloc_ok fmem ka send_buffer_size auth remote connector_ok write_buf =
     bindE (SinglePacketBuffer_Init balloc_ok mtu
              (mem\<lparr>device_read_interface := PacketPassInterface_Init (device_read_interface mem) mtu\<rparr>)) (\<lambda>r.
       case r of
         None \<Rightarrow> Inr None
       | Some t \<Rightarrow>
           let udp_mtu = compute_udp_mtu mtu ip6
           in if udpgw_compute_mtu udp_mtu < 0 \<or> udpgw_compute_mtu udp_mtu > 65535 then Inr None
              else bindE (SocksUdpGwClient_Init (udpgw t) fmem ka udp_mtu DEFAULT_UDPGW_MAX_CONNECTIONS send_buffer_size
                            auth remote connector_ok) (\<lambda>r.
                     case r of
                       None \<Rightarrow> Inr None
                     | Some c \<Rightarrow>
                         (case write_buf of
                            None \<Rightarrow> Inr None
                          | Some buf \<Rightarrow> Inr (Some (t\<lparr>udpgw := c, device_write_buf := buf,
                              options_of := \<lparr>has_udpgw = True, has_ip6 = ip6, device_mtu = mtu, opt_udp_mtu = udp_mtu\<rparr>\<rparr>)))))"

definition device_read_handler_send ::
    "byte list \<Rightarrow> nat option \<Rightarrow> bool \<Rightarrow> bool \<Rightarrow> bool \<Rightarrow> tun2socks \<Rightarrow> tun_result" where
  "device_read_handler_send data malloc flow_ok room pbuf_ok t =
     bindO (Some (PacketPassInterface_Done (device_read_interface t))) (\<lambda>i.
     let t = t\<lparr>device_read_interface := i\<rparr>
     in bindO (Some (process_device_udp_packet (options_of t) data)) (\<lambda>r.
          case r of
            Some (l, r, dns, d) \<Rightarrow>
              bindO (SocksUdpGwClient_SubmitPacket l r dns d malloc flow_ok room (udpgw t)) (\<lambda>(c, os).
                Some (Inr (t\<lparr>udpgw := c\<rparr>, map Gateway os)))
          | None \<Rightarrow>
              if length data > 65535 then Some (Inr (t, []))
              else if \<not> pbuf_ok then Some (Inr (t, []))
              else Some (Inr (t, [NetifInput data]))))"

text \<open>The reports of the gateway client: what it receives is written to the device.\<close>

fun deliver :: "gw_out list \<Rightarrow> tun2socks \<Rightarrow> (tun2socks \<times> tun_out list) run" where
  "deliver [] t = Inr (t, [])"
| "deliver (Inl (ug_call.Received l r d) # os) t =
     bindE (udpgw_client_handler_received (options_of t) l r d (device_write_buf t)) (\<lambda>(buf, p).
     bindE (deliver os (t\<lparr>device_write_buf := buf\<rparr>)) (\<lambda>(t, outs).
       Inr (t, (case p of None \<Rightarrow> [] | Some p \<Rightarrow> [DeviceSend p]) @ outs)))"
| "deliver (x # os) t = bindE (deliver os t) (\<lambda>(t, outs). Inr (t, Gateway x # outs))"

section \<open>Steps\<close>

datatype tun_event = TunRead "byte list" | TunReadJob "nat option" bool bool bool | TunReadDone | TunClient su_event

fun tun_step :: "memory \<Rightarrow> tun_event \<Rightarrow> tun2socks \<Rightarrow> tun_result" where
  "tun_step al (TunRead d) t = Some (bindE (input_handler_done d (t\<lparr>buffer_receiving := False\<rparr>)) (\<lambda>t. Inr (t, [])))"
| "tun_step al (TunReadJob malloc flow_ok room pbuf_ok) t =
     bindO (Some (PacketPassInterface_job_operation ((device_read_interface t)\<lparr>job_operation := False\<rparr>))) (\<lambda>(i, cs).
       case cs of
         [HandlerSend d] \<Rightarrow> device_read_handler_send d malloc flow_ok room pbuf_ok (t\<lparr>device_read_interface := i\<rparr>)
       | _ \<Rightarrow> Some (Inr (t\<lparr>device_read_interface := i\<rparr>, [])))"
| "tun_step al TunReadDone t =
     Some (bindE (PacketPassInterface_job_done ((device_read_interface t)\<lparr>job_done := False\<rparr>)) (\<lambda>(i, cs).
       bindE (if HandlerDone \<in> set cs then output_handler_done (t\<lparr>device_read_interface := i\<rparr>)
              else Inr (t\<lparr>device_read_interface := i\<rparr>)) (\<lambda>t. Inr (t, []))))"
| "tun_step al (TunClient e) t =
     bindO (su_step al e (udpgw t)) (\<lambda>(c, os). Some (deliver os (t\<lparr>udpgw := c\<rparr>)))"

text \<open>The device reads packets within its MTU; datagrams are submitted by \<open>device_read_handler_send\<close> only.\<close>

fun tun_legal :: "tun_event \<Rightarrow> tun2socks \<Rightarrow> bool" where
  "tun_legal (TunRead d) t \<longleftrightarrow> buffer_receiving t \<and> length d \<le> device_mtu (options_of t)"
| "tun_legal (TunReadJob malloc flow_ok room pbuf_ok) t \<longleftrightarrow> job_operation (device_read_interface t)
     \<and> (case malloc of None \<Rightarrow> True | Some c \<Rightarrow> c \<notin> set (flows_list (send_queue (sys_g (su_gw (udpgw t))))))"
| "tun_legal TunReadDone t \<longleftrightarrow> job_done (device_read_interface t)"
| "tun_legal (TunClient e) t \<longleftrightarrow> su_legal e (udpgw t)
     \<and> (case e of SuGw (GwSubmit l r dns d malloc flow_ok room) \<Rightarrow> False | _ \<Rightarrow> True)"

text \<open>The states, with the packets the device has read so far.\<close>

inductive tun_reachable :: "memory \<Rightarrow> tun2socks \<Rightarrow> byte list list \<Rightarrow> bool" for al where
  start: "udp_setup mem mtu ip6 balloc_ok fmem ka sbs auth remote connector_ok (Some buf) = Inr (Some t)
    \<Longrightarrow> BSocksClient.wf_addr remote \<Longrightarrow> length buf = mtu \<Longrightarrow> tun_reachable al t []"
| step: "tun_reachable al t ps \<Longrightarrow> tun_legal e t \<Longrightarrow> tun_step al e t = Some (Inr (t', os))
    \<Longrightarrow> tun_reachable al t' (ps @ (case e of TunRead d \<Rightarrow> [d] | _ \<Rightarrow> []))"

section \<open>The invariant\<close>

text \<open>The pairs of addresses of the datagrams that the device has sent.\<close>

definition asked :: "options \<Rightarrow> byte list list \<Rightarrow> conaddr set" where
  "asked opt ps = {\<lparr>local_addr = l, remote_addr = r\<rparr> | l r dns d p. p \<in> set ps
     \<and> process_device_udp_packet opt p = Inr (Some (l, r, dns, d))}"

definition read_inv :: "tun2socks \<Rightarrow> byte list list \<Rightarrow> bool" where
  "read_inv t ps \<longleftrightarrow> ppi_inv (device_read_interface t) \<and> ppi_mtu (device_read_interface t) = device_mtu (options_of t)
     \<and> (buffer_receiving t \<longleftrightarrow> packet_pass_interface.state (device_read_interface t) = PPI_STATE_NONE)
     \<and> (packet_pass_interface.state (device_read_interface t) = PPI_STATE_OPERATION_PENDING
         \<longrightarrow> job_operation_data (device_read_interface t) \<in> set ps)
     \<and> packet_pass_interface.state (device_read_interface t) \<noteq> PPI_STATE_BUSY"

definition client_inv :: "tun2socks \<Rightarrow> byte list list \<Rightarrow> bool" where
  "client_inv t ps \<longleftrightarrow> su_inv (udpgw t) \<and> has_udpgw (options_of t)
     \<and> udp_mtu (sys_g (su_gw (udpgw t))) = opt_udp_mtu (options_of t)
     \<and> length (device_write_buf t) = device_mtu (options_of t)
     \<and> table_pairs (su_gw (udpgw t)) \<subseteq> asked (options_of t) ps"

lemma asked_pair:
  assumes "\<lparr>local_addr = l, remote_addr = r\<rparr> \<in> asked opt ps"
  shows "BAddr.wf_addr l" "BAddr.wf_addr r" "BAddr_type l = BAddr_type r" "has_ip6 opt \<or> BAddr_type l = 1"
proof -
  obtain dns d p where "process_device_udp_packet opt p = Inr (Some (l, r, dns, d))" using assms by (auto simp: asked_def)
  with device_udp_input[of opt p] show "BAddr.wf_addr l" "BAddr.wf_addr r" "BAddr_type l = BAddr_type r"
    "has_ip6 opt \<or> BAddr_type l = 1" by auto
qed

text \<open>A reply to a pair of addresses of the device: dropped because it is too long, or a datagram back to the device.\<close>

definition reply_packet :: "options \<Rightarrow> conaddr set \<Rightarrow> byte list \<Rightarrow> bool" where
  "reply_packet opt A p \<longleftrightarrow> length p \<le> device_mtu opt
     \<and> (\<exists>l r d. \<lparr>local_addr = l, remote_addr = r\<rparr> \<in> A \<and> process_device_udp_packet opt p = Inr (Some (r, l, False, d)))"

lemma handler_received_ok:
  assumes a: "\<lparr>local_addr = l, remote_addr = r\<rparr> \<in> asked opt ps" and d: "length d \<le> opt_udp_mtu opt"
    and buf: "length buf = device_mtu opt" and gw: "has_udpgw opt"
  shows "\<exists>buf' q. udpgw_client_handler_received opt l r d buf = Inr (buf', q) \<and> length buf' = length buf
    \<and> (case q of None \<Rightarrow> True | Some p \<Rightarrow> reply_packet opt (asked opt ps) p)"
proof (cases "length d + (if BAddr_type l = 1 then 28 else 48) \<le> min (device_mtu opt) (if BAddr_type l = 1 then 65535 else 65575)")
  case True
  note w = asked_pair[OF a]
  from reply_fits[OF w(1-3) gw _ True buf d] w(4) obtain buf' p where
    "udpgw_client_handler_received opt l r d buf = Inr (buf', Some p)" "length buf' = length buf" "length p \<le> device_mtu opt"
    "process_device_udp_packet opt p = Inr (Some (r, l, False, d))" by auto
  with a show ?thesis by (auto simp: reply_packet_def)
next
  case False
  have "udpgw_client_handler_received opt l r d buf = Inr (buf, None)"
    using False asked_pair(1-3)[OF a] gw
    by (cases l; cases r) (auto simp: udpgw_client_handler_received_def BAddr.wf_addr_def split: if_splits)
  then show ?thesis by simp
qed

lemma deliver_ok:
  assumes "\<And>l r d. Inl (ug_call.Received l r d) \<in> set os
      \<Longrightarrow> \<lparr>local_addr = l, remote_addr = r\<rparr> \<in> asked (options_of t) ps \<and> length d \<le> opt_udp_mtu (options_of t)"
    and "length (device_write_buf t) = device_mtu (options_of t)" and "has_udpgw (options_of t)"
  shows "\<exists>buf outs. deliver os t = Inr (t\<lparr>device_write_buf := buf\<rparr>, outs) \<and> length buf = device_mtu (options_of t)
    \<and> (\<forall>p. DeviceSend p \<in> set outs \<longrightarrow> reply_packet (options_of t) (asked (options_of t) ps) p)"
  using assms
proof (induction os t rule: deliver.induct)
  case (1 t)
  then show ?case by (auto intro: exI[of _ "device_write_buf t"])
next
  case (2 l r d os t)
  have "\<lparr>local_addr = l, remote_addr = r\<rparr> \<in> asked (options_of t) ps \<and> length d \<le> opt_udp_mtu (options_of t)"
    using 2(2)[of l r d] by simp
  from handler_received_ok[OF conjunct1[OF this] conjunct2[OF this] 2(3,4)] obtain buf q where
    h: "udpgw_client_handler_received (options_of t) l r d (device_write_buf t) = Inr (buf, q)"
    "length buf = length (device_write_buf t)" "case q of None \<Rightarrow> True | Some p \<Rightarrow> reply_packet (options_of t) (asked (options_of t) ps) p"
    by blast
  have os: "\<lparr>local_addr = l', remote_addr = r'\<rparr> \<in> asked (options_of t) ps \<and> length d' \<le> opt_udp_mtu (options_of t)"
    if "Inl (ug_call.Received l' r' d') \<in> set os" for l' r' d' using 2(2)[of l' r' d'] that by simp
  have "\<exists>buf' outs. deliver os (t\<lparr>device_write_buf := buf\<rparr>) = Inr (t\<lparr>device_write_buf := buf'\<rparr>, outs)
      \<and> length buf' = device_mtu (options_of t)
      \<and> (\<forall>p. DeviceSend p \<in> set outs \<longrightarrow> reply_packet (options_of t) (asked (options_of t) ps) p)"
    using 2(1)[of "(buf, q)" buf q] os 2(3,4) h(1,2) by simp
  with h show ?case by (auto split: option.splits)
qed auto

section \<open>The steps keep the invariant\<close>

definition tun_good :: "memory \<Rightarrow> tun_event \<Rightarrow> tun2socks \<Rightarrow> byte list list \<Rightarrow> bool" where
  "tun_good al e t ps \<longleftrightarrow> (\<exists>t' os. tun_step al e t = Some (Inr (t', os)) \<and> options_of t' = options_of t
     \<and> read_inv t' (ps @ (case e of TunRead d \<Rightarrow> [d] | _ \<Rightarrow> [])) \<and> client_inv t' (ps @ (case e of TunRead d \<Rightarrow> [d] | _ \<Rightarrow> []))
     \<and> (\<forall>p. DeviceSend p \<in> set os \<longrightarrow> reply_packet (options_of t) (asked (options_of t) ps) p))"

lemma asked_mono: "asked opt ps \<subseteq> asked opt (ps @ qs)"
  by (simp add: asked_def) blast

lemma read_good:
  assumes "read_inv t ps" and "client_inv t ps"
  shows "tun_legal (TunRead d) t \<Longrightarrow> tun_good al (TunRead d) t ps" and "tun_legal TunReadDone t \<Longrightarrow> tun_good al TunReadDone t ps"
proof -
  assume "tun_legal (TunRead d) t"
  with assms asked_mono[of "options_of t" ps "[d]"] show "tun_good al (TunRead d) t ps"
    by (auto simp: tun_good_def read_inv_def client_inv_def ppi_inv_def input_handler_done_def PacketPassInterface_Sender_Send_def)
next
  assume "tun_legal TunReadDone t"
  with assms show "tun_good al TunReadDone t ps"
    by (auto simp: tun_good_def read_inv_def client_inv_def ppi_inv_def PacketPassInterface_job_done_def output_handler_done_def
        receiver_recv_def)
qed

lemma read_job_good:
  assumes r: "read_inv t ps" and c: "client_inv t ps" and legal: "tun_legal (TunReadJob malloc flow_ok room pbuf_ok) t"
  shows "tun_good al (TunReadJob malloc flow_ok room pbuf_ok) t ps"
proof -
  let ?i = "device_read_interface t" and ?opt = "options_of t" and ?e = "TunReadJob malloc flow_ok room pbuf_ok"
  define d where "d = job_operation_data ?i"
  define i where "i = ?i\<lparr>job_operation := False, job_requestcancel := False, job_done := True, packet_pass_interface.state := PPI_STATE_DONE_PENDING\<rparr>"
  have p: "packet_pass_interface.state ?i = PPI_STATE_OPERATION_PENDING" "d \<in> set ps" using r legal by (auto simp: read_inv_def ppi_inv_def d_def)
  obtain res where res: "process_device_udp_packet ?opt d = Inr res" "case res of None \<Rightarrow> True | Some (l, r, dns, d) \<Rightarrow>
      BAddr.wf_addr l \<and> BAddr.wf_addr r \<and> length d \<le> opt_udp_mtu ?opt"
    using device_udp_input[of ?opt d] by (auto split: option.splits)
  let ?t = "t\<lparr>device_read_interface := i\<rparr>"
  have ri: "read_inv ?t ps" using r p by (auto simp: read_inv_def i_def ppi_inv_def)
  have call: "tun_step al ?e t = (case res of
        Some (l, r, dns, d) \<Rightarrow> bindO (SocksUdpGwClient_SubmitPacket l r dns d malloc flow_ok room (udpgw t)) (\<lambda>(c, os).
            Some (Inr (?t\<lparr>udpgw := c\<rparr>, map Gateway os)))
      | None \<Rightarrow> if length d > 65535 then Some (Inr (?t, [])) else if \<not> pbuf_ok then Some (Inr (?t, []))
          else Some (Inr (?t, [NetifInput d])))"
    using p(1) res(1) by (simp add: PacketPassInterface_job_operation_def PacketPassInterface_Done_def device_read_handler_send_def
        Let_def d_def[symmetric] i_def cong: option.case_cong)
  show ?thesis
  proof (cases res)
    case None
    with call ri c show ?thesis by (auto simp: tun_good_def client_inv_def)
  next
    case (Some q)
    then obtain l r' dns d' where q: "res = Some (l, r', dns, d')" by (cases q) auto
    let ?g = "GwSubmit l r' dns d' malloc flow_ok room"
    have "su_legal (SuGw ?g) (udpgw t)" using res(2) q c legal by (auto simp: client_inv_def split: option.splits)
    with su_gw_good[of "udpgw t" ?g al] c obtain c' os s where
      s: "su_gw_step ?g (udpgw t) = Some (Inr (c', os))" "su_inv c'" "gw_effect ?g (su_gw (udpgw t)) s os"
      "udp_mtu (sys_g (su_gw c')) = udp_mtu (sys_g s)" "table_pairs (su_gw c') = table_pairs s"
      by (auto simp: su_good_def client_inv_def)
    have "\<lparr>local_addr = l, remote_addr = r'\<rparr> \<in> asked ?opt ps" using p(2) res(1) q by (auto simp: asked_def)
    with s c have "client_inv (?t\<lparr>udpgw := c'\<rparr>) ps" by (auto simp: client_inv_def gw_effect_def)
    moreover have "read_inv (?t\<lparr>udpgw := c'\<rparr>) ps" using ri by (simp add: read_inv_def)
    ultimately show ?thesis using call q s(1) by (auto simp: tun_good_def SocksUdpGwClient_SubmitPacket_def)
  qed
qed

lemma tun_client_good:
  assumes al: "mem_ok al" and r: "read_inv t ps" and c: "client_inv t ps" and legal: "tun_legal (TunClient e) t"
  shows "tun_good al (TunClient e) t ps"
proof -
  let ?opt = "options_of t"
  from su_legal_good[OF al _ , of "udpgw t" e] c legal obtain c' os s where
    s: "su_step al e (udpgw t) = Some (Inr (c', os))" "su_inv c'"
    "case e of SuGw x \<Rightarrow> gw_effect x (su_gw (udpgw t)) s os | _ \<Rightarrow> s = su_gw (udpgw t) \<and> os = []"
    "udp_mtu (sys_g (su_gw c')) = udp_mtu (sys_g s)" "table_pairs (su_gw c') = table_pairs s"
    by (auto simp: su_good_def client_inv_def)
  have e: "udp_mtu (sys_g s) = udp_mtu (sys_g (su_gw (udpgw t)))" "table_pairs s \<subseteq> table_pairs (su_gw (udpgw t))"
    "\<And>l r d. Inl (ug_call.Received l r d) \<in> set os \<Longrightarrow> \<lparr>local_addr = l, remote_addr = r\<rparr> \<in> table_pairs (su_gw (udpgw t))
       \<and> length d \<le> udp_mtu (sys_g (su_gw (udpgw t)))"
  proof -
    have "submitted_pair x = {}" if "e = SuGw x" for x using legal that by (cases x) auto
    then show "udp_mtu (sys_g s) = udp_mtu (sys_g (su_gw (udpgw t)))" "table_pairs s \<subseteq> table_pairs (su_gw (udpgw t))"
      "\<And>l r d. Inl (ug_call.Received l r d) \<in> set os \<Longrightarrow> \<lparr>local_addr = l, remote_addr = r\<rparr> \<in> table_pairs (su_gw (udpgw t))
         \<and> length d \<le> udp_mtu (sys_g (su_gw (udpgw t)))"
      using s(3) by (cases e; auto simp: gw_effect_def)+
  qed
  let ?t = "t\<lparr>udpgw := c'\<rparr>"
  have rec: "\<lparr>local_addr = l, remote_addr = r\<rparr> \<in> asked ?opt ps \<and> length d \<le> opt_udp_mtu ?opt"
    if "Inl (ug_call.Received l r d) \<in> set os" for l r d using e(3)[OF that] c by (auto simp: client_inv_def)
  obtain buf outs where d: "deliver os ?t = Inr (?t\<lparr>device_write_buf := buf\<rparr>, outs)" "length buf = device_mtu ?opt"
    "\<forall>p. DeviceSend p \<in> set outs \<longrightarrow> reply_packet ?opt (asked ?opt ps) p"
    using deliver_ok[of os ?t ps] rec c by (auto simp: client_inv_def)
  have "client_inv (?t\<lparr>device_write_buf := buf\<rparr>) ps" using c s(2,4,5) e(1,2) d(2) by (auto simp: client_inv_def)
  moreover have "read_inv (?t\<lparr>device_write_buf := buf\<rparr>) ps" using r by (simp add: read_inv_def)
  ultimately show ?thesis using s(1) d(1,3) by (auto simp: tun_good_def)
qed

lemma tun_legal_good:
  "mem_ok al \<Longrightarrow> read_inv t ps \<Longrightarrow> client_inv t ps \<Longrightarrow> tun_legal e t \<Longrightarrow> tun_good al e t ps"
  by (cases e) (simp_all only: read_good read_job_good tun_client_good)

lemma udp_setup_inv:
  assumes s: "udp_setup mem mtu ip6 balloc_ok fmem ka sbs auth remote connector_ok (Some buf) = Inr (Some t)"
    and "BSocksClient.wf_addr remote" and "length buf = mtu"
  shows "read_inv t []" and "client_inv t []"
proof -
  let ?mtu = "compute_udp_mtu mtu ip6"
  obtain t0 c where t0: "SinglePacketBuffer_Init balloc_ok mtu
      (mem\<lparr>device_read_interface := PacketPassInterface_Init (device_read_interface mem) mtu\<rparr>) = Inr (Some t0)"
    and c: "SocksUdpGwClient_Init (udpgw t0) fmem ka ?mtu DEFAULT_UDPGW_MAX_CONNECTIONS sbs auth remote connector_ok = Inr (Some c)"
    and t: "t = t0\<lparr>udpgw := c, device_write_buf := buf,
      options_of := \<lparr>has_udpgw = True, has_ip6 = ip6, device_mtu = mtu, opt_udp_mtu = ?mtu\<rparr>\<rparr>"
    using s by (auto simp: udp_setup_def Let_def bindE_Inr_iff split: option.splits if_splits)
  show "read_inv t []"
    using t0 by (auto simp: t read_inv_def ppi_inv_def SinglePacketBuffer_Init_def PacketPassInterface_Init_def PacketPassInterface_GetMTU_def
        PacketPassInterface_Sender_Init_def receiver_recv_def bindE_Inr_iff split: if_splits)
  show "client_inv t []" using su_init_inv[OF c assms(2)] assms(3) by (simp add: t client_inv_def)
qed

lemma tun_reachable_inv: "tun_reachable al t ps \<Longrightarrow> mem_ok al \<Longrightarrow> read_inv t ps \<and> client_inv t ps"
proof (induction rule: tun_reachable.induct)
  case (start mem mtu ip6 balloc_ok fmem ka sbs auth remote connector_ok buf t)
  then show ?case using udp_setup_inv[OF start(1-3)] by simp
next
  case (step t ps e t' os)
  then show ?case using tun_legal_good[of al t ps e] by (auto simp: tun_good_def)
qed

text \<open>A program for concrete histories: an MTU of 38 bytes, without IPv6.\<close>

definition tun_start :: tun2socks where
  "tun_start = \<lparr>udpgw = su_start 10 256,
     options_of = \<lparr>has_udpgw = True, has_ip6 = False, device_mtu = 38, opt_udp_mtu = 10\<rparr>,
     device_read_interface = (sys_ka (gw_start 10 1))\<lparr>ppi_mtu := 38\<rparr>, buffer_receiving = True, device_write_buf = replicate 38 0\<rparr>"

lemma tun_start_setup:
  "udp_setup (tun_start\<lparr>udpgw := su_mem, buffer_receiving := True\<rparr>) 38 False True (fq_flow (send_queue gw_mem)) 0 100 demo_auth
     (IPv4 [1, 2, 3, 4] [0, 80]) True (Some (replicate 38 0)) = Inr (Some tun_start)"
proof -
  have "udpgw_compute_mtu 10 = 31" "compute_udp_mtu 38 False = 10" by (simp_all add: udpgw_compute_mtu_def compute_udp_mtu_def Let_def)
  moreover obtain g where g: "UdpGwClient_Init gw_mem (fq_flow (send_queue gw_mem)) 0 10 1 100 = Inr (Some g)"
    using UdpGwClient_Init_ok[of 10 1 100 gw_mem "fq_flow (send_queue gw_mem)" 0] by (auto simp: udpgw_compute_mtu_def Let_def)
  ultimately show ?thesis using su_start_init[of 10 256]
    by (simp add: udp_setup_def Let_def tun_start_def DEFAULT_UDPGW_MAX_CONNECTIONS_def SinglePacketBuffer_Init_def
        PacketPassInterface_Init_def PacketPassInterface_GetMTU_def PacketPassInterface_Sender_Init_def receiver_recv_def gw_start_def)
qed

lemma tun_start_reachable: "tun_reachable al tun_start []"
  by (rule tun_reachable.start[OF tun_start_setup demo_facts(2)]) simp

lemma socks_run_evs: "socks_run al xs s = Some s' \<Longrightarrow> \<exists>es. evs s' = evs s @ es"
proof (induction xs arbitrary: s)
  case (Cons x xs)
  then obtain s1 where s1: "respond al x s = Inr s1" "socks_run al xs s1 = Some s'" by (auto split: if_splits sum.splits)
  from Cons.IH[OF s1(2)] respond_events[OF s1(1)] show ?case by auto
qed simp

text \<open>A handshake of the SOCKS client in which nothing has been reported yet, as steps of the program.\<close>

lemma handshake_reachable:
  assumes "socks_run al xs s = Some s'" and "tun_reachable al t ps" and "have_socks (udpgw t)" and "su_socks (udpgw t) = s"
    and "evs s' = evs s"
  shows "tun_reachable al (t\<lparr>udpgw := (udpgw t)\<lparr>su_socks := s'\<rparr>\<rparr>) ps"
  using assms
proof (induction xs arbitrary: s t)
  case (Cons x xs)
  then obtain s1 where s1: "enabled x s" "respond al x s = Inr s1" "socks_run al xs s1 = Some s'"
    by (auto split: if_splits sum.splits)
  obtain es where "evs s' = evs s1 @ es" using socks_run_evs[OF s1(3)] by blast
  with respond_events[OF s1(2)] Cons.prems(5) have e: "evs s1 = evs s" by auto
  let ?t = "t\<lparr>udpgw := (udpgw t)\<lparr>su_socks := s1\<rparr>\<rparr>"
  have "tun_step al (TunClient (SuSocks x True)) t = Some (Inr (?t, []))"
    using s1(2) e Cons.prems(4) by (simp add: su_socks_step_def)
  from tun_reachable.step[OF Cons.prems(2) _ this] s1(1) Cons.prems(3,4) have "tun_reachable al ?t ps" by simp
  from Cons.IH[OF s1(3) this] Cons.prems(3,5) e show ?case by simp
next
  case Nil
  then have e: "s' = su_socks (udpgw t)" by simp
  show ?case unfolding e using Nil(2) by simp
qed

lemma demo_last:
  "case socks_run demo_mem (butlast demo_inputs) (socks_start demo_client) of None \<Rightarrow> False
   | Some s \<Rightarrow> evs s = [] \<and> enabled (last demo_inputs) s
       \<and> (case respond demo_mem (last demo_inputs) s of Inl _ \<Rightarrow> False | Inr s' \<Rightarrow> evs s' = [EVENT_UP])"
  by code_simp

lemma handshake_up:
  assumes "tun_reachable demo_mem t ps" and "have_socks (udpgw t)" and "\<not> socks_up (udpgw t)" and "su_socks (udpgw t) = socks_start demo_client"
    and "\<not> have_server (sys_g (su_gw (udpgw t)))"
  obtains s where "tun_reachable demo_mem (t\<lparr>udpgw := (udpgw t)\<lparr>su_socks := s, socks_up := True,
    su_gw := (su_gw (udpgw t))\<lparr>sys_g := (sys_g (su_gw (udpgw t)))\<lparr>have_server := True\<rparr>\<rparr>\<rparr>\<rparr>) ps"
proof -
  obtain s9 s where s: "socks_run demo_mem (butlast demo_inputs) (socks_start demo_client) = Some s9" "evs s9 = []"
    "enabled (last demo_inputs) s9" "respond demo_mem (last demo_inputs) s9 = Inr s" "evs s = [EVENT_UP]"
    using demo_last by (auto split: option.splits sum.splits)
  let ?t = "t\<lparr>udpgw := (udpgw t)\<lparr>su_socks := s9\<rparr>\<rparr>"
  have r: "tun_reachable demo_mem ?t ps"
    by (rule handshake_reachable[OF s(1) assms(1,2,4)]) (simp add: s(2) socks_start_def)
  have "tun_step demo_mem (TunClient (SuSocks (last demo_inputs) True)) ?t = Some (Inr (t\<lparr>udpgw := (udpgw t)\<lparr>su_socks := s, socks_up := True,
      su_gw := (su_gw (udpgw t))\<lparr>sys_g := (sys_g (su_gw (udpgw t)))\<lparr>have_server := True\<rparr>\<rparr>\<rparr>\<rparr>, []))"
    using s assms(2,3,5) by (simp add: su_socks_step_def socks_client_handler_def UdpGwClient_ConnectServer_def)
  from tun_reachable.step[OF r _ this] s(3) assms(2) that show thesis by simp
qed

text \<open>A program that has read one datagram, and whose connection to the gateway is up.\<close>

lemma demo_packet:
  obtains p where "length p \<le> 38"
    "process_device_udp_packet (options_of tun_start) p = Inr (Some (BAddrIPv4 1 2, BAddrIPv4 3 4, False, [5]))"
  using reply_fits[of "BAddrIPv4 3 4" "BAddrIPv4 1 2" "options_of tun_start" "[5]" "replicate 38 0"]
  by (auto simp: BAddr.wf_addr_def tun_start_def)

lemma tun_one_connection:
  obtains t p where "tun_reachable demo_mem t [p]" "options_of t = options_of tun_start" "have_server (sys_g (su_gw (udpgw t)))"
    "ll_rep (connections_list (sys_g (su_gw (udpgw t)))) [8]"
    "conaddr_of (sys_g (su_gw (udpgw t))) 8 = \<lparr>local_addr = BAddrIPv4 1 2, remote_addr = BAddrIPv4 3 4\<rparr>"
proof -
  obtain p where p: "length p \<le> 38"
    "process_device_udp_packet (options_of tun_start) p = Inr (Some (BAddrIPv4 1 2, BAddrIPv4 3 4, False, [5]))" by (rule demo_packet)
  let ?i = "device_read_interface tun_start" and ?s = "gw_start 10 256" and ?e = "TunReadJob (Some 8) True True True"
  let ?a = "\<lparr>local_addr = BAddrIPv4 1 2, remote_addr = BAddrIPv4 3 4\<rparr>"
  let ?t1 = "tun_start\<lparr>buffer_receiving := False, device_read_interface := ?i\<lparr>job_operation_data := p, job_operation := True,
      packet_pass_interface.state := PPI_STATE_OPERATION_PENDING, cancel_requested := False\<rparr>\<rparr>"
  have i: "packet_pass_interface.state ?i = PPI_STATE_NONE" "ppi_mtu ?i = 38" "handler_done ?i" "buffer_receiving tun_start"
    "device_mtu (options_of tun_start) = 38"
    using tun_reachable_inv[OF tun_start_reachable demo_facts(1)] by (auto simp: read_inv_def ppi_inv_def tun_start_def)
  have step1: "tun_step demo_mem (TunRead p) tun_start = Some (Inr (?t1, []))"
    using i p(1) by (simp add: input_handler_done_def PacketPassInterface_Sender_Send_def)
  have r1: "tun_reachable demo_mem ?t1 [p]" using tun_reachable.step[OF tun_start_reachable _ step1] i p(1) by simp
  have inv: "gw_inv ?s []" and legal: "gw_legal (GwSubmit (BAddrIPv4 1 2) (BAddrIPv4 3 4) False [5] (Some 8) True True) ?s"
    by (rule gw_start_simps) (simp_all add: gw_start_simps BAddr.wf_addr_def)
  have wf: "wf_conaddr ?a" by (simp add: wf_conaddr_def BAddr.wf_addr_def)
  have none: "find_connection_by_conaddr ?a (sys_g ?s) = Some (Inr None)"
    by (rule find_conaddr[OF _ wf, of "sys_g ?s" "[]"]) (use inv in \<open>auto simp: gw_inv_def\<close>)
  obtain g' where g': "UdpGwClient_SubmitPacket (BAddrIPv4 1 2) (BAddrIPv4 3 4) False [5] (Some 8) True True (sys_g ?s) = Some (Inr (g', []))"
    "table_inv g' [8]" "ug_frame (sys_g ?s) g'" "conaddr_of g' 8 = ?a"
    by (rule new_connection_step[OF inv legal none]) (simp_all add: gw_start_simps)
  let ?i2 = "?i\<lparr>job_operation_data := p, cancel_requested := False, job_operation := False, job_requestcancel := False, job_done := True,
      packet_pass_interface.state := PPI_STATE_DONE_PENDING\<rparr>"
  let ?t2 = "tun_start\<lparr>buffer_receiving := False, device_read_interface := ?i2,
      udpgw := (udpgw tun_start)\<lparr>su_gw := ?s\<lparr>sys_g := g'\<rparr>\<rparr>\<rparr>"
  have gw: "su_gw (udpgw tun_start) = ?s" "have_socks (udpgw tun_start)" "\<not> socks_up (udpgw tun_start)"
    "su_socks (udpgw tun_start) = socks_start demo_client" by (simp_all add: tun_start_def su_start_def)
  have step2: "tun_step demo_mem ?e ?t1 = Some (Inr (?t2, []))"
    using p(2) g'(1) gw(1) by (simp add: PacketPassInterface_job_operation_def PacketPassInterface_Done_def device_read_handler_send_def
        SocksUdpGwClient_SubmitPacket_def su_gw_step_def client_result_def Let_def)
  have "tun_legal ?e ?t1" by (simp add: gw gw_start_simps)
  from tun_reachable.step[OF r1 this step2] have r2: "tun_reachable demo_mem ?t2 [p]" by simp
  have "\<not> have_server g'" using g'(3) by (simp add: ug_frame_def gw_start_simps)
  with handshake_up[OF r2] gw obtain s where "tun_reachable demo_mem (?t2\<lparr>udpgw := (udpgw ?t2)\<lparr>su_socks := s, socks_up := True,
      su_gw := (su_gw (udpgw ?t2))\<lparr>sys_g := (sys_g (su_gw (udpgw ?t2)))\<lparr>have_server := True\<rparr>\<rparr>\<rparr>\<rparr>) [p]" by auto
  from that[OF this] g'(2,4) show thesis by (simp add: table_inv_def)
qed

lemma echo_step:
  assumes "mem_ok al" and "tun_reachable al t ps" and hs: "have_server (sys_g (su_gw (udpgw t)))"
    and xs: "ll_rep (connections_list (sys_g (su_gw (udpgw t)))) xs" "c \<in> set xs"
    and d: "length d \<le> opt_udp_mtu (options_of t)" "flags AND UDPGW_CLIENT_FLAG_IPV6 = 0"
    and a: "conaddr_of (sys_g (su_gw (udpgw t))) c = \<lparr>local_addr = l, remote_addr = r\<rparr>"
    and fits: "length d + (if BAddr_type l = 1 then 28 else 48) \<le> min (device_mtu (options_of t)) (if BAddr_type l = 1 then 65535 else 65575)"
  defines "e \<equiv> TunClient (SuGw (GwRecv (gw_packet flags (conid_of (sys_g (su_gw (udpgw t))) c) r d)))"
  shows "tun_legal e t" and "\<exists>t' p. tun_step al e t = Some (Inr (t', [DeviceSend p]))
    \<and> process_device_udp_packet (options_of t) p = Inr (Some (r, l, False, d))"
proof -
  let ?g = "sys_g (su_gw (udpgw t))"
  have c: "client_inv t ps" using tun_reachable_inv[OF assms(2,1)] by simp
  then obtain ys where t: "table_inv ?g ys" by (auto simp: client_inv_def su_inv_def gw_inv_def)
  then have "ys = xs" using ll_rep_fun[OF xs(1), of ys] by (simp add: table_inv_def)
  then have t: "table_inv ?g xs" using t by simp
  have "length d \<le> udp_mtu ?g" using d(1) c by (simp add: client_inv_def)
  note r = recv_echo[OF t hs xs(2) this d(2), unfolded a]
  show "tun_legal e t" using r(1) hs by (simp add: e_def)
  have "\<lparr>local_addr = l, remote_addr = r\<rparr> \<in> table_pairs (su_gw (udpgw t))"
    using table_pairs_list[OF xs(1)] xs(2) a by force
  then have "\<lparr>local_addr = l, remote_addr = r\<rparr> \<in> asked (options_of t) ps" using c by (auto simp: client_inv_def)
  note w = asked_pair[OF this]
  have gw: "has_udpgw (options_of t)" "length (device_write_buf t) = device_mtu (options_of t)" using c by (simp_all add: client_inv_def)
  obtain buf p where p: "udpgw_client_handler_received (options_of t) l r d (device_write_buf t) = Inr (buf, Some p)"
    "process_device_udp_packet (options_of t) p = Inr (Some (r, l, False, d))"
    using reply_fits[OF w(1-3) gw(1) _ fits gw(2) d(1)] w(4) by auto
  with r(2) show "\<exists>t' p. tun_step al e t = Some (Inr (t', [DeviceSend p]))
    \<and> process_device_udp_packet (options_of t) p = Inr (Some (r, l, False, d))"
    by (simp add: e_def su_gw_step_def client_result_def Let_def)
qed

section \<open>Properties\<close>



text \<open>
  C3. No unsolicited datagrams: every packet written to the device is a datagram that answers one the
  device has sent before: its source is the destination of that datagram and its destination the source. Whatever the gateway
  sends, nothing reaches the device from an address, or for an address or port, that it has not used itself.
\<close>

theorem udp_path_solicited:
  assumes "mem_ok al" and "tun_reachable al t ps" and "tun_legal e t" and "tun_step al e t = Some (Inr (t', os))"
    and "DeviceSend p \<in> set os"
  shows "\<exists>q l r dns d d'. q \<in> set ps \<and> process_device_udp_packet (options_of t) q = Inr (Some (l, r, dns, d))
    \<and> process_device_udp_packet (options_of t) p = Inr (Some (r, l, False, d'))"
proof -
  have "reply_packet (options_of t) (asked (options_of t) ps) p"
    using tun_legal_good[OF assms(1) _ _ assms(3)] tun_reachable_inv[OF assms(2,1)] assms(4,5) unfolding tun_good_def by auto
  then obtain l r d' where "\<lparr>local_addr = l, remote_addr = r\<rparr> \<in> asked (options_of t) ps"
    "process_device_udp_packet (options_of t) p = Inr (Some (r, l, False, d'))" by (auto simp: reply_packet_def)
  then show ?thesis unfolding asked_def by blast
qed

text \<open>
  C15. Echo: while the connection to the gateway is up, a reply of the gateway with the identifier and the remote address of
  an entry of the table, encoded as the client encodes its own packets, comes out as one packet to the device, from the remote
  to the local address of that entry and with the data of the reply, if it fits the MTU.
\<close>

theorem udp_path_echo:
  assumes "mem_ok al" and "tun_reachable al t ps" and "have_server (sys_g (su_gw (udpgw t)))"
    and "ll_rep (connections_list (sys_g (su_gw (udpgw t)))) xs" and "c \<in> set xs"
    and "length d \<le> opt_udp_mtu (options_of t)" and "flags AND UDPGW_CLIENT_FLAG_IPV6 = 0"
    and "conaddr_of (sys_g (su_gw (udpgw t))) c = \<lparr>local_addr = l, remote_addr = r\<rparr>"
    and "length d + (if BAddr_type l = 1 then 28 else 48) \<le> min (device_mtu (options_of t)) (if BAddr_type l = 1 then 65535 else 65575)"
  shows "\<exists>t' p. tun_step al (TunClient (SuGw (GwRecv (gw_packet flags (conid_of (sys_g (su_gw (udpgw t))) c) r d)))) t
      = Some (Inr (t', [DeviceSend p]))
    \<and> process_device_udp_packet (options_of t) p = Inr (Some (r, l, False, d))"
  using assms by (rule echo_step(2))

theorem udp_path_echo_witness:
  "\<exists>t q i t' p. tun_reachable demo_mem t [q]
    \<and> tun_step demo_mem (TunClient (SuGw (GwRecv (gw_packet 0 i (BAddrIPv4 3 4) [6, 7])))) t = Some (Inr (t', [DeviceSend p]))
    \<and> process_device_udp_packet (options_of tun_start) p = Inr (Some (BAddrIPv4 3 4, BAddrIPv4 1 2, False, [6, 7]))"
proof -
  obtain t q where t: "tun_reachable demo_mem t [q]" "options_of t = options_of tun_start" "have_server (sys_g (su_gw (udpgw t)))"
    "ll_rep (connections_list (sys_g (su_gw (udpgw t)))) [8]"
    "conaddr_of (sys_g (su_gw (udpgw t))) 8 = \<lparr>local_addr = BAddrIPv4 1 2, remote_addr = BAddrIPv4 3 4\<rparr>"
    by (rule tun_one_connection)
  have "\<exists>t' p. tun_step demo_mem (TunClient (SuGw (GwRecv (gw_packet 0 (conid_of (sys_g (su_gw (udpgw t))) 8) (BAddrIPv4 3 4) [6, 7])))) t
      = Some (Inr (t', [DeviceSend p])) \<and> process_device_udp_packet (options_of t) p = Inr (Some (BAddrIPv4 3 4, BAddrIPv4 1 2, False, [6, 7]))"
    by (rule udp_path_echo[OF demo_facts(1) t(1,3,4) _ _ _ t(5)]) (simp_all add: t(2) tun_start_def)
  with t(1,2) show ?thesis by auto
qed

theorem udp_path_solicited_witness:
  "\<exists>t q t' p e l r dns d d'. tun_reachable demo_mem t [q] \<and> tun_step demo_mem e t = Some (Inr (t', [DeviceSend p]))
    \<and> process_device_udp_packet (options_of t) q = Inr (Some (l, r, dns, d))
    \<and> process_device_udp_packet (options_of t) p = Inr (Some (r, l, False, d'))"
proof -
  obtain t q where t: "tun_reachable demo_mem t [q]" "options_of t = options_of tun_start" "have_server (sys_g (su_gw (udpgw t)))"
    "ll_rep (connections_list (sys_g (su_gw (udpgw t)))) [8]"
    "conaddr_of (sys_g (su_gw (udpgw t))) 8 = \<lparr>local_addr = BAddrIPv4 1 2, remote_addr = BAddrIPv4 3 4\<rparr>"
    by (rule tun_one_connection)
  let ?e = "TunClient (SuGw (GwRecv (gw_packet 0 (conid_of (sys_g (su_gw (udpgw t))) 8) (BAddrIPv4 3 4) [6, 7])))"
  have d: "8 \<in> set [8 :: nat]" "length [6, 7 :: byte] \<le> opt_udp_mtu (options_of t)" "0 AND UDPGW_CLIENT_FLAG_IPV6 = 0"
    "length [6, 7 :: byte] + (if BAddr_type (BAddrIPv4 1 2) = 1 then 28 else 48)
       \<le> min (device_mtu (options_of t)) (if BAddr_type (BAddrIPv4 1 2) = 1 then 65535 else 65575)"
    by (simp_all add: t(2) tun_start_def)
  have legal: "tun_legal ?e t" by (rule echo_step(1)[OF demo_facts(1) t(1,3,4) d(1-3) t(5) d(4)])
  obtain t' p where s: "tun_step demo_mem ?e t = Some (Inr (t', [DeviceSend p]))"
    using echo_step(2)[OF demo_facts(1) t(1,3,4) d(1-3) t(5) d(4)] by blast
  obtain l r dns d d' where "process_device_udp_packet (options_of t) q = Inr (Some (l, r, dns, d))"
    "process_device_udp_packet (options_of t) p = Inr (Some (r, l, False, d'))"
    using udp_path_solicited[OF demo_facts(1) t(1) legal s, of p] by auto
  with t(1) s show ?thesis by blast
qed

end
