(* ===== verification/TcpClient.thy ===== *)
theory TcpClient
  imports SocksUser LinkedList1
begin

text \<open>
  The TCP connections of \<^verbatim>\<open>tun2socks/tun2socks.c\<close>: each has a connection to the client, a protocol control
  block of lwip, and one to the SOCKS server, and data is copied both ways through two buffers.

  \<^item> \<open>allocated\<close> says whether the struct has been freed; using it then, or the block of lwip after it has been closed,
    is the fault \<open>OutOfBounds\<close>.
  \<^item> \<open>err_func\<close>, \<open>recv_func\<close> and \<open>sent_func\<close> say which callbacks of the block are set. \<open>send_op\<close> is the length of the data that is
    being sent from the start of the buffer to the SOCKS server, \<open>recv_op\<close> whether data is being received from it.
  \<^item> lwip is a parameter: \<open>tcp_sndbuf\<close> and \<open>tcp_write\<close> depend on how much has been written in the same call. Whether \<open>tcp_close\<close> succeeds or the block is
    aborted makes no difference for the client.
  \<^item> \<open>SYNC_COMMIT\<close> runs pending jobs; these are steps of their own. What the code does after it is to see whether the client has been
    closed, for the value it returns to lwip.
  \<^item> \<open>log_info\<close> says whether messages of level \<open>BLOG_INFO\<close> are written; only then does \<open>client_log\<close> read the struct. The other messages
    are written by code that has used the struct just before.
\<close>

definition TCP_MSS :: nat where "TCP_MSS = 2048"
definition TCP_WND :: nat where "TCP_WND = 2 * TCP_MSS"
definition CLIENT_SOCKS_RECV_BUF_SIZE :: nat where "CLIENT_SOCKS_RECV_BUF_SIZE = 2048"

datatype err = ERR_OK | ERR_MEM | ERR_ABRT | ERR_OTHER

record lwip =
  tcp_sndbuf :: "nat \<Rightarrow> nat"
  tcp_write :: "nat \<Rightarrow> err"
  tcp_output :: err

record tcp_client =
  allocated :: bool
  pcb_valid :: bool
  err_func :: bool
  recv_func :: bool
  sent_func :: bool
  client_closed :: bool
  buf :: "byte list"
  buf_used :: nat
  socks_client :: socks_sys
  socks_up :: bool
  socks_closed :: bool
  send_op :: "nat option"
  recv_op :: bool
  socks_recv_buf :: "byte list"
  socks_recv_buf_used :: int
  socks_recv_buf_sent :: int
  socks_recv_waiting :: bool
  socks_recv_tcp_pending :: int

record tcp_sys =
  clients :: "nat \<Rightarrow> tcp_client"
  tcp_clients :: llist
  num_clients :: nat
  log_info :: bool

definition deref :: "nat \<Rightarrow> tcp_sys \<Rightarrow> tcp_client run" where
  "deref c g = bindE (guardE (allocated (clients g c)) OutOfBounds) (\<lambda>_. Inr (clients g c))"

definition store :: "nat \<Rightarrow> tcp_client \<Rightarrow> tcp_sys \<Rightarrow> tcp_sys" where
  "store c x g = g\<lparr>clients := (clients g)(c := x)\<rparr>"

definition client_log :: "nat \<Rightarrow> tcp_sys \<Rightarrow> unit run" where
  "client_log c g = (if log_info g then bindE (deref c g) (\<lambda>_. Inr ()) else Inr ())"

section \<open>Closing\<close>

definition client_dealloc :: "nat \<Rightarrow> tcp_sys \<Rightarrow> tcp_sys run" where
  "client_dealloc c g =
     bindE (deref c g) (\<lambda>x.
     bindE (guardE (client_closed x \<and> socks_closed x \<and> num_clients g > 0) AssertFailed) (\<lambda>_.
       Inr (store c (x\<lparr>allocated := False\<rparr>) (g\<lparr>num_clients := num_clients g - 1, tcp_clients := LinkedList1_Remove c (tcp_clients g)\<rparr>))))"

text \<open>Removing the callbacks and closing or aborting the block.\<close>

definition drop_pcb :: "tcp_client \<Rightarrow> tcp_client" where
  "drop_pcb x = x\<lparr>err_func := False, recv_func := False, sent_func := False, pcb_valid := False\<rparr>"

definition open_ends :: "nat \<Rightarrow> tcp_sys \<Rightarrow> nat" where
  "open_ends c g = 2 * ((if client_closed (clients g c) then 0 else 1) + (if socks_closed (clients g c) then 0 else 1))"

function client_handle_freed_client :: "nat \<Rightarrow> tcp_sys \<Rightarrow> tcp_sys run"
  and client_free_client :: "nat \<Rightarrow> tcp_sys \<Rightarrow> tcp_sys run"
  and client_free_socks :: "nat \<Rightarrow> tcp_sys \<Rightarrow> tcp_sys run"
  where
  "client_handle_freed_client c g =
     (if \<not> allocated (clients g c) then Inl OutOfBounds
      else if client_closed (clients g c) then Inl AssertFailed
      else
        let x = (clients g c)\<lparr>client_closed := True\<rparr>
        in if buf_used x > 0 \<and> \<not> socks_closed x then Inr (store c x g)
           else if \<not> socks_closed x then client_free_socks c (store c x g)
           else client_dealloc c (store c x g))"
| "client_free_client c g =
     (if \<not> allocated (clients g c) then Inl OutOfBounds
      else if client_closed (clients g c) then Inl AssertFailed
      else if \<not> pcb_valid (clients g c) then Inl OutOfBounds
      else client_handle_freed_client c (store c (drop_pcb (clients g c)) g))"
| "client_free_socks c g =
     (if \<not> allocated (clients g c) then Inl OutOfBounds
      else if socks_closed (clients g c) then Inl AssertFailed
      else if socks_up (clients g c) \<and> \<not> client_closed (clients g c) \<and> \<not> pcb_valid (clients g c) then Inl OutOfBounds
      else
        let x = (if socks_up (clients g c) \<and> \<not> client_closed (clients g c) then (clients g c)\<lparr>recv_func := False\<rparr> else clients g c)
        in case BSocksClient_Free (cl (socks_client x)) of
             Inl e \<Rightarrow> Inl e
           | Inr s \<Rightarrow>
               let x = x\<lparr>socks_client := (socks_client x)\<lparr>cl := s\<rparr>, send_op := None, recv_op := False, socks_closed := True\<rparr>
               in if socks_up x \<and> (socks_recv_buf_used x \<ge> 0 \<or> socks_recv_tcp_pending x > 0) \<and> \<not> client_closed x then Inr (store c x g)
                  else if \<not> client_closed x then client_free_client c (store c x g)
                  else client_dealloc c (store c x g))"
  by pat_completeness auto

termination
  by (relation "measure (\<lambda>z. case z of Inl (c, g) \<Rightarrow> open_ends c g | Inr (Inl (c, g)) \<Rightarrow> open_ends c g + 1 | Inr (Inr (c, g)) \<Rightarrow> open_ends c g)")
    (auto simp: open_ends_def store_def drop_pcb_def split: if_splits)

declare client_handle_freed_client.simps [simp del] client_free_client.simps [simp del] client_free_socks.simps [simp del]

definition client_abort_client :: "nat \<Rightarrow> tcp_sys \<Rightarrow> tcp_sys run" where
  "client_abort_client c g =
     bindE (deref c g) (\<lambda>x.
     bindE (guardE (\<not> client_closed x) AssertFailed) (\<lambda>_.
     bindE (guardE (pcb_valid x) OutOfBounds) (\<lambda>_.
       client_handle_freed_client c (store c (drop_pcb x) g))))"

definition client_murder :: "nat \<Rightarrow> tcp_sys \<Rightarrow> tcp_sys run" where
  "client_murder c g =
     bindE (deref c g) (\<lambda>x.
     bindE (if \<not> client_closed x
            then bindE (guardE (pcb_valid x) OutOfBounds) (\<lambda>_. Inr ((drop_pcb x)\<lparr>client_closed := True\<rparr>)) else Inr x) (\<lambda>x.
     bindE (if \<not> socks_closed x
            then bindE (BSocksClient_Free (cl (socks_client x))) (\<lambda>s.
                   Inr (x\<lparr>socks_client := (socks_client x)\<lparr>cl := s\<rparr>, send_op := None, recv_op := False, socks_closed := True\<rparr>))
            else Inr x) (\<lambda>x.
       client_dealloc c (store c x g))))"

text \<open>The loop at the end of the main program.\<close>

partial_function (option) murder_clients :: "tcp_sys \<Rightarrow> tcp_sys run option" where
  "murder_clients g =
     (case LinkedList1_GetFirst (tcp_clients g) of
        None \<Rightarrow> Some (Inr g)
      | Some c \<Rightarrow> (case client_murder c g of Inl e \<Rightarrow> Some (Inl e) | Inr g \<Rightarrow> murder_clients g))"

section \<open>From the client to the SOCKS server\<close>

definition sender_send :: "tcp_client \<Rightarrow> tcp_client run" where
  "sender_send x = bindE (guardE (send_op x = None) AssertFailed) (\<lambda>_. Inr (x\<lparr>send_op := Some (buf_used x)\<rparr>))"

definition client_send_to_socks :: "nat \<Rightarrow> tcp_sys \<Rightarrow> tcp_sys run" where
  "client_send_to_socks c g =
     bindE (deref c g) (\<lambda>x.
     bindE (guardE (\<not> socks_closed x \<and> socks_up x \<and> buf_used x > 0) AssertFailed) (\<lambda>_.
     bindE (sender_send x) (\<lambda>x. Inr (store c x g))))"

definition client_socks_send_handler_done :: "nat \<Rightarrow> nat \<Rightarrow> tcp_sys \<Rightarrow> tcp_sys run" where
  "client_socks_send_handler_done c data_len g =
     bindE (deref c g) (\<lambda>x.
     bindE (guardE (\<not> socks_closed x \<and> socks_up x \<and> buf_used x > 0 \<and> data_len > 0 \<and> data_len \<le> buf_used x) AssertFailed) (\<lambda>_.
     bindE (guardE (buf_used x \<le> length (buf x)) OutOfBounds) (\<lambda>_.
     let x = x\<lparr>buf := write_at 0 (take (buf_used x - data_len) (drop data_len (buf x))) (buf x), buf_used := buf_used x - data_len\<rparr>
     in bindE (guardE (client_closed x \<or> pcb_valid x) OutOfBounds) (\<lambda>_.
        if buf_used x > 0 then bindE (sender_send x) (\<lambda>x. Inr (store c x g))
        else if client_closed x then client_free_socks c (store c x g)
        else Inr (store c x g)))))"

definition client_err_func :: "nat \<Rightarrow> tcp_sys \<Rightarrow> tcp_sys run" where
  "client_err_func c g =
     bindE (deref c g) (\<lambda>x. bindE (guardE (\<not> client_closed x) AssertFailed) (\<lambda>_. client_handle_freed_client c g))"

text \<open>\<open>None\<close> is the null pointer with which lwip reports the end of the stream.\<close>

definition client_recv_func :: "nat \<Rightarrow> byte list option \<Rightarrow> tcp_sys \<Rightarrow> (err \<times> tcp_sys) run" where
  "client_recv_func c p g =
     bindE (deref c g) (\<lambda>x.
     bindE (guardE (\<not> client_closed x) AssertFailed) (\<lambda>_.
       case p of
         None \<Rightarrow> bindE (client_free_client c g) (\<lambda>g. Inr (ERR_ABRT, g))
       | Some d \<Rightarrow>
           bindE (guardE (length d > 0) AssertFailed) (\<lambda>_.
           if length d > TCP_WND - buf_used x then Inr (ERR_MEM, g)
           else
             bindE (guardE (buf_used x + length d \<le> length (buf x)) OutOfBounds) (\<lambda>_.
             let x = x\<lparr>buf := write_at (buf_used x) d (buf x), buf_used := buf_used x + length d\<rparr>; g = store c x g
             in if buf_used x = length d \<and> socks_up x
                then bindE (guardE (\<not> socks_closed x) AssertFailed) (\<lambda>_. bindE (client_send_to_socks c g) (\<lambda>g. Inr (ERR_OK, g)))
                else Inr (ERR_OK, g)))))"

section \<open>From the SOCKS server to the client\<close>

definition client_socks_recv_initiate :: "nat \<Rightarrow> tcp_sys \<Rightarrow> tcp_sys run" where
  "client_socks_recv_initiate c g =
     bindE (deref c g) (\<lambda>x.
     bindE (guardE (\<not> client_closed x \<and> \<not> socks_closed x \<and> socks_up x \<and> socks_recv_buf_used x = -1) AssertFailed) (\<lambda>_.
     bindE (guardE (\<not> recv_op x) AssertFailed) (\<lambda>_. Inr (store c (x\<lparr>recv_op := True\<rparr>) g))))"

datatype write_end = Queued | Full | Failed

text \<open>The loop of \<open>client_socks_recv_send_out\<close>; \<open>n\<close> bytes have been written, the result has the bytes written from here on.\<close>

function write_loop :: "lwip \<Rightarrow> nat \<Rightarrow> tcp_client \<Rightarrow> (write_end \<times> tcp_client \<times> byte list) run" where
  "write_loop lw n x =
     (let to_write = min (socks_recv_buf_used x - socks_recv_buf_sent x) (int (tcp_sndbuf lw n))
      in if to_write = 0 then Inr (Full, x, [])
         else if to_write < 0 \<or> \<not> pcb_valid x \<or> socks_recv_buf_sent x < 0 \<or> socks_recv_buf_sent x + to_write > int (length (socks_recv_buf x)) then Inl OutOfBounds
         else case tcp_write lw n of
           ERR_OK \<Rightarrow>
             let d = take (nat to_write) (drop (nat (socks_recv_buf_sent x)) (socks_recv_buf x));
                 x = x\<lparr>socks_recv_buf_sent := socks_recv_buf_sent x + to_write, socks_recv_tcp_pending := socks_recv_tcp_pending x + to_write\<rparr>
             in if socks_recv_buf_sent x < socks_recv_buf_used x
                then bindE (write_loop lw (n + nat to_write) x) (\<lambda>(e, x, ds). Inr (e, x, d @ ds))
                else Inr (Queued, x, d)
         | ERR_MEM \<Rightarrow> Inr (Full, x, [])
         | _ \<Rightarrow> Inr (Failed, x, []))"
  by pat_completeness auto

termination
  by (relation "measure (\<lambda>(lw, n, x). nat (socks_recv_buf_used x - socks_recv_buf_sent x))") auto

declare write_loop.simps [simp del]

definition client_socks_recv_send_out :: "nat \<Rightarrow> lwip \<Rightarrow> tcp_sys \<Rightarrow> (int \<times> tcp_sys \<times> byte list) run" where
  "client_socks_recv_send_out c lw g =
     bindE (deref c g) (\<lambda>x.
     bindE (guardE (\<not> client_closed x \<and> socks_up x \<and> socks_recv_buf_used x > 0
                    \<and> socks_recv_buf_sent x < socks_recv_buf_used x \<and> \<not> socks_recv_waiting x) AssertFailed) (\<lambda>_.
     bindE (write_loop lw 0 x) (\<lambda>(e, x, d).
       let g = store c x g
       in if e = Failed then bindE (client_abort_client c g) (\<lambda>g. Inr (-1, g, d))
          else
            bindE (guardE (pcb_valid x) OutOfBounds) (\<lambda>_.
            if tcp_output lw \<noteq> ERR_OK then bindE (client_abort_client c g) (\<lambda>g. Inr (-1, g, d))
            else if socks_recv_buf_sent x < socks_recv_buf_used x
            then (if socks_recv_tcp_pending x = 0 then bindE (client_abort_client c g) (\<lambda>g. Inr (-1, g, d))
                  else Inr (0, store c (x\<lparr>socks_recv_waiting := True\<rparr>) g, d))
            else Inr (0, store c (x\<lparr>socks_recv_buf_used := -1\<rparr>) g, d)))))"

definition client_socks_recv_handler_done :: "nat \<Rightarrow> lwip \<Rightarrow> nat \<Rightarrow> tcp_sys \<Rightarrow> (tcp_sys \<times> byte list) run" where
  "client_socks_recv_handler_done c lw data_len g =
     bindE (deref c g) (\<lambda>x.
     bindE (guardE (data_len > 0 \<and> data_len \<le> CLIENT_SOCKS_RECV_BUF_SIZE \<and> \<not> socks_closed x \<and> socks_up x
                    \<and> socks_recv_buf_used x = -1) AssertFailed) (\<lambda>_.
       if client_closed x then Inr (g, [])
       else
         let x = x\<lparr>socks_recv_buf_used := int data_len, socks_recv_buf_sent := 0, socks_recv_waiting := False\<rparr>
         in bindE (client_socks_recv_send_out c lw (store c x g)) (\<lambda>(r, g, d).
              if r < 0 then bindE (client_log c g) (\<lambda>_. Inr (g, d))
              else
                bindE (deref c g) (\<lambda>x.
                if socks_recv_buf_used x = -1 then bindE (client_socks_recv_initiate c g) (\<lambda>g. Inr (g, d))
                else Inr (g, d)))))"

definition client_sent_func :: "nat \<Rightarrow> lwip \<Rightarrow> nat \<Rightarrow> tcp_sys \<Rightarrow> (err \<times> tcp_sys \<times> byte list) run" where
  "client_sent_func c lw len g =
     bindE (deref c g) (\<lambda>x.
     bindE (guardE (\<not> client_closed x \<and> socks_up x \<and> len > 0 \<and> int len \<le> socks_recv_tcp_pending x) AssertFailed) (\<lambda>_.
     let x = x\<lparr>socks_recv_tcp_pending := socks_recv_tcp_pending x - int len\<rparr>
     in if socks_recv_buf_used x > 0
        then
          bindE (guardE (socks_recv_waiting x \<and> socks_recv_buf_sent x < socks_recv_buf_used x) AssertFailed) (\<lambda>_.
          bindE (client_socks_recv_send_out c lw (store c (x\<lparr>socks_recv_waiting := False\<rparr>) g)) (\<lambda>(r, g, d).
            if r < 0 then Inr (ERR_ABRT, g, d)
            else
              bindE (deref c g) (\<lambda>x.
              bindE (guardE (socks_recv_tcp_pending x > 0) AssertFailed) (\<lambda>_.
              if socks_recv_buf_used x = -1 \<and> \<not> socks_closed x
              then bindE (client_socks_recv_initiate c g) (\<lambda>g. Inr (ERR_OK, g, d))
              else Inr (ERR_OK, g, d)))))
        else if socks_closed x \<and> socks_recv_tcp_pending x = 0
        then bindE (client_free_client c (store c x g)) (\<lambda>g. Inr (ERR_ABRT, g, []))
        else Inr (ERR_OK, store c x g, [])))"

section \<open>Events of the SOCKS client, and new connections\<close>

definition client_socks_handler :: "nat \<Rightarrow> socks_event \<Rightarrow> tcp_sys \<Rightarrow> tcp_sys run" where
  "client_socks_handler c event g =
     bindE (deref c g) (\<lambda>x.
     bindE (guardE (\<not> socks_closed x) AssertFailed) (\<lambda>_.
       case event of
         EVENT_ERROR \<Rightarrow> client_free_socks c g
       | EVENT_UP \<Rightarrow>
           bindE (guardE (\<not> socks_up x) AssertFailed) (\<lambda>_.
           bindE (guardE (client_closed x \<or> pcb_valid x) OutOfBounds) (\<lambda>_.
           let x = x\<lparr>send_op := None, recv_op := False, socks_recv_buf_used := -1, socks_recv_tcp_pending := 0,
                     sent_func := (sent_func x \<or> \<not> client_closed x), socks_up := True\<rparr>; g = store c x g
           in bindE (if buf_used x > 0 then client_send_to_socks c g else Inr g) (\<lambda>g.
              bindE (deref c g) (\<lambda>x.
              if \<not> client_closed x then client_socks_recv_initiate c g else Inr g))))
       | EVENT_ERROR_CLOSED \<Rightarrow>
           bindE (guardE (socks_up x) AssertFailed) (\<lambda>_. client_free_socks c g)))"

text \<open>
  \<open>malloc\<close> is the new struct, \<open>addr\<close> the address the connection was made to; the name of the user is not extended by the
  source address.
\<close>

definition listener_accept_func ::
    "nat option \<Rightarrow> auth_info list \<Rightarrow> BSocksClient.BAddr \<Rightarrow> bool \<Rightarrow> tcp_sys \<Rightarrow> (err \<times> tcp_sys) run" where
  "listener_accept_func malloc auth addr connector_ok g =
     (case malloc of
        None \<Rightarrow> Inr (ERR_MEM, g)
      | Some c \<Rightarrow>
          bindE (BSocksClient_Init connector_ok auth addr) (\<lambda>r.
          case r of
            None \<Rightarrow> Inr (ERR_MEM, g)
          | Some s \<Rightarrow>
              let x = (clients g c)\<lparr>allocated := True, socks_client := socks_start s, pcb_valid := True, client_closed := False,
                        err_func := True, recv_func := True, sent_func := False, buf_used := 0, socks_up := False, socks_closed := False,
                        send_op := None, recv_op := False\<rparr>
              in Inr (ERR_OK, (store c x g)\<lparr>tcp_clients := LinkedList1_Append c (tcp_clients g), num_clients := num_clients g + 1\<rparr>)))"

section \<open>Steps\<close>

datatype tcp_event = Accept "nat option" "auth_info list" BSocksClient.BAddr bool | ClientErr nat | ClientRecv nat "byte list option"
  | ClientSent nat lwip nat | SocksStep nat socks_input | SocksSendDone nat nat | SocksRecvDone nat lwip "byte list"

fun client_events :: "nat \<Rightarrow> socks_event list \<Rightarrow> tcp_sys \<Rightarrow> tcp_sys run" where
  "client_events c [] g = Inr g"
| "client_events c (e # es) g = bindE (client_socks_handler c e g) (client_events c es)"

text \<open>
  What lwip and the SOCKS client do before they call: lwip has freed the block whose error it reports, and an operation
  that is done is not in progress any more; received data is in the buffer. The result is what is returned to lwip, the new
  state and the bytes given to \<open>tcp_write\<close>.
\<close>

fun tcp_step :: "memory \<Rightarrow> tcp_event \<Rightarrow> tcp_sys \<Rightarrow> (err \<times> tcp_sys \<times> byte list) run" where
  "tcp_step al (Accept malloc auth addr ok) g = bindE (listener_accept_func malloc auth addr ok g) (\<lambda>(e, g). Inr (e, g, []))"
| "tcp_step al (ClientErr c) g =
     bindE (client_err_func c (store c (drop_pcb (clients g c)) g)) (\<lambda>g. Inr (ERR_OK, g, []))"
| "tcp_step al (ClientRecv c p) g = bindE (client_recv_func c p g) (\<lambda>(e, g). Inr (e, g, []))"
| "tcp_step al (ClientSent c lw len) g = client_sent_func c lw len g"
| "tcp_step al (SocksStep c x) g =
     bindE (respond al x (socks_client (clients g c))) (\<lambda>s.
     bindE (client_events c (drop (length (evs (socks_client (clients g c)))) (evs s)) (store c ((clients g c)\<lparr>socks_client := s\<rparr>) g)) (\<lambda>g.
       Inr (ERR_OK, g, [])))"
| "tcp_step al (SocksSendDone c n) g =
     bindE (client_socks_send_handler_done c n (store c ((clients g c)\<lparr>send_op := None\<rparr>) g)) (\<lambda>g. Inr (ERR_OK, g, []))"
| "tcp_step al (SocksRecvDone c lw d) g =
     bindE (client_socks_recv_handler_done c lw (length d)
              (store c ((clients g c)\<lparr>recv_op := False, socks_recv_buf := write_at 0 d (socks_recv_buf (clients g c))\<rparr>) g)) (\<lambda>(g, ds).
       Inr (ERR_OK, g, ds))"

text \<open>
  lwip calls a callback that is set on a block that is in use, with data that is not empty, and confirms what has been
  written and not yet confirmed; the SOCKS client completes an operation that is in progress. Memory that \<open>malloc\<close> returns is not in use.
\<close>

fun tcp_legal :: "tcp_event \<Rightarrow> tcp_sys \<Rightarrow> bool" where
  "tcp_legal (Accept malloc auth addr ok) g \<longleftrightarrow> (case malloc of None \<Rightarrow> True | Some c \<Rightarrow> \<not> allocated (clients g c))
     \<and> BSocksClient.wf_addr addr \<and> (\<forall>ai \<in> set auth. auth_type ai = METHOD_NONE \<or> auth_type ai = METHOD_PASSWORD)"
| "tcp_legal (ClientErr c) g \<longleftrightarrow> pcb_valid (clients g c) \<and> err_func (clients g c)"
| "tcp_legal (ClientRecv c p) g \<longleftrightarrow> pcb_valid (clients g c) \<and> recv_func (clients g c) \<and> p \<noteq> Some []"
| "tcp_legal (ClientSent c lw len) g \<longleftrightarrow> pcb_valid (clients g c) \<and> sent_func (clients g c) \<and> 0 < len
     \<and> int len \<le> socks_recv_tcp_pending (clients g c)"
| "tcp_legal (SocksStep c x) g \<longleftrightarrow> \<not> socks_closed (clients g c) \<and> enabled x (socks_client (clients g c))"
| "tcp_legal (SocksSendDone c n) g \<longleftrightarrow> (case send_op (clients g c) of None \<Rightarrow> False | Some m \<Rightarrow> 0 < n \<and> n \<le> m)"
| "tcp_legal (SocksRecvDone c lw d) g \<longleftrightarrow> recv_op (clients g c) \<and> 0 < length d \<and> length d \<le> CLIENT_SOCKS_RECV_BUF_SIZE"

text \<open>
  What has passed through a connection: bytes accepted from the client, sent to the SOCKS server, received from it and
  given to lwip for the client.
\<close>

record traffic =
  from_client :: "byte list"
  to_socks :: "byte list"
  from_socks :: "byte list"
  to_client :: "byte list"

fun count :: "tcp_event \<Rightarrow> tcp_sys \<Rightarrow> err \<Rightarrow> byte list \<Rightarrow> (nat \<Rightarrow> traffic) \<Rightarrow> (nat \<Rightarrow> traffic)" where
  "count (Accept (Some c) auth addr ok) g e ds H = H(c := \<lparr>from_client = [], to_socks = [], from_socks = [], to_client = []\<rparr>)"
| "count (ClientRecv c (Some d)) g e ds H = (if e = ERR_MEM then H else H(c := (H c)\<lparr>from_client := from_client (H c) @ d\<rparr>))"
| "count (ClientSent c lw len) g e ds H = H(c := (H c)\<lparr>to_client := to_client (H c) @ ds\<rparr>)"
| "count (SocksSendDone c n) g e ds H = H(c := (H c)\<lparr>to_socks := to_socks (H c) @ take n (buf (clients g c))\<rparr>)"
| "count (SocksRecvDone c lw d) g e ds H =
     H(c := (H c)\<lparr>from_socks := from_socks (H c) @ d, to_client := to_client (H c) @ ds\<rparr>)"
| "count _ g e ds H = H"

text \<open>At the start there is no client; the arrays in the memory have their sizes.\<close>

inductive tcp_reachable :: "memory \<Rightarrow> bool \<Rightarrow> tcp_sys \<Rightarrow> (nat \<Rightarrow> traffic) \<Rightarrow> bool" for al li where
  start: "(\<And>c. length (buf (m c)) = TCP_WND \<and> length (socks_recv_buf (m c)) = CLIENT_SOCKS_RECV_BUF_SIZE
      \<and> \<not> allocated (m c) \<and> \<not> pcb_valid (m c) \<and> socks_closed (m c) \<and> send_op (m c) = None \<and> \<not> recv_op (m c))
    \<Longrightarrow> tcp_reachable al li \<lparr>clients = m, tcp_clients = LinkedList1_Init l, num_clients = 0, log_info = li\<rparr>
          (\<lambda>_. \<lparr>from_client = [], to_socks = [], from_socks = [], to_client = []\<rparr>)"
| step: "tcp_reachable al li g H \<Longrightarrow> tcp_legal e g \<Longrightarrow> tcp_step al e g = Inr (r, g', ds)
    \<Longrightarrow> tcp_reachable al li g' (count e g r ds H)"

end
