(* ===== verification/TcpInv.thy ===== *)
theory TcpInv
  imports TcpClient
begin

text \<open>
  The invariant of the TCP connections and the functions that close or write to one. \<open>conn_inv\<close> says of a connection which
  callbacks are set, what its buffers hold and which operations are in progress; \<open>settled\<close> is what the closing functions leave of it,
  \<open>hist_inv\<close> relates its buffers to what has passed through it.
\<close>

section \<open>The invariant\<close>

definition memory_part :: "tcp_client \<Rightarrow> bool" where
  "memory_part x \<longleftrightarrow> length (buf x) = TCP_WND \<and> length (socks_recv_buf x) = CLIENT_SOCKS_RECV_BUF_SIZE"

definition pcb_part :: "tcp_client \<Rightarrow> bool" where
  "pcb_part x \<longleftrightarrow> (pcb_valid x \<longleftrightarrow> \<not> client_closed x) \<and> (err_func x \<longrightarrow> \<not> client_closed x)
     \<and> (recv_func x \<longrightarrow> \<not> client_closed x \<and> \<not> socks_closed x) \<and> (sent_func x \<longleftrightarrow> socks_up x \<and> \<not> client_closed x)"

definition recv_part :: "tcp_client \<Rightarrow> bool" where
  "recv_part x \<longleftrightarrow> (socks_up x \<and> \<not> client_closed x \<longrightarrow> socks_recv_tcp_pending x \<ge> 0
     \<and> (socks_recv_buf_used x = -1 \<or> 0 < socks_recv_buf_used x \<and> socks_recv_buf_used x \<le> int CLIENT_SOCKS_RECV_BUF_SIZE
          \<and> 0 \<le> socks_recv_buf_sent x \<and> socks_recv_buf_sent x < socks_recv_buf_used x \<and> socks_recv_waiting x \<and> socks_recv_tcp_pending x > 0))"

definition op_part :: "tcp_client \<Rightarrow> bool" where
  "op_part x \<longleftrightarrow> (send_op x \<noteq> None \<longleftrightarrow> \<not> socks_closed x \<and> socks_up x \<and> buf_used x > 0) \<and> (\<forall>m. send_op x = Some m \<longrightarrow> 0 < m \<and> m \<le> buf_used x)
     \<and> (recv_op x \<longrightarrow> socks_up x \<and> socks_recv_buf_used x = -1 \<and> \<not> socks_closed x)
     \<and> (socks_up x \<and> \<not> client_closed x \<and> \<not> socks_closed x \<longrightarrow> (recv_op x \<longleftrightarrow> socks_recv_buf_used x = -1))"

definition conversing :: "tcp_client \<Rightarrow> bool" where
  "conversing x \<longleftrightarrow> (\<exists>c0. wf_client c0 \<and> socks_inv c0 (socks_client x) \<and> alive (socks_client x)
     \<and> (socks_up x \<longleftrightarrow> BSocksClient.state (cl (socks_client x)) = UP))"

definition conn_inv :: "tcp_client \<Rightarrow> bool" where
  "conn_inv x \<longleftrightarrow> memory_part x \<and> buf_used x \<le> TCP_WND \<and> pcb_part x \<and> recv_part x \<and> op_part x
     \<and> (\<not> socks_closed x \<longrightarrow> conversing x)
     \<and> (socks_closed x \<longrightarrow> socks_up x \<and> \<not> client_closed x \<and> socks_recv_tcp_pending x > 0)
     \<and> (client_closed x \<longrightarrow> buf_used x > 0)"

definition free_inv :: "tcp_client \<Rightarrow> bool" where
  "free_inv x \<longleftrightarrow> memory_part x \<and> \<not> pcb_valid x \<and> socks_closed x \<and> send_op x = None \<and> \<not> recv_op x"

definition one_inv :: "tcp_client \<Rightarrow> bool" where
  "one_inv x \<longleftrightarrow> (if allocated x then conn_inv x else free_inv x)"

text \<open>Everything but the client at \<open>c\<close>.\<close>

definition rest_inv :: "nat \<Rightarrow> tcp_sys \<Rightarrow> nat list \<Rightarrow> bool" where
  "rest_inv c g xs \<longleftrightarrow> ll_rep (tcp_clients g) xs \<and> num_clients g = length xs
     \<and> (\<forall>c'. allocated (clients g c') \<longleftrightarrow> c' \<in> set xs) \<and> (\<forall>c'. c' \<noteq> c \<longrightarrow> one_inv (clients g c'))"

definition sys_inv :: "tcp_sys \<Rightarrow> bool" where
  "sys_inv g \<longleftrightarrow> (\<exists>xs. ll_rep (tcp_clients g) xs \<and> num_clients g = length xs
     \<and> (\<forall>c. allocated (clients g c) \<longleftrightarrow> c \<in> set xs)) \<and> (\<forall>c. one_inv (clients g c))"

lemma sys_rest: "sys_inv g \<Longrightarrow> \<exists>xs. rest_inv c g xs"
  by (auto simp: sys_inv_def rest_inv_def)

lemma rest_sys: "rest_inv c g xs \<Longrightarrow> one_inv (clients g c) \<Longrightarrow> sys_inv g"
  unfolding sys_inv_def rest_inv_def by (metis)

lemma store_simps [simp]:
  "clients (store c x g) c = x" "c' \<noteq> c \<Longrightarrow> clients (store c x g) c' = clients g c'" "tcp_clients (store c x g) = tcp_clients g"
  "num_clients (store c x g) = num_clients g" "log_info (store c x g) = log_info g" "store c y (store c x g) = store c y g"
  by (simp_all add: store_def)

lemma rest_store [simp]: "allocated x = allocated (clients g c) \<Longrightarrow> rest_inv c (store c x g) xs = rest_inv c g xs"
  unfolding rest_inv_def by (metis store_simps(1-4))

text \<open>What the closing functions leave of a client: it is freed, or its buffers are as before.\<close>

definition settled :: "nat \<Rightarrow> tcp_sys \<Rightarrow> tcp_sys run \<Rightarrow> bool" where
  "settled c g r \<longleftrightarrow> (\<exists>g' xs. r = Inr g' \<and> rest_inv c g' xs \<and> one_inv (clients g' c) \<and> log_info g' = log_info g
     \<and> (\<forall>c'. c' \<noteq> c \<longrightarrow> clients g' c' = clients g c')
     \<and> (client_closed (clients g c) \<longrightarrow> client_closed (clients g' c))
     \<and> (allocated (clients g' c) \<longrightarrow> buf (clients g' c) = buf (clients g c) \<and> buf_used (clients g' c) = buf_used (clients g c)
          \<and> socks_up (clients g' c) = socks_up (clients g c) \<and> socks_recv_buf (clients g' c) = socks_recv_buf (clients g c)
          \<and> socks_recv_buf_used (clients g' c) = socks_recv_buf_used (clients g c)
          \<and> socks_recv_buf_sent (clients g' c) = socks_recv_buf_sent (clients g c)))"

lemma deref_ok [simp]: "allocated (clients g c) \<Longrightarrow> deref c g = Inr (clients g c)"
  by (simp add: deref_def)

lemma dealloc_ok:
  assumes "rest_inv c g xs" and "allocated (clients g c)" and "client_closed (clients g c)" and "socks_closed (clients g c)"
    and "memory_part (clients g c)" and "\<not> pcb_valid (clients g c)" and "send_op (clients g c) = None" and "\<not> recv_op (clients g c)"
  shows "settled c g (client_dealloc c g)" and "\<exists>g'. client_dealloc c g = Inr g' \<and> rest_inv c g' (remove1 c xs)"
proof -
  have c: "c \<in> set xs" and l: "ll_rep (tcp_clients g) xs" "num_clients g = length xs" using assms(1,2) by (auto simp: rest_inv_def)
  let ?g = "store c ((clients g c)\<lparr>allocated := False\<rparr>) (g\<lparr>num_clients := num_clients g - 1, tcp_clients := LinkedList1_Remove c (tcp_clients g)\<rparr>)"
  have "0 < num_clients g" using c l(2) by (cases xs) simp_all
  then have "client_dealloc c g = Inr ?g" using assms(2-4) by (simp add: client_dealloc_def)
  moreover have d: "distinct xs" using ll.distinct_law[OF l(1)] .
  have "ll_rep (LinkedList1_Remove c (tcp_clients g)) (remove1 c xs)" by (rule ll.remove_law[OF l(1) c])
  moreover have "length (remove1 c xs) = num_clients g - 1" using c l(2) by (simp add: length_remove1)
  moreover have "\<forall>c'. allocated (clients ?g c') \<longleftrightarrow> c' \<in> set (remove1 c xs)"
    using assms(1) d by (auto simp: rest_inv_def store_def)
  moreover have "\<forall>c'. c' \<noteq> c \<longrightarrow> one_inv (clients ?g c')" using assms(1) by (simp add: rest_inv_def store_def)
  ultimately have r: "client_dealloc c g = Inr ?g" "rest_inv c ?g (remove1 c xs)" by (auto simp: rest_inv_def)
  have "one_inv (clients ?g c)" using assms(4-8) by (simp add: one_inv_def free_inv_def memory_part_def)
  with r show "settled c g (client_dealloc c g)" unfolding settled_def by (auto simp: store_def)
  show "\<exists>g'. client_dealloc c g = Inr g' \<and> rest_inv c g' (remove1 c xs)" using r by blast
qed

text \<open>The closing functions, from states in which the other end may be closed already.\<close>

lemma settled_store:
  assumes "settled c (store c x g) r" and "buf x = buf (clients g c)" and "buf_used x = buf_used (clients g c)"
    and "socks_up x = socks_up (clients g c)" and "socks_recv_buf x = socks_recv_buf (clients g c)"
    and "socks_recv_buf_used x = socks_recv_buf_used (clients g c)" and "socks_recv_buf_sent x = socks_recv_buf_sent (clients g c)"
    and "client_closed (clients g c) \<longrightarrow> client_closed x"
  shows "settled c g r"
  using assms unfolding settled_def by auto

lemma settled_here:
  assumes "rest_inv c g xs" and "allocated x" and "allocated (clients g c)" and "conn_inv x"
    and "buf x = buf (clients g c)" and "buf_used x = buf_used (clients g c)" and "socks_up x = socks_up (clients g c)"
    and "socks_recv_buf x = socks_recv_buf (clients g c)" and "socks_recv_buf_used x = socks_recv_buf_used (clients g c)"
    and "socks_recv_buf_sent x = socks_recv_buf_sent (clients g c)" and "client_closed (clients g c) \<longrightarrow> client_closed x"
  shows "settled c g (Inr (store c x g))"
  unfolding settled_def using assms
  by (intro exI[of _ "store c x g"] exI[of _ xs]) (auto simp: one_inv_def)

lemma free_socks_closed:
  assumes "rest_inv c g xs" and "allocated (clients g c)" and "client_closed (clients g c)" and "\<not> socks_closed (clients g c)"
    and "memory_part (clients g c)" and "\<not> pcb_valid (clients g c)" and "resources (cl (socks_client (clients g c)))"
  shows "settled c g (client_free_socks c g)"
proof -
  obtain s where s: "BSocksClient_Free (cl (socks_client (clients g c))) = Inr s" using BSocksClient_Free_ok[OF assms(7)] by blast
  let ?x = "(clients g c)\<lparr>socks_client := (socks_client (clients g c))\<lparr>cl := s\<rparr>, send_op := None, recv_op := False, socks_closed := True\<rparr>"
  have "client_free_socks c g = client_dealloc c (store c ?x g)"
    using assms(2-4) s by (simp add: client_free_socks.simps Let_def)
  moreover have "settled c (store c ?x g) (client_dealloc c (store c ?x g))"
    by (rule dealloc_ok(1)[where xs = xs]) (use assms in \<open>simp_all add: memory_part_def\<close>)
  ultimately show ?thesis using settled_store[of c ?x g] by simp
qed

lemma handle_freed_ok:
  assumes "rest_inv c g xs" and a: "allocated (clients g c)" and o: "\<not> client_closed (clients g c)"
    and m: "memory_part (clients g c)" "buf_used (clients g c) \<le> TCP_WND"
    and p: "\<not> pcb_valid (clients g c)" "\<not> err_func (clients g c)" "\<not> recv_func (clients g c)" "\<not> sent_func (clients g c)"
    and s: "\<not> socks_closed (clients g c) \<Longrightarrow> resources (cl (socks_client (clients g c)))"
      "\<not> socks_closed (clients g c) \<Longrightarrow> buf_used (clients g c) > 0 \<Longrightarrow> conversing (clients g c) \<and> op_part (clients g c)"
      "socks_closed (clients g c) \<Longrightarrow> send_op (clients g c) = None \<and> \<not> recv_op (clients g c)"
  shows "settled c g (client_handle_freed_client c g)"
proof -
  let ?x = "(clients g c)\<lparr>client_closed := True\<rparr>"
  have st: "settled c (store c ?x g) r \<Longrightarrow> settled c g r" for r by (erule settled_store) simp_all
  consider (wait) "buf_used (clients g c) > 0 \<and> \<not> socks_closed (clients g c)"
    | (socks) "buf_used (clients g c) = 0" "\<not> socks_closed (clients g c)" | (dead) "socks_closed (clients g c)" by auto
  then show ?thesis
  proof cases
    case wait
    have "conn_inv ?x" using wait m p s(2) by (auto simp: conn_inv_def memory_part_def pcb_part_def recv_part_def op_part_def conversing_def)
    then have "settled c g (Inr (store c ?x g))" by (intro settled_here[OF assms(1)]) (use a in simp_all)
    then show ?thesis using wait a o by (simp add: client_handle_freed_client.simps Let_def)
  next
    case socks
    have "settled c (store c ?x g) (client_free_socks c (store c ?x g))"
      by (rule free_socks_closed[where xs = xs]) (use assms(1) a m p socks s(1) in \<open>simp_all add: memory_part_def\<close>)
    then show ?thesis using socks a o st by (simp add: client_handle_freed_client.simps Let_def)
  next
    case dead
    have "settled c (store c ?x g) (client_dealloc c (store c ?x g))"
      by (rule dealloc_ok(1)[where xs = xs]) (use assms(1) a m p dead s(3) in \<open>simp_all add: memory_part_def\<close>)
    then show ?thesis using dead a o st by (simp add: client_handle_freed_client.simps Let_def)
  qed
qed

lemma drop_pcb_simps [simp]:
  "allocated (drop_pcb x) = allocated x" "client_closed (drop_pcb x) = client_closed x" "buf (drop_pcb x) = buf x"
  "buf_used (drop_pcb x) = buf_used x" "socks_client (drop_pcb x) = socks_client x" "socks_up (drop_pcb x) = socks_up x"
  "socks_closed (drop_pcb x) = socks_closed x" "send_op (drop_pcb x) = send_op x" "recv_op (drop_pcb x) = recv_op x"
  "socks_recv_buf (drop_pcb x) = socks_recv_buf x" "socks_recv_buf_used (drop_pcb x) = socks_recv_buf_used x"
  "socks_recv_buf_sent (drop_pcb x) = socks_recv_buf_sent x" "\<not> pcb_valid (drop_pcb x)" "\<not> err_func (drop_pcb x)"
  "\<not> recv_func (drop_pcb x)" "\<not> sent_func (drop_pcb x)" "memory_part (drop_pcb x) = memory_part x"
  "conversing (drop_pcb x) = conversing x" "op_part (drop_pcb x) = op_part x"
  by (simp_all add: drop_pcb_def memory_part_def conversing_def op_part_def)

text \<open>The end of the client's side, in a state whose operations may have just been given up.\<close>

definition closable :: "tcp_client \<Rightarrow> bool" where
  "closable x \<longleftrightarrow> \<not> client_closed x \<and> memory_part x \<and> buf_used x \<le> TCP_WND
     \<and> (\<not> socks_closed x \<longrightarrow> resources (cl (socks_client x)) \<and> (buf_used x > 0 \<longrightarrow> conversing x \<and> op_part x))
     \<and> (socks_closed x \<longrightarrow> send_op x = None \<and> \<not> recv_op x)"

lemma close_ok:
  assumes "rest_inv c g xs" and "allocated (clients g c)" and "closable (clients g c)"
  shows "settled c g (client_handle_freed_client c (store c (drop_pcb (clients g c)) g))"
    and "pcb_valid (clients g c) \<Longrightarrow> settled c g (client_free_client c g)"
    and "pcb_valid (clients g c) \<Longrightarrow> settled c g (client_abort_client c g)"
proof -
  let ?g = "store c (drop_pcb (clients g c)) g"
  have "settled c ?g (client_handle_freed_client c ?g)"
    by (rule handle_freed_ok[where xs = xs]) (use assms in \<open>simp_all add: closable_def\<close>)
  then show h: "settled c g (client_handle_freed_client c ?g)" by (rule settled_store) simp_all
  have n: "\<not> client_closed (clients g c)" using assms(3) by (simp add: closable_def)
  show "pcb_valid (clients g c) \<Longrightarrow> settled c g (client_free_client c g)"
    using h n assms(2) by (simp add: client_free_client.simps)
  show "pcb_valid (clients g c) \<Longrightarrow> settled c g (client_abort_client c g)"
    using h n assms(2) by (simp add: client_abort_client_def)
qed

lemma conversing_resources: "conversing x \<Longrightarrow> resources (cl (socks_client x))"
  by (auto simp: conversing_def socks_inv_def)

lemma conn_closable: "conn_inv x \<Longrightarrow> \<not> client_closed x \<Longrightarrow> closable x"
proof -
  assume i: "conn_inv x" "\<not> client_closed x"
  then have "op_part x" "\<not> socks_closed x \<Longrightarrow> conversing x" by (simp_all add: conn_inv_def)
  moreover from this(1) have "socks_closed x \<Longrightarrow> send_op x = None \<and> \<not> recv_op x" by (auto simp: op_part_def)
  ultimately show ?thesis using i conversing_resources[of x] by (auto simp: closable_def conn_inv_def)
qed

text \<open>The end of the SOCKS side.\<close>

lemma socks_end_ok:
  assumes r: "rest_inv c g xs" and a: "allocated (clients g c)" and o: "\<not> socks_closed (clients g c)"
    and m: "memory_part (clients g c)" "buf_used (clients g c) \<le> TCP_WND" and p: "pcb_part (clients g c)" "recv_part (clients g c)"
    and s: "resources (cl (socks_client (clients g c)))"
  shows "settled c g (client_free_socks c g)"
proof (cases "client_closed (clients g c)")
  case True
  then show ?thesis using p(1) by (intro free_socks_closed[OF r a _ o m(1) _ s]) (simp_all add: pcb_part_def)
next
  case False
  obtain s' where s': "BSocksClient_Free (cl (socks_client (clients g c))) = Inr s'" using BSocksClient_Free_ok[OF s] by blast
  define x where "x = (clients g c)\<lparr>recv_func := (recv_func (clients g c) \<and> \<not> socks_up (clients g c)),
    socks_client := (socks_client (clients g c))\<lparr>cl := s'\<rparr>, send_op := None, recv_op := False, socks_closed := True\<rparr>"
  have st: "settled c (store c x g) r \<Longrightarrow> settled c g r" for r by (erule settled_store) (simp_all add: x_def)
  have pv: "pcb_valid (clients g c)" using p(1) False by (simp add: pcb_part_def)
  have rf: "(if socks_up (clients g c) \<and> \<not> client_closed (clients g c) then (clients g c)\<lparr>recv_func := False\<rparr> else clients g c)
      = (clients g c)\<lparr>recv_func := (recv_func (clients g c) \<and> \<not> socks_up (clients g c))\<rparr>" using False by simp
  have call: "client_free_socks c g = (if socks_up x \<and> (socks_recv_buf_used x \<ge> 0 \<or> socks_recv_tcp_pending x > 0) then Inr (store c x g)
      else client_free_client c (store c x g))"
    using a o False pv s' by (simp add: client_free_socks.simps rf Let_def x_def)
  show ?thesis
  proof (cases "socks_up x \<and> (socks_recv_buf_used x \<ge> 0 \<or> socks_recv_tcp_pending x > 0)")
    case True
    have "conn_inv x" using True False m p
      by (auto simp: conn_inv_def memory_part_def pcb_part_def recv_part_def op_part_def x_def)
    then have "settled c g (Inr (store c x g))" by (intro settled_here[OF r]) (use a in \<open>simp_all add: x_def\<close>)
    with True call show ?thesis by simp
  next
    case c: False
    have "closable x" using m False by (simp add: closable_def x_def memory_part_def)
    then have "settled c (store c x g) (client_free_client c (store c x g))"
      by (intro close_ok(2)[where xs = xs]) (use r a pv in \<open>simp_all add: x_def\<close>)
    with c call st show ?thesis by (simp only: if_False)
  qed
qed

section \<open>Writing to the client\<close>

lemma write_loop_ok:
  assumes "pcb_valid x" and "0 \<le> socks_recv_buf_sent x" and "socks_recv_buf_sent x < socks_recv_buf_used x"
    and "socks_recv_buf_used x \<le> int (length (socks_recv_buf x))"
  shows "\<exists>e d. write_loop lw n x = Inr (e, x\<lparr>socks_recv_buf_sent := socks_recv_buf_sent x + int (length d),
      socks_recv_tcp_pending := socks_recv_tcp_pending x + int (length d)\<rparr>, d)
    \<and> d = take (length d) (drop (nat (socks_recv_buf_sent x)) (socks_recv_buf x))
    \<and> (e = Queued \<longrightarrow> socks_recv_buf_sent x + int (length d) = socks_recv_buf_used x)
    \<and> (e \<noteq> Queued \<longrightarrow> socks_recv_buf_sent x + int (length d) < socks_recv_buf_used x)"
  using assms
proof (induction lw n x rule: write_loop.induct)
  case (1 lw n x)
  define w where "w = min (socks_recv_buf_used x - socks_recv_buf_sent x) (int (tcp_sndbuf lw n))"
  define d where "d = take (nat w) (drop (nat (socks_recv_buf_sent x)) (socks_recv_buf x))"
  show ?case
  proof (cases "w > 0 \<and> tcp_write lw n = ERR_OK")
    case False
    then have "write_loop lw n x = Inr (if w \<le> 0 \<or> tcp_write lw n = ERR_MEM then Full else Failed, x, [])"
      using 1(2-5) w_def[symmetric] by (subst write_loop.simps) (cases "tcp_write lw n", auto simp: Let_def w_def min_def)
    with 1(4) show ?thesis by (intro exI[of _ "if w \<le> 0 \<or> tcp_write lw n = ERR_MEM then Full else Failed"] exI[of _ "[]"]) simp
  next
    case True
    have wle: "w \<le> socks_recv_buf_used x - socks_recv_buf_sent x" by (simp add: w_def)
    then have "nat w \<le> length (socks_recv_buf x) - nat (socks_recv_buf_sent x)" using 1(3-5) True by linarith
    then have ld: "int (length d) = w" using True by (simp add: d_def)
    define y where "y = x\<lparr>socks_recv_buf_sent := socks_recv_buf_sent x + w, socks_recv_tcp_pending := socks_recv_tcp_pending x + w\<rparr>"
    have call: "write_loop lw n x = (if socks_recv_buf_sent y < socks_recv_buf_used y
        then bindE (write_loop lw (n + nat w) y) (\<lambda>(e, x, ds). Inr (e, x, d @ ds)) else Inr (Queued, y, d))"
      using True 1(2-5) wle by (subst write_loop.simps) (simp add: Let_def w_def[symmetric] d_def y_def)
    show ?thesis
    proof (cases "socks_recv_buf_sent y < socks_recv_buf_used y")
      case more: True
      have "\<exists>e ds. write_loop lw (n + nat w) y = Inr (e, y\<lparr>socks_recv_buf_sent := socks_recv_buf_sent y + int (length ds),
            socks_recv_tcp_pending := socks_recv_tcp_pending y + int (length ds)\<rparr>, ds)
          \<and> ds = take (length ds) (drop (nat (socks_recv_buf_sent y)) (socks_recv_buf y))
          \<and> (e = Queued \<longrightarrow> socks_recv_buf_sent y + int (length ds) = socks_recv_buf_used y)
          \<and> (e \<noteq> Queued \<longrightarrow> socks_recv_buf_sent y + int (length ds) < socks_recv_buf_used y)"
        using 1(1)[OF w_def _ _ _ d_def y_def] True more 1(2-5) by (simp add: y_def w_def)
      then obtain e ds where r: "write_loop lw (n + nat w) y = Inr (e, y\<lparr>socks_recv_buf_sent := socks_recv_buf_sent y + int (length ds),
            socks_recv_tcp_pending := socks_recv_tcp_pending y + int (length ds)\<rparr>, ds)"
          "ds = take (length ds) (drop (nat (socks_recv_buf_sent y)) (socks_recv_buf y))"
          "e = Queued \<longrightarrow> socks_recv_buf_sent y + int (length ds) = socks_recv_buf_used y"
          "e \<noteq> Queued \<longrightarrow> socks_recv_buf_sent y + int (length ds) < socks_recv_buf_used y" by blast
      have "nat (socks_recv_buf_sent y) = nat (socks_recv_buf_sent x) + length d" using 1(3) ld True by (simp add: y_def nat_add_distrib)
      then have "ds = take (length ds) (drop (length d) (drop (nat (socks_recv_buf_sent x)) (socks_recv_buf x)))"
        using r(2) by (simp add: y_def add.commute)
      moreover have "d = take (length d) (drop (nat (socks_recv_buf_sent x)) (socks_recv_buf x))" using ld unfolding d_def by simp
      ultimately have ap: "d @ ds = take (length (d @ ds)) (drop (nat (socks_recv_buf_sent x)) (socks_recv_buf x))"
        unfolding length_append take_add by metis
      have "write_loop lw n x = Inr (e, x\<lparr>socks_recv_buf_sent := socks_recv_buf_sent x + int (length (d @ ds)),
          socks_recv_tcp_pending := socks_recv_tcp_pending x + int (length (d @ ds))\<rparr>, d @ ds)"
        using call more r(1) ld by (simp add: y_def add.assoc)
      moreover have "(e = Queued \<longrightarrow> socks_recv_buf_sent x + int (length (d @ ds)) = socks_recv_buf_used x)
          \<and> (e \<noteq> Queued \<longrightarrow> socks_recv_buf_sent x + int (length (d @ ds)) < socks_recv_buf_used x)"
        using r(3,4) ld by (simp add: y_def add.assoc)
      ultimately show ?thesis using ap by blast
    next
      case False
      then have "socks_recv_buf_sent x + int (length d) = socks_recv_buf_used x" using wle ld by (simp add: y_def)
      moreover have "write_loop lw n x = Inr (Queued, x\<lparr>socks_recv_buf_sent := socks_recv_buf_sent x + int (length d),
          socks_recv_tcp_pending := socks_recv_tcp_pending x + int (length d)\<rparr>, d)" using False call ld by (simp add: y_def)
      moreover have "d = take (length d) (drop (nat (socks_recv_buf_sent x)) (socks_recv_buf x))" using ld unfolding d_def by simp
      ultimately show ?thesis by blast
    qed
  qed
qed

definition unsent :: "tcp_client \<Rightarrow> byte list" where
  "unsent x = (if socks_recv_buf_used x > 0 then drop (nat (socks_recv_buf_sent x)) (take (nat (socks_recv_buf_used x)) (socks_recv_buf x)) else [])"

definition hist_inv :: "tcp_client \<Rightarrow> traffic \<Rightarrow> bool" where
  "hist_inv x h \<longleftrightarrow> (\<exists>rest. from_client h = to_socks h @ rest) \<and> (\<exists>rest. from_socks h = to_client h @ rest)
     \<and> (allocated x \<longrightarrow> from_client h = to_socks h @ take (buf_used x) (buf x))
     \<and> (allocated x \<and> socks_up x \<and> \<not> client_closed x \<longrightarrow> from_socks h = to_client h @ unsent x)
     \<and> (allocated x \<and> \<not> socks_up x \<longrightarrow> from_socks h = [] \<and> to_client h = [])"

lemma settled_hist: "settled c g (Inr g') \<Longrightarrow> allocated (clients g c) \<Longrightarrow> hist_inv (clients g c) h \<Longrightarrow> hist_inv (clients g' c) h"
  by (auto simp: settled_def hist_inv_def unsent_def)

text \<open>A client with data to write to it.\<close>

definition outgoing :: "tcp_client \<Rightarrow> bool" where
  "outgoing x \<longleftrightarrow> memory_part x \<and> buf_used x \<le> TCP_WND \<and> pcb_part x \<and> op_part x \<and> (\<not> socks_closed x \<longrightarrow> conversing x)
     \<and> \<not> client_closed x \<and> socks_up x \<and> 0 \<le> socks_recv_buf_sent x \<and> socks_recv_buf_sent x < socks_recv_buf_used x
     \<and> socks_recv_buf_used x \<le> int CLIENT_SOCKS_RECV_BUF_SIZE \<and> \<not> socks_recv_waiting x \<and> socks_recv_tcp_pending x \<ge> 0"

definition written :: "byte list \<Rightarrow> tcp_client \<Rightarrow> tcp_client" where
  "written d x = x\<lparr>socks_recv_buf_sent := socks_recv_buf_sent x + int (length d), socks_recv_tcp_pending := socks_recv_tcp_pending x + int (length d)\<rparr>"

definition sent_out :: "nat \<Rightarrow> tcp_sys \<Rightarrow> (int \<times> tcp_sys \<times> byte list) run \<Rightarrow> bool" where
  "sent_out c g r \<longleftrightarrow> (\<exists>d. d = take (length d) (drop (nat (socks_recv_buf_sent (clients g c))) (socks_recv_buf (clients g c)))
     \<and> ((\<exists>g'. r = Inr (-1, g', d) \<and> socks_recv_buf_sent (written d (clients g c)) \<le> socks_recv_buf_used (clients g c)
           \<and> settled c (store c (written d (clients g c)) g) (Inr g'))
       \<or> (r = Inr (0, store c ((written d (clients g c))\<lparr>socks_recv_waiting := True\<rparr>) g, d)
           \<and> socks_recv_tcp_pending (written d (clients g c)) > 0
           \<and> socks_recv_buf_sent (written d (clients g c)) < socks_recv_buf_used (clients g c))
       \<or> (r = Inr (0, store c ((written d (clients g c))\<lparr>socks_recv_buf_used := -1\<rparr>) g, d)
           \<and> socks_recv_buf_sent (written d (clients g c)) = socks_recv_buf_used (clients g c))))"

lemma outgoing_closable:
  assumes "outgoing x"
  shows "closable (written d x)"
proof -
  have "op_part (written d x) = op_part x" "conversing (written d x) = conversing x" "memory_part (written d x) = memory_part x"
    by (simp_all add: written_def op_part_def conversing_def memory_part_def)
  then show ?thesis using assms conversing_resources[of x] unfolding closable_def
    by (auto simp: outgoing_def written_def op_part_def)
qed

lemma send_out_ok:
  assumes r: "rest_inv c g xs" and a: "allocated (clients g c)" and s: "outgoing (clients g c)"
  shows "sent_out c g (client_socks_recv_send_out c lw g)"
proof -
  let ?x = "clients g c"
  have pv: "pcb_valid ?x" using s by (auto simp: outgoing_def pcb_part_def)
  obtain e d where w: "write_loop lw 0 ?x = Inr (e, written d ?x, d)"
    and d: "d = take (length d) (drop (nat (socks_recv_buf_sent ?x)) (socks_recv_buf ?x))"
    and q: "e = Queued \<longrightarrow> socks_recv_buf_sent ?x + int (length d) = socks_recv_buf_used ?x"
      "e \<noteq> Queued \<longrightarrow> socks_recv_buf_sent ?x + int (length d) < socks_recv_buf_used ?x"
    using write_loop_ok[of ?x lw 0] s pv unfolding written_def by (auto simp: outgoing_def memory_part_def)
  let ?g = "store c (written d ?x) g"
  have ab: "settled c ?g (client_abort_client c ?g)"
    by (rule close_ok(3)[where xs = xs]) (use r a pv outgoing_closable[OF s] in \<open>simp_all add: written_def\<close>)
  then obtain g' where g': "client_abort_client c ?g = Inr g'" by (auto simp: settled_def)
  have le: "socks_recv_buf_sent (written d ?x) \<le> socks_recv_buf_used ?x" using q by (cases "e = Queued") (simp_all add: written_def)
  have fail: "sent_out c g (Inr (-1, g', d))" using d ab g' le unfolding sent_out_def by auto
  have wx: "pcb_valid (written d ?x)" "socks_recv_buf_used (written d ?x) = socks_recv_buf_used ?x" using pv by (simp_all add: written_def)
  define z where "z = written d ?x"
  have call: "client_socks_recv_send_out c lw g =
      (if e = Failed \<or> tcp_output lw \<noteq> ERR_OK then Inr (-1, g', d)
       else if socks_recv_buf_sent z < socks_recv_buf_used z
       then (if socks_recv_tcp_pending z = 0 then Inr (-1, g', d) else Inr (0, store c (z\<lparr>socks_recv_waiting := True\<rparr>) g, d))
       else Inr (0, store c (z\<lparr>socks_recv_buf_used := -1\<rparr>) g, d))"
    using a s w g' wx unfolding client_socks_recv_send_out_def z_def[symmetric] by (auto simp: outgoing_def Let_def z_def)
  have pn: "socks_recv_tcp_pending z \<ge> 0" using s by (simp add: z_def written_def outgoing_def)
  have wait: "sent_out c g (Inr (0, store c (z\<lparr>socks_recv_waiting := True\<rparr>) g, d))"
    if "socks_recv_buf_sent z < socks_recv_buf_used z" "socks_recv_tcp_pending z \<noteq> 0"
    using d that pn wx(2) unfolding sent_out_def z_def by auto
  have all: "sent_out c g (Inr (0, store c (z\<lparr>socks_recv_buf_used := -1\<rparr>) g, d))" if "\<not> socks_recv_buf_sent z < socks_recv_buf_used z"
    using d that le wx(2) unfolding sent_out_def z_def by auto
  show ?thesis unfolding call using fail wait all by (simp split: if_splits)
qed

end
