(* ===== verification/TcpRelay.thy ===== *)
theory TcpRelay
  imports TcpInv
begin

text \<open>
  Every event of the TCP connections keeps the invariant; the properties of the reachable states; a concrete connection.
\<close>

section \<open>Every event is handled\<close>

text \<open>
  The result of handling an event of the client at \<open>c\<close>; \<open>h\<close> is what has passed through it then, by what the handler returns
  and writes.
\<close>

definition fine :: "nat \<Rightarrow> tcp_sys \<Rightarrow> (err \<Rightarrow> byte list \<Rightarrow> traffic) \<Rightarrow> (err \<times> tcp_sys \<times> byte list) run \<Rightarrow> bool" where
  "fine c g h r \<longleftrightarrow> (\<exists>e g' ds. r = Inr (e, g', ds) \<and> sys_inv g' \<and> log_info g' = log_info g
     \<and> (\<forall>c'. c' \<noteq> c \<longrightarrow> clients g' c' = clients g c') \<and> hist_inv (clients g' c) (h e ds))"

lemma fine_settled:
  assumes "settled c (store c x g) r" and "allocated x" and "hist_inv x (h e ds)"
  shows "fine c g h (bindE r (\<lambda>g. Inr (e, g, ds)))"
proof -
  obtain g' xs where g': "r = Inr g'" "rest_inv c g' xs" "one_inv (clients g' c)" "log_info g' = log_info g"
    "\<forall>c'. c' \<noteq> c \<longrightarrow> clients g' c' = clients g c'" using assms(1) by (auto simp: settled_def)
  have "hist_inv (clients g' c) (h e ds)" using settled_hist[of c "store c x g" g'] assms g'(1) by simp
  with g' rest_sys[OF g'(2,3)] show ?thesis unfolding fine_def by auto
qed

lemma fine_store:
  assumes "rest_inv c g xs" and "allocated (clients g c)" and "allocated x" and "conn_inv x" and "hist_inv x (h e ds)"
  shows "fine c g h (Inr (e, store c x g, ds))"
proof -
  have "rest_inv c (store c x g) xs" "one_inv (clients (store c x g) c)" using assms(1-4) by (simp_all add: one_inv_def)
  from rest_sys[OF this] assms(5) show ?thesis by (simp add: fine_def)
qed

lemma store_same [simp]: "store c (clients g c) g = g"
  by (simp add: store_def)

lemma fine_from:
  "fine c (store c x g) h r \<Longrightarrow> fine c g h r"
  by (auto simp: fine_def)

lemma conn_parts:
  assumes "conn_inv x"
  shows "memory_part x" "buf_used x \<le> TCP_WND" "pcb_part x" "recv_part x" "op_part x" "\<not> socks_closed x \<Longrightarrow> conversing x"
    "socks_closed x \<Longrightarrow> socks_up x \<and> \<not> client_closed x \<and> socks_recv_tcp_pending x > 0" "client_closed x \<Longrightarrow> buf_used x > 0"
  using assms by (simp_all add: conn_inv_def)

text \<open>An event that can occur is about an allocated client.\<close>

lemma event_conn:
  assumes "one_inv x" and "pcb_valid x \<or> \<not> socks_closed x \<or> send_op x \<noteq> None \<or> recv_op x"
  shows "allocated x" and "conn_inv x"
  using assms by (auto simp: one_inv_def free_inv_def split: if_splits)

lemma client_err_fine:
  assumes "rest_inv c g xs" and "one_inv (clients g c)" and "pcb_valid (clients g c)" and "hist_inv (clients g c) (h ERR_OK [])"
  shows "fine c g h (tcp_step al (ClientErr c) g)"
proof -
  have a: "allocated (clients g c)" "conn_inv (clients g c)" using event_conn[OF assms(2)] assms(3) by auto
  then have n: "\<not> client_closed (clients g c)" using assms(3) by (auto simp: conn_inv_def pcb_part_def)
  have "settled c (store c (clients g c) g) (client_handle_freed_client c (store c (drop_pcb (clients g c)) g))"
    using close_ok(1)[OF assms(1) a(1) conn_closable[OF a(2) n]] by simp
  from fine_settled[where h = h, OF this a(1) assms(4)] show ?thesis using a n by (simp add: client_err_func_def)
qed

lemma client_recv_fine:
  assumes r: "rest_inv c g xs" and one: "one_inv (clients g c)" and pv: "pcb_valid (clients g c)" and rf: "recv_func (clients g c)"
    and p: "p \<noteq> Some []" and hi: "hist_inv (clients g c) k"
    and h: "h = (\<lambda>e ds. case p of None \<Rightarrow> k | Some d \<Rightarrow> if e = ERR_MEM then k else k\<lparr>from_client := from_client k @ d\<rparr>)"
  shows "fine c g h (tcp_step al (ClientRecv c p) g)"
proof -
  let ?x = "clients g c"
  have a: "allocated ?x" "conn_inv ?x" using event_conn[OF one] pv by auto
  note i = conn_parts[OF a(2)]
  have n: "\<not> client_closed ?x" "\<not> socks_closed ?x" using rf i(3) by (auto simp: pcb_part_def)
  show ?thesis
  proof (cases p)
    case None
    have "settled c (store c ?x g) (client_free_client c g)" using close_ok(2)[OF r a(1) conn_closable[OF a(2) n(1)] pv] by simp
    from fine_settled[where h = h and e = ERR_ABRT and ds = "[]", OF this a(1)] hi h None show ?thesis
      using a n by (simp add: client_recv_func_def bindE_assoc)
  next
    case (Some d)
    show ?thesis
    proof (cases "length d > TCP_WND - buf_used ?x")
      case True
      then show ?thesis using fine_store[where h = h and e = ERR_MEM and ds = "[]", OF r a(1,1,2)] hi h Some p a n
        by (simp add: client_recv_func_def)
    next
      case False
      define y where "y = ?x\<lparr>buf := write_at (buf_used ?x) d (buf ?x), buf_used := buf_used ?x + length d,
        send_op := (if buf_used ?x = 0 \<and> socks_up ?x then Some (length d) else send_op ?x)\<rparr>"
      have fits: "buf_used ?x + length d \<le> length (buf ?x)" using False i(1,2) by (simp add: memory_part_def)
      have d0: "0 < length d" using p Some by simp
      have so: "send_op ?x = None \<longleftrightarrow> \<not> (socks_up ?x \<and> buf_used ?x > 0)" using i(5) n by (auto simp: op_part_def)
      have "tcp_step al (ClientRecv c p) g = Inr (ERR_OK, store c y g, [])"
        using Some d0 a n False fits so by (auto simp: client_recv_func_def Let_def client_send_to_socks_def sender_send_def y_def)
      moreover have "memory_part y" "buf_used y \<le> TCP_WND" "pcb_part y" "recv_part y" "conversing y"
        using i n fits False by (simp_all add: y_def memory_part_def pcb_part_def recv_part_def conversing_def)
      moreover have "op_part y" using i(5) so d0 n by (auto simp: y_def op_part_def)
      moreover have "client_closed y = False" "socks_closed y = False" using n by (simp_all add: y_def)
      ultimately have "tcp_step al (ClientRecv c p) g = Inr (ERR_OK, store c y g, [])" "conn_inv y" by (simp_all add: conn_inv_def)
      moreover have "allocated y" using a by (simp add: y_def)
      moreover have "hist_inv y (h ERR_OK [])"
        using hi h Some a take_write_at_end[OF fits] by (auto simp: hist_inv_def y_def unsent_def)
      ultimately show ?thesis using fine_store[OF r a(1)] by simp
    qed
  qed
qed

lemma sender_fine:
  assumes r: "rest_inv c g xs" and one: "one_inv (clients g c)" and op: "send_op (clients g c) = Some m" and n: "0 < n" "n \<le> m"
    and hi: "hist_inv (clients g c) k" and h: "h ERR_OK [] = k\<lparr>to_socks := to_socks k @ take n (buf (clients g c))\<rparr>"
  shows "fine c g h (tcp_step al (SocksSendDone c n) g)"
proof -
  let ?x = "clients g c"
  have a: "allocated ?x" "conn_inv ?x" using event_conn[OF one] op by auto
  note i = conn_parts[OF a(2)]
  have o: "\<not> socks_closed ?x" "socks_up ?x" "m \<le> buf_used ?x" using i(5) op by (auto simp: op_part_def)
  have fits: "buf_used ?x \<le> length (buf ?x)" using i(1,2) by (simp add: memory_part_def)
  define b where "b = write_at 0 (take (buf_used ?x - n) (drop n (buf ?x))) (buf ?x)"
  define y where "y = ?x\<lparr>send_op := None, buf := b, buf_used := buf_used ?x - n\<rparr>"
  have lb: "length b = length (buf ?x)" using fits by (simp add: b_def)
  have tb: "take (buf_used ?x - n) b = take (buf_used ?x - n) (drop n (buf ?x))"
    using fits take_write_at_0[of "take (buf_used ?x - n) (drop n (buf ?x))" "buf ?x"] by (simp add: b_def min_absorb2)
  have move: "take n (buf ?x) @ take (buf_used ?x - n) b = take (buf_used ?x) (buf ?x)"
    using tb n o(3) take_add[of n "buf_used ?x - n" "buf ?x"] by simp
  have pv: "client_closed ?x \<or> pcb_valid ?x" using i(3) by (auto simp: pcb_part_def)
  have call: "tcp_step al (SocksSendDone c n) g = bindE
      (if buf_used y > 0 then Inr (store c (y\<lparr>send_op := Some (buf_used y)\<rparr>) g)
       else if client_closed y then client_free_socks c (store c y g) else Inr (store c y g)) (\<lambda>g. Inr (ERR_OK, g, []))"
    using a o n fits pv by (simp add: client_socks_send_handler_done_def sender_send_def Let_def y_def b_def)
  have parts: "memory_part y" "buf_used y \<le> TCP_WND" "pcb_part y" "recv_part y" "conversing y"
    using i o lb by (simp_all add: y_def memory_part_def pcb_part_def recv_part_def conversing_def)
  have hy: "hist_inv y (h ERR_OK [])" "hist_inv (y\<lparr>send_op := q\<rparr>) (h ERR_OK [])" for q
    using hi h move a by (auto simp: hist_inv_def y_def unsent_def)
  have ay: "allocated y" "allocated (y\<lparr>send_op := q\<rparr>)" for q using a by (simp_all add: y_def)
  consider (more) "buf_used y > 0" | (last) "buf_used y = 0" "client_closed y" | (empty) "buf_used y = 0" "\<not> client_closed y" by auto
  then show ?thesis
  proof cases
    case more
    have "op_part (y\<lparr>send_op := Some (buf_used y)\<rparr>)" using i(5) more o by (auto simp: y_def op_part_def)
    then have "conn_inv (y\<lparr>send_op := Some (buf_used y)\<rparr>)" using parts more o
      by (simp add: conn_inv_def memory_part_def pcb_part_def recv_part_def conversing_def y_def)
    from fine_store[where h = h, OF r a(1) ay(2) this hy(2)] call more show ?thesis by simp
  next
    case last
    have "settled c (store c y g) (client_free_socks c (store c y g))"
      by (rule socks_end_ok[where xs = xs]) (use r a ay o parts conversing_resources[OF parts(5)] in \<open>simp_all add: y_def\<close>)
    from fine_settled[where h = h, OF this ay(1) hy(1)] call last show ?thesis by simp
  next
    case empty
    have "op_part y" using i(5) empty o by (auto simp: y_def op_part_def)
    then have "conn_inv y" using parts empty o by (simp add: conn_inv_def y_def)
    from fine_store[where h = h, OF r a(1) ay(1) this hy(1)] call empty show ?thesis by simp
  qed
qed

text \<open>After data has been written to the client.\<close>

lemma outgoing_waits:
  assumes "outgoing x" and "socks_recv_tcp_pending (written d x) > 0" and "socks_recv_buf_sent (written d x) < socks_recv_buf_used x"
  shows "conn_inv ((written d x)\<lparr>socks_recv_waiting := True\<rparr>)"
  using assms by (auto simp: outgoing_def written_def conn_inv_def memory_part_def pcb_part_def recv_part_def op_part_def conversing_def)

lemma outgoing_receives:
  assumes "outgoing x" and "socks_recv_buf_sent (written d x) = socks_recv_buf_used x" and "b = (\<not> socks_closed x)"
  shows "conn_inv ((written d x)\<lparr>socks_recv_buf_used := -1, recv_op := b\<rparr>)" and "socks_recv_tcp_pending (written d x) > 0"
  using assms by (auto simp: outgoing_def written_def conn_inv_def memory_part_def pcb_part_def recv_part_def op_part_def conversing_def)

lemma outgoing_recv_op: "outgoing x \<Longrightarrow> \<not> recv_op x"
  by (auto simp: outgoing_def op_part_def)

lemma unsent_written:
  assumes "d = take (length d) (drop (nat (socks_recv_buf_sent x)) (socks_recv_buf x))"
    and "socks_recv_buf_sent (written d x) \<le> socks_recv_buf_used x" and "outgoing x"
  shows "d @ unsent (written d x) = unsent x"
    and "socks_recv_buf_sent (written d x) = socks_recv_buf_used x \<Longrightarrow> d = unsent x"
proof -
  define s u where "s = nat (socks_recv_buf_sent x)" and "u = nat (socks_recv_buf_used x)"
  have s: "nat (socks_recv_buf_sent x + int (length d)) = length d + s" using assms(3) unfolding outgoing_def s_def by linarith
  have le: "length d \<le> u - s" using assms(2,3) by (auto simp: written_def outgoing_def s_def u_def)
  have "take (length d) (drop s (take u (socks_recv_buf x))) = take (length d) (drop s (socks_recv_buf x))"
    using le by (simp add: drop_take min_absorb1)
  then have "d = take (length d) (drop s (take u (socks_recv_buf x)))" using assms(1) by (simp add: s_def)
  moreover have "0 < socks_recv_buf_used x" using assms(3) by (simp add: outgoing_def)
  ultimately show eq: "d @ unsent (written d x) = unsent x"
    using append_take_drop_id[of "length d" "drop s (take u (socks_recv_buf x))"]
    by (simp add: unsent_def written_def s s_def[symmetric] u_def[symmetric])
  assume "socks_recv_buf_sent (written d x) = socks_recv_buf_used x"
  then have "unsent (written d x) = []" by (simp add: unsent_def written_def)
  with eq show "d = unsent x" by simp
qed

lemma written_hist:
  assumes "d = take (length d) (drop (nat (socks_recv_buf_sent x)) (socks_recv_buf x))" and "outgoing x" and "hist_inv x k"
    and "allocated x" and "k' = k\<lparr>to_client := to_client k @ d\<rparr>"
  shows "socks_recv_buf_sent (written d x) \<le> socks_recv_buf_used x \<Longrightarrow> hist_inv (written d x) k'"
    and "socks_recv_buf_sent (written d x) < socks_recv_buf_used x \<Longrightarrow> hist_inv ((written d x)\<lparr>socks_recv_waiting := True\<rparr>) k'"
    and "socks_recv_buf_sent (written d x) = socks_recv_buf_used x \<Longrightarrow> hist_inv ((written d x)\<lparr>socks_recv_buf_used := -1, recv_op := b\<rparr>) k'"
proof -
  have fs: "from_socks k = to_client k @ unsent x" using assms(2-4) by (auto simp: hist_inv_def outgoing_def)
  show w: "hist_inv (written d x) k'" if "socks_recv_buf_sent (written d x) \<le> socks_recv_buf_used x"
  proof -
    have "from_socks k = (to_client k @ d) @ unsent (written d x)" using unsent_written(1)[OF assms(1) that assms(2)] fs by simp
    moreover have "allocated (written d x)" "socks_up (written d x)" "\<not> client_closed (written d x)"
      "buf (written d x) = buf x" "buf_used (written d x) = buf_used x" using assms(2,4) by (simp_all add: written_def outgoing_def)
    ultimately show ?thesis using assms(3-5) by (simp add: hist_inv_def)
  qed
  show "hist_inv ((written d x)\<lparr>socks_recv_waiting := True\<rparr>) k'" if "socks_recv_buf_sent (written d x) < socks_recv_buf_used x"
    using w that by (simp add: hist_inv_def unsent_def)
  show "hist_inv ((written d x)\<lparr>socks_recv_buf_used := -1, recv_op := b\<rparr>) k'" if "socks_recv_buf_sent (written d x) = socks_recv_buf_used x"
    using unsent_written(2)[OF assms(1) _ assms(2)] that fs assms(2-5)
    by (auto simp: hist_inv_def outgoing_def written_def unsent_def)
qed

text \<open>Both handlers that write to the client go on in the same way.\<close>

lemma sent_out_fine:
  assumes r: "rest_inv c g xs" and a: "allocated (clients g c)" and s: "outgoing (clients g c)" and hi: "hist_inv (clients g c) k"
    and h: "\<And>e d. h e d = k\<lparr>to_client := to_client k @ d\<rparr>"
    and fail: "\<And>g' d. log_info g' = log_info g \<Longrightarrow> f (-1, g', d) = Inr (e1, g', d)"
    and wait: "\<And>d. socks_recv_tcp_pending (written d (clients g c)) > 0 \<Longrightarrow>
      f (0, store c ((written d (clients g c))\<lparr>socks_recv_waiting := True\<rparr>) g, d)
      = Inr (e2, store c ((written d (clients g c))\<lparr>socks_recv_waiting := True\<rparr>) g, d)"
    and all: "\<And>d. socks_recv_tcp_pending (written d (clients g c)) > 0 \<Longrightarrow>
      f (0, store c ((written d (clients g c))\<lparr>socks_recv_buf_used := -1\<rparr>) g, d)
      = Inr (e2, store c ((written d (clients g c))\<lparr>socks_recv_buf_used := -1, recv_op := (\<not> socks_closed (clients g c))\<rparr>) g, d)"
  shows "fine c g h (bindE (client_socks_recv_send_out c lw g) f)"
proof -
  let ?x = "clients g c"
  have aw: "allocated (written d ?x)" for d using a by (simp add: written_def)
  obtain d where d: "d = take (length d) (drop (nat (socks_recv_buf_sent ?x)) (socks_recv_buf ?x))"
    and res: "(\<exists>g'. client_socks_recv_send_out c lw g = Inr (-1, g', d) \<and> socks_recv_buf_sent (written d ?x) \<le> socks_recv_buf_used ?x
           \<and> settled c (store c (written d ?x) g) (Inr g'))
       \<or> (client_socks_recv_send_out c lw g = Inr (0, store c ((written d ?x)\<lparr>socks_recv_waiting := True\<rparr>) g, d)
           \<and> socks_recv_tcp_pending (written d ?x) > 0 \<and> socks_recv_buf_sent (written d ?x) < socks_recv_buf_used ?x)
       \<or> (client_socks_recv_send_out c lw g = Inr (0, store c ((written d ?x)\<lparr>socks_recv_buf_used := -1\<rparr>) g, d)
           \<and> socks_recv_buf_sent (written d ?x) = socks_recv_buf_used ?x)"
    using send_out_ok[OF r a s, of lw] unfolding sent_out_def by blast
  note wh = written_hist[OF d s hi a h]
  from res show ?thesis
  proof (elim disjE exE conjE)
    fix g' assume c1: "client_socks_recv_send_out c lw g = Inr (-1, g', d)" "socks_recv_buf_sent (written d ?x) \<le> socks_recv_buf_used ?x"
      "settled c (store c (written d ?x) g) (Inr g')"
    from c1(3) have "log_info g' = log_info g" by (auto simp: settled_def)
    with fine_settled[where h = h and e = e1 and ds = d, OF c1(3) aw wh(1)[OF c1(2)]] c1(1) fail show ?thesis by simp
  next
    assume c2: "client_socks_recv_send_out c lw g = Inr (0, store c ((written d ?x)\<lparr>socks_recv_waiting := True\<rparr>) g, d)"
      "socks_recv_tcp_pending (written d ?x) > 0" "socks_recv_buf_sent (written d ?x) < socks_recv_buf_used ?x"
    have "fine c g h (Inr (e2, store c ((written d ?x)\<lparr>socks_recv_waiting := True\<rparr>) g, d))"
      by (rule fine_store[where h = h, OF r a _ outgoing_waits[OF s c2(2,3)] wh(2)[OF c2(3)]]) (use a in \<open>simp add: written_def\<close>)
    with c2(1) wait[OF c2(2)] show ?thesis by simp
  next
    assume c3: "client_socks_recv_send_out c lw g = Inr (0, store c ((written d ?x)\<lparr>socks_recv_buf_used := -1\<rparr>) g, d)"
      "socks_recv_buf_sent (written d ?x) = socks_recv_buf_used ?x"
    note ci = outgoing_receives[OF s c3(2) refl]
    have "fine c g h (Inr (e2, store c ((written d ?x)\<lparr>socks_recv_buf_used := -1, recv_op := (\<not> socks_closed ?x)\<rparr>) g, d))"
      by (rule fine_store[where h = h, OF r a _ ci(1) wh(3)[OF c3(2)]]) (use a in \<open>simp add: written_def\<close>)
    with c3(1) all[OF ci(2)] show ?thesis by simp
  qed
qed

lemma recv_op_same: "\<not> recv_op x \<Longrightarrow> x\<lparr>recv_op := False\<rparr> = x"
  by simp

lemma client_sent_fine:
  assumes r: "rest_inv c g xs" and one: "one_inv (clients g c)" and pv: "pcb_valid (clients g c)" and sf: "sent_func (clients g c)"
    and l: "0 < len" "int len \<le> socks_recv_tcp_pending (clients g c)" and hi: "hist_inv (clients g c) k"
    and h: "\<And>e d. h e d = k\<lparr>to_client := to_client k @ d\<rparr>"
  shows "fine c g h (tcp_step al (ClientSent c lw len) g)"
proof -
  let ?x = "clients g c"
  have a: "allocated ?x" "conn_inv ?x" using event_conn[OF one] pv by auto
  note i = conn_parts[OF a(2)]
  have u: "socks_up ?x" "\<not> client_closed ?x" using sf i(3) by (auto simp: pcb_part_def)
  define y where "y = ?x\<lparr>socks_recv_tcp_pending := socks_recv_tcp_pending ?x - int len\<rparr>"
  have ay: "allocated y" using a by (simp add: y_def)
  have ry: "rest_inv c (store c y g) xs" using r a by (simp add: y_def)
  have hk: "h e [] = k" for e by (simp add: h)
  have hy: "hist_inv y k" using hi by (simp add: y_def hist_inv_def unsent_def)
  show ?thesis
  proof (cases "socks_recv_buf_used ?x > 0")
    case True
    let ?z = "y\<lparr>socks_recv_waiting := False\<rparr>"
    have w: "socks_recv_waiting ?x" "0 \<le> socks_recv_buf_sent ?x" "socks_recv_buf_sent ?x < socks_recv_buf_used ?x"
      "socks_recv_buf_used ?x \<le> int CLIENT_SOCKS_RECV_BUF_SIZE" "socks_recv_buf_used ?x \<noteq> -1" using i(4) u True by (auto simp: recv_part_def)
    have "outgoing ?z" using i u w l by (auto simp: outgoing_def y_def memory_part_def pcb_part_def op_part_def conversing_def)
    moreover have "hist_inv ?z k" using hi by (simp add: y_def hist_inv_def unsent_def)
    moreover have "rest_inv c (store c ?z g) xs" "allocated ?z" using r a by (simp_all add: y_def)
    moreover have "tcp_step al (ClientSent c lw len) g = bindE (client_socks_recv_send_out c lw (store c ?z g)) (\<lambda>(r, g, d).
        if r < 0 then Inr (ERR_ABRT, g, d)
        else bindE (deref c g) (\<lambda>x. bindE (guardE (socks_recv_tcp_pending x > 0) AssertFailed) (\<lambda>_.
              if socks_recv_buf_used x = -1 \<and> \<not> socks_closed x
              then bindE (client_socks_recv_initiate c g) (\<lambda>g. Inr (ERR_OK, g, d)) else Inr (ERR_OK, g, d))))"
      using w True a u l by (simp add: client_sent_func_def Let_def y_def)
    moreover have "\<not> recv_op ?x" using i(5) w(5) by (auto simp: op_part_def)
    ultimately show ?thesis using a u w
      by (intro fine_from[of c ?z g]) (auto intro!: sent_out_fine[where k = k and xs = xs] simp: h written_def client_socks_recv_initiate_def y_def recv_op_same)
  next
    case False
    then have used: "socks_recv_buf_used ?x = -1" using i(4) u by (auto simp: recv_part_def)
    show ?thesis
    proof (cases "socks_closed ?x \<and> socks_recv_tcp_pending y = 0")
      case True
      have "closable y" using conn_closable[OF a(2) u(2)] by (simp add: y_def closable_def memory_part_def conversing_def op_part_def)
      then have "settled c (store c y g) (client_free_client c (store c y g))"
        by (intro close_ok(2)[where xs = xs]) (use ry ay pv in \<open>simp_all add: y_def\<close>)
      from fine_settled[where h = h and e = ERR_ABRT and ds = "[]", OF this ay] hy hk True used a u l show ?thesis
        by (simp add: client_sent_func_def Let_def y_def)
    next
      case rest: False
      have "conn_inv y" using i u l used rest
        by (auto simp: y_def conn_inv_def memory_part_def pcb_part_def recv_part_def op_part_def conversing_def)
      from fine_store[where h = h and e = ERR_OK and ds = "[]", OF r a(1) ay this] hy hk rest used a u l show ?thesis
        by (auto simp: client_sent_func_def Let_def y_def)
    qed
  qed
qed

lemma store_eq: "store c x g = store c y g \<longleftrightarrow> x = y"
  by (metis store_simps(1))

lemma recv_done_fine:
  assumes r: "rest_inv c g xs" and one: "one_inv (clients g c)" and op: "recv_op (clients g c)" and li: "\<not> log_info g"
    and l: "0 < length d" "length d \<le> CLIENT_SOCKS_RECV_BUF_SIZE" and hi: "hist_inv (clients g c) k"
    and h: "\<And>e ds. h e ds = k\<lparr>from_socks := from_socks k @ d, to_client := to_client k @ ds\<rparr>"
  shows "fine c g h (tcp_step al (SocksRecvDone c lw d) g)"
proof -
  let ?x = "clients g c"
  have a: "allocated ?x" "conn_inv ?x" using event_conn[OF one] op by auto
  note i = conn_parts[OF a(2)]
  have u: "socks_up ?x" "socks_recv_buf_used ?x = -1" "\<not> socks_closed ?x" using i(5) op by (auto simp: op_part_def)
  have lb: "length (socks_recv_buf ?x) = CLIENT_SOCKS_RECV_BUF_SIZE" using i(1) by (simp add: memory_part_def)
  define y where "y = ?x\<lparr>recv_op := False, socks_recv_buf := write_at 0 d (socks_recv_buf ?x)\<rparr>"
  have my: "memory_part y" using i(1) l lb by (simp add: y_def memory_part_def)
  show ?thesis
  proof (cases "client_closed ?x")
    case True
    have "conn_inv y" using i u True my by (auto simp: y_def conn_inv_def memory_part_def pcb_part_def recv_part_def op_part_def conversing_def)
    moreover have "hist_inv y (h ERR_OK [])" using hi h u True by (auto simp: y_def hist_inv_def)
    moreover have "allocated y" using a by (simp add: y_def)
    moreover have "tcp_step al (SocksRecvDone c lw d) g = Inr (ERR_OK, store c y g, [])"
      using a u l True by (simp add: client_socks_recv_handler_done_def y_def)
    ultimately show ?thesis using fine_store[where h = h, OF r a(1)] by simp
  next
    case False
    define z where "z = y\<lparr>socks_recv_buf_used := int (length d), socks_recv_buf_sent := 0, socks_recv_waiting := False\<rparr>"
    have "socks_recv_tcp_pending ?x \<ge> 0" using i(4) u False by (auto simp: recv_part_def)
    then have "outgoing z" using i u my False l
      by (auto simp: z_def y_def outgoing_def memory_part_def pcb_part_def op_part_def conversing_def)
    moreover have "unsent z = d" using l take_write_at_0[of d "socks_recv_buf ?x"] lb by (simp add: unsent_def z_def y_def)
    then have "hist_inv z (k\<lparr>from_socks := from_socks k @ d\<rparr>)"
      using hi a u False by (auto simp: hist_inv_def z_def y_def unsent_def)
    moreover have "rest_inv c (store c z g) xs" "allocated z" using r a by (simp_all add: z_def y_def)
    moreover have "tcp_step al (SocksRecvDone c lw d) g = bindE (client_socks_recv_send_out c lw (store c z g)) (\<lambda>(r, g, d).
        bindE (if r < 0 then bindE (client_log c g) (\<lambda>_. Inr (g, d))
               else bindE (deref c g) (\<lambda>x. if socks_recv_buf_used x = -1 then bindE (client_socks_recv_initiate c g) (\<lambda>g. Inr (g, d))
                                           else Inr (g, d))) (\<lambda>(g, ds). Inr (ERR_OK, g, ds)))"
      using a u l False by (simp add: client_socks_recv_handler_done_def z_def y_def Let_def bindE_assoc split_def)
    moreover have "\<not> recv_op z" "socks_up z" "\<not> client_closed z" "\<not> socks_closed z" "socks_recv_buf_used z \<noteq> -1"
      using u False by (simp_all add: z_def y_def)
    ultimately show ?thesis using li
      by (intro fine_from[of c z g])
        (auto intro!: sent_out_fine[where k = "k\<lparr>from_socks := from_socks k @ d\<rparr>" and xs = xs] simp: h written_def client_socks_recv_initiate_def client_log_def)
  qed
qed

lemma socks_step_fine:
  assumes al: "mem_ok al" and r: "rest_inv c g xs" and one: "one_inv (clients g c)" and o: "\<not> socks_closed (clients g c)"
    and en: "enabled i (socks_client (clients g c))" and hi: "hist_inv (clients g c) (h ERR_OK [])"
  shows "fine c g h (tcp_step al (SocksStep c i) g)"
proof -
  let ?x = "clients g c" and ?s = "socks_client (clients g c)"
  have a: "allocated ?x" "conn_inv ?x" using event_conn[OF one] o by auto
  note p = conn_parts[OF a(2)]
  obtain c0 where c0: "wf_client c0" "socks_inv c0 ?s" "alive ?s" "socks_up ?x \<longleftrightarrow> BSocksClient.state (cl ?s) = UP"
    using p(6) o by (auto simp: conversing_def)
  obtain s' where s': "respond al i ?s = Inr s'" "socks_inv c0 s'" using socks_step[OF al c0(1,2) en] by (auto simp: good_step_def)
  define y where "y = ?x\<lparr>socks_client := s'\<rparr>"
  have step: "tcp_step al (SocksStep c i) g = bindE (client_events c (drop (length (evs ?s)) (evs s')) (store c y g)) (\<lambda>g. Inr (ERR_OK, g, []))"
    using s'(1) by (simp add: y_def)
  have parts: "memory_part y" "buf_used y \<le> TCP_WND" "pcb_part y" "recv_part y" "op_part y"
  proof -
    have "memory_part y = memory_part ?x" "pcb_part y = pcb_part ?x" "recv_part y = recv_part ?x" "op_part y = op_part ?x"
      by (simp_all add: y_def memory_part_def pcb_part_def recv_part_def op_part_def)
    then show "memory_part y" "pcb_part y" "recv_part y" "op_part y" using p(1,3-5) by simp_all
    show "buf_used y \<le> TCP_WND" using p(2) by (simp add: y_def)
  qed
  have ay: "allocated y" "\<not> socks_closed y" "client_closed y \<longrightarrow> buf_used y > 0" using a o p(8) by (auto simp: y_def)
  have hy: "hist_inv y (h ERR_OK [])" using hi by (simp add: y_def hist_inv_def unsent_def)
  show ?thesis
  proof (rule socks_reports[OF c0(2,3) s'(2,1)])
    assume e: "evs s' = evs ?s" "alive s'" "BSocksClient.state (cl s') = UP \<longleftrightarrow> BSocksClient.state (cl ?s) = UP"
    have "conversing y" using c0 s'(2) e unfolding conversing_def by (auto simp: y_def)
    then have "conn_inv y" using parts ay by (simp add: conn_inv_def)
    from fine_store[where h = h, OF r a(1) ay(1) this hy] step e(1) show ?thesis by simp
  next
    assume e: "evs s' = evs ?s @ [EVENT_UP]" "alive s'" "BSocksClient.state (cl s') = UP" "BSocksClient.state (cl ?s) \<noteq> UP"
    define z where "z = y\<lparr>send_op := (if buf_used y > 0 then Some (buf_used y) else None), recv_op := (\<not> client_closed y),
      socks_recv_buf_used := -1, socks_recv_tcp_pending := 0, sent_func := (\<not> client_closed y), socks_up := True\<rparr>"
    have nu: "\<not> socks_up ?x" using e(4) c0(4) by simp
    then have "\<not> sent_func ?x" "pcb_valid ?x \<longleftrightarrow> \<not> client_closed ?x" using p(3) by (auto simp: pcb_part_def)
    then have "client_events c [EVENT_UP] (store c y g) = Inr (store c z g)"
      using ay nu by (auto simp: client_socks_handler_def client_send_to_socks_def sender_send_def client_socks_recv_initiate_def
          Let_def z_def y_def store_eq)
    moreover have "conversing z" using c0 s'(2) e unfolding conversing_def by (auto simp: z_def y_def)
    then have "conn_inv z" using parts ay by (auto simp: z_def conn_inv_def memory_part_def pcb_part_def recv_part_def op_part_def)
    moreover have "hist_inv z (h ERR_OK [])" using hy nu by (auto simp: z_def y_def hist_inv_def unsent_def)
    moreover have "allocated z" using ay by (simp add: z_def)
    ultimately show ?thesis using fine_store[where h = h and e = ERR_OK and ds = "[]", OF r a(1)] step e(1) by simp
  next
    fix e assume e: "evs s' = evs ?s @ [e]" "e = EVENT_ERROR \<or> e = EVENT_ERROR_CLOSED"
    have "settled c (store c y g) (client_free_socks c (store c y g))"
      by (rule socks_end_ok[where xs = xs]) (use r a ay parts s'(2) in \<open>simp_all add: y_def socks_inv_def\<close>)
    from fine_settled[where h = h, OF this ay(1) hy]
    have "fine c g h (bindE (client_free_socks c (store c y g)) (\<lambda>g. Inr (ERR_OK, g, [])))" .
    moreover have "e = EVENT_ERROR_CLOSED \<Longrightarrow> socks_up y"
      using c0(2-4) s'(2) e by (auto simp: socks_inv_def y_def up_events_def alive_def split: if_splits)
    then have "client_events c [e] (store c y g) = bindE (client_free_socks c (store c y g)) (client_events c [])"
      using e(2) ay by (auto simp: client_socks_handler_def)
    moreover have "client_events c [] = Inr" by (rule ext) simp
    ultimately show ?thesis using step e(1) by (simp add: bindE_assoc)
  qed
qed

text \<open>A step that is allowed, with what has passed through the connections.\<close>

definition tcp_good :: "memory \<Rightarrow> tcp_event \<Rightarrow> tcp_sys \<Rightarrow> (nat \<Rightarrow> traffic) \<Rightarrow> bool" where
  "tcp_good al e g H \<longleftrightarrow> (\<exists>r g' ds. tcp_step al e g = Inr (r, g', ds) \<and> sys_inv g' \<and> log_info g' = log_info g
     \<and> (\<forall>c. hist_inv (clients g' c) (count e g r ds H c)))"

lemma fine_good:
  assumes "fine c g h (tcp_step al e g)" and "\<And>r ds. count e g r ds H = H(c := h r ds)" and "\<forall>c. hist_inv (clients g c) (H c)"
  shows "tcp_good al e g H"
proof -
  obtain r g' ds where s: "tcp_step al e g = Inr (r, g', ds)" "sys_inv g'" "log_info g' = log_info g"
    "\<forall>c'. c' \<noteq> c \<longrightarrow> clients g' c' = clients g c'" "hist_inv (clients g' c) (h r ds)" using assms(1) by (auto simp: fine_def)
  have "hist_inv (clients g' c') (count e g r ds H c')" for c'
    using s(4,5) assms(2,3) by (cases "c' = c") simp_all
  with s show ?thesis unfolding tcp_good_def by blast
qed

lemma accept_good:
  assumes inv: "sys_inv g" and hi: "\<forall>c. hist_inv (clients g c) (H c)" and legal: "tcp_legal (Accept malloc auth addr ok) g"
  shows "tcp_good al (Accept malloc auth addr ok) g H"
proof (cases malloc)
  case None
  with inv hi show ?thesis by (simp add: tcp_good_def listener_accept_func_def)
next
  case (Some c)
  have na: "\<not> allocated (clients g c)" and wa: "BSocksClient.wf_addr addr"
    and au: "\<forall>ai \<in> set auth. auth_type ai = METHOD_NONE \<or> auth_type ai = METHOD_PASSWORD" using legal Some by auto
  have hn: "hist_inv x ((H(c := \<lparr>from_client = [], to_socks = [], from_socks = [], to_client = []\<rparr>)) c)"
    if "allocated x \<Longrightarrow> buf_used x = 0 \<and> \<not> socks_up x" for x using that by (auto simp: hist_inv_def)
  obtain r where r: "BSocksClient_Init ok auth addr = Inr r" "ok \<longleftrightarrow> r \<noteq> None"
    using wa au by (cases addr; cases ok) (auto simp: BSocksClient_Init_def BSocksClient.wf_addr_def)
  show ?thesis
  proof (cases r)
    case None
    with r(1) Some inv hi hn[of "clients g c"] na show ?thesis by (auto simp: tcp_good_def listener_accept_func_def)
  next
    case s: (Some s)
    obtain xs where xs: "rest_inv c g xs" using sys_rest[OF inv] by blast
    define x where "x = (clients g c)\<lparr>allocated := True, socks_client := socks_start s, pcb_valid := True, client_closed := False,
      err_func := True, recv_func := True, sent_func := False, buf_used := 0, socks_up := False, socks_closed := False,
      send_op := None, recv_op := False\<rparr>"
    let ?g = "(store c x g)\<lparr>tcp_clients := LinkedList1_Append c (tcp_clients g), num_clients := num_clients g + 1\<rparr>"
    note si = start_inv[OF r(1)[unfolded s] wa]
    have "BSocksClient.state s = CONNECTING" using r(1) s by (auto simp: BSocksClient_Init_def guardE_def split: if_splits)
    moreover have "one_inv (clients g c)" using inv by (simp add: sys_inv_def)
    then have "memory_part (clients g c)" using na by (simp add: one_inv_def free_inv_def)
    ultimately have "memory_part (clients g c)" "conversing x"
      using si(1,2) unfolding conversing_def by (auto simp: x_def socks_start_def alive_def)
    then have "one_inv x"
      by (simp add: one_inv_def conn_inv_def memory_part_def pcb_part_def recv_part_def op_part_def x_def)
    have cn: "c \<notin> set xs" using xs na by (simp add: rest_inv_def)
    have "ll_rep (tcp_clients ?g) (xs @ [c])" using Append_rep[OF _ cn] xs by (simp add: rest_inv_def)
    moreover have "\<forall>c'. allocated (clients ?g c') \<longleftrightarrow> c' \<in> set (xs @ [c])" using xs by (simp add: rest_inv_def store_def x_def)
    moreover have "\<forall>c'. c' \<noteq> c \<longrightarrow> one_inv (clients ?g c')" "num_clients ?g = length (xs @ [c])" using xs by (simp_all add: rest_inv_def)
    ultimately have "rest_inv c ?g (xs @ [c])" by (simp add: rest_inv_def)
    from rest_sys[OF this] \<open>one_inv x\<close> have "sys_inv ?g" by simp
    moreover have "tcp_step al (Accept malloc auth addr ok) g = Inr (ERR_OK, ?g, [])"
      using Some r(1) s by (simp add: listener_accept_func_def x_def)
    moreover have "hist_inv (clients ?g c') (count (Accept malloc auth addr ok) g ERR_OK [] H c')" for c'
      using hi hn[of x] Some by (cases "c' = c") (simp_all add: x_def)
    ultimately show ?thesis unfolding tcp_good_def by auto
  qed
qed

lemma tcp_legal_good:
  assumes al: "mem_ok al" and inv: "sys_inv g" and li: "\<not> log_info g" and hi: "\<forall>c. hist_inv (clients g c) (H c)" and legal: "tcp_legal e g"
  shows "tcp_good al e g H"
proof -
  have r: "\<exists>xs. rest_inv c g xs" and one: "one_inv (clients g c)" for c using sys_rest[OF inv] inv by (simp_all add: sys_inv_def)
  note hc = hi[rule_format]
  show ?thesis
  proof (cases e)
    case (Accept malloc auth addr ok)
    then show ?thesis using accept_good[OF inv hi] legal by simp
  next
    case (ClientErr c)
    obtain xs where "rest_inv c g xs" using r by blast
    with ClientErr legal hc show ?thesis
      by (intro fine_good[where h = "\<lambda>_ _. H c" and c = c, OF _ _ hi]) (simp_all only: client_err_fine[OF _ one] tcp_legal.simps count.simps fun_upd_triv)
  next
    case (ClientRecv c p)
    obtain xs where xs: "rest_inv c g xs" using r by blast
    show ?thesis unfolding ClientRecv
      by (rule fine_good[OF client_recv_fine[OF xs one _ _ _ hc refl] _ hi]) (use legal ClientRecv in \<open>auto split: option.splits\<close>)
  next
    case (ClientSent c lw len)
    obtain xs where xs: "rest_inv c g xs" using r by blast
    show ?thesis unfolding ClientSent
      by (rule fine_good[where h = "\<lambda>_ d. (H c)\<lparr>to_client := to_client (H c) @ d\<rparr>", OF client_sent_fine[OF xs one _ _ _ _ hc] _ hi])
        (use legal ClientSent in auto)
  next
    case (SocksStep c i)
    obtain xs where xs: "rest_inv c g xs" using r by blast
    show ?thesis unfolding SocksStep
      by (rule fine_good[where h = "\<lambda>_ _. H c", OF socks_step_fine[OF al xs one _ _ hc] _ hi]) (use legal SocksStep in auto)
  next
    case (SocksSendDone c n)
    obtain xs where xs: "rest_inv c g xs" using r by blast
    obtain m where m: "send_op (clients g c) = Some m" "0 < n" "n \<le> m" using legal SocksSendDone by (auto split: option.splits)
    show ?thesis unfolding SocksSendDone
      by (rule fine_good[where h = "\<lambda>_ _. (H c)\<lparr>to_socks := to_socks (H c) @ take n (buf (clients g c))\<rparr>",
            OF sender_fine[OF xs one m hc] _ hi]) auto
  next
    case (SocksRecvDone c lw d)
    obtain xs where xs: "rest_inv c g xs" using r by blast
    show ?thesis unfolding SocksRecvDone
      by (rule fine_good[where h = "\<lambda>_ ds. (H c)\<lparr>from_socks := from_socks (H c) @ d, to_client := to_client (H c) @ ds\<rparr>",
            OF recv_done_fine[OF xs one _ li _ _ hc] _ hi]) (use legal SocksRecvDone in auto)
  qed
qed

lemma tcp_reachable_inv:
  assumes "tcp_reachable al False g H" and "mem_ok al"
  shows "sys_inv g \<and> \<not> log_info g \<and> (\<forall>c. hist_inv (clients g c) (H c))"
  using assms(1)
proof induction
  case (start m l)
  have "one_inv (m c)" "hist_inv (m c) \<lparr>from_client = [], to_socks = [], from_socks = [], to_client = []\<rparr>" "\<not> allocated (m c)" for c
    using start[of c] by (auto simp: one_inv_def free_inv_def memory_part_def hist_inv_def)
  with Init_rep[of l] show ?case by (auto simp: sys_inv_def)
next
  case (step g H e r g' ds)
  then have "tcp_good al e g H" using tcp_legal_good[OF assms(2)] by blast
  with step show ?case by (auto simp: tcp_good_def)
qed

section \<open>The end of the program\<close>

lemma murder_ok:
  assumes r: "rest_inv c g xs" and one: "one_inv (clients g c)" and a: "allocated (clients g c)"
  shows "\<exists>g'. client_murder c g = Inr g' \<and> rest_inv c g' (remove1 c xs) \<and> one_inv (clients g' c)"
proof -
  let ?x = "clients g c"
  have i: "conn_inv ?x" using one a by (simp add: one_inv_def)
  note p = conn_parts[OF i]
  define y where "y = (if client_closed ?x then ?x else (drop_pcb ?x)\<lparr>client_closed := True\<rparr>)"
  have y: "allocated y" "memory_part y" "\<not> pcb_valid y" "client_closed y" "socks_client y = socks_client ?x" "socks_closed y = socks_closed ?x"
    "send_op y = send_op ?x" "recv_op y = recv_op ?x"
    using a p(1,3) by (auto simp: y_def memory_part_def pcb_part_def drop_pcb_def)
  have "\<exists>z. client_murder c g = client_dealloc c (store c z g) \<and> allocated z \<and> memory_part z \<and> \<not> pcb_valid z \<and> client_closed z
      \<and> socks_closed z \<and> send_op z = None \<and> \<not> recv_op z"
  proof (cases "socks_closed ?x")
    case True
    then have "send_op ?x = None" "\<not> recv_op ?x" using p(5) by (auto simp: op_part_def)
    with True y a p(3) show ?thesis by (intro exI[of _ y]) (auto simp: client_murder_def y_def pcb_part_def)
  next
    case False
    obtain s where s: "BSocksClient_Free (cl (socks_client ?x)) = Inr s"
      using BSocksClient_Free_ok[OF conversing_resources[OF p(6)[OF False]]] by blast
    let ?z = "y\<lparr>socks_client := (socks_client ?x)\<lparr>cl := s\<rparr>, send_op := None, recv_op := False, socks_closed := True\<rparr>"
    have "client_murder c g = client_dealloc c (store c ?z g)"
      using False y(5) s a p(3) by (auto simp: client_murder_def y_def pcb_part_def)
    with y show ?thesis by (intro exI[of _ ?z]) (simp add: memory_part_def)
  qed
  then obtain z where z: "client_murder c g = client_dealloc c (store c z g)" "allocated z" "client_closed z" "socks_closed z" "memory_part z"
    "\<not> pcb_valid z" "send_op z = None" "\<not> recv_op z" by blast
  have rz: "rest_inv c (store c z g) xs" using r a z(2) by simp
  note d = dealloc_ok[OF rz, unfolded store_simps(1), OF z(2-8)]
  from d z(1) show ?thesis by (auto simp: settled_def)
qed

lemma murder_clients_ok:
  assumes "rest_inv c g xs" and "one_inv (clients g c)"
  shows "\<exists>g'. murder_clients g = Some (Inr g') \<and> rest_inv c g' [] \<and> one_inv (clients g' c)"
  using assms
proof (induction xs arbitrary: g)
  case Nil
  then have "LinkedList1_GetFirst (tcp_clients g) = None" using First_rep[of "tcp_clients g" "[]"] by (simp add: rest_inv_def)
  then show ?case using Nil by (subst murder_clients.simps) simp
next
  case (Cons a xs)
  have f: "LinkedList1_GetFirst (tcp_clients g) = Some a" using Cons(2) First_rep[of "tcp_clients g" "a # xs"] by (simp add: rest_inv_def)
  have all: "one_inv (clients g c')" for c' using Cons(2,3) by (cases "c' = c") (simp_all add: rest_inv_def)
  then have "rest_inv a g (a # xs)" "one_inv (clients g a)" "allocated (clients g a)" using Cons(2) by (simp_all add: rest_inv_def)
  from murder_ok[OF this] obtain g' where g': "client_murder a g = Inr g'" "rest_inv a g' xs" "one_inv (clients g' a)" by auto
  then have "one_inv (clients g' c')" for c' by (cases "c' = a") (simp_all add: rest_inv_def)
  with g'(2) have "rest_inv c g' xs" "one_inv (clients g' c)" by (simp_all add: rest_inv_def)
  from Cons(1)[OF this] f g'(1) show ?case by (subst murder_clients.simps) simp
qed

section \<open>Progress\<close>

text \<open>The events by which something that a connection has started is completed.\<close>

fun completes :: "nat \<Rightarrow> tcp_event \<Rightarrow> bool" where
  "completes c (SocksStep c' i) \<longleftrightarrow> c' = c \<and> (case i of ConEvent _ \<Rightarrow> False | _ \<Rightarrow> True)"
| "completes c (SocksSendDone c' n) \<longleftrightarrow> c' = c"
| "completes c (SocksRecvDone c' lw d) \<longleftrightarrow> c' = c"
| "completes c (ClientSent c' lw len) \<longleftrightarrow> c' = c"
| "completes c _ \<longleftrightarrow> False"

lemma socks_waits:
  assumes "socks_inv c0 s" and "alive s" and "BSocksClient.state (cl s) \<noteq> UP"
  shows "\<exists>i. enabled i s \<and> completes c (SocksStep c i)"
proof -
  have ph: "phase s" using assms(1,2) by (simp add: socks_inv_def)
  consider "BSocksClient.state (cl s) = CONNECTING" | "tx s \<noteq> None" | off n where "rx s = Some (off, n)" "0 < n"
    using ph assms(3) by (cases "BSocksClient.state (cl s)") (auto simp: phase_def Let_def BSocksClient.sending_def receiving_def)
  then show ?thesis
  proof cases
    case 1
    with assms(2) show ?thesis by (intro exI[of _ "Connected True False"]) simp
  next
    case 2
    with assms(2) show ?thesis by (intro exI[of _ SendDone]) simp
  next
    case 3
    with assms(2) show ?thesis by (intro exI[of _ "Received [0]"]) simp
  qed
qed

lemma conn_progress:
  assumes i: "conn_inv (clients g c)"
  shows "\<exists>e. tcp_legal e g \<and> completes c e"
proof -
  let ?x = "clients g c"
  note p = conn_parts[OF i]
  consider (shake) "\<not> socks_up ?x" "\<not> socks_closed ?x" | (send) m where "send_op ?x = Some m" "0 < m" | (recv) "recv_op ?x"
    | (confirm) "pcb_valid ?x" "sent_func ?x" "1 \<le> socks_recv_tcp_pending ?x"
    using p(3,4,5,7,8) by (cases "socks_up ?x"; cases "client_closed ?x"; cases "socks_closed ?x")
      (auto simp: pcb_part_def recv_part_def op_part_def)
  then show ?thesis
  proof cases
    case shake
    then obtain c0 where "socks_inv c0 (socks_client ?x)" "alive (socks_client ?x)" "BSocksClient.state (cl (socks_client ?x)) \<noteq> UP"
      using p(6) by (auto simp: conversing_def)
    from socks_waits[OF this, of c] obtain i where "enabled i (socks_client ?x)" "completes c (SocksStep c i)" by blast
    with shake show ?thesis by (intro exI[of _ "SocksStep c i"]) simp
  next
    case send
    then show ?thesis by (intro exI[of _ "SocksSendDone c m"]) simp
  next
    case recv
    then show ?thesis by (intro exI[of _ "SocksRecvDone c lw [0]"]) (simp add: CLIENT_SOCKS_RECV_BUF_SIZE_def)
  next
    case confirm
    then show ?thesis by (intro exI[of _ "ClientSent c lw 1"]) simp
  qed
qed

section \<open>A concrete connection\<close>

definition tcp_mem :: "nat \<Rightarrow> tcp_client" where
  "tcp_mem c = \<lparr>allocated = False, pcb_valid = False, err_func = False, recv_func = False, sent_func = False, client_closed = True,
     buf = replicate TCP_WND 0, buf_used = 0, socks_client = socks_start demo_client, socks_up = False, socks_closed = True,
     send_op = None, recv_op = False, socks_recv_buf = replicate CLIENT_SOCKS_RECV_BUF_SIZE 0, socks_recv_buf_used = -1,
     socks_recv_buf_sent = 0, socks_recv_waiting = False, socks_recv_tcp_pending = 0\<rparr>"

definition tcp_start :: "bool \<Rightarrow> tcp_sys" where
  "tcp_start li = \<lparr>clients = tcp_mem, tcp_clients = LinkedList1_Init \<lparr>ll_first = None, ll_last = None, ll_node = \<lambda>_. \<lparr>ll_p = None, ll_n = None\<rparr>\<rparr>,
     num_clients = 0, log_info = li\<rparr>"

definition tcp_conn :: tcp_client where
  "tcp_conn = (tcp_mem 0)\<lparr>allocated := True, pcb_valid := True, client_closed := False, err_func := True, recv_func := True,
     socks_closed := False\<rparr>"

definition tcp_one :: "bool \<Rightarrow> tcp_sys" where
  "tcp_one li = (store 0 tcp_conn (tcp_start li))\<lparr>tcp_clients := LinkedList1_Append 0 (tcp_clients (tcp_start li)), num_clients := 1\<rparr>"

definition no_traffic :: "nat \<Rightarrow> traffic" where
  "no_traffic = (\<lambda>_. \<lparr>from_client = [], to_socks = [], from_socks = [], to_client = []\<rparr>)"

lemma tcp_one_reachable: "tcp_reachable demo_mem li (tcp_one li) no_traffic"
proof -
  have "tcp_reachable demo_mem li (tcp_start li) no_traffic"
    unfolding tcp_start_def no_traffic_def by (rule tcp_reachable.start) (simp add: tcp_mem_def)
  moreover have "tcp_legal (Accept (Some 0) demo_auth (IPv4 [1, 2, 3, 4] [0, 80]) True) (tcp_start li)"
    using demo_facts(2) by (auto simp: tcp_start_def tcp_mem_def demo_auth_def METHOD_NONE_def METHOD_PASSWORD_def)
  moreover have "tcp_step demo_mem (Accept (Some 0) demo_auth (IPv4 [1, 2, 3, 4] [0, 80]) True) (tcp_start li) = Inr (ERR_OK, tcp_one li, [])"
    using demo_facts(3) by (simp add: listener_accept_func_def tcp_one_def tcp_conn_def tcp_start_def tcp_mem_def store_def)
  ultimately have "tcp_reachable demo_mem li (tcp_one li)
      (count (Accept (Some 0) demo_auth (IPv4 [1, 2, 3, 4] [0, 80]) True) (tcp_start li) ERR_OK [] no_traffic)" by (rule tcp_reachable.step)
  then show ?thesis by (simp add: no_traffic_def fun_upd_idem)
qed

lemma tcp_one_fields:
  "clients (tcp_one li) 0 = tcp_conn" "log_info (tcp_one li) = li" "allocated tcp_conn" "\<not> socks_closed tcp_conn" "\<not> socks_up tcp_conn"
  "pcb_valid tcp_conn" "recv_func tcp_conn" "\<not> client_closed tcp_conn" "buf_used tcp_conn = 0" "socks_client tcp_conn = socks_start demo_client"
  "length (buf tcp_conn) = TCP_WND" "num_clients (tcp_one li) = 1" "\<not> sent_func tcp_conn" "length (socks_recv_buf tcp_conn) = CLIENT_SOCKS_RECV_BUF_SIZE"
  by (simp_all add: tcp_one_def tcp_start_def tcp_conn_def tcp_mem_def store_def)

text \<open>One byte from the client, before the SOCKS server has answered.\<close>

lemma tcp_byte_reachable:
  "\<exists>g. tcp_reachable demo_mem False g (no_traffic(0 := (no_traffic 0)\<lparr>from_client := [7]\<rparr>)) \<and> allocated (clients g 0)
     \<and> pcb_valid (clients g 0) \<and> recv_func (clients g 0)"
proof -
  let ?x = "tcp_conn\<lparr>buf := write_at 0 [7] (buf tcp_conn), buf_used := 1\<rparr>" and ?g = "tcp_one False"
  have "tcp_step demo_mem (ClientRecv 0 (Some [7])) ?g = Inr (ERR_OK, store 0 ?x ?g, [])"
    by (simp add: client_recv_func_def tcp_one_fields TCP_WND_def TCP_MSS_def)
  moreover have "tcp_legal (ClientRecv 0 (Some [7])) ?g" by (simp add: tcp_one_fields)
  ultimately have "tcp_reachable demo_mem False (store 0 ?x ?g) (count (ClientRecv 0 (Some [7])) ?g ERR_OK [] no_traffic)"
    using tcp_reachable.step[OF tcp_one_reachable] by blast
  then show ?thesis by (intro exI[of _ "store 0 ?x ?g"]) (simp add: no_traffic_def tcp_one_fields)
qed

text \<open>A handshake as steps of a connection.\<close>

lemma run_evs: "socks_run al xs s = Some s' \<Longrightarrow> length (evs s) \<le> length (evs s')"
proof (induction xs arbitrary: s)
  case (Cons x xs)
  then obtain s1 where s1: "respond al x s = Inr s1" "socks_run al xs s1 = Some s'" by (auto split: if_splits sum.splits)
  from Cons(1)[OF s1(2)] respond_events[OF s1(1)] show ?case by auto
qed simp

lemma handshake:
  assumes "tcp_reachable al li g H" and "\<not> socks_closed (clients g c)" and "socks_run al xs (socks_client (clients g c)) = Some s'"
    and "evs s' = evs (socks_client (clients g c))"
  shows "tcp_reachable al li (store c ((clients g c)\<lparr>socks_client := s'\<rparr>) g) H"
  using assms
proof (induction xs arbitrary: g)
  case (Cons x xs)
  let ?s = "socks_client (clients g c)"
  obtain s1 where s1: "enabled x ?s" "respond al x ?s = Inr s1" "socks_run al xs s1 = Some s'"
    using Cons(4) by (auto split: if_splits sum.splits)
  have e: "evs s1 = evs ?s" using run_evs[OF s1(3)] respond_events[OF s1(2)] Cons(5) by auto
  let ?g = "store c ((clients g c)\<lparr>socks_client := s1\<rparr>) g"
  have "tcp_step al (SocksStep c x) g = Inr (ERR_OK, ?g, [])" using s1(2) e by simp
  moreover have "tcp_legal (SocksStep c x) g" using Cons(3) s1(1) by simp
  ultimately have "tcp_reachable al li ?g (count (SocksStep c x) g ERR_OK [] H)" using tcp_reachable.step[OF Cons(2)] by blast
  then have "tcp_reachable al li ?g H" by simp
  from Cons(1)[OF this] Cons(3,5) s1(3) e show ?case by simp
next
  case Nil
  then have s: "s' = socks_client (clients g c)" by simp
  show ?case unfolding s using Nil(1) by simp
qed

lemma run_snoc:
  "socks_run al (xs @ [x]) s = Some s' \<Longrightarrow> \<exists>s1. socks_run al xs s = Some s1 \<and> enabled x s1 \<and> respond al x s1 = Inr s'"
  by (induction xs arbitrary: s) (auto split: if_splits sum.splits)

lemma demo_last_input:
  "demo_inputs = butlast demo_inputs @ [Received [127, 0, 0, 1, 0, 0]]"
  "map_option evs (socks_run demo_mem (butlast demo_inputs) (socks_start demo_client)) = Some []"
  subgoal by (simp add: demo_inputs_def)
  subgoal by code_simp
  done

definition tcp_up :: "bool \<Rightarrow> tcp_sys" where
  "tcp_up li = store 0 (tcp_conn\<lparr>socks_client := demo_end, socks_up := True, sent_func := True, send_op := None, recv_op := True,
     socks_recv_buf_used := -1, socks_recv_tcp_pending := 0\<rparr>) (tcp_one li)"

lemma tcp_up_reachable: "tcp_reachable demo_mem li (tcp_up li) no_traffic"
proof -
  obtain s1 where s1: "socks_run demo_mem (butlast demo_inputs) (socks_start demo_client) = Some s1"
      "enabled (Received [127, 0, 0, 1, 0, 0]) s1" "respond demo_mem (Received [127, 0, 0, 1, 0, 0]) s1 = Inr demo_end"
    using run_snoc[of demo_mem "butlast demo_inputs" "Received [127, 0, 0, 1, 0, 0]" "socks_start demo_client" demo_end]
      demo_facts(4) by (auto simp: demo_last_input(1)[symmetric])
  have e1: "evs s1 = []" using s1(1) demo_last_input(2) by simp
  let ?g = "store 0 (tcp_conn\<lparr>socks_client := s1\<rparr>) (tcp_one li)" and ?e = "SocksStep 0 (Received [127, 0, 0, 1, 0, 0])"
  have "tcp_reachable demo_mem li ?g no_traffic"
    using handshake[OF tcp_one_reachable, where c = 0] s1(1) e1 by (simp add: tcp_one_fields socks_start_def)
  moreover have "tcp_legal ?e ?g" using s1(2) by (simp add: tcp_one_fields)
  moreover have "tcp_step demo_mem ?e ?g = Inr (ERR_OK, tcp_up li, [])"
    using s1(3) e1 demo_run by (simp add: client_socks_handler_def client_socks_recv_initiate_def tcp_one_fields tcp_up_def Let_def store_eq)
  ultimately have "tcp_reachable demo_mem li (tcp_up li) (count ?e ?g ERR_OK [] no_traffic)" by (rule tcp_reachable.step)
  then show ?thesis by simp
qed

section \<open>Properties\<close>


text \<open>
  C4. A connection copies both streams unchanged: what was sent to the SOCKS server is a prefix of what the client sent, and the
  rest is in the buffer as long as the connection exists; what was given to lwip for the client is a prefix of what the SOCKS server
  sent, and the rest is the part of the other buffer not yet written as long as the client has not closed its side.
\<close>

theorem tcp_relay_data:
  assumes "tcp_reachable al False g H" and "mem_ok al"
  shows "(\<exists>rest. from_client (H c) = to_socks (H c) @ rest) \<and> (\<exists>rest. from_socks (H c) = to_client (H c) @ rest)
    \<and> (allocated (clients g c) \<longrightarrow> from_client (H c) = to_socks (H c) @ take (buf_used (clients g c)) (buf (clients g c)))
    \<and> (allocated (clients g c) \<and> socks_up (clients g c) \<and> \<not> client_closed (clients g c)
        \<longrightarrow> from_socks (H c) = to_client (H c) @ unsent (clients g c))"
proof -
  have "hist_inv (clients g c) (H c)" using tcp_reachable_inv[OF assms] by blast
  then show ?thesis unfolding hist_inv_def by blast
qed




theorem tcp_relay_data_witness:
  "\<exists>g H. tcp_reachable demo_mem False g H \<and> from_client (H 0) = [7]
     \<and> [7] = to_socks (H 0) @ take (buf_used (clients g 0)) (buf (clients g 0))"
proof -
  from tcp_byte_reachable obtain g where g: "tcp_reachable demo_mem False g (no_traffic(0 := (no_traffic 0)\<lparr>from_client := [7]\<rparr>))"
    "allocated (clients g 0)" by blast
  from tcp_relay_data[OF g(1) demo_facts(1), of 0] g show ?thesis
    by (intro exI[of _ g] exI[of _ "no_traffic(0 := (no_traffic 0)\<lparr>from_client := [7]\<rparr>)"]) simp
qed


end
